(* ===== verification/YPrelude.thy ===== *)
theory YPrelude
  imports Main "HOL-Library.Word" "HOL-Library.Char_ord"
begin

text \<open>
  Shared vocabulary of the development: byte strings, the parts of the C library that the
  modelled code calls (string scanning, \<open>atoi\<close>/\<open>strtol\<close>, \<open>printf\<close> of integers, truncating
  \<open>snprintf("%s")\<close>, little-endian \<open>memcpy\<close> of integers) and the generic lemmas the component
  theories share. A C string is the \<open>char list\<close> before its terminator; a byte buffer is a
  \<open>char list\<close> as well. Little-endian hosts are assumed, as all supported targets are.
\<close>

named_theorems c_lib \<open>definitions of the C library functions of the model\<close>

type_synonym u8 = "8 word"
type_synonym u16 = "16 word"
type_synonym u32 = "32 word"
type_synonym u64 = "64 word"
type_synonym bytes = string

subsection \<open>What a call can do\<close>

text \<open>
  A modelled call returns a value, never returns (an endless loop), or leaves the C object
  it works on (a read or write outside a buffer, a null dereference).
\<close>

datatype 'a run = Ret 'a | Diverge | Fault

fun run_bind :: "'a run \<Rightarrow> ('a \<Rightarrow> 'b run) \<Rightarrow> 'b run" where
  "run_bind (Ret x) f = f x"
| "run_bind Diverge f = Diverge"
| "run_bind Fault f = Fault"

lemma run_bind_Ret: "run_bind r f = Ret y \<longleftrightarrow> (\<exists>x. r = Ret x \<and> f x = Ret y)"
  by (cases r) auto

subsection \<open>Character classes\<close>

abbreviation SP :: char where "SP \<equiv> CHR 0x20"
abbreviation TAB :: char where "TAB \<equiv> CHR 0x09"
abbreviation LF :: char where "LF \<equiv> CHR 0x0A"
abbreviation CR :: char where "CR \<equiv> CHR 0x0D"
abbreviation DQ :: char where "DQ \<equiv> CHR 0x22"
abbreviation SQ :: char where "SQ \<equiv> CHR 0x27"
abbreviation BSL :: char where "BSL \<equiv> CHR 0x5C"

definition code :: "char \<Rightarrow> nat" where
  "code c = of_char c"

definition is_digit :: "char \<Rightarrow> bool" where
  "is_digit c \<longleftrightarrow> 48 \<le> code c \<and> code c \<le> 57"

text \<open>\<open>isspace\<close> in the C locale: blank, \<open>\t\<close>, \<open>\n\<close>, \<open>\v\<close>, \<open>\f\<close>, \<open>\r\<close>.\<close>

definition is_space :: "char \<Rightarrow> bool" where
  "is_space c \<longleftrightarrow> c = SP \<or> (9 \<le> code c \<and> code c \<le> 13)"

lemma code_less_256 [simp]: "code c < 256"
  by (simp add: code_def)

lemma code_char_of [simp]: "n < 256 \<Longrightarrow> code (char_of n) = n"
  by (simp add: code_def)

lemma char_of_code [simp]: "char_of (code c) = c"
  by (simp add: code_def)

lemma code_inject [simp]: "code a = code b \<longleftrightarrow> a = b"
  by (simp add: code_def)

lemma space_not_digit [simp]: "is_space c \<Longrightarrow> \<not> is_digit c"
  by (auto simp: is_space_def is_digit_def code_def)

subsection \<open>Scanning C strings\<close>

text \<open>\<open>strncmp(s, k, strlen(k)) == 0\<close>: the string \<open>s\<close> starts with \<open>k\<close>.\<close>

definition starts :: "string \<Rightarrow> string \<Rightarrow> bool" where
  "starts k s \<longleftrightarrow> take (length k) s = k"

text \<open>\<open>strchr\<close>: what follows (and includes) the first occurrence.\<close>

definition strchr :: "string \<Rightarrow> char \<Rightarrow> string option" where
  "strchr s c = (case dropWhile (\<lambda>x. x \<noteq> c) s of [] \<Rightarrow> None | t \<Rightarrow> Some t)"

definition strrchr :: "string \<Rightarrow> char \<Rightarrow> string option" where
  "strrchr s c =
     (if c \<in> set s then Some (c # rev (takeWhile (\<lambda>x. x \<noteq> c) (rev s))) else None)"

text \<open>\<open>strstr\<close>: the suffix at the first occurrence of \<open>k\<close>.\<close>

fun strstr :: "string \<Rightarrow> string \<Rightarrow> string option" where
  "strstr [] k = (if k = [] then Some [] else None)"
| "strstr (c # s) k = (if starts k (c # s) then Some (c # s) else strstr s k)"

text \<open>\<open>snprintf(buf, n, "%s", s)\<close> into a buffer of \<open>n\<close> bytes.\<close>

definition snprintf_s :: "nat \<Rightarrow> string \<Rightarrow> string" where
  "snprintf_s n s = take (n - 1) s"

text \<open>\<open>strncat\<close> into a buffer of \<open>n\<close> bytes.\<close>

definition strncat_s :: "nat \<Rightarrow> string \<Rightarrow> string \<Rightarrow> string" where
  "strncat_s n buf s = buf @ take (n - length buf - 1) s"

definition skip_sp :: "string \<Rightarrow> string" where
  "skip_sp s = dropWhile (\<lambda>c. c = SP) s"

definition word_sp :: "string \<Rightarrow> string" where
  "word_sp s = takeWhile (\<lambda>c. c \<noteq> SP) s"

definition after_word :: "string \<Rightarrow> string" where
  "after_word s = dropWhile (\<lambda>c. c \<noteq> SP) s"

lemma starts_append [simp]: "starts k (k @ s)"
  by (simp add: starts_def)

lemma starts_iff: "starts k s \<longleftrightarrow> (\<exists>t. s = k @ t)"
  unfolding starts_def by (metis append_eq_conv_conj append_take_drop_id)

lemma starts_Nil [simp]: "starts [] s" "starts k [] \<longleftrightarrow> k = []"
  by (auto simp: starts_def)

lemma starts_Cons [simp]: "starts (c # k) (d # s) \<longleftrightarrow> c = d \<and> starts k s"
  by (auto simp: starts_def)

lemma length_skip_sp [simp]: "length (skip_sp s) \<le> length s"
  by (simp add: skip_sp_def length_dropWhile_le)

lemma length_after_word [simp]: "length (after_word s) \<le> length s"
  by (simp add: after_word_def length_dropWhile_le)

lemma length_snprintf_s: "0 < n \<Longrightarrow> length (snprintf_s n s) < n"
  by (auto simp: snprintf_s_def)

lemma snprintf_s_fits [simp]: "length s < n \<Longrightarrow> snprintf_s n s = s"
  by (simp add: snprintf_s_def)

lemma dropWhile_neq_Cons: "dropWhile (\<lambda>x. x \<noteq> c) s = d # t \<Longrightarrow> d = c"
  by (induction s) (auto split: if_splits)

lemma strchr_Some_hd: "strchr s c = Some t \<Longrightarrow> \<exists>u. t = c # u"
  using dropWhile_neq_Cons[of c s]
  by (cases "dropWhile (\<lambda>x. x \<noteq> c) s") (auto simp: strchr_def)

lemma strchr_None_iff: "strchr s c = None \<longleftrightarrow> c \<notin> set s"
  by (induction s) (auto simp: strchr_def)

lemma takeWhile_no: "c \<notin> set a \<Longrightarrow> takeWhile (\<lambda>x. x \<noteq> c) (a @ c # b) = a"
  by (induction a) auto

lemma dropWhile_no: "c \<notin> set a \<Longrightarrow> dropWhile (\<lambda>x. x \<noteq> c) (a @ c # b) = c # b"
  by (induction a) auto

lemma takeWhile_no_end [simp]: "c \<notin> set a \<Longrightarrow> takeWhile (\<lambda>x. x \<noteq> c) a = a"
  by (induction a) auto

lemma dropWhile_no_end [simp]: "c \<notin> set a \<Longrightarrow> dropWhile (\<lambda>x. x \<noteq> c) a = []"
  by (induction a) auto

lemma strchr_append: "c \<notin> set a \<Longrightarrow> strchr (a @ c # b) c = Some (c # b)"
  by (simp add: strchr_def dropWhile_no)

subsection \<open>Integers in decimal: \<open>printf("%d")\<close>, \<open>printf("%zu")\<close>, \<open>strtol\<close>, \<open>atoi\<close>\<close>

definition digit_char :: "nat \<Rightarrow> char" where
  "digit_char d = char_of (48 + d)"

fun show_nat :: "nat \<Rightarrow> string" where
  "show_nat n = (if n < 10 then [digit_char n] else show_nat (n div 10) @ [digit_char (n mod 10)])"

declare show_nat.simps [simp del]

definition show_int :: "int \<Rightarrow> string" where
  "show_int i = (if i < 0 then ''-'' @ show_nat (nat (- i)) else show_nat (nat i))"

fun digits_val :: "nat \<Rightarrow> string \<Rightarrow> nat" where
  "digits_val acc [] = acc"
| "digits_val acc (c # s) =
     (if is_digit c then digits_val (10 * acc + (code c - 48)) s else acc)"

text \<open>\<open>strtol(s, NULL, 10)\<close> on a 64-bit \<open>long\<close>: it saturates; \<open>atoi\<close> is its value cast to
  \<open>int\<close>, as in glibc.\<close>

definition strtol_raw :: "string \<Rightarrow> int" where
  "strtol_raw s =
     (case dropWhile is_space s of
        [] \<Rightarrow> 0
      | c # t \<Rightarrow>
          if c = CHR ''-'' then - int (digits_val 0 t)
          else if c = CHR ''+'' then int (digits_val 0 t)
          else int (digits_val 0 (c # t)))"

definition atol :: "string \<Rightarrow> int" where
  "atol s = max (- (2 ^ 63)) (min (2 ^ 63 - 1) (strtol_raw s))"

text \<open>\<open>strtoul\<close> and \<open>strtoull\<close> saturate, and negate a number with a minus sign in the type.\<close>

definition strtoull :: "string \<Rightarrow> u64" where
  "strtoull s = (let v = strtol_raw s in if \<bar>v\<bar> < 2 ^ 64 then word_of_int v else - 1)"

definition atoi :: "string \<Rightarrow> int" where
  "atoi s = sint (word_of_int (atol s) :: u32)"

lemma not_digit_lits [simp]:
  "\<not> is_digit SP" "\<not> is_digit LF" "\<not> is_digit CR" "\<not> is_digit CHR 0x00" "\<not> is_digit TAB"
  "\<not> is_digit DQ" "\<not> is_digit BSL" "\<not> is_digit CHR ''=''" "\<not> is_digit CHR ''.''"
  "\<not> is_digit CHR ''-''" "\<not> is_digit CHR '':''" "\<not> is_digit CHR '',''" "\<not> is_digit CHR ''}''"
  "\<not> is_digit CHR '']''" "\<not> is_digit CHR ''/''" "\<not> is_digit CHR ''+''"
  by (simp_all add: is_digit_def code_def)

lemma digit_neq: "is_digit c \<Longrightarrow> \<not> is_digit d \<Longrightarrow> c \<noteq> d"
  by auto

lemma digit_chars [simp]:
  "digit_char 0 = CHR ''0''" "digit_char (Suc 0) = CHR ''1''" "digit_char 1 = CHR ''1''" "digit_char 2 = CHR ''2''"
  "digit_char 3 = CHR ''3''" "digit_char 4 = CHR ''4''" "digit_char 5 = CHR ''5''"
  "digit_char 6 = CHR ''6''" "digit_char 7 = CHR ''7''" "digit_char 8 = CHR ''8''"
  "digit_char 9 = CHR ''9''"
  by code_simp+

lemma is_digit_digit_char [simp]: "d < 10 \<Longrightarrow> is_digit (digit_char d)"
  by (simp add: is_digit_def digit_char_def)

lemma code_digit_char [simp]: "d < 10 \<Longrightarrow> code (digit_char d) = 48 + d"
  by (simp add: digit_char_def)

lemma show_nat_digits: "c \<in> set (show_nat n) \<Longrightarrow> is_digit c"
proof (induction n rule: show_nat.induct)
  case (1 n)
  then show ?case
    by (cases "n < 10") (auto simp: show_nat.simps[of n])
qed

lemma show_nat_nonempty [simp]: "show_nat n \<noteq> []"
  by (subst show_nat.simps) simp

lemma length_show_nat: "n < 10 ^ k \<Longrightarrow> 0 < k \<Longrightarrow> length (show_nat n) \<le> k"
proof (induction n arbitrary: k rule: show_nat.induct)
  case (1 n)
  show ?case
  proof (cases "n < 10")
    case True
    then show ?thesis using 1 by (simp add: show_nat.simps[of n])
  next
    case False
    then obtain j where k: "k = Suc j" "0 < j" using 1 by (cases k; cases "k - 1") auto
    have "n div 10 < 10 ^ j" using 1(2) k by (simp add: less_mult_imp_div_less)
    then show ?thesis using "1.IH"[of j] False k by (simp add: show_nat.simps[of n])
  qed
qed

lemma digits_val_append:
  "(\<And>c. c \<in> set a \<Longrightarrow> is_digit c) \<Longrightarrow>
   digits_val acc (a @ b) = digits_val (digits_val acc a) b"
  by (induction a arbitrary: acc) auto

lemma digits_val_show_nat: "digits_val 0 (show_nat n) = n"
proof (induction n rule: show_nat.induct)
  case (1 n)
  show ?case
  proof (cases "n < 10")
    case True
    then show ?thesis by (simp add: show_nat.simps[of n])
  next
    case False
    then have "digits_val 0 (show_nat n) =
        digits_val (digits_val 0 (show_nat (n div 10))) [digit_char (n mod 10)]"
      by (subst show_nat.simps) (simp add: digits_val_append show_nat_digits)
    also have "\<dots> = n"
      using 1 False by simp
    finally show ?thesis .
  qed
qed

definition ends_number :: "string \<Rightarrow> bool" where
  "ends_number r \<longleftrightarrow> (case r of [] \<Rightarrow> True | c # _ \<Rightarrow> \<not> is_digit c)"

lemma ends_number_simps [simp]: "ends_number []" "ends_number (c # r) \<longleftrightarrow> \<not> is_digit c"
  by (simp_all add: ends_number_def)

lemma digits_val_stop: "ends_number r \<Longrightarrow> digits_val acc r = acc"
  by (cases r) auto

lemma digits_val_show_nat_append: "ends_number r \<Longrightarrow> digits_val 0 (show_nat n @ r) = n"
  by (simp add: digits_val_append show_nat_digits digits_val_show_nat digits_val_stop)

lemma digit_not_sign: "is_digit c \<Longrightarrow> c \<noteq> CHR ''-'' \<and> c \<noteq> CHR ''+'' \<and> \<not> is_space c"
  by (auto simp: is_digit_def is_space_def code_def)

lemma strtol_raw_show_nat: "ends_number r \<Longrightarrow> strtol_raw (show_nat n @ r) = int n"
proof -
  assume r: "ends_number r"
  obtain c t where ct: "show_nat n = c # t"
    by (cases "show_nat n") auto
  then have "is_digit c"
    using show_nat_digits[of c n] by simp
  then have "\<not> is_space c" "c \<noteq> CHR ''-''" "c \<noteq> CHR ''+''"
    using digit_not_sign by auto
  then have "strtol_raw (show_nat n @ r) = int (digits_val 0 (show_nat n @ r))"
    by (simp add: strtol_raw_def ct)
  then show ?thesis
    using r by (simp add: digits_val_show_nat_append)
qed

lemma atol_show_nat: "ends_number r \<Longrightarrow> n < 2 ^ 63 \<Longrightarrow> atol (show_nat n @ r) = int n"
  by (simp add: atol_def strtol_raw_show_nat)

lemma strtoull_show_nat: "ends_number r \<Longrightarrow> n < 2 ^ 64 \<Longrightarrow> strtoull (show_nat n @ r) = word_of_nat n"
  by (simp add: strtoull_def strtol_raw_show_nat)

lemma sint_word_of_int_small: "0 \<le> k \<Longrightarrow> k < 2 ^ 31 \<Longrightarrow> sint (word_of_int k :: u32) = k"
  by (simp add: signed_of_int signed_take_bit_int_eq_self)

lemma atoi_show_nat: "ends_number r \<Longrightarrow> n < 2 ^ 31 \<Longrightarrow> atoi (show_nat n @ r) = int n"
  using sint_word_of_int_small[of "int n"] by (simp add: atoi_def atol_show_nat)

lemma sint_word_of_int_range: "- (2 ^ 31) \<le> k \<Longrightarrow> k < 2 ^ 31 \<Longrightarrow> sint (word_of_int k :: u32) = k"
  by (simp add: signed_of_int signed_take_bit_int_eq_self)

lemma atoi_show_int:
  assumes "ends_number r" "- (2 ^ 31) \<le> i" "i < 2 ^ 31"
  shows "atoi (show_int i @ r) = i"
proof (cases "i < 0")
  case True
  have "strtol_raw (show_int i @ r) = i"
    using True assms(1) digits_val_show_nat_append[of r "nat (- i)"]
    by (simp add: show_int_def strtol_raw_def is_space_def code_def)
  then show ?thesis
    using assms sint_word_of_int_range[of i] by (simp add: atoi_def atol_def)
next
  case False
  then show ?thesis using assms atoi_show_nat[of r "nat i"] by (simp add: show_int_def)
qed

lemma show_int_chars: "c \<in> set (show_int i) \<Longrightarrow> is_digit c \<or> c = CHR ''-''"
  by (auto simp: show_int_def show_nat_digits split: if_splits)

lemma atoi_range: "- (2 ^ 31) \<le> atoi s \<and> atoi s < 2 ^ 31"
  unfolding atoi_def using sint_ge[of "word_of_int (atol s) :: u32"] sint_lt[of "word_of_int (atol s) :: u32"]
  by simp

subsection \<open>Little-endian integers\<close>

fun le_enc :: "nat \<Rightarrow> nat \<Rightarrow> bytes" where
  "le_enc 0 n = []"
| "le_enc (Suc k) n = char_of (n mod 256) # le_enc k (n div 256)"

fun le_dec :: "bytes \<Rightarrow> nat" where
  "le_dec [] = 0"
| "le_dec (c # cs) = code c + 256 * le_dec cs"

lemma length_le_enc [simp]: "length (le_enc k n) = k"
  by (induction k arbitrary: n) auto

lemma le_dec_enc: "le_dec (le_enc k n) = n mod 256 ^ k"
proof (induction k arbitrary: n)
  case (Suc k)
  have "n mod (256 * 256 ^ k) = 256 * (n div 256 mod 256 ^ k) + n mod 256"
    by (simp add: mod_mult2_eq)
  then show ?case by (simp add: Suc code_def)
qed simp

lemma le_enc_dec: "le_enc (length s) (le_dec s) = s"
  by (induction s) auto

lemma le_dec_bound: "le_dec s < 256 ^ length s"
proof (induction s)
  case (Cons c s)
  have "code c + 256 * le_dec s < 256 + 256 * le_dec s" by simp
  also have "\<dots> = 256 * Suc (le_dec s)" by simp
  also have "\<dots> \<le> 256 * 256 ^ length s"
    using Cons by (simp add: Suc_le_eq)
  finally show ?case by simp
qed simp

definition put32 :: "u32 \<Rightarrow> bytes" where
  "put32 w = le_enc 4 (unat w)"

definition get32 :: "bytes \<Rightarrow> u32" where
  "get32 s = word_of_nat (le_dec (take 4 s))"

lemma length_put32 [simp]: "length (put32 w) = 4"
  by (simp add: put32_def)

lemma unat_less_2p32 [simp]: "unat (w :: u32) < 4294967296"
  using unsigned_less[of w, where ?'a = nat] by simp

lemma unat_word_of_nat_small: "n < 4294967296 \<Longrightarrow> unat (word_of_nat n :: u32) = n"
  by (simp add: unat_of_nat)

lemma unat_word_of_nat_le: "k \<le> unat (w :: u32) \<Longrightarrow> unat (word_of_nat k :: u32) = k"
  using unat_less_2p32[of w] by (intro unat_word_of_nat_small) linarith

lemma get32_put32 [simp]: "get32 (put32 w @ s) = w"
  by (simp add: get32_def put32_def le_dec_enc)

lemma get32_put32_all [simp]: "get32 (put32 w) = w"
  using get32_put32[of w "[]"] by simp

lemma put32_get32: "4 \<le> length s \<Longrightarrow> put32 (get32 s) = take 4 s"
proof -
  assume "4 \<le> length s"
  then have l: "length (take 4 s) = 4" by simp
  have "le_dec (take 4 s) < 256 ^ 4"
    using le_dec_bound[of "take 4 s"] l by simp
  then have "unat (word_of_nat (le_dec (take 4 s)) :: u32) = le_dec (take 4 s)"
    by (simp add: unat_of_nat)
  then show ?thesis
    using le_enc_dec[of "take 4 s"] l by (simp add: put32_def get32_def)
qed

subsection \<open>Lists\<close>

text \<open>A scan \<open>for (i = 0; i < n; i++) if (p(v[i])) return i;\<close>\<close>

fun find_index :: "('a \<Rightarrow> bool) \<Rightarrow> 'a list \<Rightarrow> nat option" where
  "find_index p [] = None"
| "find_index p (x # xs) = (if p x then Some 0 else map_option Suc (find_index p xs))"

lemma find_index_None: "find_index p xs = None \<longleftrightarrow> (\<forall>x\<in>set xs. \<not> p x)"
  by (induction xs) auto

lemma find_index_Some:
  "find_index p xs = Some i \<longleftrightarrow> i < length xs \<and> p (xs ! i) \<and> (\<forall>j<i. \<not> p (xs ! j))"
proof (induction xs arbitrary: i)
  case (Cons x xs)
  show ?case
  proof (cases i)
    case 0
    then show ?thesis by auto
  next
    case (Suc k)
    then show ?thesis
      by (auto simp: Cons less_Suc_eq_0_disj)
  qed
qed simp

text \<open>The length of the common prefix of two arrays, compared element by element.\<close>

fun common :: "'a list \<Rightarrow> 'a list \<Rightarrow> nat" where
  "common (x # xs) (y # ys) = (if x = y then Suc (common xs ys) else 0)"
| "common _ _ = 0"

lemma common_le: "common xs ys \<le> length xs" "common xs ys \<le> length ys"
  by (induction xs ys rule: common.induct) auto

lemma common_take: "take (common xs ys) xs = take (common xs ys) ys"
  by (induction xs ys rule: common.induct) auto

lemma common_greatest:
  "k \<le> length xs \<Longrightarrow> k \<le> length ys \<Longrightarrow> take k xs = take k ys \<Longrightarrow> k \<le> common xs ys"
proof (induction xs ys arbitrary: k rule: common.induct)
  case (1 x xs y ys)
  then show ?case by (cases k) auto
qed auto

lemma common_self [simp]: "common xs xs = length xs"
  by (induction xs) auto

lemma common_append [simp]: "common xs (xs @ ys) = length xs"
  by (induction xs) auto

lemma nth_update_other [simp]: "i \<noteq> j \<Longrightarrow> xs[i := v] ! j = xs ! j"
  by simp

lemma take_append_exact [simp]: "take (length a) (a @ b) = a" "drop (length a) (a @ b) = b"
  by simp_all

text \<open>Arrays of keyed entries as maps.\<close>

lemma map_of_update_nth:
  assumes "distinct (map fst xs)" "i < length xs" "k = fst (xs ! i) \<or> k \<notin> fst ` set xs"
  shows "map_of (xs[i := (k, v)]) = (map_of xs)(fst (xs ! i) := None, k \<mapsto> v)"
  using assms
proof (induction xs arbitrary: i)
  case (Cons x xs)
  show ?case
  proof (cases i)
    case 0
    have "map_of xs (fst x) = None"
      using Cons.prems(1) by (simp add: map_of_eq_None_iff)
    then show ?thesis using 0 by (cases x) (auto simp: fun_eq_iff)
  next
    case (Suc j)
    have "fst (xs ! j) \<in> fst ` set xs" using Cons.prems(2) Suc by simp
    then have ne: "fst x \<noteq> fst (xs ! j)" using Cons.prems(1) by (metis distinct.simps(2) list.set_map list.simps(9))
    have kx: "k \<noteq> fst x" using Cons.prems(3) Suc ne by auto
    have "map_of (xs[j := (k, v)]) = (map_of xs)(fst (xs ! j) := None, k \<mapsto> v)"
      using Cons Suc by auto
    then show ?thesis using Suc ne kx by (cases x) (auto simp: fun_eq_iff)
  qed
qed simp

lemma distinct_update_nth:
  assumes "distinct xs" "i < length xs" "y = xs ! i \<or> y \<notin> set xs"
  shows "distinct (xs[i := y])"
  using assms by (metis distinct_list_update list_update_id DiffD1)

end
