(* ===== verification/ByteCodec.thy ===== *)
theory ByteCodec
  imports YPrelude
begin

text \<open>
  The wire interface: an encoder and a decoder that returns the value and the bytes it did
  not read. Every frame format of the program (session files, pipeline frames, chat
  messages, text frames) is an instance; the facts about streams of frames are proved here
  once.
\<close>

subsection \<open>The interface\<close>

fun dec_n :: "(bytes \<Rightarrow> ('a \<times> bytes) option) \<Rightarrow> nat \<Rightarrow> bytes \<Rightarrow> ('a list \<times> bytes) option" where
  "dec_n dec 0 s = Some ([], s)"
| "dec_n dec (Suc n) s =
     (case dec s of
        None \<Rightarrow> None
      | Some (x, r) \<Rightarrow>
          (case dec_n dec n r of None \<Rightarrow> None | Some (xs, q) \<Rightarrow> Some (x # xs, q)))"

locale byte_codec =
  fixes enc :: "'a \<Rightarrow> bytes"
    and dec :: "bytes \<Rightarrow> ('a \<times> bytes) option"
    and ok :: "'a \<Rightarrow> bool"
  assumes dec_enc: "ok x \<Longrightarrow> dec (enc x @ r) = Some (x, r)"
begin

lemma enc_inject:
  assumes "ok x" "ok y" "enc x @ r = enc y @ q"
  shows "x = y \<and> r = q"
  by (metis assms dec_enc option.inject prod.inject)

lemma prefix_free: "ok x \<Longrightarrow> ok y \<Longrightarrow> enc x = enc y @ q \<Longrightarrow> q = []"
  using enc_inject[of x y "[]" q] by simp

lemma dec_n_concat:
  "list_all ok xs \<Longrightarrow> dec_n dec (length xs) (concat (map enc xs) @ r) = Some (xs, r)"
  by (induction xs) (auto simp: dec_enc)

lemma concat_inject:
  assumes "list_all ok xs" "list_all ok ys" "length xs = length ys"
    and "concat (map enc xs) @ r = concat (map enc ys) @ q"
  shows "xs = ys \<and> r = q"
  by (metis assms dec_n_concat option.inject prod.inject)

end

subsection \<open>Reading a fixed number of bytes\<close>

text \<open>\<open>sock_recv_n\<close>, \<open>xrecv\<close>, \<open>fread\<close>: all \<open>n\<close> bytes, or failure at the end of the
  stream.\<close>

definition recv_n :: "nat \<Rightarrow> bytes \<Rightarrow> (bytes \<times> bytes) option" where
  "recv_n n s = (if length s < n then None else Some (take n s, drop n s))"

lemma recv_n_append [simp]: "length a = n \<Longrightarrow> recv_n n (a @ s) = Some (a, s)"
  by (simp add: recv_n_def)

lemma recv_n_Some: "recv_n n s = Some (a, r) \<longleftrightarrow> s = a @ r \<and> length a = n"
  by (auto simp: recv_n_def)

lemma recv_n_None: "recv_n n s = None \<longleftrightarrow> length s < n"
  by (simp add: recv_n_def)

definition dec32 :: "bytes \<Rightarrow> (u32 \<times> bytes) option" where
  "dec32 s = map_option (\<lambda>(a, r). (get32 a, r)) (recv_n 4 s)"

lemma dec32_put32 [simp]: "dec32 (put32 w @ s) = Some (w, s)"
  by (simp add: dec32_def)

interpretation u32c: byte_codec put32 dec32 "\<lambda>_. True"
  by unfold_locales simp

text \<open>A buffer of \<open>uint32_t\<close> as bytes and back.\<close>

definition words_bytes :: "u32 list \<Rightarrow> bytes" where
  "words_bytes ws = concat (map put32 ws)"

fun bytes_words :: "bytes \<Rightarrow> u32 list" where
  "bytes_words (a # b # c # d # s) = get32 [a, b, c, d] # bytes_words s"
| "bytes_words _ = []"

lemma length_words_bytes [simp]: "length (words_bytes ws) = 4 * length ws"
  by (induction ws) (auto simp: words_bytes_def)

lemma length_4_ex: "length s = 4 \<Longrightarrow> \<exists>a b c d. s = [a, b, c, d]"
  by (auto simp: numeral_eq_Suc length_Suc_conv)

lemma put32_4: "\<exists>a b c d. put32 w = [a, b, c, d]"
  by (rule length_4_ex) simp

lemma bytes_words_put32 [simp]: "bytes_words (put32 w @ s) = w # bytes_words s"
proof -
  obtain a b c d where p: "put32 w = [a, b, c, d]"
    using put32_4 by blast
  have "get32 [a, b, c, d] = w"
    using get32_put32_all[of w] p by simp
  then show ?thesis by (simp add: p)
qed

lemma bytes_words_words_bytes [simp]: "bytes_words (words_bytes ws) = ws"
  by (induction ws) (auto simp: words_bytes_def)

lemma words_bytes_inject [simp]: "words_bytes a = words_bytes b \<longleftrightarrow> a = b"
  by (metis bytes_words_words_bytes)

lemma length_bytes_words: "length (bytes_words s) = length s div 4"
  by (induction s rule: bytes_words.induct) auto

end
