(* ===== verification/Wire.thy ===== *)
theory Wire
  imports ByteCodec
begin

text \<open>
  The text frames all nodes exchange: lines of a socket stream (\<^verbatim>\<open>serve/sock.h\<close>), frames
  "CMD v=<version> args" with an optional payload (\<^verbatim>\<open>serve/frame.h\<close>) and the parsing
  helpers of \<^verbatim>\<open>serve/protocol.h\<close>. A socket that is read is the list of the bytes still to
  come, ended by the peer's close; a send is the list of bytes it puts on the stream.
\<close>

subsection \<open>Lines\<close>

abbreviation NUL :: char where "NUL \<equiv> CHR 0x00"

text \<open>The C string held by a buffer ends at its first NUL byte.\<close>

definition cstr :: "bytes \<Rightarrow> string" where
  "cstr s = takeWhile (\<lambda>c. c \<noteq> NUL) s"

text \<open>\<open>sock_recv_line\<close> reads byte by byte; it keeps at most \<open>max - 1\<close> bytes but consumes the
  whole line; \<open>None\<close> is the return value -1.\<close>

fun recv_line_loop :: "nat \<Rightarrow> string \<Rightarrow> bytes \<Rightarrow> (string \<times> bytes) option" where
  "recv_line_loop mx buf [] = None"
| "recv_line_loop mx buf (c # s) =
     (if c = LF then Some (buf, s)
      else if c = CR then recv_line_loop mx buf s
      else if length buf < mx - 1 then recv_line_loop mx (buf @ [c]) s
      else recv_line_loop mx buf s)"

definition sock_recv_line :: "nat \<Rightarrow> bytes \<Rightarrow> (string \<times> bytes) option" where
  "sock_recv_line mx s = recv_line_loop mx [] s"

definition sock_send_line :: "string \<Rightarrow> bytes" where
  "sock_send_line text = take 8191 text @ [LF]"

text \<open>A text that one line carries unchanged.\<close>

definition line_text :: "string \<Rightarrow> bool" where
  "line_text s \<longleftrightarrow> LF \<notin> set s \<and> CR \<notin> set s \<and> NUL \<notin> set s"

lemma line_text_append [simp]: "line_text (a @ b) \<longleftrightarrow> line_text a \<and> line_text b"
  by (auto simp: line_text_def)

lemma line_text_Nil [simp]: "line_text []"
  by (simp add: line_text_def)

lemma line_text_Cons [simp]:
  "line_text (c # s) \<longleftrightarrow> c \<noteq> LF \<and> c \<noteq> CR \<and> c \<noteq> NUL \<and> line_text s"
  by (auto simp: line_text_def)

lemma show_nat_no: "\<not> is_digit c \<Longrightarrow> c \<notin> set (show_nat i)"
  using show_nat_digits[of c i] by auto

lemma show_nat_line [simp]: "line_text (show_nat n)"
  by (simp add: line_text_def show_nat_no)

lemma cstr_line [simp]: "line_text s \<Longrightarrow> cstr s = s"
  by (induction s) (auto simp: cstr_def)

lemma recv_line_loop_text:
  "line_text s \<Longrightarrow> recv_line_loop mx buf (s @ LF # r) = Some (buf @ take (mx - 1 - length buf) s, r)"
proof (induction s arbitrary: buf)
  case (Cons c s)
  show ?case
  proof (cases "mx - 1 - length buf")
    case 0
    then have "(length buf < mx - Suc 0) = False" by simp
    then show ?thesis using Cons.IH[of buf] Cons.prems 0 by simp
  next
    case (Suc k)
    then have "mx - 1 - length (buf @ [c]) = k" "length buf < mx - 1" by simp_all
    then show ?thesis using Cons.IH[of "buf @ [c]"] Cons.prems Suc by simp
  qed
qed simp

lemma sock_recv_line_text:
  "line_text s \<Longrightarrow> length s < mx \<Longrightarrow> sock_recv_line mx (s @ LF # r) = Some (s, r)"
  by (simp add: sock_recv_line_def recv_line_loop_text)

lemma recv_line_loop_length:
  "recv_line_loop mx buf s = Some (l, r) \<Longrightarrow> length buf \<le> mx - 1 \<Longrightarrow> length l \<le> mx - 1 \<and> length r < length s"
proof (induction mx buf s rule: recv_line_loop.induct)
  case (2 mx buf c s)
  show ?case
    using 2 by (cases "c = LF"; cases "c = CR"; cases "length buf < mx - 1") auto
qed simp

subsection \<open>Frames\<close>

definition FRAME_CMD_MAX :: nat where "FRAME_CMD_MAX = 256"
definition FRAME_ARGS_MAX :: nat where "FRAME_ARGS_MAX = 2048"
definition PROTO_VERSION_STR :: string where "PROTO_VERSION_STR = ''yllm-1''"

record frame =
  fr_cmd :: string
  fr_args :: string

definition frame_send :: "string \<Rightarrow> string \<Rightarrow> bytes" where
  "frame_send cmd args =
     cmd @ '' v='' @ PROTO_VERSION_STR @ (if args \<noteq> [] then [SP] @ args else []) @ [LF]"

text \<open>\<open>sscanf(args, "v=%63s", ver)\<close>.\<close>

definition scan_ver :: "string \<Rightarrow> string option" where
  "scan_ver args =
     (if \<not> starts ''v='' args then None
      else let w = take 63 (takeWhile (\<lambda>c. \<not> is_space c) (dropWhile is_space (drop 2 args))) in
        if w = [] then None else Some w)"

text \<open>\<open>None\<close>: nothing could be read or the line has no or another version; the line is then
  already consumed and the connection of no further use.\<close>

definition frame_recv :: "bytes \<Rightarrow> (frame \<times> bytes) option" where
  "frame_recv s =
     (case sock_recv_line (FRAME_CMD_MAX + FRAME_ARGS_MAX + 2) s of
        None \<Rightarrow> None
      | Some (buf, r) \<Rightarrow>
        let line = cstr buf;
            (cmd, args) = (case strchr line SP of
                Some sp \<Rightarrow> (take (FRAME_CMD_MAX - 1) (word_sp line), snprintf_s FRAME_ARGS_MAX (tl sp))
              | None \<Rightarrow> (snprintf_s FRAME_CMD_MAX line, [])) in
        (case scan_ver args of
           None \<Rightarrow> None
         | Some ver \<Rightarrow>
             if ver \<noteq> PROTO_VERSION_STR then None
             else case strchr args SP of
               Some rest \<Rightarrow> Some (\<lparr>fr_cmd = cmd, fr_args = snprintf_s FRAME_ARGS_MAX (skip_sp rest)\<rparr>, r)
             | None \<Rightarrow> Some (\<lparr>fr_cmd = cmd, fr_args = []\<rparr>, r)))"

text \<open>\<open>frame_send_payload\<close> formats the header into a buffer of \<open>FRAME_CMD_MAX + 64\<close> bytes and
  sends as many bytes as the header would have needed.\<close>

definition frame_send_payload :: "string \<Rightarrow> string \<Rightarrow> bytes \<Rightarrow> bytes run" where
  "frame_send_payload cmd args payload =
     (let hdr = cmd @ '' v='' @ PROTO_VERSION_STR @ (if args \<noteq> [] then [SP] @ args else [])
                @ [SP] @ show_nat (length payload) @ [LF];
          hn = length hdr; cap = FRAME_CMD_MAX + 64 in
      if hn < cap then Ret (hdr @ payload)
      else if hn = cap then Ret (take (cap - 1) hdr @ [NUL] @ payload)
      else Fault)"

definition frame_recv_payload :: "nat \<Rightarrow> bytes \<Rightarrow> (bytes \<times> bytes) option" where
  "frame_recv_payload n s = (if n > 0 then recv_n n s else Some ([], s))"

text \<open>The payload of a \<open>T <len>\<close> frame, from the line just received.\<close>

definition frame_t_payload :: "string \<Rightarrow> bytes \<Rightarrow> (bytes \<times> bytes) option" where
  "frame_t_payload line s =
     (let tlen = atol (drop 2 line) in if tlen \<le> 0 then None else recv_n (nat tlen) s)"

subsection \<open>\<open>key=value\<close> arguments\<close>

text \<open>The scan shared by \<open>frame_get\<close> and \<open>proto_get\<close>: the text after \<open>key=\<close> at the start of
  a word.\<close>

function proto_get :: "string \<Rightarrow> string \<Rightarrow> string option" where
  "proto_get p key =
     (if p = [] then None
      else let q = skip_sp p in
        if starts (key @ ''='') q then Some (drop (length key + 1) q)
        else proto_get (after_word q) key)"
  by pat_completeness auto
termination
proof (relation "measure (\<lambda>(p, key). length p)")
  fix p key :: string and q
  assume p: "p \<noteq> []" and q: "q = skip_sp p"
  show "((after_word q, key), (p, key)) \<in> measure (\<lambda>(p, key). length p)"
  proof (cases "q")
    case Nil
    then show ?thesis using p by (simp add: after_word_def)
  next
    case (Cons c t)
    then have "c \<noteq> SP" using q hd_dropWhile[of "\<lambda>c. c = SP" p] by (auto simp: skip_sp_def)
    then have "length (after_word q) < length q"
      using Cons length_dropWhile_le[of "\<lambda>c. c \<noteq> SP" t] by (simp add: after_word_def)
    then show ?thesis unfolding q using length_skip_sp[of p] by (simp del: length_skip_sp)
  qed
qed simp

declare proto_get.simps [simp del]

definition frame_get :: "frame \<Rightarrow> string \<Rightarrow> nat \<Rightarrow> string option" where
  "frame_get f key outsz = map_option (\<lambda>v. take (outsz - 1) (word_sp v)) (proto_get (fr_args f) key)"

text \<open>\<open>sscanf("%d %d")\<close> as far as it is used: two decimal integers separated by blanks.\<close>

definition scan_int :: "string \<Rightarrow> (int \<times> string) option" where
  "scan_int s =
     (let t = dropWhile is_space s;
          (neg, u) = (case t of c # u \<Rightarrow> if c = CHR ''-'' then (True, u) else if c = CHR ''+'' then (False, u) else (False, t)
                      | [] \<Rightarrow> (False, t));
          d = takeWhile is_digit u in
      if d = [] then None
      else Some (sint (word_of_int (max (- (2 ^ 63)) (min (2 ^ 63 - 1)
                   (if neg then - int (digits_val 0 d) else int (digits_val 0 d)))) :: u32), drop (length d) u))"

definition frame_payload_len :: "frame \<Rightarrow> int" where
  "frame_payload_len f =
     (case scan_int (fr_args f) of
        None \<Rightarrow> 0
      | Some (a, r) \<Rightarrow> (case scan_int r of None \<Rightarrow> 0 | Some (b, _) \<Rightarrow> b))"

definition PROTO_ERROR :: string where "PROTO_ERROR = ''ERR''"

definition proto_is_error :: "string \<Rightarrow> bool" where
  "proto_is_error line \<longleftrightarrow> starts PROTO_ERROR line \<and>
     (case drop 3 line of [] \<Rightarrow> True | c # _ \<Rightarrow> c = SP \<or> c = CR)"

definition proto_error_msg :: "string \<Rightarrow> string" where
  "proto_error_msg line =
     (if \<not> proto_is_error line then line
      else let p = skip_sp (drop 3 line) in
        if starts ''v='' p then skip_sp (after_word p) else p)"

subsection \<open>Frames come back\<close>

definition frame_ok :: "frame \<Rightarrow> bool" where
  "frame_ok f \<longleftrightarrow> line_text (fr_cmd f) \<and> SP \<notin> set (fr_cmd f) \<and> length (fr_cmd f) < FRAME_CMD_MAX
     \<and> line_text (fr_args f) \<and> length (fr_args f) + 9 < FRAME_ARGS_MAX
     \<and> (fr_args f = [] \<or> hd (fr_args f) \<noteq> SP)"

lemma scan_ver_own:
  "scan_ver (''v=yllm-1'' @ r) =
     (case r of [] \<Rightarrow> Some ''yllm-1'' | c # t \<Rightarrow> if is_space c then Some ''yllm-1'' else scan_ver (''v=yllm-1'' @ r))"
  by (cases r) (simp_all add: scan_ver_def starts_def is_space_def code_def Let_def)

lemma skip_sp_no [simp]: "s \<noteq> [] \<Longrightarrow> hd s \<noteq> SP \<Longrightarrow> skip_sp s = s" "skip_sp [] = []" "skip_sp (SP # s) = skip_sp s"
  by (cases s) (simp_all add: skip_sp_def)

lemma is_space_SP [simp]: "is_space SP"
  by (simp add: is_space_def)

lemma frame_recv_send:
  assumes "frame_ok f"
  shows "frame_recv (frame_send (fr_cmd f) (fr_args f) @ r) = Some (f, r)"
proof -
  let ?v = "''v=yllm-1''"
  define tailv where "tailv = (if fr_args f \<noteq> [] then SP # fr_args f else [])"
  define line where "line = fr_cmd f @ SP # ?v @ tailv"
  have ok: "line_text (fr_cmd f)" "SP \<notin> set (fr_cmd f)" "length (fr_cmd f) < 256" "line_text (fr_args f)"
    "length (fr_args f) < 2039" "fr_args f = [] \<or> hd (fr_args f) \<noteq> SP"
    using assms by (auto simp: frame_ok_def FRAME_CMD_MAX_def FRAME_ARGS_MAX_def)
  have ltx: "line_text line" using ok by (auto simp: line_def tailv_def)
  have len: "length tailv < 2040" "length line < 2306" using ok by (auto simp: line_def tailv_def)
  have "frame_send (fr_cmd f) (fr_args f) @ r = line @ LF # r"
    by (simp add: frame_send_def line_def tailv_def PROTO_VERSION_STR_def)
  then have rl: "sock_recv_line (FRAME_CMD_MAX + FRAME_ARGS_MAX + 2) (frame_send (fr_cmd f) (fr_args f) @ r)
      = Some (line, r)"
    using ltx len by (simp add: FRAME_CMD_MAX_def FRAME_ARGS_MAX_def sock_recv_line_text)
  have sp: "strchr line SP = Some (SP # ?v @ tailv)" "word_sp line = fr_cmd f"
    using ok unfolding line_def by (simp_all add: strchr_append word_sp_def takeWhile_no)
  have args: "snprintf_s FRAME_ARGS_MAX (?v @ tailv) = ?v @ tailv"
    using len by (simp add: FRAME_ARGS_MAX_def)
  have ver: "scan_ver (?v @ tailv) = Some PROTO_VERSION_STR"
    using scan_ver_own[of tailv] by (cases "fr_args f = []") (simp_all add: tailv_def PROTO_VERSION_STR_def)
  have rest: "strchr (?v @ tailv) SP = (if fr_args f \<noteq> [] then Some (SP # fr_args f) else None)"
    by (simp add: tailv_def strchr_def)
  have sk: "fr_args f \<noteq> [] \<Longrightarrow> snprintf_s 2048 (skip_sp (fr_args f)) = fr_args f" using ok by simp
  show ?thesis
    using ok len sk unfolding frame_recv_def rl
    by (simp add: cstr_line[OF ltx] sp Let_def args[simplified] ver[simplified] rest[simplified] FRAME_CMD_MAX_def FRAME_ARGS_MAX_def)
qed

interpretation frame_codec: byte_codec "\<lambda>f. frame_send (fr_cmd f) (fr_args f)" frame_recv frame_ok
  by unfold_locales (rule frame_recv_send)

text \<open>A sequence of well-formed frames (command without blank, arguments that fit the
  2 KB field, no line break or NUL in either) written back to back on a stream is received
  frame by frame exactly as sent, and the bytes after the last one are left on the stream.\<close>

theorem frames_roundtrip:
  assumes "\<forall>f\<in>set fs. frame_ok f"
  shows "dec_n frame_recv (length fs) (concat (map (\<lambda>f. frame_send (fr_cmd f) (fr_args f)) fs) @ r) = Some (fs, r)"
  by (rule frame_codec.dec_n_concat) (use assms in \<open>simp add: list_all_iff\<close>)

theorem frames_roundtrip_witness:
  "dec_n frame_recv 2 (frame_send ''STAT'' '''' @ frame_send ''LEASE'' ''s1 model=m'' @ ''x'')
     = Some ([\<lparr>fr_cmd = ''STAT'', fr_args = ''''\<rparr>, \<lparr>fr_cmd = ''LEASE'', fr_args = ''s1 model=m''\<rparr>], ''x'')"
  using frames_roundtrip[of "[\<lparr>fr_cmd = ''STAT'', fr_args = ''''\<rparr>, \<lparr>fr_cmd = ''LEASE'', fr_args = ''s1 model=m''\<rparr>]" "''x''"]
  by (simp add: frame_ok_def FRAME_CMD_MAX_def FRAME_ARGS_MAX_def numeral_2_eq_2 del: dec_n.simps)

text \<open>No frame of another protocol version is accepted: whatever bytes arrive, a received
  frame stems from one line whose arguments carry \<open>v=\<close> followed by exactly this program's
  version word.\<close>

theorem frame_recv_version:
  assumes "frame_recv s = Some (f, r)"
  shows "\<exists>buf args. sock_recv_line 2306 s = Some (buf, r) \<and> strchr (cstr buf) SP = Some (SP # args)
    \<and> starts ''v='' args
    \<and> takeWhile (\<lambda>c. \<not> is_space c) (dropWhile is_space (drop 2 (take 2047 args))) = PROTO_VERSION_STR"
proof -
  obtain buf r0 where l: "sock_recv_line 2306 s = Some (buf, r0)"
    using assms by (cases "sock_recv_line 2306 s") (auto simp: frame_recv_def FRAME_CMD_MAX_def FRAME_ARGS_MAX_def)
  then obtain sp where sp: "strchr (cstr buf) SP = Some sp" "r = r0"
      "scan_ver (snprintf_s FRAME_ARGS_MAX (tl sp)) = Some PROTO_VERSION_STR"
    using assms by (fastforce simp: frame_recv_def FRAME_CMD_MAX_def FRAME_ARGS_MAX_def Let_def
        scan_ver_def starts_def split: option.splits if_splits)
  then obtain args where a: "sp = SP # args" using strchr_Some_hd by blast
  have t: "w = PROTO_VERSION_STR" if w: "take 63 w = PROTO_VERSION_STR" for w
  proof -
    have "length (take 63 w) = 6" using w by (simp add: PROTO_VERSION_STR_def del: length_take)
    then have "length w \<le> 63" by (simp add: min_def split: if_splits)
    then show ?thesis using w by simp
  qed
  show ?thesis
    using l sp t unfolding a
    by (auto simp: scan_ver_def snprintf_s_def FRAME_ARGS_MAX_def Let_def starts_def min_def split: if_splits)
qed

theorem frame_recv_version_witness:
  "\<exists>buf args. sock_recv_line 2306 (''STAT v=yllm-1'' @ [LF]) = Some (buf, []) \<and> strchr (cstr buf) SP = Some (SP # args)
    \<and> starts ''v='' args
    \<and> takeWhile (\<lambda>c. \<not> is_space c) (dropWhile is_space (drop 2 (take 2047 args))) = PROTO_VERSION_STR"
proof -
  have "frame_recv (frame_send ''STAT'' []) = Some (\<lparr>fr_cmd = ''STAT'', fr_args = []\<rparr>, [])"
    using frame_recv_send[of "\<lparr>fr_cmd = ''STAT'', fr_args = []\<rparr>" "[]"]
    by (simp add: frame_ok_def FRAME_CMD_MAX_def FRAME_ARGS_MAX_def)
  then have "frame_recv (''STAT v=yllm-1'' @ [LF]) = Some (\<lparr>fr_cmd = ''STAT'', fr_args = []\<rparr>, [])"
    by (simp add: frame_send_def PROTO_VERSION_STR_def)
  from frame_recv_version[OF this] show ?thesis .
qed

subsection \<open>Arguments come back\<close>

text \<open>An argument list as the senders print it: positional words, then \<open>key=value\<close> words.\<close>

fun join_sp :: "string list \<Rightarrow> string" where
  "join_sp [] = []"
| "join_sp [w] = w"
| "join_sp (w # v # ws) = w @ SP # join_sp (v # ws)"

definition kv_word :: "string \<times> string \<Rightarrow> string" where
  "kv_word kv = fst kv @ ''='' @ snd kv"

definition plain_word :: "string \<Rightarrow> bool" where
  "plain_word w \<longleftrightarrow> w \<noteq> [] \<and> SP \<notin> set w"

lemma word_sp_no [simp]: "SP \<notin> set w \<Longrightarrow> word_sp w = w" "SP \<notin> set w \<Longrightarrow> word_sp (w @ SP # r) = w"
  by (simp_all add: word_sp_def takeWhile_no)

lemma after_word_no [simp]: "SP \<notin> set w \<Longrightarrow> after_word w = []" "SP \<notin> set w \<Longrightarrow> after_word (w @ SP # r) = SP # r"
  by (simp_all add: after_word_def dropWhile_no)

lemma plain_word_hd: "plain_word w \<Longrightarrow> w \<noteq> [] \<and> hd w \<noteq> SP \<and> hd (w @ r) \<noteq> SP"
  by (cases w) (auto simp: plain_word_def)

lemma proto_get_Nil [simp]: "proto_get [] key = None"
  by (simp add: proto_get.simps[of "[]"])

lemma proto_get_SP [simp]: "proto_get (SP # r) key = proto_get r key"
proof (cases "skip_sp r = []")
  case True
  then have "proto_get (SP # r) key = None"
    by (simp add: proto_get.simps[of "SP # r"] Let_def after_word_def)
  moreover have "proto_get r key = None"
    using True by (cases "r = []") (simp_all add: proto_get.simps[of r] Let_def after_word_def)
  ultimately show ?thesis by simp
next
  case False
  then have "r \<noteq> []" by auto
  then show ?thesis by (simp add: proto_get.simps[of "SP # r"] proto_get.simps[of r] Let_def)
qed

lemma proto_get_word:
  assumes "plain_word w" "\<not> starts (key @ ''='') (w @ r)" "r = [] \<or> hd r = SP"
  shows "proto_get (w @ r) key = proto_get r key"
proof -
  have "skip_sp (w @ r) = w @ r" "w @ r \<noteq> []" using plain_word_hd[OF assms(1), of r] by (auto intro: skip_sp_no)
  moreover have "after_word (w @ r) = r"
    using assms(1,3) by (cases r) (auto simp: plain_word_def)
  ultimately show ?thesis
    using assms(2) by (simp add: proto_get.simps[of "w @ r"] Let_def)
qed

lemma starts_kv:
  assumes "CHR ''='' \<notin> set k" "CHR ''='' \<notin> set key" "SP \<notin> set key"
  shows "starts (key @ ''='') (k @ ''='' @ r) \<longleftrightarrow> key = k"
proof
  assume "starts (key @ ''='') (k @ ''='' @ r)"
  then obtain t where "k @ ''='' @ r = key @ ''='' @ t" by (auto simp: starts_iff)
  then have "takeWhile (\<lambda>c. c \<noteq> CHR ''='') (k @ CHR ''='' # r) = takeWhile (\<lambda>c. c \<noteq> CHR ''='') (key @ CHR ''='' # t)"
    by simp
  then show "key = k" using assms by (simp add: takeWhile_no)
qed (simp add: starts_iff)

lemma not_starts_word:
  assumes "CHR ''='' \<notin> set w" "SP \<notin> set key" "r = [] \<or> hd r = SP"
  shows "\<not> starts (key @ ''='') (w @ r)"
proof
  assume "starts (key @ ''='') (w @ r)"
  then obtain t where t: "w @ r = key @ ''='' @ t" by (auto simp: starts_iff)
  show False
  proof (cases "length w \<le> length key")
    case True
    then obtain u where u: "key = w @ u" using t by (metis append_eq_append_conv_if append_take_drop_id)
    then have "r = u @ ''='' @ t" using t by simp
    then show False using assms(2,3) u by (cases u) auto
  next
    case False
    then obtain u where u: "w = key @ u" "u \<noteq> []" using t by (auto simp: append_eq_append_conv2)
    then have "u @ r = ''='' @ t" using t by simp
    then have "CHR ''='' \<in> set u" using u(2) by (cases u) auto
    then show False using assms(1) u by simp
  qed
qed

definition kv_ok :: "string \<times> string \<Rightarrow> bool" where
  "kv_ok kv \<longleftrightarrow> CHR ''='' \<notin> set (fst kv) \<and> SP \<notin> set (fst kv) \<and> SP \<notin> set (snd kv)"

lemma kv_word_plain: "kv_ok kv \<Longrightarrow> plain_word (kv_word kv)"
  by (auto simp: kv_ok_def plain_word_def kv_word_def)

lemma join_sp_Cons: "join_sp (w # ws) = w @ (case ws of [] \<Rightarrow> [] | _ \<Rightarrow> SP # join_sp ws)"
  by (cases ws) auto

text \<open>What \<open>proto_get\<close> finds: the value and everything after it on the line.\<close>

fun kv_rest :: "(string \<times> string) list \<Rightarrow> string \<Rightarrow> string option" where
  "kv_rest [] key = None"
| "kv_rest (kv # kvs) key =
     (if fst kv = key then Some (snd kv @ (case kvs of [] \<Rightarrow> [] | _ \<Rightarrow> SP # join_sp (map kv_word kvs)))
      else kv_rest kvs key)"

lemma proto_get_kvs:
  assumes "\<forall>kv\<in>set kvs. kv_ok kv" "CHR ''='' \<notin> set key" "SP \<notin> set key"
  shows "proto_get (join_sp (map kv_word kvs)) key = kv_rest kvs key"
  using assms(1)
proof (induction kvs)
  case (Cons kv kvs)
  define r where "r = (case map kv_word kvs of [] \<Rightarrow> [] | _ \<Rightarrow> SP # join_sp (map kv_word kvs))"
  have j: "join_sp (map kv_word (kv # kvs)) = kv_word kv @ r" by (simp add: join_sp_Cons r_def)
  have r: "r = [] \<or> hd r = SP" by (cases kvs) (auto simp: r_def)
  have pr: "proto_get r key = proto_get (join_sp (map kv_word kvs)) key" by (cases kvs) (auto simp: r_def)
  have ok: "kv_ok kv" using Cons.prems by simp
  have st: "starts (key @ ''='') (kv_word kv @ r) \<longleftrightarrow> key = fst kv"
    using starts_kv[of "fst kv" key "snd kv @ r"] assms ok by (simp add: kv_ok_def kv_word_def)
  show ?case
  proof (cases "key = fst kv")
    case True
    have "skip_sp (kv_word kv @ r) = kv_word kv @ r" "kv_word kv @ r \<noteq> []"
      using plain_word_hd[OF kv_word_plain[OF ok], of r] by (auto intro: skip_sp_no)
    then have "proto_get (kv_word kv @ r) key = Some (drop (length key + 1) (kv_word kv @ r))"
      using st True by (simp add: proto_get.simps[of "kv_word kv @ r"] Let_def)
    also have "\<dots> = Some (snd kv @ r)" using True by (simp add: kv_word_def)
    finally show ?thesis using True j by (cases kvs) (simp_all add: r_def)
  next
    case False
    then have "proto_get (kv_word kv @ r) key = proto_get r key"
      using st r kv_word_plain[OF ok] by (intro proto_get_word) auto
    then show ?thesis using Cons False j pr by simp
  qed
qed simp

lemma kv_rest_word:
  "\<forall>kv\<in>set kvs. kv_ok kv \<Longrightarrow> map_option word_sp (kv_rest kvs key) = map_of kvs key"
proof (induction kvs)
  case (Cons kv kvs)
  then show ?case by (cases kv; cases kvs) (auto simp: kv_ok_def)
qed simp

lemma proto_get_skip_word:
  "plain_word w \<Longrightarrow> CHR ''='' \<notin> set w \<Longrightarrow> SP \<notin> set key \<Longrightarrow> proto_get (w @ SP # r) key = proto_get r key"
  using proto_get_word[of w key "SP # r"] not_starts_word[of w key "SP # r"] by simp

lemma join_sp_id: "join_sp (w # ws) = (if ws = [] then w else w @ SP # join_sp ws)"
  by (cases ws) auto

lemma frame_get_args:
  assumes "\<forall>kv\<in>set kvs. kv_ok kv" "plain_word nid" "CHR ''='' \<notin> set nid" "CHR ''='' \<notin> set key" "SP \<notin> set key"
  shows "frame_get \<lparr>fr_cmd = cmd, fr_args = join_sp (nid # map kv_word kvs)\<rparr> key outsz =
      map_option (take (outsz - 1)) (map_of kvs key) \<and>
    proto_get (join_sp (nid # map kv_word kvs)) key = kv_rest kvs key"
proof -
  have "proto_get nid key = None"
    using proto_get_word[of nid key "[]"] not_starts_word[of nid key "[]"] assms by simp
  then have p: "proto_get (join_sp (nid # map kv_word kvs)) key = kv_rest kvs key"
    using proto_get_kvs[OF assms(1,4,5)] assms
    by (cases "kvs = []") (simp_all add: join_sp_id proto_get_skip_word del: join_sp.simps(3))
  have "frame_get \<lparr>fr_cmd = cmd, fr_args = join_sp (nid # map kv_word kvs)\<rparr> key outsz =
      map_option (take (outsz - 1)) (map_option word_sp (kv_rest kvs key))"
    unfolding frame_get_def frame.select_convs p by (cases "kv_rest kvs key") simp_all
  then show ?thesis using p kv_rest_word[OF assms(1)] by simp
qed

text \<open>On a line of a node id followed by \<open>key=value\<close> words, \<open>frame_get\<close> finds the first
  value of the key, cut to its buffer, and nothing for a key that does not occur;
  \<open>proto_get\<close> points at the same place, but its text runs on to the end of the line: it is
  the value alone only when the key is the last word.\<close>

theorem frame_get_first:
  assumes "\<forall>kv\<in>set kvs. kv_ok kv" "plain_word nid" "CHR ''='' \<notin> set nid" "CHR ''='' \<notin> set key" "SP \<notin> set key"
  shows "frame_get \<lparr>fr_cmd = cmd, fr_args = join_sp (nid # map kv_word kvs)\<rparr> key outsz =
      map_option (take (outsz - 1)) (map_of kvs key) \<and>
    proto_get (join_sp (nid # map kv_word kvs)) key = kv_rest kvs key"
  by (rule frame_get_args[OF assms])

theorem frame_get_first_witness:
  "frame_get \<lparr>fr_cmd = ''LEASE'', fr_args = ''s1 model=m permanent=1''\<rparr> ''model'' 64 = Some ''m'' \<and>
   proto_get ''s1 model=m permanent=1'' ''model'' = Some ''m permanent=1''"
  using frame_get_first[of "[(''model'', ''m''), (''permanent'', ''1'')]" "''s1''" "''model''" "''LEASE''" 64]
  by (simp add: kv_ok_def plain_word_def kv_word_def)

text \<open>Whenever the header of a payload frame fits its 320-byte buffer, the receiver gets
  the command, the arguments and the payload back, in this order; a longer header makes
  the sender read past the buffer.\<close>

theorem frame_payload_roundtrip:
  assumes "frame_ok \<lparr>fr_cmd = cmd, fr_args = args\<rparr>" "args \<noteq> []"
    and "length cmd + length args + length (show_nat (length p)) + 12 < 320"
  shows "\<exists>b. frame_send_payload cmd args p = Ret b \<and>
    (\<exists>s. frame_recv (b @ r) = Some (\<lparr>fr_cmd = cmd, fr_args = args @ SP # show_nat (length p)\<rparr>, s) \<and>
         frame_recv_payload (length p) s = Some (p, r))"
proof -
  let ?a = "args @ SP # show_nat (length p)"
  have d: "c \<noteq> LF \<and> c \<noteq> CR \<and> c \<noteq> NUL \<and> c \<noteq> SP" if "c \<in> set (show_nat (length p))" for c
    using show_nat_digits[OF that] by (auto simp: is_digit_def code_def)
  have "frame_ok \<lparr>fr_cmd = cmd, fr_args = ?a\<rparr>"
    using assms d by (auto simp: frame_ok_def FRAME_CMD_MAX_def FRAME_ARGS_MAX_def line_text_def)
  from frame_recv_send[OF this, of "p @ r"]
  have "frame_recv (frame_send cmd ?a @ p @ r) = Some (\<lparr>fr_cmd = cmd, fr_args = ?a\<rparr>, p @ r)" by simp
  moreover have "frame_send_payload cmd args p = Ret (frame_send cmd ?a @ p)"
    using assms(2,3) by (simp add: frame_send_payload_def frame_send_def FRAME_CMD_MAX_def PROTO_VERSION_STR_def Let_def)
  moreover have "frame_recv_payload (length p) (p @ r) = Some (p, r)"
    by (simp add: frame_recv_payload_def)
  ultimately show ?thesis by (intro exI[of _ "frame_send cmd ?a @ p"] exI[of _ "p @ r"]) simp
qed

theorem frame_payload_roundtrip_witness:
  "\<exists>b. frame_send_payload ''INFER'' ''20'' ''hello'' = Ret b \<and>
    (\<exists>s. frame_recv (b @ ''Z'') = Some (\<lparr>fr_cmd = ''INFER'', fr_args = ''20 5''\<rparr>, s) \<and>
         frame_recv_payload 5 s = Some (''hello'', ''Z''))"
proof -
  have l5: "length ''hello'' = 5" by simp
  have "show_nat 5 = ''5''" by (simp add: show_nat.simps)
  then show ?thesis
    using frame_payload_roundtrip[of "''INFER''" "''20''" "''hello''" "''Z''", unfolded l5]
    by (simp add: frame_ok_def FRAME_CMD_MAX_def FRAME_ARGS_MAX_def)
qed

end
