(* ===== verification/NodeInfo.thy ===== *)
theory NodeInfo
  imports Wire
begin

text \<open>
  The node record and its heartbeat (\<^verbatim>\<open>serve/node.h\<close>). The two \<open>double\<close> fields are kept in
  tenths, the precision a heartbeat carries (\<open>%.1f\<close>); \<open>time(NULL)\<close> is an argument.
\<close>

definition NODE_STATE_LOADING :: int where "NODE_STATE_LOADING = 0"
definition NODE_STATE_READY :: int where "NODE_STATE_READY = 1"
definition NODE_STATE_BUSY :: int where "NODE_STATE_BUSY = 2"
definition NODE_STATE_DEAD :: int where "NODE_STATE_DEAD = 3"

lemmas node_states = NODE_STATE_LOADING_def NODE_STATE_READY_def NODE_STATE_BUSY_def NODE_STATE_DEAD_def

record node =
  nd_id :: string
  nd_type :: string
  nd_model :: string
  nd_addr :: string
  nd_state :: int
  nd_inflight :: int
  nd_waiting :: int
  nd_avg10 :: int
  nd_kv10 :: int
  nd_last_hb :: u64

definition show_f1 :: "int \<Rightarrow> string" where
  "show_f1 t = (if t < 0 then ''-'' else []) @ show_nat (nat \<bar>t\<bar> div 10) @ ''.'' @ [digit_char (nat \<bar>t\<bar> mod 10)]"

text \<open>\<open>atof\<close> in tenths, of a text without exponent; further decimals are dropped.\<close>

definition atof10 :: "string \<Rightarrow> int" where
  "atof10 s =
     (let t = dropWhile is_space s;
          neg = starts ''-'' t;
          u = (if neg \<or> starts ''+'' t then tl t else t);
          w = digits_val 0 u;
          f = (case dropWhile is_digit u of
                 c # d # _ \<Rightarrow> if c = CHR ''.'' \<and> is_digit d then code d - 48 else 0
               | _ \<Rightarrow> 0);
          m = int (10 * w + f) in
      if neg then - m else m)"

definition state_name :: "int \<Rightarrow> string" where
  "state_name st =
     (if st = NODE_STATE_READY then ''ready'' else if st = NODE_STATE_BUSY then ''busy''
      else if st = NODE_STATE_DEAD then ''dead'' else ''loading'')"

definition node_hb_args :: "node \<Rightarrow> nat \<Rightarrow> string" where
  "node_hb_args n outsz = snprintf_s outsz
     (nd_id n @ '' type='' @ nd_type n @ '' state='' @ state_name (nd_state n)
      @ '' inflight='' @ show_int (nd_inflight n) @ '' waiting='' @ show_int (nd_waiting n)
      @ '' kv_mb='' @ show_f1 (nd_kv10 n) @ '' avg_infer_ms='' @ show_f1 (nd_avg10 n)
      @ (if nd_addr n \<noteq> [] then '' addr='' @ nd_addr n else [])
      @ (if nd_model n \<noteq> [] then '' model='' @ nd_model n else []))"

text \<open>What \<open>node_heartbeat\<close> sends, when the node has a supervisor it can connect to.\<close>

definition node_heartbeat :: "node \<Rightarrow> bytes" where
  "node_heartbeat n = frame_send ''HEARTBEAT'' (node_hb_args n 512)"

definition state_code :: "string \<Rightarrow> int" where
  "state_code v =
     (if v = ''ready'' then NODE_STATE_READY else if v = ''busy'' then NODE_STATE_BUSY
      else if v = ''dead'' then NODE_STATE_DEAD else NODE_STATE_LOADING)"

definition node_parse_hb :: "string \<Rightarrow> node \<Rightarrow> u64 \<Rightarrow> node" where
  "node_parse_hb args out now =
     (let f = \<lparr>fr_cmd = ''HEARTBEAT'', fr_args = snprintf_s FRAME_ARGS_MAX args\<rparr>;
          upd = (\<lambda>key g n. case frame_get f key 256 of Some v \<Rightarrow> g v n | None \<Rightarrow> n);
          n = out\<lparr>nd_id := take 127 (word_sp args)\<rparr>;
          n = upd ''type'' (\<lambda>v n. n\<lparr>nd_type := snprintf_s 16 v\<rparr>) n;
          n = upd ''model'' (\<lambda>v n. n\<lparr>nd_model := snprintf_s 128 v\<rparr>) n;
          n = upd ''addr'' (\<lambda>v n. n\<lparr>nd_addr := snprintf_s 128 v\<rparr>) n;
          n = upd ''state'' (\<lambda>v n. n\<lparr>nd_state := state_code v\<rparr>) n;
          n = upd ''inflight'' (\<lambda>v n. n\<lparr>nd_inflight := atoi v\<rparr>) n;
          n = upd ''waiting'' (\<lambda>v n. n\<lparr>nd_waiting := atoi v\<rparr>) n;
          n = upd ''avg_infer_ms'' (\<lambda>v n. n\<lparr>nd_avg10 := atof10 v\<rparr>) n;
          n = upd ''kv_mb'' (\<lambda>v n. n\<lparr>nd_kv10 := atof10 v\<rparr>) n in
      n\<lparr>nd_last_hb := now\<rparr>)"

text \<open>\<open>timeout\<close> is cast to \<open>uint64_t\<close>; the age is computed modulo \<open>2^64\<close>.\<close>

definition node_is_dead :: "node \<Rightarrow> int \<Rightarrow> u64 \<Rightarrow> bool" where
  "node_is_dead n timeout now \<longleftrightarrow>
     (if nd_last_hb n = 0 then True else now - nd_last_hb n > word_of_int timeout)"

subsection \<open>Heartbeats come back\<close>

lemma show_int_no: "SP \<notin> set (show_int i)" "CHR ''='' \<notin> set (show_int i)"
  using show_int_chars[of SP i] show_int_chars[of "CHR ''=''" i] by auto

lemma show_f1_no: "SP \<notin> set (show_f1 t)"
  using digit_neq[OF is_digit_digit_char[of "nat \<bar>t\<bar> mod 10"], of SP] by (auto simp: show_f1_def show_nat_no)

lemma atof10_show_f1: "atof10 (show_f1 t) = t"
proof -
  define a where "a = nat \<bar>t\<bar>"
  define u where "u = show_nat (a div 10) @ ''.'' @ [digit_char (a mod 10)]"
  obtain c r where ct: "show_nat (a div 10) = c # r" by (cases "show_nat (a div 10)") auto
  then have "is_digit c" using show_nat_digits[of c "a div 10"] by simp
  then have c: "\<not> is_space c" "c \<noteq> CHR ''-''" "c \<noteq> CHR ''+''" using digit_not_sign by auto
  have w: "digits_val 0 u = a div 10"
    by (simp add: u_def digits_val_show_nat_append)
  have dw: "dropWhile is_digit u = ''.'' @ [digit_char (a mod 10)]"
    using show_nat_digits[of _ "a div 10"] by (simp add: u_def dropWhile_append2)
  have uu: "u = c # r @ ''.'' @ [digit_char (a mod 10)]" by (simp add: u_def ct)
  have m: "int (10 * (a div 10) + a mod 10) = int a" by simp
  have sp: "\<not> is_space CHR ''-''" by (simp add: is_space_def code_def)
  show ?thesis
  proof (cases "t < 0")
    case True
    then have "show_f1 t = CHR ''-'' # u" by (simp add: show_f1_def u_def a_def)
    then have "atof10 (show_f1 t) = - int (10 * (a div 10) + a mod 10)"
      using sp by (simp add: atof10_def Let_def w dw) (use m in linarith)
    then show ?thesis unfolding m using True by (simp add: a_def)
  next
    case False
    then have "show_f1 t = u" by (simp add: show_f1_def u_def a_def)
    then have "atof10 (show_f1 t) = int (10 * (a div 10) + a mod 10)"
      using c w dw uu by (simp add: atof10_def Let_def) (use m in linarith)
    then show ?thesis unfolding m using False by (simp add: a_def)
  qed
qed

definition node_ok :: "node \<Rightarrow> bool" where
  "node_ok n \<longleftrightarrow> plain_word (nd_id n) \<and> CHR ''='' \<notin> set (nd_id n) \<and> length (nd_id n) < 128
     \<and> SP \<notin> set (nd_type n) \<and> length (nd_type n) < 16 \<and> SP \<notin> set (nd_model n) \<and> length (nd_model n) < 128
     \<and> SP \<notin> set (nd_addr n) \<and> length (nd_addr n) < 128 \<and> nd_state n \<in> {0, 1, 2, 3}
     \<and> - (2 ^ 31) \<le> nd_inflight n \<and> nd_inflight n < 2 ^ 31 \<and> - (2 ^ 31) \<le> nd_waiting n \<and> nd_waiting n < 2 ^ 31
     \<and> length (show_f1 (nd_kv10 n)) < 256 \<and> length (show_f1 (nd_avg10 n)) < 256"

definition hb_kvs :: "node \<Rightarrow> (string \<times> string) list" where
  "hb_kvs n =
     [(''type'', nd_type n), (''state'', state_name (nd_state n)), (''inflight'', show_int (nd_inflight n)),
      (''waiting'', show_int (nd_waiting n)), (''kv_mb'', show_f1 (nd_kv10 n)),
      (''avg_infer_ms'', show_f1 (nd_avg10 n))]
     @ (if nd_addr n \<noteq> [] then [(''addr'', nd_addr n)] else [])
     @ (if nd_model n \<noteq> [] then [(''model'', nd_model n)] else [])"

lemma hb_args_kvs: "node_hb_args n outsz = snprintf_s outsz (join_sp (nd_id n # map kv_word (hb_kvs n)))"
  by (simp add: node_hb_args_def hb_kvs_def kv_word_def)

lemma state_code_name: "nd_state n \<in> {0, 1, 2, 3} \<Longrightarrow> state_code (state_name (nd_state n)) = nd_state n"
  by (auto simp: state_code_def state_name_def node_states)

lemma length_show_int: "- (2 ^ 31) \<le> i \<Longrightarrow> i < 2 ^ 31 \<Longrightarrow> length (show_int i) < 255"
proof -
  assume "- (2 ^ 31) \<le> i" "i < 2 ^ 31"
  then have "nat (- i) < 10 ^ 11" "nat i < 10 ^ 11" by (simp_all add: nat_less_iff)
  then show ?thesis
    using length_show_nat[of "nat (- i)" 11] length_show_nat[of "nat i" 11] by (auto simp: show_int_def)
qed

text \<open>A supervisor that parses the heartbeat of a node (whose names are words and fit
  their fields) ends up with exactly the sender's identity, type, state and load figures, and
  with its address and model whenever those are set; the time of the heartbeat is the
  receiver's clock.\<close>

theorem heartbeat_roundtrip:
  assumes "node_ok n" "length (join_sp (nd_id n # map kv_word (hb_kvs n))) < 512"
  shows "node_parse_hb (node_hb_args n 512) m now =
    m\<lparr>nd_id := nd_id n, nd_type := nd_type n, nd_state := nd_state n, nd_inflight := nd_inflight n,
      nd_waiting := nd_waiting n, nd_kv10 := nd_kv10 n, nd_avg10 := nd_avg10 n,
      nd_addr := (if nd_addr n \<noteq> [] then nd_addr n else nd_addr m),
      nd_model := (if nd_model n \<noteq> [] then nd_model n else nd_model m), nd_last_hb := now\<rparr>"
proof -
  define args where "args = join_sp (nd_id n # map kv_word (hb_kvs n))"
  define f where "f = \<lparr>fr_cmd = ''HEARTBEAT'', fr_args = args\<rparr>"
  have kv: "\<forall>kv\<in>set (hb_kvs n). kv_ok kv"
    using assms(1) by (auto simp: hb_kvs_def kv_ok_def node_ok_def show_int_no show_f1_no state_name_def)
  have nid: "plain_word (nd_id n)" "CHR ''='' \<notin> set (nd_id n)" using assms(1) by (simp_all add: node_ok_def)
  have get: "frame_get f key 256 = map_option (take 255) (map_of (hb_kvs n) key)"
    if "CHR ''='' \<notin> set key" "SP \<notin> set key" for key
    using frame_get_args[OF kv nid that, of "''HEARTBEAT''" 256] by (simp add: f_def args_def)
  have w: "word_sp args = nd_id n"
    using nid(1) by (simp add: join_sp_id plain_word_def hb_kvs_def args_def del: join_sp.simps)
  have tr: "snprintf_s 512 args = args" "snprintf_s FRAME_ARGS_MAX args = args"
    using assms(2) by (simp_all add: FRAME_ARGS_MAX_def args_def)
  have tk: "take 255 s = s" if "length s < 256" for s :: string using that by simp
  have len: "length (show_int (nd_inflight n)) < 256" "length (show_int (nd_waiting n)) < 256"
    using assms(1) length_show_int[of "nd_inflight n"] length_show_int[of "nd_waiting n"] by (simp_all add: node_ok_def)
  have at: "atoi (show_int (nd_inflight n)) = nd_inflight n" "atoi (show_int (nd_waiting n)) = nd_waiting n"
    using atoi_show_int[of "[]"] assms(1) by (simp_all add: node_ok_def)
  have g: "frame_get f ''type'' 256 = Some (nd_type n)"
    "frame_get f ''state'' 256 = Some (state_name (nd_state n))"
    "frame_get f ''inflight'' 256 = Some (show_int (nd_inflight n))"
    "frame_get f ''waiting'' 256 = Some (show_int (nd_waiting n))"
    "frame_get f ''kv_mb'' 256 = Some (show_f1 (nd_kv10 n))"
    "frame_get f ''avg_infer_ms'' 256 = Some (show_f1 (nd_avg10 n))"
    "frame_get f ''addr'' 256 = (if nd_addr n \<noteq> [] then Some (nd_addr n) else None)"
    "frame_get f ''model'' 256 = (if nd_model n \<noteq> [] then Some (nd_model n) else None)"
    using assms(1) len by (simp_all add: get hb_kvs_def tk node_ok_def state_name_def)
  have sc: "state_code (state_name (nd_state n)) = nd_state n"
    using assms(1) state_code_name[of n] by (simp add: node_ok_def)
  have "node_parse_hb (node_hb_args n 512) m now = node_parse_hb args m now"
    by (simp add: hb_args_kvs tr args_def[symmetric])
  also have "\<dots> = m\<lparr>nd_id := nd_id n, nd_type := nd_type n, nd_state := nd_state n, nd_inflight := nd_inflight n,
      nd_waiting := nd_waiting n, nd_kv10 := nd_kv10 n, nd_avg10 := nd_avg10 n,
      nd_addr := (if nd_addr n \<noteq> [] then nd_addr n else nd_addr m),
      nd_model := (if nd_model n \<noteq> [] then nd_model n else nd_model m), nd_last_hb := now\<rparr>"
    unfolding node_parse_hb_def Let_def tr(2) f_def[symmetric] w
    using assms(1) by (simp add: g at sc node_ok_def atof10_show_f1)
  finally show ?thesis .
qed

theorem heartbeat_roundtrip_witness:
  "node_parse_hb (node_hb_args \<lparr>nd_id = ''r0'', nd_type = ''rank'', nd_model = [], nd_addr = ''h:1'', nd_state = 1,
      nd_inflight = 2, nd_waiting = 0, nd_avg10 = 15, nd_kv10 = 0, nd_last_hb = 0\<rparr> 512)
     \<lparr>nd_id = [], nd_type = [], nd_model = ''m'', nd_addr = [], nd_state = 0,
      nd_inflight = 0, nd_waiting = 0, nd_avg10 = 0, nd_kv10 = 0, nd_last_hb = 0\<rparr> 7 =
     \<lparr>nd_id = ''r0'', nd_type = ''rank'', nd_model = ''m'', nd_addr = ''h:1'', nd_state = 1,
      nd_inflight = 2, nd_waiting = 0, nd_avg10 = 15, nd_kv10 = 0, nd_last_hb = 7\<rparr>"
  by (subst heartbeat_roundtrip)
     (simp_all add: node_ok_def plain_word_def hb_kvs_def kv_word_def show_f1_def show_int_def show_nat.simps
       state_name_def node_states)

end
