(* ===== verification/RouterTable.thy ===== *)
theory RouterTable
  imports NodeInfo
begin

text \<open>
  The router (\<^verbatim>\<open>serve/router.c\<close>): the table of servers the supervisor announces, the routing
  decision and the forwarding of an inference request to the chosen server. The table's mutex
  is part of the state: locking a mutex that is held is a deadlock (\<open>Diverge\<close>), as the mutex is
  a default, non-recursive one and the model has one thread. \<open>double\<close> fields are kept in tenths
  as in the node record. The clock is an argument.
\<close>

subsection \<open>State\<close>

definition RT_MAX_SERVERS :: nat where "RT_MAX_SERVERS = 64"
definition RT_MAX_LINE :: nat where "RT_MAX_LINE = 8192"

record rt_server =
  rs_id :: string
  rs_model :: string
  rs_host :: string
  rs_port :: u16
  rs_state :: int
  rs_inflight :: int
  rs_waiting :: int
  rs_avg10 :: int
  rs_kv10 :: int
  rs_last :: u64

record router =
  rt_servers :: "rt_server list"
  rt_locked :: bool
  rt_rr :: int
  rt_strategy :: "string option"

definition lock :: "router \<Rightarrow> router run" where
  "lock r = (if rt_locked r then Diverge else Ret (r\<lparr>rt_locked := True\<rparr>))"

definition unlock :: "router \<Rightarrow> router" where
  "unlock r = r\<lparr>rt_locked := False\<rparr>"

definition set_server :: "router \<Rightarrow> nat \<Rightarrow> rt_server \<Rightarrow> router" where
  "set_server r i s = r\<lparr>rt_servers := (rt_servers r)[i := s]\<rparr>"

definition find_server :: "router \<Rightarrow> string \<Rightarrow> nat option" where
  "find_server r sid = find_index (\<lambda>s. rs_id s = sid) (rt_servers r)"

text \<open>\<open>sscanf("%127s")\<close>.\<close>

definition scan_word :: "nat \<Rightarrow> string \<Rightarrow> string option" where
  "scan_word n s =
     (let w = take n (takeWhile (\<lambda>c. \<not> is_space c) (dropWhile is_space s)) in if w = [] then None else Some w)"

subsection \<open>Announcements from the supervisor\<close>

text \<open>The fields \<open>model\<close> and \<open>leader=host:port\<close> of an argument line.\<close>

definition upd_model :: "frame \<Rightarrow> rt_server \<Rightarrow> rt_server" where
  "upd_model f s = (case frame_get f ''model'' 256 of Some vb \<Rightarrow> s\<lparr>rs_model := snprintf_s 128 vb\<rparr> | None \<Rightarrow> s)"

definition upd_leader :: "frame \<Rightarrow> rt_server \<Rightarrow> rt_server" where
  "upd_leader f s =
     (case frame_get f ''leader'' 256 of
        Some vb \<Rightarrow>
          (case strchr vb CHR '':'' of
             Some colon \<Rightarrow> s\<lparr>rs_host := take 127 (takeWhile (\<lambda>c. c \<noteq> CHR '':'') vb),
                            rs_port := word_of_int (atoi (tl colon))\<rparr>
           | None \<Rightarrow> s)
      | None \<Rightarrow> s)"

definition zero_server :: rt_server where
  "zero_server = \<lparr>rs_id = [], rs_model = [], rs_host = [], rs_port = 0, rs_state = 0, rs_inflight = 0,
                 rs_waiting = 0, rs_avg10 = 0, rs_kv10 = 0, rs_last = 0\<rparr>"

text \<open>\<open>SERVER_ADD\<close>. When the table is full the handler returns without unlocking.\<close>

definition handle_server_add :: "router \<Rightarrow> string \<Rightarrow> u64 \<Rightarrow> router run" where
  "handle_server_add r args now =
     (let f = \<lparr>fr_cmd = ''X'', fr_args = snprintf_s FRAME_ARGS_MAX args\<rparr> in
      if strchr args SP = None \<and> scan_word 127 args = None then Ret r
      else let sid = take 127 (word_sp args) in
        run_bind (lock r) (\<lambda>r.
          case (case find_server r sid of
                  Some i \<Rightarrow> Some (r, i)
                | None \<Rightarrow>
                    if length (rt_servers r) \<ge> RT_MAX_SERVERS then None
                    else Some (r\<lparr>rt_servers := rt_servers r @ [zero_server\<lparr>rs_id := sid\<rparr>]\<rparr>, length (rt_servers r)))
          of None \<Rightarrow> Ret r
           | Some (r, i) \<Rightarrow>
             let s = upd_leader f (upd_model f (rt_servers r ! i)) in
             Ret (unlock (set_server r i (s\<lparr>rs_state := NODE_STATE_READY, rs_last := now\<rparr>)))))"

definition handle_server_del :: "router \<Rightarrow> string \<Rightarrow> router run" where
  "handle_server_del r args =
     (case scan_word 127 args of
        None \<Rightarrow> Ret r
      | Some sid \<Rightarrow>
        run_bind (lock r) (\<lambda>r.
          case find_server r sid of
            Some i \<Rightarrow> Ret (unlock (set_server r i ((rt_servers r ! i)\<lparr>rs_state := NODE_STATE_DEAD\<rparr>)))
          | None \<Rightarrow> Ret (unlock r)))"

definition handle_server_update :: "router \<Rightarrow> string \<Rightarrow> u64 \<Rightarrow> router run" where
  "handle_server_update r args now =
     (case scan_word 127 args of
        None \<Rightarrow> Ret r
      | Some sid \<Rightarrow>
        let kv = (case proto_get args ''kv_mb'' of Some kp \<Rightarrow> atof10 kp | None \<Rightarrow> 0) in
        run_bind (lock r) (\<lambda>r.
          case find_server r sid of
            Some i \<Rightarrow>
              let s = rt_servers r ! i;
                  s = (case proto_get args ''inflight'' of Some ip \<Rightarrow> s\<lparr>rs_inflight := atoi ip\<rparr> | None \<Rightarrow> s);
                  s = (case proto_get args ''waiting'' of Some wp \<Rightarrow> s\<lparr>rs_waiting := atoi wp\<rparr> | None \<Rightarrow> s);
                  s = (case proto_get args ''avg_infer_ms'' of Some ap \<Rightarrow> s\<lparr>rs_avg10 := atof10 ap\<rparr> | None \<Rightarrow> s) in
              Ret (unlock (set_server r i (s\<lparr>rs_kv10 := kv, rs_last := now\<rparr>)))
          | None \<Rightarrow> Ret (unlock r)))"

text \<open>One \<open>SERVER_INFO\<close> line of a snapshot. \<open>junk\<close> is what the frame buffer holds behind the
  terminator of its arguments, read when the line has nothing but the id.\<close>

definition server_info :: "router \<Rightarrow> string \<Rightarrow> string \<Rightarrow> u64 \<Rightarrow> router run" where
  "server_info r args junk now =
     (let f = \<lparr>fr_cmd = ''X'', fr_args = snprintf_s FRAME_ARGS_MAX args\<rparr> in
      if (case frame_get f ''type'' 64 of Some t \<Rightarrow> t \<noteq> ''server'' | None \<Rightarrow> False) then Ret r
      else case scan_word 127 args of
        None \<Rightarrow> Ret r
      | Some sid \<Rightarrow>
        (case find_server r sid of
           None \<Rightarrow>
             let rest = (if length sid < length args then drop (length sid + 1) args else junk) in
             handle_server_add r (snprintf_s 1024 (sid @ SP # rest)) now
         | Some i \<Rightarrow>
             run_bind (lock r) (\<lambda>r.
               let s = rt_servers r ! i;
                   s = (case frame_get f ''state'' 256 of
                          Some vb \<Rightarrow> if vb = ''ready'' then s\<lparr>rs_state := NODE_STATE_READY\<rparr>
                                     else if vb = ''dead'' then s\<lparr>rs_state := NODE_STATE_DEAD\<rparr> else s
                        | None \<Rightarrow> s);
                   s = upd_model f (upd_leader f s);
                   s = (case frame_get f ''inflight'' 256 of Some vb \<Rightarrow> s\<lparr>rs_inflight := atoi vb\<rparr> | None \<Rightarrow> s);
                   s = (case frame_get f ''waiting'' 256 of Some vb \<Rightarrow> s\<lparr>rs_waiting := atoi vb\<rparr> | None \<Rightarrow> s);
                   s = (case frame_get f ''avg_infer_ms'' 256 of Some vb \<Rightarrow> s\<lparr>rs_avg10 := atof10 vb\<rparr> | None \<Rightarrow> s) in
               Ret (unlock (set_server r i s)))))"

lemma frame_recv_length: "frame_recv s = Some (f, r) \<Longrightarrow> length r < length s"
proof -
  assume a: "frame_recv s = Some (f, r)"
  then obtain buf where b: "sock_recv_line (FRAME_CMD_MAX + FRAME_ARGS_MAX + 2) s = Some (buf, r)"
    by (cases "sock_recv_line (FRAME_CMD_MAX + FRAME_ARGS_MAX + 2) s")
       (auto simp: frame_recv_def Let_def split: option.splits if_splits)
  then show ?thesis
    using recv_line_loop_length[of "FRAME_CMD_MAX + FRAME_ARGS_MAX + 2" "[]" s buf r]
    by (simp add: sock_recv_line_def)
qed

text \<open>The reply to \<open>QUERY_SERVERS\<close>, read until \<open>QUERY_DONE\<close> or the end of the stream.\<close>

function query_servers :: "router \<Rightarrow> bytes \<Rightarrow> string \<Rightarrow> u64 \<Rightarrow> router run" where
  "query_servers r s junk now =
     (case frame_recv s of
        None \<Rightarrow> Ret r
      | Some (f, s') \<Rightarrow>
          if fr_cmd f = ''QUERY_DONE'' then Ret r
          else if fr_cmd f = ''SERVER_INFO'' then
            (case server_info r (fr_args f) junk now of
               Ret r' \<Rightarrow> query_servers r' s' junk now | Diverge \<Rightarrow> Diverge | Fault \<Rightarrow> Fault)
          else query_servers r s' junk now)"
  by pat_completeness auto
termination
  by (relation "measure (\<lambda>(r, s, junk, now). length s)") (auto dest: frame_recv_length)

declare query_servers.simps [simp del]

subsection \<open>The routing decision\<close>

definition router_model_known :: "router \<Rightarrow> string \<Rightarrow> (router \<times> bool) run" where
  "router_model_known r model =
     run_bind (lock r) (\<lambda>r. Ret (unlock r, \<exists>s\<in>set (rt_servers r). rs_model s = model))"

definition eligible :: "string \<Rightarrow> rt_server \<Rightarrow> bool" where
  "eligible model s \<longleftrightarrow> rs_state s = NODE_STATE_READY \<and> rs_model s = model"

text \<open>The \<open>k\<close>-th eligible entry, counted from 0.\<close>

fun pick_kth :: "string \<Rightarrow> nat \<Rightarrow> int \<Rightarrow> int \<Rightarrow> rt_server list \<Rightarrow> nat option" where
  "pick_kth model i k target [] = None"
| "pick_kth model i k target (s # ss) =
     (if eligible model s
      then (if k = target then Some i else pick_kth model (Suc i) (k + 1) target ss)
      else pick_kth model (Suc i) k target ss)"

fun pick_least :: "string \<Rightarrow> nat \<Rightarrow> (nat \<times> int) option \<Rightarrow> rt_server list \<Rightarrow> (nat \<times> int) option" where
  "pick_least model i best [] = best"
| "pick_least model i best (s # ss) =
     (if eligible model s \<and> (case best of None \<Rightarrow> True | Some (_, b) \<Rightarrow> rs_inflight s < b)
      then pick_least model (Suc i) (Some (i, rs_inflight s)) ss
      else pick_least model (Suc i) best ss)"

text \<open>In the round-robin branch the entry is returned with the mutex held.\<close>

definition pick_server :: "router \<Rightarrow> string \<Rightarrow> (router \<times> nat option) run" where
  "pick_server r model =
     run_bind (lock r) (\<lambda>r.
       let n = length (filter (eligible model) (rt_servers r)) in
       if n = 0 then Ret (unlock r, None)
       else if rt_strategy r = Some ''round-robin'' then
         let r = r\<lparr>rt_rr := (rt_rr r + 1) mod int n\<rparr> in
         (case pick_kth model 0 0 (rt_rr r) (rt_servers r) of
            Some i \<Rightarrow> Ret (r, Some i)
          | None \<Rightarrow> Ret (unlock r, map_option fst (pick_least model 0 None (rt_servers r))))
       else Ret (unlock r, map_option fst (pick_least model 0 None (rt_servers r))))"

subsection \<open>Forwarding\<close>

text \<open>Other nodes are reached through \<open>be\<close>: given the host, the port and the bytes sent, the
  bytes the peer sends back before it closes, or \<open>None\<close> when the connection fails. What other
  threads do to the table during the \<open>i\<close>-th 500 ms pause is \<open>env i\<close>.\<close>

type_synonym backend = "string \<Rightarrow> u16 \<Rightarrow> bytes \<Rightarrow> bytes option"

definition router_set_err :: "nat \<Rightarrow> string option \<Rightarrow> string \<Rightarrow> string" where
  "router_set_err errlen line fallback =
     (let msg = (case line of Some l \<Rightarrow> proto_error_msg l | None \<Rightarrow> []) in
      snprintf_s errlen (if msg = [] then fallback else msg))"

text \<open>\<open>for (i = 0; i < 60 && !s; i++) { sleep; s = pick_server(r, model); }\<close>\<close>

fun retry_pick :: "(nat \<Rightarrow> router \<Rightarrow> router) \<Rightarrow> nat \<Rightarrow> nat \<Rightarrow> router \<Rightarrow> string \<Rightarrow> (router \<times> nat option) run" where
  "retry_pick env i 0 r model = Ret (r, None)"
| "retry_pick env i (Suc n) r model =
     run_bind (pick_server (env i r) model)
       (\<lambda>(r, s). if s \<noteq> None then Ret (r, s) else retry_pick env (Suc i) n r model)"

text \<open>The server that takes a request; \<open>Inl\<close> carries the return code and the error text.\<close>

definition choose_server ::
  "(nat \<Rightarrow> router \<Rightarrow> router) \<Rightarrow> nat \<Rightarrow> router \<Rightarrow> string \<Rightarrow> (router \<times> (int \<times> string + nat)) run" where
  "choose_server env errlen r model =
     run_bind (pick_server r model) (\<lambda>(r, s).
       case s of Some i \<Rightarrow> Ret (r, Inr i)
       | None \<Rightarrow>
         run_bind (router_model_known r model) (\<lambda>(r, known).
           if \<not> known then Ret (r, Inl (-2, []))
           else run_bind (retry_pick env 0 60 r model) (\<lambda>(r, s).
             case s of Some i \<Rightarrow> Ret (r, Inr i)
             | None \<Rightarrow> Ret (r, Inl (-1, router_set_err errlen None ''no ready server'')))))"

definition bump_inflight :: "router \<Rightarrow> nat \<Rightarrow> int \<Rightarrow> router run" where
  "bump_inflight r i d =
     run_bind (lock r) (\<lambda>r.
       let s = rt_servers r ! i in Ret (unlock (set_server r i (s\<lparr>rs_inflight := rs_inflight s + d\<rparr>))))"

lemma recv_line_length: "sock_recv_line mx s = Some (l, r) \<Longrightarrow> length r < length s"
  using recv_line_loop_length[of mx "[]" s l r] by (simp add: sock_recv_line_def)

lemma recv_n_length: "recv_n n s = Some (p, r) \<Longrightarrow> length r \<le> length s"
  by (auto simp: recv_n_def split: if_splits)

lemma t_payload_length: "frame_t_payload l s = Some (p, r) \<Longrightarrow> length r \<le> length s"
  by (auto simp: frame_t_payload_def Let_def split: if_splits dest: recv_n_length)

text \<open>The reply to \<open>INFER\<close>: the payloads handed to \<open>on_token\<close>, the return code, the error.\<close>

function infer_loop :: "nat \<Rightarrow> bytes \<Rightarrow> bytes list \<times> int \<times> string" where
  "infer_loop errlen s =
     (case sock_recv_line RT_MAX_LINE s of
        None \<Rightarrow> ([], -1, router_set_err errlen None ''backend timeout/disconnect'')
      | Some (buf, s1) \<Rightarrow>
        let line = cstr buf in
        if starts ''DONE'' line then ([], 0, [])
        else if proto_is_error line then ([], -1, router_set_err errlen (Some line) ''backend error'')
        else if starts ''T '' line then
          (case frame_t_payload line s1 of
             None \<Rightarrow> ([], -1, [])
           | Some (p, s2) \<Rightarrow> (case infer_loop errlen s2 of (ps, rc, err) \<Rightarrow> (p # ps, rc, err)))
        else infer_loop errlen s1)"
  by pat_completeness auto
termination
  by (relation "measure (\<lambda>(e, s). length s)") (auto dest!: recv_line_length t_payload_length)

declare infer_loop.simps [simp del]

text \<open>\<open>temp\<close> and \<open>top_p\<close> are the two sampling parameters as printed by \<open>%.6g\<close>.\<close>

definition router_infer ::
  "(nat \<Rightarrow> router \<Rightarrow> router) \<Rightarrow> backend \<Rightarrow> router \<Rightarrow> string \<Rightarrow> int \<Rightarrow> bytes \<Rightarrow> string \<Rightarrow> string \<Rightarrow> nat
   \<Rightarrow> (router \<times> bytes list \<times> int \<times> string) run" where
  "router_infer env be r model max_tokens prompt temp top_p errlen =
     run_bind (choose_server env errlen r model) (\<lambda>(r, c).
       case c of Inl (rc, err) \<Rightarrow> Ret (r, [], rc, err)
       | Inr i \<Rightarrow>
         let s = rt_servers r ! i;
             args = snprintf_s 192 (show_int max_tokens @ [SP] @ show_nat (length prompt)
                      @ '' temp='' @ temp @ '' top_p='' @ top_p) in
         run_bind (frame_send_payload ''INFER'' args prompt) (\<lambda>req.
         case be (rs_host s) (rs_port s) req of
           None \<Rightarrow> Ret (r, [], -1, router_set_err errlen None ''cannot connect server'')
         | Some reply \<Rightarrow>
           run_bind (bump_inflight r i 1) (\<lambda>r.
             case infer_loop errlen reply of (ps, rc, err) \<Rightarrow>
               run_bind (bump_inflight r i (-1)) (\<lambda>r. Ret (r, ps, rc, err)))))"

text \<open>\<open>sscanf("%zu")\<close>: a negative number wraps around; the target stays 0 when nothing is
  read.\<close>

definition scan_size :: "string \<Rightarrow> nat" where
  "scan_size s =
     (let t = dropWhile is_space s;
          neg = starts ''-'' t;
          u = (if neg \<or> starts ''+'' t then tl t else t);
          n = min (digits_val 0 u) (2 ^ 64 - 1) in
      if neg then (2 ^ 64 - n) mod 2 ^ 64 else n)"

text \<open>The reply to \<open>INFER_SESS\<close>: additionally the prompt token count and the waiting time of the
  \<open>DONE\<close> line. \<open>TS -1\<close> allocates \<open>SIZE_MAX + 1 = 0\<close> bytes and receives into them.\<close>

function sess_loop :: "nat \<Rightarrow> bytes \<Rightarrow> (bytes list \<times> int \<times> string \<times> int \<times> int) run" where
  "sess_loop errlen s =
     (case sock_recv_line RT_MAX_LINE s of
        None \<Rightarrow> Ret ([], -1, router_set_err errlen None ''backend timeout/disconnect'', 0, 0)
      | Some (buf, s1) \<Rightarrow>
        let line = cstr buf in
        if starts ''DONE'' line then
          Ret ([], 0, [], (case strrchr line SP of Some sp \<Rightarrow> atoi (tl sp) | None \<Rightarrow> 0),
               (case proto_get line ''wait_ms'' of Some wp \<Rightarrow> atoi wp | None \<Rightarrow> 0))
        else if proto_is_error line then Ret ([], -1, router_set_err errlen (Some line) ''backend error'', 0, 0)
        else if starts ''TS '' line then
          (let tlen = scan_size (drop 3 line) in
           if tlen = 0 then Ret ([], -1, [], 0, 0)
           else if tlen + 1 = 2 ^ 64 \<and> s1 \<noteq> [] then Fault
           else (case recv_n tlen s1 of
               None \<Rightarrow> Ret ([], -1, [], 0, 0)
             | Some (p, s2) \<Rightarrow>
                 (case sess_loop errlen s2 of
                    Ret (ps, rc, err, pt, wm) \<Rightarrow> Ret (p # ps, rc, err, pt, wm) | Diverge \<Rightarrow> Diverge | Fault \<Rightarrow> Fault)))
        else sess_loop errlen s1)"
  by pat_completeness auto
termination
  by (relation "measure (\<lambda>(e, s). length s)") (auto dest!: recv_line_length recv_n_length)

declare sess_loop.simps [simp del]

definition router_infer_sess ::
  "(nat \<Rightarrow> router \<Rightarrow> router) \<Rightarrow> backend \<Rightarrow> router \<Rightarrow> string \<Rightarrow> int \<Rightarrow> string \<Rightarrow> bytes \<Rightarrow> string \<Rightarrow> string \<Rightarrow> nat
   \<Rightarrow> (router \<times> bytes list \<times> int \<times> string \<times> int \<times> int) run" where
  "router_infer_sess env be r model max_tokens sess_key msg temp top_p errlen =
     run_bind (choose_server env errlen r model) (\<lambda>(r, c).
       case c of Inl (rc, err) \<Rightarrow> Ret (r, [], rc, err, 0, 0)
       | Inr i \<Rightarrow>
         let s = rt_servers r ! i;
             args = snprintf_s 256 (show_int max_tokens @ [SP] @ show_nat (length msg)
                      @ '' key='' @ (if sess_key \<noteq> [] then sess_key else ''-'')
                      @ '' temp='' @ temp @ '' top_p='' @ top_p) in
         run_bind (frame_send_payload ''INFER_SESS'' args msg) (\<lambda>req.
         case be (rs_host s) (rs_port s) req of
           None \<Rightarrow> Ret (r, [], -1, router_set_err errlen None ''cannot connect server'', 0, 0)
         | Some reply \<Rightarrow>
           run_bind (bump_inflight r i 1) (\<lambda>r.
             run_bind (sess_loop errlen reply) (\<lambda>(ps, rc, err, pt, wm).
               run_bind (bump_inflight r i (-1)) (\<lambda>r. Ret (r, ps, rc, err, pt, wm))))))"

text \<open>A text client's \<open>INFER\<close>: the bytes written back to it.\<close>

function relay_loop :: "bytes \<Rightarrow> bytes" where
  "relay_loop s =
     (case sock_recv_line RT_MAX_LINE s of
        None \<Rightarrow> sock_send_line ''ERR server disconnected''
      | Some (buf, s1) \<Rightarrow>
        let line = cstr buf in
        sock_send_line line @
        (if starts ''DONE'' line \<or> proto_is_error line then []
         else if starts ''T '' line then
           (case frame_t_payload line s1 of None \<Rightarrow> [] | Some (p, s2) \<Rightarrow> p @ relay_loop s2)
         else relay_loop s1))"
  by pat_completeness auto
termination
  by (relation "measure length") (auto dest!: recv_line_length t_payload_length)

declare relay_loop.simps [simp del]

text \<open>\<open>sscanf("%127s %d %ld")\<close>.\<close>

definition scan_infer :: "string \<Rightarrow> (string \<times> int \<times> int) option" where
  "scan_infer args =
     (let t = dropWhile is_space args; w = take 127 (takeWhile (\<lambda>c. \<not> is_space c) t) in
      if w = [] then None
      else case scan_int (drop (length w) t) of None \<Rightarrow> None
      | Some (mt, r) \<Rightarrow> (case scan_int r of None \<Rightarrow> None | Some _ \<Rightarrow> Some (w, mt, atol r)))"

definition handle_client_infer :: "backend \<Rightarrow> router \<Rightarrow> string \<Rightarrow> bytes \<Rightarrow> (router \<times> bytes) run" where
  "handle_client_infer be r args client =
     (case scan_infer args of
        None \<Rightarrow> Ret (r, sock_send_line ''ERR bad INFER: usage <model> <max_tokens> <n_bytes>'')
      | Some (model, max_tokens, nbytes) \<Rightarrow>
        run_bind (pick_server r model) (\<lambda>(r, s).
          case s of None \<Rightarrow> Ret (r, sock_send_line (''ERR no ready server for model '' @ model))
          | Some i \<Rightarrow>
            let sv = rt_servers r ! i in
            (case (if nbytes > 0 then map_option fst (recv_n (nat nbytes) client) else Some []) of
               None \<Rightarrow>
                 Ret (r, if be (rs_host sv) (rs_port sv) [] = None
                         then sock_send_line (''ERR cannot connect server '' @ rs_id sv) else [])
             | Some prompt \<Rightarrow>
               run_bind (frame_send_payload ''INFER'' (snprintf_s 64 (show_int max_tokens)) prompt) (\<lambda>req.
                 case be (rs_host sv) (rs_port sv) req of
                   None \<Rightarrow> Ret (r, sock_send_line (''ERR cannot connect server '' @ rs_id sv))
                 | Some reply \<Rightarrow>
                   run_bind (bump_inflight r i 1) (\<lambda>r.
                     run_bind (bump_inflight r i (-1)) (\<lambda>r. Ret (r, relay_loop reply)))))))"

text \<open>One connection of the text port: the new table, the quit flag, the bytes written back.\<close>

definition router_conn :: "backend \<Rightarrow> router \<Rightarrow> bytes \<Rightarrow> u64 \<Rightarrow> (router \<times> bool \<times> bytes) run" where
  "router_conn be r client now =
     (case frame_recv client of
        None \<Rightarrow> Ret (r, False, [])
      | Some (f, rest) \<Rightarrow>
        if fr_cmd f = ''INFER'' then
          run_bind (handle_client_infer be r (fr_args f) rest) (\<lambda>(r, out). Ret (r, False, out))
        else if fr_cmd f = ''SERVER_ADD'' then run_bind (handle_server_add r (fr_args f) now) (\<lambda>r. Ret (r, False, []))
        else if fr_cmd f = ''SERVER_DEL'' then run_bind (handle_server_del r (fr_args f)) (\<lambda>r. Ret (r, False, []))
        else if fr_cmd f = ''SERVER_UPDATE'' then
          run_bind (handle_server_update r (fr_args f) now) (\<lambda>r. Ret (r, False, []))
        else if fr_cmd f = ''QUIT'' then Ret (r, True, frame_send ''OK'' [])
        else if fr_cmd f = ''PING'' then Ret (r, False, frame_send ''OK'' ''READY'')
        else if fr_cmd f = ''STAT'' then
          run_bind (lock r) (\<lambda>r.
            let st = snprintf_s 256 (''servers='' @ show_nat (length (rt_servers r))
                  @ '' inflight='' @ show_int (sum_list (map rs_inflight (rt_servers r)))
                  @ '' waiting='' @ show_int (sum_list (map rs_waiting (rt_servers r)))
                  @ '' kv_mb=0.0 prefix_hits=0 uptime_s=0'') in
            Ret (unlock r, False, frame_send ''OK'' st))
        else Ret (r, False, frame_send ''ERR'' ''unknown cmd''))"

subsection \<open>The table\<close>

definition rt_inv :: "router \<Rightarrow> bool" where
  "rt_inv r \<longleftrightarrow> \<not> rt_locked r \<and> length (rt_servers r) \<le> RT_MAX_SERVERS \<and> distinct (map rs_id (rt_servers r))"

lemma lock_free: "\<not> rt_locked r \<Longrightarrow> lock r = Ret (r\<lparr>rt_locked := True\<rparr>)"
  by (simp add: lock_def)

lemma unlock_lock [simp]: "\<not> rt_locked r \<Longrightarrow> unlock (r\<lparr>rt_locked := True\<rparr>) = r"
  by (simp add: unlock_def)

lemma router_sel [simp]:
  "rt_servers (set_server r i s) = (rt_servers r)[i := s]" "rt_locked (set_server r i s) = rt_locked r"
  "rt_servers (unlock r) = rt_servers r" "\<not> rt_locked (unlock r)"
  "rt_strategy (set_server r i s) = rt_strategy r" "rt_strategy (unlock r) = rt_strategy r"
  "rt_rr (set_server r i s) = rt_rr r" "rt_rr (unlock r) = rt_rr r"
  by (simp_all add: set_server_def unlock_def)

lemma upd_keep [simp]: "rs_id (upd_leader f s) = rs_id s" "rs_id (upd_model f s) = rs_id s"
  by (simp_all add: upd_leader_def upd_model_def split: option.splits)

lemma distinct_update_same:
  "distinct (map f xs) \<Longrightarrow> f x = f (xs ! i) \<Longrightarrow> distinct (map f (xs[i := x]))"
  by (metis length_map list_update_beyond list_update_id map_update not_less nth_map)

lemma inv_set_server:
  assumes "length (rt_servers r) \<le> RT_MAX_SERVERS" "distinct (map rs_id (rt_servers r))" "rs_id s = rs_id (rt_servers r ! i)"
  shows "rt_inv (unlock (set_server r i s))"
  using assms distinct_update_same[of rs_id "rt_servers r" s i] by (simp add: rt_inv_def)

lemma find_server_Some: "find_server r sid = Some i \<Longrightarrow> i < length (rt_servers r) \<and> rs_id (rt_servers r ! i) = sid"
  by (simp add: find_server_def find_index_Some)

lemma find_server_lock [simp]: "find_server (r\<lparr>rt_locked := b\<rparr>) sid = find_server r sid"
  by (simp add: find_server_def)

text \<open>\<open>SERVER_ADD\<close> keeps the table's invariant (mutex free, at most 64 entries, distinct ids)
  and leaves an entry of that id that is ready, stamped with the current time, with every other
  entry unchanged -- unless the id is new and the table full: then the handler returns with the
  mutex still held and every later operation on the table blocks for ever.\<close>

theorem server_add_table:
  assumes "rt_inv r" "scan_word 127 args \<noteq> None" and sid: "sid = take 127 (word_sp args)"
  shows "if find_server r sid = None \<and> length (rt_servers r) = RT_MAX_SERVERS
    then \<exists>r'. handle_server_add r args now = Ret r' \<and> (\<forall>a t m. scan_word 127 a \<noteq> None \<longrightarrow>
           handle_server_add r' a t = Diverge \<and> handle_server_del r' a = Diverge \<and>
           handle_server_update r' a t = Diverge \<and> pick_server r' m = Diverge)
    else \<exists>r' i. handle_server_add r args now = Ret r' \<and> rt_inv r' \<and> find_server r' sid = Some i \<and>
           rs_state (rt_servers r' ! i) = NODE_STATE_READY \<and> rs_last (rt_servers r' ! i) = now \<and>
           (\<forall>j<length (rt_servers r). j \<noteq> i \<longrightarrow> rt_servers r' ! j = rt_servers r ! j) \<and>
           length (rt_servers r') = (if find_server r sid = None then Suc (length (rt_servers r)) else length (rt_servers r))"
proof -
  let ?f = "\<lparr>fr_cmd = ''X'', fr_args = snprintf_s FRAME_ARGS_MAX args\<rparr>"
  let ?L = "r\<lparr>rt_locked := True\<rparr>"
  obtain w where w: "scan_word 127 args = Some w" using assms(2) by auto
  have inv: "\<not> rt_locked r" "length (rt_servers r) \<le> RT_MAX_SERVERS" "distinct (map rs_id (rt_servers r))"
    using assms(1) by (auto simp: rt_inv_def)
  have blocked: "handle_server_add q a t = Diverge \<and> handle_server_del q a = Diverge \<and>
      handle_server_update q a t = Diverge \<and> pick_server q m = Diverge" if "rt_locked q" "scan_word 127 a \<noteq> None" for q a t m
    using that by (auto simp: handle_server_add_def handle_server_del_def handle_server_update_def pick_server_def lock_def Let_def)
  show ?thesis
  proof (cases "find_server r sid")
    case None
    show ?thesis
    proof (cases "length (rt_servers r) = RT_MAX_SERVERS")
      case True
      have "handle_server_add r args now = Ret ?L"
        using w None True inv(1) by (simp add: handle_server_add_def lock_free Let_def sid)
      then show ?thesis using None True blocked[of ?L] by auto
    next
      case False
      define r1 where "r1 = ?L\<lparr>rt_servers := rt_servers r @ [zero_server\<lparr>rs_id := sid\<rparr>]\<rparr>"
      define i where "i = length (rt_servers r)"
      define s where "s = (upd_leader ?f (upd_model ?f (rt_servers r1 ! i)))\<lparr>rs_state := NODE_STATE_READY, rs_last := now\<rparr>"
      have add: "handle_server_add r args now = Ret (unlock (set_server r1 i s))"
        using w None False inv(1,2)
        by (simp add: handle_server_add_def lock_free Let_def sid[symmetric] r1_def i_def s_def)
      have new: "sid \<notin> rs_id ` set (rt_servers r)" using None by (auto simp: find_server_def find_index_None)
      have newj: "\<forall>j<length (rt_servers r). rs_id (rt_servers r ! j) \<noteq> sid" using new by (metis imageI nth_mem)
      have ids: "rs_id s = sid" "rt_servers r1 ! i = zero_server\<lparr>rs_id := sid\<rparr>" by (simp_all add: s_def r1_def i_def)
      have "rt_inv (unlock (set_server r1 i s))"
        by (rule inv_set_server) (use False inv new ids in \<open>auto simp: r1_def\<close>)
      moreover have "find_server (unlock (set_server r1 i s)) sid = Some i"
        using newj ids unfolding find_server_def find_index_Some
        by (auto simp: r1_def i_def nth_append)
      ultimately show ?thesis
        using add None False ids
        by (intro if_P[THEN iffD2] if_not_P[THEN iffD2]) (auto simp: r1_def i_def s_def nth_append)
    qed
  next
    case (Some i)
    define s where "s = (upd_leader ?f (upd_model ?f (rt_servers r ! i)))\<lparr>rs_state := NODE_STATE_READY, rs_last := now\<rparr>"
    note fi = find_server_Some[OF Some]
    have add: "handle_server_add r args now = Ret (unlock (set_server ?L i s))"
      using w Some inv(1) by (simp add: handle_server_add_def lock_free Let_def sid[symmetric] s_def)
    have "rt_inv (unlock (set_server ?L i s))"
      by (rule inv_set_server) (use inv in \<open>simp_all add: s_def\<close>)
    moreover have "find_server (unlock (set_server ?L i s)) sid = Some i"
      using Some fi unfolding find_server_def find_index_Some by (auto simp: s_def nth_list_update)
    ultimately show ?thesis
      using add Some fi by (auto simp: s_def)
  qed
qed

definition two_servers :: router where
  "two_servers = \<lparr>rt_servers =
      [zero_server\<lparr>rs_id := ''a'', rs_model := ''m'', rs_host := ''h1'', rs_port := 1, rs_state := 1, rs_inflight := 3\<rparr>,
       zero_server\<lparr>rs_id := ''b'', rs_model := ''m'', rs_host := ''h2'', rs_port := 2, rs_state := 1, rs_inflight := 1\<rparr>],
     rt_locked = False, rt_rr = 0, rt_strategy = None\<rparr>"

lemma two_servers_inv: "rt_inv two_servers"
  by (simp add: rt_inv_def two_servers_def zero_server_def RT_MAX_SERVERS_def)

theorem server_add_table_witness:
  "\<exists>r' i. handle_server_add two_servers ''c model=m leader=h3:9'' 5 = Ret r' \<and> rt_inv r' \<and>
     find_server r' ''c'' = Some i \<and> rs_last (rt_servers r' ! i) = 5"
proof -
  have 1: "scan_word 127 ''c model=m leader=h3:9'' \<noteq> None"
    by (simp add: scan_word_def is_space_def code_def Let_def)
  have 2: "''c'' = take 127 (word_sp ''c model=m leader=h3:9'')" by (simp add: word_sp_def)
  have "length (rt_servers two_servers) \<noteq> RT_MAX_SERVERS" by (simp add: two_servers_def RT_MAX_SERVERS_def)
  with server_add_table[OF two_servers_inv 1 2, of 5] show ?thesis by (auto split: if_splits)
qed

subsection \<open>The routing decision\<close>

lemma pick_least_spec:
  "pick_least model i best ss = res \<Longrightarrow>
   (res = best \<and> (\<forall>s\<in>set ss. eligible model s \<longrightarrow> (case best of None \<Rightarrow> False | Some (_, b) \<Rightarrow> b \<le> rs_inflight s))) \<or>
   (\<exists>j<length ss. res = Some (i + j, rs_inflight (ss ! j)) \<and> eligible model (ss ! j)
      \<and> (case best of None \<Rightarrow> True | Some (_, b) \<Rightarrow> rs_inflight (ss ! j) < b)
      \<and> (\<forall>k<j. eligible model (ss ! k) \<longrightarrow> rs_inflight (ss ! j) < rs_inflight (ss ! k))
      \<and> (\<forall>s\<in>set ss. eligible model s \<longrightarrow> rs_inflight (ss ! j) \<le> rs_inflight s))"
proof (induction ss arbitrary: i best)
  case (Cons s ss)
  show ?case
  proof (cases "eligible model s \<and> (case best of None \<Rightarrow> True | Some (_, b) \<Rightarrow> rs_inflight s < b)")
    case True
    then have r: "pick_least model (Suc i) (Some (i, rs_inflight s)) ss = res" using Cons.prems by simp
    from Cons.IH[OF r] show ?thesis
    proof (elim disjE conjE exE)
      assume "res = Some (i, rs_inflight s)" and
        "\<forall>t\<in>set ss. eligible model t \<longrightarrow> (case Some (i, rs_inflight s) of None \<Rightarrow> False | Some (_, b) \<Rightarrow> b \<le> rs_inflight t)"
      then show ?thesis using True by (intro disjI2 exI[of _ 0]) (auto cong: option.case_cong)
    next
      fix j
      assume j: "j < length ss" "res = Some (Suc i + j, rs_inflight (ss ! j))" "eligible model (ss ! j)"
        "case Some (i, rs_inflight s) of None \<Rightarrow> True | Some (_, b) \<Rightarrow> rs_inflight (ss ! j) < b"
        "\<forall>k<j. eligible model (ss ! k) \<longrightarrow> rs_inflight (ss ! j) < rs_inflight (ss ! k)"
        "\<forall>s\<in>set ss. eligible model s \<longrightarrow> rs_inflight (ss ! j) \<le> rs_inflight s"
      then show ?thesis using True
        by (intro disjI2 exI[of _ "Suc j"]) (auto simp: less_Suc_eq_0_disj split: option.splits)
    qed
  next
    case False
    then have r: "pick_least model (Suc i) best ss = res" using Cons.prems by auto
    from Cons.IH[OF r] show ?thesis
    proof (elim disjE conjE exE)
      assume "res = best" and "\<forall>s\<in>set ss. eligible model s \<longrightarrow> (case best of None \<Rightarrow> False | Some (_, b) \<Rightarrow> b \<le> rs_inflight s)"
      then show ?thesis using False by (intro disjI1) (auto split: option.splits)
    next
      fix j
      assume j: "j < length ss" "res = Some (Suc i + j, rs_inflight (ss ! j))" "eligible model (ss ! j)"
        "case best of None \<Rightarrow> True | Some (_, b) \<Rightarrow> rs_inflight (ss ! j) < b"
        "\<forall>k<j. eligible model (ss ! k) \<longrightarrow> rs_inflight (ss ! j) < rs_inflight (ss ! k)"
        "\<forall>s\<in>set ss. eligible model s \<longrightarrow> rs_inflight (ss ! j) \<le> rs_inflight s"
      have lt: "eligible model s \<Longrightarrow> rs_inflight (ss ! j) < rs_inflight s"
        using False j(4) by (auto split: option.splits)
      have "\<forall>k<Suc j. eligible model ((s # ss) ! k) \<longrightarrow> rs_inflight (ss ! j) < rs_inflight ((s # ss) ! k)"
        using j(5) lt by (auto simp: less_Suc_eq_0_disj)
      moreover have "\<forall>t\<in>set (s # ss). eligible model t \<longrightarrow> rs_inflight (ss ! j) \<le> rs_inflight t"
        using j(6) lt by auto
      ultimately show ?thesis using j(1-4) by (intro disjI2 exI[of _ "Suc j"]) (simp cong: option.case_cong)
    qed
  qed
qed simp

lemma no_eligible: "length (filter (eligible model) ss) = 0 \<longleftrightarrow> (\<forall>s\<in>set ss. \<not> eligible model s)"
  by (simp add: filter_empty_conv)

lemma pick_least_top:
  assumes "length (filter (eligible model) ss) \<noteq> 0"
  obtains i where "map_option fst (pick_least model 0 None ss) = Some i" "i < length ss" "eligible model (ss ! i)"
    "\<forall>s\<in>set ss. eligible model s \<longrightarrow> rs_inflight (ss ! i) \<le> rs_inflight s"
    "\<forall>k<i. eligible model (ss ! k) \<longrightarrow> rs_inflight (ss ! i) < rs_inflight (ss ! k)"
proof -
  have "\<exists>s\<in>set ss. eligible model s" using assms no_eligible by blast
  then show ?thesis using pick_least_spec[OF refl, of model 0 None ss] that by auto
qed

lemma pick_least_unique:
  assumes "i < length ss" "eligible model (ss ! i)" "\<forall>s\<in>set ss. eligible model s \<longrightarrow> rs_inflight (ss ! i) \<le> rs_inflight s"
    and "\<forall>k<i. eligible model (ss ! k) \<longrightarrow> rs_inflight (ss ! i) < rs_inflight (ss ! k)"
  shows "map_option fst (pick_least model 0 None ss) = Some i"
proof -
  have "ss ! i \<in> set ss" using assms(1) by simp
  then have "length (filter (eligible model) ss) \<noteq> 0" using assms(2) by (auto simp: filter_empty_conv)
  then obtain j where j: "map_option fst (pick_least model 0 None ss) = Some j" "j < length ss" "eligible model (ss ! j)"
    "\<forall>s\<in>set ss. eligible model s \<longrightarrow> rs_inflight (ss ! j) \<le> rs_inflight s"
    "\<forall>k<j. eligible model (ss ! k) \<longrightarrow> rs_inflight (ss ! j) < rs_inflight (ss ! k)"
    using pick_least_top by metis
  have "ss ! j \<in> set ss" using j(2) by simp
  then have "rs_inflight (ss ! i) = rs_inflight (ss ! j)"
    using assms(2,3) j(3,4) \<open>ss ! i \<in> set ss\<close> by (meson order_antisym)
  then have "i = j" using assms(2,4) j(3,5) by (metis less_irrefl nat_neq_iff)
  then show ?thesis using j(1) by simp
qed

text \<open>With the default strategy \<open>pick_server\<close> returns the ready server of the model with the
  fewest requests in flight (the first of them), nothing exactly when no ready server has the
  model, and leaves the table and its mutex as they were.\<close>

theorem pick_server_least:
  assumes "\<not> rt_locked r" "rt_strategy r \<noteq> Some ''round-robin''"
  shows "\<exists>res. pick_server r model = Ret (r, res) \<and>
    (case res of
       None \<Rightarrow> \<forall>s\<in>set (rt_servers r). \<not> eligible model s
     | Some i \<Rightarrow> i < length (rt_servers r) \<and> eligible model (rt_servers r ! i) \<and>
         (\<forall>s\<in>set (rt_servers r). eligible model s \<longrightarrow> rs_inflight (rt_servers r ! i) \<le> rs_inflight s) \<and>
         (\<forall>k<i. eligible model (rt_servers r ! k) \<longrightarrow> rs_inflight (rt_servers r ! i) < rs_inflight (rt_servers r ! k)))"
proof (cases "length (filter (eligible model) (rt_servers r)) = 0")
  case True
  then show ?thesis using assms no_eligible[of model] by (simp add: pick_server_def lock_free Let_def filter_empty_conv)
next
  case False
  then obtain i where "map_option fst (pick_least model 0 None (rt_servers r)) = Some i" "i < length (rt_servers r)"
      "eligible model (rt_servers r ! i)"
      "\<forall>s\<in>set (rt_servers r). eligible model s \<longrightarrow> rs_inflight (rt_servers r ! i) \<le> rs_inflight s"
      "\<forall>k<i. eligible model (rt_servers r ! k) \<longrightarrow> rs_inflight (rt_servers r ! i) < rs_inflight (rt_servers r ! k)"
    using pick_least_top by blast
  then show ?thesis
    using assms False by (intro exI[of _ "Some i"]) (simp add: pick_server_def lock_free Let_def)
qed

theorem pick_server_least_witness:
  "\<exists>res. pick_server two_servers ''m'' = Ret (two_servers, res) \<and> res \<noteq> None"
proof -
  have "\<not> rt_locked two_servers" "rt_strategy two_servers \<noteq> Some ''round-robin''" by (simp_all add: two_servers_def)
  from pick_server_least[OF this, of "''m''"] show ?thesis
    by (auto simp: two_servers_def eligible_def node_states split: option.splits)
qed

lemma payload_fits:
  "length cmd + length args + length (show_nat (length p)) + 13 < 320 \<Longrightarrow> \<exists>b. frame_send_payload cmd args p = Ret b"
  by (cases "args = []") (simp_all add: frame_send_payload_def FRAME_CMD_MAX_def PROTO_VERSION_STR_def Let_def)

lemma pick_kth_hit:
  "k \<le> target \<Longrightarrow> target < k + int (length (filter (eligible model) ss)) \<Longrightarrow>
   \<exists>j<length ss. pick_kth model i k target ss = Some (i + j) \<and> eligible model (ss ! j)"
proof (induction ss arbitrary: i k)
  case (Cons s ss)
  show ?case
  proof (cases "eligible model s \<and> k = target")
    case True
    then show ?thesis by (intro exI[of _ 0]) simp
  next
    case False
    then have "\<exists>j<length ss. pick_kth model i k target (s # ss) = Some (Suc i + j) \<and> eligible model (ss ! j)"
      using Cons.IH[of "k + 1" "Suc i"] Cons.IH[of k "Suc i"] Cons.prems by (auto split: if_splits)
    then obtain j where "j < length ss" "pick_kth model i k target (s # ss) = Some (Suc i + j)" "eligible model (ss ! j)" by blast
    then show ?thesis by (intro exI[of _ "Suc j"]) simp
  qed
qed simp

text \<open>With strategy \<open>round-robin\<close> the first request deadlocks the router: \<open>pick_server\<close> returns
  the chosen server with the mutex held, and \<open>router_infer\<close>, once connected to that server,
  blocks for ever when it locks the mutex again.\<close>

theorem round_robin_deadlock:
  assumes "\<not> rt_locked r" "rt_strategy r = Some ''round-robin''" "\<exists>s\<in>set (rt_servers r). eligible model s"
    and "\<And>h p q. be h p q \<noteq> None" "length (show_nat (length prompt)) < 50"
  shows "(\<exists>r' i. pick_server r model = Ret (r', Some i) \<and> rt_locked r') \<and>
    router_infer env be r model max_tokens prompt temp top_p errlen = Diverge"
proof -
  let ?n = "int (length (filter (eligible model) (rt_servers r)))"
  let ?rr = "(rt_rr r + 1) mod ?n"
  have n: "?n > 0" using assms(3) by (auto simp: filter_empty_conv)
  obtain j where j: "pick_kth model 0 0 ?rr (rt_servers r) = Some j"
    using pick_kth_hit[of 0 ?rr model "rt_servers r" 0] n by auto
  let ?r = "r\<lparr>rt_locked := True, rt_rr := ?rr\<rparr>"
  have p: "pick_server r model = Ret (?r, Some j)"
    using assms(1,2) n j by (simp add: pick_server_def lock_free Let_def)
  define args where "args = snprintf_s 192 (show_int max_tokens @ [SP] @ show_nat (length prompt) @ '' temp='' @ temp @ '' top_p='' @ top_p)"
  have "length args \<le> 191" by (simp add: args_def snprintf_s_def)
  then obtain req where req: "frame_send_payload ''INFER'' args prompt = Ret req"
    using assms(5) payload_fits[of "''INFER''" args prompt] by auto
  obtain reply where reply: "be (rs_host (rt_servers ?r ! j)) (rs_port (rt_servers ?r ! j)) req = Some reply"
    using assms(4) by blast
  have "router_infer env be r model max_tokens prompt temp top_p errlen = Diverge"
    using reply by (simp add: router_infer_def choose_server_def p Let_def args_def[symmetric, simplified] req bump_inflight_def lock_def)
  then show ?thesis using p by auto
qed

theorem round_robin_deadlock_witness:
  "router_infer (\<lambda>_ r. r) (\<lambda>_ _ _. Some []) (two_servers\<lparr>rt_strategy := Some ''round-robin''\<rparr>) ''m'' 20 ''hi'' ''1'' ''1'' 256 = Diverge"
proof -
  have "length (show_nat (length ''hi'')) < 50" by (simp add: show_nat.simps)
  then show ?thesis
    using round_robin_deadlock[of "two_servers\<lparr>rt_strategy := Some ''round-robin''\<rparr>" "''m''" "\<lambda>_ _ _. Some []" "''hi''"
      "\<lambda>_ r. r" 20 "''1''" "''1''" 256]
    by (simp add: two_servers_def eligible_def node_states)
qed

subsection \<open>Forwarding a reply\<close>

definition t_frame :: "bytes \<Rightarrow> bytes" where
  "t_frame p = ''T '' @ show_nat (length p) @ [LF] @ p"

lemma t_frame_recv:
  assumes "0 < length p" "length p < 2 ^ 63"
  shows "\<exists>line. sock_recv_line RT_MAX_LINE (t_frame p @ s) = Some (line, p @ s) \<and> cstr line = line \<and>
    starts ''T '' line \<and> \<not> starts ''DONE'' line \<and> \<not> proto_is_error line \<and> frame_t_payload line (p @ s) = Some (p, s)
    \<and> line = ''T '' @ show_nat (length p)"
proof -
  let ?l = "''T '' @ show_nat (length p)"
  have "length p < 10 ^ 20" using assms(2) by simp
  then have "length (show_nat (length p)) \<le> 20" by (intro length_show_nat) simp_all
  then have "length ?l < RT_MAX_LINE" by (simp add: RT_MAX_LINE_def)
  moreover have "line_text ?l" by simp
  ultimately have "sock_recv_line RT_MAX_LINE (?l @ LF # p @ s) = Some (?l, p @ s)" by (intro sock_recv_line_text)
  moreover have "frame_t_payload ?l (p @ s) = Some (p, s)"
    using assms atol_show_nat[of "[]" "length p"] by (simp add: frame_t_payload_def)
  ultimately show ?thesis
    by (intro exI[of _ ?l]) (simp add: t_frame_def proto_is_error_def PROTO_ERROR_def cstr_line)
qed

definition tok_ok :: "bytes \<Rightarrow> bool" where
  "tok_ok p \<longleftrightarrow> 0 < length p \<and> length p < 2 ^ 63"

lemma infer_loop_tokens:
  assumes "\<forall>p\<in>set ps. tok_ok p"
  shows "infer_loop e (concat (map t_frame ps) @ s) = (case infer_loop e s of (qs, rc, err) \<Rightarrow> (ps @ qs, rc, err))"
  using assms
proof (induction ps)
  case (Cons p ps)
  have "infer_loop e (t_frame p @ concat (map t_frame ps) @ s) =
      (case infer_loop e (concat (map t_frame ps) @ s) of (qs, rc, err) \<Rightarrow> (p # qs, rc, err))"
    using t_frame_recv[of p "concat (map t_frame ps) @ s"] Cons.prems
    by (subst infer_loop.simps) (auto simp: tok_ok_def Let_def)
  then show ?case using Cons by (simp add: split_def)
qed (simp add: split_def)

lemma relay_loop_tokens:
  assumes "\<forall>p\<in>set ps. tok_ok p"
  shows "relay_loop (concat (map t_frame ps) @ s) = concat (map t_frame ps) @ relay_loop s"
  using assms
proof (induction ps)
  case (Cons p ps)
  obtain l where l: "sock_recv_line RT_MAX_LINE (t_frame p @ concat (map t_frame ps) @ s) = Some (l, p @ concat (map t_frame ps) @ s)"
    "cstr l = l" "starts ''T '' l" "\<not> starts ''DONE'' l" "\<not> proto_is_error l"
    "frame_t_payload l (p @ concat (map t_frame ps) @ s) = Some (p, concat (map t_frame ps) @ s)"
    "l = ''T '' @ show_nat (length p)"
    using t_frame_recv[of p "concat (map t_frame ps) @ s"] Cons.prems by (auto simp: tok_ok_def)
  have "length (show_nat (length p)) \<le> 20"
    using Cons.prems by (intro length_show_nat) (auto simp: tok_ok_def)
  then have "sock_send_line l = l @ [LF]" by (simp add: sock_send_line_def l(7))
  then have "relay_loop (t_frame p @ concat (map t_frame ps) @ s) = (l @ [LF]) @ p @ relay_loop (concat (map t_frame ps) @ s)"
    by (subst relay_loop.simps) (simp add: l(1-6) Let_def)
  also have "\<dots> = t_frame p @ relay_loop (concat (map t_frame ps) @ s)" by (simp add: t_frame_def l(7))
  finally show ?case using Cons by simp
qed simp

definition done_ok :: "string \<Rightarrow> bool" where
  "done_ok d \<longleftrightarrow> line_text d \<and> length d < 8000"

lemma done_recv: "done_ok d \<Longrightarrow> sock_recv_line RT_MAX_LINE ((''DONE'' @ d) @ LF # s) = Some (''DONE'' @ d, s)"
  by (rule sock_recv_line_text) (simp_all add: done_ok_def RT_MAX_LINE_def)

lemma infer_loop_done: "done_ok d \<Longrightarrow> infer_loop e (''DONE'' @ d @ LF # s) = ([], 0, [])"
  using done_recv[of d s] by (subst infer_loop.simps) (simp add: cstr_line done_ok_def)

lemma relay_loop_done: "done_ok d \<Longrightarrow> relay_loop (''DONE'' @ d @ LF # s) = ''DONE'' @ d @ [LF]"
  using done_recv[of d s] by (subst relay_loop.simps) (simp add: cstr_line done_ok_def sock_send_line_def)

lemma bump_bump:
  assumes "\<not> rt_locked r" "i < length (rt_servers r)"
  shows "\<exists>r1. bump_inflight r i 1 = Ret r1 \<and> bump_inflight r1 i (-1) = Ret r"
proof -
  let ?s = "rt_servers r ! i"
  let ?r1 = "unlock (set_server (r\<lparr>rt_locked := True\<rparr>) i (?s\<lparr>rs_inflight := rs_inflight ?s + 1\<rparr>))"
  have 1: "bump_inflight r i 1 = Ret ?r1" using assms by (simp add: bump_inflight_def lock_free Let_def)
  have "unlock (set_server (?r1\<lparr>rt_locked := True\<rparr>) i ?s) = r"
    using assms by (simp add: unlock_def set_server_def)
  then have "bump_inflight ?r1 i (-1) = Ret r"
    using assms by (simp add: bump_inflight_def lock_free Let_def)
  with 1 show ?thesis by blast
qed

text \<open>The request that goes out, and to whom; nothing is said about other requests.\<close>

lemma router_infer_asks:
  assumes "\<not> rt_locked r" "rt_strategy r \<noteq> Some ''round-robin''"
    and "map_option fst (pick_least model 0 None (rt_servers r)) = Some i" "i < length (rt_servers r)"
    and "eligible model (rt_servers r ! i)"
    and "frame_send_payload ''INFER''
      (snprintf_s 192 (show_int max_tokens @ [SP] @ show_nat (length prompt) @ '' temp='' @ temp @ '' top_p='' @ top_p)) prompt = Ret q"
    and "be (rs_host (rt_servers r ! i)) (rs_port (rt_servers r ! i)) q = Some (concat (map t_frame ps) @ ''DONE'' @ d @ [LF])"
    and "\<forall>p\<in>set ps. tok_ok p" "done_ok d"
  shows "router_infer env be r model max_tokens prompt temp top_p errlen = Ret (r, ps, 0, [])"
proof -
  have "\<exists>s\<in>set (rt_servers r). eligible model s" using assms(4,5) by (meson nth_mem)
  then have p: "pick_server r model = Ret (r, Some i)"
    using assms(1-3) by (simp add: pick_server_def lock_free Let_def filter_empty_conv)
  obtain r1 where b: "bump_inflight r i 1 = Ret r1" "bump_inflight r1 i (-1) = Ret r"
    using bump_bump[OF assms(1,4)] by blast
  have loop: "infer_loop errlen (concat (map t_frame ps) @ ''DONE'' @ d @ [LF]) = (ps, 0, [])"
    using infer_loop_tokens[OF assms(8), of errlen "''DONE'' @ d @ [LF]"] infer_loop_done[OF assms(9), of errlen "[]"] by simp
  show ?thesis
    unfolding router_infer_def choose_server_def p Let_def run_bind.simps prod.case option.case sum.case assms(6,7)
    by (simp add: b loop[simplified])
qed

lemma router_infer_tokens:
  assumes "\<not> rt_locked r" "rt_strategy r \<noteq> Some ''round-robin''" "\<exists>s\<in>set (rt_servers r). eligible model s"
    and "\<And>h p q. be h p q = Some (concat (map t_frame ps) @ ''DONE'' @ d @ [LF])"
    and "\<forall>p\<in>set ps. tok_ok p" "done_ok d" "length (show_nat (length prompt)) < 50"
  shows "router_infer env be r model max_tokens prompt temp top_p errlen = Ret (r, ps, 0, []) \<and>
    (scan_infer args = Some (model, max_tokens, int (length prompt)) \<longrightarrow>
       handle_client_infer be r args (prompt @ rest) = Ret (r, concat (map t_frame ps) @ ''DONE'' @ d @ [LF]))"
proof -
  have "length (filter (eligible model) (rt_servers r)) \<noteq> 0" using assms(3) by (auto simp: filter_empty_conv)
  then obtain i where i: "map_option fst (pick_least model 0 None (rt_servers r)) = Some i" "i < length (rt_servers r)"
    using pick_least_top by metis
  have p: "pick_server r model = Ret (r, Some i)"
    using assms(1-3) i(1) by (simp add: pick_server_def lock_free Let_def filter_empty_conv)
  obtain r1 where b: "bump_inflight r i 1 = Ret r1" "bump_inflight r1 i (-1) = Ret r"
    using bump_bump[OF assms(1) i(2)] by blast
  have loop: "infer_loop errlen (concat (map t_frame ps) @ ''DONE'' @ d @ [LF]) = (ps, 0, [])"
    "relay_loop (concat (map t_frame ps) @ ''DONE'' @ d @ [LF]) = concat (map t_frame ps) @ ''DONE'' @ d @ [LF]"
    using infer_loop_tokens[OF assms(5), of errlen "''DONE'' @ d @ [LF]"] relay_loop_tokens[OF assms(5), of "''DONE'' @ d @ [LF]"]
      infer_loop_done[OF assms(6), of errlen "[]"] relay_loop_done[OF assms(6), of "[]"] by simp_all
  define args1 where "args1 = snprintf_s 192 (show_int max_tokens @ [SP] @ show_nat (length prompt) @ '' temp='' @ temp @ '' top_p='' @ top_p)"
  have "length args1 \<le> 191" by (simp add: args1_def snprintf_s_def)
  then obtain q1 where q1: "frame_send_payload ''INFER'' args1 prompt = Ret q1"
    using assms(7) payload_fits[of "''INFER''" args1 prompt] by auto
  have "length (snprintf_s 64 (show_int max_tokens)) \<le> 63" by (simp add: snprintf_s_def)
  then obtain q2 where q2: "frame_send_payload ''INFER'' (snprintf_s 64 (show_int max_tokens)) prompt = Ret q2"
    using assms(7) payload_fits[of "''INFER''" "snprintf_s 64 (show_int max_tokens)" prompt] by auto
  have pr: "(if int (length prompt) > 0 then map_option fst (recv_n (nat (int (length prompt))) (prompt @ rest)) else Some []) = Some prompt"
    by simp
  have "router_infer env be r model max_tokens prompt temp top_p errlen = Ret (r, ps, 0, [])"
    unfolding router_infer_def choose_server_def p Let_def args1_def[symmetric] run_bind.simps prod.case option.case sum.case q1 assms(4)
    by (simp add: b loop[simplified])
  moreover have "handle_client_infer be r args (prompt @ rest) = Ret (r, concat (map t_frame ps) @ ''DONE'' @ d @ [LF])"
    if sc: "scan_infer args = Some (model, max_tokens, int (length prompt))"
    unfolding handle_client_infer_def sc option.case prod.case p run_bind.simps Let_def pr q2 assms(4)
    by (simp add: b loop[simplified])
  ultimately show ?thesis by blast
qed

text \<open>C11: Under the default strategy, when the chosen server answers an inference request with the
  tokens \<open>ps\<close> and a \<open>DONE\<close> line, \<open>router_infer\<close> hands exactly those tokens to the caller, in
  order, and returns 0; a text client gets the answer byte for byte; and afterwards the table,
  the in-flight counters and the mutex are as before.\<close>

theorem router_infer_relays:
  assumes "\<not> rt_locked r" "rt_strategy r \<noteq> Some ''round-robin''" "\<exists>s\<in>set (rt_servers r). eligible model s"
    and "\<And>h p q. be h p q = Some (concat (map t_frame ps) @ ''DONE'' @ d @ [LF])"
    and "\<forall>p\<in>set ps. tok_ok p" "done_ok d" "length (show_nat (length prompt)) < 50"
  shows "router_infer env be r model max_tokens prompt temp top_p errlen = Ret (r, ps, 0, []) \<and>
    (scan_infer args = Some (model, max_tokens, int (length prompt)) \<longrightarrow>
       handle_client_infer be r args (prompt @ rest) = Ret (r, concat (map t_frame ps) @ ''DONE'' @ d @ [LF]))"
  by (rule router_infer_tokens[OF assms])

theorem router_infer_relays_witness:
  "router_infer (\<lambda>_ r. r) (\<lambda>_ _ _. Some (t_frame ''he'' @ t_frame ''y'' @ ''DONE 2 1 9'' @ [LF])) two_servers ''m'' 20 ''hi'' ''1'' ''1'' 256
     = Ret (two_servers, [''he'', ''y''], 0, [])"
proof -
  have l: "length (show_nat (length ''hi'')) < 50" by (simp add: show_nat.simps)
  have t: "\<not> rt_locked two_servers" "rt_strategy two_servers \<noteq> Some ''round-robin''"
    "\<exists>s\<in>set (rt_servers two_servers). eligible ''m'' s"
    by (simp_all add: two_servers_def eligible_def node_states)
  have ok: "\<forall>p\<in>set [''he'', ''y'']. tok_ok p" "done_ok '' 2 1 9''"
    by (simp_all add: tok_ok_def done_ok_def)
  show ?thesis
    using router_infer_relays[OF t _ ok l, of "\<lambda>_ _ _. Some (t_frame ''he'' @ t_frame ''y'' @ ''DONE 2 1 9'' @ [LF])"
        "\<lambda>_ r. r" 20 "''1''" "''1''" 256 "''''" "''''"] by simp
qed

end
