(* ===== verification/Supervisor.thy ===== *)
theory Supervisor
  imports RouterTable
begin

text \<open>
  The supervisor (\<^verbatim>\<open>serve/supervisor.c\<close>): the table of nodes kept by heartbeats, the
  notification of the routers, the lease pool of ranks, and self-healing. What the supervisor
  does to the world (spawning and killing processes, frames sent to routers) is the list of
  actions in its state; \<open>fork k\<close> is the pid returned for the \<open>k\<close>-th action. The clock, the
  address of the peer of a connection and the machine's own address are arguments.
\<close>

subsection \<open>State\<close>

definition SV_MAX_NODES :: nat where "SV_MAX_NODES = 256"
definition SV_HB_TIMEOUT :: int where "SV_HB_TIMEOUT = 10"

record sv_node =
  sn_node :: node
  sn_notified :: bool
  sn_leased :: string
  sn_expire :: u64

record model_cfg =
  mc_name :: string
  mc_model :: string
  mc_vocab :: string
  mc_mmproj :: string
  mc_opt :: string
  mc_mtp :: int
  mc_ranks :: int
  mc_local :: int
  mc_fp16 :: int

record sv_cfg =
  svc_models :: "model_cfg list"
  svc_ranks :: int
  svc_rank_port :: u16
  svc_server_port :: u16
  svc_host :: string
  svc_port :: u16
  svc_bin :: string
  svc_model :: string
  svc_cache :: string
  svc_kv :: string
  svc_auto_heal :: bool
  svc_budget :: int
  svc_mtp :: int
  svc_no_server :: bool
  svc_local_ip :: string

text \<open>\<open>Notify host port m\<close> is one connection to a router: \<open>Some m\<close> the frame it sends, \<open>None\<close> a router
  that could not be reached. The field \<open>sv_down\<close> belongs to the environment and never changes: the
  numbers of the actions at which a connection to a router fails.\<close>

datatype sv_act = Spawn string | Kill int | Notify string u16 "bytes option"

record supervisor =
  sv_nodes :: "sv_node list"
  sv_routers :: "node list"
  sv_spawns :: "(string \<times> int) list"
  sv_acts :: "sv_act list"
  sv_last_check :: u64
  sv_quit :: bool
  sv_down :: "nat list"

definition find_node :: "supervisor \<Rightarrow> string \<Rightarrow> nat option" where
  "find_node s nid = find_index (\<lambda>n. nd_id (sn_node n) = nid) (sv_nodes s)"

definition set_node :: "supervisor \<Rightarrow> nat \<Rightarrow> sv_node \<Rightarrow> supervisor" where
  "set_node s i n = s\<lparr>sv_nodes := (sv_nodes s)[i := n]\<rparr>"

definition act :: "sv_act \<Rightarrow> supervisor \<Rightarrow> supervisor" where
  "act a s = s\<lparr>sv_acts := sv_acts s @ [a]\<rparr>"

subsection \<open>Processes\<close>

definition model_stride :: "sv_cfg \<Rightarrow> int" where
  "model_stride c = fold (\<lambda>m st. if mc_ranks m > st then mc_ranks m else st) (take 12 (svc_models c)) 1"

definition model_rank_base :: "sv_cfg \<Rightarrow> int \<Rightarrow> u16" where
  "model_rank_base c mi = word_of_int (uint (svc_rank_port c) + mi * model_stride c)"

definition model_server_port :: "sv_cfg \<Rightarrow> int \<Rightarrow> u16" where
  "model_server_port c mi = word_of_int (uint (svc_server_port c) + mi * model_stride c)"

definition spawn_record :: "supervisor \<Rightarrow> string \<Rightarrow> int \<Rightarrow> supervisor" where
  "spawn_record s nid pid =
     (case find_index (\<lambda>p. fst p = nid) (sv_spawns s) of
        Some i \<Rightarrow> s\<lparr>sv_spawns := (sv_spawns s)[i := (nid, pid)]\<rparr>
      | None \<Rightarrow> if length (sv_spawns s) < SV_MAX_NODES then s\<lparr>sv_spawns := sv_spawns s @ [(snprintf_s 128 nid, pid)]\<rparr> else s)"

text \<open>The process group and the process are killed.\<close>

definition spawn_kill :: "supervisor \<Rightarrow> string \<Rightarrow> supervisor" where
  "spawn_kill s nid =
     (case find_index (\<lambda>p. fst p = nid) (sv_spawns s) of
        None \<Rightarrow> s
      | Some i \<Rightarrow>
          let pid = snd (sv_spawns s ! i);
              s = (if pid > 0 then act (Kill pid) (act (Kill (- pid)) s) else s) in
          s\<lparr>sv_spawns := (sv_spawns s)[i := (fst (sv_spawns s ! i), 0)]\<rparr>)"

definition local_ranks :: "model_cfg \<Rightarrow> int \<Rightarrow> int" where
  "local_ranks m ranks = (if mc_local m < 0 then ranks else if mc_local m < ranks then mc_local m else ranks)"

definition peers_of :: "string \<Rightarrow> nat \<Rightarrow> string" where
  "peers_of ip n = fold (\<lambda>i p. strncat_s 512 (if i \<noteq> 0 then strncat_s 512 p '','' else p) ip) [0..<n] []"

definition quoted :: "string \<Rightarrow> string" where
  "quoted t = DQ # t @ [DQ]"

definition rank_cmd :: "sv_cfg \<Rightarrow> model_cfg \<Rightarrow> int \<Rightarrow> int \<Rightarrow> string" where
  "rank_cmd c m mi r =
     (let rport = word_of_int (uint (model_rank_base c mi) + r) :: u16;
          ranks = (if mc_ranks m > 0 then mc_ranks m else 1);
          peers_arg = (if local_ranks m ranks \<ge> ranks \<and> ranks > 1
                       then '' --peers '' @ peers_of (snprintf_s 64 (svc_local_ip c)) (nat ranks) else []);
          bud = (if svc_budget c \<ge> 0 then ''--budget '' @ show_int (svc_budget c) @ ''MB'' else ''--budget auto'');
          opt_arg = (if mc_opt m \<noteq> [] then ''--opt '' @ quoted (mc_opt m) @ '' '' else []);
          mtp = (if mc_mtp m \<noteq> 0 then mc_mtp m else svc_mtp c);
          mtp_arg = (if mtp \<noteq> 0 then ''--mtp '' @ show_int mtp @ '' '' else []);
          kv_arg = (if svc_kv c \<noteq> [] \<and> svc_kv c \<noteq> ''f16'' then ''--kv '' @ svc_kv c @ '' '' else []) in
      snprintf_s 4096
        (quoted (svc_bin c) @ '' rank --model '' @ quoted (mc_model m) @ '' --vocab '' @ quoted (mc_vocab m)
         @ '' --model-name '' @ quoted (mc_name m) @ '' --port '' @ show_nat (unat rport)
         @ '' --supervisor '' @ svc_host c @ '':'' @ show_nat (unat (svc_port c))
         @ '' --id rank-'' @ show_int (mi * model_stride c + r) @ '' --rank '' @ show_int r @ '' --ranks '' @ show_int ranks
         @ peers_arg @ '' --dist-fp16 '' @ show_int (mc_fp16 m) @ '' '' @ bud @ '' ''
         @ (if mc_mmproj m \<noteq> [] then ''--mmproj '' @ quoted (mc_mmproj m) @ '' '' else [])
         @ opt_arg @ mtp_arg @ kv_arg
         @ ''--cache-dir '' @ quoted (if svc_cache c \<noteq> [] then svc_cache c else ''.'')
         @ '' --log logs/'' @ mc_name m @ ''-rank-'' @ show_int r @ ''.log''))"

definition spawn :: "(nat \<Rightarrow> int) \<Rightarrow> supervisor \<Rightarrow> string \<Rightarrow> string \<Rightarrow> supervisor" where
  "spawn fork s cmd nid =
     (let pid = fork (length (sv_acts s)); s = act (Spawn cmd) s in
      if pid > 0 then spawn_record s (snprintf_s 128 nid) pid else s)"

text \<open>A negative model index, from a node id with a negative number, reads before the table.\<close>

definition supervisor_spawn_rank :: "sv_cfg \<Rightarrow> (nat \<Rightarrow> int) \<Rightarrow> int \<Rightarrow> int \<Rightarrow> supervisor \<Rightarrow> supervisor run" where
  "supervisor_spawn_rank c fork mi r s =
     (if mi \<ge> int (length (svc_models c)) then Ret s
      else if mi < 0 then Fault
      else Ret (spawn fork s (rank_cmd c (svc_models c ! nat mi) mi r) (''rank-'' @ show_int (mi * model_stride c + r))))"

definition server_cmd :: "sv_cfg \<Rightarrow> model_cfg \<Rightarrow> int \<Rightarrow> string" where
  "server_cmd c m mi = snprintf_s 4096
     (quoted (svc_bin c) @ '' server --id server-'' @ show_int mi @ '' --model-name '' @ quoted (mc_name m)
      @ '' --leader '' @ svc_host c @ '':'' @ show_nat (unat (model_rank_base c mi))
      @ '' --supervisor '' @ svc_host c @ '':'' @ show_nat (unat (svc_port c))
      @ '' --port '' @ show_nat (unat (model_server_port c mi))
      @ '' --cache-dir '' @ quoted (if svc_cache c \<noteq> [] then svc_cache c else ''.'')
      @ '' --log logs/'' @ mc_name m @ ''-server-'' @ show_int mi @ ''.log'')"

definition supervisor_spawn_server :: "sv_cfg \<Rightarrow> (nat \<Rightarrow> int) \<Rightarrow> int \<Rightarrow> supervisor \<Rightarrow> supervisor run" where
  "supervisor_spawn_server c fork mi s =
     (if mi \<ge> int (length (svc_models c)) then Ret s
      else if mi < 0 then Fault
      else Ret (spawn fork s (server_cmd c (svc_models c ! nat mi) mi) (''server-'' @ show_int mi)))"

fun spawn_ranks :: "sv_cfg \<Rightarrow> (nat \<Rightarrow> int) \<Rightarrow> int \<Rightarrow> nat list \<Rightarrow> supervisor \<Rightarrow> supervisor run" where
  "spawn_ranks c fork mi [] s = Ret s"
| "spawn_ranks c fork mi (r # rs) s =
     run_bind (supervisor_spawn_rank c fork mi (int r) s) (spawn_ranks c fork mi rs)"

fun bootstrap_models :: "sv_cfg \<Rightarrow> (nat \<Rightarrow> int) \<Rightarrow> nat list \<Rightarrow> supervisor \<Rightarrow> supervisor run" where
  "bootstrap_models c fork [] s = Ret s"
| "bootstrap_models c fork (mi # ms) s =
     (let m = svc_models c ! mi; ranks = mc_ranks m in
      if ranks \<le> 0 then bootstrap_models c fork ms s
      else run_bind (spawn_ranks c fork (int mi) [0..<nat (local_ranks m ranks)] s) (\<lambda>s.
             run_bind (if svc_no_server c then Ret s else supervisor_spawn_server c fork (int mi) s)
               (bootstrap_models c fork ms)))"

definition supervisor_bootstrap :: "sv_cfg \<Rightarrow> (nat \<Rightarrow> int) \<Rightarrow> supervisor \<Rightarrow> supervisor run" where
  "supervisor_bootstrap c fork s =
     (if svc_model c = [] \<or> svc_bin c = [] then Ret s
      else bootstrap_models c fork [0..<length (svc_models c)] s)"

subsection \<open>Telling the routers\<close>

definition notify_routers :: "supervisor \<Rightarrow> string \<Rightarrow> string \<Rightarrow> supervisor" where
  "notify_routers s cmd args =
     fold (\<lambda>rn s. case strchr (nd_addr rn) CHR '':'' of
         None \<Rightarrow> s
       | Some colon \<Rightarrow> act (Notify (take 127 (takeWhile (\<lambda>c. c \<noteq> CHR '':'') (nd_addr rn)))
                            (word_of_int (atoi (tl colon)))
                            (if length (sv_acts s) \<in> set (sv_down s) then None else Some (frame_send cmd args))) s)
       (sv_routers s) s"

definition sync_server_to_router :: "supervisor \<Rightarrow> nat \<Rightarrow> supervisor" where
  "sync_server_to_router s i =
     (let n = sv_nodes s ! i; nd = sn_node n in
      if nd_state nd = NODE_STATE_READY \<and> \<not> sn_notified n then
        set_node (notify_routers s ''SERVER_ADD''
            (snprintf_s 512 (nd_id nd @ '' model='' @ nd_model nd @ '' leader='' @ nd_addr nd))) i (n\<lparr>sn_notified := True\<rparr>)
      else if nd_state nd = NODE_STATE_DEAD \<and> sn_notified n then
        set_node (notify_routers s ''SERVER_DEL'' (nd_id nd)) i (n\<lparr>sn_notified := False\<rparr>)
      else if sn_notified n then
        notify_routers s ''SERVER_UPDATE''
          (snprintf_s 512 (nd_id nd @ '' inflight='' @ show_int (nd_inflight nd) @ '' waiting='' @ show_int (nd_waiting nd)
             @ '' kv_mb='' @ show_f1 (nd_kv10 nd) @ '' avg_infer_ms='' @ show_f1 (nd_avg10 nd)))
      else s)"

subsection \<open>Heartbeats\<close>

definition zero_node :: node where
  "zero_node = \<lparr>nd_id = [], nd_type = [], nd_model = [], nd_addr = [], nd_state = 0, nd_inflight = 0, nd_waiting = 0,
                nd_avg10 = 0, nd_kv10 = 0, nd_last_hb = 0\<rparr>"

text \<open>A loopback address is replaced by the address of the peer, when that is an IPv4 one.\<close>

definition fix_addr :: "string option \<Rightarrow> string \<Rightarrow> string" where
  "fix_addr peer addr =
     (if addr \<noteq> [] \<and> takeWhile (\<lambda>c. c \<noteq> CHR '':'') addr = ''127.0.0.1'' then
        (case peer of
           None \<Rightarrow> addr
         | Some ip \<Rightarrow>
             if ip = ''127.0.0.1'' then addr
             else snprintf_s 128 (snprintf_s 64 ip @ snprintf_s 32 (dropWhile (\<lambda>c. c \<noteq> CHR '':'') addr)))
      else addr)"

definition merge_hb :: "node \<Rightarrow> node \<Rightarrow> node" where
  "merge_hb old n =
     (let m = old\<lparr>nd_state := nd_state n, nd_inflight := nd_inflight n, nd_waiting := nd_waiting n,
                 nd_kv10 := nd_kv10 n, nd_avg10 := nd_avg10 n\<rparr>;
          m = (if nd_model n \<noteq> [] then m\<lparr>nd_model := nd_model n\<rparr> else m);
          m = (if nd_addr n \<noteq> [] then m\<lparr>nd_addr := nd_addr n\<rparr> else m) in
      m\<lparr>nd_last_hb := nd_last_hb n\<rparr>)"

definition handle_heartbeat :: "supervisor \<Rightarrow> string option \<Rightarrow> string \<Rightarrow> u64 \<Rightarrow> supervisor \<times> bytes" where
  "handle_heartbeat s peer args now =
     (let n = node_parse_hb args zero_node now in
      case (case find_node s (nd_id n) of
              Some i \<Rightarrow>
                let sv = sv_nodes s ! i in
                Some (set_node s i (sv\<lparr>sn_node := merge_hb (sn_node sv) n\<rparr>), i)
            | None \<Rightarrow>
                if length (sv_nodes s) \<ge> SV_MAX_NODES then None
                else Some (s\<lparr>sv_nodes := sv_nodes s @ [\<lparr>sn_node = n, sn_notified = False, sn_leased = [], sn_expire = 0\<rparr>]\<rparr>,
                           length (sv_nodes s)))
      of None \<Rightarrow> (s, frame_send ''ERR'' ''too many nodes'')
       | Some (s, i) \<Rightarrow>
         let sv = sv_nodes s ! i;
             s = set_node s i (sv\<lparr>sn_node := (sn_node sv)\<lparr>nd_addr := fix_addr peer (nd_addr (sn_node sv))\<rparr>\<rparr>);
             s = (if nd_type (sn_node (sv_nodes s ! i)) = ''server'' then sync_server_to_router s i else s) in
         (s, frame_send ''OK'' []))"

subsection \<open>Queries\<close>

definition server_info_line :: "node \<Rightarrow> string" where
  "server_info_line n = snprintf_s 512
     (nd_id n @ '' type='' @ nd_type n @ '' model='' @ nd_model n @ '' leader='' @ nd_addr n
      @ '' state='' @ state_name (nd_state n) @ '' inflight='' @ show_int (nd_inflight n) @ '' waiting='' @ show_int (nd_waiting n)
      @ '' kv_mb='' @ show_f1 (nd_kv10 n) @ '' avg_infer_ms='' @ show_f1 (nd_avg10 n))"

definition handle_query_servers :: "supervisor \<Rightarrow> bytes" where
  "handle_query_servers s =
     concat (map (\<lambda>n. frame_send ''SERVER_INFO'' (server_info_line (sn_node n))) (sv_nodes s))
     @ concat (map (\<lambda>rn. frame_send ''SERVER_INFO''
         (snprintf_s 256 (nd_id rn @ '' type='' @ nd_type rn @ '' state=ready addr='' @ nd_addr rn))) (sv_routers s))
     @ frame_send ''QUERY_DONE'' []"

definition handle_query_ranks :: "supervisor \<Rightarrow> string \<Rightarrow> bytes" where
  "handle_query_ranks s args =
     (let want = proto_get args ''model'' in
      concat (map (\<lambda>n. frame_send ''RANK_INFO''
           (snprintf_s 512 (nd_id n @ '' type=rank model='' @ nd_model n @ '' addr='' @ nd_addr n @ '' state=ready'')))
        (filter (\<lambda>n. nd_type n = ''rank'' \<and> (case want of Some (c # w) \<Rightarrow> nd_model n = [] \<or> nd_model n = c # w | _ \<Rightarrow> True)
                     \<and> nd_state n = NODE_STATE_READY) (map sn_node (sv_nodes s))))
      @ frame_send ''QUERY_DONE'' [])"

subsection \<open>The lease pool\<close>

definition first_word :: "string \<Rightarrow> string" where
  "first_word args = take 127 (word_sp (skip_sp args))"

text \<open>A rank the server may take: ready, of the model, and free or already its own.\<close>

definition leasable :: "string \<Rightarrow> string \<Rightarrow> sv_node \<Rightarrow> bool" where
  "leasable model srv sv \<longleftrightarrow>
     nd_type (sn_node sv) = ''rank'' \<and> nd_state (sn_node sv) = NODE_STATE_READY
     \<and> (model = [] \<or> nd_model (sn_node sv) = [] \<or> nd_model (sn_node sv) = model)
     \<and> (sn_leased sv = [] \<or> sn_leased sv = srv)"

definition is_leader :: "node \<Rightarrow> bool" where
  "is_leader n \<longleftrightarrow> starts ''rank-'' (nd_id n) \<and> atoi (drop 5 (nd_id n)) = 0"

definition take_lease :: "string \<Rightarrow> string \<Rightarrow> u64 \<Rightarrow> sv_node \<Rightarrow> sv_node" where
  "take_lease model srv expire sv = (if leasable model srv sv then sv\<lparr>sn_leased := snprintf_s 128 srv, sn_expire := expire\<rparr> else sv)"

text \<open>The port behind the last colon; \<open>None\<close> where the code would read through a null pointer.\<close>

definition peer_port :: "string \<Rightarrow> int option" where
  "peer_port a = map_option (\<lambda>c. atoi (tl c)) (strrchr a CHR '':'')"

definition swap_peers :: "nat \<Rightarrow> nat \<Rightarrow> string list \<Rightarrow> string list run" where
  "swap_peers a b ps =
     (case (peer_port (ps ! a), peer_port (ps ! b)) of
        (Some pa, Some pb) \<Rightarrow> Ret (if pb < pa then ps[a := ps ! b, b := ps ! a] else ps)
      | _ \<Rightarrow> Fault)"

fun sort_peers :: "(nat \<times> nat) list \<Rightarrow> string list \<Rightarrow> string list run" where
  "sort_peers [] ps = Ret ps"
| "sort_peers ((a, b) # ab) ps = run_bind (swap_peers a b ps) (sort_peers ab)"

definition index_pairs :: "nat \<Rightarrow> (nat \<times> nat) list" where
  "index_pairs n = concat (map (\<lambda>a. map (\<lambda>b. (a, b)) [Suc a..<n]) [0..<n])"

definition join_comma :: "nat \<Rightarrow> bool \<Rightarrow> string list \<Rightarrow> string" where
  "join_comma cap first xs =
     fold (\<lambda>(i, x) p. strncat_s cap (if (if first then i \<noteq> (0 :: nat) else p \<noteq> []) then strncat_s cap p '','' else p) x)
       (zip [0..<length xs] xs) []"

definition handle_lease :: "supervisor \<Rightarrow> string \<Rightarrow> u64 \<Rightarrow> (supervisor \<times> bytes) run" where
  "handle_lease s args now =
     (let srv = first_word args in
      case proto_get args ''model'' of
        None \<Rightarrow> Ret (s, frame_send ''ERR'' ''bad LEASE args'')
      | Some model \<Rightarrow>
        if srv = [] then Ret (s, frame_send ''ERR'' ''bad LEASE args'')
        else
          let expire = (case proto_get args ''duration'' of
                 None \<Rightarrow> 0
               | Some dur \<Rightarrow> if dur = ''permanent'' then 0 else if atoi dur > 0 then now + word_of_int (atoi dur) else 0);
              group = filter (leasable model srv) (sv_nodes s) in
          (case rev (filter is_leader (map sn_node group)) of
             [] \<Rightarrow> Ret (s, frame_send ''ERR'' ''no-rank'')
           | leader # _ \<Rightarrow>
             let ps = map (\<lambda>n. nd_addr (sn_node n)) (take 64 group) in
             run_bind (sort_peers (index_pairs (length ps)) ps) (\<lambda>ps.
               let peers = join_comma 1024 True (map (takeWhile (\<lambda>c. c \<noteq> CHR '':'')) ps);
                   rank_ids = join_comma 512 False (map (\<lambda>n. nd_id (sn_node n)) (take 64 group)) in
               Ret (s\<lparr>sv_nodes := map (take_lease model srv expire) (sv_nodes s)\<rparr>,
                 frame_send ''OK'' (snprintf_s 640
                   (''LEASED ranks='' @ show_nat (length group) @ '' leader='' @ nd_addr leader
                    @ '' peers='' @ peers @ '' rank_ids='' @ rank_ids))))))"

definition free_leases :: "string \<Rightarrow> sv_node list \<Rightarrow> sv_node list" where
  "free_leases srv = map (\<lambda>n. if sn_leased n \<noteq> [] \<and> sn_leased n = srv then n\<lparr>sn_leased := [], sn_expire := 0\<rparr> else n)"

definition handle_release :: "supervisor \<Rightarrow> string \<Rightarrow> supervisor \<times> bytes" where
  "handle_release s args = (s\<lparr>sv_nodes := free_leases (first_word args) (sv_nodes s)\<rparr>, frame_send ''OK'' [])"

definition lease_expire_check :: "supervisor \<Rightarrow> u64 \<Rightarrow> supervisor" where
  "lease_expire_check s now =
     s\<lparr>sv_nodes := map (\<lambda>n. if sn_expire n > 0 \<and> sn_expire n \<le> now then n\<lparr>sn_leased := [], sn_expire := 0\<rparr> else n) (sv_nodes s)\<rparr>"

subsection \<open>Self-healing\<close>

text \<open>C division: the quotient is truncated towards zero.\<close>

definition tdiv :: "int \<Rightarrow> int \<Rightarrow> int" where
  "tdiv a b = sgn a * sgn b * (\<bar>a\<bar> div \<bar>b\<bar>)"

definition tmod :: "int \<Rightarrow> int \<Rightarrow> int" where
  "tmod a b = a - b * tdiv a b"

text \<open>The loop that returns the group of the dead rank \<open>i\<close>: it compares with the holder of rank
  \<open>i\<close>, which the loop itself clears when it reaches \<open>i\<close>.\<close>

definition free_group :: "nat \<Rightarrow> sv_node list \<Rightarrow> sv_node list" where
  "free_group i nodes =
     fold (\<lambda>j ns. if sn_leased (ns ! j) \<noteq> [] \<and> sn_leased (ns ! j) = sn_leased (ns ! i)
                  then ns[j := (ns ! j)\<lparr>sn_leased := [], sn_expire := 0\<rparr>] else ns)
       [0..<length nodes] nodes"

definition mark_dead :: "nat \<Rightarrow> supervisor \<Rightarrow> supervisor" where
  "mark_dead i s = (let n = sv_nodes s ! i in set_node s i (n\<lparr>sn_node := (sn_node n)\<lparr>nd_state := NODE_STATE_DEAD\<rparr>\<rparr>))"

definition heal_one :: "sv_cfg \<Rightarrow> (nat \<Rightarrow> int) \<Rightarrow> u64 \<Rightarrow> nat \<Rightarrow> supervisor \<Rightarrow> supervisor run" where
  "heal_one c fork now i s =
     (let nd = sn_node (sv_nodes s ! i) in
      if nd_state nd = NODE_STATE_DEAD \<or> \<not> node_is_dead nd SV_HB_TIMEOUT now then Ret s
      else if nd_type nd = ''server'' then
        (let s = sync_server_to_router (mark_dead i s) i;
             s = s\<lparr>sv_nodes := free_leases (nd_id nd) (sv_nodes s)\<rparr> in
         if svc_auto_heal c
         then supervisor_spawn_server c fork (atoi (drop 7 (nd_id nd))) (spawn_kill s (nd_id nd))
         else Ret s)
      else if nd_type nd = ''rank'' then
        (let s = mark_dead i s;
             s = (if sn_leased (sv_nodes s ! i) \<noteq> [] then s\<lparr>sv_nodes := free_group i (sv_nodes s)\<rparr> else s) in
         if svc_auto_heal c
         then (let idx = atoi (drop 5 (nd_id nd)); st = model_stride c in
               supervisor_spawn_rank c fork (tdiv idx st) (tmod idx st) (spawn_kill s (nd_id nd)))
         else Ret s)
      else Ret s)"

fun heal_loop :: "sv_cfg \<Rightarrow> (nat \<Rightarrow> int) \<Rightarrow> u64 \<Rightarrow> nat list \<Rightarrow> supervisor \<Rightarrow> supervisor run" where
  "heal_loop c fork now [] s = Ret s"
| "heal_loop c fork now (i # is) s = run_bind (heal_one c fork now i s) (heal_loop c fork now is)"

definition heal_dead :: "sv_cfg \<Rightarrow> (nat \<Rightarrow> int) \<Rightarrow> u64 \<Rightarrow> supervisor \<Rightarrow> supervisor run" where
  "heal_dead c fork now s = heal_loop c fork now [0..<length (sv_nodes s)] s"

text \<open>\<open>sscanf("%127s need_groups=%d") == 2\<close>.\<close>

definition scan_need :: "string \<Rightarrow> bool" where
  "scan_need args =
     (let t = dropWhile is_space args; w = take 127 (takeWhile (\<lambda>c. \<not> is_space c) t);
          u = dropWhile is_space (drop (length w) t) in
      w \<noteq> [] \<and> starts ''need_groups='' u \<and> scan_int (drop 12 u) \<noteq> None)"

definition handle_scale :: "sv_cfg \<Rightarrow> (nat \<Rightarrow> int) \<Rightarrow> supervisor \<Rightarrow> string \<Rightarrow> supervisor run" where
  "handle_scale c fork s args =
     (if scan_need args \<and> svc_auto_heal c then spawn_ranks c fork 0 [0..<nat (svc_ranks c)] s else Ret s)"

subsection \<open>The main loop\<close>

definition handle_frame ::
  "sv_cfg \<Rightarrow> (nat \<Rightarrow> int) \<Rightarrow> supervisor \<Rightarrow> string option \<Rightarrow> frame \<Rightarrow> u64 \<Rightarrow> (supervisor \<times> bytes) run" where
  "handle_frame c fork s peer f now =
     (if fr_cmd f = ''HEARTBEAT'' then Ret (handle_heartbeat s peer (fr_args f) now)
      else if fr_cmd f = ''QUERY_SERVERS'' then Ret (s, handle_query_servers s)
      else if fr_cmd f = ''QUERY_RANKS'' then Ret (s, handle_query_ranks s (fr_args f))
      else if fr_cmd f = ''LEASE'' then handle_lease s (fr_args f) now
      else if fr_cmd f = ''RELEASE'' then Ret (handle_release s (fr_args f))
      else if fr_cmd f = ''SCALE'' then run_bind (handle_scale c fork s (fr_args f)) (\<lambda>s. Ret (s, frame_send ''OK'' []))
      else if fr_cmd f = ''QUIT'' \<or> fr_cmd f = ''DRAIN'' then Ret (s\<lparr>sv_quit := True\<rparr>, frame_send ''OK'' [])
      else Ret (s, frame_send ''ERR'' ''unknown cmd''))"

definition sv_tick :: "sv_cfg \<Rightarrow> (nat \<Rightarrow> int) \<Rightarrow> u64 \<Rightarrow> supervisor \<Rightarrow> supervisor run" where
  "sv_tick c fork now s =
     (if now - sv_last_check s \<ge> 2
      then run_bind (heal_dead c fork now (s\<lparr>sv_last_check := now\<rparr>)) (\<lambda>s. Ret (lease_expire_check s now))
      else Ret s)"

text \<open>One turn of \<open>supervisor_run\<close>: a connection, if one was accepted (the address of its peer and
  the bytes it sends), and the periodic checks.\<close>

definition sv_turn :: "sv_cfg \<Rightarrow> (nat \<Rightarrow> int) \<Rightarrow> (string option \<times> bytes) option \<Rightarrow> u64 \<Rightarrow> supervisor \<Rightarrow> (supervisor \<times> bytes) run" where
  "sv_turn c fork conn now s =
     run_bind (case conn of
         None \<Rightarrow> Ret (s, [])
       | Some (peer, input) \<Rightarrow>
           (case frame_recv input of None \<Rightarrow> Ret (s, []) | Some (f, _) \<Rightarrow> handle_frame c fork s peer f now))
       (\<lambda>(s, out). run_bind (sv_tick c fork now s) (\<lambda>s. Ret (s, out)))"

end
