(* ===== verification/LeasePool.thy ===== *)
theory LeasePool
  imports Supervisor "HOL-Library.Multiset"
begin

text \<open>
  The properties of the supervisor's lease pool: a locale states the contract of exclusive leases,
  the model of the supervisor interprets it, and the grant, the release and the recovery of leases
  are characterised on every branch.
\<close>

subsection \<open>Leases are exclusive\<close>

text \<open>The contract of a pool of leased resources: no operation hands a held resource to another
  holder, it can only keep it or return it to the pool.\<close>

locale lease_pool =
  fixes step :: "'op \<Rightarrow> 's \<Rightarrow> 's"
    and holder :: "'s \<Rightarrow> nat \<Rightarrow> string"
  assumes no_steal: "holder s i \<noteq> [] \<Longrightarrow> holder (step op s) i = holder s i \<or> holder (step op s) i = []"
begin

lemma handover:
  assumes "holder s i \<noteq> []" "holder (fold step ops s) i \<noteq> []" "holder (fold step ops s) i \<noteq> holder s i"
  shows "\<exists>ops1 ops2. ops = ops1 @ ops2 \<and> holder (fold step ops1 s) i = []"
  using assms
proof (induction ops arbitrary: s)
  case (Cons op ops)
  show ?case
  proof (cases "holder (step op s) i = []")
    case True
    then show ?thesis by (intro exI[of _ "[op]"] exI[of _ ops]) simp
  next
    case False
    then have "holder (step op s) i = holder s i" using no_steal Cons.prems(1) by metis
    then obtain ops1 ops2 where "ops = ops1 @ ops2" "holder (fold step ops1 (step op s)) i = []"
      using Cons.IH[of "step op s"] Cons.prems False by auto
    then show ?thesis by (intro exI[of _ "op # ops1"] exI[of _ ops2]) simp
  qed
qed simp

lemma keeps_or_frees:
  assumes "holder s i = a" "a \<noteq> []" "\<forall>k<length ops. holder (fold step (take (Suc k) ops) s) i \<noteq> []"
  shows "holder (fold step ops s) i = a"
  using assms(3)
proof (induction ops rule: rev_induct)
  case (snoc op ops)
  have "\<forall>k<length ops. holder (fold step (take (Suc k) ops) s) i \<noteq> []"
  proof (intro allI impI)
    fix k assume "k < length ops"
    then show "holder (fold step (take (Suc k) ops) s) i \<noteq> []" using snoc.prems[rule_format, of k] by simp
  qed
  then have h: "holder (fold step ops s) i = a" by (rule snoc.IH)
  have "holder (fold step (ops @ [op]) s) i \<noteq> []" using snoc.prems[rule_format, of "length ops"] by simp
  then show ?case using no_steal[of "fold step ops s" i op] h assms(2) by simp
qed (use assms(1) in simp)

end

definition holder :: "supervisor \<Rightarrow> nat \<Rightarrow> string" where
  "holder s i = (if i < length (sv_nodes s) then sn_leased (sv_nodes s ! i) else [])"

text \<open>A change of the node table after which every entry keeps its holder or is free, and no entry
  gets a holder; a change that takes leases satisfies only the weaker \<open>no_steal\<close>.\<close>

definition only_frees :: "sv_node list \<Rightarrow> sv_node list \<Rightarrow> bool" where
  "only_frees ns ns' \<longleftrightarrow> length ns \<le> length ns' \<and>
     (\<forall>i<length ns. sn_leased (ns' ! i) = sn_leased (ns ! i) \<or> sn_leased (ns' ! i) = [])"

definition no_steal :: "sv_node list \<Rightarrow> sv_node list \<Rightarrow> bool" where
  "no_steal ns ns' \<longleftrightarrow> length ns \<le> length ns' \<and>
     (\<forall>i<length ns. sn_leased (ns ! i) \<noteq> [] \<longrightarrow> sn_leased (ns' ! i) = sn_leased (ns ! i) \<or> sn_leased (ns' ! i) = [])"

named_theorems frees

lemma nth_upd: "k < length xs \<Longrightarrow> xs[i := x] ! k = (if i = k then x else xs ! k)"
  by (cases "i = k") auto

lemma only_frees_refl [frees]: "only_frees ns ns"
  by (simp add: only_frees_def)

lemma only_frees_len: "only_frees a b \<Longrightarrow> length a \<le> length b"
  by (simp add: only_frees_def)

lemma only_freesD: "only_frees a b \<Longrightarrow> i < length a \<Longrightarrow> sn_leased (b ! i) = sn_leased (a ! i) \<or> sn_leased (b ! i) = []"
  by (simp add: only_frees_def)

lemma only_frees_trans:
  assumes "only_frees a b" "only_frees b c"
  shows "only_frees a c"
proof -
  have "sn_leased (c ! i) = sn_leased (a ! i) \<or> sn_leased (c ! i) = []" if i: "i < length a" for i
    using only_freesD[OF assms(1) i] only_freesD[OF assms(2), of i] i only_frees_len[OF assms(1)] by auto
  then show ?thesis using only_frees_len[OF assms(1)] only_frees_len[OF assms(2)] by (simp add: only_frees_def)
qed

lemma no_steal_frees:
  assumes "no_steal a b" "only_frees b c"
  shows "no_steal a c"
proof -
  have len: "length a \<le> length b" using assms(1) by (simp add: no_steal_def)
  have "sn_leased (c ! i) = sn_leased (a ! i) \<or> sn_leased (c ! i) = []" if i: "i < length a" "sn_leased (a ! i) \<noteq> []" for i
  proof -
    have "sn_leased (b ! i) = sn_leased (a ! i) \<or> sn_leased (b ! i) = []" using assms(1) i by (simp add: no_steal_def)
    then show ?thesis using only_freesD[OF assms(2), of i] i len by auto
  qed
  then show ?thesis using len only_frees_len[OF assms(2)] by (simp add: no_steal_def)
qed

lemma frees_no_steal: "only_frees a b \<Longrightarrow> no_steal a b"
  by (simp add: only_frees_def no_steal_def)

lemma only_frees_map [frees]:
  "(\<And>n. sn_leased (f n) = sn_leased n \<or> sn_leased (f n) = []) \<Longrightarrow> only_frees ns (map f ns)"
  by (simp add: only_frees_def)

lemma only_frees_update:
  "sn_leased n = sn_leased (ns ! i) \<or> sn_leased n = [] \<Longrightarrow> only_frees ns (ns[i := n])"
  by (auto simp: only_frees_def nth_upd)

lemma only_frees_app [frees]: "only_frees ns (ns @ ms)"
  by (simp add: only_frees_def nth_append)

lemma notify_nodes [simp]: "sv_nodes (notify_routers s cmd args) = sv_nodes s"
proof -
  have "sv_nodes (fold (\<lambda>rn s. case strchr (nd_addr rn) CHR '':'' of None \<Rightarrow> s
      | Some colon \<Rightarrow> act (Notify (take 127 (takeWhile (\<lambda>c. c \<noteq> CHR '':'') (nd_addr rn)))
                            (word_of_int (atoi (tl colon)))
                            (if length (sv_acts s) \<in> set (sv_down s) then None else Some (frame_send cmd args))) s) rs s) = sv_nodes s" for rs
    by (induction rs arbitrary: s) (auto simp: act_def split: option.split)
  then show ?thesis by (simp add: notify_routers_def)
qed

lemma set_node_nodes [simp]: "sv_nodes (set_node s i n) = (sv_nodes s)[i := n]"
  by (simp add: set_node_def)

lemma sync_nodes: "\<exists>b. sv_nodes (sync_server_to_router s i) = (sv_nodes s)[i := (sv_nodes s ! i)\<lparr>sn_notified := b\<rparr>]"
proof -
  let ?n = "sv_nodes s ! i"
  consider (add) "nd_state (sn_node ?n) = NODE_STATE_READY" "\<not> sn_notified ?n"
    | (del) "nd_state (sn_node ?n) = NODE_STATE_DEAD" "sn_notified ?n"
    | (keep) "\<not> (nd_state (sn_node ?n) = NODE_STATE_READY \<and> \<not> sn_notified ?n)"
             "\<not> (nd_state (sn_node ?n) = NODE_STATE_DEAD \<and> sn_notified ?n)" by blast
  then show ?thesis
  proof cases
    case keep
    have "sv_nodes (sync_server_to_router s i) = sv_nodes s"
      by (simp add: sync_server_to_router_def Let_def keep)
    then show ?thesis by (intro exI[of _ "sn_notified ?n"]) simp
  next
    case add
    then show ?thesis by (intro exI[of _ True]) (simp add: sync_server_to_router_def Let_def)
  next
    case del
    then show ?thesis by (intro exI[of _ False]) (simp add: sync_server_to_router_def Let_def node_states)
  qed
qed

lemma only_frees_sync [frees]: "only_frees (sv_nodes s) (sv_nodes (sync_server_to_router s i))"
  using sync_nodes[of s i] by (elim exE) (simp add: only_frees_update)

lemma only_frees_mark [frees]: "only_frees (sv_nodes s) (sv_nodes (mark_dead i s))"
  by (auto simp: mark_dead_def Let_def intro: only_frees_update)

lemma only_frees_leases [frees]: "only_frees ns (free_leases srv ns)"
  unfolding free_leases_def by (rule only_frees_map) simp

lemma only_frees_group [frees]: "only_frees ns (free_group i ns)"
proof -
  have "only_frees ns (fold (\<lambda>j ns. if sn_leased (ns ! j) \<noteq> [] \<and> sn_leased (ns ! j) = sn_leased (ns ! i)
                  then ns[j := (ns ! j)\<lparr>sn_leased := [], sn_expire := 0\<rparr>] else ns) js ns)" for js
  proof (induction js arbitrary: ns)
    case (Cons j js)
    have u: "only_frees ns (ns[j := (ns ! j)\<lparr>sn_leased := [], sn_expire := 0\<rparr>])"
      by (rule only_frees_update) simp
    show ?case
      using Cons.IH[of ns] only_frees_trans[OF u Cons.IH[of "ns[j := (ns ! j)\<lparr>sn_leased := [], sn_expire := 0\<rparr>]"]]
      by (simp only: fold_simps o_apply split: if_split) blast
  qed (simp add: only_frees_refl)
  then show ?thesis by (simp add: free_group_def)
qed

lemma spawn_nodes [simp]: "sv_nodes (spawn fork s cmd nid) = sv_nodes s"
  by (simp add: spawn_def act_def spawn_record_def Let_def split: option.split)

lemma spawn_kill_nodes [simp]: "sv_nodes (spawn_kill s nid) = sv_nodes s"
  by (simp add: spawn_kill_def act_def Let_def split: option.split)

lemma spawn_rank_nodes: "supervisor_spawn_rank c fork mi r s = Ret s' \<Longrightarrow> sv_nodes s' = sv_nodes s"
  by (auto simp: supervisor_spawn_rank_def split: if_splits)

lemma spawn_server_nodes: "supervisor_spawn_server c fork mi s = Ret s' \<Longrightarrow> sv_nodes s' = sv_nodes s"
  by (auto simp: supervisor_spawn_server_def split: if_splits)

lemma spawn_ranks_nodes: "spawn_ranks c fork mi rs s = Ret s' \<Longrightarrow> sv_nodes s' = sv_nodes s"
  by (induction rs arbitrary: s) (auto simp: run_bind_Ret dest: spawn_rank_nodes)

lemma heal_one_frees: "heal_one c fork now i s = Ret s' \<Longrightarrow> only_frees (sv_nodes s) (sv_nodes s')"
proof -
  assume h: "heal_one c fork now i s = Ret s'"
  let ?nd = "sn_node (sv_nodes s ! i)"
  let ?m = "mark_dead i s"
  let ?fs = "\<lambda>s. s\<lparr>sv_nodes := free_leases (nd_id ?nd) (sv_nodes s)\<rparr>"
  let ?fg = "\<lambda>s. s\<lparr>sv_nodes := free_group i (sv_nodes s)\<rparr>"
  have m: "only_frees (sv_nodes s) (sv_nodes ?m)" by (rule only_frees_mark)
  have srv: "only_frees (sv_nodes s) (sv_nodes (?fs (sync_server_to_router ?m i)))"
    using only_frees_trans[OF only_frees_trans[OF m only_frees_sync[of ?m i]] only_frees_leases] by simp
  have rk: "only_frees (sv_nodes s) (sv_nodes (?fg ?m))"
    using only_frees_trans[OF m only_frees_group] by simp
  show ?thesis
    using h srv rk m unfolding heal_one_def Let_def
    by (auto split: if_splits dest!: spawn_server_nodes spawn_rank_nodes simp: frees)
qed

lemma heal_loop_frees: "heal_loop c fork now is s = Ret s' \<Longrightarrow> only_frees (sv_nodes s) (sv_nodes s')"
proof (induction "is" arbitrary: s)
  case (Cons i "is")
  then obtain t where t: "heal_one c fork now i s = Ret t" "heal_loop c fork now is t = Ret s'"
    by (auto simp: run_bind_Ret)
  show ?case by (rule only_frees_trans[OF heal_one_frees[OF t(1)] Cons.IH[OF t(2)]])
qed (simp add: frees)

lemma sv_tick_frees: "sv_tick c fork now s = Ret s' \<Longrightarrow> only_frees (sv_nodes s) (sv_nodes s')"
proof (cases "now - sv_last_check s \<ge> 2")
  case True
  assume "sv_tick c fork now s = Ret s'"
  then obtain t where t: "heal_dead c fork now (s\<lparr>sv_last_check := now\<rparr>) = Ret t" "s' = lease_expire_check t now"
    using True by (auto simp: sv_tick_def run_bind_Ret)
  have "only_frees (sv_nodes s) (sv_nodes t)"
    using heal_loop_frees[OF t(1)[unfolded heal_dead_def]] by simp
  moreover have "only_frees (sv_nodes t) (sv_nodes s')"
    by (auto simp: t(2) lease_expire_check_def intro!: only_frees_map)
  ultimately show ?thesis by (rule only_frees_trans)
next
  case False
  assume "sv_tick c fork now s = Ret s'"
  then show ?thesis using False by (simp add: sv_tick_def frees)
qed

lemma heartbeat_frees: "only_frees (sv_nodes s) (sv_nodes (fst (handle_heartbeat s peer args now)))"
proof -
  define n where "n = node_parse_hb args zero_node now"
  define t where "t s i = (let sv = sv_nodes s ! i;
             s = set_node s i (sv\<lparr>sn_node := (sn_node sv)\<lparr>nd_addr := fix_addr peer (nd_addr (sn_node sv))\<rparr>\<rparr>) in
         (if nd_type (sn_node (sv_nodes s ! i)) = ''server'' then sync_server_to_router s i else s))" for s i
  have t: "only_frees (sv_nodes s) (sv_nodes (t s i))" for s i
  proof -
    define u where "u = set_node s i ((sv_nodes s ! i)\<lparr>sn_node := (sn_node (sv_nodes s ! i))\<lparr>nd_addr := fix_addr peer (nd_addr (sn_node (sv_nodes s ! i)))\<rparr>\<rparr>)"
    have "only_frees (sv_nodes s) (sv_nodes u)" by (simp add: only_frees_update u_def)
    moreover have "t s i = u \<or> t s i = sync_server_to_router u i" unfolding t_def Let_def u_def by auto
    ultimately show ?thesis using only_frees_trans[OF _ only_frees_sync[of u i]] by auto
  qed
  show ?thesis
  proof (cases "find_node s (nd_id n)")
    case (Some i)
    let ?s = "set_node s i ((sv_nodes s ! i)\<lparr>sn_node := merge_hb (sn_node (sv_nodes s ! i)) n\<rparr>)"
    have "fst (handle_heartbeat s peer args now) = t ?s i"
      by (simp add: handle_heartbeat_def Let_def t_def Some n_def[symmetric])
    moreover have "only_frees (sv_nodes s) (sv_nodes ?s)" by (simp add: only_frees_update)
    ultimately show ?thesis using only_frees_trans[OF _ t] by simp
  next
    case None
    let ?s = "s\<lparr>sv_nodes := sv_nodes s @ [\<lparr>sn_node = n, sn_notified = False, sn_leased = [], sn_expire = 0\<rparr>]\<rparr>"
    show ?thesis
    proof (cases "length (sv_nodes s) \<ge> SV_MAX_NODES")
      case True
      then show ?thesis by (simp add: handle_heartbeat_def Let_def None n_def[symmetric] frees)
    next
      case False
      then have "fst (handle_heartbeat s peer args now) = t ?s (length (sv_nodes s))"
        by (simp add: handle_heartbeat_def Let_def t_def None n_def[symmetric])
      moreover have "only_frees (sv_nodes s) (sv_nodes ?s)" by (simp add: frees)
      ultimately show ?thesis using only_frees_trans[OF _ t] by simp
    qed
  qed
qed

lemma first_word_len: "length (first_word args) \<le> 127"
  by (simp add: first_word_def)

lemma take_lease_holder:
  "length srv \<le> 127 \<Longrightarrow> sn_leased (take_lease model srv e n) = (if leasable model srv n then srv else sn_leased n)"
  by (simp add: take_lease_def snprintf_s_def)

lemma lease_no_steal: "handle_lease s args now = Ret (s', out) \<Longrightarrow> no_steal (sv_nodes s) (sv_nodes s')"
proof -
  assume h: "handle_lease s args now = Ret (s', out)"
  consider "s' = s" | model e where "s' = s\<lparr>sv_nodes := map (take_lease model (first_word args) e) (sv_nodes s)\<rparr>"
    using h unfolding handle_lease_def Let_def by (auto simp: run_bind_Ret split: option.splits list.splits if_splits)
  then show ?thesis
  proof cases
    case 1
    then show ?thesis by (simp add: no_steal_def)
  next
    case 2
    then show ?thesis
      by (auto simp: no_steal_def take_lease_holder[OF first_word_len] leasable_def)
  qed
qed

lemma if_arms:
  "(if a then p else if b then q else if c then r else if d then u else if e then v else if f then w else if g then x else y) = z
   \<Longrightarrow> p = z \<or> q = z \<or> r = z \<or> u = z \<or> v = z \<or> w = z \<or> x = z \<or> y = z"
  by (auto split: if_splits)

lemma handle_frame_cases:
  assumes "handle_frame c fork s peer f now = Ret (s', out)"
  obtains "(s', out) = handle_heartbeat s peer (fr_args f) now" | "sv_nodes s' = sv_nodes s"
    | "handle_lease s (fr_args f) now = Ret (s', out)" | "(s', out) = handle_release s (fr_args f)"
    | "handle_scale c fork s (fr_args f) = Ret s'"
  using if_arms[OF assms[unfolded handle_frame_def]] by (auto simp only: run_bind_Ret run.inject prod.inject simp_thms) simp

lemma handle_frame_no_steal:
  "handle_frame c fork s peer f now = Ret (s', out) \<Longrightarrow> no_steal (sv_nodes s) (sv_nodes s')"
proof -
  assume h: "handle_frame c fork s peer f now = Ret (s', out)"
  have scale: "sv_nodes t = sv_nodes s" if "handle_scale c fork s (fr_args f) = Ret t" for t
    using that by (auto simp: handle_scale_def split: if_splits dest: spawn_ranks_nodes)
  have rel: "only_frees (sv_nodes s) (sv_nodes (fst (handle_release s (fr_args f))))"
    by (simp add: handle_release_def frees)
  from h show ?thesis
  proof (cases rule: handle_frame_cases)
    case 1
    then show ?thesis using frees_no_steal[OF heartbeat_frees[of s peer "fr_args f" now]] by (metis fst_conv)
  next
    case 2
    then show ?thesis using frees_no_steal[OF only_frees_refl[of "sv_nodes s"]] by simp
  next
    case 3
    then show ?thesis by (rule lease_no_steal)
  next
    case 4
    then show ?thesis using frees_no_steal[OF rel] by (metis fst_conv)
  next
    case 5
    then show ?thesis using frees_no_steal[OF only_frees_refl[of "sv_nodes s"]] by (simp only: scale[OF 5])
  qed
qed

definition turn :: "sv_cfg \<Rightarrow> (nat \<Rightarrow> int) \<Rightarrow> (string option \<times> bytes) option \<times> u64 \<Rightarrow> supervisor \<Rightarrow> supervisor" where
  "turn c fork op s = (case sv_turn c fork (fst op) (snd op) s of Ret (s', _) \<Rightarrow> s' | _ \<Rightarrow> s)"

lemma sv_turn_no_steal: "sv_turn c fork conn now s = Ret (s', out) \<Longrightarrow> no_steal (sv_nodes s) (sv_nodes s')"
proof -
  assume "sv_turn c fork conn now s = Ret (s', out)"
  then obtain t where t: "(case conn of None \<Rightarrow> Ret (s, []) | Some (peer, input) \<Rightarrow>
      (case frame_recv input of None \<Rightarrow> Ret (s, []) | Some (f, _) \<Rightarrow> handle_frame c fork s peer f now)) = Ret (t, out)"
      "sv_tick c fork now t = Ret s'"
    by (auto simp: sv_turn_def run_bind_Ret)
  have "no_steal (sv_nodes s) (sv_nodes t)"
    using t(1) frees_no_steal[OF only_frees_refl[of "sv_nodes s"]]
    by (auto split: option.splits prod.splits dest: handle_frame_no_steal)
  then show ?thesis using no_steal_frees sv_tick_frees[OF t(2)] by blast
qed

lemma turn_no_steal: "no_steal (sv_nodes s) (sv_nodes (turn c fork op s))"
  using frees_no_steal[OF only_frees_refl[of "sv_nodes s"]]
  by (auto simp: turn_def split: run.split dest: sv_turn_no_steal)

interpretation lp: lease_pool "turn c fork" holder for c fork
proof
  fix s :: supervisor and i op
  assume "holder s i \<noteq> []"
  then show "holder (turn c fork op s) i = holder s i \<or> holder (turn c fork op s) i = []"
    using turn_no_steal[of s c fork op] by (auto simp: holder_def no_steal_def split: if_splits)
qed

text \<open>C9: Leases are exclusive. Over any sequence of turns of the supervisor (connections with any
  bytes, at any times), a rank held by one server comes to be held by another only after a moment
  at which it was free.\<close>

theorem lease_handover:
  assumes "holder s i \<noteq> []" "holder (fold (turn c fork) ops s) i \<noteq> []"
    "holder (fold (turn c fork) ops s) i \<noteq> holder s i"
  shows "\<exists>ops1 ops2. ops = ops1 @ ops2 \<and> holder (fold (turn c fork) ops1 s) i = []"
  using assms by (rule lp.handover)

text \<open>A pool of one rank, held by server \<open>a\<close>.\<close>

definition rank0 :: node where
  "rank0 = zero_node\<lparr>nd_id := ''rank-0'', nd_type := ''rank'', nd_model := ''m'', nd_addr := ''10.0.0.1:9000'',
                     nd_state := NODE_STATE_READY\<rparr>"

definition pool1 :: supervisor where
  "pool1 = \<lparr>sv_nodes = [\<lparr>sn_node = rank0, sn_notified = False, sn_leased = ''a'', sn_expire = 0\<rparr>], sv_routers = [],
            sv_spawns = [], sv_acts = [], sv_last_check = 0, sv_quit = False, sv_down = []\<rparr>"

definition cfg0 :: sv_cfg where
  "cfg0 = \<lparr>svc_models = [], svc_ranks = 1, svc_rank_port = 9000, svc_server_port = 9100, svc_host = [], svc_port = 8000,
     svc_bin = [], svc_model = [], svc_cache = [], svc_kv = [], svc_auto_heal = False, svc_budget = 0, svc_mtp = 0,
     svc_no_server = False, svc_local_ip = []\<rparr>"

theorem lease_handover_witness:
  "\<exists>ops1 ops2. [(Some (None, frame_send ''RELEASE'' ''a''), 0), (Some (None, frame_send ''LEASE'' ''b model=m''), 0)] = ops1 @ ops2
     \<and> holder (fold (turn cfg0 (\<lambda>_. 0)) ops1 pool1) 0 = []"
proof (rule lease_handover)
  have r: "fold (turn cfg0 (\<lambda>_. 0)) [(Some (None, frame_send ''RELEASE'' ''a''), 0), (Some (None, frame_send ''LEASE'' ''b model=m''), 0)] pool1
      = pool1\<lparr>sv_nodes := [\<lparr>sn_node = rank0, sn_notified = False, sn_leased = ''b'', sn_expire = 0\<rparr>]\<rparr>"
    by code_simp
  show "holder pool1 0 \<noteq> []" by (simp add: holder_def pool1_def)
  show "holder (fold (turn cfg0 (\<lambda>_. 0)) [(Some (None, frame_send ''RELEASE'' ''a''), 0), (Some (None, frame_send ''LEASE'' ''b model=m''), 0)] pool1) 0 \<noteq> []"
    unfolding r by (simp add: holder_def)
  show "holder (fold (turn cfg0 (\<lambda>_. 0)) [(Some (None, frame_send ''RELEASE'' ''a''), 0), (Some (None, frame_send ''LEASE'' ''b model=m''), 0)] pool1) 0
      \<noteq> holder pool1 0"
    unfolding r by (simp add: holder_def pool1_def)
qed

subsection \<open>What a lease grants\<close>

definition peer_key :: "string \<Rightarrow> int" where
  "peer_key a = the (peer_port a)"

definition has_ports :: "string list \<Rightarrow> bool" where
  "has_ports ps \<longleftrightarrow> (\<forall>a\<in>set ps. peer_port a \<noteq> None)"

text \<open>The first \<open>a\<close> entries are in place, and entry \<open>a\<close> is least among those before \<open>b\<close>.\<close>

definition placed :: "nat \<Rightarrow> nat \<Rightarrow> string list \<Rightarrow> bool" where
  "placed a b ps \<longleftrightarrow> (\<forall>i<a. \<forall>j. i < j \<and> j < length ps \<longrightarrow> peer_key (ps ! i) \<le> peer_key (ps ! j))
     \<and> (\<forall>j. a < j \<and> j < b \<longrightarrow> peer_key (ps ! a) \<le> peer_key (ps ! j))"

lemma swap_mset: "a < length ps \<Longrightarrow> b < length ps \<Longrightarrow> mset (ps[a := ps ! b, b := ps ! a]) = mset ps"
  using mset_swap[of a ps b] by (cases "a = b") (simp_all add: list_update_swap)

lemma swap_peers_step:
  assumes "has_ports ps" "a < b" "b < length ps" "placed a b ps"
  shows "\<exists>ps'. swap_peers a b ps = Ret ps' \<and> mset ps' = mset ps \<and> placed a (Suc b) ps'"
proof -
  have k: "peer_port (ps ! a) = Some (peer_key (ps ! a))" "peer_port (ps ! b) = Some (peer_key (ps ! b))"
    using assms(1-3) by (auto simp: has_ports_def peer_key_def)
  show ?thesis
  proof (cases "peer_key (ps ! b) < peer_key (ps ! a)")
    case False
    then have "placed a (Suc b) ps" using assms(4) by (auto simp: placed_def less_Suc_eq)
    then show ?thesis using False by (simp add: swap_peers_def k)
  next
    case True
    let ?q = "ps[a := ps ! b, b := ps ! a]"
    have q: "?q ! j = (if j = b then ps ! a else if j = a then ps ! b else ps ! j)" if "j < length ps" for j
      using that by (auto simp: nth_upd)
    have "peer_key (?q ! i) \<le> peer_key (?q ! j)" if "i < a" "i < j" "j < length ps" for i j
    proof -
      have "?q ! i = ps ! i" using that assms(2,3) by (simp add: q)
      moreover have "\<exists>j'. ?q ! j = ps ! j' \<and> i < j' \<and> j' < length ps"
      proof (cases "j = b")
        case True
        then show ?thesis using that assms(2,3) q[of j] by (intro exI[of _ a]) simp
      next
        case False
        show ?thesis
        proof (cases "j = a")
          case True
          then show ?thesis using that assms(2,3) q[of j] False by (intro exI[of _ b]) simp
        next
          case False
          then show ?thesis using that q[of j] \<open>j \<noteq> b\<close> by (intro exI[of _ j]) simp
        qed
      qed
      ultimately show ?thesis using assms(4) that(1) by (auto simp: placed_def)
    qed
    moreover have "peer_key (?q ! a) \<le> peer_key (?q ! j)" if "a < j" "j < Suc b" for j
    proof (cases "j = b")
      case True
      then show ?thesis using q[of a] q[of b] assms(2,3) \<open>peer_key (ps ! b) < peer_key (ps ! a)\<close> by simp
    next
      case False
      then have "peer_key (ps ! a) \<le> peer_key (ps ! j)" using assms(4) that by (simp add: placed_def)
      then show ?thesis using q[of a] q[of j] False that assms(2,3) True by simp
    qed
    ultimately have "placed a (Suc b) ?q" by (simp add: placed_def)
    then show ?thesis using True swap_mset[of a ps b] assms(2,3) by (simp add: swap_peers_def k)
  qed
qed

lemma ports_mset: "mset ps' = mset ps \<Longrightarrow> has_ports ps \<Longrightarrow> has_ports ps'"
  by (metis has_ports_def set_mset_mset)

lemma sort_peers_app: "sort_peers (xs @ ys) ps = run_bind (sort_peers xs ps) (sort_peers ys)"
proof (induction xs arbitrary: ps)
  case (Cons x xs)
  then show ?case by (cases x, cases "swap_peers (fst x) (snd x) ps") simp_all
qed simp

lemma inner_pass:
  assumes "has_ports ps" "a < b" "b \<le> length ps" "placed a b ps"
  shows "\<exists>ps'. sort_peers (map (\<lambda>b. (a, b)) [b..<length ps]) ps = Ret ps' \<and> mset ps' = mset ps \<and> placed a (length ps) ps'"
  using assms
proof (induction "length ps - b" arbitrary: b ps)
  case 0
  then have "b = length ps" by simp
  then show ?case using 0 by simp
next
  case (Suc d)
  then have b: "b < length ps" by simp
  obtain q where q: "swap_peers a b ps = Ret q" "mset q = mset ps" "placed a (Suc b) q"
    using swap_peers_step[OF Suc.prems(1,2) b Suc.prems(4)] by auto
  have len: "length q = length ps" using q(2) by (rule mset_eq_length)
  have "\<exists>ps'. sort_peers (map (\<lambda>b. (a, b)) [Suc b..<length q]) q = Ret ps' \<and> mset ps' = mset q \<and> placed a (length q) ps'"
  proof (rule Suc.hyps(1))
    show "d = length q - Suc b" using Suc.hyps(2) len by simp
    show "has_ports q" using ports_mset[OF q(2) Suc.prems(1)] .
    show "a < Suc b" using Suc.prems(2) by simp
    show "Suc b \<le> length q" using b len by simp
    show "placed a (Suc b) q" by (rule q(3))
  qed
  then show ?case using q len b by (simp add: upt_conv_Cons)
qed

lemma outer_pass:
  assumes "has_ports ps" "k \<le> length ps"
  shows "\<exists>ps'. sort_peers (concat (map (\<lambda>a. map (\<lambda>b. (a, b)) [Suc a..<length ps]) [0..<k])) ps = Ret ps'
     \<and> mset ps' = mset ps \<and> placed k 0 ps'"
  using assms(2)
proof (induction k)
  case 0
  then show ?case by (simp add: placed_def)
next
  case (Suc k)
  then obtain q where q: "sort_peers (concat (map (\<lambda>a. map (\<lambda>b. (a, b)) [Suc a..<length ps]) [0..<k])) ps = Ret q"
      "mset q = mset ps" "placed k 0 q" by auto
  have len: "length q = length ps" using q(2) by (rule mset_eq_length)
  have "placed k (Suc k) q" using q(3) by (simp add: placed_def)
  then obtain r where r: "sort_peers (map (\<lambda>b. (k, b)) [Suc k..<length q]) q = Ret r" "mset r = mset q" "placed k (length q) r"
    using inner_pass[OF ports_mset[OF q(2) assms(1)], of k "Suc k"] Suc.prems len by auto
  have lr: "length r = length q" using r(2) by (rule mset_eq_length)
  have "placed (Suc k) 0 r" using r(3) lr by (auto simp: placed_def less_Suc_eq)
  then show ?case using q r len by (simp add: sort_peers_app)
qed

lemma sort_peers_sorted:
  assumes "has_ports ps"
  shows "\<exists>ps'. sort_peers (index_pairs (length ps)) ps = Ret ps' \<and> mset ps' = mset ps \<and> sorted (map peer_key ps')"
proof -
  obtain r where r: "sort_peers (index_pairs (length ps)) ps = Ret r" "mset r = mset ps" "placed (length ps) 0 r"
    using outer_pass[OF assms le_refl] by (auto simp: index_pairs_def)
  have "length r = length ps" using r(2) by (rule mset_eq_length)
  then have "sorted (map peer_key r)" using r(3) by (auto simp: placed_def sorted_iff_nth_mono_less)
  then show ?thesis using r by blast
qed

lemma lease_granted:
  assumes "srv = first_word args" "srv \<noteq> []" "proto_get args ''model'' = Some model"
    and "grp = filter (leasable model srv) (sv_nodes s)" "filter is_leader (map sn_node grp) = ls @ [l]"
    and "has_ports (map (\<lambda>n. nd_addr (sn_node n)) (take 64 grp))"
  shows "\<exists>s' ps. handle_lease s args now = Ret (s', frame_send ''OK'' (snprintf_s 640
        (''LEASED ranks='' @ show_nat (length grp) @ '' leader='' @ nd_addr l
         @ '' peers='' @ join_comma 1024 True (map (takeWhile (\<lambda>c. c \<noteq> CHR '':'')) ps)
         @ '' rank_ids='' @ join_comma 512 False (map (\<lambda>n. nd_id (sn_node n)) (take 64 grp)))))
    \<and> mset ps = mset (map (\<lambda>n. nd_addr (sn_node n)) (take 64 grp)) \<and> sorted (map peer_key ps)
    \<and> (\<forall>i<length (sv_nodes s). holder s' i = (if leasable model srv (sv_nodes s ! i) then srv else holder s i))"
proof -
  define expire where "expire = (case proto_get args ''duration'' of
                 None \<Rightarrow> 0
               | Some dur \<Rightarrow> if dur = ''permanent'' then 0 else if atoi dur > 0 then now + word_of_int (atoi dur) else 0)"
  let ?ps = "map (\<lambda>n. nd_addr (sn_node n)) (take 64 grp)"
  obtain ps where ps: "sort_peers (index_pairs (length ?ps)) ?ps = Ret ps" "mset ps = mset ?ps" "sorted (map peer_key ps)"
    using sort_peers_sorted[OF assms(6)] by blast
  let ?s' = "s\<lparr>sv_nodes := map (take_lease model srv expire) (sv_nodes s)\<rparr>"
  have g: "rev (filter is_leader (map sn_node grp)) = l # rev ls" using assms(5) by simp
  have "handle_lease s args now = Ret (?s', frame_send ''OK'' (snprintf_s 640
        (''LEASED ranks='' @ show_nat (length grp) @ '' leader='' @ nd_addr l
         @ '' peers='' @ join_comma 1024 True (map (takeWhile (\<lambda>c. c \<noteq> CHR '':'')) ps)
         @ '' rank_ids='' @ join_comma 512 False (map (\<lambda>n. nd_id (sn_node n)) (take 64 grp)))))"
    unfolding handle_lease_def Let_def assms(1)[symmetric] assms(3) option.case expire_def[symmetric] assms(4)[symmetric] g list.case
    using assms(2) ps(1) by simp
  moreover have "holder ?s' i = (if leasable model srv (sv_nodes s ! i) then srv else holder s i)" if "i < length (sv_nodes s)" for i
    using that take_lease_holder[of srv model expire] first_word_len[of args] assms(1) by (simp add: holder_def)
  ultimately show ?thesis using ps(2,3) by blast
qed

text \<open>C22: What a granted lease is. When the ranks the server may take include a leader and every
  address of the group has a port, \<open>LEASE\<close> succeeds: after it the server holds exactly those
  ranks and every other rank keeps its holder, and the reply names the last leader of the group
  and the hosts of the (first 64) members in the order of their ports, the order in which the
  pipeline uses them.\<close>

theorem lease_grant:
  assumes "srv = first_word args" "srv \<noteq> []" "proto_get args ''model'' = Some model"
    and "grp = filter (leasable model srv) (sv_nodes s)" "filter is_leader (map sn_node grp) = ls @ [l]"
    and "has_ports (map (\<lambda>n. nd_addr (sn_node n)) (take 64 grp))"
  shows "\<exists>s' ps. handle_lease s args now = Ret (s', frame_send ''OK'' (snprintf_s 640
        (''LEASED ranks='' @ show_nat (length grp) @ '' leader='' @ nd_addr l
         @ '' peers='' @ join_comma 1024 True (map (takeWhile (\<lambda>c. c \<noteq> CHR '':'')) ps)
         @ '' rank_ids='' @ join_comma 512 False (map (\<lambda>n. nd_id (sn_node n)) (take 64 grp)))))
    \<and> mset ps = mset (map (\<lambda>n. nd_addr (sn_node n)) (take 64 grp)) \<and> sorted (map peer_key ps)
    \<and> (\<forall>i<length (sv_nodes s). holder s' i = (if leasable model srv (sv_nodes s ! i) then srv else holder s i))"
  by (rule lease_granted[OF assms])

definition free_rank :: sv_node where
  "free_rank = \<lparr>sn_node = rank0, sn_notified = False, sn_leased = [], sn_expire = 0\<rparr>"

definition free_pool :: supervisor where
  "free_pool = pool1\<lparr>sv_nodes := [free_rank]\<rparr>"

theorem lease_grant_witness:
  "\<exists>s' ps. handle_lease free_pool ''b model=m'' 5 = Ret (s', frame_send ''OK'' (snprintf_s 640
        (''LEASED ranks='' @ show_nat (length [free_rank]) @ '' leader='' @ nd_addr rank0
         @ '' peers='' @ join_comma 1024 True (map (takeWhile (\<lambda>c. c \<noteq> CHR '':'')) ps)
         @ '' rank_ids='' @ join_comma 512 False (map (\<lambda>n. nd_id (sn_node n)) (take 64 [free_rank])))))
    \<and> mset ps = mset (map (\<lambda>n. nd_addr (sn_node n)) (take 64 [free_rank])) \<and> sorted (map peer_key ps)
    \<and> (\<forall>i<length (sv_nodes free_pool). holder s' i
          = (if leasable ''m'' ''b'' (sv_nodes free_pool ! i) then ''b'' else holder free_pool i))"
proof (rule lease_grant)
  show "''b'' = first_word ''b model=m''" by code_simp
  show "proto_get ''b model=m'' ''model'' = Some ''m''" by code_simp
  have "leasable ''m'' ''b'' free_rank" by code_simp
  then show "[free_rank] = filter (leasable ''m'' ''b'') (sv_nodes free_pool)" by (simp add: free_pool_def)
  have "atoi ''0'' = 0" using atoi_show_int[of "[]" 0] by (simp add: show_int_def show_nat.simps)
  then have "is_leader rank0" by (simp add: is_leader_def rank0_def)
  then show "filter is_leader (map sn_node [free_rank]) = [] @ [rank0]" by (simp add: free_rank_def)
  have "strrchr ''10.0.0.1:9000'' CHR '':'' \<noteq> None" by code_simp
  then have "peer_port (nd_addr rank0) \<noteq> None" by (simp add: peer_port_def rank0_def)
  then show "has_ports (map (\<lambda>n. nd_addr (sn_node n)) (take 64 [free_rank]))" by (simp add: free_rank_def has_ports_def)
qed simp

text \<open>Models behind the first can never be leased. The supervisor names the ranks of the model
  of index \<open>mi\<close> by \<open>mi * stride + r\<close>, but a group is granted only with a member called
  \<open>rank-0\<close>: a server of any model but the first is always refused, and nothing changes.\<close>

theorem later_models_refused:
  assumes "proto_get args ''model'' = Some model" "first_word args \<noteq> []" "mi \<ge> 1"
    and "\<forall>n\<in>set (sv_nodes s). leasable model (first_word args) n \<longrightarrow>
           (\<exists>r\<ge>0. nd_id (sn_node n) = ''rank-'' @ show_int (mi * model_stride c + r) \<and> mi * model_stride c + r < 2 ^ 31)"
  shows "handle_lease s args now = Ret (s, frame_send ''ERR'' ''no-rank'')"
proof -
  have st: "fold (\<lambda>m st. if mc_ranks m > st then mc_ranks m else st) ms k \<ge> k" for ms and k :: int
  proof (induction ms arbitrary: k)
    case (Cons m ms)
    show ?case using Cons[of k] Cons[of "mc_ranks m"] by (simp add: order.trans)
  qed simp
  have st: "model_stride c \<ge> 1" using st by (simp add: model_stride_def)
  have "\<not> is_leader (sn_node n)" if n: "n \<in> set (sv_nodes s)" "leasable model (first_word args) n" for n
  proof -
    obtain r where r: "r \<ge> 0" "nd_id (sn_node n) = ''rank-'' @ show_int (mi * model_stride c + r)" "mi * model_stride c + r < 2 ^ 31"
      using assms(4) n by blast
    have "mi * model_stride c \<ge> 1" using st assms(3) by (metis mult_mono' zero_le_one mult_1)
    then have "atoi (show_int (mi * model_stride c + r)) \<noteq> 0"
      using atoi_show_int[of "[]" "mi * model_stride c + r"] r by simp
    then show ?thesis using r(2) by (simp add: is_leader_def)
  qed
  then have "filter is_leader (map sn_node (filter (leasable model (first_word args)) (sv_nodes s))) = []"
    by (simp add: filter_empty_conv)
  then show ?thesis unfolding handle_lease_def Let_def assms(1) option.case using assms(2) by simp
qed

definition pool_b :: supervisor where
  "pool_b = pool1\<lparr>sv_nodes := [\<lparr>sn_node = rank0\<lparr>nd_id := ''rank-1''\<rparr>, sn_notified = False, sn_leased = [], sn_expire = 0\<rparr>]\<rparr>"

theorem later_models_refused_witness:
  "handle_lease pool_b ''b model=m'' 5 = Ret (pool_b, frame_send ''ERR'' ''no-rank'')"
proof (rule later_models_refused[where mi = 1 and c = cfg0])
  show "proto_get ''b model=m'' ''model'' = Some ''m''" by code_simp
  show "first_word ''b model=m'' \<noteq> []" by code_simp
  have "model_stride cfg0 = 1" by (simp add: model_stride_def cfg0_def)
  then show "\<forall>n\<in>set (sv_nodes pool_b). leasable ''m'' (first_word ''b model=m'') n \<longrightarrow>
           (\<exists>r\<ge>0. nd_id (sn_node n) = ''rank-'' @ show_int (1 * model_stride cfg0 + r) \<and> 1 * model_stride cfg0 + r < 2 ^ 31)"
    by (intro ballI impI exI[of _ 0]) (simp add: pool_b_def rank0_def show_int_def show_nat.simps)
qed simp

subsection \<open>The leases of a dead rank\<close>

lemma free_group_upto:
  assumes "i < length ns" "sn_leased (ns ! i) \<noteq> []" "k \<le> length ns"
  shows "fold (\<lambda>j ns. if sn_leased (ns ! j) \<noteq> [] \<and> sn_leased (ns ! j) = sn_leased (ns ! i)
                  then ns[j := (ns ! j)\<lparr>sn_leased := [], sn_expire := 0\<rparr>] else ns) [0..<k] ns
     = map (\<lambda>j. if j < k \<and> j \<le> i \<and> sn_leased (ns ! j) = sn_leased (ns ! i)
                then (ns ! j)\<lparr>sn_leased := [], sn_expire := 0\<rparr> else ns ! j) [0..<length ns]"
    (is "?f k = ?g k")
  using assms(3)
proof (induction k)
  case 0
  show ?case by (simp add: map_nth)
next
  case (Suc k)
  then have ih: "?f k = ?g k" and k: "k < length ns" by simp_all
  have "?f (Suc k) = (if sn_leased (?g k ! k) \<noteq> [] \<and> sn_leased (?g k ! k) = sn_leased (?g k ! i)
                  then (?g k)[k := (?g k ! k)\<lparr>sn_leased := [], sn_expire := 0\<rparr>] else ?g k)"
    using ih by simp
  also have "\<dots> = ?g (Suc k)"
  proof (rule nth_equalityI)
    fix j assume j: "j < length (if sn_leased (?g k ! k) \<noteq> [] \<and> sn_leased (?g k ! k) = sn_leased (?g k ! i)
                  then (?g k)[k := (?g k ! k)\<lparr>sn_leased := [], sn_expire := 0\<rparr>] else ?g k)"
    then have jl: "j < length ns" by (simp split: if_splits)
    show "(if sn_leased (?g k ! k) \<noteq> [] \<and> sn_leased (?g k ! k) = sn_leased (?g k ! i)
                  then (?g k)[k := (?g k ! k)\<lparr>sn_leased := [], sn_expire := 0\<rparr>] else ?g k) ! j = ?g (Suc k) ! j"
      using jl k assms(1,2) by (cases "j = k"; cases "k \<le> i") (auto simp: nth_upd)
  qed (simp split: if_splits)
  finally show ?case .
qed

text \<open>A dead rank does not free its whole group. When rank \<open>i\<close> dies while leased, the loop that
  returns the group frees the members at and before \<open>i\<close> in the table; it then compares with the
  holder it has just cleared, so the members behind \<open>i\<close> stay leased.\<close>

theorem heal_rank_group:
  assumes "i < length (sv_nodes s)" "holder s i \<noteq> []" "nd_type (sn_node (sv_nodes s ! i)) = ''rank''"
    "nd_state (sn_node (sv_nodes s ! i)) \<noteq> NODE_STATE_DEAD" "node_is_dead (sn_node (sv_nodes s ! i)) SV_HB_TIMEOUT now"
    "\<not> svc_auto_heal c"
  shows "\<exists>s'. heal_one c fork now i s = Ret s' \<and> length (sv_nodes s') = length (sv_nodes s)
    \<and> (\<forall>j<length (sv_nodes s). holder s' j = (if j \<le> i \<and> holder s j = holder s i then [] else holder s j))"
proof -
  let ?m = "mark_dead i s"
  let ?s' = "?m\<lparr>sv_nodes := free_group i (sv_nodes ?m)\<rparr>"
  have l: "sn_leased (sv_nodes ?m ! j) = sn_leased (sv_nodes s ! j)" for j
    using assms(1) by (cases "j = i") (simp_all add: mark_dead_def Let_def)
  have len: "length (sv_nodes ?m) = length (sv_nodes s)" by (simp add: mark_dead_def Let_def)
  have "heal_one c fork now i s = Ret ?s'"
    using assms(2-6) unfolding heal_one_def Let_def l by (simp add: holder_def split: if_splits)
  moreover have "holder ?s' j = (if j \<le> i \<and> holder s j = holder s i then [] else holder s j)" if "j < length (sv_nodes s)" for j
    using that assms(1,2) free_group_upto[of i "sv_nodes ?m" "length (sv_nodes ?m)"]
    by (auto simp: free_group_def l len holder_def)
  moreover have "length (sv_nodes ?s') = length (sv_nodes s)"
    using assms(1,2) free_group_upto[of i "sv_nodes ?m" "length (sv_nodes ?m)"]
    by (simp add: free_group_def l len holder_def)
  ultimately show ?thesis by blast
qed

text \<open>Two ranks in the hands of one server, the first of them silent.\<close>

definition pool2 :: supervisor where
  "pool2 = pool1\<lparr>sv_nodes := [\<lparr>sn_node = rank0, sn_notified = False, sn_leased = ''a'', sn_expire = 0\<rparr>,
                              \<lparr>sn_node = rank0\<lparr>nd_id := ''rank-1'', nd_last_hb := 100\<rparr>, sn_notified = False,
                               sn_leased = ''a'', sn_expire = 0\<rparr>]\<rparr>"

theorem heal_rank_group_witness:
  "\<exists>s'. heal_one cfg0 (\<lambda>_. 0) 100 0 pool2 = Ret s' \<and> length (sv_nodes s') = 2
    \<and> (\<forall>j<2. holder s' j = (if j \<le> 0 \<and> holder pool2 j = holder pool2 0 then [] else holder pool2 j))"
proof -
  have n: "length (sv_nodes pool2) = 2" "sn_node (sv_nodes pool2 ! 0) = rank0" "holder pool2 0 = ''a''"
    by (simp_all add: pool2_def holder_def)
  have d: "nd_type rank0 = ''rank''" "nd_state rank0 \<noteq> NODE_STATE_DEAD" "node_is_dead rank0 SV_HB_TIMEOUT 100"
    by (simp_all add: rank0_def zero_node_def node_states node_is_dead_def SV_HB_TIMEOUT_def)
  have c: "\<not> svc_auto_heal cfg0" by (simp add: cfg0_def)
  show ?thesis
    using heal_rank_group[of 0 pool2 100 cfg0 "\<lambda>_. 0", unfolded n(2), OF _ _ d c] n(1,3) by simp
qed

end
