(* ===== verification/Announce.thy ===== *)
theory Announce
  imports LeasePool
begin

text \<open>
  The supervisor and the routers: every server the supervisor holds ready has been announced,
  every dead one revoked, over any sequence of turns; and the announcement it sends makes the
  router's table list the server with its model and address.
\<close>

subsection \<open>Ready servers are announced, dead ones revoked\<close>

definition announced :: "sv_node \<Rightarrow> bool" where
  "announced n \<longleftrightarrow> (nd_type (sn_node n) = ''server'' \<longrightarrow>
     (nd_state (sn_node n) = NODE_STATE_READY \<longrightarrow> sn_notified n) \<and>
     (nd_state (sn_node n) = NODE_STATE_DEAD \<longrightarrow> \<not> sn_notified n))"

definition announced_but :: "nat set \<Rightarrow> sv_node list \<Rightarrow> bool" where
  "announced_but X ns \<longleftrightarrow> (\<forall>j<length ns. j \<notin> X \<longrightarrow> announced (ns ! j))"

named_theorems ann

lemma announced_upd [ann]: "announced_but X ns \<Longrightarrow> announced_but (insert i X) (ns[i := n])"
  by (auto simp: announced_but_def nth_upd)

lemma announced_close: "announced_but {i} ns \<Longrightarrow> (i < length ns \<Longrightarrow> announced (ns ! i)) \<Longrightarrow> announced_but {} ns"
  by (auto simp: announced_but_def)

lemma announced_app [ann]: "announced_but {} ns \<Longrightarrow> announced_but {length ns} (ns @ [n])"
  by (auto simp: announced_but_def nth_append)

lemma announced_map:
  "announced_but X ns \<Longrightarrow> (\<And>n. sn_node (f n) = sn_node n \<and> sn_notified (f n) = sn_notified n) \<Longrightarrow> announced_but X (map f ns)"
  by (auto simp: announced_but_def announced_def)

lemma announced_same:
  "announced_but X ns \<Longrightarrow> length ns' = length ns \<Longrightarrow>
   (\<And>j. j < length ns \<Longrightarrow> sn_node (ns' ! j) = sn_node (ns ! j) \<and> sn_notified (ns' ! j) = sn_notified (ns ! j)) \<Longrightarrow>
   announced_but X ns'"
  by (auto simp: announced_but_def announced_def)

lemma announced_sync:
  assumes "announced_but {i} (sv_nodes s)" "i < length (sv_nodes s)"
  shows "announced_but {} (sv_nodes (sync_server_to_router s i))"
proof -
  let ?n = "sv_nodes s ! i"
  consider (add) "nd_state (sn_node ?n) = NODE_STATE_READY" "\<not> sn_notified ?n"
    | (del) "nd_state (sn_node ?n) = NODE_STATE_DEAD" "sn_notified ?n"
    | (keep) "\<not> (nd_state (sn_node ?n) = NODE_STATE_READY \<and> \<not> sn_notified ?n)"
             "\<not> (nd_state (sn_node ?n) = NODE_STATE_DEAD \<and> sn_notified ?n)" by blast
  then obtain b where b: "sv_nodes (sync_server_to_router s i) = (sv_nodes s)[i := ?n\<lparr>sn_notified := b\<rparr>]"
    "announced (?n\<lparr>sn_notified := b\<rparr>)"
  proof cases
    case keep
    have "sv_nodes (sync_server_to_router s i) = (sv_nodes s)[i := ?n\<lparr>sn_notified := sn_notified ?n\<rparr>]"
      by (simp add: sync_server_to_router_def Let_def keep)
    then show ?thesis using keep by (intro that[of "sn_notified ?n"]) (auto simp: announced_def)
  next
    case add
    then show ?thesis by (intro that[of True]) (simp_all add: sync_server_to_router_def Let_def announced_def node_states)
  next
    case del
    then show ?thesis by (intro that[of False]) (simp_all add: sync_server_to_router_def Let_def announced_def node_states)
  qed
  show ?thesis using assms b by (auto simp: announced_but_def nth_upd)
qed

lemma find_node_lt: "find_node s x = Some i \<Longrightarrow> i < length (sv_nodes s)"
  by (simp add: find_node_def find_index_Some)

lemma heartbeat_announced:
  assumes "announced_but {} (sv_nodes s)"
  shows "announced_but {} (sv_nodes (fst (handle_heartbeat s peer args now)))"
proof -
  define n where "n = node_parse_hb args zero_node now"
  define t where "t s i = (let sv = sv_nodes s ! i;
             s = set_node s i (sv\<lparr>sn_node := (sn_node sv)\<lparr>nd_addr := fix_addr peer (nd_addr (sn_node sv))\<rparr>\<rparr>) in
         (if nd_type (sn_node (sv_nodes s ! i)) = ''server'' then sync_server_to_router s i else s))" for s i
  have t: "announced_but {} (sv_nodes (t s i))" if h: "announced_but {i} (sv_nodes s)" "i < length (sv_nodes s)" for s i
  proof -
    define u where "u = set_node s i ((sv_nodes s ! i)\<lparr>sn_node := (sn_node (sv_nodes s ! i))\<lparr>nd_addr := fix_addr peer (nd_addr (sn_node (sv_nodes s ! i)))\<rparr>\<rparr>)"
    have u: "announced_but {i} (sv_nodes u)" "i < length (sv_nodes u)"
      using announced_upd[OF h(1), of i] h(2) by (simp_all add: u_def)
    have "t s i = (if nd_type (sn_node (sv_nodes u ! i)) = ''server'' then sync_server_to_router u i else u)"
      unfolding t_def Let_def u_def by simp
    then show ?thesis
      using announced_sync[OF u] announced_close[OF u(1)] by (auto simp: announced_def)
  qed
  show ?thesis
  proof (cases "find_node s (nd_id n)")
    case (Some i)
    let ?s = "set_node s i ((sv_nodes s ! i)\<lparr>sn_node := merge_hb (sn_node (sv_nodes s ! i)) n\<rparr>)"
    have "fst (handle_heartbeat s peer args now) = t ?s i"
      by (simp add: handle_heartbeat_def Let_def t_def Some n_def[symmetric])
    then show ?thesis using t[of i ?s] announced_upd[OF assms, of i] find_node_lt[OF Some] by simp
  next
    case None
    let ?s = "s\<lparr>sv_nodes := sv_nodes s @ [\<lparr>sn_node = n, sn_notified = False, sn_leased = [], sn_expire = 0\<rparr>]\<rparr>"
    show ?thesis
    proof (cases "length (sv_nodes s) \<ge> SV_MAX_NODES")
      case True
      then show ?thesis using assms by (simp add: handle_heartbeat_def Let_def None n_def[symmetric])
    next
      case False
      then have "fst (handle_heartbeat s peer args now) = t ?s (length (sv_nodes s))"
        by (simp add: handle_heartbeat_def Let_def t_def None n_def[symmetric])
      then show ?thesis using t[of "length (sv_nodes s)" ?s] announced_app[OF assms] by simp
    qed
  qed
qed

definition keeps_nodes :: "sv_node list \<Rightarrow> sv_node list \<Rightarrow> bool" where
  "keeps_nodes ns ns' \<longleftrightarrow> length ns' = length ns \<and>
     (\<forall>j<length ns. sn_node (ns' ! j) = sn_node (ns ! j) \<and> sn_notified (ns' ! j) = sn_notified (ns ! j))"

lemma keeps_nodes_fold:
  "(\<And>j ns. keeps_nodes ns (f j ns)) \<Longrightarrow> keeps_nodes ns (fold f js ns)"
proof (induction js arbitrary: ns)
  case (Cons j js)
  then have "keeps_nodes (f j ns) (fold f js (f j ns))" "keeps_nodes ns (f j ns)" by auto
  then show ?case by (simp add: keeps_nodes_def)
qed (simp add: keeps_nodes_def)

lemma free_group_keeps: "keeps_nodes ns (free_group i ns)"
  unfolding free_group_def by (rule keeps_nodes_fold) (simp add: keeps_nodes_def nth_upd)

lemma announced_keeps: "announced_but X ns \<Longrightarrow> keeps_nodes ns ns' \<Longrightarrow> announced_but X ns'"
  by (simp add: announced_but_def announced_def keeps_nodes_def)

lemma announced_free_leases: "announced_but X ns \<Longrightarrow> announced_but X (free_leases srv ns)"
  by (erule announced_keeps) (simp add: free_leases_def keeps_nodes_def)

lemma heal_one_announced:
  assumes "announced_but {} (sv_nodes s)" "heal_one c fork now i s = Ret s'"
  shows "announced_but {} (sv_nodes s')"
proof -
  let ?nd = "sn_node (sv_nodes s ! i)"
  let ?m = "mark_dead i s"
  let ?fs = "\<lambda>s. s\<lparr>sv_nodes := free_leases (nd_id ?nd) (sv_nodes s)\<rparr>"
  let ?fg = "\<lambda>s. s\<lparr>sv_nodes := free_group i (sv_nodes s)\<rparr>"
  have m: "announced_but {i} (sv_nodes ?m)" using announced_upd[OF assms(1), of i] by (simp add: mark_dead_def Let_def)
  have srv: "announced_but {} (sv_nodes (?fs (sync_server_to_router ?m i)))"
  proof (cases "i < length (sv_nodes s)")
    case True
    then have "i < length (sv_nodes ?m)" by (simp add: mark_dead_def Let_def)
    then show ?thesis using announced_free_leases[OF announced_sync[OF m]] by simp
  next
    case False
    then have "sv_nodes ?m = sv_nodes s" by (simp add: mark_dead_def Let_def list_update_beyond)
    moreover obtain b where "sv_nodes (sync_server_to_router ?m i) = (sv_nodes ?m)[i := (sv_nodes ?m ! i)\<lparr>sn_notified := b\<rparr>]"
      using sync_nodes by blast
    ultimately show ?thesis using False announced_free_leases[OF assms(1)] by (simp add: list_update_beyond)
  qed
  have rk: "announced_but {} (sv_nodes ?m)" if "nd_type ?nd = ''rank''"
    using m by (rule announced_close) (use that in \<open>simp add: mark_dead_def Let_def announced_def\<close>)
  have rg: "announced_but {} (sv_nodes (?fg ?m))" if "nd_type ?nd = ''rank''"
    using announced_keeps[OF rk[OF that] free_group_keeps] by simp
  show ?thesis
    using assms srv rk rg unfolding heal_one_def Let_def
    by (auto split: if_splits dest!: spawn_server_nodes spawn_rank_nodes)
qed

lemma heal_loop_announced:
  "announced_but {} (sv_nodes s) \<Longrightarrow> heal_loop c fork now is s = Ret s' \<Longrightarrow> announced_but {} (sv_nodes s')"
proof (induction "is" arbitrary: s)
  case (Cons i "is")
  then obtain t where t: "heal_one c fork now i s = Ret t" "heal_loop c fork now is t = Ret s'"
    by (auto simp: run_bind_Ret)
  show ?case by (rule Cons.IH[OF heal_one_announced[OF Cons.prems(1) t(1)] t(2)])
qed simp

lemma sv_tick_announced:
  assumes "announced_but {} (sv_nodes s)" "sv_tick c fork now s = Ret s'"
  shows "announced_but {} (sv_nodes s')"
proof (cases "now - sv_last_check s \<ge> 2")
  case True
  then obtain t where t: "heal_dead c fork now (s\<lparr>sv_last_check := now\<rparr>) = Ret t" "s' = lease_expire_check t now"
    using assms by (auto simp: sv_tick_def run_bind_Ret)
  have "announced_but {} (sv_nodes t)"
    using heal_loop_announced[OF _ t(1)[unfolded heal_dead_def]] assms(1) by simp
  moreover have "keeps_nodes (sv_nodes t) (sv_nodes s')" by (simp add: t(2) lease_expire_check_def keeps_nodes_def)
  ultimately show ?thesis by (rule announced_keeps)
next
  case False
  then show ?thesis using assms by (simp add: sv_tick_def)
qed

lemma lease_keeps_nodes: "handle_lease s args now = Ret (s', out) \<Longrightarrow> keeps_nodes (sv_nodes s) (sv_nodes s')"
proof -
  assume h: "handle_lease s args now = Ret (s', out)"
  consider "s' = s" | model e where "s' = s\<lparr>sv_nodes := map (take_lease model (first_word args) e) (sv_nodes s)\<rparr>"
    using h unfolding handle_lease_def Let_def by (auto simp: run_bind_Ret split: option.splits list.splits if_splits)
  then show ?thesis by cases (simp_all add: keeps_nodes_def take_lease_def)
qed

lemma turn_announced:
  assumes "announced_but {} (sv_nodes s)"
  shows "announced_but {} (sv_nodes (turn c fork op s))"
proof (cases "sv_turn c fork (fst op) (snd op) s")
  case (Ret r)
  obtain s' out where r: "r = (s', out)" by (cases r)
  obtain t where t: "(case fst op of None \<Rightarrow> Ret (s, []) | Some (peer, input) \<Rightarrow>
      (case frame_recv input of None \<Rightarrow> Ret (s, []) | Some (f, _) \<Rightarrow> handle_frame c fork s peer f (snd op))) = Ret (t, out)"
      "sv_tick c fork (snd op) t = Ret s'"
    using Ret r by (auto simp: sv_turn_def run_bind_Ret)
  have hf: "announced_but {} (sv_nodes t)" if "handle_frame c fork s peer f (snd op) = Ret (t, out)" for peer f
    using that
  proof (cases rule: handle_frame_cases)
    case 1
    then show ?thesis using heartbeat_announced[OF assms, of peer "fr_args f" "snd op"] by (metis fst_conv)
  next
    case 2
    then show ?thesis using assms by simp
  next
    case 3
    then show ?thesis by (rule announced_keeps[OF assms lease_keeps_nodes])
  next
    case 4
    have "announced_but {} (sv_nodes (fst (handle_release s (fr_args f))))"
      using announced_free_leases[OF assms] by (simp add: handle_release_def)
    then show ?thesis using 4 by (metis fst_conv)
  next
    case 5
    then have "sv_nodes t = sv_nodes s"
      by (auto simp: handle_scale_def split: if_splits dest: spawn_ranks_nodes)
    then show ?thesis using assms by simp
  qed
  have "announced_but {} (sv_nodes t)"
    using t(1) assms by (auto split: option.splits prod.splits dest: hf)
  then show ?thesis using sv_tick_announced[OF _ t(2)] Ret r by (simp add: turn_def)
qed (use assms in \<open>simp_all add: turn_def\<close>)

lemma turns_announced:
  "announced_but {} (sv_nodes s) \<Longrightarrow> announced_but {} (sv_nodes (fold (turn c fork) ops s))"
  by (induction ops arbitrary: s) (simp_all add: turn_announced)

subsection \<open>What a router has been told\<close>

text \<open>Where the routers are reached.\<close>

definition ends :: "node list \<Rightarrow> (string \<times> u16) list" where
  "ends rs = concat (map (\<lambda>rn. case strchr (nd_addr rn) CHR '':'' of
       None \<Rightarrow> []
     | Some colon \<Rightarrow> [(take 127 (takeWhile (\<lambda>c. c \<noteq> CHR '':'') (nd_addr rn)), word_of_int (atoi (tl colon)))]) rs)"

text \<open>What a frame says about the server \<open>x\<close>: added, removed, or nothing new; and what a router has
  last heard.\<close>

definition hear :: "string \<Rightarrow> bytes \<Rightarrow> bool option \<Rightarrow> bool option" where
  "hear x m b =
     (if starts (''SERVER_ADD v='' @ PROTO_VERSION_STR @ SP # x @ [SP]) m then Some True
      else if m = frame_send ''SERVER_DEL'' x then Some False else b)"

fun told_step :: "string \<Rightarrow> u16 \<Rightarrow> string \<Rightarrow> bool option \<Rightarrow> sv_act \<Rightarrow> bool option" where
  "told_step h p x b (Notify h' p' (Some m)) = (if h' = h \<and> p' = p then hear x m b else b)"
| "told_step h p x b a = b"

definition told :: "string \<Rightarrow> u16 \<Rightarrow> string \<Rightarrow> sv_act list \<Rightarrow> bool option" where
  "told h p x acts = foldl (told_step h p x) None acts"

lemma hear_idem [simp]: "hear x m (hear x m b) = hear x m b"
  by (simp add: hear_def)

lemma notify_acts:
  "\<exists>as. sv_acts (notify_routers s cmd a) = sv_acts s @ as \<and> map (\<lambda>x. case x of Notify h p m \<Rightarrow> (h, p)) as = ends (sv_routers s) \<and>
     (\<forall>x\<in>set as. \<exists>h p. x = Notify h p (Some (frame_send cmd a)) \<or> x = Notify h p None)
   \<and> sv_routers (notify_routers s cmd a) = sv_routers s"
proof -
  let ?f = "\<lambda>rn s. case strchr (nd_addr rn) CHR '':'' of None \<Rightarrow> s
      | Some colon \<Rightarrow> act (Notify (take 127 (takeWhile (\<lambda>c. c \<noteq> CHR '':'') (nd_addr rn))) (word_of_int (atoi (tl colon)))
          (if length (sv_acts s) \<in> set (sv_down s) then None else Some (frame_send cmd a))) s"
  have "\<exists>as. sv_acts (fold ?f rs t) = sv_acts t @ as \<and> map (\<lambda>x. case x of Notify h p m \<Rightarrow> (h, p)) as = ends rs \<and>
     (\<forall>x\<in>set as. \<exists>h p. x = Notify h p (Some (frame_send cmd a)) \<or> x = Notify h p None) \<and>
     sv_routers (fold ?f rs t) = sv_routers t" for rs t
  proof (induction rs arbitrary: t)
    case Nil
    then show ?case by (simp add: ends_def)
  next
    case (Cons rn rs)
    show ?case
    proof (cases "strchr (nd_addr rn) CHR '':''")
      case None
      then show ?thesis using Cons[of t] by (simp add: ends_def)
    next
      case (Some colon)
      define n where "n = Notify (take 127 (takeWhile (\<lambda>c. c \<noteq> CHR '':'') (nd_addr rn))) (word_of_int (atoi (tl colon)))
          (if length (sv_acts t) \<in> set (sv_down t) then None else Some (frame_send cmd a))"
      have st: "?f rn t = act n t" using Some by (simp add: n_def)
      obtain as where as: "sv_acts (fold ?f rs (act n t)) = sv_acts (act n t) @ as" "map (\<lambda>x. case x of Notify h p m \<Rightarrow> (h, p)) as = ends rs"
        "\<forall>x\<in>set as. \<exists>h p. x = Notify h p (Some (frame_send cmd a)) \<or> x = Notify h p None"
        "sv_routers (fold ?f rs (act n t)) = sv_routers (act n t)" using Cons[of "act n t"] by blast
      have "fold ?f (rn # rs) t = fold ?f rs (act n t)" using st by simp
      then show ?thesis using as Some
        by (intro exI[of _ "n # as"]) (auto simp: act_def ends_def n_def)
    qed
  qed
  then show ?thesis unfolding notify_routers_def by blast
qed

lemma told_notify:
  assumes "\<forall>x\<in>set as. \<exists>h p. x = Notify h p (Some m) \<or> x = Notify h p None" "Notify h p None \<notin> set as"
  shows "foldl (told_step h p x) b as = (if (h, p) \<in> set (map (\<lambda>x. case x of Notify h p m \<Rightarrow> (h, p)) as) then hear x m b else b)"
  using assms
proof (induction as arbitrary: b)
  case (Cons y as)
  obtain h' p' where y: "y = Notify h' p' (Some m) \<or> y = Notify h' p' None" using Cons.prems(1) by auto
  have IH: "foldl (told_step h p x) c as = (if (h, p) \<in> set (map (\<lambda>x. case x of Notify h p m \<Rightarrow> (h, p)) as) then hear x m c else c)" for c
    using Cons by auto
  show ?case
  proof (cases "h' = h \<and> p' = p")
    case True
    then have "y = Notify h p (Some m)" using y Cons.prems(2) by auto
    then show ?thesis using IH[of "hear x m b"] by simp
  next
    case False
    then have "told_step h p x b y = b" using y by auto
    then show ?thesis using IH[of b] y False by auto
  qed
qed simp

text \<open>Ids are words: the parts of a frame about another server never match.\<close>

lemma word_start: "SP \<notin> set x \<Longrightarrow> SP \<notin> set y \<Longrightarrow> starts (x @ [SP]) (y @ SP # r) \<longleftrightarrow> x = y"
proof (induction x arbitrary: y)
  case Nil
  then show ?case by (cases y) auto
next
  case (Cons c x)
  then show ?case by (cases y) auto
qed

lemma starts_shift: "starts (k @ x) (k @ s) \<longleftrightarrow> starts x s"
  by (induction k) auto

definition add_frame :: "string \<Rightarrow> string \<Rightarrow> bytes" where
  "add_frame y r = frame_send ''SERVER_ADD'' (snprintf_s 512 (y @ '' model='' @ r))"

lemma hear_add:
  assumes "SP \<notin> set x" "SP \<notin> set y" "length y \<le> 127"
  shows "hear x (add_frame y r) b = (if x = y then Some True else b)"
proof -
  have "snprintf_s 512 (y @ '' model='' @ r) = y @ SP # take (510 - length y) (''model='' @ r)"
    using assms(3) by (simp add: snprintf_s_def take_Cons')
  then have m: "add_frame y r = (''SERVER_ADD v='' @ PROTO_VERSION_STR @ [SP]) @ y @ SP # take (510 - length y) (''model='' @ r) @ [LF]"
    by (simp add: add_frame_def frame_send_def)
  have "starts ((''SERVER_ADD v='' @ PROTO_VERSION_STR @ [SP]) @ x @ [SP]) (add_frame y r) \<longleftrightarrow> x = y"
    unfolding m starts_shift using word_start[OF assms(1,2)] by simp
  moreover have "add_frame y r \<noteq> frame_send ''SERVER_DEL'' x" by (simp add: m frame_send_def)
  ultimately show ?thesis by (simp add: hear_def)
qed

lemma hear_del: "hear x (frame_send ''SERVER_DEL'' y) b = (if x = y then Some False else b)"
  by (auto simp: hear_def frame_send_def split: if_splits)

lemma hear_update: "hear x (frame_send ''SERVER_UPDATE'' a) b = b"
  by (simp add: hear_def frame_send_def)

text \<open>The servers marked as announced are those of which each router was last told that they are
  there; a router that could not be reached at some time is not considered.\<close>

definition tag :: "sv_node \<Rightarrow> string \<times> bool" where
  "tag n = (nd_id (sn_node n), sn_notified n)"

definition heard :: "node list \<Rightarrow> supervisor \<Rightarrow> bool" where
  "heard R s \<longleftrightarrow> sv_routers s = R \<and> distinct (map fst (map tag (sv_nodes s))) \<and>
     (\<forall>x\<in>set (map fst (map tag (sv_nodes s))). SP \<notin> set x \<and> length x \<le> 127) \<and>
     (\<forall>h p x. (h, p) \<in> set (ends R) \<and> Notify h p None \<notin> set (sv_acts s) \<and> SP \<notin> set x \<longrightarrow>
        (told h p x (sv_acts s) = Some True \<longleftrightarrow> (x, True) \<in> set (map tag (sv_nodes s))))"

text \<open>Steps that tell the routers nothing and keep ids and marks.\<close>

definition calm :: "supervisor \<Rightarrow> supervisor \<Rightarrow> bool" where
  "calm s s' \<longleftrightarrow> sv_routers s' = sv_routers s \<and> map tag (sv_nodes s') = map tag (sv_nodes s) \<and>
     (\<exists>as. sv_acts s' = sv_acts s @ as \<and> (\<forall>h p m. Notify h p m \<notin> set as))"

lemma told_silent: "\<forall>h p m. Notify h p m \<notin> set as \<Longrightarrow> foldl (told_step h p x) b as = b"
proof (induction as arbitrary: b)
  case (Cons a as)
  then show ?case by (cases a) auto
qed simp

lemma calm_heard: "calm s s' \<Longrightarrow> heard R s \<Longrightarrow> heard R s'"
  unfolding calm_def heard_def told_def by (auto simp: told_silent)

lemma calm_refl [simp]: "calm s s"
  by (simp add: calm_def)

lemma calm_trans: "calm s t \<Longrightarrow> calm t u \<Longrightarrow> calm s u"
  unfolding calm_def by fastforce

lemma calm_nodes: "map tag ns = map tag (sv_nodes s) \<Longrightarrow> calm s (s\<lparr>sv_nodes := ns\<rparr>)"
  by (simp add: calm_def)

lemma calm_set: "tag n = tag (sv_nodes s ! i) \<Longrightarrow> calm s (set_node s i n)"
  unfolding set_node_def
  by (intro calm_nodes) (cases "i < length (sv_nodes s)"; simp add: map_update list_update_beyond list_update_same_conv)

lemma calm_keeps: "keeps_nodes (sv_nodes s) ns \<Longrightarrow> calm s (s\<lparr>sv_nodes := ns\<rparr>)"
  by (rule calm_nodes) (simp add: keeps_nodes_def tag_def list_eq_iff_nth_eq)

lemma sync_heard:
  assumes "heard R s" "i < length (sv_nodes s)"
  shows "heard R (sync_server_to_router s i)"
proof -
  let ?n = "sv_nodes s ! i" and ?x = "nd_id (sn_node (sv_nodes s ! i))"
  have ids: "SP \<notin> set ?x" "length ?x \<le> 127"
    using assms by (auto simp: heard_def tag_def)
  have other: "?x \<noteq> fst (tag (sv_nodes s ! j))" if "j < length (sv_nodes s)" "j \<noteq> i" for j
    using assms that by (auto simp: heard_def tag_def nth_eq_iff_index_eq[symmetric] distinct_conv_nth)
  have tags: "(x, True) \<in> set (map tag ((sv_nodes s)[i := ?n\<lparr>sn_notified := v\<rparr>])) \<longleftrightarrow>
      (if x = ?x then v else (x, True) \<in> set (map tag (sv_nodes s)))" for x v
  proof -
    have mem: "(x, True) \<in> set (map tag ns) \<longleftrightarrow> (\<exists>j<length ns. nd_id (sn_node (ns ! j)) = x \<and> sn_notified (ns ! j))" for ns
      by (auto simp: tag_def image_iff) (auto simp: in_set_conv_nth)
    show ?thesis
    proof (cases "x = ?x")
      case True
      have o: "j = i" if "j < length (sv_nodes s)" "nd_id (sn_node (sv_nodes s ! j)) = ?x" for j
        using other[OF that(1)] that(2) by (auto simp: tag_def)
      show ?thesis unfolding mem using True assms(2) by (auto simp: nth_list_update dest: o)
    next
      case False
      then show ?thesis unfolding mem using assms(2) by (auto simp: nth_list_update split: if_splits)
    qed
  qed
  have keep: "map fst (map tag ((sv_nodes s)[i := ?n\<lparr>sn_notified := v\<rparr>])) = map fst (map tag (sv_nodes s))" for v
    using assms(2) by (simp add: list_eq_iff_nth_eq nth_list_update tag_def)
  have step: "heard R s'" if s': "sv_nodes s' = (sv_nodes s)[i := ?n\<lparr>sn_notified := v\<rparr>]"
      "sv_routers s' = sv_routers t" "sv_acts s' = sv_acts t" "t = notify_routers s cmd a"
      "\<And>x b. SP \<notin> set x \<Longrightarrow> hear x (frame_send cmd a) b = (if x = ?x then (if cmd = ''SERVER_UPDATE'' then b else Some v) else b)"
      "cmd = ''SERVER_UPDATE'' \<Longrightarrow> v = sn_notified ?n" for s' t v cmd a
  proof -
    obtain as where as: "sv_acts t = sv_acts s @ as" "map (\<lambda>x. case x of Notify h p m \<Rightarrow> (h, p)) as = ends (sv_routers s)"
      "\<forall>x\<in>set as. \<exists>h p. x = Notify h p (Some (frame_send cmd a)) \<or> x = Notify h p None" "sv_routers t = sv_routers s"
      using notify_acts[of s cmd a] s'(4) by blast
    have "told h p x (sv_acts s') = Some True \<longleftrightarrow> (x, True) \<in> set (map tag (sv_nodes s'))"
      if h: "(h, p) \<in> set (ends R)" "Notify h p None \<notin> set (sv_acts s')" "SP \<notin> set x" for h p x
    proof -
      have R: "sv_routers s = R" using assms(1) by (simp add: heard_def)
      have "told h p x (sv_acts s') = hear x (frame_send cmd a) (told h p x (sv_acts s))"
        using told_notify[OF as(3), of h p x "told h p x (sv_acts s)"] h as(1,2) s'(3) R by (simp add: told_def)
      moreover have "told h p x (sv_acts s) = Some True \<longleftrightarrow> (x, True) \<in> set (map tag (sv_nodes s))"
        using assms(1) h as(1) s'(3) unfolding heard_def by auto
      moreover have "(?x, True) \<in> set (map tag (sv_nodes s)) \<longleftrightarrow> sn_notified ?n"
        using tags[of ?x "sn_notified ?n"] assms(2) by simp
      ultimately show ?thesis using s'(5)[OF h(3), of "told h p x (sv_acts s)"] s'(6) tags[of x v] unfolding s'(1) by auto
    qed
    then show ?thesis using assms(1) keep[of v] as(4) s'(1,2) unfolding heard_def by simp
  qed
  consider (add) "nd_state (sn_node ?n) = NODE_STATE_READY" "\<not> sn_notified ?n"
    | (del) "nd_state (sn_node ?n) = NODE_STATE_DEAD" "sn_notified ?n"
    | (upd) "\<not> (nd_state (sn_node ?n) = NODE_STATE_DEAD \<and> sn_notified ?n)" "sn_notified ?n"
    | (none) "\<not> (nd_state (sn_node ?n) = NODE_STATE_READY \<and> \<not> sn_notified ?n)" "\<not> sn_notified ?n" by blast
  then show ?thesis
  proof cases
    case add
    let ?a = "snprintf_s 512 (?x @ '' model='' @ nd_model (sn_node ?n) @ '' leader='' @ nd_addr (sn_node ?n))"
    have "sync_server_to_router s i = set_node (notify_routers s ''SERVER_ADD'' ?a) i (?n\<lparr>sn_notified := True\<rparr>)"
      using add by (simp add: sync_server_to_router_def Let_def)
    moreover have "hear x (frame_send ''SERVER_ADD'' ?a) b = (if x = ?x then Some True else b)" if "SP \<notin> set x" for x b
      using hear_add[OF that ids] by (simp add: add_frame_def)
    ultimately show ?thesis by (intro step[of _ True _ "''SERVER_ADD''" ?a]) (simp_all add: set_node_def)
  next
    case del
    then have "sync_server_to_router s i = set_node (notify_routers s ''SERVER_DEL'' ?x) i (?n\<lparr>sn_notified := False\<rparr>)"
      by (simp add: sync_server_to_router_def Let_def node_states)
    then show ?thesis by (intro step[of _ False _ "''SERVER_DEL''" ?x]) (simp_all add: set_node_def hear_del)
  next
    case upd
    then obtain a where "sync_server_to_router s i = notify_routers s ''SERVER_UPDATE'' a"
      by (simp add: sync_server_to_router_def Let_def)
    then show ?thesis using upd(1) by (intro step[of _ "sn_notified ?n" _ "''SERVER_UPDATE''" a]) (simp_all add: hear_update)
  next
    case none
    then have "sync_server_to_router s i = s" by (simp add: sync_server_to_router_def Let_def)
    then show ?thesis using assms(1) by simp
  qed
qed

lemma calm_spawn: "calm s (spawn fork s cmd nid)"
  by (auto simp: calm_def spawn_def act_def spawn_record_def Let_def split: option.split)

lemma calm_kill: "calm s (spawn_kill s nid)"
  by (auto simp: calm_def spawn_kill_def act_def Let_def split: option.split)

lemma calm_spawn_rank: "supervisor_spawn_rank c fork mi r s = Ret s' \<Longrightarrow> calm s s'"
  by (auto simp: supervisor_spawn_rank_def calm_spawn split: if_splits)

lemma calm_spawn_server: "supervisor_spawn_server c fork mi s = Ret s' \<Longrightarrow> calm s s'"
  by (auto simp: supervisor_spawn_server_def calm_spawn split: if_splits)

lemma calm_spawn_ranks: "spawn_ranks c fork mi rs s = Ret s' \<Longrightarrow> calm s s'"
proof (induction rs arbitrary: s)
  case (Cons r rs)
  then show ?case using calm_trans[OF calm_spawn_rank] by (auto simp: run_bind_Ret)
qed simp

lemma calm_leases: "calm s (s\<lparr>sv_nodes := free_leases srv (sv_nodes s)\<rparr>)"
  by (rule calm_keeps) (simp add: free_leases_def keeps_nodes_def)

lemma calm_mark: "calm s (mark_dead i s)"
  unfolding mark_dead_def Let_def by (rule calm_set) (simp add: tag_def)

lemma heal_one_heard:
  assumes "heard R s" "i < length (sv_nodes s)" "heal_one c fork now i s = Ret s'"
  shows "heard R s'"
proof -
  let ?nd = "sn_node (sv_nodes s ! i)" and ?m = "mark_dead i s"
  have m: "heard R ?m" "i < length (sv_nodes ?m)"
    using calm_heard[OF calm_mark assms(1)] assms(2) by (simp_all add: mark_dead_def Let_def)
  let ?s1 = "sync_server_to_router ?m i"
  have srv: "heard R (?s1\<lparr>sv_nodes := free_leases (nd_id ?nd) (sv_nodes ?s1)\<rparr>)"
    using calm_heard[OF calm_leases sync_heard[OF m]] .
  have rk: "heard R (if sn_leased (sv_nodes ?m ! i) \<noteq> [] then ?m\<lparr>sv_nodes := free_group i (sv_nodes ?m)\<rparr> else ?m)"
    using calm_heard[OF calm_keeps[OF free_group_keeps] m(1)] m(1) by simp
  have heal: "heard R u" if "heard R t" "calm (spawn_kill t x) u" for t u x
    using calm_heard[OF calm_trans[OF calm_kill that(2)] that(1)] .
  show ?thesis
    using assms(1,3) srv rk heal[OF srv calm_spawn_server] heal[OF rk calm_spawn_rank]
    unfolding heal_one_def Let_def by (auto split: if_splits)
qed

lemma heal_loop_heard:
  "heard R s \<Longrightarrow> \<forall>i\<in>set is. i < length (sv_nodes s) \<Longrightarrow> heal_loop c fork now is s = Ret s' \<Longrightarrow> heard R s'"
proof (induction "is" arbitrary: s)
  case (Cons i "is")
  then obtain t where t: "heal_one c fork now i s = Ret t" "heal_loop c fork now is t = Ret s'"
    by (auto simp: run_bind_Ret)
  have "length (sv_nodes s) \<le> length (sv_nodes t)" using heal_one_frees[OF t(1)] by (simp add: only_frees_def)
  then show ?case using Cons.IH[OF heal_one_heard[OF Cons.prems(1) _ t(1)] _ t(2)] Cons.prems(2) by fastforce
qed simp

lemma sv_tick_heard:
  assumes "heard R s" "sv_tick c fork now s = Ret s'"
  shows "heard R s'"
proof (cases "now - sv_last_check s \<ge> 2")
  case True
  then obtain t where t: "heal_dead c fork now (s\<lparr>sv_last_check := now\<rparr>) = Ret t" "s' = lease_expire_check t now"
    using assms by (auto simp: sv_tick_def run_bind_Ret)
  have "heard R (s\<lparr>sv_last_check := now\<rparr>)" using assms(1) by (simp add: heard_def)
  then have "heard R t" using heal_loop_heard[OF _ _ t(1)[unfolded heal_dead_def]] by simp
  moreover have "calm t s'" unfolding t(2) lease_expire_check_def by (rule calm_keeps) (simp add: keeps_nodes_def)
  ultimately show ?thesis using calm_heard by blast
next
  case False
  then show ?thesis using assms by (simp add: sv_tick_def)
qed

lemma node_parse_id: "SP \<notin> set (nd_id (node_parse_hb args m now)) \<and> length (nd_id (node_parse_hb args m now)) \<le> 127"
proof -
  have "nd_id (node_parse_hb args m now) = take 127 (word_sp args)"
    by (simp add: node_parse_hb_def Let_def split: option.split)
  moreover have "SP \<notin> set (take 127 (word_sp args))"
    by (auto simp: word_sp_def dest!: in_set_takeD set_takeWhileD)
  ultimately show ?thesis by simp
qed

lemma heard_app:
  assumes "heard R s" "find_node s (nd_id n) = None" "SP \<notin> set (nd_id n)" "length (nd_id n) \<le> 127"
  shows "heard R (s\<lparr>sv_nodes := sv_nodes s @ [\<lparr>sn_node = n, sn_notified = False, sn_leased = [], sn_expire = 0\<rparr>]\<rparr>)"
  using assms by (auto simp: heard_def tag_def find_node_def find_index_None in_set_conv_nth)

lemma heartbeat_heard:
  assumes "heard R s"
  shows "heard R (fst (handle_heartbeat s peer args now))"
proof -
  define n where "n = node_parse_hb args zero_node now"
  define t where "t s i = (let sv = sv_nodes s ! i;
             s = set_node s i (sv\<lparr>sn_node := (sn_node sv)\<lparr>nd_addr := fix_addr peer (nd_addr (sn_node sv))\<rparr>\<rparr>) in
         (if nd_type (sn_node (sv_nodes s ! i)) = ''server'' then sync_server_to_router s i else s))" for s i
  have t: "heard R (t s i)" if h: "heard R s" "i < length (sv_nodes s)" for s i
  proof -
    define u where "u = set_node s i ((sv_nodes s ! i)\<lparr>sn_node := (sn_node (sv_nodes s ! i))\<lparr>nd_addr := fix_addr peer (nd_addr (sn_node (sv_nodes s ! i)))\<rparr>\<rparr>)"
    have "calm s u" unfolding u_def by (rule calm_set) (simp add: tag_def)
    then have u: "heard R u" "i < length (sv_nodes u)" using calm_heard h by (auto simp: u_def)
    have "t s i = u \<or> t s i = sync_server_to_router u i" unfolding t_def Let_def u_def by auto
    then show ?thesis using u sync_heard[OF u] by auto
  qed
  show ?thesis
  proof (cases "find_node s (nd_id n)")
    case (Some i)
    let ?s = "set_node s i ((sv_nodes s ! i)\<lparr>sn_node := merge_hb (sn_node (sv_nodes s ! i)) n\<rparr>)"
    have "fst (handle_heartbeat s peer args now) = t ?s i"
      by (simp add: handle_heartbeat_def Let_def t_def Some n_def[symmetric])
    moreover have "calm s ?s" by (rule calm_set) (simp add: tag_def merge_hb_def Let_def)
    ultimately show ?thesis using t[of ?s i] calm_heard assms find_node_lt[OF Some] by simp
  next
    case None
    let ?s = "s\<lparr>sv_nodes := sv_nodes s @ [\<lparr>sn_node = n, sn_notified = False, sn_leased = [], sn_expire = 0\<rparr>]\<rparr>"
    show ?thesis
    proof (cases "length (sv_nodes s) \<ge> SV_MAX_NODES")
      case True
      then show ?thesis using assms by (simp add: handle_heartbeat_def Let_def None n_def[symmetric])
    next
      case False
      then have "fst (handle_heartbeat s peer args now) = t ?s (length (sv_nodes s))"
        by (simp add: handle_heartbeat_def Let_def t_def None n_def[symmetric])
      then show ?thesis using t[of ?s "length (sv_nodes s)"] heard_app[OF assms None] node_parse_id[of args zero_node now]
        by (simp add: n_def)
    qed
  qed
qed

lemma turn_heard:
  assumes "heard R s"
  shows "heard R (turn c fork op s)"
proof (cases "sv_turn c fork (fst op) (snd op) s")
  case (Ret r)
  obtain s' out where r: "r = (s', out)" by (cases r)
  obtain t where t: "(case fst op of None \<Rightarrow> Ret (s, []) | Some (peer, input) \<Rightarrow>
      (case frame_recv input of None \<Rightarrow> Ret (s, []) | Some (f, _) \<Rightarrow> handle_frame c fork s peer f (snd op))) = Ret (t, out)"
      "sv_tick c fork (snd op) t = Ret s'"
    using Ret r by (auto simp: sv_turn_def run_bind_Ret)
  have hf: "heard R t" if h: "handle_frame c fork s peer f (snd op) = Ret (t, out)" for peer f
  proof -
    consider "t = fst (handle_heartbeat s peer (fr_args f) (snd op))" | "calm s t"
      | "handle_lease s (fr_args f) (snd op) = Ret (t, out)"
    proof -
      have c1: "calm s (fst (handle_release s (fr_args f)))" by (simp add: handle_release_def calm_leases)
      have c2: "calm s u" if "handle_scale c fork s (fr_args f) = Ret u" for u
        using that by (auto simp: handle_scale_def split: if_splits dest: calm_spawn_ranks)
      have c3: "calm s (s\<lparr>sv_quit := True\<rparr>)" by (simp add: calm_def)
      show ?thesis using that if_arms[OF h[unfolded handle_frame_def]] c1 c2 c3
        by (auto simp only: run_bind_Ret run.inject prod.inject simp_thms calm_refl fst_conv)
    qed
    then show ?thesis
    proof cases
      case 1
      then show ?thesis using heartbeat_heard[OF assms] by simp
    next
      case 2
      then show ?thesis using calm_heard assms by blast
    next
      case 3
      then consider "t = s" | ns where "t = s\<lparr>sv_nodes := ns\<rparr>"
        unfolding handle_lease_def Let_def by (auto simp: run_bind_Ret split: option.splits list.splits if_splits)
      then have "calm s t"
      proof cases
        case (2 ns)
        then show ?thesis using calm_keeps[of s ns] lease_keeps_nodes[OF 3] by simp
      qed simp
      then show ?thesis using calm_heard assms by blast
    qed
  qed
  have "heard R t" using t(1) assms by (auto split: option.splits prod.splits dest: hf)
  then show ?thesis using sv_tick_heard[OF _ t(2)] Ret r by (simp add: turn_def)
qed (use assms in \<open>simp_all add: turn_def\<close>)

lemma turns_heard: "heard R s \<Longrightarrow> heard R (fold (turn c fork) ops s)"
  by (induction ops arbitrary: s) (simp_all add: turn_heard)

text \<open>C13: The routers are kept informed. Starting from an empty table, after any sequence of turns of the
  supervisor -- heartbeats, leases, expiries, deaths and restarts in any order --, take a router that
  could be reached whenever the supervisor connected to it, and a server in the table. If the
  supervisor holds it READY, the last frame about it that the supervisor sent to this router was its
  \<open>SERVER_ADD\<close>; if it holds it DEAD, it was its \<open>SERVER_DEL\<close>, or there was none. (A router
  that cannot be reached when a server is announced is never told: the server counts as announced
  all the same.)\<close>

theorem servers_announced:
  assumes "sv_nodes s = []" "sv_acts s = []" "s' = fold (turn c fork) ops s"
    and "(h, p) \<in> set (ends (sv_routers s))" "Notify h p None \<notin> set (sv_acts s')"
    and "n \<in> set (sv_nodes s')" "nd_type (sn_node n) = ''server''"
  shows "(nd_state (sn_node n) = NODE_STATE_READY \<longrightarrow> told h p (nd_id (sn_node n)) (sv_acts s') = Some True) \<and>
         (nd_state (sn_node n) = NODE_STATE_DEAD \<longrightarrow> told h p (nd_id (sn_node n)) (sv_acts s') \<in> {None, Some False})"
proof -
  have "announced_but {} (sv_nodes s)" using assms(1) by (simp add: announced_but_def)
  from turns_announced[OF this, of c fork ops] have ann: "announced n"
    using assms(3,6) by (auto simp: announced_but_def in_set_conv_nth)
  have "heard (sv_routers s) s" using assms(1,2) by (simp add: heard_def told_def)
  from turns_heard[OF this, of c fork ops] have hd: "heard (sv_routers s) s'" using assms(3) by simp
  let ?x = "nd_id (sn_node n)"
  have x: "SP \<notin> set ?x" using hd assms(6) by (auto simp: heard_def tag_def)
  have d: "distinct (map fst (map tag (sv_nodes s')))" using hd by (simp add: heard_def)
  have "(?x, True) \<in> set (map tag (sv_nodes s')) \<longleftrightarrow> sn_notified n"
    using d assms(6) by (auto simp: tag_def distinct_map inj_on_def image_iff intro: bexI[of _ n])
  then have "told h p ?x (sv_acts s') = Some True \<longleftrightarrow> sn_notified n"
    using hd assms(4,5) x unfolding heard_def by blast
  then show ?thesis using ann assms(7) by (cases "told h p ?x (sv_acts s')") (auto simp: announced_def)
qed

definition empty_sv :: supervisor where
  "empty_sv = \<lparr>sv_nodes = [], sv_routers = [], sv_spawns = [], sv_acts = [], sv_last_check = 0, sv_quit = False, sv_down = []\<rparr>"

definition server0 :: node where
  "server0 = zero_node\<lparr>nd_id := ''s0'', nd_type := ''server'', nd_state := NODE_STATE_READY, nd_model := ''m'', nd_addr := ''h:7''\<rparr>"

text \<open>A supervisor with one router; a server joins.\<close>

definition routed_sv :: supervisor where
  "routed_sv = empty_sv\<lparr>sv_routers := [zero_node\<lparr>nd_addr := ''r:80''\<rparr>]\<rparr>"

theorem servers_announced_witness:
  "\<exists>n. sv_nodes (fold (turn cfg0 (\<lambda>_. 0)) [(Some (None, node_heartbeat server0), 1)] routed_sv) = [n] \<and> nd_id (sn_node n) = ''s0'' \<and>
     told ''r'' 80 ''s0'' (sv_acts (fold (turn cfg0 (\<lambda>_. 0)) [(Some (None, node_heartbeat server0), 1)] routed_sv)) = Some True"
proof -
  let ?s = "fold (turn cfg0 (\<lambda>_. 0)) [(Some (None, node_heartbeat server0), 1)] routed_sv"
  have e: "sv_nodes routed_sv = []" "sv_acts routed_sv = []" by (simp_all add: routed_sv_def empty_sv_def)
  have r: "(''r'', 80) \<in> set (ends (sv_routers routed_sv))" by code_simp
  have l: "map (\<lambda>n. (nd_id (sn_node n), nd_type (sn_node n), nd_state (sn_node n))) (sv_nodes ?s) = [(''s0'', ''server'', NODE_STATE_READY)]
      \<and> Notify ''r'' 80 None \<notin> set (sv_acts ?s)" by code_simp
  then obtain n where n: "sv_nodes ?s = [n]" "nd_id (sn_node n) = ''s0''" "nd_type (sn_node n) = ''server''" "nd_state (sn_node n) = NODE_STATE_READY"
    by (auto simp: map_eq_Cons_conv)
  then have "n \<in> set (sv_nodes ?s)" by simp
  from servers_announced[OF e refl r conjunct2[OF l] this n(3)] n show ?thesis by simp
qed

subsection \<open>An announcement reaches the router's table\<close>

text \<open>One connection to each router whose address has a port, with this frame.\<close>

definition sent_to :: "node list \<Rightarrow> bytes \<Rightarrow> sv_act list \<Rightarrow> bool" where
  "sent_to rs msg as \<longleftrightarrow> map (\<lambda>x. case x of Notify h p m \<Rightarrow> (h, p)) as = ends rs \<and>
     (\<forall>x\<in>set as. \<exists>h p. x = Notify h p (Some msg) \<or> x = Notify h p None)"

definition add_kvs :: "node \<Rightarrow> (string \<times> string) list" where
  "add_kvs n = [(''model'', nd_model n), (''leader'', nd_addr n)]"

lemma add_args: "nd_id n @ '' model='' @ nd_model n @ '' leader='' @ nd_addr n = join_sp (nd_id n # map kv_word (add_kvs n))"
  by (simp add: add_kvs_def kv_word_def)

text \<open>What the handler of the router leaves: the entry of \<open>sid\<close>.\<close>

lemma handle_server_add_entry:
  assumes "\<not> rt_locked r" "scan_word 127 args \<noteq> None" "sid = take 127 (word_sp args)"
    "find_server r sid \<noteq> None \<or> length (rt_servers r) < RT_MAX_SERVERS"
  obtains r' k e where "handle_server_add r args now = Ret r'" "find_server r' sid = Some k"
    "rt_servers r' ! k = (upd_leader \<lparr>fr_cmd = ''X'', fr_args = snprintf_s FRAME_ARGS_MAX args\<rparr>
       (upd_model \<lparr>fr_cmd = ''X'', fr_args = snprintf_s FRAME_ARGS_MAX args\<rparr> e))\<lparr>rs_state := NODE_STATE_READY, rs_last := now\<rparr>"
proof -
  let ?f = "\<lparr>fr_cmd = ''X'', fr_args = snprintf_s FRAME_ARGS_MAX args\<rparr>"
  let ?L = "r\<lparr>rt_locked := True\<rparr>"
  obtain w where w: "scan_word 127 args = Some w" using assms(2) by auto
  define q where "q = (case find_server r sid of Some i \<Rightarrow> (?L, i)
    | None \<Rightarrow> (?L\<lparr>rt_servers := rt_servers r @ [zero_server\<lparr>rs_id := sid\<rparr>]\<rparr>, length (rt_servers r)))"
  define e where "e = rt_servers (fst q) ! snd q"
  define s where "s = (upd_leader ?f (upd_model ?f e))\<lparr>rs_state := NODE_STATE_READY, rs_last := now\<rparr>"
  have add: "handle_server_add r args now = Ret (unlock (set_server (fst q) (snd q) s))"
    using w assms(1,4) unfolding s_def e_def q_def
    by (cases "find_server r sid") (simp_all add: handle_server_add_def lock_free Let_def assms(3)[symmetric])
  have q: "snd q < length (rt_servers (fst q))" "rs_id (rt_servers (fst q) ! snd q) = sid"
    "\<forall>j. j < snd q \<longrightarrow> rs_id (rt_servers (fst q) ! j) \<noteq> sid"
    by (auto simp: q_def find_server_def find_index_Some find_index_None nth_append split: option.split)
  have "rs_id s = sid" using q(2) by (simp add: s_def e_def)
  then have "find_server (unlock (set_server (fst q) (snd q) s)) sid = Some (snd q)"
    using q unfolding find_server_def find_index_Some by (auto simp: nth_list_update)
  moreover have "rt_servers (unlock (set_server (fst q) (snd q) s)) ! snd q = s" using q(1) by simp
  ultimately show ?thesis using that[OF add] by (simp add: s_def)
qed

text \<open>An announcement makes the server routable. When the supervisor holds a server READY that the
  routers do not know, it sends the same \<open>SERVER_ADD\<close> frame to each router, and a router that
  receives it (mutex free, table not full) ends up with an entry of that id which is READY, has
  the server's model, host and port, and is eligible for requests of that model.\<close>

theorem announce_registers:
  assumes "i < length (sv_nodes s)" "n = sn_node (sv_nodes s ! i)" "nd_state n = NODE_STATE_READY" "\<not> sn_notified (sv_nodes s ! i)"
    and "node_ok n" "line_text (nd_id n)" "line_text (nd_model n)" "line_text (nd_addr n)"
    and "nd_addr n = host @ '':'' @ show_nat p" "CHR '':'' \<notin> set host" "p < 65536"
    and "\<not> rt_locked r" "find_server r (nd_id n) \<noteq> None \<or> length (rt_servers r) < RT_MAX_SERVERS"
  shows "\<exists>msg as r' k. sv_acts (sync_server_to_router s i) = sv_acts s @ as \<and> sent_to (sv_routers s) msg as
     \<and> router_conn be r msg now = Ret (r', False, []) \<and> find_server r' (nd_id n) = Some k
     \<and> eligible (nd_model n) (rt_servers r' ! k) \<and> rs_host (rt_servers r' ! k) = host \<and> rs_port (rt_servers r' ! k) = of_nat p"
proof -
  define args where "args = nd_id n @ '' model='' @ nd_model n @ '' leader='' @ nd_addr n"
  define msg where "msg = frame_send ''SERVER_ADD'' args"
  let ?f = "\<lparr>fr_cmd = ''X'', fr_args = args\<rparr>"
  have ok: "plain_word (nd_id n)" "CHR ''='' \<notin> set (nd_id n)" "length (nd_id n) < 128" "length (nd_model n) < 128"
    "length (nd_addr n) < 128" "SP \<notin> set (nd_model n)" "SP \<notin> set (nd_addr n)"
    using assms(5) by (simp_all add: node_ok_def)
  have len: "length args < 512" using ok by (simp add: args_def)
  have nid: "nd_id n \<noteq> []" "hd (nd_id n) \<noteq> SP" "SP \<notin> set (nd_id n)"
    using plain_word_hd[OF ok(1)] ok(1) by (auto simp: plain_word_def)
  have kv: "\<forall>kv\<in>set (add_kvs n). kv_ok kv" using ok by (simp add: add_kvs_def kv_ok_def)
  have get: "frame_get ?f key 256 = map_option (take 255) (map_of (add_kvs n) key)"
    if "CHR ''='' \<notin> set key" "SP \<notin> set key" for key
    using frame_get_args[OF kv ok(1,2) that, of "''X''" 256] by (simp add: args_def add_args[symmetric])
  have g: "frame_get ?f ''model'' 256 = Some (nd_model n)" "frame_get ?f ''leader'' 256 = Some (nd_addr n)"
    using ok by (simp_all add: get add_kvs_def)
  obtain as where acts: "sv_acts (sync_server_to_router s i) = sv_acts s @ as" "sent_to (sv_routers s) msg as"
  proof -
    have "snprintf_s 512 args = args" using len by simp
    then have "sv_acts (sync_server_to_router s i) = sv_acts (notify_routers s ''SERVER_ADD'' args)"
      using assms(3,4) unfolding sync_server_to_router_def Let_def assms(2)[symmetric] args_def[symmetric]
      by (simp add: set_node_def)
    then show ?thesis using that notify_acts[of s "''SERVER_ADD''" args] unfolding sent_to_def msg_def by auto
  qed
  have fok: "frame_ok \<lparr>fr_cmd = ''SERVER_ADD'', fr_args = args\<rparr>"
    using assms(6-8) nid len by (simp add: frame_ok_def FRAME_CMD_MAX_def FRAME_ARGS_MAX_def args_def)
  have rcv: "frame_recv msg = Some (\<lparr>fr_cmd = ''SERVER_ADD'', fr_args = args\<rparr>, [])"
    using frame_recv_send[OF fok, of "[]"] by (simp add: msg_def)
  have w: "word_sp args = nd_id n" using nid by (simp add: args_def)
  have "CHR ''='' \<in> set args" "\<not> is_space CHR ''=''" by (simp_all add: args_def is_space_def code_def)
  then have "dropWhile is_space args \<noteq> []" by (auto simp: dropWhile_eq_Nil_conv)
  then have "takeWhile (\<lambda>c. \<not> is_space c) (dropWhile is_space args) \<noteq> []"
    using hd_dropWhile[of is_space args] by (cases "dropWhile is_space args") auto
  then have sw: "scan_word 127 args \<noteq> None" by (simp add: scan_word_def Let_def)
  have sid: "nd_id n = take 127 (word_sp args)" using ok w by simp
  obtain r' k e where add: "handle_server_add r args now = Ret r'" "find_server r' (nd_id n) = Some k"
    "rt_servers r' ! k = (upd_leader \<lparr>fr_cmd = ''X'', fr_args = snprintf_s FRAME_ARGS_MAX args\<rparr>
       (upd_model \<lparr>fr_cmd = ''X'', fr_args = snprintf_s FRAME_ARGS_MAX args\<rparr> e))\<lparr>rs_state := NODE_STATE_READY, rs_last := now\<rparr>"
    using handle_server_add_entry[OF assms(12) sw sid assms(13)] by blast
  have tr: "snprintf_s FRAME_ARGS_MAX args = args" using len by (simp add: FRAME_ARGS_MAX_def)
  have conn: "router_conn be r msg now = Ret (r', False, [])"
    unfolding router_conn_def rcv option.case prod.case frame.select_convs add(1) by simp
  have col: "strchr (nd_addr n) CHR '':'' = Some (CHR '':'' # show_nat p)" "takeWhile (\<lambda>c. c \<noteq> CHR '':'') (nd_addr n) = host"
    using assms(9,10) by (simp_all add: strchr_append takeWhile_no)
  have port: "atoi (show_nat p) = int p" using atoi_show_nat[of "[]" p] assms(11) by simp
  have h: "length host < 128" using ok(5) assms(9) by simp
  have "eligible (nd_model n) (rt_servers r' ! k) \<and> rs_host (rt_servers r' ! k) = host \<and> rs_port (rt_servers r' ! k) = of_nat p"
    unfolding add(3) tr using ok(4) h by (simp add: upd_leader_def upd_model_def g col port eligible_def)
  then show ?thesis using acts conn add(2) by blast
qed

definition sv_ready :: supervisor where
  "sv_ready = empty_sv\<lparr>sv_nodes := [\<lparr>sn_node = server0, sn_notified = False, sn_leased = [], sn_expire = 0\<rparr>],
     sv_routers := [zero_node\<lparr>nd_addr := ''r:80''\<rparr>]\<rparr>"

theorem announce_registers_witness:
  "\<exists>msg as r' k. sv_acts (sync_server_to_router sv_ready 0) = sv_acts sv_ready @ as \<and> sent_to (sv_routers sv_ready) msg as
     \<and> router_conn (\<lambda>_ _ _. None) two_servers msg 9 = Ret (r', False, []) \<and> find_server r' (nd_id server0) = Some k
     \<and> eligible (nd_model server0) (rt_servers r' ! k) \<and> rs_host (rt_servers r' ! k) = ''h'' \<and> rs_port (rt_servers r' ! k) = of_nat 7"
proof (rule announce_registers)
  show "node_ok server0"
    by (simp add: node_ok_def server0_def zero_node_def plain_word_def node_states show_f1_def show_nat.simps)
  show "nd_addr server0 = ''h'' @ '':'' @ show_nat 7" by (simp add: server0_def show_nat.simps)
  have "\<not> rt_locked two_servers" "length (rt_servers two_servers) < RT_MAX_SERVERS"
    by (simp_all add: two_servers_def RT_MAX_SERVERS_def)
  then show "\<not> rt_locked two_servers" "find_server two_servers (nd_id server0) \<noteq> None \<or> length (rt_servers two_servers) < RT_MAX_SERVERS"
    by simp_all
qed (simp_all add: sv_ready_def server0_def)

end
