(* ===== verification/Json.thy ===== *)
theory Json
  imports YPrelude
begin

text \<open>
  The JSON reader of \<^verbatim>\<open>serve/json.h\<close>. A pointer into the text is the suffix that starts there,
  \<open>[]\<close> being the terminating NUL; a read beyond the NUL is the result \<open>Fault\<close>. Against it
  stands a small syntax of JSON values with its printed form.
\<close>

datatype json_type = JSON_NULL | JSON_BOOL | JSON_NUM | JSON_STR | JSON_ARR | JSON_OBJ

record json_val =
  jv_type :: json_type
  jv_start :: string
  jv_len :: nat

subsection \<open>The reader\<close>

definition json_ws :: "char \<Rightarrow> bool" where
  "json_ws c \<longleftrightarrow> c = SP \<or> c = TAB \<or> c = LF \<or> c = CR"

definition json_skip_ws :: "string \<Rightarrow> string" where
  "json_skip_ws s = dropWhile json_ws s"

text \<open>\<open>while (*q && *q != '"') { if (*q == '\\') q++; q++; }\<close>: a backslash before the NUL
  moves past it.\<close>

fun str_scan :: "string \<Rightarrow> string run" where
  "str_scan [] = Ret []"
| "str_scan (c # s) =
     (if c = DQ then Ret (c # s)
      else if c = BSL then (case s of [] \<Rightarrow> Fault | _ # t \<Rightarrow> str_scan t)
      else str_scan s)"

lemma str_scan_length: "str_scan s = Ret q \<Longrightarrow> length q \<le> length s"
  by (induction s arbitrary: q rule: str_scan.induct) (fastforce split: if_splits list.splits)+

text \<open>\<open>if (*p == '"') p++\<close>.\<close>

definition skip_quote :: "string \<Rightarrow> string" where
  "skip_quote q = (case q of c # t \<Rightarrow> if c = DQ then t else q | [] \<Rightarrow> [])"

lemma skip_quote_length [simp]: "length (skip_quote q) \<le> length q"
  by (cases q) (auto simp: skip_quote_def)

text \<open>The bracket-counting loop of objects and arrays.\<close>

function (sequential) nest :: "int \<Rightarrow> string \<Rightarrow> string run" where
  "nest d [] = Ret []"
| "nest d (c # s) =
     (if c = CHR ''{'' \<or> c = CHR ''['' then nest (d + 1) s
      else if c = CHR ''}'' \<or> c = CHR '']'' then (if d - 1 = 0 then Ret s else nest (d - 1) s)
      else if c = DQ then (case str_scan s of Ret q \<Rightarrow> nest d (skip_quote q) | _ \<Rightarrow> Fault)
      else nest d s)"
  by pat_completeness auto
termination
proof (relation "measure (\<lambda>(d, s). length s)")
  fix d :: int and c s q
  assume "str_scan s = Ret q"
  then show "((d, skip_quote q), d, c # s) \<in> measure (\<lambda>(d, s). length s)"
    using str_scan_length[of s q] skip_quote_length[of q] by (simp del: skip_quote_length)
qed auto

definition json_stop :: "char \<Rightarrow> bool" where
  "json_stop c \<longleftrightarrow> c = CHR '','' \<or> c = CHR ''}'' \<or> c = CHR '']'' \<or> c = SP \<or> c = TAB \<or> c = LF"

definition json_span :: "json_type \<Rightarrow> string \<Rightarrow> string \<Rightarrow> json_val \<times> string" where
  "json_span ty p r = (\<lparr>jv_type = ty, jv_start = p, jv_len = length p - length r\<rparr>, r)"

definition json_parse :: "string \<Rightarrow> (json_val \<times> string) run" where
  "json_parse s =
     (let p = json_skip_ws s in
      case p of
        [] \<Rightarrow> Ret (json_span JSON_NUM p [])
      | c # t \<Rightarrow>
          if c = CHR ''{'' then (case nest 0 p of Ret r \<Rightarrow> Ret (json_span JSON_OBJ p r) | _ \<Rightarrow> Fault)
          else if c = CHR ''['' then (case nest 0 p of Ret r \<Rightarrow> Ret (json_span JSON_ARR p r) | _ \<Rightarrow> Fault)
          else if c = DQ then
            (case str_scan t of
               Ret q \<Rightarrow> Ret (\<lparr>jv_type = JSON_STR, jv_start = t, jv_len = length t - length q\<rparr>, skip_quote q)
             | _ \<Rightarrow> Fault)
          else let r = dropWhile (\<lambda>c. \<not> json_stop c) p in
            Ret (json_span (if c = CHR ''t'' \<or> c = CHR ''f'' then JSON_BOOL
                            else if c = CHR ''n'' then JSON_NULL else JSON_NUM) p r))"

lemma nest_length: "nest d s = Ret r \<Longrightarrow> length r \<le> length s"
proof (induction d s arbitrary: r rule: nest.induct)
  case (2 d c s)
  show ?case
  proof (cases "c = DQ")
    case True
    then obtain q where q: "str_scan s = Ret q" "nest d (skip_quote q) = Ret r"
      using "2.prems" by (auto split: run.splits)
    have "length r \<le> length (skip_quote q)" using "2.IH"(3)[OF _ _ True q] True by simp
    then show ?thesis using str_scan_length[OF q(1)] skip_quote_length[of q] by (simp del: skip_quote_length)
  next
    case False
    then show ?thesis using 2 by (auto split: if_splits simp: le_SucI)
  qed
qed simp

lemma json_skip_ws_length [simp]: "length (json_skip_ws s) \<le> length s"
  by (simp add: json_skip_ws_def length_dropWhile_le)

lemma json_parse_length: "json_parse s = Ret (v, r) \<Longrightarrow> length r \<le> length s"
proof -
  assume a: "json_parse s = Ret (v, r)"
  have "length r \<le> length (json_skip_ws s)"
  proof (cases "json_skip_ws s")
    case Nil
    then show ?thesis using a by (simp add: json_parse_def json_span_def)
  next
    case (Cons c t)
    note d = json_parse_def json_span_def Let_def Cons
    consider (br) "c = CHR ''{'' \<or> c = CHR ''[''" | (dq) "c = DQ"
      | (lit) "c \<noteq> CHR ''{''" "c \<noteq> CHR ''[''" "c \<noteq> DQ" by blast
    then show ?thesis
    proof cases
      case br
      then have "nest 0 (c # t) = Ret r" using a by (auto simp: d split: run.splits)
      then show ?thesis using nest_length Cons by metis
    next
      case dq
      then obtain q where "str_scan t = Ret q" "r = skip_quote q" using a by (auto simp: d split: run.splits)
      then show ?thesis using str_scan_length[of t q] skip_quote_length[of q] Cons by (simp del: skip_quote_length)
    next
      case lit
      then have "r = dropWhile (\<lambda>c. \<not> json_stop c) (c # t)" using a by (simp add: d del: dropWhile.simps)
      then show ?thesis using Cons length_dropWhile_le by metis
    qed
  qed
  then show ?thesis using json_skip_ws_length[of s] by linarith
qed

function obj_loop :: "string \<Rightarrow> string \<Rightarrow> json_val option run" where
  "obj_loop p key =
     (case p of [] \<Rightarrow> Ret None
      | c # ks \<Rightarrow>
        if c \<noteq> DQ then Ret None
        else case str_scan ks of Ret ke \<Rightarrow>
          (case json_skip_ws (skip_quote ke) of [] \<Rightarrow> Ret None
           | c2 # p2 \<Rightarrow>
             if c2 \<noteq> CHR '':'' then Ret None
             else case json_parse (json_skip_ws p2) of Ret (v, p3) \<Rightarrow>
               if length ks - length ke = length key \<and> take (length key) ks = key then Ret (Some v)
               else (case json_skip_ws p3 of
                       c4 # p4 \<Rightarrow> if c4 = CHR '','' then obj_loop (json_skip_ws p4) key else Ret None
                     | [] \<Rightarrow> Ret None)
             | _ \<Rightarrow> Fault)
        | _ \<Rightarrow> Fault)"
  by pat_completeness auto
termination
proof (relation "measure (\<lambda>(p, key). length p)")
  fix p key c ks ke c2 p2 pv v p3 c4 p4
  assume "p = c # ks" "str_scan ks = Ret ke" "json_skip_ws (skip_quote ke) = c2 # p2"
    "json_parse (json_skip_ws p2) = Ret pv" "(v, p3) = pv" "json_skip_ws p3 = c4 # p4"
  then have "length ke \<le> length ks" "length (c2 # p2) \<le> length ke" "length p3 \<le> length p2" "length (c4 # p4) \<le> length p3"
    using str_scan_length[of ks ke] json_skip_ws_length[of "skip_quote ke"] skip_quote_length[of ke]
      json_parse_length[of "json_skip_ws p2" v p3] json_skip_ws_length[of p2] json_skip_ws_length[of p3]
    by (simp_all del: json_skip_ws_length skip_quote_length)
  then show "((json_skip_ws p4, key), p, key) \<in> measure (\<lambda>(p, key). length p)"
    using json_skip_ws_length[of p4] \<open>p = c # ks\<close> by (simp del: json_skip_ws_length)
qed simp

declare obj_loop.simps [simp del]

text \<open>\<open>obj\<close> points at the opening brace; \<open>obj + 1\<close> is past the NUL when \<open>obj\<close> is the NUL.\<close>

definition json_find_in_obj :: "string \<Rightarrow> string \<Rightarrow> json_val option run" where
  "json_find_in_obj obj key =
     (case obj of [] \<Rightarrow> Fault
      | _ # t \<Rightarrow> (case json_skip_ws t of
                   c # _ \<Rightarrow> if c = CHR ''}'' then Ret None else obj_loop (json_skip_ws t) key
                 | [] \<Rightarrow> Ret None))"

definition value_start :: "char \<Rightarrow> bool" where
  "value_start c \<longleftrightarrow> c = DQ \<or> c = CHR ''{'' \<or> c = CHR ''['' \<or> c = CHR ''t'' \<or> c = CHR ''f'' \<or> c = CHR ''n''
     \<or> is_digit c \<or> c = CHR ''-''"

fun arr_skip :: "nat \<Rightarrow> string \<Rightarrow> string option run" where
  "arr_skip 0 p = Ret (Some p)"
| "arr_skip (Suc n) p =
     (case json_skip_ws p of [] \<Rightarrow> Ret None
      | c # t \<Rightarrow>
        if c = CHR '']'' \<or> \<not> value_start c then Ret None
        else case json_parse (c # t) of Ret (v, q) \<Rightarrow>
          (case json_skip_ws q of
             c2 # q2 \<Rightarrow> if c2 = CHR '','' then arr_skip n (json_skip_ws q2)
                        else if c2 = CHR '']'' then Ret None else arr_skip n (c2 # q2)
           | [] \<Rightarrow> arr_skip n [])
        | _ \<Rightarrow> Fault)"

text \<open>One step of \<open>json_find\<close>: the array element or the member that a path segment names.\<close>

definition json_step :: "string \<Rightarrow> string \<Rightarrow> json_val option run" where
  "json_step cur seg =
     (if seg \<noteq> [] \<and> is_digit (hd seg) then
        (case cur of [] \<Rightarrow> Ret None
         | c # t \<Rightarrow>
           if c \<noteq> CHR ''['' then Ret None
           else case arr_skip (nat (atoi seg)) (json_skip_ws t) of
             Ret None \<Rightarrow> Ret None
           | Ret (Some p) \<Rightarrow>
               (case json_skip_ws p of
                  c # t \<Rightarrow> if c = CHR '']'' then Ret None
                          else (case json_parse (c # t) of Ret (v, _) \<Rightarrow> Ret (Some v) | _ \<Rightarrow> Fault)
                | [] \<Rightarrow> (case json_parse [] of Ret (v, _) \<Rightarrow> Ret (Some v) | _ \<Rightarrow> Fault))
           | _ \<Rightarrow> Fault)
      else json_find_in_obj cur seg)"

lemma seg_rest_length' [simp]: "path \<noteq> [] \<Longrightarrow> length (dropWhile p path) - Suc 0 < length path"
proof -
  assume "path \<noteq> []"
  then have "0 < length path" by simp
  then show ?thesis using length_dropWhile_le[of p path] by linarith
qed

lemma seg_rest_length [simp]: "path \<noteq> [] \<Longrightarrow> length (tl (dropWhile p path)) < length path"
  by simp

function json_find :: "string \<Rightarrow> string \<Rightarrow> json_val option run" where
  "json_find cur path =
     (if path = [] then Ret None
      else let seg = takeWhile (\<lambda>c. c \<noteq> CHR ''.'') path;
               rest = tl (dropWhile (\<lambda>c. c \<noteq> CHR ''.'') path) in
        if length seg \<ge> 128 then Ret None
        else case json_step cur seg of
          Ret None \<Rightarrow> Ret None
        | Ret (Some v) \<Rightarrow> if rest = [] then Ret (Some v) else json_find (jv_start v) rest
        | _ \<Rightarrow> Fault)"
  by pat_completeness auto
termination by (relation "measure (\<lambda>(cur, path). length path)") auto

declare json_find.simps [simp del]

fun json_str_unescape :: "string \<Rightarrow> string" where
  "json_str_unescape (c # d # s) =
     (if c = BSL
      then (if d = CHR ''n'' then LF else if d = CHR ''t'' then TAB else if d = CHR ''r'' then CR else d)
             # json_str_unescape s
      else c # json_str_unescape (d # s))"
| "json_str_unescape [c] = [c]"
| "json_str_unescape [] = []"

subsection \<open>JSON values and their text\<close>

text \<open>A literal is a number, \<open>true\<close>, \<open>false\<close> or \<open>null\<close> as its token; a string is its raw text
  between the quotes, escapes included.\<close>

datatype js = JLit string | JStr string | JArr "js list" | JObj "(string \<times> js) list"

fun sep_by :: "string list \<Rightarrow> string" where
  "sep_by [] = []"
| "sep_by [x] = x"
| "sep_by (x # y # xs) = x @ CHR '','' # sep_by (y # xs)"

fun js_text :: "js \<Rightarrow> string" where
  "js_text (JLit t) = t"
| "js_text (JStr s) = DQ # s @ [DQ]"
| "js_text (JArr vs) = CHR ''['' # sep_by (map js_text vs) @ '']''"
| "js_text (JObj kvs) = CHR ''{'' # sep_by (map (\<lambda>(k, v). DQ # k @ DQ # CHR '':'' # js_text v) kvs) @ ''}''"

text \<open>A raw string: no bare quote, and every backslash has its character.\<close>

fun raw_ok :: "string \<Rightarrow> bool" where
  "raw_ok [] = True"
| "raw_ok (c # s) = (c \<noteq> DQ \<and> (if c = BSL then (case s of [] \<Rightarrow> False | _ # t \<Rightarrow> raw_ok t) else raw_ok s))"

definition lit_ok :: "string \<Rightarrow> bool" where
  "lit_ok t \<longleftrightarrow> t \<noteq> [] \<and> value_start (hd t) \<and> (\<forall>c\<in>set t. \<not> json_stop c \<and> c \<noteq> DQ \<and> c \<noteq> CHR ''['' \<and> c \<noteq> CHR ''{'' \<and> c \<noteq> CR)"

fun js_ok :: "js \<Rightarrow> bool" where
  "js_ok (JLit t) = lit_ok t"
| "js_ok (JStr s) = raw_ok s"
| "js_ok (JArr vs) = (\<forall>v\<in>set vs. js_ok v)"
| "js_ok (JObj kvs) = (\<forall>kv\<in>set kvs. raw_ok (fst kv) \<and> js_ok (snd kv))"

subsection \<open>Texts with white space\<close>

text \<open>A JSON text as a client may write it: the same values with blanks before and after every item,
  name and colon. An item is its value between two blanks; a member is a blank, the name, the blanks
  around the colon, the value and a blank; the blank at the end is that of an empty list.\<close>

datatype jt = TLit string | TStr string | TArr "(string \<times> jt \<times> string) list" string
  | TObj "(string \<times> string \<times> string \<times> string \<times> jt \<times> string) list" string

fun jt_text :: "jt \<Rightarrow> string" where
  "jt_text (TLit t) = t"
| "jt_text (TStr s) = DQ # s @ [DQ]"
| "jt_text (TArr xs w) = CHR ''['' # (if xs = [] then w else sep_by (map (\<lambda>(a, t, b). a @ jt_text t @ b) xs)) @ '']''"
| "jt_text (TObj ms w) = CHR ''{'' # (if ms = [] then w else
     sep_by (map (\<lambda>(a, k, b, c, t, d). a @ DQ # k @ DQ # b @ CHR '':'' # c @ jt_text t @ d) ms)) @ ''}''"

fun jt_js :: "jt \<Rightarrow> js" where
  "jt_js (TLit t) = JLit t"
| "jt_js (TStr s) = JStr s"
| "jt_js (TArr xs w) = JArr (map (\<lambda>(a, t, b). jt_js t) xs)"
| "jt_js (TObj ms w) = JObj (map (\<lambda>(a, k, b, c, t, d). (k, jt_js t)) ms)"

definition blank :: "string \<Rightarrow> bool" where
  "blank s \<longleftrightarrow> (\<forall>c\<in>set s. json_ws c)"

text \<open>Behind a literal a blank may not begin with a carriage return: the reader takes it into the literal.\<close>

definition blank_after :: "jt \<Rightarrow> string \<Rightarrow> bool" where
  "blank_after t b \<longleftrightarrow> blank b \<and> (case t of TLit _ \<Rightarrow> b = [] \<or> hd b \<noteq> CR | _ \<Rightarrow> True)"

fun jt_ok :: "jt \<Rightarrow> bool" where
  "jt_ok (TLit t) = lit_ok t"
| "jt_ok (TStr s) = raw_ok s"
| "jt_ok (TArr xs w) \<longleftrightarrow> blank w \<and> (\<forall>(a, t, b)\<in>set xs. blank a \<and> jt_ok t \<and> blank_after t b)"
| "jt_ok (TObj ms w) \<longleftrightarrow> blank w \<and> (\<forall>(a, k, b, c, t, d)\<in>set ms. blank a \<and> raw_ok k \<and> blank b \<and> blank c \<and> jt_ok t \<and> blank_after t d)"

text \<open>The text without any blank.\<close>

fun compact :: "js \<Rightarrow> jt" where
  "compact (JLit t) = TLit t"
| "compact (JStr s) = TStr s"
| "compact (JArr vs) = TArr (map (\<lambda>v. ([], compact v, [])) vs) []"
| "compact (JObj kvs) = TObj (map (\<lambda>(k, v). ([], k, [], [], compact v, [])) kvs) []"

lemma sep_by_cong: "map f xs = map g ys \<Longrightarrow> sep_by (map f xs) = sep_by (map g ys)"
  by simp

lemma compact_text: "jt_text (compact v) = js_text v"
proof (induction v)
  case (JArr vs)
  have "map (\<lambda>(a, t, b). a @ jt_text t @ b) (map (\<lambda>v. ([], compact v, [])) vs) = map js_text vs" using JArr by simp
  then show ?case by (simp only: compact.simps jt_text.simps js_text.simps) (simp del: map_map)
next
  case (JObj kvs)
  have "map (\<lambda>(a, k, b, c, t, d). a @ DQ # k @ DQ # b @ CHR '':'' # c @ jt_text t @ d)
      (map (\<lambda>(k, v). ([], k, [], [], compact v, [])) kvs) = map (\<lambda>(k, v). DQ # k @ DQ # CHR '':'' # js_text v) kvs"
    using JObj by fastforce
  then show ?case by (simp only: compact.simps jt_text.simps js_text.simps) (simp del: map_map)
qed simp_all

lemma blank_Nil [simp]: "blank []" "blank_after t []"
  by (simp_all add: blank_def blank_after_def split: jt.split)

lemma compact_ok: "js_ok v \<Longrightarrow> jt_ok (compact v)"
proof (induction v)
  case (JArr vs)
  then show ?case by (auto simp: blank_def blank_after_def split: jt.split)
next
  case (JObj kvs)
  have "jt_ok (compact v) \<and> raw_ok k" if "(k, v) \<in> set kvs" for k v
    using JObj.IH[OF that, of v] JObj.prems that by force
  then have "\<forall>m\<in>set kvs. raw_ok (fst m) \<and> jt_ok (compact (snd m))" by auto
  then show ?case by (simp add: case_prod_unfold)
qed simp_all

lemma compact_js: "jt_js (compact v) = v"
  by (induction v) (auto intro!: map_idI simp: comp_def)

lemma str_scan_raw: "raw_ok s \<Longrightarrow> str_scan (s @ DQ # r) = Ret (DQ # r)"
proof (induction s rule: raw_ok.induct)
  case (2 c s)
  then show ?case by (cases s) (auto split: if_splits)
qed simp

lemma skip_quote_DQ [simp]: "skip_quote (DQ # r) = r"
  by (simp add: skip_quote_def)

lemma nest_str: "raw_ok s \<Longrightarrow> nest d (DQ # s @ DQ # r) = nest d r"
  by (simp add: str_scan_raw)

lemma nest_lit: "(\<forall>c\<in>set t. \<not> json_stop c \<and> c \<noteq> DQ \<and> c \<noteq> CHR ''['' \<and> c \<noteq> CHR ''{'') \<Longrightarrow> nest d (t @ r) = nest d r"
  by (induction t) (auto simp: json_stop_def)

lemma nest_sep:
  assumes "\<forall>x\<in>set xs. \<forall>r. nest d (x @ r) = nest d r"
  shows "nest d (sep_by xs @ r) = nest d r"
  using assms by (induction xs rule: sep_by.induct) simp_all

lemma nest_blank: "blank w \<Longrightarrow> nest d (w @ r) = nest d r"
  by (induction w) (auto simp: blank_def json_ws_def)

lemma skip_blank [simp]: "blank w \<Longrightarrow> json_skip_ws (w @ r) = json_skip_ws r"
  by (simp add: json_skip_ws_def blank_def dropWhile_append2)

lemma blank_after_blank: "blank_after t b \<Longrightarrow> blank b"
  by (simp add: blank_after_def)

definition item :: "string \<times> jt \<times> string \<Rightarrow> string" where
  "item = (\<lambda>(a, t, b). a @ jt_text t @ b)"

definition memb :: "string \<times> string \<times> string \<times> string \<times> jt \<times> string \<Rightarrow> string" where
  "memb = (\<lambda>(a, k, b, c, t, d). a @ DQ # k @ DQ # b @ CHR '':'' # c @ jt_text t @ d)"

lemma jt_unfold:
  "jt_text (TArr xs w) = CHR ''['' # (if xs = [] then w else sep_by (map item xs)) @ '']''"
  "jt_text (TObj ms w) = CHR ''{'' # (if ms = [] then w else sep_by (map memb ms)) @ ''}''"
  by (simp_all add: item_def memb_def)

lemma jt_texts:
  "xs \<noteq> [] \<Longrightarrow> jt_text (TArr xs w) = CHR ''['' # sep_by (map item xs) @ '']''"
  "ms \<noteq> [] \<Longrightarrow> jt_text (TObj ms w) = CHR ''{'' # sep_by (map memb ms) @ ''}''"
  by (simp_all add: item_def memb_def)

definition scalar :: "jt \<Rightarrow> bool" where
  "scalar t = (case t of TArr _ _ \<Rightarrow> False | TObj _ _ \<Rightarrow> False | _ \<Rightarrow> True)"

lemma nest_memb:
  assumes "blank a" "raw_ok k" "blank b" "blank c" "blank e" "\<And>r. nest d (jt_text t @ r) = nest d r"
  shows "nest d (memb (a, k, b, c, t, e) @ r) = nest d r"
proof -
  have "nest d (CHR '':'' # s) = nest d s" for s by simp
  then show ?thesis using assms nest_str[OF assms(2), of d] by (simp add: memb_def nest_blank del: nest.simps)
qed

lemma nest_jt: "jt_ok t \<Longrightarrow> 0 \<le> d \<Longrightarrow> (d = 0 \<longrightarrow> scalar t) \<Longrightarrow> nest d (jt_text t @ r) = nest d r"
proof (induction t arbitrary: d r)
  case (TLit t)
  then show ?case by (simp add: lit_ok_def nest_lit)
next
  case (TStr s)
  then show ?case using nest_str[of s d r] by simp
next
  case (TArr xs w)
  have d: "0 < d" using TArr.prems by (auto simp: scalar_def)
  show ?case
  proof (cases "xs = []")
    case True
    then show ?thesis using TArr.prems d nest_blank[of w "d + 1" "CHR '']'' # r"] by simp
  next
    case False
    have "nest (d + 1) (item (a, t, b) @ r) = nest (d + 1) r" if "(a, t, b) \<in> set xs" for a t b r
    proof -
      have "blank a" "jt_ok t" "blank b" using that TArr.prems(1) by (auto simp: blank_after_def)
      then show ?thesis using TArr.IH[OF that, of "(t, b)" t "d + 1"] d by (simp add: item_def nest_blank)
    qed
    then have "nest (d + 1) (sep_by (map item xs) @ '']'' @ r) = nest (d + 1) ('']'' @ r)" by (intro nest_sep) auto
    then show ?thesis using d unfolding jt_texts(1)[OF False] by simp
  qed
next
  case (TObj ms w)
  have d: "0 < d" using TObj.prems by (auto simp: scalar_def)
  show ?case
  proof (cases "ms = []")
    case True
    then show ?thesis using TObj.prems d nest_blank[of w "d + 1" "CHR ''}'' # r"] by simp
  next
    case False
    have "nest (d + 1) (memb (a, k, b, c, t, e) @ r) = nest (d + 1) r" if "(a, k, b, c, t, e) \<in> set ms" for a k b c t e r
    proof -
      have "blank a" "raw_ok k" "blank b" "blank c" "jt_ok t" "blank e" using that TObj.prems(1) by (auto simp: blank_after_def)
      then show ?thesis using TObj.IH[OF that, of _ _ _ _ t "d + 1"] d by (intro nest_memb) auto
    qed
    then have "nest (d + 1) (sep_by (map memb ms) @ ''}'' @ r) = nest (d + 1) (''}'' @ r)" by (intro nest_sep) auto
    then show ?thesis using d unfolding jt_texts(2)[OF False] by simp
  qed
qed

text \<open>A balanced value is left by the loop that entered it.\<close>

lemma nest_top:
  assumes "jt_ok t" "\<not> scalar t"
  shows "nest 0 (jt_text t @ r) = Ret r"
proof (cases t)
  case (TArr xs w)
  have "nest 1 ((if xs = [] then w else sep_by (map item xs)) @ CHR '']'' # r) = nest 1 (CHR '']'' # r)"
  proof (cases "xs = []")
    case False
    have "nest 1 (item x @ r) = nest 1 r" if "x \<in> set xs" for x r
    proof -
      obtain a t b where x: "x = (a, t, b)" by (cases x)
      then have "blank a" "jt_ok t" "blank b" using that assms(1) TArr by (auto simp: blank_after_def)
      then show ?thesis unfolding x using nest_jt[of t 1] by (simp add: item_def nest_blank)
    qed
    then show ?thesis using False by (simp add: nest_sep del: nest.simps)
  qed (use assms TArr in \<open>simp add: nest_blank del: nest.simps\<close>)
  then show ?thesis unfolding TArr jt_unfold by (simp split del: if_split)
next
  case (TObj ms w)
  have "nest 1 ((if ms = [] then w else sep_by (map memb ms)) @ CHR ''}'' # r) = nest 1 (CHR ''}'' # r)"
  proof (cases "ms = []")
    case False
    have "nest 1 (memb x @ r) = nest 1 r" if "x \<in> set ms" for x r
    proof -
      obtain a k b c t e where x: "x = (a, k, b, c, t, e)" by (cases x)
      then have "blank a" "raw_ok k" "blank b" "blank c" "jt_ok t" "blank e"
        using that assms(1) TObj by (auto simp: blank_after_def)
      then show ?thesis unfolding x using nest_jt[of t 1] by (intro nest_memb) auto
    qed
    then show ?thesis using False by (simp add: nest_sep del: nest.simps)
  qed (use assms TObj in \<open>simp add: nest_blank del: nest.simps\<close>)
  then show ?thesis unfolding TObj jt_unfold by (simp split del: if_split)
qed (use assms in \<open>simp_all add: scalar_def\<close>)

subsection \<open>The reader on these texts\<close>

text \<open>What the reader reports for a value with \<open>r\<close> behind it.\<close>

definition jt_val :: "jt \<Rightarrow> string \<Rightarrow> json_val" where
  "jt_val t r =
     (case t of
        TLit s \<Rightarrow> \<lparr>jv_type = (if hd s = CHR ''t'' \<or> hd s = CHR ''f'' then JSON_BOOL
                            else if hd s = CHR ''n'' then JSON_NULL else JSON_NUM),
                   jv_start = s @ r, jv_len = length s\<rparr>
      | TStr s \<Rightarrow> \<lparr>jv_type = JSON_STR, jv_start = s @ DQ # r, jv_len = length s\<rparr>
      | TArr _ _ \<Rightarrow> \<lparr>jv_type = JSON_ARR, jv_start = jt_text t @ r, jv_len = length (jt_text t)\<rparr>
      | TObj _ _ \<Rightarrow> \<lparr>jv_type = JSON_OBJ, jv_start = jt_text t @ r, jv_len = length (jt_text t)\<rparr>)"

definition js_val :: "js \<Rightarrow> string \<Rightarrow> json_val" where
  "js_val v r = jt_val (compact v) r"

lemma js_val_JStr: "js_val (JStr s) r = \<lparr>jv_type = JSON_STR, jv_start = s @ DQ # r, jv_len = length s\<rparr>"
  by (simp add: js_val_def jt_val_def)

definition delim :: "string \<Rightarrow> bool" where
  "delim r \<longleftrightarrow> r = [] \<or> json_stop (hd r)"

lemma delim_simps [simp]: "delim []" "delim (CHR '','' # r)" "delim (CHR ''}'' # r)" "delim (CHR '']'' # r)"
  by (simp_all add: delim_def json_stop_def)

lemma value_start_facts:
  "value_start c \<Longrightarrow> \<not> json_ws c \<and> c \<noteq> CHR '']'' \<and> c \<noteq> CHR ''}'' \<and> c \<noteq> CHR '',''"
  by (auto simp: value_start_def json_ws_def)

lemma jt_text_hd:
  assumes "jt_ok t"
  obtains c s where "jt_text t = c # s" "value_start c" "\<not> json_ws c" "c \<noteq> CHR '']''" "c \<noteq> CHR ''}''" "c \<noteq> CHR '',''"
proof -
  have "\<exists>c s. jt_text t = c # s \<and> value_start c"
  proof (cases t)
    case (TLit s)
    then show ?thesis using assms by (cases s) (auto simp: lit_ok_def)
  qed (simp_all add: value_start_def)
  then show thesis using that value_start_facts by blast
qed

lemma skip_ws_nows [simp]: "\<not> json_ws c \<Longrightarrow> json_skip_ws (c # s) = c # s" "json_skip_ws [] = []"
  by (simp_all add: json_skip_ws_def)

lemma skip_ws_jt [simp]: "jt_ok t \<Longrightarrow> json_skip_ws (jt_text t @ r) = jt_text t @ r"
  using jt_text_hd[of t] by (metis append_Cons skip_ws_nows(1))

lemma dropWhile_lit:
  "\<forall>c\<in>set t. \<not> json_stop c \<Longrightarrow> delim r \<Longrightarrow> dropWhile (\<lambda>c. \<not> json_stop c) (t @ r) = r"
  by (induction t) (auto simp: delim_def dropWhile_eq_self_iff)

definition delim_for :: "jt \<Rightarrow> string \<Rightarrow> bool" where
  "delim_for t r \<longleftrightarrow> (case t of TLit _ \<Rightarrow> delim r | _ \<Rightarrow> True)"

lemma delim_for_I: "delim r \<Longrightarrow> delim_for t r"
  by (simp add: delim_for_def split: jt.split)

lemma ws_stop: "json_ws c \<Longrightarrow> c \<noteq> CR \<Longrightarrow> json_stop c"
  unfolding json_ws_def json_stop_def by blast

lemma delim_after:
  assumes "blank_after t b" "delim r"
  shows "delim_for t (b @ r)"
proof (cases t)
  case (TLit s)
  show ?thesis
  proof (cases b)
    case (Cons c b')
    then have "json_ws c" "c \<noteq> CR" using assms(1) TLit by (simp_all add: blank_after_def blank_def)
    then show ?thesis using ws_stop[of c] Cons TLit by (simp add: delim_for_def delim_def)
  qed (use assms(2) TLit in \<open>simp add: delim_for_def\<close>)
qed (simp_all add: delim_for_def)

lemma json_parse_jt:
  assumes "jt_ok t" "delim_for t r"
  shows "json_parse (jt_text t @ r) = Ret (jt_val t r, r)"
proof (cases t)
  case (TLit s)
  then have t: "s \<noteq> []" "value_start (hd s)" "\<forall>c\<in>set s. \<not> json_stop c \<and> c \<noteq> DQ \<and> c \<noteq> CHR ''['' \<and> c \<noteq> CHR ''{''"
    using assms(1) by (auto simp: lit_ok_def)
  then obtain c u where cu: "s = c # u" by (cases s) auto
  have "dropWhile (\<lambda>c. \<not> json_stop c) (s @ r) = r" using t assms(2) TLit by (intro dropWhile_lit) (auto simp: delim_for_def)
  then show ?thesis
    using TLit t value_start_facts[of c]
    by (simp add: cu json_parse_def Let_def json_span_def jt_val_def del: dropWhile.simps)
next
  case (TStr s)
  then show ?thesis
    using assms(1) by (simp add: json_parse_def json_ws_def str_scan_raw jt_val_def Let_def)
next
  case (TArr xs w)
  then have "nest 0 (jt_text t @ r) = Ret r" using assms(1) by (intro nest_top) (auto simp: scalar_def)
  then show ?thesis
    using TArr by (simp add: json_parse_def json_ws_def jt_val_def Let_def json_span_def del: nest.simps)
next
  case (TObj ms w)
  then have "nest 0 (jt_text t @ r) = Ret r" using assms(1) by (intro nest_top) (auto simp: scalar_def)
  then show ?thesis
    using TObj by (simp add: json_parse_def json_ws_def jt_val_def Let_def json_span_def del: nest.simps)
qed

definition more :: "('a \<Rightarrow> string) \<Rightarrow> 'a list \<Rightarrow> string \<Rightarrow> string" where
  "more f xs r = (case xs of [] \<Rightarrow> r | _ \<Rightarrow> CHR '','' # sep_by (map f xs) @ r)"

lemma sep_by_more: "sep_by (map f (x # xs)) @ r = f x @ more f xs r"
  by (cases xs) (simp_all add: more_def)

lemma more_delim: "delim r \<Longrightarrow> delim (more f xs r)"
  by (cases xs) (simp_all add: more_def)

lemma nws_lits [simp]: "\<not> json_ws CHR '':''" "\<not> json_ws CHR '',''" "\<not> json_ws CHR ''}''" "\<not> json_ws CHR '']''" "\<not> json_ws DQ"
  by (simp_all add: json_ws_def)

text \<open>The first member of a name, with what is behind its value.\<close>

fun mem_find :: "(string \<times> string \<times> string \<times> string \<times> jt \<times> string) list \<Rightarrow> string \<Rightarrow> string \<Rightarrow> (jt \<times> string) option" where
  "mem_find [] r key = None"
| "mem_find ((a, k, b, c, t, d) # ms) r key = (if k = key then Some (t, d @ more memb ms r) else mem_find ms r key)"

definition named :: "string \<times> string \<times> string \<times> string \<times> jt \<times> string \<Rightarrow> string \<times> jt" where
  "named = (\<lambda>(a, k, b, c, t, d). (k, t))"

lemma mem_find_map_of: "map_option fst (mem_find ms r key) = map_of (map named ms) key"
  by (induction ms r key rule: mem_find.induct) (auto simp: named_def)

definition memb_ok :: "string \<times> string \<times> string \<times> string \<times> jt \<times> string \<Rightarrow> bool" where
  "memb_ok = (\<lambda>(a, k, b, c, t, d). blank a \<and> raw_ok k \<and> blank b \<and> blank c \<and> jt_ok t \<and> blank_after t d)"

lemma obj_loop_jt:
  assumes "\<forall>m\<in>set ms. memb_ok m" "ms \<noteq> []"
  shows "obj_loop (json_skip_ws (sep_by (map memb ms) @ CHR ''}'' # r)) key =
     Ret (map_option (\<lambda>(t, r'). jt_val t r') (mem_find ms (CHR ''}'' # r) key))"
  using assms
proof (induction ms)
  case (Cons m ms)
  obtain a k b c t d where m: "m = (a, k, b, c, t, d)" by (cases m)
  define r' where "r' = more memb ms (CHR ''}'' # r)"
  have ok: "blank a" "raw_ok k" "blank b" "blank c" "jt_ok t" "blank_after t d" "blank d"
    using Cons.prems(1) m by (auto simp: memb_ok_def blank_after_def)
  have tx: "json_skip_ws (sep_by (map memb (m # ms)) @ CHR ''}'' # r) = DQ # k @ DQ # b @ CHR '':'' # c @ jt_text t @ d @ r'"
    unfolding sep_by_more using ok by (simp add: m memb_def r'_def)
  have pv: "json_parse (jt_text t @ d @ r') = Ret (jt_val t (d @ r'), d @ r')"
    using ok more_delim[of "CHR ''}'' # r" memb ms] by (intro json_parse_jt delim_after) (simp_all add: r'_def)
  have step: "obj_loop (DQ # k @ DQ # b @ CHR '':'' # c @ jt_text t @ d @ r') key =
      (if k = key then Ret (Some (jt_val t (d @ r')))
       else case json_skip_ws r' of
              x # p \<Rightarrow> if x = CHR '','' then obj_loop (json_skip_ws p) key else Ret None
            | [] \<Rightarrow> Ret None)"
    by (subst obj_loop.simps) (auto simp: str_scan_raw[OF ok(2)] pv ok split: list.split)
  show ?case
  proof (cases ms)
    case Nil
    then show ?thesis unfolding tx step by (simp add: m r'_def more_def)
  next
    case (Cons m2 ms2)
    then show ?thesis
      using Cons.IH Cons.prems unfolding tx step by (simp add: m r'_def more_def)
  qed
qed simp

subsection \<open>Paths\<close>

fun arr_find :: "(string \<times> jt \<times> string) list \<Rightarrow> nat \<Rightarrow> string \<Rightarrow> (jt \<times> string) option" where
  "arr_find [] i r = None"
| "arr_find ((a, t, b) # xs) 0 r = Some (t, b @ more item xs r)"
| "arr_find (x # xs) (Suc i) r = arr_find xs i r"

lemma arr_find_nth: "map_option fst (arr_find xs i r) = (if i < length xs then Some (fst (snd (xs ! i))) else None)"
  by (induction xs i r rule: arr_find.induct) auto

definition item_ok :: "string \<times> jt \<times> string \<Rightarrow> bool" where
  "item_ok = (\<lambda>(a, t, b). blank a \<and> jt_ok t \<and> blank_after t b)"

definition arr_end :: "nat \<Rightarrow> string \<Rightarrow> string option run" where
  "arr_end i p =
     (case arr_skip i p of
        Ret (Some q) \<Rightarrow> (case json_skip_ws q of c # t \<Rightarrow> if c = CHR '']'' then Ret None else Ret (Some (c # t)) | [] \<Rightarrow> Ret (Some []))
      | x \<Rightarrow> x)"

lemma skip_skip [simp]: "json_skip_ws (json_skip_ws s) = json_skip_ws s"
  by (simp add: json_skip_ws_def dropWhile_idem)

lemma arr_end_skip [simp]: "arr_end i (json_skip_ws p) = arr_end i p"
  by (cases i) (simp_all add: arr_end_def)

lemma arr_end_jt:
  assumes "\<forall>x\<in>set xs. item_ok x"
  shows "arr_end i (sep_by (map item xs) @ CHR '']'' # r) =
    Ret (map_option (\<lambda>(t, r'). jt_text t @ r') (arr_find xs i (CHR '']'' # r)))"
  using assms
proof (induction xs i "CHR '']'' # r" rule: arr_find.induct)
  case (1 i)
  then show ?case by (cases i) (simp_all add: arr_end_def)
next
  case (2 a t b xs)
  have ok: "blank a" "jt_ok t" using 2 by (simp_all add: item_ok_def)
  obtain c s where "jt_text t = c # s" "\<not> json_ws c" "c \<noteq> CHR '']''" using jt_text_hd[OF ok(2)] by blast
  then show ?case unfolding sep_by_more using ok by (simp add: arr_end_def item_def)
next
  case (3 x xs i)
  obtain a t b where x: "x = (a, t, b)" by (cases x)
  have ok: "blank a" "jt_ok t" "blank_after t b" "blank b" using 3 x by (auto simp: item_ok_def blank_after_def)
  let ?m = "more item xs (CHR '']'' # r)"
  obtain c s where c: "jt_text t = c # s" "value_start c" "\<not> json_ws c" "c \<noteq> CHR '']''" using jt_text_hd[OF ok(2)] by blast
  have pv: "json_parse (jt_text t @ b @ ?m) = Ret (jt_val t (b @ ?m), b @ ?m)"
    using ok by (intro json_parse_jt delim_after more_delim) simp_all
  have st: "arr_skip (Suc i) (sep_by (map item (x # xs)) @ CHR '']'' # r) =
      (case json_skip_ws ?m of
             c2 # q2 \<Rightarrow> if c2 = CHR '','' then arr_skip i (json_skip_ws q2)
                        else if c2 = CHR '']'' then Ret None else arr_skip i (c2 # q2)
           | [] \<Rightarrow> arr_skip i [])"
    unfolding sep_by_more using pv c ok by (simp add: x item_def)
  show ?case
  proof (cases xs)
    case Nil
    then show ?thesis using st by (simp add: arr_end_def more_def)
  next
    case (Cons y ys)
    have "arr_skip (Suc i) (sep_by (map item (x # xs)) @ CHR '']'' # r) = arr_skip i (json_skip_ws (sep_by (map item xs) @ CHR '']'' # r))"
      unfolding st using Cons by (simp add: more_def)
    then have "arr_end (Suc i) (sep_by (map item (x # xs)) @ CHR '']'' # r) = arr_end i (sep_by (map item xs) @ CHR '']'' # r)"
      using arr_end_skip[of i "sep_by (map item xs) @ CHR '']'' # r"] unfolding arr_end_def by simp
    then show ?thesis using 3 by simp
  qed
qed

text \<open>The value a path segment names: a member, or an element when the segment starts with a
  digit. The outer \<open>None\<close> is a segment of the wrong kind for the value.\<close>

definition idx_seg :: "string \<Rightarrow> bool" where
  "idx_seg seg \<longleftrightarrow> seg \<noteq> [] \<and> is_digit (hd seg)"

fun js_member :: "js \<Rightarrow> string \<Rightarrow> js option option" where
  "js_member (JObj kvs) seg = (if idx_seg seg then None else Some (map_of kvs seg))"
| "js_member (JArr vs) seg =
     (if idx_seg seg
      then Some (let i = nat (atoi seg) in if i < length vs then Some (vs ! i) else None) else None)"
| "js_member _ seg = None"

fun js_path :: "js \<Rightarrow> string list \<Rightarrow> js option option" where
  "js_path v [] = Some (Some v)"
| "js_path v (s # ss) =
     (case js_member v s of None \<Rightarrow> None | Some None \<Rightarrow> Some None | Some (Some w) \<Rightarrow> js_path w ss)"

lemma obj_step:
  assumes "jt_ok (TObj ms w)" "\<not> idx_seg seg"
  shows "json_step (jt_text (TObj ms w) @ r) seg = Ret (map_option (\<lambda>(t, r'). jt_val t r') (mem_find ms (CHR ''}'' # r) seg))"
proof (cases ms)
  case Nil
  then show ?thesis using assms by (auto simp: json_step_def idx_seg_def json_find_in_obj_def split: if_splits)
next
  case (Cons m ms2)
  have mo: "\<forall>m\<in>set ms. memb_ok m" using assms(1) by (auto simp: memb_ok_def)
  obtain a k b c t d where m: "m = (a, k, b, c, t, d)" by (cases m)
  have "blank a" using mo Cons m by (simp add: memb_ok_def)
  then have hd: "\<exists>t. json_skip_ws (sep_by (map memb ms) @ CHR ''}'' # r) = DQ # t"
    unfolding Cons sep_by_more by (simp add: m memb_def)
  have tx: "jt_text (TObj ms w) @ r = CHR ''{'' # sep_by (map memb ms) @ CHR ''}'' # r" using jt_texts(2)[of ms w] Cons by simp
  have "json_step (jt_text (TObj ms w) @ r) seg = obj_loop (json_skip_ws (sep_by (map memb ms) @ CHR ''}'' # r)) seg"
    using assms(2) hd unfolding tx by (auto simp: json_step_def idx_seg_def json_find_in_obj_def)
  also have "\<dots> = Ret (map_option (\<lambda>(t, r'). jt_val t r') (mem_find ms (CHR ''}'' # r) seg))"
    using mo Cons by (intro obj_loop_jt) auto
  finally show ?thesis .
qed

lemma step_bracket:
  assumes "idx_seg seg"
  shows "json_step (CHR ''['' # b) seg = (case arr_end (nat (atoi seg)) (json_skip_ws b) of
      Ret None \<Rightarrow> Ret None | Ret (Some p) \<Rightarrow> (case json_parse p of Ret (v, _) \<Rightarrow> Ret (Some v) | _ \<Rightarrow> Fault) | _ \<Rightarrow> Fault)"
proof (cases "arr_skip (nat (atoi seg)) (json_skip_ws b)")
  case (Ret x)
  then show ?thesis using assms
    by (cases x) (simp_all add: json_step_def idx_seg_def arr_end_def split: list.split)
qed (use assms in \<open>simp_all add: json_step_def idx_seg_def arr_end_def\<close>)

lemma arr_step:
  assumes "jt_ok (TArr xs w)" "idx_seg seg"
  shows "json_step (jt_text (TArr xs w) @ r) seg =
    (case arr_find xs (nat (atoi seg)) (CHR '']'' # r) of None \<Rightarrow> Ret None
     | Some (t, r') \<Rightarrow> (case json_parse (jt_text t @ r') of Ret (v, _) \<Rightarrow> Ret (Some v) | _ \<Rightarrow> Fault))"
proof -
  let ?b = "(if xs = [] then w else sep_by (map item xs)) @ CHR '']'' # r"
  have tx: "jt_text (TArr xs w) @ r = CHR ''['' # ?b" unfolding jt_unfold by (simp split del: if_split)
  have "json_step (jt_text (TArr xs w) @ r) seg = (case arr_end (nat (atoi seg)) (json_skip_ws ?b) of
      Ret None \<Rightarrow> Ret None | Ret (Some p) \<Rightarrow> (case json_parse p of Ret (v, _) \<Rightarrow> Ret (Some v) | _ \<Rightarrow> Fault) | _ \<Rightarrow> Fault)"
    unfolding tx by (rule step_bracket[OF assms(2)])
  moreover have "arr_end (nat (atoi seg)) (json_skip_ws ?b) =
      Ret (map_option (\<lambda>(t, r'). jt_text t @ r') (arr_find xs (nat (atoi seg)) (CHR '']'' # r)))"
  proof (cases "xs = []")
    case True
    then show ?thesis using assms(1) by (cases "nat (atoi seg)") (simp_all add: arr_end_def)
  next
    case False
    then show ?thesis using arr_end_jt[of xs] assms(1) by (auto simp: item_ok_def)
  qed
  ultimately show ?thesis by (auto split: option.splits prod.splits)
qed

lemma arr_find_delim:
  "\<forall>x\<in>set xs. item_ok x \<Longrightarrow> arr_find xs i (CHR '']'' # r) = Some (u, r') \<Longrightarrow> delim_for u r'"
  by (induction xs i "CHR '']'' # r" rule: arr_find.induct) (auto simp: item_ok_def intro!: delim_after more_delim)

lemma named_js: "map_of (map (\<lambda>(a, k, b, c, t, d). (k, jt_js t)) ms) key = map_option jt_js (map_of (map named ms) key)"
  by (induction ms) (auto simp: named_def)

lemma json_step_jt:
  assumes "jt_ok t" "js_member (jt_js t) seg = Some res"
  shows "case res of None \<Rightarrow> json_step (jt_text t @ r) seg = Ret None
    | Some w \<Rightarrow> \<exists>u r'. jt_ok u \<and> jt_js u = w \<and> json_step (jt_text t @ r) seg = Ret (Some (jt_val u r'))"
proof (cases t)
  case (TObj ms w)
  have i: "\<not> idx_seg seg" and res: "res = map_option jt_js (map_of (map named ms) seg)"
    using assms(2) TObj by (auto simp: named_js split: if_splits)
  note st = obj_step[OF assms(1)[unfolded TObj] i, of r]
  show ?thesis
  proof (cases "mem_find ms (CHR ''}'' # r) seg")
    case None
    then show ?thesis using st res mem_find_map_of[of ms "CHR ''}'' # r" seg] TObj by simp
  next
    case (Some ur)
    obtain u r' where ur: "ur = (u, r')" by (cases ur)
    have mo: "map_of (map named ms) seg = Some u" using Some ur mem_find_map_of[of ms "CHR ''}'' # r" seg] by simp
    then have "jt_ok u" using assms(1) TObj by (auto simp: named_def dest!: map_of_SomeD)
    then show ?thesis using st Some ur res mo TObj by auto
  qed
next
  case (TArr xs w)
  have i: "idx_seg seg" and res: "res = (if nat (atoi seg) < length xs then Some (jt_js (fst (snd (xs ! nat (atoi seg))))) else None)"
    using assms(2) TArr by (auto simp: Let_def case_prod_unfold split: if_splits)
  note st = arr_step[OF assms(1)[unfolded TArr] i, of r]
  show ?thesis
  proof (cases "arr_find xs (nat (atoi seg)) (CHR '']'' # r)")
    case None
    then show ?thesis using st res arr_find_nth[of xs "nat (atoi seg)" "CHR '']'' # r"] TArr by (auto split: if_splits)
  next
    case (Some ur)
    obtain u r' where ur: "ur = (u, r')" by (cases ur)
    have u: "nat (atoi seg) < length xs" "u = fst (snd (xs ! nat (atoi seg)))"
      using Some ur arr_find_nth[of xs "nat (atoi seg)" "CHR '']'' # r"] by (auto split: if_splits)
    have "xs ! nat (atoi seg) \<in> set xs" using u(1) by simp
    then have ok: "jt_ok u" using assms(1) TArr u(2) by (auto simp: case_prod_unfold)
    have "delim_for u r'" using arr_find_delim[OF _ Some[unfolded ur]] assms(1) TArr by (auto simp: item_ok_def)
    then have "json_step (jt_text t @ r) seg = Ret (Some (jt_val u r'))" "res = Some (jt_js u)"
      using st Some ur res u(1) u(2)[symmetric] ok TArr by (simp_all add: json_parse_jt)
    then show ?thesis using ok by auto
  qed
qed (use assms in auto)

fun join_dot :: "string list \<Rightarrow> string" where
  "join_dot [] = []"
| "join_dot [s] = s"
| "join_dot (s # t # ss) = s @ CHR ''.'' # join_dot (t # ss)"

definition seg_ok :: "string \<Rightarrow> bool" where
  "seg_ok s \<longleftrightarrow> s \<noteq> [] \<and> CHR ''.'' \<notin> set s \<and> length s < 128"

lemma join_dot_seg:
  assumes "seg_ok s"
  shows "takeWhile (\<lambda>c. c \<noteq> CHR ''.'') (join_dot (s # ss)) = s"
    "tl (dropWhile (\<lambda>c. c \<noteq> CHR ''.'') (join_dot (s # ss))) = join_dot ss"
  using assms by (cases ss; simp add: seg_ok_def takeWhile_no dropWhile_no)+

lemma join_dot_Nil: "\<forall>s\<in>set ss. seg_ok s \<Longrightarrow> join_dot ss = [] \<longleftrightarrow> ss = []"
  by (cases ss rule: join_dot.cases) (auto simp: seg_ok_def)

lemma jt_val_start: "js_path (jt_js t) (s # ss) = Some r \<Longrightarrow> jv_start (jt_val t q) = jt_text t @ q"
  by (cases t) (auto simp: jt_val_def)

lemma json_find_jt:
  assumes "jt_ok t" "\<forall>s\<in>set segs. seg_ok s" "segs \<noteq> []" "js_path (jt_js t) segs = Some res"
  shows "case res of None \<Rightarrow> json_find (jt_text t @ r) (join_dot segs) = Ret None
    | Some w \<Rightarrow> \<exists>u q. jt_js u = w \<and> json_find (jt_text t @ r) (join_dot segs) = Ret (Some (jt_val u q))"
  using assms
proof (induction segs arbitrary: t r)
  case (Cons s ss)
  have sk: "seg_ok s" using Cons.prems by simp
  obtain m where m: "js_member (jt_js t) s = Some m" using Cons.prems(4) by (auto split: option.splits)
  note step = json_step_jt[OF Cons.prems(1) m, of r]
  have unf: "json_find (jt_text t @ r) (join_dot (s # ss)) =
      (case json_step (jt_text t @ r) s of Ret None \<Rightarrow> Ret None
       | Ret (Some w) \<Rightarrow> if join_dot ss = [] then Ret (Some w) else json_find (jv_start w) (join_dot ss)
       | _ \<Rightarrow> Fault)"
    using sk join_dot_Nil[of "s # ss"] Cons.prems(2)
    by (subst json_find.simps) (simp only: join_dot_seg[OF sk] Let_def, auto simp: seg_ok_def split: run.split)
  show ?case
  proof (cases m)
    case None
    then show ?thesis using step unf m Cons.prems(4) by simp
  next
    case (Some w)
    then obtain u r' where w: "jt_ok u" "jt_js u = w" "json_step (jt_text t @ r) s = Ret (Some (jt_val u r'))" using step by auto
    have ss: "\<forall>s\<in>set ss. seg_ok s" using Cons.prems by simp
    have p: "js_path (jt_js u) ss = Some res" using Cons.prems(4) m Some w(2) by simp
    show ?thesis
    proof (cases ss)
      case Nil
      then have "json_find (jt_text t @ r) (join_dot (s # ss)) = Ret (Some (jt_val u r'))" "res = Some (jt_js u)"
        using unf w p by simp_all
      then show ?thesis by auto
    next
      case (Cons y yy)
      have "join_dot ss \<noteq> []" using join_dot_Nil[OF ss] Cons by simp
      moreover have "jv_start (jt_val u r') = jt_text u @ r'" using p Cons jt_val_start by simp
      ultimately have e: "json_find (jt_text t @ r) (join_dot (s # ss)) = json_find (jt_text u @ r') (join_dot ss)"
        using unf w by simp
      have "ss \<noteq> []" using Cons by simp
      then show ?thesis unfolding e by (rule Cons.IH[OF w(1) ss _ p])
    qed
  qed
qed simp

text \<open>On the text without blanks the string found is exactly this.\<close>

lemma json_find_js:
  assumes "js_ok v" "\<forall>s\<in>set segs. seg_ok s" "segs \<noteq> []" "js_path v segs = Some (Some (JStr x))"
  shows "\<exists>q. json_find (js_text v @ r) (join_dot segs) = Ret (Some (js_val (JStr x) q))"
proof -
  have "js_path (jt_js (compact v)) segs = Some (Some (JStr x))" using assms(4) by (simp add: compact_js)
  from json_find_jt[OF compact_ok[OF assms(1)] assms(2,3) this, of r] obtain u q where
    u: "jt_js u = JStr x" "json_find (js_text v @ r) (join_dot segs) = Ret (Some (jt_val u q))"
    by (auto simp: compact_text)
  then have "u = TStr x" by (cases u) auto
  then show ?thesis using u(2) by (auto simp: js_val_def)
qed

lemma json_find_none:
  assumes "js_ok v" "\<forall>s\<in>set segs. seg_ok s" "segs \<noteq> []" "js_path v segs = Some None"
  shows "json_find (js_text v @ r) (join_dot segs) = Ret None"
  using json_find_jt[OF compact_ok[OF assms(1)] assms(2,3), of None r] assms(4) by (simp add: compact_js compact_text)

text \<open>C20: On every text of a JSON value, with blanks (space, tab, line feed, carriage return) wherever JSON
  allows them and anything behind it, \<open>json_find\<close> follows a dotted path of member names and array
  indices to exactly the value the path names: it reports the value's type, the place where it
  starts and its length, and reports nothing when a member or an index on the way does not
  exist. The text starts with its value, and a blank behind a literal does not begin with a carriage
  return (the reader would take it into the literal).\<close>

theorem json_find_path:
  assumes "jt_ok t" "\<forall>s\<in>set segs. seg_ok s" "segs \<noteq> []" "js_path (jt_js t) segs = Some res"
  shows "case res of None \<Rightarrow> json_find (jt_text t @ r) (join_dot segs) = Ret None
    | Some w \<Rightarrow> \<exists>u q. jt_js u = w \<and> json_find (jt_text t @ r) (join_dot segs) = Ret (Some (jt_val u q))"
  by (rule json_find_jt[OF assms])

definition chat_doc :: jt where
  "chat_doc = TObj [([LF, SP], ''stream'', [], [SP], TLit ''true'', []),
     ([LF, SP], ''messages'', [SP], [SP], TArr [([SP], TObj [([], ''role'', [], [SP], TStr ''user'', []),
       ([SP], ''content'', [], [SP], TStr ''hi'', [SP])] [], [SP])] [], [LF])] []"

theorem json_find_path_witness:
  "\<exists>u q. jt_js u = JStr ''hi'' \<and> json_find (jt_text chat_doc @ ''tail'') ''messages.0.content'' = Ret (Some (jt_val u q))"
proof -
  have "jt_ok chat_doc"
    by (simp add: chat_doc_def lit_ok_def value_start_def json_stop_def blank_def json_ws_def blank_after_def)
  moreover have "nat (atoi ''0'') = 0" by (simp add: atoi_def atol_def strtol_raw_def is_space_def code_def is_digit_def)
  then have "js_path (jt_js chat_doc) [''messages'', ''0'', ''content''] = Some (Some (JStr ''hi''))"
    by (simp add: chat_doc_def idx_seg_def is_digit_def code_def)
  ultimately show ?thesis
    using json_find_path[of chat_doc "[''messages'', ''0'', ''content'']" "Some (JStr ''hi'')" "''tail''"]
    by (simp add: seg_ok_def)
qed

subsection \<open>Strings\<close>

text \<open>How a client escapes a text.\<close>

fun json_escape :: "string \<Rightarrow> string" where
  "json_escape [] = []"
| "json_escape (c # s) =
     (if c = DQ \<or> c = BSL then [BSL, c]
      else if c = LF then [BSL, CHR ''n''] else if c = TAB then [BSL, CHR ''t'']
      else if c = CR then [BSL, CHR ''r''] else [c]) @ json_escape s"

lemma raw_ok_escape: "raw_ok (json_escape s)"
  by (induction s) auto

lemma unescape_plain: "c \<noteq> BSL \<Longrightarrow> json_str_unescape (c # s) = c # json_str_unescape s"
  by (cases s) auto

lemma unescape_escape: "json_str_unescape (json_escape s) = s"
  by (induction s) (auto simp: unescape_plain)

text \<open>A text a client sends as the escaped string member of a JSON object is read back
  exactly by \<open>json_find\<close> and \<open>json_str_unescape\<close>; but an escape \<open>\uXXXX\<close> is not decoded: the
  backslash is dropped and the letter \<open>u\<close> and the digits are kept as text.\<close>

theorem json_string_roundtrip:
  assumes "seg_ok key" "\<not> idx_seg key" "raw_ok key"
  shows "(\<exists>v. json_find (js_text (JObj [(key, JStr (json_escape s))]) @ r) key = Ret (Some v) \<and>
      jv_type v = JSON_STR \<and> json_str_unescape (take (jv_len v) (jv_start v)) = s) \<and>
    json_str_unescape (BSL # CHR ''u'' # s) = CHR ''u'' # json_str_unescape s"
proof -
  have "\<exists>q. json_find (js_text (JObj [(key, JStr (json_escape s))]) @ r) (join_dot [key]) =
      Ret (Some (js_val (JStr (json_escape s)) q))"
    using json_find_js[of "JObj [(key, JStr (json_escape s))]" "[key]" "json_escape s" r]
      assms raw_ok_escape by simp
  then show ?thesis by (auto simp: js_val_JStr unescape_escape)
qed

theorem json_string_roundtrip_witness:
  "\<exists>v. json_find (js_text (JObj [(''prompt'', JStr (json_escape (''say '' @ [DQ] @ ''hi'' @ [DQ, LF])))]) @ []) ''prompt'' = Ret (Some v) \<and>
      jv_type v = JSON_STR \<and> json_str_unescape (take (jv_len v) (jv_start v)) = ''say '' @ [DQ] @ ''hi'' @ [DQ, LF]"
  using json_string_roundtrip[of "''prompt''" "''say '' @ [DQ] @ ''hi'' @ [DQ, LF]" "[]"]
  by (simp add: seg_ok_def idx_seg_def is_digit_def code_def)

text \<open>Where a text stands with respect to its strings: outside, inside, or behind a backslash inside.\<close>

datatype quote = Outside | Inside | Escaped

fun quotes :: "quote \<Rightarrow> string \<Rightarrow> quote" where
  "quotes x [] = x"
| "quotes Outside (c # s) = quotes (if c = DQ then Inside else Outside) s"
| "quotes Inside (c # s) = quotes (if c = DQ then Outside else if c = BSL then Escaped else Inside) s"
| "quotes Escaped (c # s) = quotes Inside s"

lemma str_scan_quotes:
  "case str_scan s of Ret q \<Rightarrow> q = [] \<or> quotes Inside s = quotes Outside (skip_quote q) | _ \<Rightarrow> str_scan s = Fault \<and> quotes Inside s = Escaped"
proof (induction s rule: str_scan.induct)
  case (2 c s)
  consider (dq) "c = DQ" | (bs) "c \<noteq> DQ" "c = BSL" | (no) "c \<noteq> DQ" "c \<noteq> BSL" by blast
  then show ?case
  proof cases
    case bs
    then show ?thesis using "2.IH"(1) by (cases s) (simp_all split: run.splits)
  qed (use "2.IH"(2) in \<open>simp_all add: skip_quote_def split: run.splits\<close>)
qed simp

lemma nest_quotes: "(\<forall>q. nest d s \<noteq> Ret q) \<Longrightarrow> quotes Outside s = Escaped"
proof (induction d s rule: nest.induct)
  case (2 d c s)
  show ?case
  proof (cases "c = DQ")
    case True
    then show ?thesis using 2 str_scan_quotes[of s] by (auto simp: skip_quote_def split: run.splits)
  qed (use 2 in \<open>auto split: if_splits\<close>)
qed simp

lemma quotes_blank: "blank w \<Longrightarrow> quotes Outside (w @ s) = quotes Outside s"
  by (induction w) (auto simp: blank_def json_ws_def)

text \<open>C39: \<open>json_parse\<close> always ends, and reads past the terminating NUL only on a text that stops inside a
  string directly behind a backslash.\<close>

theorem json_parse_in_bounds:
  "(\<exists>v r. json_parse s = Ret (v, r)) \<or> (json_parse s = Fault \<and> quotes Outside s = Escaped)"
proof (cases "\<exists>v r. json_parse s = Ret (v, r)")
  case False
  have "json_parse s = Fault"
    using False by (auto simp: json_parse_def json_span_def Let_def split: list.splits if_splits run.splits)
  moreover have "quotes Outside (json_skip_ws s) = Escaped"
  proof (cases "json_skip_ws s")
    case (Cons c t)
    show ?thesis
    proof (cases "c = DQ")
      case True
      then have "\<forall>q. str_scan t \<noteq> Ret q" using False Cons by (auto simp: json_parse_def Let_def)
      then show ?thesis using str_scan_quotes[of t] Cons True by (auto split: run.splits)
    next
      case False2: False
      then have "\<forall>q. nest 0 (c # t) \<noteq> Ret q"
        using False Cons by (auto simp: json_parse_def Let_def json_span_def split: if_splits run.splits)
      then show ?thesis using nest_quotes Cons by metis
    qed
  qed (use False in \<open>simp add: json_parse_def json_span_def\<close>)
  moreover have "blank (takeWhile json_ws s)" by (auto simp: blank_def dest: set_takeWhileD)
  from quotes_blank[OF this, of "json_skip_ws s"] have "quotes Outside s = quotes Outside (json_skip_ws s)"
    by (simp add: json_skip_ws_def)
  ultimately show ?thesis by simp
qed blast

end
