(* ===== verification/Http.thy ===== *)
theory Http
  imports Wire
begin

text \<open>
  The HTTP/1.1 server side (\<^verbatim>\<open>serve/http.h\<close>): reading a request from the byte stream of a
  connection, the header lookups, and the responses as the bytes written to the connection.
  Allocations succeed, except those of more than \<open>SSIZE_MAX\<close> bytes, which fail.
\<close>

definition HTTP_MAX_LINE :: nat where "HTTP_MAX_LINE = 8192"
definition HTTP_MAX_HEADERS :: nat where "HTTP_MAX_HEADERS = 32"

subsection \<open>Requests\<close>

record http_request =
  hq_method :: string
  hq_path :: string
  hq_version :: string
  hq_headers :: "string list"
  hq_body :: "bytes option"

text \<open>ASCII case folding, \<open>strncasecmp(s, k, strlen(k)) == 0\<close>.\<close>

definition lower :: "char \<Rightarrow> char" where
  "lower c = (if 65 \<le> code c \<and> code c \<le> 90 then char_of (code c + 32) else c)"

definition starts_ci :: "string \<Rightarrow> string \<Rightarrow> bool" where
  "starts_ci k s \<longleftrightarrow> map lower (take (length k) s) = map lower k"

definition skip_blank :: "string \<Rightarrow> string" where
  "skip_blank s = dropWhile (\<lambda>c. c = SP \<or> c = TAB) s"

text \<open>The first \<open>Authorization\<close> header with a bearer token, or \<open>api-key\<close> header.\<close>

fun auth_scan :: "nat \<Rightarrow> string list \<Rightarrow> string option" where
  "auth_scan outsz [] = None"
| "auth_scan outsz (h # hs) =
     (if starts_ci ''Authorization:'' h then
        (let p = skip_blank (drop 14 h) in
         if starts_ci ''Bearer '' p then Some (take (outsz - 1) (skip_blank (drop 7 p))) else auth_scan outsz hs)
      else if starts_ci ''api-key:'' h then Some (take (outsz - 1) (skip_blank (drop 8 h)))
      else auth_scan outsz hs)"

definition http_auth_key :: "http_request \<Rightarrow> nat \<Rightarrow> string option" where
  "http_auth_key req outsz = auth_scan outsz (hq_headers req)"

fun header_scan :: "string \<Rightarrow> nat \<Rightarrow> string list \<Rightarrow> string option" where
  "header_scan name outsz [] = None"
| "header_scan name outsz (h # hs) =
     (if starts_ci name h \<and> starts '':'' (drop (length name) h)
      then Some (take (outsz - 1) (skip_blank (drop (length name + 1) h)))
      else header_scan name outsz hs)"

definition http_header_get :: "http_request \<Rightarrow> string \<Rightarrow> nat \<Rightarrow> string option" where
  "http_header_get req name outsz = header_scan name outsz (hq_headers req)"

text \<open>One \<open>%Ns\<close> of \<open>sscanf\<close>: a word longer than the width is split.\<close>

definition scan_tok :: "nat \<Rightarrow> string \<Rightarrow> (string \<times> string) option" where
  "scan_tok n s =
     (let t = dropWhile is_space s; w = take n (takeWhile (\<lambda>c. \<not> is_space c) t) in
      if w = [] then None else Some (w, drop (length w) t))"

text \<open>The header loop: at most \<open>n\<close> further headers.\<close>

fun headers_loop :: "nat \<Rightarrow> bytes \<Rightarrow> (string list \<times> bytes) option" where
  "headers_loop 0 s = Some ([], s)"
| "headers_loop (Suc n) s =
     (case sock_recv_line HTTP_MAX_LINE s of
        None \<Rightarrow> None
      | Some (line, s) \<Rightarrow>
          if line = [] then Some ([], s)
          else (case headers_loop n s of
                  None \<Rightarrow> None
                | Some (hs, r) \<Rightarrow> Some (snprintf_s 512 (cstr line) # hs, r)))"

text \<open>\<open>(size_t)atol\<close> of the last \<open>Content-Length\<close> header.\<close>

definition content_len :: "string list \<Rightarrow> nat" where
  "content_len hs =
     fold (\<lambda>h n. if starts_ci ''Content-Length:'' h then nat (atol (drop 15 h) mod 2 ^ 64) else n) hs 0"

text \<open>A length of -1 allocates \<open>SIZE_MAX + 1 = 0\<close> bytes and then receives into them.\<close>

definition http_parse_request :: "bytes \<Rightarrow> (http_request \<times> bytes) option run" where
  "http_parse_request s =
     (case sock_recv_line HTTP_MAX_LINE s of
        None \<Rightarrow> Ret None
      | Some (line, s) \<Rightarrow>
        (case scan_tok 15 (cstr line) of None \<Rightarrow> Ret None
         | Some (meth, l) \<Rightarrow>
        (case scan_tok 511 l of None \<Rightarrow> Ret None
         | Some (path, l) \<Rightarrow>
        (case scan_tok 15 l of None \<Rightarrow> Ret None
         | Some (version, _) \<Rightarrow>
        (case headers_loop HTTP_MAX_HEADERS s of None \<Rightarrow> Ret None
         | Some (hs, s) \<Rightarrow>
           let clen = content_len hs;
               req = \<lparr>hq_method = meth, hq_path = path, hq_version = version, hq_headers = hs, hq_body = None\<rparr> in
           if clen = 0 then Ret (Some (req, s))
           else if clen + 1 = 2 ^ 64 then (if s = [] then Ret None else Fault)
           else if clen + 1 \<ge> 2 ^ 63 then Ret None
           else (case recv_n clen s of
                   None \<Rightarrow> Ret None
                 | Some (b, s) \<Rightarrow> Ret (Some (req\<lparr>hq_body := Some b\<rparr>, s))))))))"

subsection \<open>Responses\<close>

record http_response =
  hr_status :: int
  hr_type :: string
  hr_extra :: string

definition CRLF :: string where "CRLF = [CR, LF]"

definition http_add_header :: "http_response \<Rightarrow> string \<Rightarrow> string \<Rightarrow> http_response" where
  "http_add_header r name v =
     (let n = length (hr_extra r) in
      if n \<ge> 511 then r
      else r\<lparr>hr_extra := hr_extra r @ snprintf_s (512 - n) (name @ '': '' @ v @ CRLF)\<rparr>)"

definition http_begin :: "int \<Rightarrow> http_response" where
  "http_begin status = \<lparr>hr_status = status, hr_type = ''application/json; charset=utf-8'', hr_extra = []\<rparr>"

definition reason :: "int \<Rightarrow> string" where
  "reason s = (if s = 200 then ''OK'' else if s = 404 then ''Not Found'' else if s = 400 then ''Bad Request''
     else if s = 429 then ''Too Many Requests'' else if s = 503 then ''Service Unavailable'' else ''Error'')"

text \<open>The 512-byte buffer of the fixed part holds every status and content type in use.\<close>

definition http_write_head :: "http_response \<Rightarrow> bytes" where
  "http_write_head r =
     ''HTTP/1.1 '' @ show_int (hr_status r) @ '' '' @ reason (hr_status r) @ CRLF
     @ ''Content-Type: '' @ hr_type r @ CRLF
     @ ''Access-Control-Allow-Origin: *'' @ CRLF
     @ ''Connection: close'' @ CRLF
     @ hr_extra r @ CRLF"

definition http_reply :: "http_response \<Rightarrow> string \<Rightarrow> bytes" where
  "http_reply r body = http_write_head r @ body"

definition http_sse_begin_extra :: "string \<Rightarrow> bytes" where
  "http_sse_begin_extra extra =
     http_write_head \<lparr>hr_status = 200, hr_type = ''text/event-stream; charset=utf-8'', hr_extra = snprintf_s 512 extra\<rparr>"

definition http_sse_data :: "string \<Rightarrow> bytes" where
  "http_sse_data d = ''data: '' @ d @ [LF, LF]"

definition http_sse_done :: bytes where
  "http_sse_done = ''data: [DONE]'' @ [LF, LF]"

subsection \<open>A request comes back\<close>

text \<open>The text of a request, as an HTTP client writes it.\<close>

definition http_text :: "string \<Rightarrow> string \<Rightarrow> string \<Rightarrow> string list \<Rightarrow> bytes \<Rightarrow> bytes" where
  "http_text m p v hs body =
     m @ [SP] @ p @ [SP] @ v @ CRLF @ concat (map (\<lambda>h. h @ CRLF) hs)
     @ (if body = [] then [] else ''Content-Length: '' @ show_nat (length body) @ CRLF) @ CRLF @ body"

definition http_word :: "nat \<Rightarrow> string \<Rightarrow> bool" where
  "http_word n w \<longleftrightarrow> w \<noteq> [] \<and> length w \<le> n \<and> line_text w \<and> (\<forall>c\<in>set w. \<not> is_space c)"

definition header_ok :: "string \<Rightarrow> bool" where
  "header_ok h \<longleftrightarrow> h \<noteq> [] \<and> line_text h \<and> length h < 512 \<and> \<not> starts_ci ''Content-Length:'' h"

lemma recv_line_CR: "recv_line_loop mx buf (CR # s) = recv_line_loop mx buf s"
  by simp

lemma recv_line_loop_crlf:
  "line_text s \<Longrightarrow> recv_line_loop mx buf (s @ CR # LF # r) = Some (buf @ take (mx - 1 - length buf) s, r)"
proof (induction s arbitrary: buf)
  case (Cons c s)
  show ?case
  proof (cases "mx - 1 - length buf")
    case 0
    then have "(length buf < mx - Suc 0) = False" by simp
    then show ?thesis using Cons.IH[of buf] Cons.prems 0 by simp
  next
    case (Suc k)
    then have "mx - 1 - length (buf @ [c]) = k" "length buf < mx - 1" by simp_all
    then show ?thesis using Cons.IH[of "buf @ [c]"] Cons.prems Suc by simp
  qed
qed simp

lemma recv_crlf:
  "line_text s \<Longrightarrow> length s < HTTP_MAX_LINE \<Longrightarrow> sock_recv_line HTTP_MAX_LINE (s @ CRLF @ r) = Some (s, r)"
  by (simp add: sock_recv_line_def recv_line_loop_crlf CRLF_def)

lemma scan_tok_split:
  assumes "dropWhile is_space s = w @ r" "takeWhile (\<lambda>c. \<not> is_space c) (w @ r) = w" "w \<noteq> []" "length w \<le> n"
  shows "scan_tok n s = Some (w, r)"
  using assms(3,4) unfolding scan_tok_def Let_def assms(1,2) by simp

lemma scan_tok_word:
  assumes "http_word n w"
  shows "scan_tok n (w @ SP # r) = Some (w, SP # r)" "scan_tok n (SP # w @ SP # r) = Some (w, SP # r)"
    "scan_tok n (SP # w) = Some (w, [])"
proof -
  obtain c u where w: "w = c # u" "\<not> is_space c" using assms by (cases w) (auto simp: http_word_def)
  have ns: "\<forall>c\<in>set w. \<not> is_space c" and le: "length w \<le> n" and ne: "w \<noteq> []" using assms by (simp_all add: http_word_def)
  have tw: "takeWhile (\<lambda>c. \<not> is_space c) (w @ SP # r) = w" "takeWhile (\<lambda>c. \<not> is_space c) (w @ []) = w"
    using ns by (simp_all add: takeWhile_append2 takeWhile_eq_all_conv)
  show "scan_tok n (w @ SP # r) = Some (w, SP # r)" "scan_tok n (SP # w @ SP # r) = Some (w, SP # r)"
    by (rule scan_tok_split[OF _ tw(1) ne le], simp add: w)+
  show "scan_tok n (SP # w) = Some (w, [])"
    by (rule scan_tok_split[OF _ tw(2) ne le], simp add: w)
qed

lemma headers_loop_text:
  assumes "\<forall>h\<in>set hs. h \<noteq> [] \<and> line_text h \<and> length h < 512" "length hs < n"
  shows "headers_loop n (concat (map (\<lambda>h. h @ CRLF) hs) @ CRLF @ r) = Some (hs, r)"
  using assms
proof (induction hs arbitrary: n)
  case Nil
  then obtain k where "n = Suc k" by (cases n) auto
  then show ?case using recv_crlf[of "[]" r] by (simp add: HTTP_MAX_LINE_def)
next
  case (Cons h hs)
  then obtain k where n: "n = Suc k" by (cases n) auto
  have "sock_recv_line HTTP_MAX_LINE (h @ CRLF @ concat (map (\<lambda>h. h @ CRLF) hs) @ CRLF @ r)
      = Some (h, concat (map (\<lambda>h. h @ CRLF) hs) @ CRLF @ r)"
    using Cons.prems(1) by (intro recv_crlf) (auto simp: HTTP_MAX_LINE_def)
  then show ?case using Cons n by simp
qed

lemma content_len_ok:
  assumes "\<forall>h\<in>set hs. header_ok h"
  shows "content_len hs = 0" "content_len (hs @ [h]) = (if starts_ci ''Content-Length:'' h then nat (atol (drop 15 h) mod 2 ^ 64) else 0)"
proof -
  define F where "F = (\<lambda>h (n :: nat). if starts_ci ''Content-Length:'' h then nat (atol (drop 15 h) mod 2 ^ 64) else n)"
  have F: "fold F hs k = k" for k
    using assms by (induction hs) (auto simp: header_ok_def F_def)
  show "content_len hs = 0" "content_len (hs @ [h]) = (if starts_ci ''Content-Length:'' h then nat (atol (drop 15 h) mod 2 ^ 64) else 0)"
    unfolding content_len_def F_def[symmetric] fold_append comp_def F by (simp_all add: F_def)
qed

lemma atol_SP: "atol (SP # s) = atol s"
  by (simp add: atol_def strtol_raw_def)

lemma http_request_line:
  assumes "http_word 15 m" "http_word 511 p" "http_word 15 v"
  shows "sock_recv_line HTTP_MAX_LINE (m @ [SP] @ p @ [SP] @ v @ CRLF @ r) = Some (m @ [SP] @ p @ [SP] @ v, r)"
    "cstr (m @ [SP] @ p @ [SP] @ v) = m @ [SP] @ p @ [SP] @ v"
proof -
  have lt: "line_text (m @ [SP] @ p @ [SP] @ v)" "length (m @ [SP] @ p @ [SP] @ v) < HTTP_MAX_LINE"
    using assms by (simp_all add: http_word_def HTTP_MAX_LINE_def)
  show "sock_recv_line HTTP_MAX_LINE (m @ [SP] @ p @ [SP] @ v @ CRLF @ r) = Some (m @ [SP] @ p @ [SP] @ v, r)"
    using recv_crlf[OF lt, of r] by simp
  show "cstr (m @ [SP] @ p @ [SP] @ v) = m @ [SP] @ p @ [SP] @ v" by (rule cstr_line[OF lt(1)])
qed

text \<open>The content-length line the client adds.\<close>

definition clen_line :: "bytes \<Rightarrow> string list" where
  "clen_line body = (if body = [] then [] else [''Content-Length: '' @ show_nat (length body)])"

lemma clen_line_len:
  assumes "\<forall>h\<in>set hs. header_ok h" "length body < 2 ^ 62"
  shows "content_len (hs @ clen_line body) = length body"
proof (cases "body = []")
  case False
  have "starts_ci ''Content-Length:'' (''Content-Length: '' @ show_nat (length body))"
    by (simp add: starts_ci_def)
  moreover have "atol (drop 15 (''Content-Length: '' @ show_nat (length body))) = int (length body)"
    using atol_show_nat[of "[]" "length body"] assms(2) by (simp add: atol_SP)
  moreover have "int (length body) mod 2 ^ 64 = int (length body)" using assms(2) by (intro mod_pos_pos_trivial) auto
  ultimately show ?thesis using False content_len_ok(2)[OF assms(1)] by (simp add: clen_line_def)
qed (simp add: clen_line_def content_len_ok(1)[OF assms(1)])

lemma http_parse_text:
  assumes "http_word 15 m" "http_word 511 p" "http_word 15 v"
    and "\<forall>h\<in>set hs. header_ok h" "length hs < 31" "length body < 2 ^ 62"
  shows "http_parse_request (http_text m p v hs body @ r) =
    Ret (Some (\<lparr>hq_method = m, hq_path = p, hq_version = v, hq_headers = hs @ clen_line body,
                hq_body = (if body = [] then None else Some body)\<rparr>, r))"
proof -
  define rest where "rest = concat (map (\<lambda>h. h @ CRLF) (hs @ clen_line body)) @ CRLF @ body @ r"
  have t: "http_text m p v hs body @ r = m @ [SP] @ p @ [SP] @ v @ CRLF @ rest"
    by (simp add: http_text_def rest_def clen_line_def)
  have "length (show_nat (length body)) \<le> 20"
    using assms(6) by (intro length_show_nat) auto
  then have hs: "\<forall>h\<in>set (hs @ clen_line body). h \<noteq> [] \<and> line_text h \<and> length h < 512"
    using assms(4) by (auto simp: clen_line_def header_ok_def)
  have "length (hs @ clen_line body) < HTTP_MAX_HEADERS" using assms(5) by (simp add: clen_line_def HTTP_MAX_HEADERS_def)
  then have h: "headers_loop HTTP_MAX_HEADERS rest = Some (hs @ clen_line body, body @ r)"
    unfolding rest_def by (rule headers_loop_text[OF hs])
  note rl = http_request_line[OF assms(1-3)]
  note sc = scan_tok_word(1)[OF assms(1)] scan_tok_word(2)[OF assms(2)] scan_tok_word(3)[OF assms(3)]
  note cl = clen_line_len[OF assms(4,6)]
  have lb: "length body + 1 < 2 ^ 63" using assms(6) by simp
  show ?thesis
    unfolding t http_parse_request_def
    using sc rl h cl lb by (simp add: Let_def)
qed

text \<open>A well-formed request of fewer than 31 headers is read back exactly: its method, path
  and version, its headers in order, its body of any length below 2^62 bytes (also with line
  breaks and NUL bytes), and nothing beyond the body is consumed.\<close>

theorem http_request_roundtrip:
  assumes "http_word 15 m" "http_word 511 p" "http_word 15 v"
    and "\<forall>h\<in>set hs. header_ok h" "length hs < 31" "length body < 2 ^ 62"
  shows "\<exists>req. http_parse_request (http_text m p v hs body @ r) = Ret (Some (req, r)) \<and>
    hq_method req = m \<and> hq_path req = p \<and> hq_version req = v \<and> take (length hs) (hq_headers req) = hs \<and>
    (case hq_body req of None \<Rightarrow> body = [] | Some b \<Rightarrow> b = body \<and> body \<noteq> [])"
  using http_parse_text[OF assms] by simp

theorem http_request_roundtrip_witness:
  "\<exists>req. http_parse_request (http_text ''POST'' ''/v1/completions'' ''HTTP/1.1'' [''Host: x''] ''{}'' @ ''next'') = Ret (Some (req, ''next'')) \<and>
    hq_method req = ''POST'' \<and> hq_path req = ''/v1/completions'' \<and> hq_body req = Some ''{}''"
proof -
  have w: "http_word 15 ''POST''" "http_word 511 ''/v1/completions''" "http_word 15 ''HTTP/1.1''"
    "\<forall>h\<in>set [''Host: x'']. header_ok h"
    by (simp_all add: http_word_def header_ok_def is_space_def code_def starts_ci_def lower_def)
  show ?thesis
    using http_request_roundtrip[OF w, of "''{}''" "''next''"] by (auto split: option.splits)
qed

end
