(* ===== verification/ChatCodec.thy ===== *)
theory ChatCodec
  imports Json Http
begin

text \<open>
  The text transformations of the HTTP API (\<^verbatim>\<open>serve/router_http.c\<close>): escaping of errors and of
  collected tokens, the splitting of a token stream at UTF-8 boundaries for server-sent
  events, the closing chunks, base64, and the length-prefixed packing of messages and images.
\<close>

subsection \<open>Error bodies\<close>

definition esc_err :: "char \<Rightarrow> string" where
  "esc_err c =
     (if c = DQ \<or> c = BSL then [BSL, c] else if c = LF then [BSL, CHR ''n'']
      else if c = CR then [BSL, CHR ''r''] else if code c < 32 then [] else [c])"

fun err_loop :: "nat \<Rightarrow> string \<Rightarrow> string \<Rightarrow> string" where
  "err_loop outsz out [] = out"
| "err_loop outsz out (c # s) = (if length out + 8 < outsz then err_loop outsz (out @ esc_err c) s else out)"

definition err_prefix :: string where
  "err_prefix = CHR ''{'' # DQ # ''error'' @ DQ # CHR '':'' # CHR ''{'' # DQ # ''message'' @ [DQ, CHR '':'', DQ]"

definition http_infer_error_json :: "nat \<Rightarrow> string \<Rightarrow> string \<Rightarrow> string" where
  "http_infer_error_json outsz msg fallback =
     (let src = (if msg \<noteq> [] then msg else fallback); suffix = [DQ, CHR ''}'', CHR ''}''] in
      if length err_prefix \<ge> outsz then []
      else let out = err_loop outsz err_prefix src in
        (if length out + length suffix \<ge> outsz then take (outsz - length suffix - 1) out else out) @ suffix)"

subsection \<open>Collecting a whole answer\<close>

definition esc_tok :: "char \<Rightarrow> string" where
  "esc_tok c =
     (if c = DQ \<or> c = BSL then [BSL, c]
      else if c = LF then [BSL, CHR ''n''] else if c = CR then [BSL, CHR ''r'']
      else if c = TAB then [BSL, CHR ''t''] else [c])"

record collect_ctx =
  cc_buf :: string
  cc_n :: int

text \<open>A character whose escape does not fit any more is left out.\<close>

fun collect_loop :: "nat \<Rightarrow> string \<Rightarrow> bytes \<Rightarrow> string" where
  "collect_loop cap buf [] = buf"
| "collect_loop cap buf (c # s) =
     (if length buf + 1 < cap
      then collect_loop cap
             (if length (esc_tok c) = 2 then (if length buf + 2 < cap then buf @ esc_tok c else buf)
              else buf @ esc_tok c) s
      else buf)"

definition collect_on_token :: "nat \<Rightarrow> collect_ctx \<Rightarrow> bytes \<Rightarrow> collect_ctx" where
  "collect_on_token cap cc tok = \<lparr>cc_buf = collect_loop cap (cc_buf cc) tok, cc_n = cc_n cc + 1\<rparr>"

subsection \<open>Streaming\<close>

definition utf8_need :: "char \<Rightarrow> nat option" where
  "utf8_need ch =
     (let c = code ch in
      if c < 128 then Some 1
      else if c div 32 = 6 then Some 2
      else if c div 16 = 14 then Some 3
      else if c div 8 = 30 then Some 4
      else None)"

lemma utf8_need_pos: "utf8_need c = Some n \<Longrightarrow> 0 < n \<and> n \<le> 4"
  by (auto simp: utf8_need_def Let_def split: if_splits)

function utf8_complete_len :: "bytes \<Rightarrow> nat" where
  "utf8_complete_len [] = 0"
| "utf8_complete_len (c # s) =
     (case utf8_need c of
        None \<Rightarrow> 1 + utf8_complete_len s
      | Some need \<Rightarrow> if need > length (c # s) then 0 else need + utf8_complete_len (drop need (c # s)))"
  by pat_completeness auto
termination by (relation "measure length") (auto dest: utf8_need_pos)

record sse_ctx =
  sc_model :: string
  sc_n :: int
  sc_prompt :: int
  sc_usage :: bool
  sc_pending :: bytes

text \<open>The pending bytes and the token in the 512-byte buffer, cut where the last character is
  incomplete. A token that does not fit drops both.\<close>

definition sse_split :: "bytes \<Rightarrow> bytes \<Rightarrow> bytes \<times> bytes" where
  "sse_split pending tok =
     (let buf = (if length tok < 512 - length pending then pending @ tok else []);
          complete = utf8_complete_len buf in (take complete buf, drop complete buf))"

definition sse_head :: "int \<Rightarrow> string \<Rightarrow> string" where
  "sse_head created model =
     CHR ''{'' # DQ # ''id'' @ DQ # CHR '':'' # DQ # ''chatcmpl-1'' @ DQ # CHR '','' # DQ # ''object'' @ DQ # CHR '':'' # DQ
     # ''chat.completion.chunk'' @ DQ # CHR '','' # DQ # ''created'' @ DQ # CHR '':'' # show_int created
     @ CHR '','' # DQ # ''model'' @ DQ # CHR '':'' # DQ # model @ DQ # CHR '','' # DQ # ''choices'' @ DQ # '':['' "

definition sse_chunk :: "int \<Rightarrow> string \<Rightarrow> bytes \<Rightarrow> string" where
  "sse_chunk created model c =
     snprintf_s (256 + length c * 2)
       (sse_head created model @ CHR ''{'' # DQ # ''index'' @ DQ # '':0,'' @ DQ # ''delta'' @ DQ # CHR '':'' # CHR ''{'' # DQ # ''content'' @ DQ
        # CHR '':'' # DQ # cstr (concat (map esc_tok c)) @ DQ # ''},'' @ DQ # ''finish_reason'' @ DQ # '':null}]}'')"

text \<open>The new state and the bytes written; \<open>created\<close> is the clock at the call.\<close>

definition sse_on_token :: "int \<Rightarrow> sse_ctx \<Rightarrow> bytes \<Rightarrow> sse_ctx \<times> bytes" where
  "sse_on_token created sc tok =
     (case sse_split (sc_pending sc) tok of (c, p) \<Rightarrow>
        (sc\<lparr>sc_n := sc_n sc + 1, sc_pending := p\<rparr>,
         if c = [] then [] else http_sse_data (sse_chunk created (sc_model sc) c)))"

definition sse_on_done :: "int \<Rightarrow> sse_ctx \<Rightarrow> string \<Rightarrow> bytes" where
  "sse_on_done created sc rsn =
     http_sse_data (snprintf_s 512
       (sse_head created (sc_model sc) @ CHR ''{'' # DQ # ''index'' @ DQ # '':0,'' @ DQ # ''delta'' @ DQ # '':{},'' @ DQ
        # ''finish_reason'' @ DQ # CHR '':'' # DQ # rsn @ DQ # ''}]}''))
     @ (if sc_usage sc then
          let ct = sc_n sc; pt = (if sc_prompt sc > 0 then sc_prompt sc else 0) in
          http_sse_data (snprintf_s 512
            (sse_head created (sc_model sc) @ ''],'' @ DQ # ''usage'' @ DQ # '':{'' @ DQ # ''prompt_tokens'' @ DQ # CHR '':'' # show_int pt
             @ CHR '','' # DQ # ''completion_tokens'' @ DQ # CHR '':'' # show_int ct
             @ CHR '','' # DQ # ''total_tokens'' @ DQ # CHR '':'' # show_int (pt + ct) @ ''}}''))
        else [])"

text \<open>The callback on every token of a stream; \<open>clk i\<close> is the clock at the \<open>i\<close>-th.\<close>

fun sse_tokens :: "(nat \<Rightarrow> int) \<Rightarrow> nat \<Rightarrow> sse_ctx \<Rightarrow> bytes list \<Rightarrow> sse_ctx \<times> bytes" where
  "sse_tokens clk i sc [] = (sc, [])"
| "sse_tokens clk i sc (t # ts) =
     (case sse_on_token (clk i) sc t of (sc, o1) \<Rightarrow>
      case sse_tokens clk (Suc i) sc ts of (sc, o2) \<Rightarrow> (sc, o1 @ o2))"

subsection \<open>Base64\<close>

definition http_b64_val :: "char \<Rightarrow> int" where
  "http_b64_val ch =
     (let c = code ch in
      if 65 \<le> c \<and> c \<le> 90 then int (c - 65)
      else if 97 \<le> c \<and> c \<le> 122 then int (c - 97) + 26
      else if 48 \<le> c \<and> c \<le> 57 then int (c - 48) + 52
      else if ch = CHR ''+'' then 62 else if ch = CHR ''/'' then 63 else -1)"

definition b64_skip :: "char \<Rightarrow> bool" where
  "b64_skip c \<longleftrightarrow> c = LF \<or> c = CR \<or> c = SP \<or> c = TAB"

text \<open>The inner loop: up to \<open>4 - length v\<close> further values; \<open>None\<close> on a bad character.\<close>

fun b64_group :: "nat list \<Rightarrow> nat \<Rightarrow> string \<Rightarrow> (nat list \<times> nat \<times> string) option" where
  "b64_group v pad [] = Some (v, pad, [])"
| "b64_group v pad (c # s) =
     (if length v \<ge> 4 then Some (v, pad, c # s)
      else if c = CHR ''='' then b64_group (v @ [0]) (pad + 1) s
      else if b64_skip c then b64_group v pad s
      else if http_b64_val c < 0 then None
      else b64_group (v @ [nat (http_b64_val c)]) pad s)"

lemma b64_group_length: "b64_group v pad s = Some (w, p, r) \<Longrightarrow>
  length r \<le> length s \<and> (length v < 4 \<longrightarrow> s \<noteq> [] \<longrightarrow> length r < length s)"
  by (induction v pad s arbitrary: w p r rule: b64_group.induct)
    (fastforce split: if_splits)+

definition b64_byte :: "nat \<Rightarrow> char" where "b64_byte n = char_of (n mod 256)"

text \<open>\<open>cap\<close> is the size of the output buffer; the bytes come out in order.\<close>

function b64_loop :: "nat \<Rightarrow> bytes \<Rightarrow> string \<Rightarrow> bytes option" where
  "b64_loop cap out s =
     (if s = [] then Some out
      else case b64_group [] 0 s of
        None \<Rightarrow> None
      | Some (v, pad, r) \<Rightarrow>
          if v = [] then Some out
          else if length v < 4 then None
          else if length out + 3 > cap then None
          else b64_loop cap
                 (out @ [b64_byte (v ! 0 * 4 + v ! 1 div 16)]
                  @ (if pad < 2 then [b64_byte (v ! 1 * 16 + v ! 2 div 4)] else [])
                  @ (if pad < 1 then [b64_byte (v ! 2 * 64 + v ! 3)] else [])) r)"
  by pat_completeness auto
termination
  by (relation "measure (\<lambda>(cap, out, s). length s)") (auto dest: b64_group_length)

declare b64_loop.simps [simp del]

definition http_b64_decode :: "string \<Rightarrow> bytes option" where
  "http_b64_decode s = b64_loop (length s div 4 * 3 + 4) [] s"

subsection \<open>Packing\<close>

text \<open>The bytes \<open>snprintf\<close> leaves in a buffer of \<open>n\<close> for a text of \<open>length s\<close> characters, up to that
  length.\<close>

definition snprintf_buf :: "nat \<Rightarrow> string \<Rightarrow> bytes" where
  "snprintf_buf n s = (if length s < n then s else take (n - 1) s @ [NUL])"

fun pack_msgs_loop :: "nat \<Rightarrow> bytes \<Rightarrow> (string option \<times> string option) list \<Rightarrow> bytes option" where
  "pack_msgs_loop cap out [] = Some out"
| "pack_msgs_loop cap out ((role, cont) # ms) =
     (let role = (case role of Some r \<Rightarrow> r | None \<Rightarrow> ''user'');
          c = (case cont of Some c \<Rightarrow> c | None \<Rightarrow> []);
          hdr = role @ [SP] @ show_nat (length c) @ [LF] in
      if length out + length hdr + length c > cap then None
      else pack_msgs_loop cap (out @ snprintf_buf (cap - length out) hdr @ c) ms)"

definition pack_chat_msgs :: "nat \<Rightarrow> (string option \<times> string option) list \<Rightarrow> bytes option" where
  "pack_chat_msgs cap ms =
     (let hdr = ''MSGS '' @ show_nat (length ms) @ [LF] in
      if length hdr \<ge> cap then None else pack_msgs_loop cap hdr ms)"

fun pack_imgs_loop :: "nat \<Rightarrow> bytes \<Rightarrow> bytes list \<Rightarrow> bytes option" where
  "pack_imgs_loop cap out [] = Some out"
| "pack_imgs_loop cap out (img # imgs) =
     (let hdr = ''IMG '' @ show_nat (length img) @ [LF] in
      if length out + length hdr + length img > cap then None
      else pack_imgs_loop cap (out @ snprintf_buf (cap - length out) hdr @ img) imgs)"

definition pack_vision_payload :: "nat \<Rightarrow> string \<Rightarrow> bytes list \<Rightarrow> bytes option" where
  "pack_vision_payload cap txt imgs =
     (let hdr = ''YLLMVIS1'' @ [LF] @ ''TEXT '' @ show_nat (length txt) @ [LF] in
      if length hdr \<ge> cap then None
      else if length hdr + length txt > cap then None
      else pack_imgs_loop cap (hdr @ txt) imgs)"

subsection \<open>What clients read\<close>

lemma raw_ok_append: "raw_ok a \<Longrightarrow> raw_ok b \<Longrightarrow> raw_ok (a @ b)"
proof (induction a rule: raw_ok.induct)
  case (2 c s)
  then show ?case by (cases s) (auto split: if_splits)
qed simp

lemma esc_tok_escape: "concat (map esc_tok s) = json_escape s"
  by (induction s) (auto simp: esc_tok_def)

lemma raw_ok_err: "raw_ok (concat (map esc_err s))"
proof (induction s)
  case (Cons c s)
  have "raw_ok (esc_err c)" by (simp add: esc_err_def)
  then show ?case using Cons raw_ok_append by simp
qed simp

lemma unescape_err:
  "json_str_unescape (concat (map esc_err s)) = filter (\<lambda>c. 32 \<le> code c \<or> c = LF \<or> c = CR) s"
  by (induction s) (auto simp: esc_err_def unescape_plain code_def)

lemma err_loop_take:
  "\<exists>k. err_loop outsz out s = out @ concat (map esc_err (take k s)) \<and>
    (length out + 6 < outsz \<longrightarrow> length (err_loop outsz out s) + 6 < outsz) \<and>
    (length out + 2 * length s + 7 < outsz \<longrightarrow> length s \<le> k)"
proof (induction s arbitrary: out)
  case (Cons c s)
  show ?case
  proof (cases "length out + 8 < outsz")
    case True
    have e: "length (esc_err c) \<le> 2" by (simp add: esc_err_def)
    obtain k where k: "err_loop outsz (out @ esc_err c) s = (out @ esc_err c) @ concat (map esc_err (take k s))"
        "length (out @ esc_err c) + 6 < outsz \<longrightarrow> length (err_loop outsz (out @ esc_err c) s) + 6 < outsz"
        "length (out @ esc_err c) + 2 * length s + 7 < outsz \<longrightarrow> length s \<le> k"
      using Cons.IH[of "out @ esc_err c"] by blast
    show ?thesis
      by (rule exI[of _ "Suc k"]) (use k e True in auto)
  next
    case False
    then show ?thesis by (intro exI[of _ 0]) auto
  qed
qed (auto intro: exI[of _ 0])

lemma err_prefix_text: "err_prefix @ e @ [DQ, CHR ''}'', CHR ''}''] = js_text (JObj [(''error'', JObj [(''message'', JStr e)])])"
  by (simp add: err_prefix_def)

lemma error_json_shape:
  assumes "30 \<le> outsz"
  shows "\<exists>k. http_infer_error_json outsz msg fallback =
      js_text (JObj [(''error'', JObj [(''message'', JStr (concat (map esc_err (take k (if msg \<noteq> [] then msg else fallback)))))])]) \<and>
    length (http_infer_error_json outsz msg fallback) < outsz \<and>
    (28 + 2 * length (if msg \<noteq> [] then msg else fallback) < outsz \<longrightarrow> length (if msg \<noteq> [] then msg else fallback) \<le> k)"
proof -
  define src where "src = (if msg \<noteq> [] then msg else fallback)"
  have p: "length err_prefix = 21" by (simp add: err_prefix_def)
  obtain k where a: "err_loop outsz err_prefix src = err_prefix @ concat (map esc_err (take k src))"
      "length err_prefix + 6 < outsz \<longrightarrow> length (err_loop outsz err_prefix src) + 6 < outsz"
      "length err_prefix + 2 * length src + 7 < outsz \<longrightarrow> length src \<le> k"
    using err_loop_take[of outsz err_prefix src] by blast
  have k: "err_loop outsz err_prefix src = err_prefix @ concat (map esc_err (take k src))"
      "length (err_loop outsz err_prefix src) + 6 < outsz" "28 + 2 * length src < outsz \<longrightarrow> length src \<le> k"
    using a p assms by simp_all
  have "http_infer_error_json outsz msg fallback = err_loop outsz err_prefix src @ [DQ, CHR ''}'', CHR ''}'']"
    using p assms k(2) by (simp add: http_infer_error_json_def Let_def src_def[symmetric])
  then have j: "http_infer_error_json outsz msg fallback = err_prefix @ concat (map esc_err (take k src)) @ [DQ, CHR ''}'', CHR ''}'']"
    using k(1) by simp
  then have "length (http_infer_error_json outsz msg fallback) < outsz" using k(1,2) p by simp
  then show ?thesis
    unfolding src_def[symmetric] using k(3) j[unfolded err_prefix_text] by blast
qed

text \<open>Whatever text a backend reports as its error, also with quotes, backslashes, line
  breaks or control characters, the error body is one JSON object within its buffer whose
  \<open>error.message\<close> is found by the JSON reader and reads back as a prefix of the report
  without the control characters; the whole report when it is at most half the buffer.\<close>

theorem error_json_safe:
  assumes "30 \<le> outsz"
  shows "\<exists>e k q. http_infer_error_json outsz msg fallback = js_text (JObj [(''error'', JObj [(''message'', JStr e)])]) \<and>
    length (http_infer_error_json outsz msg fallback) < outsz \<and>
    json_find (http_infer_error_json outsz msg fallback) ''error.message'' = Ret (Some (js_val (JStr e) q)) \<and>
    json_str_unescape e = filter (\<lambda>c. 32 \<le> code c \<or> c = LF \<or> c = CR) (take k (if msg \<noteq> [] then msg else fallback)) \<and>
    (28 + 2 * length (if msg \<noteq> [] then msg else fallback) < outsz \<longrightarrow> length (if msg \<noteq> [] then msg else fallback) \<le> k)"
proof -
  define src where "src = (if msg \<noteq> [] then msg else fallback)"
  obtain k where k: "http_infer_error_json outsz msg fallback =
        js_text (JObj [(''error'', JObj [(''message'', JStr (concat (map esc_err (take k src))))])])"
      "length (http_infer_error_json outsz msg fallback) < outsz" "28 + 2 * length src < outsz \<longrightarrow> length src \<le> k"
    using error_json_shape[OF assms, of msg fallback] unfolding src_def[symmetric] by blast
  define e where "e = concat (map esc_err (take k src))"
  define d where "d = JObj [(''error'', JObj [(''message'', JStr e)])]"
  have "js_ok d" using raw_ok_err by (simp add: d_def e_def)
  then have "\<exists>q. json_find (js_text d @ []) (join_dot [''error'', ''message'']) = Ret (Some (js_val (JStr e) q))"
    using json_find_js[of d "[''error'', ''message'']" "e" "[]"]
    by (simp add: d_def seg_ok_def idx_seg_def is_digit_def code_def)
  then obtain q where "json_find (js_text d) ''error.message'' = Ret (Some (js_val (JStr e) q))" by auto
  then show ?thesis
    unfolding src_def[symmetric]
    using k unescape_err[of "take k src"] by (intro exI[of _ e] exI[of _ k] exI[of _ q]) (simp add: d_def e_def)
qed

theorem error_json_safe_witness:
  "\<exists>e q. json_find (http_infer_error_json 384 (''bad '' @ [DQ] @ ''x'' @ [DQ, LF]) ''f'') ''error.message'' = Ret (Some (js_val (JStr e) q)) \<and>
    json_str_unescape e = ''bad '' @ [DQ] @ ''x'' @ [DQ, LF]"
  using error_json_safe[of 384 "''bad '' @ [DQ] @ ''x'' @ [DQ, LF]" "''f''"] by (auto simp: code_def)

lemma collect_loop_fits:
  "length buf + length (concat (map esc_tok s)) < cap \<Longrightarrow> collect_loop cap buf s = buf @ concat (map esc_tok s)"
proof (induction s arbitrary: buf)
  case (Cons c s)
  have "length (esc_tok c) = 1 \<or> length (esc_tok c) = 2" by (simp add: esc_tok_def)
  then show ?case using Cons.IH[of "buf @ esc_tok c"] Cons.prems by auto
qed simp

lemma collect_loop_safe:
  "raw_ok buf \<Longrightarrow> length buf < cap \<Longrightarrow> raw_ok (collect_loop cap buf s) \<and> length (collect_loop cap buf s) < cap"
proof (induction s arbitrary: buf)
  case (Cons c s)
  have "length (esc_tok c) = 1 \<or> length (esc_tok c) = 2" "raw_ok (esc_tok c)" by (simp_all add: esc_tok_def)
  then show ?case using Cons.IH[of "buf @ esc_tok c"] Cons.IH[of buf] Cons.prems raw_ok_append[of buf "esc_tok c"] by auto
qed simp

text \<open>The text collected for a non-streaming answer is always a well-formed JSON string body
  within its buffer, with one count per token; as long as the escaped answer fits the buffer,
  reading the string back gives exactly the concatenated tokens.\<close>

theorem collect_exact:
  assumes "0 < cap"
  shows "let cc = fold (\<lambda>t cc. collect_on_token cap cc t) ts \<lparr>cc_buf = [], cc_n = 0\<rparr> in
    raw_ok (cc_buf cc) \<and> length (cc_buf cc) < cap \<and> cc_n cc = int (length ts) \<and>
    (length (json_escape (concat ts)) < cap \<longrightarrow> json_str_unescape (cc_buf cc) = concat ts)"
proof -
  have n: "cc_n (fold (\<lambda>t cc. collect_on_token cap cc t) ts cc) = cc_n cc + int (length ts)" for cc
    by (induction ts arbitrary: cc) (simp_all add: collect_on_token_def)
  have safe: "raw_ok (cc_buf cc) \<and> length (cc_buf cc) < cap \<Longrightarrow>
      raw_ok (cc_buf (fold (\<lambda>t cc. collect_on_token cap cc t) ts cc)) \<and> length (cc_buf (fold (\<lambda>t cc. collect_on_token cap cc t) ts cc)) < cap" for cc
    by (induction ts arbitrary: cc) (auto simp: collect_on_token_def collect_loop_safe)
  have fits: "length (cc_buf cc) + length (json_escape (concat ts)) < cap \<Longrightarrow>
      cc_buf (fold (\<lambda>t cc. collect_on_token cap cc t) ts cc) = cc_buf cc @ json_escape (concat ts)" for cc
  proof (induction ts arbitrary: cc)
    case (Cons t ts)
    have "collect_loop cap (cc_buf cc) t = cc_buf cc @ concat (map esc_tok t)"
      using Cons.prems by (intro collect_loop_fits) (simp add: esc_tok_escape[symmetric])
    then show ?case
      using Cons.IH[of "collect_on_token cap cc t"] Cons.prems by (simp add: collect_on_token_def esc_tok_escape[symmetric])
  qed simp
  show ?thesis
    using n[of "\<lparr>cc_buf = [], cc_n = 0\<rparr>"] safe[of "\<lparr>cc_buf = [], cc_n = 0\<rparr>"] fits[of "\<lparr>cc_buf = [], cc_n = 0\<rparr>"] assms
    by (simp add: Let_def unescape_escape)
qed

theorem collect_exact_witness:
  "let cc = fold (\<lambda>t cc. collect_on_token 100 cc t) [''say '', [DQ, LF]] \<lparr>cc_buf = [], cc_n = 0\<rparr> in
    cc_n cc = 2 \<and> json_str_unescape (cc_buf cc) = ''say '' @ [DQ, LF]"
  using collect_exact[of 100 "[''say '', [DQ, LF]]"] by (simp add: Let_def del: fold_simps)

subsection \<open>A token stream in UTF-8 pieces\<close>

lemma utf8_complete_le: "utf8_complete_len s \<le> length s"
proof (induction s rule: utf8_complete_len.induct)
  case (2 c s)
  then show ?case by (fastforce split: option.splits)
qed simp

lemma utf8_complete_append:
  "utf8_complete_len a = length a \<Longrightarrow> utf8_complete_len (a @ b) = length a + utf8_complete_len b"
proof (induction a rule: utf8_complete_len.induct)
  case (2 c s)
  show ?case
  proof (cases "utf8_need c")
    case None
    then show ?thesis using 2 by simp
  next
    case (Some n)
    then obtain m where n: "n = Suc m" using utf8_need_pos[OF Some] by (cases n) auto
    have le: "\<not> n > length (c # s)" using 2(3) Some n by (auto split: if_splits)
    have "utf8_complete_len (drop n (c # s)) = length (drop n (c # s))"
      using 2(3) Some le by simp
    then have "utf8_complete_len (drop n (c # s) @ b) = length (drop n (c # s)) + utf8_complete_len b"
      using "2.IH"(2)[OF Some le] by simp
    then show ?thesis using Some le n by simp
  qed
qed simp

lemma utf8_complete_split:
  "utf8_complete_len (take (utf8_complete_len s) s) = utf8_complete_len s \<and>
   utf8_complete_len (drop (utf8_complete_len s) s) = 0 \<and> length (drop (utf8_complete_len s) s) \<le> 3"
proof (induction s rule: utf8_complete_len.induct)
  case (2 c s)
  show ?case
  proof (cases "utf8_need c")
    case None
    then show ?thesis using 2 by simp
  next
    case (Some n)
    then obtain m where n: "n = Suc m" "n \<le> 4" using utf8_need_pos[OF Some] by (cases n) auto
    show ?thesis
    proof (cases "n > length (c # s)")
      case True
      then show ?thesis using Some n by simp
    next
      case False
      define k where "k = utf8_complete_len (drop n (c # s))"
      note IH = "2.IH"(2)[OF Some False, folded k_def]
      have kl: "k \<le> length (c # s) - n" using utf8_complete_le[of "drop n (c # s)"] by (simp add: k_def)
      have u: "utf8_complete_len (c # s) = n + k" using Some False by (simp add: k_def)
      have tk: "take (n + k) (c # s) = take n (c # s) @ take k (drop n (c # s))" by (rule take_add)
      obtain d where d: "take n (c # s) = c # d" "length (c # d) = n" using n False by (cases "take n (c # s)") auto
      have "utf8_complete_len (take n (c # s)) = length (take n (c # s))" using Some d by simp
      then have "utf8_complete_len (take (n + k) (c # s)) = n + k"
        unfolding tk using utf8_complete_append IH False by simp
      then show ?thesis unfolding u using IH by (simp add: drop_drop add.commute)
    qed
  qed
qed simp

lemma sse_split_facts:
  assumes "length tok < 509" "length pend \<le> 3" "sse_split pend tok = (c, p)"
  shows "c @ p = pend @ tok" "utf8_complete_len c = length c" "utf8_complete_len p = 0" "length p \<le> 3"
proof -
  have f: "length tok < 512 - length pend" using assms(1,2) by linarith
  have cp: "c = take (utf8_complete_len (pend @ tok)) (pend @ tok)" "p = drop (utf8_complete_len (pend @ tok)) (pend @ tok)"
    using assms(3) f by (simp_all add: sse_split_def Let_def del: take_append drop_append)
  show "c @ p = pend @ tok" by (simp only: cp append_take_drop_id)
  show "utf8_complete_len c = length c" "utf8_complete_len p = 0" "length p \<le> 3"
    using utf8_complete_split[of "pend @ tok"] utf8_complete_le[of "pend @ tok"] unfolding cp by simp_all
qed

text \<open>UTF-8, from the code points: the bytes of a character, of a text, and what can follow a text
  that stops inside a character.\<close>

definition utf8_char :: "nat \<Rightarrow> bytes" where
  "utf8_char n =
     (if n < 0x80 then [char_of n]
      else if n < 0x800 then [char_of (192 + n div 64), char_of (128 + n mod 64)]
      else if n < 0x10000 then [char_of (224 + n div 4096), char_of (128 + n div 64 mod 64), char_of (128 + n mod 64)]
      else [char_of (240 + n div 262144), char_of (128 + n div 4096 mod 64), char_of (128 + n div 64 mod 64), char_of (128 + n mod 64)])"

definition utf8_text :: "nat list \<Rightarrow> bytes" where
  "utf8_text ns = concat (map utf8_char ns)"

definition unfinished :: "bytes \<Rightarrow> bool" where
  "unfinished p \<longleftrightarrow> (\<exists>n x. n < 0x110000 \<and> x \<noteq> [] \<and> utf8_char n = p @ x)"

text \<open>The pieces \<open>cs\<close> and the rest \<open>p\<close> cut the text \<open>s\<close> between characters: they are the text,
  no piece is empty, and when \<open>s\<close> is UTF-8 up to an unfinished last character, that unfinished
  character is \<open>p\<close> and every piece is the text of whole characters.\<close>

definition cut_text :: "bytes \<Rightarrow> bytes list \<Rightarrow> bytes \<Rightarrow> bool" where
  "cut_text s cs p \<longleftrightarrow> concat cs @ p = s \<and> [] \<notin> set cs \<and> length p \<le> 3 \<and>
     (\<forall>ns rest. set ns \<subseteq> {..<0x110000} \<and> unfinished rest \<and> s = utf8_text ns @ rest \<longrightarrow>
        p = rest \<and> (\<exists>gs. cs = map utf8_text gs \<and> concat gs = ns))"

lemma utf8_text_simps [simp]:
  "utf8_text [] = []" "utf8_text (n # ns) = utf8_char n @ utf8_text ns" "utf8_text (as @ bs) = utf8_text as @ utf8_text bs"
  by (simp_all add: utf8_text_def)

lemma utf8_char_need:
  assumes "n < 0x110000"
  shows "utf8_char n \<noteq> [] \<and> utf8_need (hd (utf8_char n)) = Some (length (utf8_char n))"
proof -
  have d: "(192 + n div 64) div 32 = 6" if "n < 0x800" using that by linarith
  have e: "(224 + n div 4096) div 16 = 14" "(224 + n div 4096) div 32 = 7" if "n < 0x10000" using that by linarith+
  have f: "(240 + n div 262144) div 8 = 30" "(240 + n div 262144) div 16 = 15" "(240 + n div 262144) div 32 = 7"
    using assms by linarith+
  show ?thesis
    using assms d e f by (auto simp: utf8_char_def utf8_need_def code_def Let_def)
qed

text \<open>A string of characters complete for the code, at the start of a text, holds whole characters.\<close>

lemma complete_is_text:
  assumes "utf8_complete_len c = length c" "c @ x = utf8_text ns @ rest" "set ns \<subseteq> {..<0x110000}" "unfinished rest"
  shows "\<exists>g h. ns = g @ h \<and> c = utf8_text g \<and> x = utf8_text h @ rest"
  using assms
proof (induction ns arbitrary: c)
  case Nil
  obtain n y where n: "n < 0x110000" "y \<noteq> []" "utf8_char n = rest @ y" using Nil(4) by (auto simp: unfinished_def)
  have "c = []"
  proof (rule ccontr)
    assume "c \<noteq> []"
    then obtain b c' where c: "c = b # c'" by (cases c) auto
    have "hd (utf8_char n) = b" "length (utf8_char n) > length c"
      using n(2,3) Nil(2)[symmetric] c by auto
    then show False using Nil(1) utf8_char_need[OF n(1)] c by simp
  qed
  then show ?case using Nil(2) by simp
next
  case (Cons n ns)
  show ?case
  proof (cases c)
    case Nil
    then show ?thesis using Cons.prems(2) by (intro exI[of _ "[]"] exI[of _ "n # ns"]) simp
  next
    case (Cons b c')
    have n: "utf8_char n \<noteq> []" "utf8_need (hd (utf8_char n)) = Some (length (utf8_char n))"
      using utf8_char_need[of n] Cons.prems(3) by simp_all
    have cx: "c @ x = utf8_char n @ utf8_text ns @ rest" using Cons.prems(2) by simp
    have "hd (utf8_char n) = b" using cx n(1) Cons by (cases "utf8_char n") auto
    then have need: "utf8_need b = Some (length (utf8_char n))" using n(2) by simp
    have k: "\<not> length (utf8_char n) > length (b # c')" using Cons.prems(1) need Cons by (auto split: if_splits)
    define d where "d = drop (length (utf8_char n)) c"
    have c: "c = utf8_char n @ d"
      using cx k Cons unfolding d_def by (metis append_eq_append_conv_if append_take_drop_id not_less)
    have "utf8_complete_len c = length (utf8_char n) + utf8_complete_len d"
      using need k Cons by (simp add: d_def)
    then have "utf8_complete_len d = length d" using Cons.prems(1) arg_cong[OF c, of length] by simp
    moreover have "d @ x = utf8_text ns @ rest" using cx c by simp
    ultimately obtain g h where "ns = g @ h" "d = utf8_text g" "x = utf8_text h @ rest"
      using Cons.IH[of d] Cons.prems(3,4) by auto
    then show ?thesis using c by (intro exI[of _ "n # g"] exI[of _ h]) simp
  qed
qed

lemma pieces_are_text:
  assumes "\<forall>c\<in>set cs. utf8_complete_len c = length c" "concat cs @ x = utf8_text ns @ rest"
    and "set ns \<subseteq> {..<0x110000}" "unfinished rest"
  shows "\<exists>gs h. ns = concat gs @ h \<and> cs = map utf8_text gs \<and> x = utf8_text h @ rest"
  using assms
proof (induction cs arbitrary: ns)
  case (Cons c cs)
  obtain g h where g: "ns = g @ h" "c = utf8_text g" "concat cs @ x = utf8_text h @ rest"
    using complete_is_text[of c "concat cs @ x" ns rest] Cons.prems by auto
  obtain gs k where "h = concat gs @ k" "cs = map utf8_text gs" "x = utf8_text k @ rest"
    using Cons.IH[OF _ g(3)] Cons.prems g(1) by auto
  then show ?case using g by (intro exI[of _ "g # gs"] exI[of _ k]) simp
next
  case Nil
  then show ?case by (intro exI[of _ "[]"] exI[of _ ns]) simp
qed

lemma cut_textI:
  assumes "concat cs @ p = s" "\<forall>c\<in>set cs. c \<noteq> [] \<and> utf8_complete_len c = length c" "length p \<le> 3" "utf8_complete_len p = 0"
  shows "cut_text s cs p"
proof -
  have "p = rest \<and> (\<exists>gs. cs = map utf8_text gs \<and> concat gs = ns)"
    if u: "set ns \<subseteq> {..<0x110000}" "unfinished rest" "s = utf8_text ns @ rest" for ns rest
  proof -
    obtain gs h where g: "ns = concat gs @ h" "cs = map utf8_text gs" "p = utf8_text h @ rest"
      using pieces_are_text[of cs p ns rest] assms(1,2) u by auto
    have "h = []"
    proof (rule ccontr)
      assume "h \<noteq> []"
      then obtain n h' where h: "h = n # h'" by (cases h) auto
      then have n: "utf8_char n \<noteq> []" "utf8_need (hd (utf8_char n)) = Some (length (utf8_char n))"
        using utf8_char_need[of n] u(1) g(1) by simp_all
      then obtain b y where "utf8_char n = b # y" by (cases "utf8_char n") auto
      then show False using assms(4) n g(3) h by simp
    qed
    then show ?thesis using g by auto
  qed
  then show ?thesis using assms unfolding cut_text_def by blast
qed

text \<open>The chunk as a JSON value.\<close>

definition chunk_js :: "int \<Rightarrow> string \<Rightarrow> bytes \<Rightarrow> js" where
  "chunk_js created model c = JObj
     [(''id'', JStr ''chatcmpl-1''), (''object'', JStr ''chat.completion.chunk''), (''created'', JLit (show_int created)),
      (''model'', JStr model),
      (''choices'', JArr [JObj [(''index'', JLit ''0''), (''delta'', JObj [(''content'', JStr (json_escape c))]),
                                (''finish_reason'', JLit ''null'')]])]"

lemma show_int_lit: "lit_ok (show_int i)"
proof -
  obtain d u where du: "show_nat (nat \<bar>i\<bar>) = d # u" by (cases "show_nat (nat \<bar>i\<bar>)") auto
  then have "is_digit d" using show_nat_digits[of d "nat \<bar>i\<bar>"] by simp
  moreover have "\<not> json_stop c \<and> c \<noteq> DQ \<and> c \<noteq> CHR ''['' \<and> c \<noteq> CHR ''{'' \<and> c \<noteq> CR" if "c \<in> set (show_int i)" for c
    using show_int_chars[OF that] by (auto simp: json_stop_def is_digit_def code_def)
  ultimately show ?thesis
    using du by (auto simp: lit_ok_def show_int_def value_start_def)
qed

lemma atoi_0: "nat (atoi ''0'') = 0"
  by (simp add: atoi_def atol_def strtol_raw_def is_space_def code_def is_digit_def)

lemma chunk_js_content:
  assumes "raw_ok model"
  shows "\<exists>v. json_find (js_text (chunk_js created model c)) ''choices.0.delta.content'' = Ret (Some v) \<and>
    jv_type v = JSON_STR \<and> json_str_unescape (take (jv_len v) (jv_start v)) = c"
proof -
  have "js_ok (chunk_js created model c)"
    using assms show_int_lit raw_ok_escape
    by (simp add: chunk_js_def) (simp add: lit_ok_def value_start_def json_stop_def is_digit_def code_def)
  then have "\<exists>q. json_find (js_text (chunk_js created model c) @ []) (join_dot [''choices'', ''0'', ''delta'', ''content'']) =
      Ret (Some (js_val (JStr (json_escape c)) q))"
    using json_find_js[of "chunk_js created model c" "[''choices'', ''0'', ''delta'', ''content'']" "json_escape c" "[]"]
    by (simp add: chunk_js_def seg_ok_def idx_seg_def is_digit_def code_def atoi_0[unfolded])
  then show ?thesis by (auto simp: js_val_JStr unescape_escape)
qed

lemma escape_length: "length (json_escape c) \<le> 2 * length c"
  by (induction c) auto

lemma escape_NUL: "NUL \<notin> set c \<Longrightarrow> NUL \<notin> set (json_escape c)"
  by (induction c) auto

lemma cstr_no_NUL: "NUL \<notin> set s \<Longrightarrow> cstr s = s"
  by (simp add: cstr_def)

lemma sse_chunk_text:
  assumes "NUL \<notin> set c" "length model \<le> 90" "length (show_int created) \<le> 20"
  shows "sse_chunk created model c = js_text (chunk_js created model c)"
proof -
  have e: "cstr (concat (map esc_tok c)) = json_escape c"
    using escape_NUL[OF assms(1)] by (simp add: esc_tok_escape cstr_no_NUL)
  have t: "sse_head created model @ CHR ''{'' # DQ # ''index'' @ DQ # '':0,'' @ DQ # ''delta'' @ DQ # CHR '':'' # CHR ''{'' # DQ # ''content'' @ DQ
        # CHR '':'' # DQ # json_escape c @ DQ # ''},'' @ DQ # ''finish_reason'' @ DQ # '':null}]}'' = js_text (chunk_js created model c)"
    by (simp add: sse_head_def chunk_js_def)
  have "length (js_text (chunk_js created model c)) < 256 + length c * 2"
    using escape_length[of c] assms(2,3) unfolding t[symmetric] sse_head_def by simp
  then show ?thesis by (simp only: sse_chunk_def e t snprintf_s_fits)
qed

lemma sse_tokens_stream:
  assumes "\<forall>t\<in>set ts. length t < 509 \<and> NUL \<notin> set t" "raw_ok (sc_model sc)" "length (sc_model sc) \<le> 90"
    and "\<And>i. length (show_int (clk i)) \<le> 20" "length (sc_pending sc) \<le> 3" "NUL \<notin> set (sc_pending sc)"
    and "utf8_complete_len (sc_pending sc) = 0"
  shows "\<exists>ds cs p. sse_tokens clk i sc ts = (sc\<lparr>sc_n := sc_n sc + int (length ts), sc_pending := p\<rparr>, concat (map http_sse_data ds)) \<and>
    list_all2 (\<lambda>d c. (\<exists>v. json_find d ''choices.0.delta.content'' = Ret (Some v) \<and>
      jv_type v = JSON_STR \<and> json_str_unescape (take (jv_len v) (jv_start v)) = c) \<and> c \<noteq> [] \<and> utf8_complete_len c = length c) ds cs \<and>
    concat cs @ p = sc_pending sc @ concat ts \<and> length p \<le> 3 \<and> utf8_complete_len p = 0"
  using assms
proof (induction ts arbitrary: i sc)
  case Nil
  have "sse_tokens clk i sc [] = (sc\<lparr>sc_n := sc_n sc + int (length []), sc_pending := sc_pending sc\<rparr>, concat (map http_sse_data []))"
    by simp
  then show ?case using Nil(5,7) by (intro exI[of _ "[]"] exI[of _ "sc_pending sc"]) simp
next
  case (Cons t ts)
  obtain c p where sp: "sse_split (sc_pending sc) t = (c, p)" by fastforce
  have f: "c @ p = sc_pending sc @ t" "utf8_complete_len c = length c" "utf8_complete_len p = 0" "length p \<le> 3"
    using sse_split_facts[OF _ Cons.prems(5) sp] Cons.prems(1) by simp_all
  have "set c \<union> set p = set (sc_pending sc) \<union> set t" using arg_cong[OF f(1), of set] by simp
  then have nul: "NUL \<notin> set c" "NUL \<notin> set p" using Cons.prems(1,6) by auto
  define sc' where "sc' = sc\<lparr>sc_n := sc_n sc + 1, sc_pending := p\<rparr>"
  obtain ds cs q where ih:
      "sse_tokens clk (Suc i) sc' ts = (sc'\<lparr>sc_n := sc_n sc' + int (length ts), sc_pending := q\<rparr>, concat (map http_sse_data ds))"
      "list_all2 (\<lambda>d c. (\<exists>v. json_find d ''choices.0.delta.content'' = Ret (Some v) \<and>
        jv_type v = JSON_STR \<and> json_str_unescape (take (jv_len v) (jv_start v)) = c) \<and> c \<noteq> [] \<and> utf8_complete_len c = length c) ds cs"
      "concat cs @ q = sc_pending sc' @ concat ts" "length q \<le> 3" "utf8_complete_len q = 0"
    using Cons.IH[of sc' "Suc i"] Cons.prems f nul by (auto simp: sc'_def)
  have step: "sse_on_token (clk i) sc t = (sc', if c = [] then [] else http_sse_data (js_text (chunk_js (clk i) (sc_model sc) c)))"
    using sse_chunk_text[OF nul(1) Cons.prems(3,4)] by (simp add: sse_on_token_def sp sc'_def)
  have cat: "c @ concat cs @ q = sc_pending sc @ t @ concat ts" using ih(3) f(1) by (simp add: sc'_def)
  show ?case
  proof (cases "c = []")
    case True
    then show ?thesis using ih cat step
      by (intro exI[of _ ds] exI[of _ cs] exI[of _ q]) (simp add: sc'_def)
  next
    case False
    then show ?thesis using ih cat step f(2) chunk_js_content[OF Cons.prems(2), of "clk i" c]
      by (intro exI[of _ "js_text (chunk_js (clk i) (sc_model sc) c) # ds"] exI[of _ "c # cs"] exI[of _ q]) (simp add: sc'_def)
  qed
qed

lemma stream_cut:
  assumes "list_all2 (\<lambda>d c. Q d c \<and> c \<noteq> [] \<and> utf8_complete_len c = length c) ds cs"
    and "concat cs @ p = s" "length p \<le> 3" "utf8_complete_len p = 0"
  shows "cut_text s cs p"
proof (rule cut_textI)
  show "\<forall>c\<in>set cs. c \<noteq> [] \<and> utf8_complete_len c = length c"
    using assms(1) by (auto simp: list_all2_conv_all_nth in_set_conv_nth)
qed (use assms in simp_all)

text \<open>C23: A streamed answer reaches the client exactly. For tokens of up to 508 bytes that cut the
  text anywhere, also inside a UTF-8 character, every event written is a JSON document whose
  \<open>choices[0].delta.content\<close> reads back as one of the pieces \<open>cs\<close>, and \<open>cs\<close> cut the text between
  its characters: for a text in UTF-8 that may stop inside a character, every piece is the
  encoding of whole characters, the pieces in order are all the whole characters of the text, and
  exactly the unfinished last character stays pending; for other bytes at most three stay pending.
  Every token is counted.\<close>

theorem sse_stream_exact:
  assumes "\<forall>t\<in>set ts. length t < 509 \<and> NUL \<notin> set t" "raw_ok (sc_model sc)" "length (sc_model sc) \<le> 90"
    and "\<And>i. length (show_int (clk i)) \<le> 20" "sc_pending sc = []"
  shows "\<exists>ds cs p. sse_tokens clk 0 sc ts = (sc\<lparr>sc_n := sc_n sc + int (length ts), sc_pending := p\<rparr>, concat (map http_sse_data ds)) \<and>
    list_all2 (\<lambda>d c. \<exists>v. json_find d ''choices.0.delta.content'' = Ret (Some v) \<and>
      jv_type v = JSON_STR \<and> json_str_unescape (take (jv_len v) (jv_start v)) = c) ds cs \<and>
    cut_text (concat ts) cs p"
proof -
  obtain ds cs p where r: "sse_tokens clk 0 sc ts = (sc\<lparr>sc_n := sc_n sc + int (length ts), sc_pending := p\<rparr>, concat (map http_sse_data ds))"
    "list_all2 (\<lambda>d c. (\<exists>v. json_find d ''choices.0.delta.content'' = Ret (Some v) \<and>
      jv_type v = JSON_STR \<and> json_str_unescape (take (jv_len v) (jv_start v)) = c) \<and> c \<noteq> [] \<and> utf8_complete_len c = length c) ds cs"
    "concat cs @ p = concat ts" "length p \<le> 3" "utf8_complete_len p = 0"
    using sse_tokens_stream[of ts sc clk 0] assms by auto
  have "cut_text (concat ts) cs p" using stream_cut[OF r(2-5)] .
  moreover have "list_all2 (\<lambda>d c. \<exists>v. json_find d ''choices.0.delta.content'' = Ret (Some v) \<and>
      jv_type v = JSON_STR \<and> json_str_unescape (take (jv_len v) (jv_start v)) = c) ds cs"
    using r(2) by (rule list_all2_mono) blast
  ultimately show ?thesis using r(1) by blast
qed

theorem sse_stream_exact_witness:
  "\<exists>ds cs p. sse_tokens (\<lambda>_. 1700000000) 0 \<lparr>sc_model = ''m'', sc_n = 0, sc_prompt = 0, sc_usage = False, sc_pending = []\<rparr>
      [[CHR 0xE4, CHR 0xBD], [CHR 0xA0, CHR ''!''], [CHR 0xC3]] =
      (\<lparr>sc_model = ''m'', sc_n = 3, sc_prompt = 0, sc_usage = False, sc_pending = p\<rparr>, concat (map http_sse_data ds)) \<and>
    p = [CHR 0xC3] \<and> (\<exists>gs. cs = map utf8_text gs \<and> concat gs = [0x4F60, 33])"
proof -
  define sc where "sc = \<lparr>sc_model = ''m'', sc_n = 0, sc_prompt = 0, sc_usage = False, sc_pending = []\<rparr>"
  have n: "length (show_int 1700000000) \<le> 20"
    using length_show_nat[of 1700000000 10] by (simp add: show_int_def)
  have u: "unfinished [CHR 0xC3]"
    unfolding unfinished_def by (intro exI[of _ "0xE9"] exI[of _ "[CHR 0xA9]"]) (simp add: utf8_char_def char_of_def bit_Suc_0_iff)
  have t: "concat [[CHR 0xE4, CHR 0xBD], [CHR 0xA0, CHR ''!''], [CHR 0xC3]] = utf8_text [0x4F60, 33] @ [CHR 0xC3]"
    by (simp add: utf8_char_def char_of_def bit_Suc_0_iff)
  have a: "\<forall>t\<in>set [[CHR 0xE4, CHR 0xBD], [CHR 0xA0, CHR ''!''], [CHR 0xC3]]. length t < 509 \<and> NUL \<notin> set t"
    "raw_ok (sc_model sc)" "length (sc_model sc) \<le> 90" "sc_pending sc = []" by (simp_all add: sc_def)
  obtain ds cs p where r: "sse_tokens (\<lambda>_. 1700000000) 0 sc [[CHR 0xE4, CHR 0xBD], [CHR 0xA0, CHR ''!''], [CHR 0xC3]] =
      (sc\<lparr>sc_n := sc_n sc + int (length [[CHR 0xE4, CHR 0xBD], [CHR 0xA0, CHR ''!''], [CHR 0xC3]]), sc_pending := p\<rparr>, concat (map http_sse_data ds))"
      "cut_text (utf8_text [0x4F60, 33] @ [CHR 0xC3]) cs p"
    using sse_stream_exact[OF a(1-3) n a(4)] unfolding t by blast
  have "p = [CHR 0xC3] \<and> (\<exists>gs. cs = map utf8_text gs \<and> concat gs = [0x4F60, 33])"
    using r(2) u unfolding cut_text_def by (elim conjE allE[of _ "[0x4F60, 33]"] allE[of _ "[CHR 0xC3]"]) simp
  then show ?thesis using r(1) by (auto simp: sc_def)
qed

subsection \<open>Base64\<close>

definition b64_digit :: "nat \<Rightarrow> char" where
  "b64_digit v =
     (if v < 26 then char_of (65 + v) else if v < 52 then char_of (71 + v)
      else if v < 62 then char_of (v - 4) else if v = 62 then CHR ''+'' else CHR ''/'')"

text \<open>The standard encoding.\<close>

fun b64_encode :: "bytes \<Rightarrow> string" where
  "b64_encode [] = []"
| "b64_encode [x] = [b64_digit (code x div 4), b64_digit (code x mod 4 * 16), CHR ''='', CHR ''='']"
| "b64_encode [x, y] =
     [b64_digit (code x div 4), b64_digit (code x mod 4 * 16 + code y div 16), b64_digit (code y mod 16 * 4), CHR ''='']"
| "b64_encode (x # y # z # r) =
     b64_digit (code x div 4) # b64_digit (code x mod 4 * 16 + code y div 16)
     # b64_digit (code y mod 16 * 4 + code z div 64) # b64_digit (code z mod 64) # b64_encode r"

lemma code_plus_slash: "code CHR ''+'' = 43" "code CHR ''/'' = 47" "code CHR ''='' = 61"
  by (simp_all add: code_def)

lemma b64_digit_val: "v < 64 \<Longrightarrow> http_b64_val (b64_digit v) = int v"
  by (auto simp: b64_digit_def http_b64_val_def Let_def code_plus_slash)

lemma b64_digit_plain:
  assumes "v < 64"
  shows "\<not> b64_skip (b64_digit v)" "b64_digit v \<noteq> CHR ''=''"
proof -
  have v: "0 \<le> http_b64_val (b64_digit v)" using b64_digit_val[OF assms] by simp
  have n: "http_b64_val LF < 0" "http_b64_val CR < 0" "http_b64_val SP < 0" "http_b64_val TAB < 0" "http_b64_val CHR ''='' < 0"
    by (simp_all add: http_b64_val_def code_def)
  show "\<not> b64_skip (b64_digit v)" "b64_digit v \<noteq> CHR ''=''"
    using v n by (auto simp: b64_skip_def)
qed

definition b64_num :: "char \<Rightarrow> nat" where
  "b64_num c = (if c = CHR ''='' then 0 else nat (http_b64_val c))"

lemma b64_num_digit: "v < 64 \<Longrightarrow> b64_num (b64_digit v) = v"
  by (simp add: b64_num_def b64_digit_plain b64_digit_val)

lemma b64_num_eq: "b64_num CHR ''='' = 0"
  by (simp add: b64_num_def)

lemma b64_group_read:
  assumes "filter (\<lambda>c. \<not> b64_skip c) s = gs @ rest" "length v + length gs = 4"
    and "\<forall>c\<in>set gs. c = CHR ''='' \<or> 0 \<le> http_b64_val c"
  shows "\<exists>r. b64_group v pad s = Some (v @ map b64_num gs, pad + length (filter (\<lambda>c. c = CHR ''='') gs), r) \<and>
    filter (\<lambda>c. \<not> b64_skip c) r = rest"
  using assms
proof (induction s arbitrary: v pad gs)
  case (Cons c s)
  show ?case
  proof (cases gs)
    case Nil
    then show ?thesis using Cons.prems by simp
  next
    case (Cons g gs')
    have lv: "\<not> 4 \<le> length v" using Cons.prems(2) Cons by simp
    show ?thesis
    proof (cases "b64_skip c")
      case True
      then have "c \<noteq> CHR ''=''" by (auto simp: b64_skip_def)
      then show ?thesis using True lv Cons.IH[of gs v pad] Cons.prems by simp
    next
      case False
      then have g: "g = c" "filter (\<lambda>c. \<not> b64_skip c) s = gs' @ rest" using Cons.prems(1) Cons by auto
      have h: "length (v @ [b64_num c]) + length gs' = 4" using Cons.prems(2) Cons by simp
      have p: "\<forall>c\<in>set gs'. c = CHR ''='' \<or> 0 \<le> http_b64_val c" using Cons.prems(3) Cons by simp
      show ?thesis
      proof (cases "c = CHR ''=''")
        case True
        then show ?thesis using Cons.IH[OF g(2) h p, of "pad + 1"] lv Cons g(1) by (simp add: b64_num_def)
      next
        case c: False
        then have "0 \<le> http_b64_val c" using Cons.prems(3) Cons g(1) by simp
        then show ?thesis using Cons.IH[OF g(2) h p, of pad] lv Cons g(1) c False by (simp add: b64_num_def)
      qed
    qed
  qed
qed simp

lemma b64_group_end: "filter (\<lambda>c. \<not> b64_skip c) s = [] \<Longrightarrow> b64_group [] 0 s = Some ([], 0, [])"
proof (induction s)
  case (Cons c s)
  then have "b64_skip c" by (auto split: if_splits)
  then show ?case using Cons by (auto simp: b64_skip_def)
qed simp

lemma b64_byte_code [simp]: "b64_byte (code x) = x"
  by (simp add: b64_byte_def)

lemma b64_byte_mult: "b64_byte (m * 256 + code x) = x"
  by (simp add: b64_byte_def)

lemma b64_ranges:
  "code x div 4 < 64" "code x mod 4 * 16 < 64" "code x mod 4 * 16 + code y div 16 < 64"
  "code y mod 16 * 4 < 64" "code y mod 16 * 4 + code z div 64 < 64" "code z mod 64 < 64"
proof -
  have "code x mod 4 < 4" "code y div 16 < 16" "code y mod 16 < 16" "code z div 64 < 4"
    by (simp_all add: less_mult_imp_div_less)
  then show "code x mod 4 * 16 < 64" "code x mod 4 * 16 + code y div 16 < 64"
    "code y mod 16 * 4 < 64" "code y mod 16 * 4 + code z div 64 < 64" by linarith+
  show "code x div 4 < 64" "code z mod 64 < 64" by (simp_all add: less_mult_imp_div_less)
qed

lemma b64_bytes:
  "b64_byte (code x div 4 * 4 + (code x mod 4 * 16 + code y div 16) div 16) = x"
  "b64_byte (code x div 4 * 4 + (code x mod 4 * 16) div 16) = x"
  "b64_byte ((code x mod 4 * 16 + code y div 16) * 16 + (code y mod 16 * 4 + code z div 64) div 4) = y"
  "b64_byte ((code x mod 4 * 16 + code y div 16) * 16 + (code y mod 16 * 4) div 4) = y"
  "b64_byte ((code y mod 16 * 4 + code z div 64) * 64 + code z mod 64) = z"
proof -
  have l: "code y div 16 < 16" "code z div 64 < 4" by (simp_all add: less_mult_imp_div_less)
  have q: "(code x mod 4 * 16 + code y div 16) div 16 = code x mod 4" "(code y mod 16 * 4 + code z div 64) div 4 = code y mod 16"
    using l by simp_all
  have q3: "(code y mod 16 * 4) div 4 = code y mod 16" by simp
  show "b64_byte (code x div 4 * 4 + (code x mod 4 * 16 + code y div 16) div 16) = x"
    "b64_byte (code x div 4 * 4 + (code x mod 4 * 16) div 16) = x" by (simp_all add: q)
  have y: "(code x mod 4 * 16 + code y div 16) * 16 + code y mod 16 = code x mod 4 * 256 + code y"
    by (simp add: distrib_right add.assoc)
  show "b64_byte ((code x mod 4 * 16 + code y div 16) * 16 + (code y mod 16 * 4 + code z div 64) div 4) = y"
    "b64_byte ((code x mod 4 * 16 + code y div 16) * 16 + (code y mod 16 * 4) div 4) = y"
    by (simp_all only: q q3 y b64_byte_mult)
  have z: "(code y mod 16 * 4 + code z div 64) * 64 + code z mod 64 = code y mod 16 * 256 + code z"
    by (simp add: distrib_right add.assoc)
  show "b64_byte ((code y mod 16 * 4 + code z div 64) * 64 + code z mod 64) = z"
    using b64_byte_mult by (simp only: z)
qed

definition b64_out :: "nat list \<Rightarrow> nat \<Rightarrow> bytes" where
  "b64_out v pad =
     [b64_byte (v ! 0 * 4 + v ! 1 div 16)] @ (if pad < 2 then [b64_byte (v ! 1 * 16 + v ! 2 div 4)] else [])
     @ (if pad < 1 then [b64_byte (v ! 2 * 64 + v ! 3)] else [])"

lemma b64_out_list:
  "b64_out [p, q, r, t] pad = [b64_byte (p * 4 + q div 16)] @ (if pad < 2 then [b64_byte (q * 16 + r div 4)] else [])
     @ (if pad < 1 then [b64_byte (r * 64 + t)] else [])"
  by (simp add: b64_out_def)

lemma b64_out_code:
  "b64_out [code x div 4, code x mod 4 * 16, 0, 0] 2 = [x]"
  "b64_out [code x div 4, code x mod 4 * 16 + code y div 16, code y mod 16 * 4, 0] 1 = [x, y]"
  "b64_out [code x div 4, code x mod 4 * 16 + code y div 16, code y mod 16 * 4 + code z div 64, code z mod 64] 0 = [x, y, z]"
  by (simp_all only: b64_out_list b64_bytes) simp_all

lemma b64_step:
  assumes "filter (\<lambda>c. \<not> b64_skip c) s = gs @ rest" "length gs = 4"
    and "\<forall>c\<in>set gs. c = CHR ''='' \<or> 0 \<le> http_b64_val c" "length out + 3 \<le> cap"
  shows "\<exists>r. filter (\<lambda>c. \<not> b64_skip c) r = rest \<and> b64_loop cap out s =
    b64_loop cap (out @ b64_out (map b64_num gs) (length (filter (\<lambda>c. c = CHR ''='') gs))) r"
proof -
  obtain r where r: "b64_group [] 0 s = Some (map b64_num gs, length (filter (\<lambda>c. c = CHR ''='') gs), r)"
      "filter (\<lambda>c. \<not> b64_skip c) r = rest"
    using b64_group_read[OF assms(1), of "[]" 0] assms(2,3) by auto
  have "s \<noteq> []" "gs \<noteq> []" using assms(1,2) by auto
  then show ?thesis
    using r assms(2,4) by (intro exI[of _ r] conjI, simp, subst b64_loop.simps) (simp add: b64_out_def)
qed

lemma b64_loop_encode:
  "filter (\<lambda>c. \<not> b64_skip c) s = b64_encode bs \<Longrightarrow> length out + 3 * (length (b64_encode bs) div 4) \<le> cap \<Longrightarrow>
   b64_loop cap out s = Some (out @ bs)"
proof (induction bs arbitrary: s out rule: b64_encode.induct)
  case 1
  then show ?case using b64_group_end[of s] by (subst b64_loop.simps) (cases "s = []"; simp)
next
  case (2 x)
  define gs where "gs = b64_encode [x]"
  have v: "\<forall>c\<in>set gs. c = CHR ''='' \<or> 0 \<le> http_b64_val c" using b64_ranges by (simp add: gs_def b64_digit_val)
  obtain r where r: "filter (\<lambda>c. \<not> b64_skip c) r = []" "b64_loop cap out s = b64_loop cap (out @ [x]) r"
    using b64_step[of s gs "[]" out cap] 2 v b64_ranges
    by (auto simp: gs_def b64_num_digit b64_num_eq b64_digit_plain b64_out_code simp flip: One_nat_def numeral_2_eq_2)
  show ?case using r b64_group_end[OF r(1)] by (simp, subst b64_loop.simps) (cases "r = []"; simp)
next
  case (3 x y)
  define gs where "gs = b64_encode [x, y]"
  have v: "\<forall>c\<in>set gs. c = CHR ''='' \<or> 0 \<le> http_b64_val c" using b64_ranges by (simp add: gs_def b64_digit_val)
  obtain r where r: "filter (\<lambda>c. \<not> b64_skip c) r = []" "b64_loop cap out s = b64_loop cap (out @ [x, y]) r"
    using b64_step[of s gs "[]" out cap] 3 v b64_ranges
    by (auto simp: gs_def b64_num_digit b64_num_eq b64_digit_plain b64_out_code simp flip: One_nat_def numeral_2_eq_2)
  show ?case using r b64_group_end[OF r(1)] by (simp, subst b64_loop.simps) (cases "r = []"; simp)
next
  case (4 x y z bs)
  define gs where "gs = [b64_digit (code x div 4), b64_digit (code x mod 4 * 16 + code y div 16),
     b64_digit (code y mod 16 * 4 + code z div 64), b64_digit (code z mod 64)]"
  have v: "\<forall>c\<in>set gs. c = CHR ''='' \<or> 0 \<le> http_b64_val c" using b64_ranges by (simp add: gs_def b64_digit_val)
  have s: "filter (\<lambda>c. \<not> b64_skip c) s = gs @ b64_encode bs" using 4(2) by (simp add: gs_def)
  have cap: "length out + 3 + 3 * (length (b64_encode bs) div 4) \<le> cap" using 4(3) by (simp add: div_add1_eq)
  obtain r where r: "filter (\<lambda>c. \<not> b64_skip c) r = b64_encode bs" "b64_loop cap out s = b64_loop cap (out @ [x, y, z]) r"
    using b64_step[OF s _ v, of out cap] cap b64_ranges
    by (auto simp: gs_def b64_num_digit b64_num_eq b64_digit_plain b64_out_code)
  show ?case using 4(1)[OF r(1), of "out @ [x, y, z]"] cap r(2) by simp
qed

text \<open>The image data of a \<open>data:\<close> URL is decoded exactly: the base64 text of any bytes, wrapped
  with line breaks and blanks in any way, decodes to these bytes within the output buffer.\<close>

theorem b64_roundtrip:
  assumes "filter (\<lambda>c. \<not> b64_skip c) s = b64_encode bs"
  shows "http_b64_decode s = Some bs"
proof -
  have "length (b64_encode bs) \<le> length s" using assms length_filter_le by metis
  then have "3 * (length (b64_encode bs) div 4) \<le> length s div 4 * 3 + 4"
    using div_le_mono[of "length (b64_encode bs)" "length s" 4] by simp
  then show ?thesis using b64_loop_encode[OF assms, of "[]"] by (simp add: http_b64_decode_def)
qed

theorem b64_roundtrip_witness:
  "http_b64_decode (''aG'' @ [LF] @ ''k='') = Some ''hi''"
proof -
  have ch: "char_of (97 :: nat) = CHR ''a''" "char_of (71 :: nat) = CHR ''G''" "char_of (107 :: nat) = CHR ''k''"
    by (rule iffD1[OF code_inject], simp add: code_def)+
  have "b64_encode ''hi'' = ''aGk=''" by (simp add: b64_digit_def code_def) (simp only: ch)
  then show ?thesis using b64_roundtrip[of "''aG'' @ [LF] @ ''k=''" "''hi''"] by (simp add: b64_skip_def)
qed

end
