(* ===== verification/SessMsgs.thy ===== *)
theory SessMsgs
  imports ChatCodec RouterTable
begin

text \<open>
  The message list of a session request as the server reads it (\<^verbatim>\<open>serve/server.c\<close>: the argument
  \<open>key=\<close>, \<open>parse_sess_msgs\<close> and the removal of tool lists from system messages), and the proof
  that it reads back what the HTTP side packed.
\<close>

subsection \<open>Named arguments and system messages\<close>

text \<open>\<open>strstr\<close> for a name at the start of the line or behind a blank.\<close>

fun find_arg :: "bool \<Rightarrow> string \<Rightarrow> string \<Rightarrow> string option" where
  "find_arg at name [] = None"
| "find_arg at name (c # s) =
     (if at \<and> starts name (c # s) then Some (drop (length name) (c # s)) else find_arg (c = SP) name s)"

definition copy_named_arg :: "string \<Rightarrow> string \<Rightarrow> nat \<Rightarrow> string" where
  "copy_named_arg args name outsz =
     (case find_arg True name args of
        None \<Rightarrow> []
      | Some kv \<Rightarrow>
          let v = take (outsz - 1) (takeWhile (\<lambda>c. c \<noteq> SP \<and> c \<noteq> TAB) kv) in
          if v = ''-'' then [] else v)"

text \<open>The two spellings of the heading of a tool list, in UTF-8: with an ASCII and with a wide
  colon.\<close>

definition tool_line :: string where
  "tool_line = map char_of [0xE5, 0x8F, 0xAF, 0xE7, 0x94, 0xA8, 0xE7, 0x9A, 0x84, 0xE5, 0xB7, 0xA5, 0xE5, 0x85, 0xB7, 0x3A :: nat]"

definition tool_line_wide :: string where
  "tool_line_wide = map char_of [0xE5, 0x8F, 0xAF, 0xE7, 0x94, 0xA8, 0xE7, 0x9A, 0x84, 0xE5, 0xB7, 0xA5, 0xE5, 0x85, 0xB7, 0xEF, 0xBC, 0x9A :: nat]"

definition tool_hit :: "string \<Rightarrow> string option" where
  "tool_hit s = (case strstr s tool_line of Some h \<Rightarrow> Some h | None \<Rightarrow> strstr s tool_line_wide)"

lemma strstr_length: "strstr s k = Some h \<Longrightarrow> length h \<le> length s"
  by (induction s) (auto split: if_splits)

lemma tool_hit_length: "tool_hit s = Some h \<Longrightarrow> length h \<le> length s"
  by (auto simp: tool_hit_def split: option.splits dest: strstr_length)

lemma strchr_length: "strchr s c = Some t \<Longrightarrow> length t \<le> length s \<and> t \<noteq> []"
  using length_dropWhile_le[of "\<lambda>x. x \<noteq> c" s]
  by (cases "dropWhile (\<lambda>x. x \<noteq> c) s") (auto simp: strchr_def)

text \<open>Every hit is removed together with the rest of its line; the search goes on behind it.\<close>

function strip_tool_order_line :: "string \<Rightarrow> string" where
  "strip_tool_order_line s =
     (case tool_hit s of
        None \<Rightarrow> s
      | Some hit \<Rightarrow>
          take (length s - length hit) s @
          (case strchr hit LF of None \<Rightarrow> [] | Some e \<Rightarrow> strip_tool_order_line (tl e)))"
  by pat_completeness auto
termination
proof (relation "measure length")
  fix s hit e
  assume "tool_hit s = Some hit" "strchr hit LF = Some e"
  then have "length (tl e) < length s" using tool_hit_length[of s hit] strchr_length[of hit LF e] by (cases e) auto
  then show "(tl e, s) \<in> measure length" by simp
qed simp

declare strip_tool_order_line.simps [simp del]

subsection \<open>The message list\<close>

text \<open>What is left of a number that \<open>sscanf\<close> has read.\<close>

definition scan_rest :: "string \<Rightarrow> string" where
  "scan_rest s =
     (let t = dropWhile is_space s; u = (if starts ''-'' t \<or> starts ''+'' t then tl t else t) in dropWhile is_digit u)"

definition has_number :: "string \<Rightarrow> bool" where
  "has_number s =
     (let t = dropWhile is_space s; u = (if starts ''-'' t \<or> starts ''+'' t then tl t else t) in
      case u of c # _ \<Rightarrow> is_digit c | [] \<Rightarrow> False)"

text \<open>\<open>sscanf(p, "%15s %lu")\<close> of a message header: role and length.\<close>

definition scan_msg :: "string \<Rightarrow> (string \<times> nat) option" where
  "scan_msg p =
     (let t = dropWhile is_space p; w = take 15 (takeWhile (\<lambda>c. \<not> is_space c) t); u = drop (length w) t in
      if w = [] \<or> \<not> has_number u then None else Some (w, scan_size u))"

text \<open>One message: the text \<open>p\<close> is what is left of the buffer. A length so large that
  \<open>off + clen + 1\<close> and the pointer sum wrap around passes both checks and \<open>memcpy\<close> leaves the
  buffer.\<close>

definition parse_msg :: "nat \<Rightarrow> nat \<Rightarrow> bytes \<Rightarrow> (string \<times> string \<times> bytes) option run" where
  "parse_msg storesz off p =
     (case scan_msg (cstr p) of
        None \<Rightarrow> Ret None
      | Some (role, clen) \<Rightarrow>
        (case strchr (cstr p) LF of
           None \<Rightarrow> Ret None
         | Some nl \<Rightarrow>
           let q = drop (length (cstr p) - length nl + 1) p in
           if clen > length q then
             (if off + clen + 1 \<ge> 2 ^ 64 \<and> off + clen + 1 - 2 ^ 64 \<le> storesz then Fault else Ret None)
           else if off + clen + 1 > storesz then Ret None
           else let c = cstr (take clen q) in
             Ret (Some (role, if role = ''system'' then strip_tool_order_line c else c, drop clen q))))"

fun parse_msgs_loop :: "nat \<Rightarrow> nat \<Rightarrow> nat \<Rightarrow> bytes \<Rightarrow> (string \<times> string) list option run" where
  "parse_msgs_loop storesz off 0 p = Ret (Some [])"
| "parse_msgs_loop storesz off (Suc n) p =
     run_bind (parse_msg storesz off p) (\<lambda>r.
       case r of None \<Rightarrow> Ret None
       | Some (role, c, q) \<Rightarrow>
         run_bind (parse_msgs_loop storesz (off + length c + 1) n q) (\<lambda>ms.
           Ret (map_option (\<lambda>ms. (role, c) # ms) ms)))"

definition SESS_MSG_MAX :: nat where "SESS_MSG_MAX = 32"

definition parse_sess_msgs :: "bytes \<Rightarrow> (string \<times> string) list option run" where
  "parse_sess_msgs msg =
     (if length msg < 6 \<or> \<not> starts ''MSGS '' msg then Ret None
      else let n = atoi (drop 5 (cstr msg)) in
        if n < 1 \<or> n > int SESS_MSG_MAX then Ret None
        else case strchr (cstr msg) LF of
          None \<Rightarrow> Ret None
        | Some nl \<Rightarrow> parse_msgs_loop (length msg + SESS_MSG_MAX * 8) 0 (nat n)
                       (drop (length (cstr msg) - length nl + 1) msg))"

subsection \<open>What the HTTP side packs is read back\<close>

definition role_ok :: "string \<Rightarrow> bool" where
  "role_ok r \<longleftrightarrow> r \<noteq> [] \<and> length r \<le> 15 \<and> NUL \<notin> set r \<and> (\<forall>c\<in>set r. \<not> is_space c)"

definition msg_ok :: "string \<times> string \<Rightarrow> bool" where
  "msg_ok m \<longleftrightarrow> role_ok (fst m) \<and> NUL \<notin> set (snd m) \<and> length (snd m) < 2 ^ 63
     \<and> (fst m = ''system'' \<longrightarrow> tool_hit (snd m) = None)"

definition msg_enc :: "string \<times> string \<Rightarrow> bytes" where
  "msg_enc m = fst m @ SP # show_nat (length (snd m)) @ LF # snd m"

lemma pack_msgs_text:
  "pack_msgs_loop cap out (map (\<lambda>(r, c). (Some r, Some c)) ms) = Some msg \<Longrightarrow> length msg < cap \<Longrightarrow>
   msg = out @ concat (map msg_enc ms)"
proof (induction ms arbitrary: out)
  case (Cons m ms)
  obtain r c where m: "m = (r, c)" by (cases m)
  let ?h = "r @ [SP] @ show_nat (length c) @ [LF]"
  have le: "length out \<le> length msg" if "pack_msgs_loop cap out ms = Some msg" for out ms
    using that
  proof (induction ms arbitrary: out)
    case (Cons x xs)
    then show ?case by (cases x) (fastforce simp: Let_def split: if_splits)
  qed simp
  have f: "length out + length ?h + length c \<le> cap"
    and p: "pack_msgs_loop cap (out @ snprintf_buf (cap - length out) ?h @ c) (map (\<lambda>(r, c). (Some r, Some c)) ms) = Some msg"
    using Cons.prems(1) by (auto simp: m Let_def split: if_splits)
  have "snprintf_buf (cap - length out) ?h = ?h"
  proof (cases "length ?h < cap - length out")
    case True
    then show ?thesis by (simp add: snprintf_buf_def)
  next
    case False
    then have "length (snprintf_buf (cap - length out) ?h) \<ge> cap - length out"
      by (simp add: snprintf_buf_def)
    then show ?thesis using le[OF p] Cons.prems(2) by simp
  qed
  then have "pack_msgs_loop cap (out @ ?h @ c) (map (\<lambda>(r, c). (Some r, Some c)) ms) = Some msg" using p by (simp only:)
  then have "msg = (out @ ?h @ c) @ concat (map msg_enc ms)" by (rule Cons.IH[OF _ Cons.prems(2)])
  moreover have "msg_enc m = r @ SP # show_nat (length c) @ LF # c" by (simp add: m msg_enc_def)
  ultimately show ?case by simp
qed simp

lemma scan_msg_enc:
  assumes "role_ok r" "n < 2 ^ 63"
  shows "scan_msg (r @ SP # show_nat n @ LF # t) = Some (r, n)"
proof -
  obtain c q where r: "r = c # q" "\<not> is_space c" using assms(1) by (cases r) (auto simp: role_ok_def)
  have d: "dropWhile is_space (r @ SP # u) = r @ SP # u" for u using r by simp
  have tw: "takeWhile (\<lambda>c. \<not> is_space c) (r @ SP # u) = r" for u
    using assms(1) by (simp add: role_ok_def takeWhile_append2)
  obtain e s where sn: "show_nat n = e # s" by (cases "show_nat n") auto
  have e: "is_digit e" using show_nat_digits[of e n] sn by simp
  have e2: "\<not> is_space e" "e \<noteq> CHR ''-''" "e \<noteq> CHR ''+''" using digit_not_sign[OF e] by auto
  have "scan_size (SP # show_nat n @ LF # t) = n"
    using e2 assms(2) digits_val_show_nat_append[of "LF # t" n] by (simp add: scan_size_def Let_def sn)
  moreover have "has_number (SP # show_nat n @ LF # t)"
    using e e2 by (simp add: has_number_def Let_def sn)
  moreover have "take 15 r = r" "r \<noteq> []" using assms(1) by (simp_all add: role_ok_def)
  ultimately show ?thesis by (simp add: scan_msg_def Let_def d tw)
qed

lemma is_space_LF: "is_space LF"
  by (simp add: is_space_def code_def)

lemma role_ok_LF: "role_ok r \<Longrightarrow> LF \<notin> set r"
  using is_space_LF by (auto simp: role_ok_def)

lemma parse_msg_enc:
  assumes "msg_ok m" "NUL \<notin> set q" "off + length (snd m) + 1 \<le> storesz"
  shows "parse_msg storesz off (msg_enc m @ q) = Ret (Some (fst m, snd m, q))"
proof -
  obtain r c where m: "m = (r, c)" by (cases m)
  have ok: "role_ok r" "NUL \<notin> set c" "length c < 2 ^ 63" "r = ''system'' \<longrightarrow> tool_hit c = None"
    using assms(1) by (simp_all add: msg_ok_def m)
  let ?p = "r @ SP # show_nat (length c) @ LF # c @ q"
  have p: "msg_enc m @ q = ?p" by (simp add: msg_enc_def m)
  have "NUL \<notin> set ?p" using ok assms(2) by (auto simp: role_ok_def show_nat_no)
  then have cs: "cstr ?p = ?p" by (rule cstr_no_NUL)
  have sc: "scan_msg ?p = Some (r, length c)" using scan_msg_enc[OF ok(1,3), of "c @ q"] by simp
  have "LF \<notin> set (r @ SP # show_nat (length c))" using role_ok_LF[OF ok(1)] by (auto simp: show_nat_no)
  then have nl: "strchr ?p LF = Some (LF # c @ q)"
    using strchr_append[of LF "r @ SP # show_nat (length c)" "c @ q"] by simp
  have dr: "drop (length ?p - length (LF # c @ q) + 1) ?p = c @ q"
  proof -
    have "length ?p - length (LF # c @ q) + 1 = length (r @ SP # show_nat (length c) @ [LF])" by simp
    moreover have "?p = (r @ SP # show_nat (length c) @ [LF]) @ c @ q" by simp
    ultimately show ?thesis by (metis append_eq_conv_conj)
  qed
  have st: "r = ''system'' \<Longrightarrow> strip_tool_order_line c = c"
    using ok(4) by (simp add: strip_tool_order_line.simps[of c])
  show ?thesis
    unfolding p parse_msg_def cs sc option.case prod.case nl Let_def dr
    using assms(3) ok(2) st by (simp add: m cstr_no_NUL)
qed

lemma parse_msgs_enc:
  "\<forall>m\<in>set ms. msg_ok m \<Longrightarrow> off + sum_list (map (\<lambda>m. length (snd m) + 1) ms) \<le> storesz \<Longrightarrow>
   parse_msgs_loop storesz off (length ms) (concat (map msg_enc ms)) = Ret (Some ms)"
proof (induction ms arbitrary: off)
  case (Cons m ms)
  have "NUL \<notin> set (concat (map msg_enc ms))"
    using Cons.prems(1) by (auto simp: msg_ok_def msg_enc_def role_ok_def show_nat_no)
  then have "parse_msg storesz off (msg_enc m @ concat (map msg_enc ms)) = Ret (Some (fst m, snd m, concat (map msg_enc ms)))"
    using Cons.prems by (intro parse_msg_enc) auto
  moreover have "parse_msgs_loop storesz (off + length (snd m) + 1) (length ms) (concat (map msg_enc ms)) = Ret (Some ms)"
    using Cons.prems by (intro Cons.IH) auto
  ultimately show ?case by simp
qed simp

lemma packed_msgs_read:
  assumes "pack_chat_msgs cap (map (\<lambda>(r, c). (Some r, Some c)) ms) = Some msg" "length msg < cap"
    and "1 \<le> length ms" "length ms \<le> SESS_MSG_MAX" "\<forall>m\<in>set ms. msg_ok m"
  shows "parse_sess_msgs msg = Ret (Some ms)"
proof -
  let ?h = "''MSGS '' @ show_nat (length ms) @ [LF]"
  let ?b = "concat (map msg_enc ms)"
  have msg: "msg = ?h @ ?b"
    using assms(1,2) pack_msgs_text[of cap ?h ms msg] by (auto simp: pack_chat_msgs_def Let_def split: if_splits)
  have nb: "NUL \<notin> set ?b"
    using assms(5) by (auto simp: msg_ok_def msg_enc_def role_ok_def show_nat_no)
  then have "NUL \<notin> set msg" by (auto simp: msg show_nat_no)
  then have cs: "cstr msg = msg" by (rule cstr_no_NUL)
  have at: "atoi (drop 5 msg) = int (length ms)"
    using assms(4) atoi_show_nat[of "LF # ?b" "length ms"] by (simp add: msg SESS_MSG_MAX_def)
  have nl: "strchr msg LF = Some (LF # ?b)"
    using strchr_append[of LF "''MSGS '' @ show_nat (length ms)" ?b] by (simp add: msg show_nat_no)
  have dr: "drop (length msg - length (LF # ?b) + 1) msg = ?b"
  proof -
    have "length msg - length (LF # ?b) + 1 = length ?h" by (simp add: msg)
    then show ?thesis using msg by (metis append_eq_conv_conj)
  qed
  have "sum_list (map (\<lambda>m. length (snd m) + 1) ms) \<le> length ?b"
    by (induction ms) (auto simp: msg_enc_def)
  then have "0 + sum_list (map (\<lambda>m. length (snd m) + 1) ms) \<le> length msg + SESS_MSG_MAX * 8" by (simp add: msg)
  then have lp: "parse_msgs_loop (length msg + SESS_MSG_MAX * 8) 0 (length ms) ?b = Ret (Some ms)"
    by (rule parse_msgs_enc[OF assms(5)])
  have "ms \<noteq> []" using assms(3) by auto
  moreover have "length msg \<ge> 6" "starts ''MSGS '' msg" by (simp_all add: msg)
  ultimately show ?thesis
    unfolding parse_sess_msgs_def cs Let_def at nl option.case dr
    using assms(3,4) lp by simp
qed

text \<open>C37: The messages of a chat request reach the session server unchanged: whenever the HTTP side
  packs between 1 and 32 messages (roles that are words of at most 15 characters, contents
  without NUL, system messages without a tool list) within its buffer, the server's parser
  returns exactly these roles and contents.\<close>

theorem chat_msgs_roundtrip:
  assumes "pack_chat_msgs cap (map (\<lambda>(r, c). (Some r, Some c)) ms) = Some msg" "length msg < cap"
    and "1 \<le> length ms" "length ms \<le> SESS_MSG_MAX" "\<forall>m\<in>set ms. msg_ok m"
  shows "parse_sess_msgs msg = Ret (Some ms)"
  by (rule packed_msgs_read[OF assms])

theorem chat_msgs_roundtrip_witness:
  "parse_sess_msgs (''MSGS 2'' @ [LF] @ ''system 2'' @ [LF] @ ''be'' @ ''user 5'' @ [LF] @ ''a'' @ [LF] @ ''b c'')
     = Ret (Some [(''system'', ''be''), (''user'', ''a'' @ [LF] @ ''b c'')])"
proof (rule chat_msgs_roundtrip[where cap = 100])
  show "pack_chat_msgs 100 (map (\<lambda>(r, c). (Some r, Some c)) [(''system'', ''be''), (''user'', ''a'' @ [LF] @ ''b c'')])
      = Some (''MSGS 2'' @ [LF] @ ''system 2'' @ [LF] @ ''be'' @ ''user 5'' @ [LF] @ ''a'' @ [LF] @ ''b c'')"
  proof -
    have "show_nat (Suc (Suc 0)) = ''2''" "show_nat (Suc (Suc (Suc (Suc (Suc 0))))) = ''5''" by code_simp+
    then show ?thesis by (simp add: pack_chat_msgs_def Let_def snprintf_buf_def)
  qed
  have "tool_hit ''be'' = None" by code_simp
  then show "\<forall>m\<in>set [(''system'', ''be''), (''user'', ''a'' @ [LF] @ ''b c'')]. msg_ok m"
    by (simp add: msg_ok_def role_ok_def is_space_def code_def)
qed (simp_all add: SESS_MSG_MAX_def)

end
