(* ===== verification/SessTable.thy ===== *)
theory SessTable
  imports ByteCodec "HOL-Library.Multiset"
begin

text \<open>
  The session table of \<^verbatim>\<open>inference/core/cache.c\<close>: a fixed number of entries, each a client
  key with the tokens whose KV the rank still holds, replaced in LRU order. The array
  \<open>v[0..n)\<close> is the list \<open>sc_v\<close>, a pointer to an entry is its index, the valid part
  \<open>tokens[0..n)\<close> of a token buffer is the list \<open>sv_toks\<close> and \<open>sv_cap = 0\<close> stands for the
  null buffer of a zeroed entry. The clock \<open>ynow_ms()\<close> and the success of \<open>realloc\<close> are
  arguments.
\<close>

subsection \<open>State\<close>

record sess_val =
  sv_key :: string
  sv_toks :: "u32 list"
  sv_cap :: u32
  sv_last :: nat

record sess_cache =
  sc_v :: "sess_val list"
  sc_cap :: nat

definition zero_val :: sess_val where
  "zero_val = \<lparr>sv_key = [], sv_toks = [], sv_cap = 0, sv_last = 0\<rparr>"

definition sess_init :: "int \<Rightarrow> sess_cache" where
  "sess_init cap = \<lparr>sc_v = [], sc_cap = (if cap > 0 then nat cap else 16)\<rparr>"

definition set_entry :: "sess_cache \<Rightarrow> nat \<Rightarrow> sess_val \<Rightarrow> sess_cache" where
  "set_entry c i v = c\<lparr>sc_v := (sc_v c)[i := v]\<rparr>"

subsection \<open>Lookup, LRU replacement, insertion\<close>

definition sess_get :: "sess_cache \<Rightarrow> string \<Rightarrow> nat \<Rightarrow> sess_cache \<times> nat option" where
  "sess_get c key now =
     (case find_index (\<lambda>v. sv_key v = key) (sc_v c) of
        None \<Rightarrow> (c, None)
      | Some i \<Rightarrow> (set_entry c i ((sc_v c ! i)\<lparr>sv_last := now\<rparr>), Some i))"

text \<open>The scan for the least recently used entry, started with entry 0.\<close>

fun lru_scan :: "nat \<Rightarrow> nat \<Rightarrow> nat \<Rightarrow> sess_val list \<Rightarrow> nat" where
  "lru_scan i old l [] = old"
| "lru_scan i old l (v # vs) =
     (if sv_last v < l then lru_scan (Suc i) i (sv_last v) vs else lru_scan (Suc i) old l vs)"

definition lru_old :: "sess_val list \<Rightarrow> nat" where
  "lru_old vs = (case vs of [] \<Rightarrow> 0 | v # r \<Rightarrow> lru_scan 1 0 (sv_last v) r)"

definition sess_new :: "sess_cache \<Rightarrow> sess_cache \<times> nat" where
  "sess_new c =
     (if sc_cap c \<le> length (sc_v c)
      then let old = lru_old (sc_v c) in (set_entry c old zero_val, old)
      else (c\<lparr>sc_v := sc_v c @ [zero_val]\<rparr>, length (sc_v c)))"

definition fresh_val :: "string \<Rightarrow> nat \<Rightarrow> sess_val" where
  "fresh_val key now = \<lparr>sv_key = snprintf_s 128 key, sv_toks = [], sv_cap = 256, sv_last = now\<rparr>"

definition sess_put :: "sess_cache \<Rightarrow> string \<Rightarrow> nat \<Rightarrow> sess_cache \<times> nat" where
  "sess_put c key now =
     (case sess_get c key now of
        (c', Some i) \<Rightarrow> (c', i)
      | (c', None) \<Rightarrow> let (c2, i) = sess_new c' in (set_entry c2 i (fresh_val key now), i))"

definition sess_evict :: "sess_cache \<Rightarrow> sess_cache" where
  "sess_evict c =
     (if sc_v c = [] then c
      else let old = lru_old (sc_v c); n = length (sc_v c) in
        c\<lparr>sc_v := (if old \<noteq> n - 1 then take (n - 1) ((sc_v c)[old := sc_v c ! (n - 1)])
                   else take (n - 1) (sc_v c))\<rparr>)"

subsection \<open>Prefix matching\<close>

definition sess_prefix :: "sess_val \<Rightarrow> u32 list \<Rightarrow> nat" where
  "sess_prefix v req = common (sv_toks v) req"

text \<open>The stored sequence without a trailing \<open>eos\<close>.\<close>

definition strip_eos :: "int \<Rightarrow> u32 list \<Rightarrow> u32 list" where
  "strip_eos eos t =
     (if eos \<ge> 0 \<and> t \<noteq> [] \<and> last t = word_of_int eos then butlast t else t)"

definition sess_lcp :: "sess_val \<Rightarrow> u32 list \<Rightarrow> int \<Rightarrow> nat" where
  "sess_lcp v req eos = (if sv_cap v = 0 then 0 else common (strip_eos eos (sv_toks v)) req)"

definition sess_usable :: "sess_val \<Rightarrow> bool" where
  "sess_usable v \<longleftrightarrow> sv_key v \<noteq> [] \<and> sv_toks v \<noteq> [] \<and> sv_cap v \<noteq> 0"

fun best_scan :: "u32 list \<Rightarrow> int \<Rightarrow> nat \<Rightarrow> nat option \<times> nat \<Rightarrow> sess_val list \<Rightarrow> nat option \<times> nat"
where
  "best_scan req eos i (best, best_p) [] = (best, best_p)"
| "best_scan req eos i (best, best_p) (v # vs) =
     (if \<not> sess_usable v then best_scan req eos (Suc i) (best, best_p) vs
      else let p = sess_lcp v req eos in
        if p > best_p then best_scan req eos (Suc i) (Some i, p) vs
        else best_scan req eos (Suc i) (best, best_p) vs)"

text \<open>Result: the new table, \<open>*plen\<close> and the entry.\<close>

definition sess_find_prefix ::
  "sess_cache \<Rightarrow> u32 list \<Rightarrow> int \<Rightarrow> nat \<Rightarrow> sess_cache \<times> nat \<times> nat option" where
  "sess_find_prefix c req eos now =
     (if req = [] then (c, 0, None)
      else case best_scan req eos 0 (None, 0) (sc_v c) of
        (None, p) \<Rightarrow> (c, p, None)
      | (Some i, p) \<Rightarrow>
          (set_entry c i ((sc_v c ! i)\<lparr>sv_last := now\<rparr>), p, if p > 0 then Some i else None))"

subsection \<open>Token accounting of one entry\<close>

definition sess_truncate :: "sess_val \<Rightarrow> nat \<Rightarrow> nat \<Rightarrow> sess_val" where
  "sess_truncate v n now = v\<lparr>sv_toks := take n (sv_toks v), sv_last := now\<rparr>"

text \<open>The doubling loop of \<open>sess_grow\<close> in 32-bit arithmetic: it may never end.\<close>

partial_function (option) grow_loop :: "u32 \<Rightarrow> u32 \<Rightarrow> u32 option" where
  "grow_loop nc need = (if nc < need then grow_loop (nc * 2) need else Some nc)"

text \<open>\<open>mem b\<close> says whether \<open>realloc\<close> of \<open>b\<close> bytes succeeds.\<close>

definition sess_grow :: "(nat \<Rightarrow> bool) \<Rightarrow> sess_val \<Rightarrow> u32 \<Rightarrow> (int \<times> sess_val) run" where
  "sess_grow mem v need =
     (if need \<le> sv_cap v then Ret (0, v)
      else case grow_loop (if sv_cap v \<noteq> 0 then sv_cap v else 256) need of
        None \<Rightarrow> Diverge
      | Some nc \<Rightarrow>
          if mem (4 * unat nc) then Ret (0, v\<lparr>sv_cap := nc\<rparr>) else Ret (-1, v))"

definition sv_n :: "sess_val \<Rightarrow> u32" where
  "sv_n v = word_of_nat (length (sv_toks v))"

definition sess_commit ::
  "(nat \<Rightarrow> bool) \<Rightarrow> sess_val \<Rightarrow> u32 list \<Rightarrow> nat \<Rightarrow> (int \<times> sess_val) run" where
  "sess_commit mem v tok now =
     run_bind (sess_grow mem v (sv_n v + word_of_nat (length tok)))
       (\<lambda>(rc, v'). if rc \<noteq> 0 then Ret (-1, v')
         else if unat (sv_cap v') < length (sv_toks v') + length tok then Fault
         else Ret (0, v'\<lparr>sv_toks := sv_toks v' @ tok, sv_last := now\<rparr>))"

definition sess_append :: "(nat \<Rightarrow> bool) \<Rightarrow> sess_val \<Rightarrow> u32 \<Rightarrow> nat \<Rightarrow> (int \<times> sess_val) run" where
  "sess_append mem v tok now =
     run_bind (sess_grow mem v (sv_n v + 1))
       (\<lambda>(rc, v'). if rc \<noteq> 0 then Ret (-1, v')
         else if unat (sv_cap v') < length (sv_toks v') + 1 then Fault
         else Ret (0, v'\<lparr>sv_toks := sv_toks v' @ [tok], sv_last := now\<rparr>))"

subsection \<open>The LRU scan\<close>

lemma lru_scan_min:
  assumes "old < i" "i + length vs = length ws" "drop i ws = vs" "l = sv_last (ws ! old)"
    and "\<And>j. j < i \<Longrightarrow> l \<le> sv_last (ws ! j)"
  shows "lru_scan i old l vs < length ws
    \<and> (\<forall>j<length ws. sv_last (ws ! lru_scan i old l vs) \<le> sv_last (ws ! j))"
  using assms
proof (induction i old l vs rule: lru_scan.induct)
  case (1 i old l)
  then show ?case by auto
next
  case (2 i old l v vs)
  have v: "ws ! i = v" and d: "drop (Suc i) ws = vs" and i: "i < length ws"
    using "2.prems"(3) by (metis drop_eq_Nil2 leI list.discI nth_via_drop)
      (metis "2.prems"(3) drop_Suc list.sel(3) tl_drop, metis "2.prems"(3) drop_eq_Nil2 leI list.discI)
  show ?case
  proof (cases "sv_last v < l")
    case True
    have "\<And>j. j < Suc i \<Longrightarrow> sv_last v \<le> sv_last (ws ! j)"
      using True "2.prems"(5) v by (metis less_SucE less_or_eq_imp_le order_trans)
    then show ?thesis
      using "2.IH"(1)[OF True] True "2.prems"(2) v d by simp
  next
    case False
    have "\<And>j. j < Suc i \<Longrightarrow> l \<le> sv_last (ws ! j)"
      using False "2.prems"(5) v by (metis less_SucE not_less)
    then show ?thesis
      using "2.IH"(2)[OF False] False "2.prems" v d by simp
  qed
qed

lemma lru_old_min:
  assumes "vs \<noteq> []"
  shows "lru_old vs < length vs" "v \<in> set vs \<Longrightarrow> sv_last (vs ! lru_old vs) \<le> sv_last v"
proof -
  obtain w r where vs: "vs = w # r" using assms by (cases vs) auto
  have "lru_old vs < length vs \<and> (\<forall>j<length vs. sv_last (vs ! lru_old vs) \<le> sv_last (vs ! j))"
    unfolding lru_old_def vs list.case
    by (rule lru_scan_min) auto
  then show "lru_old vs < length vs" "v \<in> set vs \<Longrightarrow> sv_last (vs ! lru_old vs) \<le> sv_last v"
    by (auto simp: in_set_conv_nth)
qed

subsection \<open>The doubling loop\<close>

lemma unat_2_pow: "k < 32 \<Longrightarrow> unat ((2::u32) ^ k) = 2 ^ k"
proof -
  assume k: "k < 32"
  then have "(2::nat) ^ k < 2 ^ 32" by (intro power_strict_increasing) auto
  then have "unat (word_of_nat (2 ^ k) :: u32) = 2 ^ k"
    using k by (subst unsigned_of_nat) (simp add: take_bit_nat_eq_self)
  then show ?thesis by (simp only: of_nat_power of_nat_numeral)
qed

lemma grow_loop_returns:
  assumes "k \<le> 31" "unat need \<le> 2 ^ 31"
  shows "\<exists>j\<le>31. k \<le> j \<and> grow_loop (2 ^ k) need = Some (2 ^ j) \<and> need \<le> 2 ^ j"
  using assms(1)
proof (induction "31 - k" arbitrary: k)
  case 0
  then have k: "k = 31" by simp
  have "need \<le> 2 ^ 31"
    using assms(2) unat_2_pow[of 31] by (simp add: word_le_nat_alt)
  then show ?case
    by (intro exI[of _ 31]) (auto simp: k grow_loop.simps[of "2147483648"] dest: leD)
next
  case (Suc n)
  show ?case
  proof (cases "(2::u32) ^ k < need")
    case True
    obtain j where "j \<le> 31" "Suc k \<le> j" "grow_loop (2 ^ Suc k) need = Some (2 ^ j)"
        "need \<le> 2 ^ j"
      using Suc.hyps(1)[of "Suc k"] Suc.hyps(2) by force
    moreover have "grow_loop (2 ^ k) need = grow_loop (2 ^ Suc k) need"
      using True by (subst grow_loop.simps) (simp add: mult.commute)
    ultimately show ?thesis by (metis Suc_leD)
  next
    case False
    then show ?thesis
      using Suc.prems by (intro exI[of _ k]) (simp add: grow_loop.simps[of "2 ^ k"])
  qed
qed

definition pow_or_0 :: "u32 \<Rightarrow> bool" where
  "pow_or_0 w \<longleftrightarrow> w = 0 \<or> (\<exists>k\<le>31. w = 2 ^ k)"

lemma pow_or_0_double: "pow_or_0 w \<Longrightarrow> pow_or_0 (w * 2)"
proof -
  assume "pow_or_0 w"
  then consider "w = 0" | k where "k < 31" "w = 2 ^ k" | "w = 2 ^ 31"
    unfolding pow_or_0_def by (metis le_neq_implies_less)
  then show ?thesis
  proof cases
    case (2 k)
    then have "w * 2 = 2 ^ Suc k" by (simp add: mult.commute)
    with 2 show ?thesis unfolding pow_or_0_def by (metis Suc_leI)
  qed (simp_all add: pow_or_0_def)
qed

lemma grow_loop_result:
  assumes ret: "grow_loop nc need = Some r"
  shows "need \<le> r \<and> (pow_or_0 nc \<longrightarrow> pow_or_0 r)"
proof (rule grow_loop.raw_induct
    [where P = "\<lambda>nc need r. need \<le> r \<and> (pow_or_0 nc \<longrightarrow> pow_or_0 r)", OF _ ret])
  fix f nc need r
  assume IH: "\<And>nc need r. f nc need = Some r \<Longrightarrow> need \<le> r \<and> (pow_or_0 nc \<longrightarrow> pow_or_0 r)"
    and eq: "(if nc < need then f (nc * 2) need else Some nc) = Some r"
  show "need \<le> r \<and> (pow_or_0 nc \<longrightarrow> pow_or_0 r)"
  proof (cases "nc < need")
    case True
    with eq IH show ?thesis using pow_or_0_double by fastforce
  next
    case False
    with eq show ?thesis by auto
  qed
qed

lemma pow_or_0_le: "pow_or_0 w \<Longrightarrow> unat w \<le> 2 ^ 31"
proof (cases "w = 0")
  case False
  assume "pow_or_0 w"
  with False obtain k where "k \<le> 31" "w = 2 ^ k" by (auto simp: pow_or_0_def)
  then show ?thesis using unat_2_pow[of k] power_increasing[of k 31 "2::nat"] by simp
qed simp

lemma grow_loop_diverges:
  assumes "pow_or_0 nc" "2 ^ 31 < unat need"
  shows "grow_loop nc need = None"
proof (rule ccontr)
  assume "grow_loop nc need \<noteq> None"
  then obtain r where r: "grow_loop nc need = Some r" by auto
  have "need \<le> r" "pow_or_0 r" using grow_loop_result[OF r] assms(1) by auto
  then have "unat need \<le> 2 ^ 31" using pow_or_0_le[of r] by (simp add: word_le_nat_alt)
  with assms(2) show False by simp
qed

subsection \<open>The invariant of an entry\<close>

definition sv_inv :: "sess_val \<Rightarrow> bool" where
  "sv_inv v \<longleftrightarrow> (sv_cap v = 0 \<or> (\<exists>k. 8 \<le> k \<and> k \<le> 31 \<and> sv_cap v = 2 ^ k))
     \<and> length (sv_toks v) \<le> unat (sv_cap v) \<and> length (sv_key v) < 128"

lemma sv_inv_cap: "sv_inv v \<Longrightarrow> sv_cap v \<noteq> 0 \<Longrightarrow> \<exists>k. 8 \<le> k \<and> k \<le> 31 \<and> sv_cap v = 2 ^ k"
  by (auto simp: sv_inv_def)

lemma sv_inv_start:
  "sv_inv v \<Longrightarrow> \<exists>k. 8 \<le> k \<and> k \<le> 31 \<and> (if sv_cap v \<noteq> 0 then sv_cap v else 256) = 2 ^ k"
proof (cases "sv_cap v = 0")
  case True
  then show ?thesis by (intro exI[of _ 8]) simp
qed (auto simp: sv_inv_def)

lemma sv_inv_pow: "sv_inv v \<Longrightarrow> pow_or_0 (if sv_cap v \<noteq> 0 then sv_cap v else 256)"
  unfolding pow_or_0_def using sv_inv_start[of v] by blast

lemma sv_inv_cap_le: "sv_inv v \<Longrightarrow> unat (sv_cap v) \<le> 2 ^ 31"
  by (rule pow_or_0_le) (auto simp: sv_inv_def pow_or_0_def)

lemma sv_inv_length: "sv_inv v \<Longrightarrow> length (sv_toks v) \<le> 2 ^ 31"
proof -
  assume i: "sv_inv v"
  then have "length (sv_toks v) \<le> unat (sv_cap v)" by (simp only: sv_inv_def)
  with sv_inv_cap_le[OF i] show ?thesis by (rule order_trans[rotated])
qed

lemma unat_sv_n: "sv_inv v \<Longrightarrow> unat (sv_n v) = length (sv_toks v)"
proof -
  assume "sv_inv v"
  then have "length (sv_toks v) < 2 ^ LENGTH(32)"
    using sv_inv_length[of v] by simp
  then show ?thesis
    unfolding sv_n_def by (subst unsigned_of_nat) (simp add: take_bit_nat_eq_self)
qed

lemma sess_grow_cases:
  assumes "sv_inv v" "unat need \<le> 2 ^ 31"
  obtains (fail) "sess_grow mem v need = Ret (-1, v)"
  | (ok) nc where "sess_grow mem v need = Ret (0, v\<lparr>sv_cap := nc\<rparr>)" "need \<le> nc"
      "sv_inv (v\<lparr>sv_cap := nc\<rparr>)"
proof (cases "need \<le> sv_cap v")
  case True
  then show ?thesis
    using assms ok[of "sv_cap v"] by (simp add: sess_grow_def sv_inv_def)
next
  case False
  obtain k where k: "8 \<le> k" "k \<le> 31" "(if sv_cap v \<noteq> 0 then sv_cap v else 256) = 2 ^ k"
    using sv_inv_start[OF assms(1)] by blast
  obtain j where j: "j \<le> 31" "grow_loop (2 ^ k) need = Some (2 ^ j)" "need \<le> 2 ^ j" "k \<le> j"
    using grow_loop_returns[OF k(2) assms(2)] by blast
  have "unat (sv_cap v) \<le> unat ((2::u32) ^ j)"
  proof (cases "sv_cap v = 0")
    case False
    then have "unat (sv_cap v) = 2 ^ k" using k unat_2_pow[of k] by simp
    then show ?thesis using j unat_2_pow[of j] by simp
  qed simp
  then have "length (sv_toks v) \<le> unat ((2::u32) ^ j)"
    using assms(1) by (simp only: sv_inv_def) linarith
  moreover have "\<exists>k. 8 \<le> k \<and> k \<le> 31 \<and> (2::u32) ^ j = 2 ^ k"
    using j(1,4) k(1) by (intro exI[of _ j]) simp
  ultimately have "sv_inv (v\<lparr>sv_cap := 2 ^ j\<rparr>)"
    using assms(1) by (simp add: sv_inv_def)
  then show ?thesis
    using False k j ok[of "2 ^ j"] fail by (cases "mem (4 * unat ((2::u32) ^ j))") (simp_all add: sess_grow_def)
qed

lemma sess_grow_diverges:
  assumes "sv_inv v" "2 ^ 31 < unat need"
  shows "sess_grow mem v need = Diverge"
proof -
  have "\<not> need \<le> sv_cap v"
    using assms pow_or_0_le[of "sv_cap v"] sv_inv_pow[OF assms(1)]
    by (auto simp: word_le_nat_alt split: if_splits)
  then show ?thesis
    using grow_loop_diverges[OF sv_inv_pow[OF assms(1)] assms(2)] by (simp add: sess_grow_def)
qed

lemma sess_commit_cases:
  assumes "sv_inv v" "length (sv_toks v) + length tok \<le> 2 ^ 31"
  obtains (fail) "sess_commit mem v tok now = Ret (-1, v)"
  | (ok) nc where
      "sess_commit mem v tok now = Ret (0, v\<lparr>sv_cap := nc, sv_toks := sv_toks v @ tok, sv_last := now\<rparr>)"
      "sv_inv (v\<lparr>sv_cap := nc, sv_toks := sv_toks v @ tok, sv_last := now\<rparr>)"
proof -
  let ?need = "sv_n v + word_of_nat (length tok)"
  have "?need = word_of_nat (length (sv_toks v) + length tok)"
    by (simp add: sv_n_def)
  then have un: "unat ?need = length (sv_toks v) + length tok"
    using assms(2) by (simp only: unat_of_nat) simp
  show ?thesis
  proof (rule sess_grow_cases[OF assms(1), of ?need mem])
    show "unat ?need \<le> 2 ^ 31" using un assms(2) by simp
  next
    assume "sess_grow mem v ?need = Ret (-1, v)"
    then show ?thesis using fail by (simp add: sess_commit_def)
  next
    fix nc
    assume g: "sess_grow mem v ?need = Ret (0, v\<lparr>sv_cap := nc\<rparr>)" "?need \<le> nc"
      "sv_inv (v\<lparr>sv_cap := nc\<rparr>)"
    then have "length (sv_toks v) + length tok \<le> unat nc"
      using un by (simp add: word_le_nat_alt)
    then show ?thesis
      using g ok[of nc] by (simp add: sess_commit_def sv_inv_def)
  qed
qed

subsection \<open>The table as a map from keys to token sequences\<close>

definition sc_pairs :: "sess_cache \<Rightarrow> (string \<times> u32 list) list" where
  "sc_pairs c = map (\<lambda>v. (sv_key v, sv_toks v)) (sc_v c)"

definition sc_tab :: "sess_cache \<Rightarrow> string \<Rightarrow> u32 list option" where
  "sc_tab c = map_of (sc_pairs c)"

definition sc_inv :: "sess_cache \<Rightarrow> bool" where
  "sc_inv c \<longleftrightarrow> 0 < sc_cap c \<and> length (sc_v c) \<le> sc_cap c \<and> distinct (map sv_key (sc_v c))
     \<and> (\<forall>v\<in>set (sc_v c). sv_inv v)"

lemma sc_pairs_fst: "map fst (sc_pairs c) = map sv_key (sc_v c)"
  by (simp add: sc_pairs_def comp_def)

lemma length_sc_pairs [simp]: "length (sc_pairs c) = length (sc_v c)"
  by (simp add: sc_pairs_def)

lemma sc_pairs_nth: "i < length (sc_v c) \<Longrightarrow> sc_pairs c ! i = (sv_key (sc_v c ! i), sv_toks (sc_v c ! i))"
  by (simp add: sc_pairs_def)

lemma sc_pairs_set_entry:
  "sc_pairs (set_entry c i v) = (sc_pairs c)[i := (sv_key v, sv_toks v)]"
  by (simp add: sc_pairs_def set_entry_def map_update)

lemma set_entry_sel [simp]:
  "length (sc_v (set_entry c i v)) = length (sc_v c)" "sc_cap (set_entry c i v) = sc_cap c"
  "sc_v (set_entry c i v) = (sc_v c)[i := v]"
  by (simp_all add: set_entry_def)

lemma tab_None: "sc_tab c k = None \<longleftrightarrow> k \<notin> sv_key ` set (sc_v c)"
  by (simp add: sc_tab_def map_of_eq_None_iff sc_pairs_def image_image)

text \<open>Overwriting one entry, with the same key or with a new one.\<close>

lemma tab_set_entry:
  assumes "sc_inv c" "i < length (sc_v c)"
    and "sv_key v = sv_key (sc_v c ! i) \<or> sc_tab c (sv_key v) = None"
  shows "sc_tab (set_entry c i v) =
           (sc_tab c)(sv_key (sc_v c ! i) := None, sv_key v \<mapsto> sv_toks v)"
  unfolding sc_tab_def sc_pairs_set_entry
  by (subst map_of_update_nth)
     (use assms in \<open>auto simp: sc_inv_def sc_pairs_fst sc_pairs_nth map_of_eq_None_iff sc_tab_def\<close>)

lemma inv_set_entry:
  assumes "sc_inv c" "i < length (sc_v c)" "sv_inv v"
    and "sv_key v = sv_key (sc_v c ! i) \<or> sc_tab c (sv_key v) = None"
  shows "sc_inv (set_entry c i v)"
proof -
  have "distinct ((map sv_key (sc_v c))[i := sv_key v])"
    by (rule distinct_update_nth)
       (use assms in \<open>auto simp: sc_inv_def tab_None\<close>)
  then show ?thesis
    using assms(1,3) by (auto simp: sc_inv_def map_update dest: subsetD[OF set_update_subset_insert])
qed

lemma find_key_Some:
  "find_index (\<lambda>v. sv_key v = key) (sc_v c) = Some i \<Longrightarrow>
   i < length (sc_v c) \<and> sv_key (sc_v c ! i) = key \<and> sc_tab c key \<noteq> None"
  using tab_None[of c key] by (auto simp: find_index_Some)

lemma find_key_None:
  "find_index (\<lambda>v. sv_key v = key) (sc_v c) = None \<longleftrightarrow> sc_tab c key = None"
  by (auto simp: find_index_None tab_None)

lemma tab_nth:
  assumes "sc_inv c" "i < length (sc_v c)"
  shows "sc_tab c (sv_key (sc_v c ! i)) = Some (sv_toks (sc_v c ! i))"
  unfolding sc_tab_def
  by (rule map_of_is_SomeI)
     (use assms in \<open>auto simp: sc_pairs_fst sc_inv_def in_set_conv_nth sc_pairs_nth intro!: exI[of _ i]\<close>)

lemma sess_get_spec:
  assumes "sc_inv c"
  shows "sc_tab (fst (sess_get c key now)) = sc_tab c" "sc_inv (fst (sess_get c key now))"
    "length (sc_v (fst (sess_get c key now))) = length (sc_v c)"
    "sc_cap (fst (sess_get c key now)) = sc_cap c"
    "(snd (sess_get c key now) = None) = (sc_tab c key = None)"
    "snd (sess_get c key now) = Some i \<Longrightarrow>
       i < length (sc_v c) \<and> sv_key (sc_v c ! i) = key"
proof -
  note * = find_key_Some[of key c]
  show "sc_tab (fst (sess_get c key now)) = sc_tab c"
    using assms *
    by (auto simp: sess_get_def tab_set_entry tab_nth fun_eq_iff split: option.splits)
  show "sc_inv (fst (sess_get c key now))"
    using assms *
    by (auto simp: sess_get_def split: option.splits intro!: inv_set_entry)
       (auto simp: sc_inv_def sv_inv_def)
  show "length (sc_v (fst (sess_get c key now))) = length (sc_v c)"
    "sc_cap (fst (sess_get c key now)) = sc_cap c"
    by (auto simp: sess_get_def split: option.splits)
  show "(snd (sess_get c key now) = None) = (sc_tab c key = None)"
    using find_key_None[of key c] by (auto simp: sess_get_def split: option.splits)
  show "snd (sess_get c key now) = Some i \<Longrightarrow> i < length (sc_v c) \<and> sv_key (sc_v c ! i) = key"
    using * by (auto simp: sess_get_def split: option.splits)
qed

lemma set_entry_twice: "set_entry (set_entry c i v) i w = set_entry c i w"
  by (simp add: set_entry_def)

lemma sv_inv_fresh: "sv_inv (fresh_val key now)"
  by (auto simp: sv_inv_def fresh_val_def length_snprintf_s intro: exI[of _ 8])

lemma tab_append:
  assumes "sc_tab c (sv_key v) = None"
  shows "sc_tab (c\<lparr>sc_v := sc_v c @ [v]\<rparr>) = (sc_tab c)(sv_key v \<mapsto> sv_toks v)"
  using assms by (auto simp: sc_tab_def sc_pairs_def map_add_def fun_eq_iff split: option.splits)

lemma sess_put_hit: "sc_inv c \<Longrightarrow> sc_tab c key \<noteq> None \<Longrightarrow> fst (sess_put c key now) = fst (sess_get c key now)"
  using sess_get_spec(5)[of c key now]
  by (cases "sess_get c key now") (auto simp: sess_put_def split: option.splits)

lemma sess_put_miss:
  assumes "sc_inv c" "sc_tab c key = None"
  shows "fst (sess_put c key now) =
    (if sc_cap c \<le> length (sc_v c) then set_entry c (lru_old (sc_v c)) (fresh_val key now)
     else c\<lparr>sc_v := sc_v c @ [fresh_val key now]\<rparr>)"
proof -
  have "sess_get c key now = (c, None)"
    using assms(2) by (simp add: sess_get_def find_key_None[symmetric])
  then show ?thesis
    by (auto simp: sess_put_def sess_new_def Let_def set_entry_twice set_entry_def)
qed

lemma lru_old_in: "sc_inv c \<Longrightarrow> sc_cap c \<le> length (sc_v c) \<Longrightarrow> lru_old (sc_v c) < length (sc_v c)"
  by (rule lru_old_min(1)) (auto simp: sc_inv_def)

lemma lru_old_least:
  "sc_inv c \<Longrightarrow> sc_cap c \<le> length (sc_v c) \<Longrightarrow> w \<in> set (sc_v c) \<Longrightarrow>
   sv_last (sc_v c ! lru_old (sc_v c)) \<le> sv_last w"
  by (rule lru_old_min(2)) auto

lemma sess_put_inv: "sc_inv c \<Longrightarrow> length key < 128 \<Longrightarrow> sc_inv (fst (sess_put c key now))"
proof (cases "sc_tab c key = None")
  case True
  assume a: "sc_inv c" "length key < 128"
  have k: "sv_key (fresh_val key now) = key" using a(2) by (simp add: fresh_val_def)
  show ?thesis
  proof (cases "sc_cap c \<le> length (sc_v c)")
    case True
    then show ?thesis
      using a \<open>sc_tab c key = None\<close> k lru_old_in[OF a(1)]
      by (simp add: sess_put_miss) (rule inv_set_entry, auto simp: sv_inv_fresh)
  next
    case False
    then show ?thesis
      using a \<open>sc_tab c key = None\<close> k sv_inv_fresh
      by (auto simp: sess_put_miss sc_inv_def tab_None)
  qed
next
  case False
  assume "sc_inv c"
  with False show ?thesis by (simp add: sess_put_hit sess_get_spec)
qed

subsection \<open>Entry operations through a key, as the server performs them\<close>

text \<open>\<open>sess_get\<close> followed by an operation on the entry it returned.\<close>

definition sess_trunc_key :: "sess_cache \<Rightarrow> string \<Rightarrow> nat \<Rightarrow> nat \<Rightarrow> sess_cache" where
  "sess_trunc_key c key n now =
     (case sess_get c key now of
        (c', None) \<Rightarrow> c'
      | (c', Some i) \<Rightarrow> set_entry c' i (sess_truncate (sc_v c' ! i) n now))"

definition sess_commit_key ::
  "(nat \<Rightarrow> bool) \<Rightarrow> sess_cache \<Rightarrow> string \<Rightarrow> u32 list \<Rightarrow> nat \<Rightarrow> (int \<times> sess_cache) run" where
  "sess_commit_key mem c key tok now =
     (case sess_get c key now of
        (c', None) \<Rightarrow> Ret (-1, c')
      | (c', Some i) \<Rightarrow>
          run_bind (sess_commit mem (sc_v c' ! i) tok now) (\<lambda>(rc, v). Ret (rc, set_entry c' i v)))"

lemma sess_get_hit:
  assumes "sc_inv c" "sc_tab c key = Some t"
  obtains c' i where "sess_get c key now = (c', Some i)" "sc_inv c'" "sc_tab c' = sc_tab c"
    "i < length (sc_v c')" "sv_key (sc_v c' ! i) = key" "sv_toks (sc_v c' ! i) = t" "sv_inv (sc_v c' ! i)"
proof -
  obtain i where i: "find_index (\<lambda>v. sv_key v = key) (sc_v c) = Some i"
    using assms(2) find_key_None[of key c] by (cases "find_index (\<lambda>v. sv_key v = key) (sc_v c)") auto
  let ?c = "fst (sess_get c key now)"
  have g: "sess_get c key now = (?c, Some i)" using i by (simp add: sess_get_def)
  have il: "i < length (sc_v c)" and ik: "sv_key (sc_v c ! i) = key"
    using find_key_Some[OF i] by auto
  have "sc_inv ?c" "sc_tab ?c = sc_tab c" "length (sc_v ?c) = length (sc_v c)"
    using sess_get_spec[OF assms(1)] by blast+
  moreover have "sv_toks (sc_v ?c ! i) = t" "sv_key (sc_v ?c ! i) = key"
    using tab_nth[OF assms(1) il] ik assms(2) il i by (auto simp: sess_get_def)
  ultimately show ?thesis
    using that[OF g] il by (auto simp: sc_inv_def)
qed

lemma sess_trunc_key_spec:
  assumes "sc_inv c" "sc_tab c key = Some t"
  shows "sc_tab (sess_trunc_key c key n now) = (sc_tab c)(key \<mapsto> take n t)"
    "sc_inv (sess_trunc_key c key n now)"
proof -
  obtain c' i where g: "sess_get c key now = (c', Some i)" "sc_inv c'" "sc_tab c' = sc_tab c"
    "i < length (sc_v c')" "sv_key (sc_v c' ! i) = key" "sv_toks (sc_v c' ! i) = t" "sv_inv (sc_v c' ! i)"
    using sess_get_hit[OF assms] .
  let ?v = "sess_truncate (sc_v c' ! i) n now"
  have v: "sv_key ?v = key" "sv_toks ?v = take n t" "sv_inv ?v"
    using g by (auto simp: sess_truncate_def sv_inv_def)
  show "sc_tab (sess_trunc_key c key n now) = (sc_tab c)(key \<mapsto> take n t)"
    using g v by (simp add: sess_trunc_key_def tab_set_entry)
  show "sc_inv (sess_trunc_key c key n now)"
    using g v by (simp add: sess_trunc_key_def inv_set_entry)
qed

lemma sess_commit_key_spec:
  assumes "sc_inv c" "sc_tab c key = Some t" "length t + length tok \<le> 2 ^ 31"
  shows "\<exists>rc c'. sess_commit_key mem c key tok now = Ret (rc, c') \<and> sc_inv c'
    \<and> sc_tab c' = (if rc = 0 then (sc_tab c)(key \<mapsto> t @ tok) else sc_tab c)"
proof -
  obtain c' i where g: "sess_get c key now = (c', Some i)" "sc_inv c'" "sc_tab c' = sc_tab c"
    "i < length (sc_v c')" "sv_key (sc_v c' ! i) = key" "sv_toks (sc_v c' ! i) = t" "sv_inv (sc_v c' ! i)"
    using sess_get_hit[OF assms(1,2)] .
  let ?v = "sc_v c' ! i"
  have l: "length (sv_toks ?v) + length tok \<le> 2 ^ 31" using g(6) assms(3) by simp
  show ?thesis
  proof (rule sess_commit_cases[OF g(7) l, of mem now])
    assume f: "sess_commit mem ?v tok now = Ret (-1, ?v)"
    have "set_entry c' i ?v = c'" by (simp add: set_entry_def)
    with f g(1) have "sess_commit_key mem c key tok now = Ret (-1, c')"
      by (simp add: sess_commit_key_def)
    then show ?thesis using g by simp
  next
    fix nc
    let ?w = "?v\<lparr>sv_cap := nc, sv_toks := sv_toks ?v @ tok, sv_last := now\<rparr>"
    assume "sess_commit mem ?v tok now = Ret (0, ?w)" and w: "sv_inv ?w"
    then have "sess_commit_key mem c key tok now = Ret (0, set_entry c' i ?w)"
      using g by (simp add: sess_commit_key_def)
    moreover have "sc_tab (set_entry c' i ?w) = (sc_tab c)(key \<mapsto> t @ tok)"
      using tab_set_entry[OF g(2,4), of ?w] g by simp
    moreover have "sc_inv (set_entry c' i ?w)"
      using inv_set_entry[OF g(2,4) w] g by simp
    ultimately show ?thesis by simp
  qed
qed

subsection \<open>The interface the session server relies on\<close>

text \<open>
  A store of token sequences under client keys: an entry is made, cut back to a common
  prefix and extended by what the rank has confirmed. One turn of a session is those four
  calls.
\<close>

locale token_store =
  fixes tab :: "'s \<Rightarrow> string \<Rightarrow> u32 list option"
    and put :: "'s \<Rightarrow> string \<Rightarrow> nat \<Rightarrow> 's"
    and trunc :: "'s \<Rightarrow> string \<Rightarrow> nat \<Rightarrow> nat \<Rightarrow> 's"
    and commit :: "'s \<Rightarrow> string \<Rightarrow> u32 list \<Rightarrow> nat \<Rightarrow> (int \<times> 's) run"
    and inv :: "'s \<Rightarrow> bool"
    and okk :: "string \<Rightarrow> bool"
    and room :: nat
  assumes put_same: "inv s \<Longrightarrow> tab s k = Some t \<Longrightarrow> tab (put s k now) k = Some t"
    and put_fresh: "inv s \<Longrightarrow> okk k \<Longrightarrow> tab s k = None \<Longrightarrow> tab (put s k now) k = Some []"
    and put_inv: "inv s \<Longrightarrow> okk k \<Longrightarrow> inv (put s k now)"
    and trunc_tab: "inv s \<Longrightarrow> tab s k = Some t \<Longrightarrow> tab (trunc s k n now) = (tab s)(k \<mapsto> take n t)"
    and trunc_inv: "inv s \<Longrightarrow> tab s k = Some t \<Longrightarrow> inv (trunc s k n now)"
    and commit_ok: "inv s \<Longrightarrow> tab s k = Some t \<Longrightarrow> length t + length d \<le> room \<Longrightarrow>
      \<exists>rc s'. commit s k d now = Ret (rc, s') \<and> inv s' \<and>
        tab s' = (if rc = 0 then (tab s)(k \<mapsto> t @ d) else tab s)"
begin

lemma put_tab: "inv s \<Longrightarrow> okk k \<Longrightarrow> tab (put s k now) k = Some (case tab s k of None \<Rightarrow> [] | Some t \<Rightarrow> t)"
  by (cases "tab s k") (auto simp: put_same put_fresh)

lemma turn:
  assumes "inv s" "okk k" and old: "old = (case tab s k of None \<Rightarrow> [] | Some t \<Rightarrow> t)"
    and "length old + length delta + length gen \<le> room"
    and s1: "s1 = trunc (put s k t0) k m t1"
    and c1: "commit s1 k delta t2 = Ret (0, s2)"
    and c2: "commit s2 k gen t3 = Ret (0, s3)"
  shows "tab s3 k = Some (take m old @ delta @ gen)" "inv s3"
proof -
  have p: "inv (put s k t0)" "tab (put s k t0) k = Some old"
    using assms(1,2) old by (simp_all add: put_inv put_tab)
  then have q: "inv s1" "tab s1 k = Some (take m old)"
    by (simp_all add: s1 trunc_inv trunc_tab)
  have "length (take m old) + length delta \<le> room" using assms(4) by simp
  then have r: "inv s2" "tab s2 k = Some (take m old @ delta)"
    using commit_ok[OF q, of delta t2] c1 by auto
  have "length (take m old @ delta) + length gen \<le> room" using assms(4) by simp
  then show "tab s3 k = Some (take m old @ delta @ gen)" "inv s3"
    using commit_ok[OF r, of gen t3] c2 by auto
qed

end

lemma sess_put_tab:
  assumes "sc_inv c" "length key < 128" "sc_tab c key = None"
  shows "sc_tab (fst (sess_put c key now)) =
    (if sc_cap c \<le> length (sc_v c)
     then (sc_tab c)(sv_key (sc_v c ! lru_old (sc_v c)) := None, key \<mapsto> [])
     else (sc_tab c)(key \<mapsto> []))"
proof -
  have k: "sv_key (fresh_val key now) = key" "sv_toks (fresh_val key now) = []"
    using assms(2) by (simp_all add: fresh_val_def)
  show ?thesis
    using assms lru_old_in[OF assms(1)] k
    by (simp add: sess_put_miss tab_set_entry tab_append)
qed

interpretation ts: token_store sc_tab "\<lambda>c k now. fst (sess_put c k now)" sess_trunc_key
  "sess_commit_key mem" sc_inv "\<lambda>k. length k < 128" "2 ^ 31" for mem
proof unfold_locales
  fix c k t now
  assume "sc_inv c" "sc_tab c k = Some t"
  then show "sc_tab (fst (sess_put c k now)) k = Some t"
    by (simp add: sess_put_hit sess_get_spec)
next
  fix c k t and d :: "u32 list" and now
  assume "sc_inv c" "sc_tab c k = Some t" "length t + length d \<le> 2 ^ 31"
  then show "\<exists>rc c'. sess_commit_key mem c k d now = Ret (rc, c') \<and> sc_inv c' \<and>
      sc_tab c' = (if rc = 0 then (sc_tab c)(k \<mapsto> t @ d) else sc_tab c)"
    by (rule sess_commit_key_spec)
qed (auto simp: sess_put_tab sess_put_inv sess_trunc_key_spec)

subsection \<open>The best prefix\<close>

definition best_ok :: "u32 list \<Rightarrow> int \<Rightarrow> nat \<Rightarrow> nat option \<times> nat \<Rightarrow> sess_val list \<Rightarrow> nat option \<times> nat \<Rightarrow> bool" where
  "best_ok req eos i bp vs bp' \<longleftrightarrow> bp' = bp \<or>
     (\<exists>j<length vs. fst bp' = Some (i + j) \<and> sess_usable (vs ! j)
       \<and> sess_lcp (vs ! j) req eos = snd bp' \<and> snd bp < snd bp'
       \<and> (\<forall>k<j. sess_usable (vs ! k) \<longrightarrow> sess_lcp (vs ! k) req eos < snd bp'))"

lemma best_ok_Cons:
  assumes "best_ok req eos (Suc i) bp vs bp'" "sess_usable v \<Longrightarrow> sess_lcp v req eos \<le> snd bp"
  shows "best_ok req eos i bp (v # vs) bp'"
proof (cases "bp' = bp")
  case False
  then obtain j where j: "j < length vs" "fst bp' = Some (Suc i + j)" "sess_usable (vs ! j)"
      "sess_lcp (vs ! j) req eos = snd bp'" "snd bp < snd bp'"
      "\<forall>k<j. sess_usable (vs ! k) \<longrightarrow> sess_lcp (vs ! k) req eos < snd bp'"
    using assms(1) by (auto simp: best_ok_def)
  have "\<forall>k<Suc j. sess_usable ((v # vs) ! k) \<longrightarrow> sess_lcp ((v # vs) ! k) req eos < snd bp'"
    using j(5,6) assms(2) by (auto simp: less_Suc_eq_0_disj)
  then show ?thesis
    using j by (auto simp: best_ok_def intro!: exI[of _ "Suc j"])
qed (simp add: best_ok_def)

lemma best_scan_spec:
  "best_scan req eos i bp vs = bp' \<Longrightarrow>
   snd bp \<le> snd bp' \<and> (\<forall>v\<in>set vs. sess_usable v \<longrightarrow> sess_lcp v req eos \<le> snd bp')
   \<and> best_ok req eos i bp vs bp'"
proof (induction vs arbitrary: i bp)
  case Nil
  then show ?case by (cases bp) (simp add: best_ok_def)
next
  case (Cons v vs)
  let ?p = "sess_lcp v req eos"
  obtain b p where bp: "bp = (b, p)" by (cases bp)
  show ?case
  proof (cases "sess_usable v \<and> p < ?p")
    case True
    then have s: "best_scan req eos (Suc i) (Some i, ?p) vs = bp'"
      using Cons.prems by (simp add: bp Let_def)
    have "best_ok req eos i bp (v # vs) bp'"
      using Cons.IH[OF s] True by (auto simp: best_ok_def bp less_Suc_eq_0_disj)
    then show ?thesis using Cons.IH[OF s] True by (auto simp: bp)
  next
    case False
    then have s: "best_scan req eos (Suc i) bp vs = bp'"
      using Cons.prems by (auto simp: bp Let_def)
    have "best_ok req eos i bp (v # vs) bp'"
      using best_ok_Cons[of req eos i bp vs bp' v] Cons.IH[OF s] False by (auto simp: bp)
    then show ?thesis using Cons.IH[OF s] False by (auto simp: bp)
  qed
qed

lemma strip_eos_take: "\<exists>k\<le>length t. strip_eos eos t = take k t"
  by (auto simp: strip_eos_def butlast_conv_take intro: exI[of _ "length t"] exI[of _ "length t - 1"])

lemma sess_lcp_take: "take (sess_lcp v req eos) (sv_toks v) = take (sess_lcp v req eos) req"
proof -
  obtain k where k: "strip_eos eos (sv_toks v) = take k (sv_toks v)"
    using strip_eos_take by blast
  show ?thesis
    using common_take[of "take k (sv_toks v)" req] common_le(1)[of "take k (sv_toks v)" req]
    by (simp add: sess_lcp_def k min_def split: if_splits)
qed

text \<open>What it means that the stored tokens \<open>t\<close> serve the first \<open>k\<close> tokens of a request: they begin
  with the same \<open>k\<close> tokens, and the \<open>k\<close>-th is not an end-of-sequence token that closes \<open>t\<close>.\<close>

definition shared :: "int \<Rightarrow> u32 list \<Rightarrow> u32 list \<Rightarrow> nat \<Rightarrow> bool" where
  "shared eos t req k \<longleftrightarrow> k \<le> length t \<and> k \<le> length req \<and> take k t = take k req \<and>
     \<not> (0 < k \<and> k = length t \<and> 0 \<le> eos \<and> last t = word_of_int eos)"

lemma shared_lcp:
  assumes "sv_cap v \<noteq> 0"
  shows "shared eos (sv_toks v) req k \<longleftrightarrow> k \<le> sess_lcp v req eos"
proof
  assume sh: "shared eos (sv_toks v) req k"
  have "k \<le> length (strip_eos eos (sv_toks v)) \<and> take k (strip_eos eos (sv_toks v)) = take k (sv_toks v)"
    using sh by (auto simp: shared_def strip_eos_def take_butlast)
  then show "k \<le> sess_lcp v req eos"
    using sh assms by (auto simp: shared_def sess_lcp_def intro: common_greatest)
next
  assume k: "k \<le> sess_lcp v req eos"
  have "k \<le> length (strip_eos eos (sv_toks v))" "k \<le> length req"
    using k assms common_le[of "strip_eos eos (sv_toks v)" req] by (simp_all add: sess_lcp_def)
  moreover have "take k (sv_toks v) = take k req"
    using arg_cong[OF sess_lcp_take[of v req eos], of "take k"] k by (simp add: min_absorb1)
  ultimately show "shared eos (sv_toks v) req k"
    by (cases "sv_toks v") (auto simp: shared_def strip_eos_def split: if_splits)
qed

subsection \<open>What the table guarantees\<close>

text \<open>C10: \<open>sess_put\<close> implements a bounded map with LRU replacement. It returns an entry of the
  key that carries the current time; the tokens of a key already present are untouched; a
  new key starts empty, and only when the table is full does it take the place of another
  entry, one whose last use is minimal. The table's invariant (distinct keys, at most \<open>cap\<close>
  entries, buffers large enough) is kept.\<close>

theorem sess_put_bounded_lru:
  assumes "sc_inv c" "length key < 128" and r: "sess_put c key now = (c', i)"
  shows "sc_inv c' \<and> sc_cap c' = sc_cap c \<and> i < length (sc_v c') \<and> sv_key (sc_v c' ! i) = key
    \<and> sv_last (sc_v c' ! i) = now
    \<and> (case sc_tab c key of
         Some t \<Rightarrow> sc_tab c' = sc_tab c
       | None \<Rightarrow>
           if length (sc_v c) < sc_cap c then sc_tab c' = (sc_tab c)(key \<mapsto> [])
           else \<exists>v\<in>set (sc_v c). (\<forall>w\<in>set (sc_v c). sv_last v \<le> sv_last w)
                  \<and> sc_tab c' = (sc_tab c)(sv_key v := None, key \<mapsto> []))"
proof -
  have c': "c' = fst (sess_put c key now)" using r by simp
  have inv: "sc_inv c'" using sess_put_inv assms by (simp add: c')
  show ?thesis
  proof (cases "sc_tab c key")
    case None
    then have f: "find_index (\<lambda>v. sv_key v = key) (sc_v c) = None" by (simp add: find_key_None)
    have k: "sv_key (fresh_val key now) = key" "sv_last (fresh_val key now) = now"
      using assms(2) by (simp_all add: fresh_val_def)
    have *: "sc_cap c' = sc_cap c" "i < length (sc_v c')" "sc_v c' ! i = fresh_val key now"
      using r f lru_old_in[OF assms(1)]
      by (auto simp: sess_put_def sess_get_def sess_new_def Let_def split: if_splits)
    have "lru_old (sc_v c) < length (sc_v c)" if "\<not> length (sc_v c) < sc_cap c"
      using that lru_old_in[OF assms(1)] by simp
    then have "sc_v c ! lru_old (sc_v c) \<in> set (sc_v c)"
      "\<forall>w\<in>set (sc_v c). sv_last (sc_v c ! lru_old (sc_v c)) \<le> sv_last w"
      if "\<not> length (sc_v c) < sc_cap c"
      using that lru_old_least[OF assms(1)] by (auto intro: nth_mem)
    then show ?thesis
      using None inv * k sess_put_tab[OF assms(1,2) None, of now]
      by (auto simp: c' intro!: bexI[of _ "sc_v c ! lru_old (sc_v c)"])
  next
    case (Some t)
    then obtain j where f: "find_index (\<lambda>v. sv_key v = key) (sc_v c) = Some j"
      using find_key_None[of key c] by (cases "find_index (\<lambda>v. sv_key v = key) (sc_v c)") auto
    have "sc_tab c' = sc_tab c"
      using Some assms(1) by (simp add: c' sess_put_hit sess_get_spec)
    then show ?thesis
      using Some inv f r find_key_Some[OF f] by (auto simp: sess_put_def sess_get_def)
  qed
qed

definition two_sess :: sess_cache where
  "two_sess = \<lparr>sc_v = [\<lparr>sv_key = ''a'', sv_toks = [1, 2, 3], sv_cap = 256, sv_last = 7\<rparr>,
                    \<lparr>sv_key = ''b'', sv_toks = [1, 2, 9, 4], sv_cap = 256, sv_last = 5\<rparr>],
            sc_cap = 2\<rparr>"

lemma two_sess_inv: "sc_inv two_sess"
  by (auto simp: sc_inv_def sv_inv_def two_sess_def intro: exI[of _ 8])

theorem sess_put_bounded_lru_witness:
  "sc_tab (fst (sess_put two_sess ''c'' 9)) = (sc_tab two_sess)(''b'' := None, ''c'' \<mapsto> [])
   \<and> sc_tab two_sess ''b'' = Some [1, 2, 9, 4]"
proof -
  have p: "sess_put two_sess ''c'' 9 = (fst (sess_put two_sess ''c'' 9), 1)"
    by (simp add: sess_put_def sess_get_def two_sess_def sess_new_def lru_old_def Let_def)
  have n: "sc_tab two_sess ''c'' = None" by (simp add: sc_tab_def sc_pairs_def two_sess_def)
  show ?thesis
    using sess_put_bounded_lru[OF two_sess_inv _ p] n
    by (auto simp: two_sess_def sc_tab_def sc_pairs_def)
qed

text \<open>C24: \<open>sess_find_prefix\<close> returns the entry that serves the longest beginning of the request:
  no entry with a key and a buffer has a longer part of the request at its start (an
  end-of-sequence token that closes the stored tokens does not count), the reported length is
  the length of such a part for the returned entry, the first one of the table that reaches it,
  and only the time of use of that entry changes; nothing is returned only when no entry
  shares even the first token.\<close>

theorem sess_find_prefix_longest:
  assumes "sess_find_prefix c req eos now = (c', p, r)" "req \<noteq> []"
  shows "(\<forall>v\<in>set (sc_v c). \<forall>k. sv_key v \<noteq> [] \<and> sv_cap v \<noteq> 0 \<and> shared eos (sv_toks v) req k \<longrightarrow> k \<le> p) \<and>
    (case r of
           None \<Rightarrow> p = 0 \<and> c' = c
         | Some i \<Rightarrow> i < length (sc_v c) \<and> sv_key (sc_v c ! i) \<noteq> [] \<and> sv_cap (sc_v c ! i) \<noteq> 0 \<and> 0 < p
             \<and> shared eos (sv_toks (sc_v c ! i)) req p
             \<and> (\<forall>j<i. sv_key (sc_v c ! j) \<noteq> [] \<and> sv_cap (sc_v c ! j) \<noteq> 0 \<longrightarrow> \<not> shared eos (sv_toks (sc_v c ! j)) req p)
             \<and> c' = set_entry c i ((sc_v c ! i)\<lparr>sv_last := now\<rparr>))"
proof (intro conjI)
  obtain b q where bq: "best_scan req eos 0 (None, 0) (sc_v c) = (b, q)" by force
  note spec = best_scan_spec[OF bq]
  have q: "p = q"
    using assms bq by (auto simp: sess_find_prefix_def split: option.splits)
  have le: "sess_lcp v req eos \<le> p" if "v \<in> set (sc_v c)" "sv_key v \<noteq> []" "sv_cap v \<noteq> 0" for v
    using that spec q common_le(1)[of "strip_eos eos (sv_toks v)" req]
    by (cases "sv_toks v = []") (auto simp: sess_usable_def sess_lcp_def strip_eos_def)
  then show "\<forall>v\<in>set (sc_v c). \<forall>k. sv_key v \<noteq> [] \<and> sv_cap v \<noteq> 0 \<and> shared eos (sv_toks v) req k \<longrightarrow> k \<le> p"
    using shared_lcp le_trans by blast
  show "case r of
           None \<Rightarrow> p = 0 \<and> c' = c
         | Some i \<Rightarrow> i < length (sc_v c) \<and> sv_key (sc_v c ! i) \<noteq> [] \<and> sv_cap (sc_v c ! i) \<noteq> 0 \<and> 0 < p
             \<and> shared eos (sv_toks (sc_v c ! i)) req p
             \<and> (\<forall>j<i. sv_key (sc_v c ! j) \<noteq> [] \<and> sv_cap (sc_v c ! j) \<noteq> 0 \<longrightarrow> \<not> shared eos (sv_toks (sc_v c ! j)) req p)
             \<and> c' = set_entry c i ((sc_v c ! i)\<lparr>sv_last := now\<rparr>)"
  proof (cases b)
    case None
    then show ?thesis using assms bq spec by (auto simp: sess_find_prefix_def best_ok_def split: if_splits)
  next
    case (Some i)
    have i: "i < length (sc_v c)" "sess_usable (sc_v c ! i)" "sess_lcp (sc_v c ! i) req eos = p" "0 < p"
      "\<forall>k<i. sess_usable (sc_v c ! k) \<longrightarrow> sess_lcp (sc_v c ! k) req eos < p"
      using spec Some q by (auto simp: best_ok_def)
    have r: "r = Some i" "c' = set_entry c i ((sc_v c ! i)\<lparr>sv_last := now\<rparr>)"
      using assms bq Some i(4) q by (auto simp: sess_find_prefix_def)
    have "\<not> shared eos (sv_toks (sc_v c ! j)) req p" if j: "j < i" "sv_key (sc_v c ! j) \<noteq> []" "sv_cap (sc_v c ! j) \<noteq> 0" for j
    proof (cases "sess_usable (sc_v c ! j)")
      case True
      then show ?thesis using i(5) j shared_lcp[OF j(3), of eos req p] by (simp add: not_le)
    next
      case False
      then show ?thesis using j i(4) by (simp add: sess_usable_def shared_def)
    qed
    then show ?thesis
      using r i(1-4) shared_lcp[of "sc_v c ! i" eos req p] by (simp add: sess_usable_def)
  qed
qed

theorem sess_find_prefix_longest_witness:
  "sess_find_prefix two_sess [1, 2, 9, 8] 4 11 =
     (set_entry two_sess 1 ((sc_v two_sess ! 1)\<lparr>sv_last := 11\<rparr>), 3, Some 1)
   \<and> shared 4 (sv_toks (sc_v two_sess ! 1)) [1, 2, 9, 8] 3 \<and> \<not> shared 4 (sv_toks (sc_v two_sess ! 1)) [1, 2, 9, 4] 4"
proof -
  have r: "sess_find_prefix two_sess [1, 2, 9, 8] 4 11 =
     (set_entry two_sess 1 ((sc_v two_sess ! 1)\<lparr>sv_last := 11\<rparr>), 3, Some 1)"
    by (simp add: sess_find_prefix_def two_sess_def sess_usable_def sess_lcp_def strip_eos_def Let_def)
  have n: "\<not> shared 4 (sv_toks (sc_v two_sess ! 1)) [1, 2, 9, 4] 4"
    by (simp add: shared_def two_sess_def)
  show ?thesis
    using sess_find_prefix_longest[OF r] r n by simp
qed

text \<open>C38: On an entry whose buffer is at least as long as its tokens, \<open>sess_commit\<close> of tokens
  that keep the sequence within \<open>2^31\<close> returns: it either fails at \<open>realloc\<close> and leaves the
  entry as it was, or appends exactly the tokens; it never writes past the buffer, and the
  entry's invariant is kept.\<close>

theorem sess_commit_total:
  assumes "sv_inv v" "length (sv_toks v) + length tok \<le> 2 ^ 31"
  shows "\<exists>rc v'. sess_commit mem v tok now = Ret (rc, v') \<and> sv_inv v' \<and> sv_key v' = sv_key v
    \<and> (rc = 0 \<and> sv_toks v' = sv_toks v @ tok \<and> sv_last v' = now \<or> rc = -1 \<and> v' = v)"
  by (rule sess_commit_cases[OF assms, of mem now]) (use assms(1) in auto)

theorem sess_commit_total_witness:
  "\<exists>rc v'. sess_commit (\<lambda>_. True) (fresh_val ''k'' 1) [4, 5] 9 = Ret (rc, v') \<and> sv_inv v'
    \<and> sv_key v' = ''k''
    \<and> (rc = 0 \<and> sv_toks v' = [4, 5] \<and> sv_last v' = 9 \<or> rc = -1 \<and> v' = fresh_val ''k'' 1)"
  using sess_commit_total[of "fresh_val ''k'' 1" "[4, 5]" "\<lambda>_. True" 9] sv_inv_fresh[of "''k''" 1]
  by (simp add: fresh_val_def)

text \<open>When more than \<open>2^31\<close> tokens are needed, the doubling loop of \<open>sess_grow\<close> overflows
  to 0 in \<open>uint32_t\<close> and never ends: \<open>sess_commit\<close> of a token list that long does not
  return.\<close>

theorem sess_commit_diverges:
  assumes "sv_inv v" "2 ^ 31 < length (sv_toks v) + length tok"
    "length (sv_toks v) + length tok < 2 ^ 32"
  shows "sess_commit mem v tok now = Diverge"
proof -
  let ?need = "sv_n v + word_of_nat (length tok)"
  have "?need = word_of_nat (length (sv_toks v) + length tok)"
    by (simp add: sv_n_def)
  then have un: "unat ?need = length (sv_toks v) + length tok"
    using assms(3) by (simp only: unat_of_nat) simp
  then have "sess_grow mem v ?need = Diverge"
    using assms by (intro sess_grow_diverges) auto
  then show ?thesis by (simp add: sess_commit_def)
qed

theorem sess_commit_diverges_witness:
  "sess_commit (\<lambda>_. True) (fresh_val ''k'' 1) (replicate (2 ^ 31 + 1) 0) 9 = Diverge"
  by (rule sess_commit_diverges)
     (simp_all add: sv_inv_fresh, simp_all add: fresh_val_def)

text \<open>\<open>sess_evict\<close> on a non-empty table removes exactly one entry, one whose last use is
  minimal, and keeps all the others unchanged (the last one moves into the hole); on an
  empty table it does nothing.\<close>

theorem sess_evict_removes_lru:
  "if sc_v c = [] then sess_evict c = c
   else (\<exists>v. v \<in> set (sc_v c) \<and> \<not> (\<exists>w\<in>set (sc_v c). sv_last w < sv_last v)
     \<and> mset (sc_v c) = add_mset v (mset (sc_v (sess_evict c)))) \<and> sc_cap (sess_evict c) = sc_cap c"
proof (cases "sc_v c = []")
  case True
  then show ?thesis by (simp add: sess_evict_def)
next
  case False
  define o' where "o' = lru_old (sc_v c)"
  have o: "o' < length (sc_v c)" "\<And>w. w \<in> set (sc_v c) \<Longrightarrow> sv_last (sc_v c ! o') \<le> sv_last w"
    using lru_old_min[OF False] by (simp_all add: o'_def)
  obtain b z where bz: "sc_v c = b @ [z]" using False by (metis append_butlast_last_id)
  have m: "mset (sc_v c) = add_mset (sc_v c ! o') (mset (sc_v (sess_evict c)))"
  proof (cases "o' = length b")
    case True
    then show ?thesis using o'_def by (simp add: sess_evict_def Let_def bz)
  next
    case oth: False
    then have ol: "o' < length b" using o bz by simp
    then have "sc_v (sess_evict c) = b[o' := z]"
      using o'_def by (simp add: sess_evict_def Let_def bz list_update_append)
    moreover have "mset b = add_mset (b ! o') (mset b - {#b ! o'#})"
      using ol by simp
    ultimately show ?thesis
      using ol by (simp add: bz nth_append mset_update)
  qed
  show ?thesis
    using False o m nth_mem[OF o(1)]
    by (auto simp: sess_evict_def Let_def not_less intro!: exI[of _ "sc_v c ! o'"])
qed

end
