(* ===== verification/CSort.thy ===== *)
theory CSort
  imports YPrelude "HOL-Library.Multiset"
begin

text \<open>
  The two library routines on ordered data the code calls: \<open>strcmp\<close>/\<open>strncmp\<close> on C strings
  (the C locale compares bytes as \<open>unsigned char\<close>) and \<open>qsort\<close>. The sorting routine itself is a
  parameter of the definitions that use it; \<open>qsort_sound\<close> is its documented behaviour for a
  comparison that is a total preorder, and insertion sort shows that it can be met.
\<close>

subsection \<open>String comparison\<close>

fun strcmp :: "string \<Rightarrow> string \<Rightarrow> int" where
  "strcmp [] [] = 0"
| "strcmp [] (d # t) = -1"
| "strcmp (c # s) [] = 1"
| "strcmp (c # s) (d # t) = (if c = d then strcmp s t else if code c < code d then -1 else 1)"

text \<open>\<open>strncmp(p, s, len)\<close> where \<open>s\<close> has \<open>len\<close> characters, none of them NUL.\<close>

fun strncmp :: "string \<Rightarrow> string \<Rightarrow> int" where
  "strncmp p [] = 0"
| "strncmp [] (d # t) = -1"
| "strncmp (c # p) (d # t) = (if c = d then strncmp p t else if code c < code d then -1 else 1)"

lemma strcmp_0 [simp]: "strcmp a b = 0 \<longleftrightarrow> a = b"
  by (induction a b rule: strcmp.induct) auto

lemma strcmp_refl [simp]: "strcmp a a = 0"
  by simp

lemma strcmp_swap: "strcmp b a = - strcmp a b"
  by (induction a b rule: strcmp.induct) (auto dest: code_inject[THEN iffD1] simp: not_less le_less)

lemma strcmp_trans: "strcmp a b \<le> 0 \<Longrightarrow> strcmp b c \<le> 0 \<Longrightarrow> strcmp a c \<le> 0"
proof (induction a b arbitrary: c rule: strcmp.induct)
  case (4 x s y t)
  then show ?case by (cases c) (auto split: if_splits)
next
  case (2 d t)
  then show ?case by (cases c) auto
qed auto

lemma strcmp_Nil: "p \<noteq> [] \<Longrightarrow> strcmp p [] = 1"
  by (cases p) auto

lemma strcmp_strncmp:
  "strcmp p s = (if strncmp p s = 0 then if length p = length s then 0 else 1 else strncmp p s)"
  by (induction p s rule: strncmp.induct) (auto simp: strcmp_Nil)

lemma strncmp_0: "strncmp p s = 0 \<longleftrightarrow> starts s p"
  by (induction p s rule: strncmp.induct) auto

subsection \<open>\<open>qsort\<close>\<close>

definition qsort_ok :: "('a \<Rightarrow> 'a \<Rightarrow> int) \<Rightarrow> ('a list \<Rightarrow> 'a list) \<Rightarrow> bool" where
  "qsort_ok cmp qs \<longleftrightarrow> (\<forall>xs. mset (qs xs) = mset xs \<and> sorted_wrt (\<lambda>x y. cmp x y \<le> 0) (qs xs))"

definition total_preorder :: "('a \<Rightarrow> 'a \<Rightarrow> int) \<Rightarrow> bool" where
  "total_preorder cmp \<longleftrightarrow>
     (\<forall>x y. cmp x y \<le> 0 \<or> cmp y x \<le> 0) \<and> (\<forall>x y z. cmp x y \<le> 0 \<longrightarrow> cmp y z \<le> 0 \<longrightarrow> cmp x z \<le> 0)"

definition qsort_sound :: "(('a \<Rightarrow> 'a \<Rightarrow> int) \<Rightarrow> 'a list \<Rightarrow> 'a list) \<Rightarrow> bool" where
  "qsort_sound qs \<longleftrightarrow> (\<forall>cmp. total_preorder cmp \<longrightarrow> qsort_ok cmp (qs cmp))"

lemma qsort_soundD:
  assumes "qsort_sound qs" "total_preorder cmp"
  shows "mset (qs cmp xs) = mset xs" "sorted_wrt (\<lambda>x y. cmp x y \<le> 0) (qs cmp xs)"
  using assms by (auto simp: qsort_sound_def qsort_ok_def)

fun insort_by :: "('a \<Rightarrow> 'a \<Rightarrow> int) \<Rightarrow> 'a \<Rightarrow> 'a list \<Rightarrow> 'a list" where
  "insort_by cmp x [] = [x]"
| "insort_by cmp x (y # ys) = (if cmp x y \<le> 0 then x # y # ys else y # insort_by cmp x ys)"

definition isort_by :: "('a \<Rightarrow> 'a \<Rightarrow> int) \<Rightarrow> 'a list \<Rightarrow> 'a list" where
  "isort_by cmp xs = foldr (insort_by cmp) xs []"

lemma mset_insort_by [simp]: "mset (insort_by cmp x ys) = {#x#} + mset ys"
  by (induction ys) auto

lemma set_insort_by [simp]: "set (insort_by cmp x ys) = insert x (set ys)"
  by (induction ys) auto

lemma sorted_insort_by:
  assumes "total_preorder cmp" "sorted_wrt (\<lambda>x y. cmp x y \<le> 0) ys"
  shows "sorted_wrt (\<lambda>x y. cmp x y \<le> 0) (insort_by cmp x ys)"
  using assms(2)
proof (induction ys)
  case (Cons y ys)
  have t: "\<And>x y z. cmp x y \<le> 0 \<Longrightarrow> cmp y z \<le> 0 \<Longrightarrow> cmp x z \<le> 0" and tot: "\<And>x y. cmp x y \<le> 0 \<or> cmp y x \<le> 0"
    using assms(1) unfolding total_preorder_def by blast+
  show ?case using Cons tot[of x y] by (auto intro: t)
qed simp

lemma isort_by_sound: "qsort_sound isort_by"
proof -
  have "mset (isort_by cmp xs) = mset xs" for cmp :: "'a \<Rightarrow> 'a \<Rightarrow> int" and xs
    by (induction xs) (auto simp: isort_by_def)
  moreover have "total_preorder cmp \<Longrightarrow> sorted_wrt (\<lambda>x y. cmp x y \<le> 0) (isort_by cmp xs)"
    for cmp :: "'a \<Rightarrow> 'a \<Rightarrow> int" and xs
    by (induction xs) (auto simp: isort_by_def intro: sorted_insort_by)
  ultimately show ?thesis by (simp add: qsort_sound_def qsort_ok_def)
qed

lemma strcmp_preorder: "total_preorder (\<lambda>i j. strcmp (f i) (f j))"
  unfolding total_preorder_def using strcmp_swap strcmp_trans by (smt (verit) )

end
