(* ===== verification/SessFiles.thy ===== *)
theory SessFiles
  imports SessTable CSort
begin

text \<open>
  The disk side of \<^verbatim>\<open>inference/core/cache.c\<close>: session token files, KV cache files, the path
  of a cache file and the start-up scan of a cache directory. A file is the list of its
  bytes. A file being written accepts only as many bytes as its device has room for; a file
  being read may end early. The KV buffer of an engine is a map from byte offsets to bytes.
\<close>

subsection \<open>Reading and writing a stream\<close>

definition SESS_FILE_MAGIC :: bytes where "SESS_FILE_MAGIC = ''YLLMSESS1''"
definition SESS_KV_MAGIC :: bytes where "SESS_KV_MAGIC = ''YLLMSKV01''"

text \<open>\<open>room\<close> is the number of bytes the device accepts in all; a short \<open>fwrite\<close> keeps what
  fitted.\<close>

definition write_all :: "nat \<Rightarrow> bytes \<Rightarrow> bytes \<Rightarrow> int \<times> bytes" where
  "write_all room out p =
     (if length out + length p \<le> room then (0, out @ p) else (-1, take room (out @ p)))"

fun write_seq :: "nat \<Rightarrow> bytes \<Rightarrow> bytes list \<Rightarrow> int \<times> bytes" where
  "write_seq room out [] = (0, out)"
| "write_seq room out (p # ps) =
     (case write_all room out p of (rc, o') \<Rightarrow> if rc \<noteq> 0 then (-1, o') else write_seq room o' ps)"

text \<open>Result of \<open>read_all\<close>: the return code, the bytes stored and the rest of the stream.\<close>

definition read_all :: "bytes \<Rightarrow> nat \<Rightarrow> int \<times> bytes \<times> bytes" where
  "read_all s n = (if n \<le> length s then 0 else -1, take n s, drop n s)"

lemma read_all_append [simp]: "length a = n \<Longrightarrow> read_all (a @ s) n = (0, a, s)"
  by (simp add: read_all_def)

lemma write_seq_all:
  "length out + sum_list (map length ps) \<le> room \<Longrightarrow> write_seq room out ps = (0, out @ concat ps)"
  by (induction ps arbitrary: out) (auto simp: write_all_def)

lemma write_seq_ok: "write_seq room out ps = (0, f) \<Longrightarrow> f = out @ concat ps"
  by (induction ps arbitrary: out) (fastforce simp: write_all_def split: if_splits)+

lemma write_all_take: "length out \<le> room \<Longrightarrow> snd (write_all room out p) = take room (out @ p)"
  by (auto simp: write_all_def)

lemma write_seq_rc:
  "length out \<le> room \<Longrightarrow> fst (write_seq room out ps) = 0 \<longleftrightarrow> length out + sum_list (map length ps) \<le> room"
  by (induction ps arbitrary: out) (auto simp: write_all_def)

subsection \<open>Session token files\<close>

definition sess_save :: "nat \<Rightarrow> sess_val \<Rightarrow> int \<times> bytes" where
  "sess_save room v =
     write_seq room []
       ([take 8 SESS_FILE_MAGIC, put32 (sv_n v)]
        @ (if sv_n v > 0 then [words_bytes (sv_toks v)] else []))"

text \<open>The first bytes of a token buffer overwritten by a read that stopped early.\<close>

definition clobber :: "u32 list \<Rightarrow> bytes \<Rightarrow> u32 list" where
  "clobber ts b = take (length ts) (bytes_words (b @ drop (length b) (words_bytes ts)))"

definition sess_load :: "(nat \<Rightarrow> bool) \<Rightarrow> sess_val \<Rightarrow> bytes option \<Rightarrow> nat \<Rightarrow> (int \<times> sess_val) run" where
  "sess_load mem v file now =
     (case file of
        None \<Rightarrow> Ret (-1, v)
      | Some s \<Rightarrow>
        (case read_all s 8 of (rc, magic, s) \<Rightarrow>
          if rc \<noteq> 0 \<or> magic \<noteq> take 8 SESS_FILE_MAGIC then Ret (-1, v)
          else case read_all s 4 of (rc, nb, s) \<Rightarrow>
            if rc \<noteq> 0 then Ret (-1, v)
            else let n = get32 nb in
              run_bind (sess_grow mem v n) (\<lambda>(rc, v').
                if rc \<noteq> 0 then Ret (-1, v')
                else case read_all s (4 * unat n) of (rc, b, _) \<Rightarrow>
                  if n > 0 \<and> rc \<noteq> 0 then Ret (-1, v'\<lparr>sv_toks := clobber (sv_toks v') b\<rparr>)
                  else Ret (0, v'\<lparr>sv_toks := bytes_words b, sv_last := now\<rparr>))))"

definition sess_file :: "u32 list \<Rightarrow> bytes" where
  "sess_file ts = take 8 SESS_FILE_MAGIC @ put32 (word_of_nat (length ts)) @ words_bytes ts"

lemma length_magics [simp]:
  "length (take 8 SESS_FILE_MAGIC) = 8" "length (take 8 SESS_KV_MAGIC) = 8"
  "min (length SESS_FILE_MAGIC) 8 = 8" "min (length SESS_KV_MAGIC) 8 = 8"
  by (simp_all add: SESS_FILE_MAGIC_def SESS_KV_MAGIC_def)

lemma length_sess_file: "length (sess_file ts) = 12 + 4 * length ts"
  by (simp add: sess_file_def)

lemma take_sess_file:
  "12 \<le> n \<Longrightarrow> take n (sess_file ts) =
     take 8 SESS_FILE_MAGIC @ put32 (word_of_nat (length ts)) @ take (n - 12) (words_bytes ts)"
  by (simp add: sess_file_def min_absorb2)

lemma sess_save_file:
  assumes "sv_inv v"
  shows "sess_save room v =
    (if length (sess_file (sv_toks v)) \<le> room then (0, sess_file (sv_toks v)) else (fst (sess_save room v), snd (sess_save room v)))"
proof (cases "length (sess_file (sv_toks v)) \<le> room")
  case True
  have z: "sv_n v = 0 \<Longrightarrow> sv_toks v = []"
    using unat_sv_n[OF assms] by simp
  have "sess_save room v = (0, concat ([take 8 SESS_FILE_MAGIC, put32 (sv_n v)]
        @ (if sv_n v > 0 then [words_bytes (sv_toks v)] else [])))"
    unfolding sess_save_def
    by (subst write_seq_all) (use True z in \<open>auto simp: length_sess_file\<close>)
  then show ?thesis
    using True z by (auto simp: sess_file_def sv_n_def[symmetric] words_bytes_def word_gt_0)
qed simp

lemma sess_load_file:
  assumes "sv_inv v" "length ts \<le> 2 ^ 31"
  obtains (fail) "sess_load mem v (Some (sess_file ts @ r)) now = Ret (-1, v)"
  | (ok) nc where
      "sess_load mem v (Some (sess_file ts @ r)) now = Ret (0, v\<lparr>sv_cap := nc, sv_toks := ts, sv_last := now\<rparr>)"
      "sv_inv (v\<lparr>sv_cap := nc, sv_toks := ts, sv_last := now\<rparr>)"
proof -
  let ?n = "word_of_nat (length ts) :: u32"
  have n: "unat ?n = length ts"
    using assms(2) by (simp add: unat_of_nat)
  have l: "sess_load mem v (Some (sess_file ts @ r)) now =
     run_bind (sess_grow mem v ?n) (\<lambda>(rc, v').
       if rc \<noteq> 0 then Ret (-1, v') else Ret (0, v'\<lparr>sv_toks := ts, sv_last := now\<rparr>))"
    by (simp add: sess_load_def sess_file_def n Let_def split_def cong: if_cong)
  have b: "unat ?n \<le> 2 ^ 31" using n assms(2) by simp
  show ?thesis
  proof (rule sess_grow_cases[OF assms(1) b, of mem])
    assume "sess_grow mem v ?n = Ret (-1, v)"
    then show ?thesis using fail l by simp
  next
    fix nc
    assume g: "sess_grow mem v ?n = Ret (0, v\<lparr>sv_cap := nc\<rparr>)" "?n \<le> nc" "sv_inv (v\<lparr>sv_cap := nc\<rparr>)"
    have "length ts \<le> unat nc" using g(2) n by (simp add: word_le_nat_alt)
    then have "sv_inv (v\<lparr>sv_cap := nc, sv_toks := ts, sv_last := now\<rparr>)"
      using g(3) by (simp add: sv_inv_def)
    then show ?thesis using ok g(1) l by simp
  qed
qed

interpretation sess_file_codec: byte_codec sess_file
  "\<lambda>s. case sess_load (\<lambda>_. True) zero_val (Some s) 0 of
         Ret (rc, v) \<Rightarrow> if rc = 0 then Some (sv_toks v, drop (12 + 4 * length (sv_toks v)) s) else None
       | _ \<Rightarrow> None"
  "\<lambda>ts. length ts \<le> 2 ^ 31"
proof
  fix ts :: "u32 list" and r
  assume l: "length ts \<le> 2 ^ 31"
  have i: "sv_inv zero_val" by (simp add: sv_inv_def zero_val_def)
  have g: "sess_grow (\<lambda>_. True) zero_val n = Ret (a, w) \<Longrightarrow> a = 0" for n a w
    by (auto simp: sess_grow_def split: option.splits if_splits)
  have nf: "sess_load (\<lambda>_. True) zero_val (Some (sess_file ts @ r)) 0 \<noteq> Ret (-1, zero_val)"
  proof
    assume "sess_load (\<lambda>_. True) zero_val (Some (sess_file ts @ r)) 0 = Ret (-1, zero_val)"
    moreover have "unat (word_of_nat (length ts) :: u32) = length ts"
      using l by (simp add: unat_of_nat)
    ultimately show False
      using g l
      by (auto simp: sess_load_def sess_file_def Let_def run_bind_Ret split: if_splits)
  qed
  show "(case sess_load (\<lambda>_. True) zero_val (Some (sess_file ts @ r)) 0 of
          Ret (rc, v) \<Rightarrow> if rc = 0 then Some (sv_toks v, drop (12 + 4 * length (sv_toks v)) (sess_file ts @ r)) else None
        | _ \<Rightarrow> None) = Some (ts, r)"
    by (rule sess_load_file[OF i l, of "\<lambda>_. True" r 0])
       (use nf in \<open>auto simp: length_sess_file\<close>)
qed

subsection \<open>KV cache files\<close>

text \<open>The fields of \<open>Engine\<close> that the KV file code reads: the block count of the model header,
  \<open>kv_dim\<close>, \<open>max_seq\<close>, the bytes of one KV row, the quantisation flag and the KV buffer.\<close>

record kv_engine =
  ke_nb :: u32
  ke_kv_dim :: u32
  ke_max_seq :: u32
  ke_row_sz :: u32
  ke_q8 :: bool
  ke_kv :: "nat \<Rightarrow> char"

definition kv_flags :: "kv_engine \<Rightarrow> u32" where
  "kv_flags e = (if ke_q8 e then 1 else 0)"

text \<open>Byte offset of region \<open>l\<close> (K of block \<open>l\<close> is region \<open>l\<close>, V is region \<open>nb + l\<close>).\<close>

definition kv_off :: "kv_engine \<Rightarrow> u32 \<Rightarrow> nat" where
  "kv_off e l = unat l * unat (ke_max_seq e) * unat (ke_row_sz e)"

definition kv_read :: "(nat \<Rightarrow> char) \<Rightarrow> nat \<Rightarrow> nat \<Rightarrow> bytes" where
  "kv_read kv off n = map kv [off..<off + n]"

definition kv_write :: "(nat \<Rightarrow> char) \<Rightarrow> nat \<Rightarrow> bytes \<Rightarrow> nat \<Rightarrow> char" where
  "kv_write kv off b = (\<lambda>a. if off \<le> a \<and> a < off + length b then b ! (a - off) else kv a)"

definition kv_header :: "kv_engine \<Rightarrow> u32 \<Rightarrow> bytes list" where
  "kv_header e pos =
     [take 8 SESS_KV_MAGIC, put32 (ke_nb e), put32 (ke_kv_dim e), put32 (ke_max_seq e), put32 pos,
      put32 (kv_flags e)]"

text \<open>The loop \<open>for (l = 1; l <= nb; l++)\<close> runs over \<open>l = 1, \<dots>, nb\<close>.\<close>

definition kv_layers :: "u32 \<Rightarrow> u32 list" where
  "kv_layers nb = map word_of_nat [1..<Suc (unat nb)]"

definition sess_kv_save :: "nat \<Rightarrow> kv_engine \<Rightarrow> u32 \<Rightarrow> int \<times> bytes" where
  "sess_kv_save room e pos =
     (let rowb = unat pos * unat (ke_row_sz e) in
      write_seq room []
        (kv_header e pos
         @ concat (map (\<lambda>l. [kv_read (ke_kv e) (kv_off e l) rowb,
                             kv_read (ke_kv e) (kv_off e (ke_nb e + l)) rowb]) (kv_layers (ke_nb e)))))"

text \<open>The reading loop stops at the first short read, whose bytes have reached the buffer.\<close>

fun kv_load_loop :: "kv_engine \<Rightarrow> nat \<Rightarrow> u32 list \<Rightarrow> bytes \<Rightarrow> int \<times> (nat \<Rightarrow> char)" where
  "kv_load_loop e rowb [] s = (0, ke_kv e)"
| "kv_load_loop e rowb (l # ls) s =
     (case read_all s rowb of (rc, b, s) \<Rightarrow>
        let e = e\<lparr>ke_kv := kv_write (ke_kv e) (kv_off e l) b\<rparr> in
        if rc \<noteq> 0 then (-1, ke_kv e)
        else case read_all s rowb of (rc, b, s) \<Rightarrow>
          let e = e\<lparr>ke_kv := kv_write (ke_kv e) (kv_off e (ke_nb e + l)) b\<rparr> in
          if rc \<noteq> 0 then (-1, ke_kv e) else kv_load_loop e rowb ls s)"

text \<open>Result: the return code, the engine and \<open>*pos\<close> when it was written.\<close>

definition sess_kv_load :: "kv_engine \<Rightarrow> bytes option \<Rightarrow> int \<times> kv_engine \<times> u32 option" where
  "sess_kv_load e file =
     (case file of
        None \<Rightarrow> (-1, e, None)
      | Some s \<Rightarrow>
        (case read_all s 8 of (rc, magic, s) \<Rightarrow>
          if rc \<noteq> 0 \<or> magic \<noteq> take 8 SESS_KV_MAGIC then (-1, e, None)
          else case read_all s 4 of (r1, nb, s) \<Rightarrow> case read_all s 4 of (r2, kv_dim, s) \<Rightarrow>
            case read_all s 4 of (r3, max_seq, s) \<Rightarrow> case read_all s 4 of (r4, pos0, s) \<Rightarrow>
            case read_all s 4 of (r5, flags, s) \<Rightarrow>
              if r1 \<noteq> 0 \<or> r2 \<noteq> 0 \<or> r3 \<noteq> 0 \<or> r4 \<noteq> 0 \<or> r5 \<noteq> 0 then (-1, e, None)
              else if get32 nb \<noteq> ke_nb e \<or> get32 kv_dim \<noteq> ke_kv_dim e \<or> get32 max_seq \<noteq> ke_max_seq e
                \<or> get32 pos0 > get32 max_seq \<or> get32 flags \<noteq> kv_flags e then (-1, e, None)
              else case kv_load_loop e (unat (get32 pos0) * unat (ke_row_sz e)) (kv_layers (get32 nb)) s of
                (rc, kv) \<Rightarrow> (rc, e\<lparr>ke_kv := kv\<rparr>, if rc = 0 then Some (get32 pos0) else None)))"

subsection \<open>Paths and names\<close>

definition bad_path_char :: "char \<Rightarrow> bool" where
  "bad_path_char c \<longleftrightarrow> c \<in> set '':/?*<>|'' \<or> c = BSL \<or> c = DQ"

definition safe_char :: "char \<Rightarrow> char" where
  "safe_char c = (if bad_path_char c then CHR ''_'' else c)"

text \<open>\<open>cache_path\<close>: \<open>None\<close> when the buffer is left without a terminator. The loop over the key
  runs while \<open>o + 16 < outsz\<close>.\<close>

definition cache_path :: "nat \<Rightarrow> string \<Rightarrow> string \<Rightarrow> string \<Rightarrow> string option" where
  "cache_path outsz dir key ext =
     (let d = (if dir \<noteq> [] \<and> length dir + 1 < outsz then dir @ ''/'' else []);
          k = map safe_char (take (outsz - 16 - length d) key) in
      if length d + length k + length ext + 1 < outsz then Some (d @ k @ ext) else None)"

definition sess_key_from_name :: "string \<Rightarrow> nat \<Rightarrow> string option" where
  "sess_key_from_name name keysz =
     (let n = length name in
      if n < 6 \<or> drop (n - 5) name \<noteq> ''.sess'' then None
      else if n - 5 = 0 \<or> keysz \<le> n - 5 then None
      else Some (take (n - 5) name))"

subsection \<open>The start-up scan\<close>

record sess_file_ent =
  sf_path :: string
  sf_key :: string
  sf_mtime :: u64

text \<open>A directory entry: its name and, when it is a regular file, its modification time in
  seconds.\<close>

type_synonym dirent = "string \<times> u64 option"

definition SESS_SCAN_MAX :: nat where "SESS_SCAN_MAX = 1024"

fun scan_dir :: "string \<Rightarrow> nat \<Rightarrow> dirent list \<Rightarrow> sess_file_ent list" where
  "scan_dir dir nf [] = []"
| "scan_dir dir nf ((name, st) # es) =
     (if SESS_SCAN_MAX \<le> nf then []
      else case (sess_key_from_name name 128, st) of
        (Some key, Some mtime) \<Rightarrow>
          \<lparr>sf_path = snprintf_s 512 (dir @ ''/'' @ name), sf_key = key, sf_mtime = mtime * 1000\<rparr>
            # scan_dir dir (Suc nf) es
      | _ \<Rightarrow> scan_dir dir nf es)"

definition sess_file_newer_first :: "sess_file_ent \<Rightarrow> sess_file_ent \<Rightarrow> int" where
  "sess_file_newer_first x y =
     (if sf_mtime x < sf_mtime y then 1 else if sf_mtime x > sf_mtime y then -1 else 0)"

text \<open>One file: \<open>Inl\<close> when the loop breaks.\<close>

definition load_one ::
  "(string \<Rightarrow> bytes option) \<Rightarrow> nat \<Rightarrow> sess_file_ent \<Rightarrow> sess_cache \<times> nat \<Rightarrow> (bool \<times> sess_cache \<times> nat) run"
where
  "load_one disk now f cn =
     (case cn of (c, nloaded) \<Rightarrow>
      case sess_get c (sf_key f) now of
        (c, Some _) \<Rightarrow> Ret (True, c, nloaded)
      | (c, None) \<Rightarrow>
          if sc_cap c \<le> length (sc_v c) \<and> sc_cap c > 0 then Ret (False, c, nloaded)
          else run_bind (sess_load (\<lambda>_. True) zero_val (disk (sf_path f)) now) (\<lambda>(rc, tmp).
            if rc \<noteq> 0 \<or> sv_toks tmp = [] then Ret (True, c, nloaded)
            else case sess_put c (sf_key f) now of (c, i) \<Rightarrow>
              Ret (True, set_entry c i ((sc_v c ! i)\<lparr>sv_toks := sv_toks tmp, sv_cap := sv_cap tmp,
                sv_last := (if sf_mtime f \<noteq> 0 then unat (sf_mtime f) else now)\<rparr>), Suc nloaded)))"

fun load_files ::
  "(string \<Rightarrow> bytes option) \<Rightarrow> nat \<Rightarrow> sess_file_ent list \<Rightarrow> sess_cache \<times> nat \<Rightarrow> (sess_cache \<times> nat) run"
where
  "load_files disk now [] cn = Ret cn"
| "load_files disk now (f # fs) cn =
     run_bind (load_one disk now f cn)
       (\<lambda>(go, cn'). if go then load_files disk now fs cn' else Ret cn')"

text \<open>\<open>qs\<close> is \<open>qsort\<close> with \<open>sess_file_newer_first\<close>; the directory stream is \<open>None\<close> when
  \<open>opendir\<close> fails.\<close>

definition sess_load_dir ::
  "(sess_file_ent list \<Rightarrow> sess_file_ent list) \<Rightarrow> sess_cache \<Rightarrow> string \<Rightarrow> dirent list option
   \<Rightarrow> (string \<Rightarrow> bytes option) \<Rightarrow> nat \<Rightarrow> (sess_cache \<times> nat) run" where
  "sess_load_dir qs c dir ents disk now =
     (if dir = [] then Ret (c, 0)
      else let files = (case ents of None \<Rightarrow> [] | Some es \<Rightarrow> scan_dir dir 0 es) in
        load_files disk now (if length files > 1 then qs files else files) (c, 0))"

subsection \<open>Session files: what loading returns\<close>

lemma sess_load_step:
  assumes "12 \<le> length s" "take 8 s = take 8 SESS_FILE_MAGIC"
  shows "sess_load mem v (Some s) now =
    run_bind (sess_grow mem v (get32 (drop 8 s))) (\<lambda>(rc, v').
      if rc \<noteq> 0 then Ret (-1, v')
      else let n = get32 (drop 8 s); b = take (4 * unat n) (drop 12 s) in
        if n > 0 \<and> length s < 12 + 4 * unat n then Ret (-1, v'\<lparr>sv_toks := clobber (sv_toks v') b\<rparr>)
        else Ret (0, v'\<lparr>sv_toks := bytes_words b, sv_last := now\<rparr>))"
proof -
  have g: "get32 (take 4 (drop 8 s)) = get32 (drop 8 s)" by (simp add: get32_def)
  have "4 * unat n \<le> length s - 12 \<longleftrightarrow> \<not> length s < 12 + 4 * unat n" for n :: u32
    using assms(1) by auto
  moreover have "4 \<le> length s - 8" using assms(1) by simp
  ultimately show ?thesis
    using assms by (simp add: sess_load_def read_all_def Let_def g cong: if_cong)
qed

lemma sess_load_reject:
  "length s < 12 \<or> take 8 s \<noteq> take 8 SESS_FILE_MAGIC \<Longrightarrow> sess_load mem v (Some s) now = Ret (-1, v)"
  by (auto simp: sess_load_def read_all_def)

lemma sess_load_cases:
  assumes "sv_inv v"
  shows "if length s < 12 \<or> take 8 s \<noteq> take 8 SESS_FILE_MAGIC \<or> unat (get32 (drop 8 s)) \<le> 2 ^ 31
      then \<exists>rc v'. sess_load mem v (Some s) now = Ret (rc, v')
      else sess_load mem v (Some s) now = Diverge"
proof (cases "length s < 12 \<or> take 8 s \<noteq> take 8 SESS_FILE_MAGIC")
    case True
    then show ?thesis using sess_load_reject[OF True] by auto
  next
    case False
    then have st: "12 \<le> length s" "take 8 s = take 8 SESS_FILE_MAGIC" by auto
    show ?thesis
    proof (cases "unat (get32 (drop 8 s)) \<le> 2 ^ 31")
      case True
      have "\<exists>rc v'. sess_load mem v (Some s) now = Ret (rc, v')"
        by (rule sess_grow_cases[OF assms True, of mem])
           (auto simp: sess_load_step[OF st] Let_def)
      then show ?thesis using True by simp
    next
      case False
      then have "sess_grow mem v (get32 (drop 8 s)) = Diverge"
        using assms by (intro sess_grow_diverges) auto
      then show ?thesis using False st by (simp add: sess_load_step[OF st])
    qed
  qed

text \<open>Loading a session file returns, with success or failure, unless the file has the
  magic and a token count above \<open>2^31\<close>; on such a file, of 12 bytes at least, \<open>sess_load\<close>
  never returns.\<close>

theorem sess_load_returns_iff:
  assumes "sv_inv v"
  shows "((\<exists>rc v'. sess_load mem v (Some s) now = Ret (rc, v')) \<longleftrightarrow>
    length s < 12 \<or> take 8 s \<noteq> take 8 SESS_FILE_MAGIC \<or> unat (get32 (drop 8 s)) \<le> 2 ^ 31) \<and>
    (\<not> (\<exists>rc v'. sess_load mem v (Some s) now = Ret (rc, v')) \<longrightarrow> sess_load mem v (Some s) now = Diverge)"
  using sess_load_cases[OF assms, of s mem now] by (auto split: if_splits)

theorem sess_load_returns_iff_witness:
  "\<not> (\<exists>rc v'. sess_load (\<lambda>_. True) zero_val (Some (''YLLMSESS'' @ put32 0x80000001)) 0 = Ret (rc, v'))"
  using sess_load_returns_iff[of zero_val "\<lambda>_. True" "''YLLMSESS'' @ put32 0x80000001" 0]
  by (simp add: SESS_FILE_MAGIC_def, simp add: sv_inv_def zero_val_def)

lemma sess_save_take:
  assumes "sv_inv v"
  shows "snd (sess_save room v) = take room (sess_file (sv_toks v))"
    "fst (sess_save room v) = 0 \<longleftrightarrow> length (sess_file (sv_toks v)) \<le> room"
proof -
  have z: "sv_n v = 0 \<Longrightarrow> sv_toks v = []" using unat_sv_n[OF assms] by simp
  have f: "sess_file (sv_toks v) = concat ([take 8 SESS_FILE_MAGIC, put32 (sv_n v)]
        @ (if sv_n v > 0 then [words_bytes (sv_toks v)] else []))"
    using z by (auto simp: sess_file_def sv_n_def[symmetric] words_bytes_def word_gt_0)
  have "snd (write_seq room out ps) = take room (out @ concat ps)" if "length out \<le> room" for out ps
    using that
  proof (induction ps arbitrary: out)
    case (Cons p ps)
    then show ?case by (auto simp: write_all_def)
  qed simp
  then show "snd (sess_save room v) = take room (sess_file (sv_toks v))"
    by (simp only: sess_save_def f append_Nil list.size zero_order)
  show "fst (sess_save room v) = 0 \<longleftrightarrow> length (sess_file (sv_toks v)) \<le> room"
    unfolding sess_save_def f by (subst write_seq_rc) (auto simp: length_concat comp_def)
qed

text \<open>A session file written completely is loaded back into any entry exactly (unless
  \<open>realloc\<close> fails, and then the entry keeps its tokens), whatever follows it; a file cut
  short because the device was full is never loaded: \<open>sess_load\<close> returns with an error and
  leaves the key and the time of last use.\<close>

theorem sess_save_load:
  assumes v: "sv_inv v" and w: "sv_inv w" and s: "sess_save room v = (rc, f)"
  shows "if rc = 0
    then sess_load mem w (Some (f @ r)) now = Ret (-1, w) \<or>
      (\<exists>w'. sess_load mem w (Some (f @ r)) now = Ret (0, w') \<and> sv_inv w' \<and> sv_toks w' = sv_toks v
        \<and> sv_key w' = sv_key w \<and> sv_last w' = now)
    else \<exists>w'. sess_load mem w (Some f) now = Ret (-1, w') \<and> sv_key w' = sv_key w
        \<and> sv_last w' = sv_last w"
proof (cases "rc = 0")
  case True
  then have "f = sess_file (sv_toks v)"
    using sess_save_take[OF v, of room] s by simp
  then have f: "f @ r = sess_file (sv_toks v) @ r" by simp
  show ?thesis
  proof (rule sess_load_file[OF w sv_inv_length[OF v], of mem r now])
    assume "sess_load mem w (Some (sess_file (sv_toks v) @ r)) now = Ret (-1, w)"
    then show ?thesis using True by (simp only: f) simp
  next
    fix nc
    assume "sess_load mem w (Some (sess_file (sv_toks v) @ r)) now =
        Ret (0, w\<lparr>sv_cap := nc, sv_toks := sv_toks v, sv_last := now\<rparr>)"
      and "sv_inv (w\<lparr>sv_cap := nc, sv_toks := sv_toks v, sv_last := now\<rparr>)"
    then show ?thesis using True by (simp only: f) simp
  qed
next
  case False
  let ?t = "sv_toks v"
  have room: "room < length (sess_file ?t)" and f: "f = take room (sess_file ?t)"
    using sess_save_take[OF v, of room] s False by auto
  have "\<exists>w'. sess_load mem w (Some f) now = Ret (-1, w') \<and> sv_key w' = sv_key w \<and> sv_last w' = sv_last w"
  proof (cases "length f < 12")
    case True
    then show ?thesis by (simp add: sess_load_reject)
  next
    case False
    then have "12 \<le> room" by (auto simp: f)
    then have f': "f = take 8 SESS_FILE_MAGIC @ put32 (word_of_nat (length ?t)) @ take (room - 12) (words_bytes ?t)"
      using f take_sess_file by simp
    have st: "12 \<le> length f" "take 8 f = take 8 SESS_FILE_MAGIC"
      using False by (simp_all add: f')
    have n: "unat (word_of_nat (length ?t) :: u32) = length ?t"
      using unat_sv_n[OF v] by (simp add: sv_n_def)
    have g: "get32 (drop 8 f) = word_of_nat (length ?t)"
      by (simp add: f')
    have sh: "length f < 12 + 4 * length ?t" using room f by (simp add: length_sess_file)
    then have "?t \<noteq> []" using st by auto
    then have pos: "get32 (drop 8 f) > 0" using n g by (metis length_greater_0_conv unat_gt_0 word_gt_0)
    have le: "unat (get32 (drop 8 f)) \<le> 2 ^ 31" using g n sv_inv_length[OF v] by simp
    show ?thesis
      by (rule sess_grow_cases[OF w le, of mem])
         (use pos sh g n in \<open>auto simp: sess_load_step[OF st] Let_def\<close>)
  qed
  then show ?thesis using False by simp
qed

theorem sess_save_load_witness:
  "sess_save 100 (fresh_val ''a'' 1) = (0, ''YLLMSESS'' @ put32 0) \<and>
   (sess_load (\<lambda>_. True) zero_val (Some (''YLLMSESS'' @ put32 0)) 5 = Ret (-1, zero_val) \<or>
      (\<exists>w'. sess_load (\<lambda>_. True) zero_val (Some (''YLLMSESS'' @ put32 0)) 5 = Ret (0, w') \<and> sv_inv w'
        \<and> sv_toks w' = [] \<and> sv_key w' = [] \<and> sv_last w' = 5))"
proof -
  have s: "sess_save 100 (fresh_val ''a'' 1) = (0, ''YLLMSESS'' @ put32 0)"
    by (simp add: sess_save_def fresh_val_def sv_n_def write_all_def SESS_FILE_MAGIC_def)
  have z: "sv_inv zero_val" by (simp add: sv_inv_def zero_val_def)
  show ?thesis
    using s sess_save_load[OF sv_inv_fresh z s, of "\<lambda>_. True" "[]" 5]
    by (simp add: fresh_val_def zero_val_def)
qed

subsection \<open>KV files\<close>

lemma length_kv_read [simp]: "length (kv_read kv off n) = n"
  by (simp add: kv_read_def)

lemma kv_write_read:
  "kv_write kv off (kv_read kv' off n) = (\<lambda>a. if off \<le> a \<and> a < off + n then kv' a else kv a)"
  by (auto simp: kv_write_def kv_read_def fun_eq_iff)

lemma kv_write_same: "a < off \<or> off + length b \<le> a \<Longrightarrow> kv_write kv off b a = kv a"
  by (auto simp: kv_write_def)

lemma kv_off_upd [simp]: "kv_off (e\<lparr>ke_kv := kv\<rparr>) l = kv_off e l"
  by (simp add: kv_off_def)

definition in_region :: "kv_engine \<Rightarrow> nat \<Rightarrow> u32 \<Rightarrow> nat \<Rightarrow> bool" where
  "in_region e rowb l a \<longleftrightarrow> kv_off e l \<le> a \<and> a < kv_off e l + rowb"

lemma in_region_upd [simp]: "in_region (e\<lparr>ke_kv := kv\<rparr>) = in_region e"
  by (simp add: in_region_def fun_eq_iff)

text \<open>Reading back what was written: the saved regions come from the file, every other byte
  is left alone.\<close>

lemma kv_load_loop_saved:
  "kv_load_loop e rowb ls
     (concat (map (\<lambda>l. kv_read kvS (kv_off e l) rowb @ kv_read kvS (kv_off e (ke_nb e + l)) rowb) ls) @ r) =
   (0, \<lambda>a. if \<exists>l\<in>set ls. in_region e rowb l a \<or> in_region e rowb (ke_nb e + l) a then kvS a else ke_kv e a)"
proof (induction ls arbitrary: e)
  case (Cons l ls)
  let ?e = "e\<lparr>ke_kv := \<lambda>a. if in_region e rowb l a \<or> in_region e rowb (ke_nb e + l) a then kvS a else ke_kv e a\<rparr>"
  have "kv_load_loop e rowb (l # ls)
     (concat (map (\<lambda>l. kv_read kvS (kv_off e l) rowb @ kv_read kvS (kv_off e (ke_nb e + l)) rowb) (l # ls)) @ r) =
     kv_load_loop ?e rowb ls
     (concat (map (\<lambda>l. kv_read kvS (kv_off ?e l) rowb @ kv_read kvS (kv_off ?e (ke_nb ?e + l)) rowb) ls) @ r)"
    by (simp add: Let_def kv_write_read in_region_def)
       (rule arg_cong[where f = "\<lambda>kv. kv_load_loop (e\<lparr>ke_kv := kv\<rparr>) rowb ls _"], auto)
  then show ?case by (subst (asm) Cons.IH) (auto simp: fun_eq_iff)
qed simp

lemma kv_load_loop_frame:
  assumes "\<And>l. l \<in> set ls \<Longrightarrow> \<not> in_region e rowb l a \<and> \<not> in_region e rowb (ke_nb e + l) a"
  shows "snd (kv_load_loop e rowb ls s) a = ke_kv e a"
  using assms
proof (induction ls arbitrary: e s)
  case (Cons l ls)
  have w: "kv_write kv (kv_off e l) b a = kv a" "kv_write kv (kv_off e (ke_nb e + l)) b a = kv a"
    if "length b \<le> rowb" for kv b
    using Cons.prems[of l] that by (auto simp: in_region_def intro!: kv_write_same)
  show ?case
    using Cons.prems w by (simp add: read_all_def Let_def Cons.IH cong: if_cong)
qed simp

lemma set_kv_layers:
  "l \<in> set (kv_layers nb) \<longleftrightarrow> 1 \<le> unat l \<and> unat l \<le> unat nb"
proof
  assume "l \<in> set (kv_layers nb)"
  then obtain k where k: "1 \<le> k" "k \<le> unat nb" "l = word_of_nat k"
    by (auto simp: kv_layers_def)
  then have "unat l = k"
    by (simp only: unat_word_of_nat_le)
  then show "1 \<le> unat l \<and> unat l \<le> unat nb" using k by simp
next
  assume "1 \<le> unat l \<and> unat l \<le> unat nb"
  then have "word_of_nat (unat l) \<in> set (kv_layers nb)"
    unfolding kv_layers_def set_map by (intro imageI) auto
  then show "l \<in> set (kv_layers nb)" by simp
qed

text \<open>The size in bytes of the KV buffer: \<open>2 * nb + 1\<close> regions of \<open>max_seq\<close> rows.\<close>

definition kv_size :: "kv_engine \<Rightarrow> nat" where
  "kv_size e = (2 * unat (ke_nb e) + 1) * unat (ke_max_seq e) * unat (ke_row_sz e)"

definition kv_saved :: "kv_engine \<Rightarrow> u32 \<Rightarrow> nat \<Rightarrow> bool" where
  "kv_saved e pos a \<longleftrightarrow> (\<exists>l. 1 \<le> l \<and> l \<le> 2 * unat (ke_nb e) \<and>
     l * unat (ke_max_seq e) * unat (ke_row_sz e) \<le> a \<and>
     a < l * unat (ke_max_seq e) * unat (ke_row_sz e) + unat pos * unat (ke_row_sz e))"

lemma kv_regions_saved:
  assumes "2 * unat (ke_nb e) < 2 ^ 32"
  shows "(\<exists>l\<in>set (kv_layers (ke_nb e)).
      in_region e (unat pos * unat (ke_row_sz e)) l a \<or>
      in_region e (unat pos * unat (ke_row_sz e)) (ke_nb e + l) a) \<longleftrightarrow> kv_saved e pos a"
    (is "?L \<longleftrightarrow> ?R")
proof
  have add: "unat (ke_nb e + l) = unat (ke_nb e) + unat l" if "unat l \<le> unat (ke_nb e)" for l
    using that assms by (subst unat_add_lem[THEN iffD1]) auto
  show "?L \<Longrightarrow> ?R"
  proof -
    assume ?L
    then obtain l where l: "1 \<le> unat l" "unat l \<le> unat (ke_nb e)"
      "in_region e (unat pos * unat (ke_row_sz e)) l a \<or>
       in_region e (unat pos * unat (ke_row_sz e)) (ke_nb e + l) a"
      by (auto simp: set_kv_layers)
    then show ?R
      unfolding kv_saved_def in_region_def kv_off_def
      by (elim disjE) (intro exI[of _ "unat l"], simp, intro exI[of _ "unat (ke_nb e) + unat l"], simp add: add)
  qed
  show "?R \<Longrightarrow> ?L"
  proof -
    assume ?R
    then obtain m where m: "1 \<le> m" "m \<le> 2 * unat (ke_nb e)"
      "m * unat (ke_max_seq e) * unat (ke_row_sz e) \<le> a"
      "a < m * unat (ke_max_seq e) * unat (ke_row_sz e) + unat pos * unat (ke_row_sz e)"
      by (auto simp: kv_saved_def)
    define k where "k = (if m \<le> unat (ke_nb e) then m else m - unat (ke_nb e))"
    have k: "1 \<le> k" "k \<le> unat (ke_nb e)" using m by (auto simp: k_def)
    then have u: "unat (word_of_nat k :: u32) = k"
      by (simp only: unat_word_of_nat_le)
    have "in_region e (unat pos * unat (ke_row_sz e)) (word_of_nat k) a \<or>
       in_region e (unat pos * unat (ke_row_sz e)) (ke_nb e + word_of_nat k) a"
      using m k add[of "word_of_nat k"] u
      by (cases "m \<le> unat (ke_nb e)") (auto simp: in_region_def kv_off_def k_def)
    then show ?L using k u by (intro bexI[of _ "word_of_nat k"]) (auto simp: set_kv_layers)
  qed
qed

lemma kv_saved_bounds:
  assumes "pos \<le> ke_max_seq e" "kv_saved e pos a"
  shows "unat (ke_max_seq e) * unat (ke_row_sz e) \<le> a \<and> a < kv_size e"
proof -
  obtain l where l: "1 \<le> l" "l \<le> 2 * unat (ke_nb e)"
     "l * unat (ke_max_seq e) * unat (ke_row_sz e) \<le> a"
     "a < l * unat (ke_max_seq e) * unat (ke_row_sz e) + unat pos * unat (ke_row_sz e)"
    using assms(2) by (auto simp: kv_saved_def)
  define R where "R = unat (ke_max_seq e) * unat (ke_row_sz e)"
  have p: "unat pos * unat (ke_row_sz e) \<le> R"
    using assms(1) by (simp add: word_le_nat_alt R_def)
  have "1 * R \<le> l * R" using l(1) by (rule mult_le_mono1)
  moreover have "(l + 1) * R \<le> (2 * unat (ke_nb e) + 1) * R" using l(2) by (intro mult_le_mono1) simp
  then have "l * R + R \<le> (2 * unat (ke_nb e) + 1) * R" by (simp only: add_mult_distrib mult_1)
  moreover have "l * R \<le> a" "a < l * R + unat pos * unat (ke_row_sz e)"
    using l(3,4) by (simp_all only: R_def mult.assoc)
  ultimately have "R \<le> a \<and> a < (2 * unat (ke_nb e) + 1) * R" using p by linarith
  then show ?thesis by (simp only: kv_size_def R_def mult.assoc)
qed

lemma sess_kv_load_header:
  assumes "pos \<le> ke_max_seq e"
  shows "sess_kv_load e (Some (concat (kv_header e pos) @ r)) =
    (case kv_load_loop e (unat pos * unat (ke_row_sz e)) (kv_layers (ke_nb e)) r of
       (rc, kv) \<Rightarrow> (rc, e\<lparr>ke_kv := kv\<rparr>, if rc = 0 then Some pos else None))"
  by (simp add: sess_kv_load_def kv_header_def kv_flags_def leD[OF assms] cong: if_cong prod.case_cong)

lemma sess_kv_reload:
  assumes shape: "ke_nb d = ke_nb e" "ke_kv_dim d = ke_kv_dim e" "ke_max_seq d = ke_max_seq e"
      "ke_row_sz d = ke_row_sz e" "ke_q8 d = ke_q8 e"
    and "2 * unat (ke_nb e) < 2 ^ 32" "pos \<le> ke_max_seq e"
    and s: "sess_kv_save room d pos = (0, f)"
  shows "sess_kv_load e (Some f) =
    (0, e\<lparr>ke_kv := \<lambda>a. if kv_saved e pos a then ke_kv d a else ke_kv e a\<rparr>, Some pos)"
proof -
  let ?rowb = "unat pos * unat (ke_row_sz e)"
  have off: "kv_off d l = kv_off e l" for l by (simp add: kv_off_def shape)
  have "f = concat (kv_header d pos) @
      concat (map (\<lambda>l. kv_read (ke_kv d) (kv_off e l) ?rowb @ kv_read (ke_kv d) (kv_off e (ke_nb e + l)) ?rowb) (kv_layers (ke_nb e)))"
  proof -
    have "f = [] @ concat (kv_header d pos @ concat (map (\<lambda>l. [kv_read (ke_kv d) (kv_off d l) ?rowb,
        kv_read (ke_kv d) (kv_off d (ke_nb d + l)) ?rowb]) (kv_layers (ke_nb d))))"
      by (rule write_seq_ok[of room]) (use s in \<open>simp add: sess_kv_save_def Let_def shape\<close>)
    moreover have "concat (concat (map (\<lambda>l. [kv_read (ke_kv d) (kv_off d l) ?rowb,
        kv_read (ke_kv d) (kv_off d (ke_nb d + l)) ?rowb]) ls)) =
        concat (map (\<lambda>l. kv_read (ke_kv d) (kv_off e l) ?rowb @ kv_read (ke_kv d) (kv_off e (ke_nb e + l)) ?rowb) ls)" for ls
      by (induction ls) (auto simp: off shape)
    ultimately show ?thesis
      by (simp add: shape)
  qed
  then have f: "f = concat (kv_header d pos) @
      (concat (map (\<lambda>l. kv_read (ke_kv d) (kv_off e l) ?rowb @ kv_read (ke_kv d) (kv_off e (ke_nb e + l)) ?rowb) (kv_layers (ke_nb e))) @ [])"
    by simp
  have hd: "kv_header d pos = kv_header e pos" by (simp add: kv_header_def kv_flags_def shape)
  have "sess_kv_load e (Some f) = (case kv_load_loop e ?rowb (kv_layers (ke_nb e))
      (concat (map (\<lambda>l. kv_read (ke_kv d) (kv_off e l) ?rowb @ kv_read (ke_kv d) (kv_off e (ke_nb e + l)) ?rowb) (kv_layers (ke_nb e))) @ [])
      of (rc, kv) \<Rightarrow> (rc, e\<lparr>ke_kv := kv\<rparr>, if rc = 0 then Some pos else None))"
    unfolding f hd by (rule sess_kv_load_header[OF assms(7)])
  then show ?thesis
    unfolding kv_load_loop_saved using kv_regions_saved[OF assms(6), of pos] by simp
qed

text \<open>C21: A KV file written by one engine and loaded by another of the same shape restores the
  cached rows: afterwards every byte of the first \<open>pos\<close> rows of the K and V region of every
  block is the saver's, every other byte of the loader's buffer is what it was, and the
  position is the saved one.\<close>

theorem sess_kv_save_load:
  assumes shape: "ke_nb d = ke_nb e" "ke_kv_dim d = ke_kv_dim e" "ke_max_seq d = ke_max_seq e"
      "ke_row_sz d = ke_row_sz e" "ke_q8 d = ke_q8 e"
    and "2 * unat (ke_nb e) < 2 ^ 32" "pos \<le> ke_max_seq e"
    and s: "sess_kv_save room d pos = (0, f)"
  shows "sess_kv_load e (Some f) =
    (0, e\<lparr>ke_kv := \<lambda>a. if kv_saved e pos a then ke_kv d a else ke_kv e a\<rparr>, Some pos)"
  by (rule sess_kv_reload[OF assms])

lemma sess_kv_load_refuse:
  assumes "\<not> (\<exists>pos r. pos \<le> ke_max_seq e \<and> file = Some (concat (kv_header e pos) @ r))"
  shows "sess_kv_load e file = (-1, e, None)"
proof (rule ccontr)
  have wr: "s = put32 (get32 (take 4 s)) @ drop 4 s" if "4 \<le> length s" for s
    using put32_get32[of "take 4 s"] that by (simp add: min_def get32_def)
  assume n: "sess_kv_load e file \<noteq> (-1, e, None)"
  then obtain s where s: "file = Some s" by (cases "file") (auto simp: sess_kv_load_def)
  define s1 where "s1 = drop 8 s"
  define s2 where "s2 = drop 4 s1"
  define s3 where "s3 = drop 4 s2"
  define s4 where "s4 = drop 4 s3"
  define s5 where "s5 = drop 4 s4"
  note sd = s1_def[symmetric] s2_def[symmetric] s3_def[symmetric] s4_def[symmetric] s5_def[symmetric]
  have c: "8 \<le> length s" "take 8 s = take 8 SESS_KV_MAGIC" "4 \<le> length s1" "4 \<le> length s2"
    "4 \<le> length s3" "4 \<le> length s4" "4 \<le> length s5"
    "get32 (take 4 s1) = ke_nb e" "get32 (take 4 s2) = ke_kv_dim e" "get32 (take 4 s3) = ke_max_seq e"
    "get32 (take 4 s4) \<le> ke_max_seq e" "get32 (take 4 s5) = kv_flags e"
    using n unfolding s sess_kv_load_def read_all_def option.case prod.case sd
    by (auto split: if_splits)
  have "s = take 8 s @ s1" by (simp add: s1_def)
  moreover have "s1 = put32 (ke_nb e) @ s2" "s2 = put32 (ke_kv_dim e) @ s3"
    "s3 = put32 (ke_max_seq e) @ s4" "s4 = put32 (get32 (take 4 s4)) @ s5" "s5 = put32 (kv_flags e) @ drop 4 s5"
    using wr[OF c(3)] wr[OF c(4)] wr[OF c(5)] wr[OF c(6)] wr[OF c(7)]
    unfolding sd c(8) c(9) c(10) c(12) by blast+
  ultimately have "s = concat (kv_header e (get32 (take 4 s4))) @ drop 4 s5"
    using c(2) by (simp add: kv_header_def)
  then show False using assms c(11) s by blast
qed

text \<open>No KV file, whatever its bytes, makes \<open>sess_kv_load\<close> write outside the buffer or into
  its unused region 0; and unless the load succeeds or stops in the middle of the rows, the
  engine is untouched. A file that is not for this engine's shape, or has a position beyond
  \<open>max_seq\<close>, is refused.\<close>

theorem sess_kv_load_safe:
  assumes "2 * unat (ke_nb e) < 2 ^ 32" "sess_kv_load e file = (rc, e', p)"
  shows "e' = e\<lparr>ke_kv := ke_kv e'\<rparr> \<and>
    (a < unat (ke_max_seq e) * unat (ke_row_sz e) \<or> kv_size e \<le> a \<longrightarrow> ke_kv e' a = ke_kv e a) \<and>
    (\<forall>q. p = Some q \<longrightarrow> rc = 0 \<and> q \<le> ke_max_seq e) \<and>
    (\<not> (\<exists>pos r. pos \<le> ke_max_seq e \<and> file = Some (concat (kv_header e pos) @ r)) \<longrightarrow> rc = -1 \<and> e' = e \<and> p = None)"
proof (intro conjI)
  have "(rc = -1 \<and> e' = e \<and> p = None) \<or>
    (\<exists>pos r. pos \<le> ke_max_seq e \<and> file = Some (concat (kv_header e pos) @ r) \<and>
       (rc, e', p) = (case kv_load_loop e (unat pos * unat (ke_row_sz e)) (kv_layers (ke_nb e)) r of
          (rc, kv) \<Rightarrow> (rc, e\<lparr>ke_kv := kv\<rparr>, if rc = 0 then Some pos else None)))"
  proof (cases "\<exists>pos r. pos \<le> ke_max_seq e \<and> file = Some (concat (kv_header e pos) @ r)")
    case True
    then obtain pos r where pr: "pos \<le> ke_max_seq e" "file = Some (concat (kv_header e pos) @ r)" by blast
    then have "sess_kv_load e file = (case kv_load_loop e (unat pos * unat (ke_row_sz e)) (kv_layers (ke_nb e)) r of
          (rc, kv) \<Rightarrow> (rc, e\<lparr>ke_kv := kv\<rparr>, if rc = 0 then Some pos else None))"
      by (simp only: sess_kv_load_header)
    then show ?thesis using pr assms(2) by (metis (no_types, lifting))
  next
    case False
    then have "sess_kv_load e file = (-1, e, None)" by (rule sess_kv_load_refuse)
    then show ?thesis using assms(2) by simp
  qed
  then consider (no) "rc = -1" "e' = e" "p = None" | (yes) pos r where "pos \<le> ke_max_seq e"
      "file = Some (concat (kv_header e pos) @ r)"
      "rc = fst (kv_load_loop e (unat pos * unat (ke_row_sz e)) (kv_layers (ke_nb e)) r)"
      "e' = e\<lparr>ke_kv := snd (kv_load_loop e (unat pos * unat (ke_row_sz e)) (kv_layers (ke_nb e)) r)\<rparr>"
      "p = (if rc = 0 then Some pos else None)"
    by (auto simp: split_def)
  note cs = this
  show "e' = e\<lparr>ke_kv := ke_kv e'\<rparr>" by (cases rule: cs) simp_all
  show "\<forall>q. p = Some q \<longrightarrow> rc = 0 \<and> q \<le> ke_max_seq e" by (cases rule: cs) auto
  show "a < unat (ke_max_seq e) * unat (ke_row_sz e) \<or> kv_size e \<le> a \<longrightarrow> ke_kv e' a = ke_kv e a"
  proof (cases rule: cs)
    case (yes pos r)
    show ?thesis
    proof
      assume "a < unat (ke_max_seq e) * unat (ke_row_sz e) \<or> kv_size e \<le> a"
      then have "\<not> kv_saved e pos a" using kv_saved_bounds[OF yes(1), of a] by auto
      then show "ke_kv e' a = ke_kv e a"
        using kv_regions_saved[OF assms(1), of pos a] unfolding yes(4)
        by (simp, intro kv_load_loop_frame) blast
    qed
  qed simp
  show "\<not> (\<exists>pos r. pos \<le> ke_max_seq e \<and> file = Some (concat (kv_header e pos) @ r)) \<longrightarrow> rc = -1 \<and> e' = e \<and> p = None"
    by (cases rule: cs) auto
qed

definition tiny_engine :: "char \<Rightarrow> kv_engine" where
  "tiny_engine c = \<lparr>ke_nb = 1, ke_kv_dim = 1, ke_max_seq = 2, ke_row_sz = 2, ke_q8 = False, ke_kv = \<lambda>_. c\<rparr>"

lemma tiny_sel [simp]:
  "ke_nb (tiny_engine c) = 1" "ke_kv_dim (tiny_engine c) = 1" "ke_max_seq (tiny_engine c) = 2"
  "ke_row_sz (tiny_engine c) = 2" "ke_q8 (tiny_engine c) = False" "ke_kv (tiny_engine c) = (\<lambda>_. c)"
  by (simp_all add: tiny_engine_def)

lemma tiny_layers: "kv_layers 1 = [1]"
  by (simp add: kv_layers_def)

definition tiny_file :: bytes where
  "tiny_file = ''YLLMSKV0'' @ put32 1 @ put32 1 @ put32 2 @ put32 1 @ put32 0 @ ''xxxx''"

lemma tiny_save: "sess_kv_save 1000 (tiny_engine CHR ''x'') 1 = (0, tiny_file)"
  by (simp add: sess_kv_save_def Let_def kv_header_def tiny_layers kv_read_def write_all_def
      SESS_KV_MAGIC_def kv_flags_def tiny_file_def upt_rec)

theorem sess_kv_save_load_witness:
  "sess_kv_load (tiny_engine CHR ''y'') (Some tiny_file) =
    (0, (tiny_engine CHR ''y'')\<lparr>ke_kv := \<lambda>a. if kv_saved (tiny_engine CHR ''y'') 1 a then CHR ''x'' else CHR ''y''\<rparr>, Some 1)"
  using sess_kv_save_load[OF _ _ _ _ _ _ _ tiny_save, of "tiny_engine CHR ''y''"]
  by (simp cong: if_cong)

theorem sess_kv_load_safe_witness:
  "sess_kv_load (tiny_engine CHR ''y'') (Some ''YLLMSKV0'') = (-1, tiny_engine CHR ''y'', None)"
proof -
  have "\<not> (\<exists>pos r. pos \<le> ke_max_seq (tiny_engine CHR ''y'') \<and>
      Some ''YLLMSKV0'' = Some (concat (kv_header (tiny_engine CHR ''y'') pos) @ r))"
    by (auto simp: kv_header_def dest!: arg_cong[where f = length])
  then show ?thesis
    using sess_kv_load_safe[of "tiny_engine CHR ''y''" "Some ''YLLMSKV0''"]
    by (cases "sess_kv_load (tiny_engine CHR ''y'') (Some ''YLLMSKV0'')") simp
qed

subsection \<open>Names and the start-up scan\<close>

lemma sess_key_from_name_sess:
  "key \<noteq> [] \<Longrightarrow> length key < keysz \<Longrightarrow> sess_key_from_name (key @ ''.sess'') keysz = Some key"
  by (cases key) (auto simp: sess_key_from_name_def)

lemma sess_key_from_name_Some:
  assumes "sess_key_from_name name keysz = Some key"
  shows "name = key @ ''.sess'' \<and> key \<noteq> [] \<and> length key < keysz"
proof -
  let ?n = "length name - 5"
  have "drop ?n name = ''.sess''" "key = take ?n name" "?n \<noteq> 0" "?n < keysz" "6 \<le> length name"
    using assms by (auto simp: sess_key_from_name_def Let_def split: if_splits)
  then show ?thesis using append_take_drop_id[of ?n name] by auto
qed

lemma scan_dir_ok:
  "f \<in> set (scan_dir dir nf es) \<Longrightarrow>
   \<exists>name t. (name, Some t) \<in> set es \<and> name = sf_key f @ ''.sess'' \<and> length (sf_key f) < 128 \<and>
     sf_path f = snprintf_s 512 (dir @ ''/'' @ name)"
proof (induction es arbitrary: nf)
  case (Cons e es)
  obtain name st where e: "e = (name, st)" by (cases e)
  show ?case
    using Cons sess_key_from_name_Some[of name 128]
    by (fastforce simp: e split: if_splits option.splits)
qed simp

lemma length_scan_dir: "length (scan_dir dir nf es) \<le> SESS_SCAN_MAX - nf"
proof (induction es arbitrary: nf)
  case (Cons e es)
  have "length (scan_dir dir (Suc nf) es) \<le> SESS_SCAN_MAX - Suc nf" by (rule Cons.IH)
  then show ?case using Cons.IH[of nf] by (cases e) (auto split: option.splits)
qed simp

text \<open>What one step of the scan may do to the table: nothing, or add one new key.\<close>

definition grows :: "(string \<Rightarrow> u32 list \<Rightarrow> bool) \<Rightarrow> sess_cache \<Rightarrow> nat \<Rightarrow> sess_cache \<Rightarrow> nat \<Rightarrow> bool" where
  "grows P c n c' n' \<longleftrightarrow> sc_inv c' \<and> sc_cap c' = sc_cap c \<and> n \<le> n' \<and>
     length (sc_v c') = length (sc_v c) + (n' - n) \<and>
     (\<forall>k t. sc_tab c k = Some t \<longrightarrow> sc_tab c' k = Some t) \<and>
     (\<forall>k t. sc_tab c k = None \<longrightarrow> sc_tab c' k = Some t \<longrightarrow> P k t)"

lemma grows_refl: "sc_inv c \<Longrightarrow> grows P c n c n"
  by (simp add: grows_def)

lemma grows_mono: "grows P c n c' n' \<Longrightarrow> (\<And>k t. P k t \<Longrightarrow> Q k t) \<Longrightarrow> grows Q c n c' n'"
  by (simp add: grows_def)

lemma grows_trans:
  assumes "grows P c n c1 n1" "grows P c1 n1 c2 n2"
  shows "grows P c n c2 n2"
proof -
  have "P k t" if "sc_tab c k = None" "sc_tab c2 k = Some t" for k t
    using assms that unfolding grows_def by (cases "sc_tab c1 k") auto
  moreover have "sc_tab c2 k = Some t" if "sc_tab c k = Some t" for k t
    using assms that by (simp add: grows_def)
  ultimately show ?thesis
    using assms by (simp add: grows_def)
qed

definition disk_ok :: "(string \<Rightarrow> bytes option) \<Rightarrow> bool" where
  "disk_ok disk \<longleftrightarrow> (\<forall>p s. disk p = Some s \<longrightarrow>
     length s < 12 \<or> take 8 s \<noteq> take 8 SESS_FILE_MAGIC \<or> unat (get32 (drop 8 s)) \<le> 2 ^ 31)"

text \<open>The tokens under \<open>k\<close> are those a file of that key loads to.\<close>

definition from_disk :: "(string \<Rightarrow> bytes option) \<Rightarrow> nat \<Rightarrow> sess_file_ent list \<Rightarrow> string \<Rightarrow> u32 list \<Rightarrow> bool" where
  "from_disk disk now fs k t \<longleftrightarrow> t \<noteq> [] \<and> (\<exists>f\<in>set fs. sf_key f = k \<and>
     (\<exists>v. sess_load (\<lambda>_. True) zero_val (disk (sf_path f)) now = Ret (0, v) \<and> sv_toks v = t))"

lemma sess_load_inv:
  assumes "sv_inv v" "sess_load mem v file now = Ret (0, w)"
  shows "sv_inv w \<and> sv_key w = sv_key v"
proof (cases "file")
  case (Some s)
  then have st: "12 \<le> length s" "take 8 s = take 8 SESS_FILE_MAGIC"
    using assms(2) sess_load_reject[of s mem v now] by (force simp: not_less)+
  have le: "unat (get32 (drop 8 s)) \<le> 2 ^ 31"
    using sess_load_cases[OF assms(1), of s mem now] assms(2) Some st by (auto split: if_splits)
  show ?thesis
  proof (rule sess_grow_cases[OF assms(1) le, of mem])
    fix nc
    assume g: "sess_grow mem v (get32 (drop 8 s)) = Ret (0, v\<lparr>sv_cap := nc\<rparr>)" "get32 (drop 8 s) \<le> nc"
      "sv_inv (v\<lparr>sv_cap := nc\<rparr>)"
    then show ?thesis
      using assms(2) Some
      by (auto simp: sess_load_step[OF st] Let_def sv_inv_def length_bytes_words word_le_nat_alt split: if_splits)
  qed (use assms(2) Some in \<open>auto simp: sess_load_step[OF st]\<close>)
qed (use assms in \<open>auto simp: sess_load_def\<close>)

lemma zero_inv: "sv_inv zero_val"
  by (simp add: sv_inv_def zero_val_def)

lemma load_one_spec:
  assumes "sc_inv c" "disk_ok disk" "length (sf_key f) < 128"
  obtains go c' n' where "load_one disk now f (c, n) = Ret (go, c', n')"
    "grows (from_disk disk now [f]) c n c' n'"
proof (cases "sess_get c (sf_key f) now")
  case (Pair c1 r)
  have c1: "c1 = fst (sess_get c (sf_key f) now)" using Pair by simp
  have g: "sc_inv c1" "sc_tab c1 = sc_tab c" "length (sc_v c1) = length (sc_v c)" "sc_cap c1 = sc_cap c"
    using sess_get_spec[OF assms(1), of "sf_key f" now] unfolding c1 by blast+
  have same: "grows P c n c1 n" for P using g by (simp add: grows_def)
  show ?thesis
  proof (cases "r = None \<and> length (sc_v c1) < sc_cap c1")
    case False
    then have "load_one disk now f (c, n) = Ret (r \<noteq> None, c1, n)"
      using Pair g(1) by (cases r) (auto simp: load_one_def sc_inv_def)
    then show ?thesis using that same by blast
  next
    case True
    have none: "sc_tab c1 (sf_key f) = None"
      using sess_get_spec(5)[OF assms(1), of "sf_key f" now] Pair True g by simp
    obtain rc v where l: "sess_load (\<lambda>_. True) zero_val (disk (sf_path f)) now = Ret (rc, v)"
    proof (cases "disk (sf_path f)")
      case None
      then show ?thesis using that by (simp add: sess_load_def)
    next
      case (Some s)
      then show ?thesis
        using that assms(2) sess_load_cases[OF zero_inv, of s "\<lambda>_. True" now]
        by (auto simp: disk_ok_def)
    qed
    show ?thesis
    proof (cases "rc = 0 \<and> sv_toks v \<noteq> []")
      case False
      then have "load_one disk now f (c, n) = Ret (True, c1, n)"
        using Pair True l by (auto simp: load_one_def)
      then show ?thesis using that same by blast
    next
      case loaded: True
      obtain c2 i where put: "sess_put c1 (sf_key f) now = (c2, i)" by force
      have f: "find_index (\<lambda>v. sv_key v = sf_key f) (sc_v c1) = None" using none by (simp add: find_key_None)
      have c2: "c2 = c1\<lparr>sc_v := sc_v c1 @ [fresh_val (sf_key f) now]\<rparr>" "i = length (sc_v c1)"
        using put f True by (auto simp: sess_put_def sess_get_def sess_new_def Let_def set_entry_def)
      define w where "w = (sc_v c2 ! i)\<lparr>sv_toks := sv_toks v, sv_cap := sv_cap v,
           sv_last := (if sf_mtime f \<noteq> 0 then unat (sf_mtime f) else now)\<rparr>"
      have w: "sv_key w = sf_key f" "sv_toks w = sv_toks v" "sv_inv w"
        using c2 assms(3) sess_load_inv[OF zero_inv, of "\<lambda>_. True" _ now v] l loaded
        by (auto simp: w_def fresh_val_def sv_inv_def)
      have e: "set_entry c2 i w = c1\<lparr>sc_v := sc_v c1 @ [w]\<rparr>"
        by (simp add: set_entry_def c2)
      have "load_one disk now f (c, n) = Ret (True, set_entry c2 i w, Suc n)"
        using Pair True l loaded put by (simp add: load_one_def w_def)
      moreover have "sc_inv (c1\<lparr>sc_v := sc_v c1 @ [w]\<rparr>)"
        using g(1) w True none by (auto simp: sc_inv_def tab_None)
      then have "grows (from_disk disk now [f]) c n (set_entry c2 i w) (Suc n)"
        using g none w l loaded tab_append[of c1 w] by (auto simp: e grows_def from_disk_def)
      ultimately show ?thesis by (rule that)
    qed
  qed
qed

lemma load_files_spec:
  assumes "sc_inv c" "disk_ok disk" "\<forall>f\<in>set fs. length (sf_key f) < 128"
  shows "\<exists>c' n'. load_files disk now fs (c, n) = Ret (c', n') \<and> grows (from_disk disk now fs) c n c' n'"
  using assms
proof (induction fs arbitrary: c n)
  case Nil
  then show ?case by (simp add: grows_refl)
next
  case (Cons f fs)
  have k: "length (sf_key f) < 128" using Cons.prems by simp
  show ?case
  proof (rule load_one_spec[OF Cons.prems(1,2) k, of now n])
    fix go c1 n1
    assume l: "load_one disk now f (c, n) = Ret (go, c1, n1)"
      and g: "grows (from_disk disk now [f]) c n c1 n1"
    have g': "grows (from_disk disk now (f # fs)) c n c1 n1"
      by (rule grows_mono[OF g]) (auto simp: from_disk_def)
    show ?thesis
    proof (cases go)
      case True
      have "sc_inv c1" using g by (simp add: grows_def)
      then obtain c2 n2 where r: "load_files disk now fs (c1, n1) = Ret (c2, n2)"
          "grows (from_disk disk now fs) c1 n1 c2 n2"
        using Cons.IH[of c1 n1] Cons.prems by auto
      have "grows (from_disk disk now (f # fs)) c1 n1 c2 n2"
        by (rule grows_mono[OF r(2)]) (auto simp: from_disk_def)
      with g' have "grows (from_disk disk now (f # fs)) c n c2 n2" by (rule grows_trans)
      then show ?thesis using l r(1) True by simp
    next
      case False
      then show ?thesis using l g' by simp
    qed
  qed
qed

text \<open>\<open>qsort\<close> with a comparison function: a permutation in the order of the function.\<close>

text \<open>The start-up scan of a cache directory, over any directory without a file that makes
  \<open>sess_load\<close> loop, returns: the table's invariant and its capacity are kept, no entry already
  in the table is replaced or changed, the result counts the entries added, and each added
  entry holds the non-empty tokens of a file \<open><key>.sess\<close> of the directory.\<close>

theorem sess_load_dir_adds_only:
  assumes "sc_inv c" "disk_ok disk" "qsort_ok sess_file_newer_first qs"
  shows "\<exists>c' n. sess_load_dir qs c dir (Some es) disk now = Ret (c', n) \<and> sc_inv c' \<and>
    sc_cap c' = sc_cap c \<and> length (sc_v c') = length (sc_v c) + n \<and>
    (\<forall>k t. sc_tab c k = Some t \<longrightarrow> sc_tab c' k = Some t) \<and>
    (\<forall>k t. sc_tab c k = None \<longrightarrow> sc_tab c' k = Some t \<longrightarrow> t \<noteq> [] \<and>
       (\<exists>mt v. (k @ ''.sess'', Some mt) \<in> set es \<and> sv_toks v = t \<and>
          sess_load (\<lambda>_. True) zero_val (disk (snprintf_s 512 (dir @ ''/'' @ k @ ''.sess''))) now = Ret (0, v)))"
proof (cases "dir = []")
  case True
  then show ?thesis using assms(1) by (simp add: sess_load_dir_def)
next
  case False
  let ?fs = "scan_dir dir 0 es"
  define fs where "fs = (if length ?fs > 1 then qs ?fs else ?fs)"
  have "set (qs ?fs) = set ?fs" using assms(3) by (metis qsort_ok_def set_mset_mset)
  then have sf: "set fs = set ?fs" by (simp add: fs_def)
  then have "\<forall>f\<in>set fs. length (sf_key f) < 128" using scan_dir_ok by blast
  then obtain c' n where l: "load_files disk now fs (c, 0) = Ret (c', n)"
      and g: "grows (from_disk disk now fs) c 0 c' n"
    using load_files_spec[OF assms(1,2)] by blast
  have "sess_load_dir qs c dir (Some es) disk now = Ret (c', n)"
    using l False by (simp add: sess_load_dir_def fs_def Let_def)
  moreover have "t \<noteq> [] \<and> (\<exists>mt v. (k @ ''.sess'', Some mt) \<in> set es \<and> sv_toks v = t \<and>
      sess_load (\<lambda>_. True) zero_val (disk (snprintf_s 512 (dir @ ''/'' @ k @ ''.sess''))) now = Ret (0, v))"
    if fd: "from_disk disk now fs k t" for k t
  proof -
    obtain f v where f: "t \<noteq> []" "f \<in> set ?fs" "sf_key f = k" "sv_toks v = t"
        "sess_load (\<lambda>_. True) zero_val (disk (sf_path f)) now = Ret (0, v)"
      using fd unfolding from_disk_def sf by blast
    then show ?thesis using scan_dir_ok[OF f(2)] by auto
  qed
  ultimately show ?thesis
    using g unfolding grows_def
    by (intro exI[of _ c'] exI[of _ n] conjI allI impI) (simp_all, blast+)
qed

definition sort_newer :: "sess_file_ent list \<Rightarrow> sess_file_ent list" where
  "sort_newer fs = rev (sort_key sf_mtime fs)"

lemma sort_newer_ok: "qsort_ok sess_file_newer_first sort_newer"
proof -
  have "(\<lambda>x y. sess_file_newer_first y x \<le> 0) = (\<lambda>x y. sf_mtime x \<le> sf_mtime y)"
    by (auto simp: sess_file_newer_first_def fun_eq_iff)
  moreover have "sorted_wrt (\<lambda>x y. sf_mtime x \<le> sf_mtime y) (sort_key sf_mtime fs)" for fs :: "sess_file_ent list"
    using sorted_sort_key[of sf_mtime fs] by (simp add: sorted_wrt_map)
  ultimately show ?thesis
    by (simp add: qsort_ok_def sort_newer_def sorted_wrt_rev)
qed

theorem sess_load_dir_adds_only_witness:
  "\<exists>c' n. sess_load_dir sort_newer (sess_init 4) ''d'' (Some [(''k.sess'', Some 3)])
      (\<lambda>p. if p = ''d/k.sess'' then Some (''YLLMSESS'' @ put32 1 @ put32 7) else None) 9 = Ret (c', n)
    \<and> sc_inv c' \<and> length (sc_v c') = n"
proof -
  have i: "sc_inv (sess_init 4)" by (simp add: sc_inv_def sess_init_def)
  have "get32 (put32 1 @ put32 7) = 1" by simp
  then have d: "disk_ok (\<lambda>p. if p = ''d/k.sess'' then Some (''YLLMSESS'' @ put32 1 @ put32 7) else None)"
    by (auto simp: disk_ok_def)
  from sess_load_dir_adds_only[OF i d sort_newer_ok, of "''d''" "[(''k.sess'', Some 3)]" 9]
  show ?thesis by (elim exE conjE) (simp add: sess_init_def)
qed

text \<open>\<open>cache_path\<close> maps two short keys of the same directory to the same path exactly when
  they agree after every character the file system forbids became an underscore: keys such
  as \<open>a:1\<close> and \<open>a_1\<close> share one file. The key of a path built for the session table is found
  again by \<open>sess_key_from_name\<close> when the key has no such character.\<close>

theorem cache_path_collisions:
  assumes "length dir + 1 + length k1 + 16 \<le> outsz" "length dir + 1 + length k2 + 16 \<le> outsz" "length ext < 15"
    and "dir \<noteq> []"
  shows "cache_path outsz dir k1 ext = Some (dir @ ''/'' @ map safe_char k1 @ ext) \<and>
    (cache_path outsz dir k1 ext = cache_path outsz dir k2 ext \<longleftrightarrow> map safe_char k1 = map safe_char k2) \<and>
    ((\<forall>c\<in>set k1. \<not> bad_path_char c) \<and> k1 \<noteq> [] \<and> length k1 < 128 \<longrightarrow>
      (\<exists>name. cache_path outsz dir k1 ''.sess'' = Some (dir @ ''/'' @ name) \<and> sess_key_from_name name 128 = Some k1))"
proof (intro conjI)
  have p: "cache_path outsz dir k e = Some (dir @ ''/'' @ map safe_char k @ e)"
    if "length dir + 1 + length k + 16 \<le> outsz" "length e < 15" for k e
    using that assms(4) by (auto simp: cache_path_def Let_def)
  show "cache_path outsz dir k1 ext = Some (dir @ ''/'' @ map safe_char k1 @ ext)"
    by (rule p) (use assms in auto)
  show "cache_path outsz dir k1 ext = cache_path outsz dir k2 ext \<longleftrightarrow> map safe_char k1 = map safe_char k2"
    by (simp add: p[OF assms(1,3)] p[OF assms(2,3)])
  have "map safe_char k1 = k1" if "\<forall>c\<in>set k1. \<not> bad_path_char c"
    using that by (simp add: map_idI safe_char_def)
  then show "(\<forall>c\<in>set k1. \<not> bad_path_char c) \<and> k1 \<noteq> [] \<and> length k1 < 128 \<longrightarrow>
      (\<exists>name. cache_path outsz dir k1 ''.sess'' = Some (dir @ ''/'' @ name) \<and> sess_key_from_name name 128 = Some k1)"
    by (auto simp: p[OF assms(1)] sess_key_from_name_sess)
qed

theorem cache_path_collisions_witness:
  "cache_path 512 ''c'' ''a:1'' ''.kv'' = Some ''c/a_1.kv''
   \<and> cache_path 512 ''c'' ''a_1'' ''.kv'' = Some ''c/a_1.kv''"
  using cache_path_collisions[of "''c''" "''a:1''" 512 "''a_1''" "''.kv''"]
  by (simp add: safe_char_def bad_path_char_def) metis

end
