(* ===== verification/ServerSess.thy ===== *)
theory ServerSess
  imports SessMsgs SessFiles
begin

text \<open>
  Session inference of a server (\<^verbatim>\<open>serve/server.c\<close>, \<open>forward_infer_sess\<close>): the request is
  rendered to tokens, matched against the session table, the missing tokens are sent to the
  leader rank, and the session is extended when the leader answers \<open>DONE\<close>; rejected requests
  are sent again, in full or as a new session. \<open>infer_lock\<close> serialises the function, so it is one
  step of the server's state. The leader is a function from the bytes of the \<open>k\<close>-th connection
  to the bytes of its answer and whether it closes the connection afterwards (otherwise it stays
  silent until the timeout). The tokenizer, the clock, the printing of floating-point numbers
  and the success of \<open>malloc\<close> are the fields of \<open>sess_env\<close>.
\<close>

subsection \<open>State and environment\<close>

type_synonym leader_net = "string \<Rightarrow> u16 \<Rightarrow> nat \<Rightarrow> (bytes \<Rightarrow> bytes \<times> bool) option"

record sess_env =
  en_net :: leader_net
  en_mem :: "nat \<Rightarrow> bool"
  en_room :: nat
  en_now :: nat
  en_fmt :: "string \<Rightarrow> string"
  en_ids :: "(string \<times> string) list \<Rightarrow> u32 list"
  en_eos :: int

record server =
  sr_leader_host :: string
  sr_leader_port :: u16
  sr_ranks :: int
  sr_peers :: string
  sr_vocab_ok :: bool
  sr_cache_dir :: string
  sr_sess :: sess_cache
  sr_disk :: "string \<Rightarrow> bytes option"

definition SRV_MAX_LINE :: nat where "SRV_MAX_LINE = 8192"

subsection \<open>The leader and the files of a session\<close>

definition server_connect_leader :: "leader_net \<Rightarrow> server \<Rightarrow> nat \<Rightarrow> (bytes \<Rightarrow> bytes \<times> bool) option" where
  "server_connect_leader net s k =
     (case net (sr_leader_host s) (sr_leader_port s) k of
        Some f \<Rightarrow> Some f
      | None \<Rightarrow> if sr_leader_host s \<noteq> ''127.0.0.1'' then net ''127.0.0.1'' (sr_leader_port s) k else None)"

definition sess_file_name :: "nat \<Rightarrow> string \<Rightarrow> string \<Rightarrow> string" where
  "sess_file_name outsz key ext = map safe_char (take (outsz - 16) key) @ ext"

definition sess_path :: "string \<Rightarrow> string \<Rightarrow> string" where
  "sess_path dir key = dir @ ''/'' @ sess_file_name (512 - (length dir + 1)) key ''.sess''"

definition server_unlink_rank0_kv :: "server \<Rightarrow> string \<Rightarrow> server" where
  "server_unlink_rank0_kv s key =
     (if sr_cache_dir s = [] \<or> key = [] then s
      else case cache_path 512 (sr_cache_dir s) key ''.r0.kv'' of
        Some p \<Rightarrow> s\<lparr>sr_disk := (sr_disk s)(p := None)\<rparr> | None \<Rightarrow> s)"

text \<open>The rank refused to resume: rebuild.\<close>

definition sess_err_needs_rebuild :: "string \<Rightarrow> bool" where
  "sess_err_needs_rebuild out =
     (let m = proto_error_msg out in
      m \<noteq> [] \<and> (strstr m ''resume'' \<noteq> None \<or> strstr m ''kv not cached'' \<noteq> None
        \<or> strstr m ''session not cached'' \<noteq> None \<or> strstr m ''session kv'' \<noteq> None))"

subsection \<open>Looking up the session\<close>

text \<open>The entry after an attempt to load its file, and \<open>*resume\<close> when that succeeded.\<close>

definition sess_try_disk ::
  "sess_env \<Rightarrow> server \<Rightarrow> sess_val \<Rightarrow> string \<Rightarrow> (sess_val \<times> nat) run" where
  "sess_try_disk E s v key =
     (if sr_cache_dir s = [] then Ret (v, 0)
      else run_bind (sess_load (en_mem E) v (sr_disk s (sess_path (sr_cache_dir s) key)) (en_now E))
             (\<lambda>(rc, v'). Ret (v', if rc = 0 then length (sv_toks v') else 0)))"

definition put_entry :: "sess_env \<Rightarrow> server \<Rightarrow> sess_cache \<Rightarrow> string \<Rightarrow> (sess_cache \<times> nat \<times> nat) run" where
  "put_entry E s c key =
     (let (c, i) = sess_put c key (en_now E) in
      run_bind (sess_try_disk E s (sc_v c ! i) key) (\<lambda>(v, r). Ret (set_entry c i v, i, r)))"

fun show_hex :: "nat \<Rightarrow> string" where
  "show_hex n = (let d = (if n mod 16 < 10 then digit_char (n mod 16) else char_of (87 + n mod 16)) in
     if n < 16 then [d] else show_hex (n div 16) @ [d])"

declare show_hex.simps [simp del]

definition auto_key :: "nat \<Rightarrow> u32 list \<Rightarrow> string" where
  "auto_key now full = snprintf_s 128
     (if full = [] then ''a:'' @ show_hex now
      else ''a:'' @ show_hex now @ '':'' @ show_hex (unat (xor (word_of_nat (length full)) (hd full) :: u32)))"

definition cut_entry :: "sess_cache \<Rightarrow> nat \<Rightarrow> nat \<Rightarrow> nat \<Rightarrow> sess_cache" where
  "cut_entry c i l now =
     (if l < length (sv_toks (sc_v c ! i)) then set_entry c i (sess_truncate (sc_v c ! i) l now) else c)"

text \<open>The three ways to find the session of a request with the tokens \<open>full\<close>: by the client's key,
  by the longest common prefix, or a new one. Result: the table, the key and \<open>resume\<close>.\<close>

definition open_session :: "sess_env \<Rightarrow> server \<Rightarrow> string \<Rightarrow> u32 list \<Rightarrow> (sess_cache \<times> string \<times> nat) run" where
  "open_session E s key full =
     (let c = sr_sess s; now = en_now E in
      if key \<noteq> [] then
        run_bind (case sess_get c key now of
            (c, Some i) \<Rightarrow> Ret (c, i, 0)
          | (c, None) \<Rightarrow> put_entry E s c key)
          (\<lambda>(c, i, r).
            if full = [] then Ret (c, key, r)
            else let l = sess_lcp (sc_v c ! i) full (en_eos E) in Ret (cut_entry c i l now, key, l))
      else if full \<noteq> [] then
        (let fresh = (\<lambda>c. let key = auto_key now full in
               run_bind (put_entry E s c key) (\<lambda>(c, i, r). Ret (c, key, r))) in
         case sess_find_prefix c full (en_eos E) now of
           (c, l, Some i) \<Rightarrow> if l > 0 then Ret (cut_entry c i l now, snprintf_s 128 (sv_key (sc_v c ! i)), l) else fresh c
         | (c, l, None) \<Rightarrow> fresh c)
      else
        (let key = auto_key now [] in
         case sess_get c key now of
           (c, Some i) \<Rightarrow> Ret (c, key, length (sv_toks (sc_v c ! i)))
         | (c, None) \<Rightarrow> run_bind (put_entry E s c key) (\<lambda>(c, i, r). Ret (c, key, r))))"

text \<open>What is to be computed: the resume position, the tokens to send and whether the last prompt
  token is replayed because the whole prompt is known.\<close>

definition plan_tokens :: "u32 list \<Rightarrow> nat \<Rightarrow> nat \<times> u32 list \<times> bool" where
  "plan_tokens full resume =
     (let r = (if resume > length full then 0 else resume); d = drop r full in
      if d = [] \<and> r > 0 \<and> full \<noteq> [] then (r - 1, [full ! (r - 1)], True) else (r, d, False))"

subsection \<open>The answer of the leader\<close>

datatype reply_end = Gone | Silent | Failed string | Finished string

text \<open>The bytes relayed to the client, the generated tokens, and how the answer ended. A \<open>TS\<close> frame
  whose length is \<open>SIZE_MAX\<close> receives into a buffer of 0 bytes.\<close>

function leader_loop :: "bytes \<Rightarrow> (bytes \<times> u32 list \<times> reply_end) run" where
  "leader_loop s =
     (if s = [] then Ret ([], [], Silent)
      else case sock_recv_line SRV_MAX_LINE s of
        None \<Rightarrow> Ret ([], [], Gone)
      | Some (buf, s1) \<Rightarrow>
        let line = cstr buf in
        if starts ''PROG'' line then leader_loop s1
        else if proto_is_error line then Ret ([], [], Failed line)
        else if starts ''DONE'' line then Ret ([], [], Finished line)
        else if starts ''TS '' line then
          (let tlen = scan_size (drop 3 line); tok = word_of_nat (scan_size (scan_rest (drop 3 line))) in
           if tlen = 0 then Ret (sock_send_line line, [], Gone)
           else if tlen + 1 = 2 ^ 64 \<and> s1 \<noteq> [] then Fault
           else case recv_n tlen s1 of
             None \<Rightarrow> Ret (sock_send_line line, [], Gone)
           | Some (p, s2) \<Rightarrow>
               (case leader_loop s2 of
                  Ret (out, gen, e) \<Rightarrow> Ret (sock_send_line line @ p @ out, tok # gen, e)
                | Diverge \<Rightarrow> Diverge | Fault \<Rightarrow> Fault))
        else (case leader_loop s1 of
                Ret (out, gen, e) \<Rightarrow> Ret (sock_send_line line @ out, gen, e)
              | Diverge \<Rightarrow> Diverge | Fault \<Rightarrow> Fault))"
  by pat_completeness auto
termination
  by (relation "measure length") (auto dest!: recv_line_length recv_n_length)

declare leader_loop.simps [simp del]

subsection \<open>One request to the leader\<close>

text \<open>The variables the attempts share: full resend, reset session, retries, and what to send.\<close>

record attempt =
  at_sent :: bool
  at_fresh :: bool
  at_retry :: nat
  at_resume :: nat
  at_tokens :: "u32 list"

datatype outcome = Stop server bytes | Again server attempt bytes

definition sampling_args :: "(string \<Rightarrow> string) \<Rightarrow> string \<Rightarrow> string \<times> string" where
  "sampling_args fmt args =
     (case strstr args ''temp='' of
        None \<Rightarrow> (''1'', ''0.9'')
      | Some tp \<Rightarrow> (fmt (drop 5 tp), case strstr tp ''top_p='' of None \<Rightarrow> ''0.9'' | Some pp \<Rightarrow> fmt (drop 6 pp)))"

definition leader_request :: "sess_env \<Rightarrow> server \<Rightarrow> string \<Rightarrow> int \<Rightarrow> string \<Rightarrow> nat \<Rightarrow> u32 list \<Rightarrow> bytes" where
  "leader_request E s args max_tokens key resume st =
     (case sampling_args (en_fmt E) args of (temp, top_p) \<Rightarrow>
      frame_send ''INFER'' (snprintf_s 256
        (show_int max_tokens @ '' '' @ show_nat (unat (4 * word_of_nat (length st) :: u32)) @ '' key='' @ key
         @ '' resume='' @ show_nat resume @ '' seg=0 segs='' @ show_int (if sr_ranks s > 0 then sr_ranks s else 1)
         @ '' peers='' @ (if sr_peers s \<noteq> [] then sr_peers s else ''127.0.0.1'')
         @ '' temp='' @ temp @ '' top_p='' @ top_p))
      @ words_bytes st)"

fun append_all :: "(nat \<Rightarrow> bool) \<Rightarrow> nat \<Rightarrow> u32 list \<Rightarrow> sess_val \<Rightarrow> sess_val run" where
  "append_all mem now [] v = Ret v"
| "append_all mem now (t # ts) v = run_bind (sess_append mem v t now) (\<lambda>(rc, v). append_all mem now ts v)"

text \<open>\<open>DONE\<close>: the request's tokens, the generated ones and the end-of-sequence token enter the
  session, the client gets the line with the waiting time and the number of tokens, and the
  session file is written.\<close>

definition extend_entry :: "sess_env \<Rightarrow> bool \<Rightarrow> u32 list \<Rightarrow> u32 list \<Rightarrow> sess_val \<Rightarrow> sess_val run" where
  "extend_entry E replay tokens gen v =
     run_bind (if tokens \<noteq> [] \<and> \<not> replay then sess_commit (en_mem E) v tokens (en_now E) else Ret (0, v))
       (\<lambda>(_, v). run_bind (append_all (en_mem E) (en_now E) gen v)
       (\<lambda>v. if en_eos E \<ge> 0 then append_all (en_mem E) (en_now E) [word_of_int (en_eos E)] v else Ret v))"

definition done_line :: "string \<Rightarrow> u64 \<Rightarrow> sess_val \<Rightarrow> bytes" where
  "done_line line waited v = sock_send_line (snprintf_s SRV_MAX_LINE
     (line @ '' wait_ms='' @ show_nat (unat waited) @ '' '' @ show_nat (unat (sv_n v))))"

definition save_entry :: "sess_env \<Rightarrow> server \<Rightarrow> string \<Rightarrow> sess_val \<Rightarrow> string \<Rightarrow> bytes option" where
  "save_entry E s key v =
     (if sr_cache_dir s = [] then sr_disk s
      else (sr_disk s)(sess_path (sr_cache_dir s) key := Some (snd (sess_save (en_room E) v))))"

definition finish_session ::
  "sess_env \<Rightarrow> server \<Rightarrow> string \<Rightarrow> u64 \<Rightarrow> bool \<Rightarrow> u32 list \<Rightarrow> u32 list \<Rightarrow> string \<Rightarrow> (server \<times> bytes) run" where
  "finish_session E s key waited replay tokens gen line =
     (case sess_get (sr_sess s) key (en_now E) of
        (c, None) \<Rightarrow> Ret (s\<lparr>sr_sess := c\<rparr>, sock_send_line line)
      | (c, Some i) \<Rightarrow>
        run_bind (extend_entry E replay tokens gen (sc_v c ! i))
          (\<lambda>v. Ret (s\<lparr>sr_sess := set_entry c i v, sr_disk := save_entry E s key v\<rparr>, done_line line waited v)))"

text \<open>The new plan after an error line; \<open>full\<close> is what rendering the request again gives.\<close>

definition after_error ::
  "sess_env \<Rightarrow> server \<Rightarrow> string \<Rightarrow> u32 list \<Rightarrow> attempt \<Rightarrow> string \<Rightarrow> bytes \<Rightarrow> outcome" where
  "after_error E s key full a line out =
     (let rebuild = sess_err_needs_rebuild line in
      if rebuild \<and> \<not> at_sent a then Again (server_unlink_rank0_kv s key) (a\<lparr>at_sent := True\<rparr>) out
      else if rebuild \<and> \<not> at_fresh a then
        (let s = server_unlink_rank0_kv s key in
         case sess_get (sr_sess s) key (en_now E) of
           (c, None) \<Rightarrow> Stop (s\<lparr>sr_sess := c\<rparr>) (out @ sock_send_line ''ERR server: sess reset render failed'')
         | (c, Some i) \<Rightarrow>
             let s = s\<lparr>sr_sess := set_entry c i (sess_truncate (sc_v c ! i) 0 (en_now E)),
                       sr_disk := (if sr_cache_dir s = [] then sr_disk s
                                   else (sr_disk s)(sess_path (sr_cache_dir s) key := None))\<rparr> in
             if full = [] then Stop s (out @ sock_send_line ''ERR server: sess reset render failed'')
             else Again s (a\<lparr>at_tokens := full, at_fresh := True, at_resume := 0\<rparr>) out)
      else if \<not> at_sent a then Again s (a\<lparr>at_sent := True\<rparr>) out
      else if at_retry a < 5 then Again s (a\<lparr>at_retry := Suc (at_retry a)\<rparr>) out
      else Stop s (out @ sock_send_line line))"

text \<open>The tokens to send: the missing ones, or everything the session has and the missing ones.\<close>

definition payload :: "sess_env \<Rightarrow> server \<Rightarrow> string \<Rightarrow> attempt \<Rightarrow> (server \<times> u32 list) option" where
  "payload E s key a =
     (if at_sent a then
        (case sess_get (sr_sess s) key (en_now E) of
           (c, None) \<Rightarrow> None
         | (c, Some i) \<Rightarrow> Some (s\<lparr>sr_sess := c\<rparr>, sv_toks (sc_v c ! i) @ at_tokens a))
      else Some (s, at_tokens a))"

definition answered ::
  "sess_env \<Rightarrow> string \<Rightarrow> u32 list \<Rightarrow> u64 \<Rightarrow> bool \<Rightarrow> server \<Rightarrow> attempt \<Rightarrow> bool \<Rightarrow> bytes \<times> u32 list \<times> reply_end \<Rightarrow> outcome run" where
  "answered E key full waited replay s a closes r =
     (case r of (out, gen, e) \<Rightarrow>
        (case e of
           Silent \<Rightarrow> Ret (Stop s (out @ (if closes then [] else sock_send_line ''ERR server: leader timeout'')))
         | Gone \<Rightarrow> Ret (Stop s out)
         | Failed line \<Rightarrow> Ret (after_error E s key full a line out)
         | Finished line \<Rightarrow>
             run_bind (finish_session E s key waited replay (at_tokens a) gen line) (\<lambda>(s, fin). Ret (Stop s (out @ fin)))))"

text \<open>One connection to the leader: the request sent, if any, and the outcome.\<close>

definition one_attempt ::
  "sess_env \<Rightarrow> string \<Rightarrow> int \<Rightarrow> string \<Rightarrow> u32 list \<Rightarrow> u64 \<Rightarrow> bool \<Rightarrow> nat \<Rightarrow> server \<Rightarrow> attempt
   \<Rightarrow> (bytes list \<times> outcome) run" where
  "one_attempt E args max_tokens key full waited replay k s a =
     (case server_connect_leader (en_net E) s k of
        None \<Rightarrow> Ret ([], Stop s (sock_send_line ''ERR server: cannot connect leader''))
      | Some leader \<Rightarrow>
        (case payload E s key a of
           None \<Rightarrow> Ret ([], Stop s [])
         | Some (s, st) \<Rightarrow>
           let req = leader_request E s args max_tokens key (if at_sent a then 0 else at_resume a) st;
               (reply, closes) = leader req in
           run_bind (leader_loop reply) (\<lambda>r.
             run_bind (answered E key full waited replay s a closes r) (\<lambda>oc. Ret ([req], oc)))))"

lemma one_attempt_cases:
  assumes "one_attempt E args mt key full w replay k s a = Ret (rs, oc)"
  obtains (none) out where "rs = []" "oc = Stop s out"
  | (sent) leader t st req reply closes r where "server_connect_leader (en_net E) s k = Some leader"
      "payload E s key a = Some (t, st)" "req = leader_request E t args mt key (if at_sent a then 0 else at_resume a) st"
      "leader req = (reply, closes)" "leader_loop reply = Ret r" "answered E key full w replay t a closes r = Ret oc" "rs = [req]"
proof (cases "server_connect_leader (en_net E) s k")
  case None
  then show ?thesis using assms none by (auto simp: one_attempt_def)
next
  case (Some leader)
  show ?thesis
  proof (cases "payload E s key a")
    case None
    then show ?thesis using assms none Some by (auto simp: one_attempt_def)
  next
    case (Some p)
    obtain t st where p: "p = (t, st)" by (cases p)
    let ?req = "leader_request E t args mt key (if at_sent a then 0 else at_resume a) st"
    obtain reply closes where l: "leader ?req = (reply, closes)" by (cases "leader ?req")
    show ?thesis
      using assms \<open>server_connect_leader (en_net E) s k = Some leader\<close> Some p l sent[of leader t st ?req reply closes]
      by (auto simp: one_attempt_def run_bind_Ret)
  qed
qed

definition attempts_left :: "attempt \<Rightarrow> nat" where
  "attempts_left a = (if at_sent a then 0 else 1) + (if at_fresh a then 0 else 1) + (5 - at_retry a)"

lemma after_error_left: "after_error E s key full a line out = Again s' a' out' \<Longrightarrow> attempts_left a' < attempts_left a"
  by (auto simp: after_error_def attempts_left_def Let_def split: if_splits prod.splits option.splits)

lemma answered_Again:
  assumes "answered E key full w replay s a closes (out, gen, e) = Ret (Again s' a' out')"
  obtains line where "e = Failed line" "after_error E s key full a line out = Again s' a' out'"
  using assms by (cases e) (auto simp: answered_def run_bind_Ret)

lemma one_attempt_left:
  "one_attempt E args mt key full w replay k s a = Ret (rs, Again s' a' out) \<Longrightarrow> attempts_left a' < attempts_left a"
  by (erule one_attempt_cases) (auto elim: answered_Again dest: after_error_left)

function infer_attempts ::
  "sess_env \<Rightarrow> string \<Rightarrow> int \<Rightarrow> string \<Rightarrow> u32 list \<Rightarrow> u64 \<Rightarrow> bool \<Rightarrow> nat \<Rightarrow> server \<Rightarrow> attempt
   \<Rightarrow> (server \<times> bytes \<times> bytes list) run" where
  "infer_attempts E args mt key full w replay k s a =
     (case one_attempt E args mt key full w replay k s a of
        Ret (rs, Stop s' out) \<Rightarrow> Ret (s', out, rs)
      | Ret (rs, Again s' a' out) \<Rightarrow>
          (case infer_attempts E args mt key full w replay (Suc k) s' a' of
             Ret (s'', out2, rs2) \<Rightarrow> Ret (s'', out @ out2, rs @ rs2) | Diverge \<Rightarrow> Diverge | Fault \<Rightarrow> Fault)
      | Diverge \<Rightarrow> Diverge | Fault \<Rightarrow> Fault)"
  by pat_completeness auto
termination
  by (relation "measure (\<lambda>(E, args, mt, key, full, w, replay, k, s, a). attempts_left a)") (auto dest: one_attempt_left)

declare infer_attempts.simps [simp del]

subsection \<open>The request\<close>

text \<open>The tokens of the request: of its message list, or of the whole text as one user message.\<close>

definition request_tokens :: "sess_env \<Rightarrow> bytes \<Rightarrow> u32 list run" where
  "request_tokens E msg =
     run_bind (if en_mem E (length msg + SESS_MSG_MAX * 8 + 8) then parse_sess_msgs msg else Ret None) (\<lambda>r.
       Ret (case r of Some ms \<Rightarrow> en_ids E ms | None \<Rightarrow> en_ids E [(''user'', cstr msg)]))"

text \<open>The part of a request that runs with the tokens \<open>full\<close> under \<open>infer_lock\<close>.\<close>

definition session_turn ::
  "sess_env \<Rightarrow> server \<Rightarrow> string \<Rightarrow> int \<Rightarrow> string \<Rightarrow> u32 list \<Rightarrow> u64 \<Rightarrow> (server \<times> bytes \<times> bytes list) run" where
  "session_turn E s args max_tokens key full waited =
     run_bind (open_session E s key full) (\<lambda>(c, key, resume).
       let s = s\<lparr>sr_sess := c\<rparr> in
       if full = [] then Ret (s, sock_send_line ''ERR server: render failed'', [])
       else case plan_tokens full resume of (r, tokens, replay) \<Rightarrow>
         if tokens = [] then Ret (s, sock_send_line ''ERR server: render failed'', [])
         else infer_attempts E args max_tokens key full waited replay 0 s
                \<lparr>at_sent = False, at_fresh = False, at_retry = 0, at_resume = r, at_tokens = tokens\<rparr>)"

text \<open>The checks before the request queues: the error line, or the token limit, the key and the
  message.\<close>

definition read_request :: "sess_env \<Rightarrow> server \<Rightarrow> string \<Rightarrow> bytes \<Rightarrow> bytes + int \<times> string \<times> bytes" where
  "read_request E s args client =
     (case (case scan_int args of None \<Rightarrow> None
            | Some (mt, r) \<Rightarrow> (case scan_int r of None \<Rightarrow> None | Some _ \<Rightarrow> Some (mt, atol r))) of
        None \<Rightarrow> Inl (sock_send_line ''ERR bad INFER_SESS args'')
      | Some (max_tokens, nbytes) \<Rightarrow>
        if max_tokens \<le> 0 \<or> nbytes < 0 then Inl (sock_send_line ''ERR bad INFER_SESS args'')
        else if \<not> sr_vocab_ok s then Inl (sock_send_line ''ERR server: session vocab not loaded'')
        else if \<not> en_mem E (nat nbytes + 1) then Inl (sock_send_line ''ERR server: oom'')
        else case recv_n (nat nbytes) client of
          None \<Rightarrow> Inl []
        | Some (msg, _) \<Rightarrow> Inr (max_tokens, copy_named_arg args ''key='' 128, msg))"

text \<open>\<open>forward_infer_sess\<close>: the arguments of the frame, the bytes that follow it and the time the
  request waited for \<open>infer_lock\<close>. Result: the state, the bytes sent to the client and the
  requests sent to the leader.\<close>

definition forward_infer_sess ::
  "sess_env \<Rightarrow> server \<Rightarrow> string \<Rightarrow> bytes \<Rightarrow> u64 \<Rightarrow> (server \<times> bytes \<times> bytes list) run" where
  "forward_infer_sess E s args client waited =
     (case read_request E s args client of
        Inl out \<Rightarrow> Ret (s, out, [])
      | Inr (max_tokens, key, msg) \<Rightarrow>
          run_bind (request_tokens E msg) (\<lambda>full. session_turn E s args max_tokens key full waited))"

end
