(* ===== verification/SessTurn.thy ===== *)
theory SessTurn
  imports ServerSess
begin

text \<open>
  Properties of session inference: how many requests one client request can cost, what a
  successful turn leaves in the session table and sends to the leader, and what any other
  outcome leaves.
\<close>

subsection \<open>The number of requests to the leader\<close>

lemma one_attempt_reqs: "one_attempt E args mt key full w replay k s a = Ret (rs, oc) \<Longrightarrow> length rs \<le> 1"
  by (erule one_attempt_cases) simp_all

lemma infer_attempts_reqs:
  "infer_attempts E args mt key full w replay k s a = Ret (s', out, rs) \<Longrightarrow> length rs \<le> Suc (attempts_left a)"
proof (induction E args mt key full w replay k s a arbitrary: s' out rs rule: infer_attempts.induct)
  case (1 E args mt key full w replay k s a)
  obtain r1 oc where o: "one_attempt E args mt key full w replay k s a = Ret (r1, oc)"
    using "1.prems" by (subst (asm) infer_attempts.simps) (auto split: run.splits prod.splits)
  have l: "length r1 \<le> 1" by (rule one_attempt_reqs[OF o])
  show ?case
  proof (cases oc)
    case (Stop s1 o1)
    then show ?thesis using "1.prems" o l by (subst (asm) infer_attempts.simps) simp
  next
    case (Again s1 a1 o1)
    have o': "one_attempt E args mt key full w replay k s a = Ret (r1, Again s1 a1 o1)" using o Again by simp
    obtain out2 rs2 where i: "infer_attempts E args mt key full w replay (Suc k) s1 a1 = Ret (s', out2, rs2)" "rs = r1 @ rs2"
      using "1.prems" o' by (subst (asm) infer_attempts.simps) (auto split: run.splits prod.splits)
    have "length rs2 \<le> Suc (attempts_left a1)" using "1.IH"[OF o' refl refl i(1)] .
    then show ?thesis using one_attempt_left[OF o'] l i(2) by simp
  qed
qed

text \<open>C31: However the leader answers, one session request is sent to it at most 8 times (first try,
  full resend, reset session, five retries), and then the client's connection is finished.\<close>

theorem session_requests_bounded:
  "case forward_infer_sess E s args client waited of Ret (s', out, reqs) \<Rightarrow> length reqs \<le> 8 | _ \<Rightarrow> True"
proof (cases "forward_infer_sess E s args client waited")
  case (Ret r)
  obtain s' out reqs where r: "r = (s', out, reqs)" by (cases r)
  have i: "length reqs \<le> 8"
    if "infer_attempts E args mt key full waited replay 0 t
          \<lparr>at_sent = False, at_fresh = False, at_retry = 0, at_resume = n, at_tokens = ts\<rparr> = Ret (s', out, reqs)"
    for mt key full replay t n ts
    using infer_attempts_reqs[OF that] by (simp add: attempts_left_def)
  have b: "length reqs \<le> 8" if st: "session_turn E s args mt key full waited = Ret (s', out, reqs)" for mt key full
  proof -
    obtain x where x: "open_session E s key full = Ret x"
      using st unfolding session_turn_def by (cases "open_session E s key full") simp_all
    obtain c key' resume where "x = (c, key', resume)" by (cases x)
    with x have o: "open_session E s key full = Ret (c, key', resume)" by simp
    obtain n ts rp where p: "plan_tokens full resume = (n, ts, rp)" by (cases "plan_tokens full resume")
    show ?thesis
      using st unfolding session_turn_def o run_bind.simps prod.case Let_def p by (auto split: if_splits dest: i)
  qed
  show ?thesis
    using Ret r unfolding forward_infer_sess_def
    by (auto simp: run_bind_Ret split: sum.splits dest: b)
qed simp_all

subsection \<open>Extending an entry\<close>

abbreviation all_mem :: "nat \<Rightarrow> bool" where "all_mem \<equiv> \<lambda>_. True"

lemma grow_all: "sess_grow all_mem v need = Ret (rc, v') \<Longrightarrow> rc = 0"
  by (auto simp: sess_grow_def split: if_splits option.splits)

lemma commit_all: "sess_commit all_mem v tok now = Ret (rc, v') \<Longrightarrow> rc = 0"
  by (auto simp: sess_commit_def run_bind_Ret split: if_splits dest: grow_all)

lemma append_commit: "sess_append mem v t now = sess_commit mem v [t] now"
proof -
  have l: "length [t] = 1" by simp
  show ?thesis unfolding sess_append_def sess_commit_def l of_nat_1 ..
qed

lemma commit_total:
  assumes "sv_inv v" "length (sv_toks v) + length tok \<le> 2 ^ 31"
  obtains v' where "sess_commit all_mem v tok now = Ret (0, v')" "sv_inv v'" "sv_toks v' = sv_toks v @ tok" "sv_key v' = sv_key v"
proof (rule sess_commit_cases[OF assms, of all_mem now])
  assume "sess_commit all_mem v tok now = Ret (-1, v)"
  then have "(-1 :: int) = 0" by (rule commit_all)
  then show ?thesis by simp
next
  fix nc
  assume "sess_commit all_mem v tok now = Ret (0, v\<lparr>sv_cap := nc, sv_toks := sv_toks v @ tok, sv_last := now\<rparr>)"
    "sv_inv (v\<lparr>sv_cap := nc, sv_toks := sv_toks v @ tok, sv_last := now\<rparr>)"
  then show ?thesis by (rule that) simp_all
qed

lemma commit_Ret:
  assumes "sv_inv v" "length tok \<le> 65536" "sess_commit all_mem v tok now = Ret (rc, v')"
  shows "sv_inv v' \<and> sv_toks v' = sv_toks v @ tok \<and> sv_key v' = sv_key v"
proof (cases "length (sv_toks v) + length tok \<le> 2 ^ 31")
  case True
  obtain u where "sess_commit all_mem v tok now = Ret (0, u)" "sv_inv u" "sv_toks u = sv_toks v @ tok" "sv_key u = sv_key v"
    using commit_total[OF assms(1) True] by metis
  then show ?thesis using assms(3) by simp
next
  case False
  have "length (sv_toks v) + length tok < 2 ^ 32" using sv_inv_length[OF assms(1)] assms(2) by simp
  moreover have "sv_n v + word_of_nat (length tok) = (word_of_nat (length (sv_toks v) + length tok) :: u32)"
    by (simp add: sv_n_def)
  ultimately have "unat (sv_n v + word_of_nat (length tok)) = length (sv_toks v) + length tok"
    by (simp only: unat_of_nat) simp
  then have "sess_grow all_mem v (sv_n v + word_of_nat (length tok)) = Diverge"
    using False by (intro sess_grow_diverges[OF assms(1)]) simp
  then show ?thesis using assms(3) by (simp add: sess_commit_def)
qed

lemma append_all_Ret:
  "sv_inv v \<Longrightarrow> append_all all_mem now ts v = Ret v' \<Longrightarrow>
   sv_inv v' \<and> sv_toks v' = sv_toks v @ ts \<and> sv_key v' = sv_key v"
proof (induction ts arbitrary: v)
  case (Cons t ts)
  obtain rc u where u: "sess_commit all_mem v [t] now = Ret (rc, u)" "append_all all_mem now ts u = Ret v'"
    using Cons.prems(2) by (auto simp: run_bind_Ret append_commit)
  have "sv_inv u \<and> sv_toks u = sv_toks v @ [t] \<and> sv_key u = sv_key v"
    using commit_Ret[OF Cons.prems(1) _ u(1)] by simp
  then show ?case using Cons.IH[OF _ u(2)] by simp
qed simp

lemma append_all_total:
  "sv_inv v \<Longrightarrow> length (sv_toks v) + length ts \<le> 2 ^ 31 \<Longrightarrow> \<exists>v'. append_all all_mem now ts v = Ret v'"
proof (induction ts arbitrary: v)
  case (Cons t ts)
  have "length (sv_toks v) + length [t] \<le> 2 ^ 31" using Cons.prems(2) by simp
  then obtain u where u: "sess_commit all_mem v [t] now = Ret (0, u)" "sv_inv u" "sv_toks u = sv_toks v @ [t]" "sv_key u = sv_key v"
    using commit_total[OF Cons.prems(1)] by metis
  then show ?case using Cons.IH[OF u(2)] Cons.prems(2) by (simp add: append_commit)
qed simp

definition eos_toks :: "sess_env \<Rightarrow> u32 list" where
  "eos_toks E = (if en_eos E \<ge> 0 then [word_of_int (en_eos E)] else [])"

definition kept_toks :: "bool \<Rightarrow> u32 list \<Rightarrow> u32 list" where
  "kept_toks replay tokens = (if replay then [] else tokens)"

lemma extend_Ret:
  assumes "sv_inv v" "en_mem E = all_mem" "length tokens \<le> 65536" "extend_entry E replay tokens gen v = Ret v'"
  shows "sv_inv v' \<and> sv_toks v' = sv_toks v @ kept_toks replay tokens @ gen @ eos_toks E \<and> sv_key v' = sv_key v"
proof -
  obtain rc v1 v2 where v: "(if tokens \<noteq> [] \<and> \<not> replay then sess_commit all_mem v tokens (en_now E) else Ret (0, v)) = Ret (rc, v1)"
    "append_all all_mem (en_now E) gen v1 = Ret v2" "append_all all_mem (en_now E) (eos_toks E) v2 = Ret v'"
    using assms(4) unfolding extend_entry_def assms(2)
    by (auto simp: run_bind_Ret eos_toks_def split: if_splits)
  have 1: "sv_inv v1 \<and> sv_toks v1 = sv_toks v @ kept_toks replay tokens \<and> sv_key v1 = sv_key v"
    using v(1) assms(1) commit_Ret[OF assms(1,3), of "en_now E" rc v1] by (auto simp: kept_toks_def split: if_splits)
  have 2: "sv_inv v2 \<and> sv_toks v2 = sv_toks v1 @ gen \<and> sv_key v2 = sv_key v1"
    by (rule append_all_Ret) (use 1 v(2) in auto)
  have 3: "sv_inv v' \<and> sv_toks v' = sv_toks v2 @ eos_toks E \<and> sv_key v' = sv_key v2"
    by (rule append_all_Ret) (use 2 v(3) in auto)
  show ?thesis using 1 2 3 by simp
qed

lemma extend_total:
  assumes "sv_inv v" "en_mem E = all_mem" "length tokens \<le> 65536"
    "length (sv_toks v) + length (kept_toks replay tokens) + length gen + 1 \<le> 2 ^ 31"
  shows "\<exists>v'. extend_entry E replay tokens gen v = Ret v'"
proof -
  have "\<exists>rc v1. (if tokens \<noteq> [] \<and> \<not> replay then sess_commit all_mem v tokens (en_now E) else Ret (0, v)) = Ret (rc, v1)"
  proof (cases "tokens \<noteq> [] \<and> \<not> replay")
    case True
    then have "length (sv_toks v) + length tokens \<le> 2 ^ 31" using assms(4) by (simp add: kept_toks_def)
    then obtain u where "sess_commit all_mem v tokens (en_now E) = Ret (0, u)"
      by (rule commit_total[OF assms(1)])
    then show ?thesis using True by simp
  qed auto
  then obtain rc v1 where v1: "(if tokens \<noteq> [] \<and> \<not> replay then sess_commit all_mem v tokens (en_now E) else Ret (0, v)) = Ret (rc, v1)" by blast
  have 1: "sv_inv v1 \<and> sv_toks v1 = sv_toks v @ kept_toks replay tokens"
    using v1 assms(1) commit_Ret[OF assms(1,3), of "en_now E" rc v1] by (auto simp: kept_toks_def split: if_splits)
  obtain v2 where v2: "append_all all_mem (en_now E) gen v1 = Ret v2"
    using append_all_total[of v1 gen "en_now E"] 1 assms(4) by auto
  have 2: "sv_inv v2 \<and> sv_toks v2 = sv_toks v1 @ gen" using append_all_Ret[OF _ v2] 1 by simp
  obtain v3 where v3: "append_all all_mem (en_now E) (eos_toks E) v2 = Ret v3"
  proof -
    have "length (eos_toks E) \<le> 1" by (simp add: eos_toks_def)
    then show ?thesis using append_all_total[of v2 "eos_toks E" "en_now E"] 1 2 assms(4) that by auto
  qed
  have "(if en_eos E \<ge> 0 then append_all all_mem (en_now E) [word_of_int (en_eos E)] v2 else Ret v2) = Ret v3"
    using v3 by (auto simp: eos_toks_def split: if_splits)
  then show ?thesis unfolding extend_entry_def assms(2) v1 run_bind.simps prod.case v2 by blast
qed

lemma finish_Ret:
  assumes "sc_inv (sr_sess s)" "sc_tab (sr_sess s) key = Some t" "en_mem E = all_mem" "length tokens \<le> 65536"
    "finish_session E s key w replay tokens gen line = Ret (s', out)"
  shows "sc_inv (sr_sess s') \<and>
    sc_tab (sr_sess s') = (sc_tab (sr_sess s))(key \<mapsto> t @ kept_toks replay tokens @ gen @ eos_toks E)"
proof -
  obtain c i where g: "sess_get (sr_sess s) key (en_now E) = (c, Some i)" "sc_inv c" "sc_tab c = sc_tab (sr_sess s)"
    "i < length (sc_v c)" "sv_key (sc_v c ! i) = key" "sv_toks (sc_v c ! i) = t" "sv_inv (sc_v c ! i)"
    by (rule sess_get_hit[OF assms(1,2)])
  obtain v where v: "extend_entry E replay tokens gen (sc_v c ! i) = Ret v" "sr_sess s' = set_entry c i v"
    using assms(5) by (auto simp: finish_session_def g(1) run_bind_Ret)
  have e: "sv_inv v" "sv_toks v = t @ kept_toks replay tokens @ gen @ eos_toks E" "sv_key v = key"
    using extend_Ret[OF g(7) assms(3,4) v(1)] g(5,6) by simp_all
  have "sc_inv (set_entry c i v)" by (rule inv_set_entry[OF g(2,4) e(1)]) (use e(3) g(5) in simp)
  moreover have "sc_tab (set_entry c i v) = (sc_tab c)(sv_key (sc_v c ! i) := None, sv_key v \<mapsto> sv_toks v)"
    by (rule tab_set_entry[OF g(2,4)]) (use e(3) g(5) in simp)
  ultimately show ?thesis using v(2) e(2,3) g(3,5) by simp
qed

lemma finish_total:
  assumes "sc_inv (sr_sess s)" "sc_tab (sr_sess s) key = Some t" "en_mem E = all_mem" "length tokens \<le> 65536"
    "length t + length (kept_toks replay tokens) + length gen + 1 \<le> 2 ^ 31"
  shows "\<exists>s'. finish_session E s key w replay tokens gen line = Ret (s', sock_send_line (snprintf_s SRV_MAX_LINE
     (line @ '' wait_ms='' @ show_nat (unat w) @ '' ''
      @ show_nat (length (t @ kept_toks replay tokens @ gen @ eos_toks E)))))"
proof -
  obtain c i where g: "sess_get (sr_sess s) key (en_now E) = (c, Some i)" "sc_inv c" "sc_tab c = sc_tab (sr_sess s)"
    "i < length (sc_v c)" "sv_key (sc_v c ! i) = key" "sv_toks (sc_v c ! i) = t" "sv_inv (sc_v c ! i)"
    by (rule sess_get_hit[OF assms(1,2)])
  obtain v where v: "extend_entry E replay tokens gen (sc_v c ! i) = Ret v"
    using extend_total[OF g(7) assms(3,4), of replay gen] assms(5) g(6) by auto
  have e: "sv_inv v" "sv_toks v = t @ kept_toks replay tokens @ gen @ eos_toks E"
    using extend_Ret[OF g(7) assms(3,4) v] g(5,6) by simp_all
  show ?thesis
    unfolding finish_session_def g(1) prod.case option.case v run_bind.simps done_line_def unat_sv_n[OF e(1)] e(2) by blast
qed

subsection \<open>Finding the session\<close>

lemma sess_lcp_inv: "sv_inv v \<Longrightarrow> sess_lcp v full eos = common (strip_eos eos (sv_toks v)) full"
  by (auto simp: sess_lcp_def sv_inv_def strip_eos_def)

lemma strip_eos_length: "length (strip_eos eos t) \<le> length t"
  by (simp add: strip_eos_def)

lemma take_strip_eos: "k \<le> length (strip_eos eos t) \<Longrightarrow> take k (strip_eos eos t) = take k t"
  by (cases t rule: rev_cases) (auto simp: strip_eos_def)

definition known_prefix :: "sess_env \<Rightarrow> u32 list \<Rightarrow> u32 list \<Rightarrow> nat" where
  "known_prefix E old full = common (strip_eos (en_eos E) old) full"

lemma known_prefix_take: "take (known_prefix E old full) old = take (known_prefix E old full) full"
  using common_take[of "strip_eos (en_eos E) old" full] common_le(1)[of "strip_eos (en_eos E) old" full]
    take_strip_eos[of "known_prefix E old full" "en_eos E" old]
  by (simp add: known_prefix_def)

lemma known_prefix_le: "known_prefix E old full \<le> length full"
  by (simp add: known_prefix_def common_le)

lemma cut_entry_spec:
  assumes "sc_inv c" "i < length (sc_v c)"
  shows "sc_inv (cut_entry c i l now) \<and>
    sc_tab (cut_entry c i l now) = (sc_tab c)(sv_key (sc_v c ! i) \<mapsto> take l (sv_toks (sc_v c ! i)))"
proof (cases "l < length (sv_toks (sc_v c ! i))")
  case True
  let ?v = "sess_truncate (sc_v c ! i) l now"
  have v: "sv_key ?v = sv_key (sc_v c ! i)" "sv_toks ?v = take l (sv_toks (sc_v c ! i))" "sv_inv ?v"
  proof -
    have "sv_inv (sc_v c ! i)" using assms by (simp add: sc_inv_def)
    then show "sv_inv ?v" by (auto simp: sess_truncate_def sv_inv_def)
  qed (simp_all add: sess_truncate_def)
  have "sc_inv (set_entry c i ?v)" by (rule inv_set_entry[OF assms v(3)]) (use v in simp)
  moreover have "sc_tab (set_entry c i ?v) = (sc_tab c)(sv_key (sc_v c ! i) := None, sv_key ?v \<mapsto> sv_toks ?v)"
    by (rule tab_set_entry[OF assms]) (use v in simp)
  ultimately show ?thesis using True v by (simp add: cut_entry_def)
next
  case False
  then show ?thesis using assms tab_nth[OF assms] by (auto simp: cut_entry_def fun_eq_iff)
qed

lemma open_session_spec:
  assumes "sc_inv (sr_sess s)" "key \<noteq> []" "length key < 128" "full \<noteq> []"
    "old = (case sc_tab (sr_sess s) key of Some t \<Rightarrow> t | None \<Rightarrow> [])"
    "sc_tab (sr_sess s) key \<noteq> None \<or> sr_cache_dir s = []"
  shows "\<exists>c. open_session E s key full = Ret (c, key, known_prefix E old full) \<and> sc_inv c
    \<and> sc_tab c key = Some (take (known_prefix E old full) full)
    \<and> (sc_tab (sr_sess s) key \<noteq> None \<longrightarrow> sc_tab c = (sc_tab (sr_sess s))(key \<mapsto> take (known_prefix E old full) full))"
proof -
  have "\<exists>c i r. (case sess_get (sr_sess s) key (en_now E) of (c, Some i) \<Rightarrow> Ret (c, i, 0) | (c, None) \<Rightarrow> put_entry E s c key)
        = Ret (c, i, r) \<and> sc_inv c \<and> i < length (sc_v c) \<and> sv_key (sc_v c ! i) = key \<and> sv_toks (sc_v c ! i) = old
        \<and> (sc_tab (sr_sess s) key \<noteq> None \<longrightarrow> sc_tab c = sc_tab (sr_sess s))"
  proof (cases "sc_tab (sr_sess s) key")
    case (Some t)
    obtain c i where g: "sess_get (sr_sess s) key (en_now E) = (c, Some i)" "sc_inv c" "sc_tab c = sc_tab (sr_sess s)"
      "i < length (sc_v c)" "sv_key (sc_v c ! i) = key" "sv_toks (sc_v c ! i) = t" "sv_inv (sc_v c ! i)"
      by (rule sess_get_hit[OF assms(1) Some])
    then show ?thesis using Some assms(5) by simp
  next
    case None
    have g: "sess_get (sr_sess s) key (en_now E) = (sr_sess s, None)"
      using find_key_None[of key "sr_sess s"] None by (simp add: sess_get_def)
    obtain c i where p: "sess_put (sr_sess s) key (en_now E) = (c, i)" by fastforce
    have inv: "sc_inv c" using sess_put_inv[OF assms(1,3), of "en_now E"] p by simp
    have e: "i < length (sc_v c)" "sc_v c ! i = fresh_val key (en_now E)"
      using p g lru_old_in[OF assms(1)]
      by (auto simp: sess_put_def sess_new_def Let_def split: if_splits prod.splits)
    have "set_entry c i (sc_v c ! i) = c" by (simp add: set_entry_def)
    then have "put_entry E s (sr_sess s) key = Ret (c, i, 0)"
      using assms(6) None by (simp add: put_entry_def p sess_try_disk_def)
    then show ?thesis using g inv e None assms(3,5) by (simp add: fresh_val_def)
  qed
  then obtain c i r where c: "(case sess_get (sr_sess s) key (en_now E) of (c, Some i) \<Rightarrow> Ret (c, i, 0) | (c, None) \<Rightarrow> put_entry E s c key)
        = Ret (c, i, r)" "sc_inv c" "i < length (sc_v c)" "sv_key (sc_v c ! i) = key" "sv_toks (sc_v c ! i) = old"
        "sc_tab (sr_sess s) key \<noteq> None \<longrightarrow> sc_tab c = sc_tab (sr_sess s)" by blast
  have "sv_inv (sc_v c ! i)" using c(2,3) by (simp add: sc_inv_def)
  then have l: "sess_lcp (sc_v c ! i) full (en_eos E) = known_prefix E old full"
    by (simp add: sess_lcp_inv c(5) known_prefix_def)
  have "open_session E s key full = Ret (cut_entry c i (known_prefix E old full) (en_now E), key, known_prefix E old full)"
    using assms(2,4) by (simp add: open_session_def Let_def c(1) l)
  then show ?thesis
    using cut_entry_spec[OF c(2,3), of "known_prefix E old full" "en_now E"] c(4-6) known_prefix_take[of E old full] by simp
qed

lemma plan_spec:
  assumes "full \<noteq> []" "m \<le> length full"
  shows "plan_tokens full m = (min m (length full - 1), drop (min m (length full - 1)) full, m = length full)"
proof (cases "m = length full")
  case True
  then have "drop (m - 1) full = [full ! (m - 1)]"
    using assms(1) Cons_nth_drop_Suc[of "m - 1" full] by simp
  then show ?thesis using True assms(1) by (simp add: plan_tokens_def Let_def)
next
  case False
  then show ?thesis using assms by (simp add: plan_tokens_def Let_def)
qed

lemma leader_request_sess [simp]: "leader_request E (s\<lparr>sr_sess := c\<rparr>) = leader_request E s"
  by (simp add: leader_request_def fun_eq_iff)

lemma connect_sess [simp]: "server_connect_leader net (s\<lparr>sr_sess := c\<rparr>) = server_connect_leader net s"
  by (rule ext) (simp add: server_connect_leader_def split: option.split)

text \<open>What the turn starts from: the table with the session cut to the common prefix.\<close>

lemma session_turn_start:
  assumes "sc_inv (sr_sess s)" "key \<noteq> []" "length key < 128" "full \<noteq> []"
    "old = (case sc_tab (sr_sess s) key of Some t \<Rightarrow> t | None \<Rightarrow> [])"
    "sc_tab (sr_sess s) key \<noteq> None \<or> sr_cache_dir s = []"
    "m = known_prefix E old full" "r = min m (length full - 1)"
  obtains c where "sc_inv c" "sc_tab c key = Some (take m full)"
    "sc_tab (sr_sess s) key \<noteq> None \<longrightarrow> sc_tab c = (sc_tab (sr_sess s))(key \<mapsto> take m full)"
    "session_turn E s args mt key full w = infer_attempts E args mt key full w (m = length full) 0 (s\<lparr>sr_sess := c\<rparr>)
       \<lparr>at_sent = False, at_fresh = False, at_retry = 0, at_resume = r, at_tokens = drop r full\<rparr>"
proof -
  obtain c where c: "open_session E s key full = Ret (c, key, m)" "sc_inv c" "sc_tab c key = Some (take m full)"
    "sc_tab (sr_sess s) key \<noteq> None \<longrightarrow> sc_tab c = (sc_tab (sr_sess s))(key \<mapsto> take m full)"
    using open_session_spec[OF assms(1-6), of E] assms(7) by auto
  have m: "m \<le> length full" using known_prefix_le assms(7) by simp
  have "r < length full" using assms(4,8) by (cases full) auto
  then have d: "drop r full \<noteq> []" by simp
  have "session_turn E s args mt key full w = infer_attempts E args mt key full w (m = length full) 0 (s\<lparr>sr_sess := c\<rparr>)
       \<lparr>at_sent = False, at_fresh = False, at_retry = 0, at_resume = r, at_tokens = drop r full\<rparr>"
    unfolding session_turn_def c(1) run_bind.simps prod.case Let_def plan_spec[OF assms(4) m] assms(8)[symmetric]
    using assms(4) d by simp
  then show ?thesis using that[OF c(2-4)] by blast
qed

lemma session_turn_done:
  assumes "sc_inv (sr_sess s)" "key \<noteq> []" "length key < 128" "full \<noteq> []" "length full \<le> 65536"
    and "old = (case sc_tab (sr_sess s) key of Some t \<Rightarrow> t | None \<Rightarrow> [])"
    and "sc_tab (sr_sess s) key \<noteq> None \<or> sr_cache_dir s = []"
    and "m = known_prefix E old full" "r = min m (length full - 1)"
    and "en_mem E = all_mem" "server_connect_leader (en_net E) s 0 = Some leader"
    and "leader (leader_request E s args mt key r (drop r full)) = (reply, closes)"
    and "leader_loop reply = Ret (out, gen, Finished line)" "length gen \<le> 2 ^ 30"
  shows "\<exists>s'. session_turn E s args mt key full w = Ret (s',
        out @ sock_send_line (snprintf_s SRV_MAX_LINE (line @ '' wait_ms='' @ show_nat (unat w) @ '' ''
                @ show_nat (length (full @ gen @ eos_toks E)))),
        [leader_request E s args mt key r (drop r full)])
    \<and> sc_inv (sr_sess s') \<and> sc_tab (sr_sess s') key = Some (full @ gen @ eos_toks E)
    \<and> (sc_tab (sr_sess s) key \<noteq> None \<longrightarrow> sc_tab (sr_sess s') = (sc_tab (sr_sess s))(key \<mapsto> full @ gen @ eos_toks E))"
proof -
  obtain c where c: "sc_inv c" "sc_tab c key = Some (take m full)"
    "sc_tab (sr_sess s) key \<noteq> None \<longrightarrow> sc_tab c = (sc_tab (sr_sess s))(key \<mapsto> take m full)"
    "session_turn E s args mt key full w = infer_attempts E args mt key full w (m = length full) 0 (s\<lparr>sr_sess := c\<rparr>)
       \<lparr>at_sent = False, at_fresh = False, at_retry = 0, at_resume = r, at_tokens = drop r full\<rparr>"
    using session_turn_start[OF assms(1-4,6-9)] by blast
  define s1 where "s1 = s\<lparr>sr_sess := c\<rparr>"
  define a where "a = \<lparr>at_sent = False, at_fresh = False, at_retry = 0, at_resume = r, at_tokens = drop r full\<rparr>"
  define rp where "rp = (m = length full)"
  have m: "m \<le> length full" using known_prefix_le assms(8) by simp
  have toks: "take m full @ kept_toks rp (drop r full) @ x = full @ x" for x
    using m assms(9) by (auto simp: kept_toks_def rp_def min_def)
  have s1: "sc_inv (sr_sess s1)" "sc_tab (sr_sess s1) key = Some (take m full)" using c(1,2) by (simp_all add: s1_def)
  have bnd: "length (take m full) + length (kept_toks rp (drop r full)) + length gen + 1 \<le> 2 ^ 31"
  proof -
    have "length (take m full) \<le> 65536" "length (kept_toks rp (drop r full)) \<le> 65536"
      using assms(5) by (auto simp: kept_toks_def)
    then show ?thesis using assms(14) by simp
  qed
  have ld: "length (drop r full) \<le> 65536" using assms(5) by simp
  obtain s' where f: "finish_session E s1 key w rp (drop r full) gen line = Ret (s', sock_send_line (snprintf_s SRV_MAX_LINE
     (line @ '' wait_ms='' @ show_nat (unat w) @ '' ''
      @ show_nat (length (take m full @ kept_toks rp (drop r full) @ gen @ eos_toks E)))))"
    using finish_total[OF s1 assms(10) ld bnd, of w line] by blast
  note fr = finish_Ret[OF s1 assms(10) ld f]
  have p: "payload E s1 key a = Some (s1, drop r full)" by (simp add: payload_def a_def)
  have rq: "leader_request E s1 args mt key (if at_sent a then 0 else at_resume a) (drop r full)
      = leader_request E s args mt key r (drop r full)" by (simp add: a_def s1_def)
  have an: "answered E key full w rp s1 a closes (out, gen, Finished line)
      = Ret (Stop s' (out @ sock_send_line (snprintf_s SRV_MAX_LINE
     (line @ '' wait_ms='' @ show_nat (unat w) @ '' ''
      @ show_nat (length (take m full @ kept_toks rp (drop r full) @ gen @ eos_toks E))))))"
    unfolding answered_def prod.case reply_end.case
    by (simp only: a_def attempt.select_convs f run_bind.simps prod.case)
  have cn: "server_connect_leader (en_net E) s1 0 = Some leader" using assms(11) by (simp add: s1_def)
  have "one_attempt E args mt key full w rp 0 s1 a = Ret ([leader_request E s args mt key r (drop r full)],
      Stop s' (out @ sock_send_line (snprintf_s SRV_MAX_LINE
     (line @ '' wait_ms='' @ show_nat (unat w) @ '' ''
      @ show_nat (length (take m full @ kept_toks rp (drop r full) @ gen @ eos_toks E))))))"
    unfolding one_attempt_def cn option.case p prod.case Let_def rq assms(12,13) run_bind.simps an by simp
  then have "session_turn E s args mt key full w = Ret (s',
        out @ sock_send_line (snprintf_s SRV_MAX_LINE (line @ '' wait_ms='' @ show_nat (unat w) @ '' ''
                @ show_nat (length (full @ gen @ eos_toks E)))),
        [leader_request E s args mt key r (drop r full)])"
    unfolding c(4) s1_def[symmetric] a_def[symmetric] rp_def[symmetric]
    by (subst infer_attempts.simps) (simp only: run.case prod.case outcome.case toks)
  moreover have "sc_inv (sr_sess s') \<and> sc_tab (sr_sess s') = (sc_tab c)(key \<mapsto> full @ gen @ eos_toks E)"
    using fr by (simp only: toks) (simp add: s1_def)
  ultimately show ?thesis using c(3) by auto
qed

text \<open>C1: A session turn keeps the table in step with the rank. When the client's key names a session
  with the tokens \<open>old\<close> (or a new one), the leader is asked to resume at the longest common
  prefix of \<open>old\<close> (without a trailing end-of-sequence token) and the prompt, and receives
  exactly the rest of the prompt -- the last token again when everything is known; and when it
  answers \<open>DONE\<close>, the session consists of the prompt, the generated tokens and the end-of-sequence
  token, the client has received the leader's token frames and the closing line, and one
  request was sent.\<close>

theorem session_turn_commits:
  assumes "sc_inv (sr_sess s)" "key \<noteq> []" "length key < 128" "full \<noteq> []" "length full \<le> 65536"
    and "old = (case sc_tab (sr_sess s) key of Some t \<Rightarrow> t | None \<Rightarrow> [])"
    and "sc_tab (sr_sess s) key \<noteq> None \<or> sr_cache_dir s = []"
    and "m = known_prefix E old full" "r = min m (length full - 1)"
    and "en_mem E = all_mem" "server_connect_leader (en_net E) s 0 = Some leader"
    and "leader (leader_request E s args mt key r (drop r full)) = (reply, closes)"
    and "leader_loop reply = Ret (out, gen, Finished line)" "length gen \<le> 2 ^ 30"
  shows "\<exists>s'. session_turn E s args mt key full w = Ret (s',
        out @ sock_send_line (snprintf_s SRV_MAX_LINE (line @ '' wait_ms='' @ show_nat (unat w) @ '' ''
                @ show_nat (length (full @ gen @ eos_toks E)))),
        [leader_request E s args mt key r (drop r full)])
    \<and> sc_inv (sr_sess s') \<and> sc_tab (sr_sess s') key = Some (full @ gen @ eos_toks E)
    \<and> (sc_tab (sr_sess s) key \<noteq> None \<longrightarrow> sc_tab (sr_sess s') = (sc_tab (sr_sess s))(key \<mapsto> full @ gen @ eos_toks E))"
  by (rule session_turn_done[OF assms])

subsection \<open>Every other outcome\<close>

text \<open>The session and the plan between two attempts: untouched since the lookup, or reset.\<close>

definition pending :: "string \<Rightarrow> u32 list \<Rightarrow> nat \<Rightarrow> nat \<Rightarrow> server \<Rightarrow> attempt \<Rightarrow> bool" where
  "pending key full m r s a \<longleftrightarrow> sc_inv (sr_sess s) \<and>
     (if at_fresh a then sc_tab (sr_sess s) key = Some [] \<and> at_tokens a = full
      else sc_tab (sr_sess s) key = Some (take m full) \<and> at_tokens a = drop r full)"

text \<open>The leader reached at attempt \<open>k\<close> answers the request \<open>q\<close> with the tokens \<open>gen\<close> and \<open>DONE\<close>: the
  relaying loop ends there, and a line of the answer starts with \<open>DONE\<close>.\<close>

definition done_line_in :: "bytes \<Rightarrow> bool" where
  "done_line_in reply \<longleftrightarrow> (\<exists>pre rest l r. reply = pre @ rest \<and> sock_recv_line SRV_MAX_LINE rest = Some (l, r) \<and> starts ''DONE'' l)"

definition said_done :: "sess_env \<Rightarrow> server \<Rightarrow> nat \<Rightarrow> bytes \<Rightarrow> u32 list \<Rightarrow> bool" where
  "said_done E s k q gen \<longleftrightarrow> (\<exists>leader reply closes fwd line.
     server_connect_leader (en_net E) s k = Some leader \<and> leader q = (reply, closes) \<and>
     leader_loop reply = Ret (fwd, gen, Finished line) \<and> done_line_in reply)"

lemma done_line_in_append: "done_line_in s \<Longrightarrow> done_line_in (p @ s)"
  unfolding done_line_in_def by (metis append.assoc)

lemma starts_cstr: "starts p (cstr b) \<Longrightarrow> starts p b"
  using takeWhile_dropWhile_id[of "\<lambda>c. c \<noteq> NUL" b] unfolding starts_iff cstr_def by (metis append.assoc)

lemma recv_line_rest: "sock_recv_line mx s = Some (l, r) \<Longrightarrow> \<exists>p. s = p @ r"
proof -
  have "recv_line_loop mx b s = Some (l, r) \<Longrightarrow> \<exists>p. s = p @ r" for b
  proof (induction mx b s rule: recv_line_loop.induct)
    case (2 mx buf c s)
    then show ?case by (cases "c = LF") (auto split: if_splits intro: exI[of _ "[c]"] exI[of _ "c # p" for p])
  qed simp
  then show "sock_recv_line mx s = Some (l, r) \<Longrightarrow> \<exists>p. s = p @ r" by (simp add: sock_recv_line_def)
qed

lemma leader_loop_Finished: "leader_loop s = Ret (out, gen, Finished line) \<Longrightarrow> done_line_in s"
proof (induction "length s" arbitrary: s out gen rule: less_induct)
  case less
  note u = less.prems[unfolded leader_loop.simps[of s]]
  have ne: "s \<noteq> []" using u by (auto split: if_splits)
  obtain buf s1 where l: "sock_recv_line SRV_MAX_LINE s = Some (buf, s1)"
    using u ne by (cases "sock_recv_line SRV_MAX_LINE s") auto
  obtain p where p: "s = p @ s1" using recv_line_rest[OF l] by blast
  have more: "done_line_in s" if "leader_loop s2 = Ret (out', gen', Finished line)" "s1 = q @ s2" for s2 q out' gen'
  proof -
    have "length s2 < length s" using recv_line_length[OF l] that(2) by simp
    then show ?thesis using less.hyps that done_line_in_append[of s2 "p @ q"] p by simp
  qed
  note v = u[unfolded l option.case prod.case Let_def]
  consider "starts ''DONE'' (cstr buf)" | "\<not> starts ''DONE'' (cstr buf)" "starts ''PROG'' (cstr buf)"
    | "\<not> starts ''DONE'' (cstr buf)" "\<not> starts ''PROG'' (cstr buf)" "starts ''TS '' (cstr buf)"
    | "\<not> starts ''DONE'' (cstr buf)" "\<not> starts ''PROG'' (cstr buf)" "\<not> starts ''TS '' (cstr buf)" by blast
  then show ?case
  proof cases
    case 1
    then show ?thesis using l starts_cstr unfolding done_line_in_def by (metis append_Nil)
  next
    case 2
    then show ?thesis using v ne more[of s1 _ _ "[]"] by simp
  next
    case 3
    then obtain n t s2 o2 g2 where "recv_n n s1 = Some (t, s2)" "leader_loop s2 = Ret (o2, g2, Finished line)"
      using v ne by (auto split: if_splits option.splits run.splits prod.splits)
    then show ?thesis using more[of s2 o2 g2 t] by (simp add: recv_n_Some)
  next
    case 4
    then obtain o2 g2 where "leader_loop s1 = Ret (o2, g2, Finished line)"
      using v ne by (auto split: if_splits run.splits prod.splits)
    then show ?thesis using more[of s1 o2 g2 "[]"] by simp
  qed
qed

text \<open>What a session can hold when the request is over; \<open>P gen\<close> says that \<open>gen\<close> was generated.\<close>

definition settled :: "sess_env \<Rightarrow> string \<Rightarrow> u32 list \<Rightarrow> nat \<Rightarrow> (u32 list \<Rightarrow> bool) \<Rightarrow> server \<Rightarrow> bool" where
  "settled E key full m P s \<longleftrightarrow> sc_inv (sr_sess s) \<and> (\<exists>t. sc_tab (sr_sess s) key = Some t \<and>
     (t = take m full \<or> t = [] \<or> (\<exists>gen. P gen \<and> (t = full @ gen @ eos_toks E \<or> m = length full \<and> t = gen @ eos_toks E))))"

lemma pending_settled: "pending key full m r s a \<Longrightarrow> settled E key full m P s"
  by (auto simp: pending_def settled_def split: if_splits)

lemma unlink_sess [simp]: "sr_sess (server_unlink_rank0_kv s key) = sr_sess s"
  by (simp add: server_unlink_rank0_kv_def split: option.split)

lemma payload_pending:
  assumes "pending key full m r s a" "payload E s key a = Some (t, st)"
  shows "pending key full m r t a"
proof (cases "at_sent a")
  case True
  obtain v where v: "sc_inv (sr_sess s)" "sc_tab (sr_sess s) key = Some v"
    using assms(1) by (auto simp: pending_def split: if_splits)
  obtain c i where g: "sess_get (sr_sess s) key (en_now E) = (c, Some i)" "sc_inv c" "sc_tab c = sc_tab (sr_sess s)"
    by (rule sess_get_hit[OF v])
  have "t = s\<lparr>sr_sess := c\<rparr>" using assms(2) True by (simp add: payload_def g(1))
  then show ?thesis using assms(1) g by (simp add: pending_def)
next
  case False
  then show ?thesis using assms by (simp add: payload_def)
qed

lemma sess_cut_hit:
  assumes "sc_inv c" "i < length (sc_v c)" "sv_key (sc_v c ! i) = key"
  shows "sc_inv (set_entry c i (sess_truncate (sc_v c ! i) 0 now)) \<and>
    sc_tab (set_entry c i (sess_truncate (sc_v c ! i) 0 now)) key = Some []"
proof -
  let ?v = "sess_truncate (sc_v c ! i) 0 now"
  have "sv_inv (sc_v c ! i)" using assms by (simp add: sc_inv_def)
  then have v: "sv_key ?v = sv_key (sc_v c ! i)" "sv_toks ?v = []" "sv_inv ?v"
    by (auto simp: sess_truncate_def sv_inv_def)
  have "sc_inv (set_entry c i ?v)" by (rule inv_set_entry[OF assms(1,2) v(3)]) (use v in simp)
  moreover have "sc_tab (set_entry c i ?v) = (sc_tab c)(sv_key (sc_v c ! i) := None, sv_key ?v \<mapsto> sv_toks ?v)"
    by (rule tab_set_entry[OF assms(1,2)]) (use v in simp)
  ultimately show ?thesis using v assms(3) by simp
qed

lemma after_error_pending:
  assumes "pending key full m r s a" "full \<noteq> []"
  shows "case after_error E s key full a line out of
      Stop s' _ \<Rightarrow> settled E key full m P s' | Again s' a' _ \<Rightarrow> pending key full m r s' a'"
proof -
  obtain v where v: "sc_inv (sr_sess s)" "sc_tab (sr_sess s) key = Some v"
    using assms(1) by (auto simp: pending_def split: if_splits)
  obtain c i where g: "sess_get (sr_sess s) key (en_now E) = (c, Some i)" "sc_inv c" "sc_tab c = sc_tab (sr_sess s)"
    "i < length (sc_v c)" "sv_key (sc_v c ! i) = key" "sv_toks (sc_v c ! i) = v" "sv_inv (sc_v c ! i)"
    by (rule sess_get_hit[OF v])
  note cut = sess_cut_hit[OF g(2,4,5), of "en_now E"]
  have s: "settled E key full m P s" using pending_settled[OF assms(1)] .
  show ?thesis
    using assms s cut unfolding after_error_def Let_def
    by (auto simp: pending_def g(1))
qed

lemma answered_pending:
  assumes "pending key full m r s a" "full \<noteq> []" "length full \<le> 65536" "en_mem E = all_mem"
    "m \<le> length full" "r = min m (length full - 1)" "answered E key full w (m = length full) s a closes x = Ret oc"
    and "\<And>out gen line. x = (out, gen, Finished line) \<Longrightarrow> P gen"
  shows "case oc of Stop s' _ \<Rightarrow> settled E key full m P s' | Again s' a' _ \<Rightarrow> pending key full m r s' a'"
proof -
  obtain out gen e where x: "x = (out, gen, e)" by (cases x)
  show ?thesis
  proof (cases e)
    case (Failed line)
    then show ?thesis using assms(7) x after_error_pending[OF assms(1,2)] by (auto simp: answered_def)
  next
    case (Finished line)
    let ?t = "if at_fresh a then [] else take m full"
    have t: "sc_inv (sr_sess s)" "sc_tab (sr_sess s) key = Some ?t" using assms(1) by (simp_all add: pending_def)
    have l: "length (at_tokens a) \<le> 65536" using assms(1,3) by (auto simp: pending_def split: if_splits)
    obtain s' fin where f: "finish_session E s key w (m = length full) (at_tokens a) gen line = Ret (s', fin)" "oc = Stop s' (out @ fin)"
      using assms(7) x Finished by (auto simp: answered_def run_bind_Ret)
    define u where "u = ?t @ kept_toks (m = length full) (at_tokens a)"
    have u: "u = full \<or> m = length full \<and> u = []"
      using assms(1,5,6) by (auto simp: pending_def kept_toks_def min_def u_def split: if_splits)
    have "sc_inv (sr_sess s')" "sc_tab (sr_sess s') key = Some (u @ gen @ eos_toks E)"
      using finish_Ret[OF t assms(4) l f(1)] by (simp_all add: u_def)
    moreover have "P gen" using assms(8) x Finished by blast
    ultimately have "settled E key full m P s'" using u unfolding settled_def by (elim disjE conjE) auto
    then show ?thesis using f(2) by simp
  qed (use assms(7) x pending_settled[OF assms(1)] in \<open>auto simp: answered_def\<close>)
qed

lemma one_attempt_peer:
  assumes "one_attempt E args mt key full w rp k s a = Ret (rs, Again s' a' out)"
  shows "server_connect_leader net s' = server_connect_leader net s \<and> (\<exists>q. rs = [q])"
  using assms
proof (cases rule: one_attempt_cases)
  case (sent leader t st req reply closes x)
  obtain out1 gen e where x: "x = (out1, gen, e)" by (cases x)
  obtain line where e: "after_error E t key full a line out1 = Again s' a' out"
    using sent(6) unfolding x by (rule answered_Again)
  have t: "sr_leader_host t = sr_leader_host s" "sr_leader_port t = sr_leader_port s"
    using sent(2) by (auto simp: payload_def split: if_splits prod.splits option.splits)
  have u: "sr_leader_host (server_unlink_rank0_kv s key) = sr_leader_host s"
    "sr_leader_port (server_unlink_rank0_kv s key) = sr_leader_port s" for s
    by (simp_all add: server_unlink_rank0_kv_def split: option.split)
  have "sr_leader_host s' = sr_leader_host t" "sr_leader_port s' = sr_leader_port t"
    using e u by (auto simp: after_error_def Let_def split: if_splits prod.splits option.splits)
  then show ?thesis using t sent(7) by (simp add: server_connect_leader_def fun_eq_iff cong: option.case_cong)
qed auto

lemma infer_attempts_settled:
  assumes "full \<noteq> []" "length full \<le> 65536" "en_mem E = all_mem" "m \<le> length full" "r = min m (length full - 1)"
  shows "infer_attempts E args mt key full w (m = length full) k s a = Ret (s', out, rs) \<Longrightarrow> pending key full m r s a \<Longrightarrow>
    settled E key full m (\<lambda>gen. rs \<noteq> [] \<and> said_done E s (k + length rs - 1) (last rs) gen) s'"
proof (induction "attempts_left a" arbitrary: k s a s' out rs rule: less_induct)
  case less
  obtain r1 oc where o: "one_attempt E args mt key full w (m = length full) k s a = Ret (r1, oc)"
    using less.prems(1) by (subst (asm) infer_attempts.simps) (auto split: run.splits prod.splits)
  have oc: "case oc of Stop s' _ \<Rightarrow> settled E key full m (\<lambda>gen. r1 \<noteq> [] \<and> said_done E s (k + length r1 - 1) (last r1) gen) s'
      | Again s' a' _ \<Rightarrow> pending key full m r s' a'"
    using o
  proof (cases rule: one_attempt_cases)
    case (none out)
    then show ?thesis using pending_settled[OF less.prems(2)] by simp
  next
    case (sent leader t st req reply closes x)
    have "r1 \<noteq> [] \<and> said_done E s (k + length r1 - 1) (last r1) gen" if "x = (out, gen, Finished line)" for out gen line
      using sent that leader_loop_Finished unfolding said_done_def by auto
    then show ?thesis
      by (rule answered_pending[OF payload_pending[OF less.prems(2) sent(2)] assms(1-5) sent(6)])
  qed
  show ?case
  proof (cases oc)
    case (Stop s1 o1)
    then show ?thesis using less.prems(1) o oc by (subst (asm) infer_attempts.simps) simp
  next
    case (Again s1 a1 o1)
    obtain out2 rs2 where i: "infer_attempts E args mt key full w (m = length full) (Suc k) s1 a1 = Ret (s', out2, rs2)" "rs = r1 @ rs2"
      using less.prems(1) o Again by (subst (asm) infer_attempts.simps) (auto split: run.splits prod.splits)
    have "attempts_left a1 < attempts_left a" using one_attempt_left o Again by blast
    then have "settled E key full m (\<lambda>gen. rs2 \<noteq> [] \<and> said_done E s1 (Suc k + length rs2 - 1) (last rs2) gen) s'"
      using less.hyps[OF _ i(1)] oc Again by simp
    moreover have "rs \<noteq> [] \<and> said_done E s (k + length rs - 1) (last rs) gen"
      if "rs2 \<noteq> [] \<and> said_done E s1 (Suc k + length rs2 - 1) (last rs2) gen" for gen
      using one_attempt_peer[OF o[unfolded Again], of "en_net E"] that i(2) unfolding said_done_def by auto
    ultimately show ?thesis unfolding settled_def by blast
  qed
qed

text \<open>C26: A request that fails leaves no trace of its tokens. Whatever the leader answers over all the
  attempts, the session holds afterwards the part of the prompt it already shared, or nothing
  after a reset, or the prompt with the generated tokens -- and this only when the answer to the
  last request contains a line that starts with \<open>DONE\<close>, with exactly the tokens of that answer;
  with one exception: when the prompt was known completely and the session had to be reset, the
  prompt is missing and the session no longer describes what the rank holds.\<close>

theorem session_turn_outcomes:
  assumes "sc_inv (sr_sess s)" "key \<noteq> []" "length key < 128" "full \<noteq> []" "length full \<le> 65536"
    and "old = (case sc_tab (sr_sess s) key of Some t \<Rightarrow> t | None \<Rightarrow> [])"
    and "sc_tab (sr_sess s) key \<noteq> None \<or> sr_cache_dir s = []"
    and "m = known_prefix E old full" "en_mem E = all_mem"
    and "session_turn E s args mt key full w = Ret (s', out, reqs)"
  shows "\<exists>t. sc_tab (sr_sess s') key = Some t \<and>
     (t = take m full \<or> t = [] \<or>
      (\<exists>gen. reqs \<noteq> [] \<and> said_done E s (length reqs - 1) (last reqs) gen \<and>
         (t = full @ gen @ eos_toks E \<or> m = length full \<and> t = gen @ eos_toks E)))"
proof -
  have m: "m \<le> length full" using known_prefix_le assms(8) by simp
  define r where "r = min m (length full - 1)"
  obtain c where c: "sc_inv c" "sc_tab c key = Some (take m full)"
    "session_turn E s args mt key full w = infer_attempts E args mt key full w (m = length full) 0 (s\<lparr>sr_sess := c\<rparr>)
       \<lparr>at_sent = False, at_fresh = False, at_retry = 0, at_resume = r, at_tokens = drop r full\<rparr>"
    using session_turn_start[OF assms(1-4,6-8) r_def] by blast
  have "settled E key full m (\<lambda>gen. reqs \<noteq> [] \<and> said_done E (s\<lparr>sr_sess := c\<rparr>) (0 + length reqs - 1) (last reqs) gen) s'"
    by (rule infer_attempts_settled[OF assms(4,5,9) m r_def assms(10)[unfolded c(3)]]) (use c(1,2) in \<open>simp add: pending_def\<close>)
  moreover have "said_done E (s\<lparr>sr_sess := c\<rparr>) = said_done E s"
    by (simp add: said_done_def server_connect_leader_def fun_eq_iff)
  ultimately show ?thesis by (auto simp: settled_def)
qed

subsection \<open>Answers of a working leader\<close>

definition ts_line :: "u32 \<Rightarrow> bytes \<Rightarrow> string" where
  "ts_line tok p = ''TS '' @ show_nat (length p) @ SP # show_nat (unat tok)"

lemma scan_size_show: "ends_number r \<Longrightarrow> n < 2 ^ 64 \<Longrightarrow> scan_size (show_nat n @ r) = n"
proof -
  assume h: "ends_number r" "n < 2 ^ 64"
  obtain e s where sn: "show_nat n = e # s" by (cases "show_nat n") auto
  have e: "is_digit e" using show_nat_digits[of e n] sn by simp
  have "\<not> is_space e" "e \<noteq> CHR ''-''" "e \<noteq> CHR ''+''" using digit_not_sign[OF e] by auto
  then show ?thesis using h digits_val_show_nat_append[OF h(1), of n] by (simp add: scan_size_def Let_def sn)
qed

lemma scan_rest_show: "ends_number r \<Longrightarrow> scan_rest (show_nat n @ r) = r"
proof -
  assume h: "ends_number r"
  obtain e s where sn: "show_nat n = e # s" by (cases "show_nat n") auto
  have e: "is_digit e" using show_nat_digits[of e n] sn by simp
  have e2: "\<not> is_space e" "e \<noteq> CHR ''-''" "e \<noteq> CHR ''+''" using digit_not_sign[OF e] by auto
  have "dropWhile is_digit (show_nat n @ r) = r"
    using h show_nat_digits[of _ n] by (cases r) (auto simp: dropWhile_append2)
  then show ?thesis using e2 by (simp add: scan_rest_def Let_def sn)
qed

lemma scan_size_SP: "scan_size (SP # r) = scan_size r"
  by (simp add: scan_size_def)

lemma leader_loop_ts:
  assumes "p \<noteq> []" "length p < 2 ^ 63" "length (ts_line tok p) < 8191"
  shows "leader_loop (ts_line tok p @ LF # p @ rest) =
    (case leader_loop rest of Ret (out, gen, e) \<Rightarrow> Ret (sock_send_line (ts_line tok p) @ p @ out, tok # gen, e)
     | Diverge \<Rightarrow> Diverge | Fault \<Rightarrow> Fault)"
proof -
  let ?l = "ts_line tok p"
  have tx: "line_text ?l" by (simp add: ts_line_def)
  have rl: "sock_recv_line SRV_MAX_LINE (?l @ LF # p @ rest) = Some (?l, p @ rest)"
    using sock_recv_line_text[OF tx, of SRV_MAX_LINE "p @ rest"] assms(3) by (simp add: SRV_MAX_LINE_def)
  have cs: "cstr ?l = ?l" using tx by simp
  have d: "drop 3 ?l = show_nat (length p) @ SP # show_nat (unat tok)" by (simp add: ts_line_def)
  have sz: "scan_size (drop 3 ?l) = length p" using scan_size_show[of "SP # show_nat (unat tok)" "length p"] assms(2) by (simp add: d)
  have "unat tok < 2 ^ LENGTH(32)" by (rule unsigned_less)
  then have u: "unat tok < 2 ^ 64" by (rule less_trans) simp
  have tk: "word_of_nat (scan_size (scan_rest (drop 3 ?l))) = tok"
    using scan_size_show[of "[]", OF _ u] by (simp add: d scan_rest_show scan_size_SP)
  have np: "\<not> starts ''PROG'' ?l" "\<not> proto_is_error ?l" "\<not> starts ''DONE'' ?l" "starts ''TS '' ?l"
    by (simp_all add: ts_line_def proto_is_error_def PROTO_ERROR_def)
  have ne: "length p \<noteq> 0" "length p + 1 \<noteq> 2 ^ 64" using assms(1,2) by simp_all
  have rn: "recv_n (length p) (p @ rest) = Some (p, rest)" by simp
  have "?l @ LF # p @ rest \<noteq> []" by simp
  then show ?thesis
    by (subst leader_loop.simps)
       (simp only: if_False rl option.case prod.case Let_def cs np if_True sz ne tk rn simp_thms)
qed

lemma leader_loop_done:
  assumes "line_text d" "length d < 8000"
  shows "leader_loop (''DONE'' @ d @ LF # rest) = Ret ([], [], Finished (''DONE'' @ d))"
proof -
  let ?l = "''DONE'' @ d"
  have tx: "line_text ?l" using assms(1) by simp
  have rl: "sock_recv_line SRV_MAX_LINE (?l @ LF # rest) = Some (?l, rest)"
    using sock_recv_line_text[OF tx, of SRV_MAX_LINE rest] assms(2) by (simp add: SRV_MAX_LINE_def)
  have cs: "cstr ?l = ?l" using tx by (rule cstr_line)
  have np: "\<not> starts ''PROG'' ?l" "\<not> proto_is_error ?l" "starts ''DONE'' ?l"
    by (simp_all add: proto_is_error_def PROTO_ERROR_def)
  have "leader_loop (?l @ LF # rest) = Ret ([], [], Finished ?l)"
    by (subst leader_loop.simps) (simp only: rl option.case prod.case Let_def cs np if_True if_False simp_thms append_is_Nil_conv list.distinct)
  then show ?thesis by simp
qed

text \<open>A leader that answers every request with one token and closes.\<close>

definition hi_reply :: bytes where
  "hi_reply = ts_line 7 ''hi'' @ LF # ''hi'' @ ''DONE'' @ '' 1'' @ [LF]"

definition hi_env :: sess_env where
  "hi_env = \<lparr>en_net = \<lambda>_ _ _. Some (\<lambda>_. (hi_reply, True)), en_mem = all_mem, en_room = 1000, en_now = 5, en_fmt = \<lambda>_. ''1'',
             en_ids = \<lambda>_. [1, 2, 3], en_eos = 9\<rparr>"

definition hi_server :: server where
  "hi_server = \<lparr>sr_leader_host = ''h'', sr_leader_port = 1, sr_ranks = 1, sr_peers = [], sr_vocab_ok = True, sr_cache_dir = [],
                sr_sess = sess_init 4, sr_disk = \<lambda>_. None\<rparr>"

lemma hi_reply_loop:
  "leader_loop hi_reply = Ret (sock_send_line (ts_line 7 ''hi'') @ ''hi'', [7], Finished (''DONE'' @ '' 1''))"
proof -
  have "length (ts_line 7 ''hi'') < 8191"
  proof -
    have u: "unat (7 :: u32) = 7" "length ''hi'' = 2" by simp_all
    show ?thesis unfolding ts_line_def u using length_show_nat[of 2 1] length_show_nat[of 7 1] by simp
  qed
  then show ?thesis
    unfolding hi_reply_def using leader_loop_ts[of "''hi''" 7 "''DONE'' @ '' 1'' @ [LF]"] leader_loop_done[of "'' 1''" "[]"] by simp
qed

lemma hi_facts:
  "sc_inv (sr_sess hi_server)" "sc_tab (sr_sess hi_server) ''k'' = None" "0 = known_prefix hi_env [] [1, 2, 3]"
  "server_connect_leader (en_net hi_env) hi_server 0 = Some (\<lambda>_. (hi_reply, True))"
  "sr_cache_dir hi_server = []" "en_mem hi_env = all_mem"
  by (simp_all add: hi_server_def sess_init_def sc_inv_def sc_tab_def sc_pairs_def known_prefix_def strip_eos_def
      server_connect_leader_def hi_env_def)

theorem session_turn_commits_witness:
  "\<exists>s'. session_turn hi_env hi_server ''20 5 key=k'' 20 ''k'' [1, 2, 3] 0 = Ret (s',
        (sock_send_line (ts_line 7 ''hi'') @ ''hi'') @ sock_send_line (snprintf_s SRV_MAX_LINE
          ((''DONE'' @ '' 1'') @ '' wait_ms='' @ show_nat (unat (0::u64)) @ '' '' @ show_nat (length ([1, 2, 3] @ [7] @ eos_toks hi_env)))),
        [leader_request hi_env hi_server ''20 5 key=k'' 20 ''k'' 0 (drop 0 [1, 2, 3])])
    \<and> sc_inv (sr_sess s') \<and> sc_tab (sr_sess s') ''k'' = Some ([1, 2, 3] @ [7] @ eos_toks hi_env)
    \<and> (sc_tab (sr_sess hi_server) ''k'' \<noteq> None \<longrightarrow>
        sc_tab (sr_sess s') = (sc_tab (sr_sess hi_server))(''k'' \<mapsto> [1, 2, 3] @ [7] @ eos_toks hi_env))"
proof (rule session_turn_commits[where old = "[]" and m = 0])
  show "leader_loop hi_reply = Ret (sock_send_line (ts_line 7 ''hi'') @ ''hi'', [7], Finished (''DONE'' @ '' 1''))"
    by (rule hi_reply_loop)
  show "server_connect_leader (en_net hi_env) hi_server 0 = Some (\<lambda>_. (hi_reply, True))" by (rule hi_facts)
qed (simp_all add: hi_facts(1,2,5,6) hi_facts(3)[symmetric])

theorem session_turn_outcomes_witness:
  "\<exists>s' out reqs. session_turn hi_env hi_server ''20 5 key=k'' 20 ''k'' [1, 2, 3] 0 = Ret (s', out, reqs) \<and>
    (\<exists>t. sc_tab (sr_sess s') ''k'' = Some t \<and> (t = take 0 [1, 2, 3] \<or> t = [] \<or>
      (\<exists>gen. reqs \<noteq> [] \<and> said_done hi_env hi_server (length reqs - 1) (last reqs) gen \<and>
        (t = [1, 2, 3] @ gen @ eos_toks hi_env \<or> 0 = length [1, 2, 3 :: u32] \<and> t = gen @ eos_toks hi_env))))"
proof -
  have o: "[] = (case sc_tab (sr_sess hi_server) ''k'' of Some t \<Rightarrow> t | None \<Rightarrow> [])" by (simp add: hi_facts)
  obtain s' out reqs where r: "session_turn hi_env hi_server ''20 5 key=k'' 20 ''k'' [1, 2, 3] 0 = Ret (s', out, reqs)"
    using session_turn_done[OF hi_facts(1) _ _ _ _ o _ hi_facts(3) refl hi_facts(6,4) refl hi_reply_loop,
        of "''20 5 key=k''" 20 0] hi_facts(5) by auto
  show ?thesis
    using session_turn_outcomes[OF hi_facts(1) _ _ _ _ o _ hi_facts(3) hi_facts(6) r] r hi_facts(5) by auto
qed

end
