(* ===== verification/ServerLease.thy ===== *)
theory ServerLease
  imports ServerSess LeasePool
begin

text \<open>
  The server around session inference (\<^verbatim>\<open>serve/server.c\<close>): leasing ranks from the supervisor, waiting
  for a free rank, plain inference, the queue counters, and one connection; and what the lease
  protocol gives together with the supervisor. The supervisor is a function from the bytes of the
  \<open>k\<close>-th connection to its answer (\<open>None\<close>: no connection); the frames sent to it are logged in
  the state. The clock is a list of readings in the order in which they are taken; the moving
  average of \<open>double\<close>s is the parameter \<open>ema\<close>.
\<close>

subsection \<open>State\<close>

type_synonym sv_net = "nat \<Rightarrow> bytes \<Rightarrow> bytes option"

record srv =
  sx_core :: server
  sx_node :: node
  sx_strategy :: string
  sx_duration :: int
  sx_rank_ids :: string
  sx_waiting :: int
  sx_serving :: int
  sx_total :: u64
  sx_wait_last :: u64
  sx_wait_max :: u64
  sx_infer_last :: u64
  sx_avg10 :: int
  sx_infer_n :: u64
  sx_quit :: bool
  sx_log :: "bytes list"

definition lease_args :: "srv \<Rightarrow> string" where
  "lease_args s =
     (let a = snprintf_s 512 (nd_id (sx_node s) @ '' model='' @ nd_model (sx_node s)) in
      if sx_strategy s = ''permanent'' then strncat_s 512 a '' permanent''
      else if sx_strategy s = ''timed'' \<and> sx_duration s > 0
      then strncat_s 512 a (snprintf_s 64 ('' duration='' @ show_int (sx_duration s)))
      else a)"

text \<open>The fields of the supervisor's \<open>OK\<close>.\<close>

definition take_lease_reply :: "srv \<Rightarrow> string \<Rightarrow> int \<times> srv" where
  "take_lease_reply s args =
     (let core = sx_core s;
          (rc, core) = (case proto_get args ''leader'' of
              None \<Rightarrow> (-1, core)
            | Some leader \<Rightarrow>
              (case strchr leader CHR '':'' of
                 None \<Rightarrow> (-1, core)
               | Some colon \<Rightarrow> (0, core\<lparr>sr_leader_host := take 127 (takeWhile (\<lambda>c. c \<noteq> CHR '':'') leader),
                                      sr_leader_port := word_of_int (atoi (tl colon))\<rparr>)));
          core = core\<lparr>sr_ranks := atoi (case proto_get args ''ranks'' of Some r \<Rightarrow> r | None \<Rightarrow> ''1''),
                      sr_peers := (case proto_get args ''peers'' of Some p \<Rightarrow> snprintf_s 1024 p | None \<Rightarrow> [])\<rparr> in
      (rc, s\<lparr>sx_core := core,
             sx_rank_ids := (case proto_get args ''rank_ids'' of Some r \<Rightarrow> snprintf_s 512 r | None \<Rightarrow> [])\<rparr>))"

definition server_lease :: "sv_net \<Rightarrow> nat \<Rightarrow> srv \<Rightarrow> int \<times> srv" where
  "server_lease sv k s =
     (let req = frame_send ''LEASE'' (lease_args s) in
      case sv k req of
        None \<Rightarrow> (-1, s)
      | Some reply \<Rightarrow>
        let s = s\<lparr>sx_log := sx_log s @ [req]\<rparr> in
        (case frame_recv reply of
           None \<Rightarrow> (-1, s)
         | Some (f, _) \<Rightarrow> if fr_cmd f = ''OK'' then take_lease_reply s (fr_args f) else (-1, s)))"

definition server_release :: "sv_net \<Rightarrow> nat \<Rightarrow> srv \<Rightarrow> srv" where
  "server_release sv k s =
     (let req = frame_send ''RELEASE'' (nd_id (sx_node s)) in
      case sv k req of None \<Rightarrow> s | Some _ \<Rightarrow> s\<lparr>sx_log := sx_log s @ [req]\<rparr>)"

text \<open>The snapshot sent with every heartbeat.\<close>

definition srv_hb_now :: "srv \<Rightarrow> srv" where
  "srv_hb_now s =
     (let nd = (sx_node s)\<lparr>nd_waiting := sx_waiting s, nd_avg10 := (if sx_infer_n s > 0 then sx_avg10 s else 0), nd_kv10 := 0\<rparr> in
      s\<lparr>sx_node := nd, sx_log := sx_log s @ [node_heartbeat nd]\<rparr>)"

definition SERVER_LEASE_WAIT_MS :: nat where "SERVER_LEASE_WAIT_MS = 30000"
definition SERVER_LEASE_POLL_MS :: nat where "SERVER_LEASE_POLL_MS = 200"

definition leave_queue :: "srv \<Rightarrow> srv" where
  "leave_queue s = (if sx_waiting s > 0 then s\<lparr>sx_waiting := sx_waiting s - 1\<rparr> else s)"

text \<open>\<open>while (waited < SERVER_LEASE_WAIT_MS)\<close>, \<open>n\<close> polls left.\<close>

fun lease_poll :: "sv_net \<Rightarrow> nat \<Rightarrow> nat \<Rightarrow> srv \<Rightarrow> int \<times> srv" where
  "lease_poll sv k 0 s = (-1, srv_hb_now (leave_queue s))"
| "lease_poll sv k (Suc n) s =
     (case server_lease sv k s of (rc, s) \<Rightarrow>
        if rc = 0 then (0, leave_queue s) else lease_poll sv (Suc k) n (srv_hb_now s))"

definition server_lease_wait :: "sv_net \<Rightarrow> srv \<Rightarrow> int \<times> srv" where
  "server_lease_wait sv s =
     (case server_lease sv 0 s of (rc, s) \<Rightarrow>
        if rc = 0 then (0, s)
        else lease_poll sv 1 (SERVER_LEASE_WAIT_MS div SERVER_LEASE_POLL_MS) (srv_hb_now (s\<lparr>sx_waiting := sx_waiting s + 1\<rparr>)))"

subsection \<open>The queue of session requests\<close>

definition sess_q_enter :: "srv \<Rightarrow> srv" where
  "sess_q_enter s = s\<lparr>sx_waiting := sx_waiting s + 1, sx_total := sx_total s + 1\<rparr>"

definition sess_q_acquired :: "u64 \<Rightarrow> srv \<Rightarrow> srv" where
  "sess_q_acquired waited s =
     (let s = leave_queue s in
      s\<lparr>sx_serving := sx_serving s + 1, sx_wait_last := waited,
        sx_wait_max := (if waited > sx_wait_max s then waited else sx_wait_max s)\<rparr>)"

definition sess_infer_unlock :: "srv \<Rightarrow> srv" where
  "sess_infer_unlock s = (if sx_serving s > 0 then s\<lparr>sx_serving := sx_serving s - 1\<rparr> else s)"

definition sess_infer_record :: "(int \<Rightarrow> u64 \<Rightarrow> int) \<Rightarrow> u64 \<Rightarrow> srv \<Rightarrow> srv" where
  "sess_infer_record ema elapsed s =
     s\<lparr>sx_avg10 := (if sx_infer_n s = 0 then 10 * int (unat elapsed) else ema (sx_avg10 s) elapsed),
       sx_infer_last := elapsed, sx_infer_n := sx_infer_n s + 1\<rparr>"

subsection \<open>Plain inference\<close>

text \<open>The answer of the leader passed through line by line.\<close>

function srv_relay :: "bool \<Rightarrow> bytes \<Rightarrow> bytes" where
  "srv_relay closes s =
     (if s = [] \<and> \<not> closes then sock_send_line ''ERR server: leader timeout''
      else case sock_recv_line SRV_MAX_LINE s of
        None \<Rightarrow> sock_send_line ''ERR server: leader disconnected''
      | Some (buf, s1) \<Rightarrow>
        let line = cstr buf in
        sock_send_line line @
        (if starts ''DONE'' line \<or> proto_is_error line then []
         else if starts ''T '' line then
           (case frame_t_payload line s1 of None \<Rightarrow> [] | Some (p, s2) \<Rightarrow> p @ srv_relay closes s2)
         else srv_relay closes s1))"
  by pat_completeness auto
termination
  by (relation "measure (\<lambda>(c, s). length s)") (auto dest!: recv_line_length t_payload_length)

declare srv_relay.simps [simp del]

text \<open>Result: the bytes sent to the client and to the leader. The payload length is the last
  number \<open>frame_payload_len\<close> finds in the extended arguments.\<close>

definition forward_infer :: "sess_env \<Rightarrow> server \<Rightarrow> string \<Rightarrow> bytes \<Rightarrow> bytes \<times> bytes" where
  "forward_infer E s args client =
     (case server_connect_leader (en_net E) s 0 of
        None \<Rightarrow> (sock_send_line (''ERR server: cannot connect leader '' @ sr_leader_host s @ '':'' @ show_nat (unat (sr_leader_port s))), [])
      | Some leader \<Rightarrow>
        let fargs = snprintf_s FRAME_ARGS_MAX (args @ '' seg=0 segs='' @ show_int (if sr_ranks s > 0 then sr_ranks s else 1)
                      @ '' peers='' @ (if sr_peers s \<noteq> [] then sr_peers s else ''127.0.0.1''));
            hdr = frame_send ''INFER'' fargs;
            nbytes = frame_payload_len \<lparr>fr_cmd = ''INFER'', fr_args = fargs\<rparr> in
        if nbytes > 0 \<and> \<not> en_mem E (nat nbytes) then (sock_send_line ''ERR server: oom'', hdr)
        else case (if nbytes > 0 then map_option fst (recv_n (nat nbytes) client) else Some []) of
          None \<Rightarrow> ([], hdr)
        | Some pb \<Rightarrow> (case leader (hdr @ pb) of (reply, closes) \<Rightarrow> (srv_relay closes reply, hdr @ pb)))"

subsection \<open>One connection\<close>

datatype infer_kind = InferSess | InferPlain

text \<open>The work under a lease; a request that passes the checks enters the queue: \<open>waited\<close> is the time spent for \<open>infer_lock\<close> and \<open>elapsed\<close> that of the
  whole call.\<close>

definition srv_infer ::
  "sess_env \<Rightarrow> infer_kind \<Rightarrow> srv \<Rightarrow> string \<Rightarrow> bytes \<Rightarrow> u64 \<Rightarrow> (srv \<times> bytes) run" where
  "srv_infer E kind s args client waited =
     (case kind of
        InferPlain \<Rightarrow> Ret (s, fst (forward_infer E (sx_core s) args client))
      | InferSess \<Rightarrow>
        (let queued = (case read_request E (sx_core s) args client of Inl _ \<Rightarrow> False | Inr _ \<Rightarrow> True);
             s = (if queued then sess_q_acquired waited (sess_q_enter s) else s) in
         run_bind (forward_infer_sess E (sx_core s) args client waited) (\<lambda>(core, out, reqs).
           let s = s\<lparr>sx_core := core\<rparr> in Ret (if queued then sess_infer_unlock s else s, out))))"

definition handle_infer ::
  "sess_env \<Rightarrow> sv_net \<Rightarrow> (int \<Rightarrow> u64 \<Rightarrow> int) \<Rightarrow> infer_kind \<Rightarrow> srv \<Rightarrow> string \<Rightarrow> bytes \<Rightarrow> u64 \<Rightarrow> u64 \<Rightarrow> (srv \<times> bytes) run" where
  "handle_infer E sv ema kind s args client waited elapsed =
     (let s = srv_hb_now (s\<lparr>sx_node := (sx_node s)\<lparr>nd_inflight := nd_inflight (sx_node s) + 1, nd_state := NODE_STATE_BUSY\<rparr>\<rparr>);
          request_lease = (sx_strategy s = ''request'');
          (rc, s) = (if request_lease then server_lease_wait sv s else (0, s)) in
      run_bind
        (if rc \<noteq> 0 then Ret (s, sock_send_line ''ERR server: no rank leased'')
         else run_bind (srv_infer E kind s args client waited) (\<lambda>(s, out).
           let s = sess_infer_record ema elapsed s in
           Ret (if request_lease then server_release sv 200 s else s, out)))
        (\<lambda>(s, out). Ret (srv_hb_now (s\<lparr>sx_node := (sx_node s)\<lparr>nd_inflight := nd_inflight (sx_node s) - 1,
                                        nd_state := NODE_STATE_READY\<rparr>\<rparr>), out)))"

definition server_stat :: "srv \<Rightarrow> nat \<Rightarrow> string" where
  "server_stat s uptime = snprintf_s 896
     (''inflight='' @ show_int (nd_inflight (sx_node s)) @ '' waiting='' @ show_int (sx_waiting s)
      @ '' serving='' @ show_int (sx_serving s) @ '' q_total='' @ show_nat (unat (sx_total s))
      @ '' wait_ms='' @ show_nat (unat (sx_wait_last s)) @ '' wait_max_ms='' @ show_nat (unat (sx_wait_max s))
      @ '' kv_mb=0.0 prefix_hits=0 uptime_s='' @ show_nat uptime
      @ '' lease_ranks='' @ show_int (if sr_ranks (sx_core s) > 0 then sr_ranks (sx_core s) else 1)
      @ '' lease_peers='' @ (if sr_peers (sx_core s) \<noteq> [] then sr_peers (sx_core s) else ''127.0.0.1'')
      @ '' lease_rank_ids='' @ (if sx_rank_ids s \<noteq> [] then sx_rank_ids s else ''?''))"

definition server_handle_frame ::
  "sess_env \<Rightarrow> sv_net \<Rightarrow> (int \<Rightarrow> u64 \<Rightarrow> int) \<Rightarrow> srv \<Rightarrow> frame \<Rightarrow> bytes \<Rightarrow> u64 \<Rightarrow> u64 \<Rightarrow> nat \<Rightarrow> (srv \<times> bytes) run" where
  "server_handle_frame E sv ema s f client waited elapsed uptime =
     (if fr_cmd f = ''INFER_SESS'' then handle_infer E sv ema InferSess s (fr_args f) client waited elapsed
      else if fr_cmd f = ''INFER'' then handle_infer E sv ema InferPlain s (fr_args f) client waited elapsed
      else if fr_cmd f = ''PING'' then Ret (s, frame_send ''OK'' ''READY'')
      else if fr_cmd f = ''STAT'' then Ret (s, frame_send ''OK'' (server_stat s uptime))
      else if fr_cmd f = ''DRAIN'' \<or> fr_cmd f = ''QUIT'' then Ret (s\<lparr>sx_quit := True\<rparr>, frame_send ''OK'' [])
      else Ret (s, frame_send ''ERR'' ''unknown cmd''))"

definition srv_conn ::
  "sess_env \<Rightarrow> sv_net \<Rightarrow> (int \<Rightarrow> u64 \<Rightarrow> int) \<Rightarrow> srv \<Rightarrow> bytes \<Rightarrow> u64 \<Rightarrow> u64 \<Rightarrow> nat \<Rightarrow> (srv \<times> bytes) run" where
  "srv_conn E sv ema s input waited elapsed uptime =
     (case frame_recv input of
        None \<Rightarrow> Ret (s, [])
      | Some (f, client) \<Rightarrow> server_handle_frame E sv ema s f client waited elapsed uptime)"

subsection \<open>The lease protocol with the supervisor\<close>

text \<open>The supervisor's answer to one connection, in the state \<open>st\<close>.\<close>

definition sv_answer :: "sv_cfg \<Rightarrow> (nat \<Rightarrow> int) \<Rightarrow> supervisor \<Rightarrow> u64 \<Rightarrow> sv_net" where
  "sv_answer c fork st now k req =
     (case frame_recv req of
        None \<Rightarrow> Some []
      | Some (f, _) \<Rightarrow> (case handle_frame c fork st None f now of Ret (_, out) \<Rightarrow> Some out | _ \<Rightarrow> None))"

lemma strncat_set: "set (strncat_s cap p x) \<subseteq> set p \<union> set x"
  by (auto simp: strncat_s_def dest: in_set_takeD)

lemma subset_chain: "Q \<subseteq> V \<Longrightarrow> A \<subseteq> Q \<union> U \<Longrightarrow> V \<union> U \<subseteq> W \<Longrightarrow> A \<subseteq> W"
  by blast

lemma join_comma_set: "set (join_comma cap b xs) \<subseteq> insert CHR '','' (\<Union> (set ` set xs))"
proof -
  let ?f = "\<lambda>(i :: nat, x) p. strncat_s cap (if (if b then i \<noteq> 0 else p \<noteq> []) then strncat_s cap p '','' else p) x"
  have "set (fold ?f ixs p) \<subseteq> set p \<union> insert CHR '','' (\<Union> (set ` snd ` set ixs))" for ixs :: "(nat \<times> string) list" and p
  proof (induction ixs arbitrary: p)
    case (Cons ix ixs)
    have "set (?f ix p) \<subseteq> set p \<union> insert CHR '','' (set (snd ix))"
    proof -
      obtain i x where ix: "ix = (i, x)" by (cases ix)
      define q where "q = (if (if b then i \<noteq> 0 else p \<noteq> []) then strncat_s cap p '','' else p)"
      have q: "set q \<subseteq> insert CHR '','' (set p)"
      proof -
        have "set (strncat_s cap p '','') \<subseteq> insert CHR '','' (set p)" using strncat_set[of cap p "'',''"] by auto
        then show ?thesis unfolding q_def by (simp only: split: if_split) blast
      qed
      have "?f ix p = strncat_s cap q x" unfolding ix q_def prod.case ..
      then have "set (?f ix p) \<subseteq> set q \<union> set x" using strncat_set[of cap q x] by (simp only:)
      moreover have "set q \<union> set x \<subseteq> set p \<union> insert CHR '','' (set (snd ix))" using q unfolding ix snd_conv by blast
      ultimately show ?thesis by (rule subset_trans)
    qed
    moreover have "set (fold ?f ixs (?f ix p)) \<subseteq> set (?f ix p) \<union> insert CHR '','' (\<Union> (set ` snd ` set ixs))"
      by (rule Cons)
    moreover have "set p \<union> insert CHR '','' (set (snd ix)) \<union> insert CHR '','' (\<Union> (set ` snd ` set ixs))
        \<subseteq> set p \<union> insert CHR '','' (\<Union> (set ` snd ` set (ix # ixs)))" by simp blast
    ultimately have "set (fold ?f ixs (?f ix p)) \<subseteq> set p \<union> insert CHR '','' (\<Union> (set ` snd ` set (ix # ixs)))"
      by (rule subset_chain)
    then show ?case unfolding fold_simps o_apply .
  qed auto
  note this[of "zip [0..<length xs] xs" "[]"]
  moreover have "snd ` set (zip [0..<length xs] xs) = set xs" by (metis set_map map_snd_zip length_upt diff_zero)
  ultimately show ?thesis unfolding join_comma_def by (simp only:) simp
qed

definition plain_text :: "string \<Rightarrow> bool" where
  "plain_text x \<longleftrightarrow> SP \<notin> set x \<and> line_text x"

lemma join_comma_plain:
  assumes "\<And>x. x \<in> set xs \<Longrightarrow> plain_text x"
  shows "plain_text (join_comma cap b xs)"
proof -
  have "c \<noteq> SP \<and> c \<noteq> LF \<and> c \<noteq> CR \<and> c \<noteq> NUL" if "c \<in> set (join_comma cap b xs)" for c
  proof -
    from that consider "c = CHR '',''" | x where "x \<in> set xs" "c \<in> set x" using join_comma_set[of cap b xs] by blast
    then show ?thesis
    proof cases
      case 2
      then show ?thesis using assms[OF 2(1)] by (auto simp: plain_text_def line_text_def)
    qed simp
  qed
  then show ?thesis by (auto simp: plain_text_def line_text_def)
qed

lemma plain_takeWhile: "plain_text x \<Longrightarrow> plain_text (takeWhile P x)"
  by (auto simp: plain_text_def line_text_def dest: set_takeWhileD)

lemma handle_frame_lease: "handle_frame c fork st peer \<lparr>fr_cmd = ''LEASE'', fr_args = a\<rparr> now = handle_lease st a now"
  by (simp add: handle_frame_def)

text \<open>A server name and a model name that a frame carries as words.\<close>

definition srv_names :: "srv \<Rightarrow> bool" where
  "srv_names s \<longleftrightarrow> plain_word (nd_id (sx_node s)) \<and> CHR ''='' \<notin> set (nd_id (sx_node s)) \<and> line_text (nd_id (sx_node s))
     \<and> length (nd_id (sx_node s)) < 128 \<and> SP \<notin> set (nd_model (sx_node s)) \<and> line_text (nd_model (sx_node s))
     \<and> length (nd_model (sx_node s)) < 128"

lemma lease_frame:
  assumes "srv_names s" "length x < 100" "line_text x"
    and "a = nd_id (sx_node s) @ '' model='' @ nd_model (sx_node s) @ x" "x = [] \<or> hd x = SP"
  shows "frame_recv (frame_send ''LEASE'' a) = Some (\<lparr>fr_cmd = ''LEASE'', fr_args = a\<rparr>, [])"
    "first_word a = nd_id (sx_node s)" "proto_get a ''model'' = Some (nd_model (sx_node s) @ x)"
proof -
  let ?i = "nd_id (sx_node s)" and ?m = "nd_model (sx_node s)"
  have i: "?i \<noteq> []" "hd ?i \<noteq> SP" "SP \<notin> set ?i"
    using assms(1) plain_word_hd[of ?i] by (auto simp: srv_names_def plain_word_def)
  have fo: "frame_ok \<lparr>fr_cmd = ''LEASE'', fr_args = a\<rparr>"
    using assms i by (simp add: frame_ok_def FRAME_CMD_MAX_def FRAME_ARGS_MAX_def srv_names_def)
  show "frame_recv (frame_send ''LEASE'' a) = Some (\<lparr>fr_cmd = ''LEASE'', fr_args = a\<rparr>, [])"
    using frame_recv_send[OF fo, of "[]"] by simp
  show "first_word a = ?i"
    using i assms(1,4) by (simp add: first_word_def srv_names_def)
  have "proto_get (?i @ SP # (''model='' @ ?m @ x)) ''model'' = proto_get (''model='' @ ?m @ x) ''model''"
    by (rule proto_get_skip_word) (use assms(1) in \<open>simp_all add: srv_names_def\<close>)
  moreover have "proto_get (''model='' @ ?m @ x) ''model'' = Some (?m @ x)"
    by (subst proto_get.simps) simp
  ultimately show "proto_get a ''model'' = Some (?m @ x)" using assms(4) by simp
qed

text \<open>C25: A granted lease reaches the server. When a server with the per-request strategy asks the
  supervisor and the ranks it may take include a leader at \<open>host:port\<close>, the exchange of frames
  succeeds and the server knows the leader's host and port and the number of ranks; the list of
  peers, however, also holds everything that follows it on the line, the rank ids.\<close>

theorem lease_handshake:
  assumes "srv_names s" "sx_strategy s = ''request''"
    and "grp = filter (leasable (nd_model (sx_node s)) (nd_id (sx_node s))) (sv_nodes st)"
    and "filter is_leader (map sn_node grp) = ls @ [l]" "has_ports (map (\<lambda>n. nd_addr (sn_node n)) (take 64 grp))"
    and "nd_addr l = host @ '':'' @ show_nat p" "CHR '':'' \<notin> set host" "p < 65536" "length host < 128"
    and "\<forall>n\<in>set grp. SP \<notin> set (nd_addr (sn_node n)) \<and> line_text (nd_addr (sn_node n))
           \<and> SP \<notin> set (nd_id (sn_node n)) \<and> line_text (nd_id (sn_node n))"
    and "\<And>ps. mset ps = mset (map (\<lambda>n. nd_addr (sn_node n)) (take 64 grp)) \<Longrightarrow>
           length (''LEASED ranks='' @ show_nat (length grp) @ '' leader='' @ nd_addr l
         @ '' peers='' @ join_comma 1024 True (map (takeWhile (\<lambda>c. c \<noteq> CHR '':'')) ps)
         @ '' rank_ids='' @ join_comma 512 False (map (\<lambda>n. nd_id (sn_node n)) (take 64 grp))) < 640"
    and "length grp < 2 ^ 31"
  shows "\<exists>s' ps. server_lease (sv_answer c fork st now) k s = (0, s') \<and> mset ps = mset (map (\<lambda>n. nd_addr (sn_node n)) (take 64 grp))
    \<and> sr_leader_host (sx_core s') = host \<and> sr_leader_port (sx_core s') = of_nat p \<and> sr_ranks (sx_core s') = int (length grp)
    \<and> sr_peers (sx_core s') = join_comma 1024 True (map (takeWhile (\<lambda>c. c \<noteq> CHR '':'')) ps)
        @ '' rank_ids='' @ join_comma 512 False (map (\<lambda>n. nd_id (sn_node n)) (take 64 grp))"
proof -
  let ?i = "nd_id (sx_node s)" and ?m = "nd_model (sx_node s)"
  have la: "lease_args s = ?i @ '' model='' @ ?m @ []"
    using assms(1,2) by (simp add: lease_args_def Let_def srv_names_def)
  note fr = lease_frame[OF assms(1), of "[]", OF _ _ la]
  have i: "?i \<noteq> []" using assms(1) plain_word_hd[of ?i] by (simp add: srv_names_def)
  define ids where "ids = join_comma 512 False (map (\<lambda>n. nd_id (sn_node n)) (take 64 grp))"
  define rep where "rep ps = ''LEASED ranks='' @ show_nat (length grp) @ '' leader='' @ nd_addr l
         @ '' peers='' @ join_comma 1024 True (map (takeWhile (\<lambda>c. c \<noteq> CHR '':'')) ps) @ '' rank_ids='' @ ids" for ps
  obtain st' ps where h: "handle_lease st (lease_args s) now = Ret (st', frame_send ''OK'' (snprintf_s 640 (rep ps)))"
    and ps: "mset ps = mset (map (\<lambda>n. nd_addr (sn_node n)) (take 64 grp))"
    using lease_granted[of ?i "lease_args s" ?m grp st ls l now] fr assms(3-5) i by (auto simp: rep_def ids_def)
  have sp: "set ps = set (map (\<lambda>n. nd_addr (sn_node n)) (take 64 grp))" using ps by (metis set_mset_mset)
  define peers where "peers = join_comma 1024 True (map (takeWhile (\<lambda>c. c \<noteq> CHR '':'')) ps)"
  have lt: "length (rep ps) < 640" using assms(11)[OF ps] by (simp add: rep_def ids_def)
  have gp: "plain_text (nd_addr (sn_node n)) \<and> plain_text (nd_id (sn_node n))" if "n \<in> set (take 64 grp)" for n
    using assms(10) in_set_takeD[OF that] by (simp add: plain_text_def)
  have "plain_text peers"
    unfolding peers_def by (rule join_comma_plain) (use gp sp in \<open>auto intro: plain_takeWhile\<close>)
  then have pch: "SP \<notin> set peers" "line_text peers" by (simp_all add: plain_text_def)
  have "plain_text ids"
    unfolding ids_def by (rule join_comma_plain) (use gp in auto)
  then have ich: "SP \<notin> set ids" "line_text ids" by (simp_all add: plain_text_def)
  have "l \<in> set (filter is_leader (map sn_node grp))" using assms(4) by simp
  then have "l \<in> set (map sn_node grp)" by simp
  then have lch: "SP \<notin> set (nd_addr l)" "line_text (nd_addr l)" using assms(10) by auto
  define kvs where "kvs = [(''ranks'', show_nat (length grp)), (''leader'', nd_addr l), (''peers'', peers), (''rank_ids'', ids)]"
  have kv: "\<forall>kv\<in>set kvs. kv_ok kv" using pch ich lch by (simp add: kvs_def kv_ok_def show_nat_no)
  have tx: "rep ps = join_sp (''LEASED'' # map kv_word kvs)" by (simp add: rep_def kvs_def kv_word_def peers_def)
  have pg: "proto_get (rep ps) key = kv_rest kvs key" if "CHR ''='' \<notin> set key" "SP \<notin> set key" for key
    unfolding tx using frame_get_args[OF kv, of "''LEASED''" key] that by (simp add: plain_word_def)
  have fo: "frame_ok \<lparr>fr_cmd = ''OK'', fr_args = rep ps\<rparr>"
    using lt pch ich lch by (simp add: frame_ok_def FRAME_CMD_MAX_def FRAME_ARGS_MAX_def rep_def peers_def[symmetric])
  have rc: "frame_recv (frame_send ''OK'' (rep ps)) = Some (\<lparr>fr_cmd = ''OK'', fr_args = rep ps\<rparr>, [])"
    using frame_recv_send[OF fo, of "[]"] by simp
  have ans: "sv_answer c fork st now k (frame_send ''LEASE'' (lease_args s)) = Some (frame_send ''OK'' (rep ps))"
    using fr(1) h lt by (simp add: sv_answer_def handle_frame_lease)
  have col: "strchr (nd_addr l @ SP # q) CHR '':'' = Some (CHR '':'' # show_nat p @ SP # q)"
    "takeWhile (\<lambda>c. c \<noteq> CHR '':'') (nd_addr l @ SP # q) = host" for q
    using assms(6,7) strchr_append[of "CHR '':''" host "show_nat p @ SP # q"] takeWhile_no[of "CHR '':''" host] by simp_all
  have at: "atoi (show_nat p @ SP # q) = int p" "atoi (show_nat (length grp) @ SP # q) = int (length grp)" for q
    using atoi_show_nat[of "SP # q" p] atoi_show_nat[of "SP # q" "length grp"] assms(8,12) by simp_all
  have g: "proto_get (rep ps) ''leader'' = Some (nd_addr l @ SP # ''peers='' @ peers @ '' rank_ids='' @ ids)"
    "proto_get (rep ps) ''ranks'' = Some (show_nat (length grp) @ SP # ''leader='' @ nd_addr l @ '' peers='' @ peers @ '' rank_ids='' @ ids)"
    "proto_get (rep ps) ''peers'' = Some (peers @ '' rank_ids='' @ ids)"
    by (simp_all add: pg kvs_def kv_word_def)
  have pl: "length (peers @ '' rank_ids='' @ ids) < 1024" using lt by (simp add: rep_def peers_def)
  have "\<exists>s'. server_lease (sv_answer c fork st now) k s = (0, s') \<and> sr_leader_host (sx_core s') = host
     \<and> sr_leader_port (sx_core s') = of_nat p \<and> sr_ranks (sx_core s') = int (length grp) \<and> sr_peers (sx_core s') = peers @ '' rank_ids='' @ ids"
    unfolding server_lease_def Let_def ans option.case rc prod.case frame.select_convs take_lease_reply_def g col
    using at pl assms(9) by simp
  then show ?thesis using ps unfolding peers_def ids_def by blast
qed

definition b_core :: server where
  "b_core = \<lparr>sr_leader_host = [], sr_leader_port = 0, sr_ranks = 0, sr_peers = [], sr_vocab_ok = True, sr_cache_dir = [],
             sr_sess = sess_init 4, sr_disk = \<lambda>_. None\<rparr>"

definition srv_b :: srv where
  "srv_b = \<lparr>sx_core = b_core, sx_node = zero_node\<lparr>nd_id := ''b'', nd_type := ''server'', nd_model := ''m''\<rparr>,
            sx_strategy = ''request'', sx_duration = 0, sx_rank_ids = [], sx_waiting = 0, sx_serving = 0, sx_total = 0,
            sx_wait_last = 0, sx_wait_max = 0, sx_infer_last = 0, sx_avg10 = 0, sx_infer_n = 0, sx_quit = False, sx_log = []\<rparr>"

lemma free_group: "[free_rank] = filter (leasable ''m'' ''b'') (sv_nodes free_pool)"
proof -
  have "leasable ''m'' ''b'' free_rank" by code_simp
  then show ?thesis by (simp add: free_pool_def)
qed

lemma rank0_leader: "is_leader rank0"
proof -
  have "atoi ''0'' = 0" using atoi_show_int[of "[]" 0] by (simp add: show_int_def show_nat.simps)
  then show ?thesis by (simp add: is_leader_def rank0_def)
qed

theorem lease_handshake_witness:
  "\<exists>s' ps. server_lease (sv_answer cfg0 (\<lambda>_. 0) free_pool 5) 0 srv_b = (0, s') \<and> mset ps = mset (map (\<lambda>n. nd_addr (sn_node n)) (take 64 [free_rank]))
    \<and> sr_leader_host (sx_core s') = ''10.0.0.1'' \<and> sr_leader_port (sx_core s') = of_nat 9000 \<and> sr_ranks (sx_core s') = int (length [free_rank])
    \<and> sr_peers (sx_core s') = join_comma 1024 True (map (takeWhile (\<lambda>c. c \<noteq> CHR '':'')) ps)
        @ '' rank_ids='' @ join_comma 512 False (map (\<lambda>n. nd_id (sn_node n)) (take 64 [free_rank]))"
proof (rule lease_handshake[where l = rank0 and ls = "[]"])
  have ad: "nd_addr rank0 = ''10.0.0.1:9000''" "nd_id rank0 = ''rank-0''" by (simp_all add: rank0_def)
  have fr: "sn_node free_rank = rank0" by (simp add: free_rank_def)
  show "srv_names srv_b" by (simp add: srv_names_def srv_b_def plain_word_def)
  show "[free_rank] = filter (leasable (nd_model (sx_node srv_b)) (nd_id (sx_node srv_b))) (sv_nodes free_pool)"
    using free_group by (simp add: srv_b_def)
  show "filter is_leader (map sn_node [free_rank]) = [] @ [rank0]" using rank0_leader by (simp add: fr)
  have "strrchr ''10.0.0.1:9000'' CHR '':'' \<noteq> None" by code_simp
  then show "has_ports (map (\<lambda>n. nd_addr (sn_node n)) (take 64 [free_rank]))"
    by (simp add: has_ports_def peer_port_def fr ad)
  have "show_nat 9000 = ''9000''" by (simp add: show_nat.simps)
  then show "nd_addr rank0 = ''10.0.0.1'' @ '':'' @ show_nat 9000" by (simp add: ad)
  show "\<forall>n\<in>set [free_rank]. SP \<notin> set (nd_addr (sn_node n)) \<and> line_text (nd_addr (sn_node n))
           \<and> SP \<notin> set (nd_id (sn_node n)) \<and> line_text (nd_id (sn_node n))"
    by (simp add: fr ad)
  fix ps assume "mset ps = mset (map (\<lambda>n. nd_addr (sn_node n)) (take 64 [free_rank]))"
  then have ps: "ps = [''10.0.0.1:9000'']" by (simp add: fr ad)
  show "length (''LEASED ranks='' @ show_nat (length [free_rank]) @ '' leader='' @ nd_addr rank0
         @ '' peers='' @ join_comma 1024 True (map (takeWhile (\<lambda>c. c \<noteq> CHR '':'')) ps)
         @ '' rank_ids='' @ join_comma 512 False (map (\<lambda>n. nd_id (sn_node n)) (take 64 [free_rank]))) < 640"
    using length_show_nat[of 1 1] by (simp add: ps fr ad join_comma_def strncat_s_def)
qed (simp_all add: srv_b_def)

text \<open>Timed and permanent leases are always refused. The supervisor reads the model name up to the
  end of the line, so with the strategies \<open>permanent\<close> and \<open>timed\<close>, whose arguments follow it, the
  name matches no rank that reports a model: the lease fails and the pool is unchanged.\<close>

theorem lease_strategies_refused:
  assumes "srv_names s" "sx_strategy s = ''permanent'' \<or> sx_strategy s = ''timed'' \<and> 0 < sx_duration s \<and> sx_duration s < 2 ^ 31"
    and "\<forall>n\<in>set (sv_nodes st). nd_type (sn_node n) = ''rank'' \<longrightarrow> nd_model (sn_node n) \<noteq> [] \<and> SP \<notin> set (nd_model (sn_node n))"
  shows "\<exists>s'. server_lease (sv_answer c fork st now) k s = (-1, s') \<and> sx_core s' = sx_core s
    \<and> handle_lease st (lease_args s) now = Ret (st, frame_send ''ERR'' ''no-rank'')"
proof -
  let ?i = "nd_id (sx_node s)" and ?m = "nd_model (sx_node s)"
  have len: "length ?i < 128" "length ?m < 128" using assms(1) by (simp_all add: srv_names_def)
  have dl: "length (show_int (sx_duration s)) \<le> 11" if "0 < sx_duration s" "sx_duration s < 2 ^ 31"
    using that length_show_nat[of "nat (sx_duration s)" 11] by (simp add: show_int_def nat_less_iff)
  obtain x where x: "lease_args s = ?i @ '' model='' @ ?m @ x" "length x < 100" "line_text x" "x \<noteq> []" "hd x = SP"
  proof (cases "sx_strategy s = ''permanent''")
    case True
    then have "lease_args s = ?i @ '' model='' @ ?m @ '' permanent''"
      using len by (simp add: lease_args_def Let_def strncat_s_def)
    then show ?thesis by (rule that) simp_all
  next
    case False
    then have d: "sx_strategy s = ''timed''" "0 < sx_duration s" "sx_duration s < 2 ^ 31" using assms(2) by auto
    have "lease_args s = ?i @ '' model='' @ ?m @ '' duration='' @ show_int (sx_duration s)"
      using len False d dl[OF d(2,3)] by (simp add: lease_args_def Let_def strncat_s_def)
    then show ?thesis
      by (rule that) (use d dl[OF d(2,3)] in \<open>simp_all add: show_int_def\<close>)
  qed
  have xs: "x = [] \<or> hd x = SP" using x by simp
  note fr = lease_frame[OF assms(1) x(2,3,1) xs]
  have "\<not> leasable (?m @ x) ?i n" if n: "n \<in> set (sv_nodes st)" for n
  proof
    assume l: "leasable (?m @ x) ?i n"
    then have "nd_model (sn_node n) = ?m @ x" using assms(3) n x(4) by (auto simp: leasable_def)
    moreover have "SP \<in> set x" using x(4,5) by (cases x) auto
    ultimately show False using assms(3) n l by (auto simp: leasable_def)
  qed
  then have nil: "filter (leasable (?m @ x) ?i) (sv_nodes st) = []" by (simp add: filter_empty_conv)
  have i: "?i \<noteq> []" using assms(1) plain_word_hd[of ?i] by (simp add: srv_names_def)
  have h: "handle_lease st (lease_args s) now = Ret (st, frame_send ''ERR'' ''no-rank'')"
    unfolding handle_lease_def Let_def fr(2,3) option.case nil using i by simp
  have fo: "frame_ok \<lparr>fr_cmd = ''ERR'', fr_args = ''no-rank''\<rparr>"
    by (simp add: frame_ok_def FRAME_CMD_MAX_def FRAME_ARGS_MAX_def)
  have rc: "frame_recv (frame_send ''ERR'' ''no-rank'') = Some (\<lparr>fr_cmd = ''ERR'', fr_args = ''no-rank''\<rparr>, [])"
    using frame_recv_send[OF fo, of "[]"] by simp
  have ans: "sv_answer c fork st now k (frame_send ''LEASE'' (lease_args s)) = Some (frame_send ''ERR'' ''no-rank'')"
    unfolding sv_answer_def fr(1) option.case prod.case handle_frame_lease h by simp
  show ?thesis unfolding server_lease_def Let_def ans option.case rc prod.case using h by simp
qed

theorem lease_strategies_refused_witness:
  "\<exists>s'. server_lease (sv_answer cfg0 (\<lambda>_. 0) free_pool 5) 0 (srv_b\<lparr>sx_strategy := ''permanent''\<rparr>) = (-1, s')
    \<and> sx_core s' = sx_core (srv_b\<lparr>sx_strategy := ''permanent''\<rparr>)
    \<and> handle_lease free_pool (lease_args (srv_b\<lparr>sx_strategy := ''permanent''\<rparr>)) 5 = Ret (free_pool, frame_send ''ERR'' ''no-rank'')"
  by (rule lease_strategies_refused)
     (simp_all add: srv_names_def srv_b_def plain_word_def free_pool_def free_rank_def rank0_def)

subsection \<open>The counters of a server\<close>

definition counters :: "srv \<Rightarrow> int \<times> int \<times> int \<times> string" where
  "counters s = (nd_inflight (sx_node s), sx_waiting s, sx_serving s, nd_id (sx_node s))"

lemma counters_lease: "server_lease sv k s = (rc, s') \<Longrightarrow> counters s' = counters s \<and> sx_strategy s' = sx_strategy s"
  by (auto simp: server_lease_def take_lease_reply_def counters_def Let_def split: option.splits if_splits prod.splits)

lemma counters_hb [simp]: "counters (srv_hb_now s) = counters s"
  by (simp add: srv_hb_now_def counters_def Let_def)

lemma counters_leave: "counters s = (i, w + 1, q, n) \<Longrightarrow> 0 \<le> w \<Longrightarrow> counters (leave_queue s) = (i, w, q, n)"
  by (auto simp: leave_queue_def counters_def)

lemma lease_poll_counters:
  "lease_poll sv k n s = (rc, s') \<Longrightarrow> counters s = (i, w + 1, q, nid) \<Longrightarrow> 0 \<le> w \<Longrightarrow> counters s' = (i, w, q, nid)"
proof (induction n arbitrary: k s)
  case 0
  then show ?case using counters_leave by auto
next
  case (Suc n)
  obtain rc1 s1 where l: "server_lease sv k s = (rc1, s1)" by fastforce
  have c: "counters s1 = (i, w + 1, q, nid)" using counters_lease[OF l] Suc.prems(2) by simp
  show ?case
  proof (cases "rc1 = 0")
    case True
    then have "s' = leave_queue s1" using Suc.prems(1) l by simp
    then show ?thesis using counters_leave[OF c Suc.prems(3)] by simp
  next
    case False
    then show ?thesis using Suc.IH[of "Suc k" "srv_hb_now s1"] Suc.prems c l by simp
  qed
qed

lemma lease_wait_counters:
  assumes "server_lease_wait sv s = (rc, s')" "0 \<le> sx_waiting s"
  shows "counters s' = counters s"
proof -
  obtain rc1 s1 where l: "server_lease sv 0 s = (rc1, s1)" by fastforce
  have c1: "counters s1 = counters s" using counters_lease[OF l] by simp
  show ?thesis
  proof (cases "rc1 = 0")
    case True
    then show ?thesis using assms(1) l c1 by (simp add: server_lease_wait_def)
  next
    case False
    let ?t = "srv_hb_now (s1\<lparr>sx_waiting := sx_waiting s1 + 1\<rparr>)"
    obtain i w q nid where c: "counters s = (i, w, q, nid)" by (cases "counters s")
    have "0 \<le> w" using assms(2) c by (simp add: counters_def)
    moreover have "counters ?t = (i, w + 1, q, nid)"
    proof -
      have "counters (s1\<lparr>sx_waiting := sx_waiting s1 + 1\<rparr>) = (i, w + 1, q, nid)" using c c1 by (auto simp: counters_def)
      then show ?thesis by simp
    qed
    moreover have "lease_poll sv 1 (SERVER_LEASE_WAIT_MS div SERVER_LEASE_POLL_MS) ?t = (rc, s')"
      using assms(1) l False by (simp add: server_lease_wait_def)
    ultimately show ?thesis using lease_poll_counters c by metis
  qed
qed

lemma srv_infer_counters:
  assumes "srv_infer E kind s args client waited = Ret (s', out)" "0 \<le> sx_waiting s" "0 \<le> sx_serving s"
  shows "counters s' = counters s"
proof (cases kind)
  case InferPlain
  then show ?thesis using assms(1) by (simp add: srv_infer_def)
next
  case InferSess
  have "counters (sess_infer_unlock ((sess_q_acquired waited (sess_q_enter s))\<lparr>sx_core := c\<rparr>)) = counters s" for c
    using assms(2,3)
    by (auto simp: counters_def sess_infer_unlock_def sess_q_acquired_def sess_q_enter_def leave_queue_def Let_def)
  moreover have "counters (s\<lparr>sx_core := c\<rparr>) = counters s" for c by (simp add: counters_def)
  ultimately show ?thesis
    using assms(1) InferSess by (auto simp: srv_infer_def Let_def run_bind_Ret split: sum.splits if_splits)
qed

text \<open>No request leaks. Whatever the supervisor and the leader answer, a handled request leaves the
  number of requests in flight, waiting and being served as it found them and the server READY.\<close>

theorem infer_counters_balanced:
  assumes "handle_infer E sv ema kind s args client waited elapsed = Ret (s', out)" "0 \<le> sx_waiting s" "0 \<le> sx_serving s"
  shows "nd_inflight (sx_node s') = nd_inflight (sx_node s) \<and> sx_waiting s' = sx_waiting s \<and> sx_serving s' = sx_serving s
    \<and> nd_state (sx_node s') = NODE_STATE_READY"
proof -
  define s0 where "s0 = srv_hb_now (s\<lparr>sx_node := (sx_node s)\<lparr>nd_inflight := nd_inflight (sx_node s) + 1, nd_state := NODE_STATE_BUSY\<rparr>\<rparr>)"
  have c0: "counters s0 = (nd_inflight (sx_node s) + 1, sx_waiting s, sx_serving s, nd_id (sx_node s))"
    by (simp add: s0_def) (simp add: counters_def)
  obtain rc s1 where l: "(if sx_strategy s0 = ''request'' then server_lease_wait sv s0 else (0, s0)) = (rc, s1)" by fastforce
  have w0: "0 \<le> sx_waiting s0" using c0 assms(2) by (simp add: counters_def)
  have c1: "counters s1 = counters s0" using l lease_wait_counters[OF _ w0] by (auto split: if_splits)
  have st: "sx_strategy s0 = sx_strategy s" by (simp add: s0_def srv_hb_now_def Let_def)
  obtain s2 o2 where m: "(if rc \<noteq> 0 then Ret (s1, sock_send_line ''ERR server: no rank leased'')
         else run_bind (srv_infer E kind s1 args client waited) (\<lambda>(s, out).
           let s = sess_infer_record ema elapsed s in
           Ret (if sx_strategy s0 = ''request'' then server_release sv 200 s else s, out))) = Ret (s2, o2)"
    and s': "s' = srv_hb_now (s2\<lparr>sx_node := (sx_node s2)\<lparr>nd_inflight := nd_inflight (sx_node s2) - 1, nd_state := NODE_STATE_READY\<rparr>\<rparr>)"
    using assms(1) unfolding handle_infer_def Let_def s0_def[symmetric] l prod.case
    by (auto simp: run_bind_Ret)
  have p1: "0 \<le> sx_waiting s1" "0 \<le> sx_serving s1" using c1 c0 assms(2,3) by (simp_all add: counters_def)
  have rel: "counters (server_release sv k t) = counters t" "counters (sess_infer_record ema elapsed t) = counters t" for k t
    by (simp_all add: counters_def server_release_def sess_infer_record_def Let_def split: option.split)
  have c2: "counters s2 = counters s1"
    using m srv_infer_counters[OF _ p1] by (auto simp: run_bind_Ret Let_def rel split: if_splits)
  then show ?thesis
    using c0 c1 by (simp add: s' srv_hb_now_def Let_def counters_def)
qed

text \<open>A server whose leader cannot be reached.\<close>

definition idle_env :: sess_env where
  "idle_env = \<lparr>en_net = \<lambda>_ _ _. None, en_mem = \<lambda>_. True, en_room = 1000, en_now = 5, en_fmt = \<lambda>_. ''1'',
               en_ids = \<lambda>_. [1, 2, 3], en_eos = 9\<rparr>"

theorem infer_counters_balanced_witness:
  "\<exists>s' out. handle_infer idle_env (\<lambda>_ _. None) (\<lambda>a _. a) InferPlain (srv_b\<lparr>sx_strategy := ''timed''\<rparr>) ''m 5 0'' [] 0 7 = Ret (s', out) \<and>
     (nd_inflight (sx_node s') = 0 \<and> sx_waiting s' = 0 \<and> sx_serving s' = 0 \<and> nd_state (sx_node s') = NODE_STATE_READY)"
proof -
  let ?s = "srv_b\<lparr>sx_strategy := ''timed''\<rparr>"
  have "\<exists>r. handle_infer idle_env (\<lambda>_ _. None) (\<lambda>a _. a) InferPlain ?s ''m 5 0'' [] 0 7 = Ret r"
    by (simp add: handle_infer_def Let_def srv_infer_def srv_hb_now_def srv_b_def)
  then obtain s' out where r: "handle_infer idle_env (\<lambda>_ _. None) (\<lambda>a _. a) InferPlain ?s ''m 5 0'' [] 0 7 = Ret (s', out)" by auto
  have z: "nd_inflight (sx_node ?s) = 0" "sx_waiting ?s = 0" "sx_serving ?s = 0" by (simp_all add: srv_b_def zero_node_def)
  show ?thesis using infer_counters_balanced[OF r] z r by simp
qed

end
