(* ===== verification/RateLimit.thy ===== *)
theory RateLimit
  imports RouterTable
begin

text \<open>
  Admission control of the HTTP entry (\<^verbatim>\<open>serve/router_http.c\<close>): the requests-per-minute and
  tokens-per-minute limiter, a ring of 60 one-second slots, and the queue-depth limit. The
  clock \<open>time(NULL)\<close> is an argument; \<open>time_t\<close> is an integer. The abstract side is a log of
  events, each with its second, its requests and its tokens; the window of a second \<open>now\<close> is
  the last 60 seconds of the log.
\<close>

subsection \<open>The ring of slots\<close>

definition RL_WIN :: nat where "RL_WIN = 60"

record rl_slot =
  sl_sec :: int
  sl_req :: int
  sl_tok :: int

type_synonym rl_ring = "rl_slot list"

definition zero_slot :: rl_slot where
  "zero_slot = \<lparr>sl_sec = 0, sl_req = 0, sl_tok = 0\<rparr>"

definition rl_zero :: rl_ring where
  "rl_zero = replicate RL_WIN zero_slot"

text \<open>The loop of \<open>rl_scan\<close>: expired slots are cleared on the way; the result is the ring and
  the counters \<open>req\<close>, \<open>tok\<close>, \<open>oldest\<close>.\<close>

fun rl_scan_loop :: "int \<Rightarrow> int \<times> int \<times> int \<Rightarrow> rl_ring \<Rightarrow> rl_ring \<times> int \<times> int \<times> int" where
  "rl_scan_loop now (req, tok, oldest) [] = ([], req, tok, oldest)"
| "rl_scan_loop now (req, tok, oldest) (s # ss) =
     (if sl_sec s = 0 then (case rl_scan_loop now (req, tok, oldest) ss of (r, q) \<Rightarrow> (s # r, q))
      else let a = now - sl_sec s in
        if a \<ge> int RL_WIN then (case rl_scan_loop now (req, tok, oldest) ss of (r, q) \<Rightarrow> (zero_slot # r, q))
        else (case rl_scan_loop now (req + sl_req s, tok + sl_tok s, if oldest < 0 \<or> a > oldest then a else oldest) ss
              of (r, q) \<Rightarrow> (s # r, q)))"

text \<open>Result: the ring, the requests, the age of the oldest live slot, the tokens.\<close>

definition rl_scan :: "rl_ring \<Rightarrow> int \<Rightarrow> rl_ring \<times> int \<times> int \<times> int" where
  "rl_scan g now = (case rl_scan_loop now (0, 0, -1) g of (g', req, tok, oldest) \<Rightarrow> (g', req, oldest, tok))"

definition rl_slot_reset :: "rl_ring \<Rightarrow> nat \<Rightarrow> int \<Rightarrow> rl_ring" where
  "rl_slot_reset g i now = (if sl_sec (g ! i) \<noteq> now then g[i := \<lparr>sl_sec = now, sl_req = 0, sl_tok = 0\<rparr>] else g)"

definition rl_idx :: "int \<Rightarrow> nat" where
  "rl_idx now = nat (now mod int RL_WIN)"

definition rl_bump_req :: "rl_ring \<Rightarrow> int \<Rightarrow> rl_ring" where
  "rl_bump_req g now =
     (let i = rl_idx now; g = rl_slot_reset g i now in g[i := (g ! i)\<lparr>sl_req := sl_req (g ! i) + 1\<rparr>])"

definition rl_bump_tokens :: "rl_ring \<Rightarrow> int \<Rightarrow> int \<Rightarrow> rl_ring" where
  "rl_bump_tokens g now n =
     (if n \<le> 0 then g
      else let i = rl_idx now; g = rl_slot_reset g i now in g[i := (g ! i)\<lparr>sl_tok := sl_tok (g ! i) + n\<rparr>])"

record rl_limits =
  lim_rpm :: int
  lim_tpm :: int

definition router_http_set_rate_limits :: "int \<Rightarrow> int \<Rightarrow> rl_limits" where
  "router_http_set_rate_limits rpm tpm =
     \<lparr>lim_rpm = (if rpm > 0 then rpm else 0), lim_tpm = (if tpm > 0 then tpm else 0)\<rparr>"

text \<open>The decision of \<open>http_reject_if_rate_limited\<close>: the ring and, on rejection, the
  \<open>Retry-After\<close> seconds with the counts it reports.\<close>

definition rate_limited :: "rl_limits \<Rightarrow> rl_ring \<Rightarrow> int \<Rightarrow> rl_ring \<times> (int \<times> int \<times> int) option" where
  "rate_limited l g now =
     (if lim_rpm l \<le> 0 \<and> lim_tpm l \<le> 0 then (g, None)
      else case rl_scan g now of (g, reqs, age, tok) \<Rightarrow>
        let over = (lim_rpm l > 0 \<and> reqs \<ge> lim_rpm l) \<or> (lim_tpm l > 0 \<and> tok \<ge> lim_tpm l) in
        if \<not> over then (rl_bump_req g now, None)
        else (g, Some (if age \<ge> 0 \<and> age < int RL_WIN then int RL_WIN - age else 1, reqs, tok)))"

subsection \<open>The queue limit\<close>

text \<open>The sums over the table of servers and the largest average (in tenths).\<close>

definition queue_snapshot :: "router \<Rightarrow> (router \<times> int \<times> int \<times> int) run" where
  "queue_snapshot r =
     run_bind (lock r) (\<lambda>r.
       Ret (unlock r, sum_list (map rs_inflight (rt_servers r)), sum_list (map rs_waiting (rt_servers r)),
            fold (\<lambda>s m. if rs_avg10 s > m then rs_avg10 s else m) (rt_servers r) 0))"

definition router_http_set_queue_cap :: "int \<Rightarrow> int" where
  "router_http_set_queue_cap cap = (if cap > 0 then cap else 0)"

text \<open>The decision of \<open>http_reject_if_busy\<close>: the \<open>Retry-After\<close> seconds and the queue depth.\<close>

definition queue_busy :: "int \<Rightarrow> router \<Rightarrow> (router \<times> (int \<times> int) option) run" where
  "queue_busy cap r =
     (if cap \<le> 0 then Ret (r, None)
      else run_bind (queue_snapshot r) (\<lambda>(r, _, wt, _).
        if wt < cap then Ret (r, None)
        else let ra = 1 + (wt - cap + 1) in Ret (r, Some (if ra > 30 then 30 else ra, wt))))"

subsection \<open>The log of events\<close>

record rl_event =
  ev_time :: int
  ev_req :: int
  ev_tok :: int

definition in_win :: "int \<Rightarrow> rl_event \<Rightarrow> bool" where
  "in_win now e \<longleftrightarrow> now - int RL_WIN < ev_time e \<and> ev_time e \<le> now"

definition win_req :: "int \<Rightarrow> rl_event list \<Rightarrow> int" where
  "win_req now lg = sum_list (map ev_req (filter (in_win now) lg))"

definition win_tok :: "int \<Rightarrow> rl_event list \<Rightarrow> int" where
  "win_tok now lg = sum_list (map ev_tok (filter (in_win now) lg))"

text \<open>Slot \<open>i\<close> stands for the latest second of residue \<open>i\<close> with an event; a cleared slot has no
  event of its residue left in the window.\<close>

definition at_sec :: "int \<Rightarrow> rl_event list \<Rightarrow> rl_event list" where
  "at_sec t lg = filter (\<lambda>e. ev_time e = t) lg"

definition slot_ok :: "int \<Rightarrow> rl_event list \<Rightarrow> nat \<Rightarrow> rl_slot \<Rightarrow> bool" where
  "slot_ok now lg i s \<longleftrightarrow>
     (if sl_sec s = 0 then (\<forall>e\<in>set lg. rl_idx (ev_time e) = i \<longrightarrow> \<not> in_win now e)
      else 0 < sl_sec s \<and> sl_sec s \<le> now \<and> rl_idx (sl_sec s) = i
        \<and> sl_req s = sum_list (map ev_req (at_sec (sl_sec s) lg))
        \<and> sl_tok s = sum_list (map ev_tok (at_sec (sl_sec s) lg))
        \<and> at_sec (sl_sec s) lg \<noteq> []
        \<and> (\<forall>e\<in>set lg. rl_idx (ev_time e) = i \<longrightarrow> ev_time e \<le> sl_sec s))"

definition ring_ok :: "int \<Rightarrow> rl_event list \<Rightarrow> rl_ring \<Rightarrow> bool" where
  "ring_ok now lg g \<longleftrightarrow> length g = RL_WIN \<and> (\<forall>i<RL_WIN. slot_ok now lg i (g ! i))
     \<and> (\<forall>e\<in>set lg. 0 < ev_time e \<and> ev_time e \<le> now)"

text \<open>The reachable states: requests that are admitted or rejected and tokens booked, at
  times that never decrease.\<close>

inductive rl_reach :: "rl_limits \<Rightarrow> int \<Rightarrow> rl_ring \<Rightarrow> rl_event list \<Rightarrow> bool" for l where
  start: "0 < t \<Longrightarrow> rl_reach l t rl_zero []"
| admit: "rl_reach l now g lg \<Longrightarrow> now \<le> t \<Longrightarrow> 0 < lim_rpm l \<or> 0 < lim_tpm l \<Longrightarrow> rate_limited l g t = (g', None) \<Longrightarrow>
    rl_reach l t g' (lg @ [\<lparr>ev_time = t, ev_req = 1, ev_tok = 0\<rparr>])"
| reject: "rl_reach l now g lg \<Longrightarrow> now \<le> t \<Longrightarrow> rate_limited l g t = (g', Some x) \<Longrightarrow> rl_reach l t g' lg"
| tokens: "rl_reach l now g lg \<Longrightarrow> now \<le> t \<Longrightarrow> 0 < n \<Longrightarrow>
    rl_reach l t (rl_bump_tokens g t n) (lg @ [\<lparr>ev_time = t, ev_req = 0, ev_tok = n\<rparr>])"

inductive_cases rl_reach_cases: "rl_reach l now g lg"

subsection \<open>The ring is the window\<close>

lemma rl_idx_less: "rl_idx t < RL_WIN"
  by (simp add: rl_idx_def RL_WIN_def nat_less_iff)

text \<open>Two seconds less than 60 apart have the same residue only when they are equal.\<close>

lemma rl_idx_inj: "rl_idx a = rl_idx b \<Longrightarrow> \<bar>a - b\<bar> < int RL_WIN \<Longrightarrow> a = b"
proof -
  assume "rl_idx a = rl_idx b" and d: "\<bar>a - b\<bar> < int RL_WIN"
  then have "a mod 60 = b mod 60" by (simp add: rl_idx_def RL_WIN_def nat_eq_iff)
  then have "60 dvd a - b" by (simp add: mod_eq_dvd_iff)
  then show "a = b" using d zdvd_imp_le[of 60 "\<bar>a - b\<bar>"] by (cases "a = b") (auto simp: RL_WIN_def)
qed

text \<open>What slot \<open>i\<close> contributes to the window.\<close>

definition live :: "int \<Rightarrow> rl_slot \<Rightarrow> bool" where
  "live now s \<longleftrightarrow> sl_sec s \<noteq> 0 \<and> now - sl_sec s < int RL_WIN"

lemma filter_idx_split:
  "sum_list (map f lg) = (\<Sum>i<RL_WIN. sum_list (map f (filter (\<lambda>e. rl_idx (ev_time e) = i) lg)))" for f :: "rl_event \<Rightarrow> int"
proof (induction lg)
  case (Cons e lg)
  have "(\<Sum>i<RL_WIN. sum_list (map f (filter (\<lambda>x. rl_idx (ev_time x) = i) (e # lg)))) =
      (\<Sum>i<RL_WIN. (if i = rl_idx (ev_time e) then f e else 0) + sum_list (map f (filter (\<lambda>x. rl_idx (ev_time x) = i) lg)))"
    by (rule sum.cong) auto
  also have "\<dots> = f e + (\<Sum>i<RL_WIN. sum_list (map f (filter (\<lambda>x. rl_idx (ev_time x) = i) lg)))"
    using rl_idx_less[of "ev_time e"] by (simp add: sum.distrib)
  finally show ?case using Cons by simp
qed simp

lemma slot_contrib:
  assumes "slot_ok now lg i s" "\<forall>e\<in>set lg. ev_time e \<le> now" "now \<le> t"
  shows "filter (\<lambda>e. rl_idx (ev_time e) = i) (filter (in_win t) lg) =
    (if live t s then at_sec (sl_sec s) lg else [])"
proof (cases "live t s")
  case True
  then have s: "sl_sec s \<noteq> 0" "t - sl_sec s < int RL_WIN" by (auto simp: live_def)
  have so: "sl_sec s \<le> now" "rl_idx (sl_sec s) = i" "\<forall>e\<in>set lg. rl_idx (ev_time e) = i \<longrightarrow> ev_time e \<le> sl_sec s"
    using assms(1) s by (auto simp: slot_ok_def)
  have "in_win t e \<and> rl_idx (ev_time e) = i \<longleftrightarrow> ev_time e = sl_sec s" if e: "e \<in> set lg" for e
  proof
    assume a: "in_win t e \<and> rl_idx (ev_time e) = i"
    then have "ev_time e \<le> sl_sec s" using so(3) e by blast
    moreover have "\<bar>ev_time e - sl_sec s\<bar> < int RL_WIN"
      using a s so calculation assms(3) by (auto simp: in_win_def)
    ultimately show "ev_time e = sl_sec s" using rl_idx_inj a so(2) by metis
  next
    assume "ev_time e = sl_sec s"
    then show "in_win t e \<and> rl_idx (ev_time e) = i" using s so assms(3) by (auto simp: in_win_def)
  qed
  then have "filter (\<lambda>e. rl_idx (ev_time e) = i) (filter (in_win t) lg) = at_sec (sl_sec s) lg"
    unfolding at_sec_def filter_filter by (intro filter_cong) auto
  then show ?thesis using True by simp
next
  case False
  have "\<not> (in_win t e \<and> rl_idx (ev_time e) = i)" if e: "e \<in> set lg" for e
  proof (cases "sl_sec s = 0")
    case True
    then show ?thesis using assms e by (auto simp: slot_ok_def in_win_def)
  next
    case nz: False
    then have "t - sl_sec s \<ge> int RL_WIN" using False by (simp add: live_def)
    moreover have "rl_idx (ev_time e) = i \<longrightarrow> ev_time e \<le> sl_sec s"
      using assms(1) nz e by (auto simp: slot_ok_def)
    ultimately show ?thesis by (auto simp: in_win_def)
  qed
  then have "filter (\<lambda>e. rl_idx (ev_time e) = i) (filter (in_win t) lg) = []"
    by (auto simp: filter_empty_conv)
  then show ?thesis using False by simp
qed

definition expire :: "int \<Rightarrow> rl_slot \<Rightarrow> rl_slot" where
  "expire now s = (if sl_sec s \<noteq> 0 \<and> \<not> live now s then zero_slot else s)"

definition ages :: "int \<Rightarrow> rl_ring \<Rightarrow> int list" where
  "ages now g = map (\<lambda>s. now - sl_sec s) (filter (live now) g)"

lemma rl_scan_loop_spec:
  "rl_scan_loop now (req, tok, old) ss =
     (map (expire now) ss, req + sum_list (map sl_req (filter (live now) ss)),
      tok + sum_list (map sl_tok (filter (live now) ss)),
      fold (\<lambda>a ol. if ol < 0 \<or> a > ol then a else ol) (ages now ss) old)"
proof (induction ss arbitrary: req tok old)
  case (Cons s ss)
  consider (z) "sl_sec s = 0" | (x) "sl_sec s \<noteq> 0" "\<not> live now s" | (l) "live now s" by (auto simp: live_def)
  then show ?case
  proof cases
    case z
    then show ?thesis by (simp add: Cons expire_def live_def ages_def)
  next
    case x
    then have "now - sl_sec s \<ge> int RL_WIN" by (simp add: live_def)
    then show ?thesis using x by (simp add: Cons expire_def ages_def)
  next
    case l
    then have "sl_sec s \<noteq> 0" "\<not> now - sl_sec s \<ge> int RL_WIN" by (simp_all add: live_def)
    then show ?thesis using l by (simp add: Cons expire_def ages_def)
  qed
qed (simp add: ages_def)

lemma fold_oldest:
  "\<forall>a\<in>set as. 0 \<le> a \<Longrightarrow> -1 \<le> (ol :: int) \<Longrightarrow>
   let m = fold (\<lambda>a ol. if ol < 0 \<or> a > ol then a else ol) as ol in
   ol \<le> m \<and> (\<forall>a\<in>set as. a \<le> m) \<and> (m = ol \<or> m \<in> set as)"
proof (induction as arbitrary: ol)
  case (Cons a as)
  let ?o = "if ol < 0 \<or> a > ol then a else ol"
  have "0 \<le> a" using Cons.prems(1) by simp
  then have "-1 \<le> ?o" using Cons.prems(2) by (auto split: if_split)
  then show ?case using Cons.IH[of ?o] Cons.prems by (auto simp: Let_def split: if_splits)
qed simp

lemma at_sec_append: "at_sec t (lg @ [e]) = at_sec t lg @ (if ev_time e = t then [e] else [])"
  by (simp add: at_sec_def)

lemma slot_ok_later:
  assumes "slot_ok now lg i s" "now \<le> t" "\<forall>e\<in>set lg. ev_time e \<le> now"
  shows "slot_ok t lg i s" "slot_ok t lg i (expire t s)"
proof -
  show 1: "slot_ok t lg i s"
    using assms by (auto simp: slot_ok_def in_win_def split: if_splits)
  show "slot_ok t lg i (expire t s)"
  proof (cases "sl_sec s \<noteq> 0 \<and> \<not> live t s")
    case True
    have "filter (\<lambda>e. rl_idx (ev_time e) = i) (filter (in_win t) lg) = []"
      using slot_contrib[OF assms(1,3,2)] True by simp
    then show ?thesis
      using True by (auto simp: expire_def slot_ok_def zero_slot_def filter_empty_conv)
  qed (use 1 in \<open>auto simp: expire_def\<close>)
qed

lemma ring_ok_scan:
  assumes "ring_ok now lg g" "now \<le> t"
  shows "ring_ok t lg (fst (rl_scan g t))" "rl_scan g t = (map (expire t) g, win_req t lg,
     fold (\<lambda>a ol. if ol < 0 \<or> a > ol then a else ol) (ages t g) (-1), win_tok t lg)"
proof -
  have le: "\<forall>e\<in>set lg. ev_time e \<le> now" and len: "length g = RL_WIN"
    and sl: "\<And>i. i < RL_WIN \<Longrightarrow> slot_ok now lg i (g ! i)"
    using assms(1) by (auto simp: ring_ok_def)
  have g: "g = map (\<lambda>i. g ! i) [0..<RL_WIN]" using map_nth[of g] len by simp
  have part: "sum_list (map f (filter (in_win t) lg)) = sum_list (map h (filter (live t) g))"
    if fh: "\<And>i s. slot_ok now lg i s \<Longrightarrow> sl_sec s \<noteq> 0 \<Longrightarrow> h s = sum_list (map f (at_sec (sl_sec s) lg))"
    for f :: "rl_event \<Rightarrow> int" and h
  proof -
    have "sum_list (map f (filter (in_win t) lg)) =
        (\<Sum>i<RL_WIN. sum_list (map f (filter (\<lambda>e. rl_idx (ev_time e) = i) (filter (in_win t) lg))))"
      by (rule filter_idx_split)
    also have "\<dots> = (\<Sum>i<RL_WIN. if live t (g ! i) then h (g ! i) else 0)"
      using slot_contrib[OF sl le assms(2)] fh[OF sl] by (intro sum.cong) (auto simp: live_def)
    also have "\<dots> = sum_list (map (\<lambda>i. if live t (g ! i) then h (g ! i) else 0) [0..<RL_WIN])"
      by (simp add: interv_sum_list_conv_sum_set_nat atLeast0LessThan)
    also have "\<dots> = sum_list (map (\<lambda>s. if live t s then h s else 0) g)"
      by (subst (3) g) (simp add: comp_def)
    also have "\<dots> = sum_list (map h (filter (live t) g))"
      by (rule sum_list_map_filter'[symmetric])
    finally show ?thesis .
  qed
  show sc: "rl_scan g t = (map (expire t) g, win_req t lg,
     fold (\<lambda>a ol. if ol < 0 \<or> a > ol then a else ol) (ages t g) (-1), win_tok t lg)"
    using part[of sl_req ev_req] part[of sl_tok ev_tok]
    by (simp add: rl_scan_def rl_scan_loop_spec win_req_def win_tok_def slot_ok_def)
  show "ring_ok t lg (fst (rl_scan g t))"
    using assms(1) slot_ok_later(2)[OF sl assms(2) le] assms(2) by (auto simp: sc ring_ok_def)
qed

text \<open>Booking an event in the slot of its second.\<close>

lemma ring_ok_book:
  assumes "ring_ok now lg g" "now \<le> t" "0 < t" "ev_time e = t"
    and g1: "g1 = rl_slot_reset g (rl_idx t) t"
    and s: "s = (g1 ! rl_idx t)\<lparr>sl_req := sl_req (g1 ! rl_idx t) + ev_req e, sl_tok := sl_tok (g1 ! rl_idx t) + ev_tok e\<rparr>"
  shows "ring_ok t (lg @ [e]) (g1[rl_idx t := s])"
proof -
  have le: "\<forall>e\<in>set lg. 0 < ev_time e \<and> ev_time e \<le> now" and len: "length g = RL_WIN"
    and sl: "\<And>i. i < RL_WIN \<Longrightarrow> slot_ok now lg i (g ! i)"
    using assms(1) by (auto simp: ring_ok_def)
  define i where "i = rl_idx t"
  have i: "i < RL_WIN" "i < length g" using rl_idx_less len by (simp_all add: i_def)
  have len1: "length g1 = RL_WIN" by (simp add: g1 rl_slot_reset_def len)
  have other: "g1 ! j = g ! j" if "j \<noteq> i" for j using that by (simp add: g1 rl_slot_reset_def i_def)
  have "slot_ok t (lg @ [e]) j (g1[i := s] ! j)" if j: "j < RL_WIN" for j
  proof (cases "j = i")
    case False
    have "rl_idx (ev_time e) \<noteq> j" using False assms(4) by (simp add: i_def)
    moreover have "slot_ok t lg j (g ! j)" using slot_ok_later(1)[OF sl[OF j] assms(2)] le by auto
    ultimately show ?thesis
      using False other assms(4) by (auto simp: slot_ok_def at_sec_append i_def split: if_splits)
  next
    case True
    have sec: "sl_sec s = t" using i by (simp add: s g1 rl_slot_reset_def i_def[symmetric])
    have cnt: "sl_req (g1 ! i) = sum_list (map ev_req (at_sec t lg)) \<and> sl_tok (g1 ! i) = sum_list (map ev_tok (at_sec t lg))"
    proof (cases "sl_sec (g ! i) = t")
      case True
      then show ?thesis using sl[OF i(1)] assms(3) by (simp add: g1 rl_slot_reset_def i_def[symmetric] slot_ok_def)
    next
      case False
      have "at_sec t lg = []"
      proof (cases "sl_sec (g ! i) = 0")
        case True
        show ?thesis
        proof (rule ccontr)
          assume "at_sec t lg \<noteq> []"
          then obtain x where x: "x \<in> set lg" "ev_time x = t" by (auto simp: at_sec_def filter_empty_conv)
          then have "t \<le> now" using le by auto
          then have "in_win now x" using x assms(2) by (simp add: in_win_def RL_WIN_def)
          then show False using sl[OF i(1)] True x by (auto simp: slot_ok_def i_def)
        qed
      next
        case nz: False
        then have b: "\<forall>x\<in>set lg. rl_idx (ev_time x) = i \<longrightarrow> ev_time x \<le> sl_sec (g ! i)" "sl_sec (g ! i) \<le> now"
          using sl[OF i(1)] by (auto simp: slot_ok_def)
        then have "\<forall>x\<in>set lg. ev_time x \<noteq> t" using False assms(2) by (auto simp: i_def)
        then show ?thesis by (auto simp: at_sec_def filter_empty_conv)
      qed
      then show ?thesis using False i by (simp add: g1 rl_slot_reset_def i_def[symmetric])
    qed
    have "\<forall>x\<in>set (lg @ [e]). ev_time x \<le> t" using le assms(2,4) by auto
    then show ?thesis
      using True len1 i sec cnt assms(3,4) by (simp add: slot_ok_def i_def[symmetric] at_sec_append s)
  qed
  moreover have "\<forall>x\<in>set (lg @ [e]). 0 < ev_time x \<and> ev_time x \<le> t" using le assms(2-4) by auto
  ultimately show ?thesis using len1 by (simp add: ring_ok_def i_def[symmetric])
qed

lemma ring_ok_zero: "ring_ok now [] rl_zero"
  by (auto simp: ring_ok_def rl_zero_def slot_ok_def zero_slot_def)

lemma ring_ok_mono_pos: "rl_reach l now g lg \<Longrightarrow> 0 < now"
  by (induction rule: rl_reach.induct) auto

lemma bump_as_book:
  "rl_bump_req g t = (rl_slot_reset g (rl_idx t) t)[rl_idx t := (rl_slot_reset g (rl_idx t) t ! rl_idx t)
     \<lparr>sl_req := sl_req (rl_slot_reset g (rl_idx t) t ! rl_idx t) + 1, sl_tok := sl_tok (rl_slot_reset g (rl_idx t) t ! rl_idx t) + 0\<rparr>]"
  "0 < n \<Longrightarrow> rl_bump_tokens g t n = (rl_slot_reset g (rl_idx t) t)[rl_idx t := (rl_slot_reset g (rl_idx t) t ! rl_idx t)
     \<lparr>sl_req := sl_req (rl_slot_reset g (rl_idx t) t ! rl_idx t) + 0, sl_tok := sl_tok (rl_slot_reset g (rl_idx t) t ! rl_idx t) + n\<rparr>]"
  by (simp_all add: rl_bump_req_def rl_bump_tokens_def Let_def)

lemma ring_ok_bump:
  assumes "ring_ok now lg g" "now \<le> t" "0 < t"
  shows "ring_ok t (lg @ [\<lparr>ev_time = t, ev_req = 1, ev_tok = 0\<rparr>]) (rl_bump_req g t)"
    "0 < n \<Longrightarrow> ring_ok t (lg @ [\<lparr>ev_time = t, ev_req = 0, ev_tok = n\<rparr>]) (rl_bump_tokens g t n)"
  using ring_ok_book[OF assms, of "\<lparr>ev_time = t, ev_req = 1, ev_tok = 0\<rparr>", OF _ refl refl]
    ring_ok_book[OF assms, of "\<lparr>ev_time = t, ev_req = 0, ev_tok = n\<rparr>", OF _ refl refl]
  by (simp_all add: bump_as_book)

lemma limited_admit:
  assumes "ring_ok now lg g" "now \<le> t" "0 < lim_rpm l \<or> 0 < lim_tpm l"
  shows "(\<exists>g'. rate_limited l g t = (g', None)) \<longleftrightarrow>
     \<not> (0 < lim_rpm l \<and> lim_rpm l \<le> win_req t lg) \<and> \<not> (0 < lim_tpm l \<and> lim_tpm l \<le> win_tok t lg)"
    "rate_limited l g t = (g', None) \<Longrightarrow> g' = rl_bump_req (fst (rl_scan g t)) t"
    "rate_limited l g t = (g', Some x) \<Longrightarrow> g' = fst (rl_scan g t)"
  using assms(3) ring_ok_scan(2)[OF assms(1,2)] by (auto simp: rate_limited_def Let_def split: if_splits)

lemma rl_reach_ok: "rl_reach l now g lg \<Longrightarrow> ring_ok now lg g"
proof (induction rule: rl_reach.induct)
  case (start t)
  then show ?case by (simp add: ring_ok_zero)
next
  case (admit now g lg t g')
  have "0 < t" using ring_ok_mono_pos[OF admit(1)] admit(2) by simp
  then show ?case
    using ring_ok_bump(1)[OF ring_ok_scan(1)[OF admit(5,2)], of t] limited_admit(2)[OF admit(5,2,3,4)] by simp
next
  case (reject now g lg t g' x)
  have "0 < lim_rpm l \<or> 0 < lim_tpm l" by (rule ccontr) (use reject(3) in \<open>simp add: rate_limited_def not_less\<close>)
  then show ?case using ring_ok_scan(1)[OF reject(4,2)] limited_admit(3)[OF reject(4,2) _ reject(3)] by simp
next
  case (tokens now g lg t n)
  have "0 < t" using ring_ok_mono_pos[OF tokens(1)] tokens(2) by simp
  then show ?case using ring_ok_bump(2)[OF tokens(4,2) _ tokens(3)] by simp
qed

text \<open>C14: The limiter is an exact sliding window. In every state reached by admitting, rejecting
  and booking at non-decreasing times, a request at a later second \<open>t\<close> is rejected exactly
  when the requests, or the tokens, of the last 60 seconds have reached their limit; and the
  \<open>Retry-After\<close> it gives is at least 1 and is the first moment at which the oldest event of
  the window has left it.\<close>

theorem rate_limiter_exact:
  assumes "rl_reach l now g lg" "now \<le> t" "0 < lim_rpm l \<or> 0 < lim_tpm l"
  shows "case snd (rate_limited l g t) of
      None \<Rightarrow> \<not> (0 < lim_rpm l \<and> lim_rpm l \<le> win_req t lg) \<and> \<not> (0 < lim_tpm l \<and> lim_tpm l \<le> win_tok t lg)
    | Some (ra, reqs, tok) \<Rightarrow>
        ((0 < lim_rpm l \<and> lim_rpm l \<le> win_req t lg) \<or> (0 < lim_tpm l \<and> lim_tpm l \<le> win_tok t lg))
        \<and> reqs = win_req t lg \<and> tok = win_tok t lg \<and> 1 \<le> ra
        \<and> (\<exists>e\<in>set lg. in_win t e \<and> (\<forall>e'\<in>set lg. in_win t e' \<longrightarrow> ev_time e \<le> ev_time e') \<and> ra = ev_time e + int RL_WIN - t)"
proof (cases "snd (rate_limited l g t)")
  case None
  then have "\<exists>g'. rate_limited l g t = (g', None)" by (cases "rate_limited l g t") auto
  then show ?thesis using limited_admit(1)[OF rl_reach_ok[OF assms(1)] assms(2,3)] None by simp
next
  case (Some x)
  have ok: "ring_ok now lg g" by (rule rl_reach_ok[OF assms(1)])
  define m where "m = fold (\<lambda>a ol. if ol < 0 \<or> a > ol then a else ol) (ages t g) (-1)"
  note sc = ring_ok_scan(2)[OF ok assms(2), folded m_def]
  have over: "(0 < lim_rpm l \<and> lim_rpm l \<le> win_req t lg) \<or> (0 < lim_tpm l \<and> lim_tpm l \<le> win_tok t lg)"
    and x: "x = (if m \<ge> 0 \<and> m < int RL_WIN then int RL_WIN - m else 1, win_req t lg, win_tok t lg)"
    using Some assms(3) sc by (auto simp: rate_limited_def Let_def split: if_splits)
  have sl: "\<And>i. i < RL_WIN \<Longrightarrow> slot_ok now lg i (g ! i)" and len: "length g = RL_WIN"
    and le: "\<forall>e\<in>set lg. ev_time e \<le> now" using ok by (auto simp: ring_ok_def)
  have age0: "\<forall>a\<in>set (ages t g). 0 \<le> a"
    using sl len assms(2) by (force simp: ages_def live_def slot_ok_def in_set_conv_nth)
  have m: "-1 \<le> m" "\<forall>a\<in>set (ages t g). a \<le> m" "m = -1 \<or> m \<in> set (ages t g)"
    using fold_oldest[OF age0, of "-1"] by (auto simp: m_def Let_def)
  have "\<exists>e\<in>set lg. in_win t e"
  proof (rule ccontr)
    assume "\<not> (\<exists>e\<in>set lg. in_win t e)"
    then have "filter (in_win t) lg = []" by (auto simp: filter_empty_conv)
    then show False using over by (auto simp: win_req_def win_tok_def)
  qed
  then obtain e0 where e0: "e0 \<in> set lg" "in_win t e0" by blast
  have in_ages: "t - ev_time e \<in> set (ages t g)" if e: "e \<in> set lg" "in_win t e" for e
  proof -
    let ?i = "rl_idx (ev_time e)"
    have "e \<in> set (filter (\<lambda>x. rl_idx (ev_time x) = ?i) (filter (in_win t) lg))" using e by simp
    then have "e \<in> set (if live t (g ! ?i) then at_sec (sl_sec (g ! ?i)) lg else [])"
      unfolding slot_contrib[OF sl[OF rl_idx_less] le assms(2), of "ev_time e"] .
    then have "live t (g ! ?i)" "ev_time e = sl_sec (g ! ?i)"
      by (simp_all add: at_sec_def split: if_splits)
    then show ?thesis using rl_idx_less len by (auto simp: ages_def in_set_conv_nth image_iff intro!: bexI[of _ "g ! ?i"])
  qed
  have mem: "m \<in> set (ages t g)" using m(3) in_ages[OF e0] age0 m(2) by force
  then obtain s where s: "s \<in> set g" "live t s" "m = t - sl_sec s" by (auto simp: ages_def)
  then obtain i where i: "i < RL_WIN" "g ! i = s" using len by (auto simp: in_set_conv_nth)
  obtain e where e: "e \<in> set lg" "ev_time e = sl_sec s"
    using sl[OF i(1)] i(2) s(2) by (fastforce simp: slot_ok_def live_def at_sec_def filter_empty_conv)
  have "in_win t e" using s e le assms(2) by (fastforce simp: in_win_def live_def)
  moreover have "\<forall>e'\<in>set lg. in_win t e' \<longrightarrow> ev_time e \<le> ev_time e'" using in_ages m(2) s e by fastforce
  moreover have "0 \<le> m" "m < int RL_WIN" using mem age0 s by (auto simp: live_def)
  ultimately show ?thesis using Some x over e s by (auto intro!: bexI[of _ e])
qed

lemma win_append: "win_req now (lg @ [e]) = win_req now lg + (if in_win now e then ev_req e else 0)"
  by (simp add: win_req_def)

lemma win_req_later:
  assumes "\<forall>e\<in>set lg. 0 \<le> ev_req e" "\<forall>e\<in>set lg. ev_time e \<le> now" "now \<le> t"
  shows "win_req t lg \<le> win_req now lg"
  using assms(1,2)
proof (induction lg)
  case (Cons e lg)
  have "in_win t e \<Longrightarrow> in_win now e" using Cons.prems(2) assms(3) by (auto simp: in_win_def)
  then show ?case using Cons by (auto simp: win_req_def)
qed (simp add: win_req_def)

lemma rl_reach_req: "rl_reach l now g lg \<Longrightarrow> \<forall>e\<in>set lg. 0 \<le> ev_req e"
  by (induction rule: rl_reach.induct) auto

text \<open>With a request limit set, no 60-second window of a run ever holds more admitted
  requests than the limit.\<close>

theorem rpm_never_exceeded:
  assumes "rl_reach l now g lg" "0 < lim_rpm l"
  shows "win_req now lg \<le> lim_rpm l"
  using assms(1)
proof (induction rule: rl_reach.induct)
  case (start t)
  then show ?case using assms(2) by (simp add: win_req_def)
next
  case (admit now g lg t g')
  note ok = rl_reach_ok[OF admit(1)]
  have "win_req t lg < lim_rpm l"
    using limited_admit(1)[OF ok admit(2,3)] admit(4) assms(2) by auto
  then show ?case by (simp add: win_append)
next
  case (reject now g lg t g' x)
  have "\<forall>e\<in>set lg. ev_time e \<le> now" using rl_reach_ok[OF reject(1)] by (simp add: ring_ok_def)
  then show ?case using win_req_later[OF rl_reach_req[OF reject(1)] _ reject(2)] reject(4) by simp
next
  case (tokens now g lg t n)
  have "\<forall>e\<in>set lg. ev_time e \<le> now" using rl_reach_ok[OF tokens(1)] by (simp add: ring_ok_def)
  then show ?case using win_req_later[OF rl_reach_req[OF tokens(1)] _ tokens(2)] tokens(4) by (simp add: win_append)
qed

definition lim1 :: rl_limits where "lim1 = router_http_set_rate_limits 1 0"

lemma lim1_run: "rl_reach lim1 100 (rl_bump_req rl_zero 100) [\<lparr>ev_time = 100, ev_req = 1, ev_tok = 0\<rparr>]"
proof -
  have "rl_scan rl_zero 100 = (rl_zero, 0, -1, 0)"
    by (simp add: rl_scan_def rl_scan_loop_spec rl_zero_def zero_slot_def ages_def expire_def live_def
        filter_empty_conv map_replicate sum_list_0)
  then have "rate_limited lim1 rl_zero 100 = (rl_bump_req rl_zero 100, None)"
    by (simp add: rate_limited_def lim1_def router_http_set_rate_limits_def)
  then show ?thesis
    using rl_reach.admit[of lim1 100 rl_zero "[]" 100 "rl_bump_req rl_zero 100"] rl_reach.start[of 100 lim1]
    by (simp add: lim1_def router_http_set_rate_limits_def)
qed

theorem rate_limiter_exact_witness:
  "\<exists>g'. rate_limited lim1 (rl_bump_req rl_zero 100) 130 = (g', Some (30, 1, 0))"
proof -
  have l: "100 \<le> (130 :: int)" "0 < lim_rpm lim1 \<or> 0 < lim_tpm lim1"
    by (simp_all add: lim1_def router_http_set_rate_limits_def)
  show ?thesis
    using rate_limiter_exact[OF lim1_run l]
    by (cases "rate_limited lim1 (rl_bump_req rl_zero 100) 130")
       (auto simp: lim1_def router_http_set_rate_limits_def win_req_def win_tok_def in_win_def RL_WIN_def split: option.splits)
qed

theorem rpm_never_exceeded_witness:
  "win_req 100 [\<lparr>ev_time = 100, ev_req = 1, ev_tok = 0\<rparr>] \<le> lim_rpm lim1"
  using rpm_never_exceeded[OF lim1_run] by (simp add: lim1_def router_http_set_rate_limits_def)

end
