(* ===== verification/ChatApi.thy ===== *)
theory ChatApi
  imports ChatCodec RateLimit
begin

text \<open>
  The OpenAI-compatible endpoints (\<^verbatim>\<open>serve/router_http.c\<close>): extraction of prompt, messages,
  images and session key from a request body, the request handlers, and the dispatch of one
  connection. A handler maps the server's state and the request to the new state and the bytes
  written to the client. The environment supplies what lies outside the program: the clock, the
  files, the backend nodes, the interleaved activity of other threads, and the floating-point
  conversions of the C library. Allocations succeed; logging is left out.
\<close>

definition HTTP_MAX_BODY :: nat where "HTTP_MAX_BODY = 16 * 2 ^ 20"
definition HTTP_MAX_IMGS :: nat where "HTTP_MAX_IMGS = 8"

record http_env =
  he_be :: backend
  he_other :: "nat \<Rightarrow> router \<Rightarrow> router"
  he_now :: int
  he_clk :: "nat \<Rightarrow> int"
  he_end :: int
  he_files :: "string \<Rightarrow> bytes option"
  he_num :: "string \<Rightarrow> int"
  he_g6 :: "string \<Rightarrow> string"
  he_eta :: "int \<Rightarrow> int \<Rightarrow> int"

text \<open>\<open>he_num t\<close> is \<open>(int)atof(t)\<close>; \<open>he_g6 t\<close> is what \<open>%.6g\<close> prints for the float read from
  \<open>t\<close>; \<open>he_eta a n\<close> is \<open>(int)(avg * (double)n)\<close> with the average in tenths.\<close>

record http_cfg =
  hc_key :: string
  hc_limits :: rl_limits
  hc_queue_cap :: int

record http_state =
  hs_router :: router
  hs_rl :: rl_ring

definition router_http_set_api_key :: "string option \<Rightarrow> string" where
  "router_http_set_api_key key = (case key of Some k \<Rightarrow> snprintf_s 1024 k | None \<Rightarrow> [])"

subsection \<open>Building responses\<close>

text \<open>\<open>%.0f\<close> of a number of tenths, ties to even.\<close>

definition show_f0 :: "int \<Rightarrow> string" where
  "show_f0 t =
     (let a = nat \<bar>t\<bar>; q = a div 10; r = a mod 10;
          n = (if r > 5 \<or> (r = 5 \<and> odd q) then q + 1 else q) in
      (if t < 0 then ''-'' else []) @ show_nat n)"

definition http_queue_headers :: "http_env \<Rightarrow> http_response \<Rightarrow> int \<Rightarrow> int \<Rightarrow> int \<Rightarrow> int \<Rightarrow> http_response" where
  "http_queue_headers e rr inflight waiting wait_ms avg =
     (let rr = http_add_header rr ''X-Queue-Inflight'' (show_int inflight);
          rr = http_add_header rr ''X-Queue-Waiting'' (show_int waiting);
          rr = (if wait_ms \<ge> 0 then http_add_header rr ''X-Queue-Wait-Ms'' (show_int wait_ms) else rr) in
      if avg > 0 then
        http_add_header (http_add_header rr ''X-Queue-Avg-Infer-Ms'' (snprintf_s 32 (show_f0 avg)))
          ''X-Queue-Eta-Ms'' (show_int (he_eta e avg (inflight + waiting)))
      else rr)"

text \<open>A JSON text written with backquotes for its quotes.\<close>

definition jq :: "string \<Rightarrow> string" where
  "jq s = map (\<lambda>c. if c = CHR ''`'' then DQ else c) s"

definition err_body :: "string \<Rightarrow> string \<Rightarrow> string \<Rightarrow> string" where
  "err_body msg ty cd =
     err_prefix @ msg @ [DQ] @ CHR '','' # DQ # ''type'' @ DQ # CHR '':'' # DQ # ty @ DQ # CHR '','' # DQ # ''code'' @ DQ # CHR '':'' # DQ # cd
     @ [DQ, CHR ''}'', CHR ''}'']"

definition simple_err :: "string \<Rightarrow> string" where
  "simple_err msg = err_prefix @ msg @ [DQ, CHR ''}'', CHR ''}'']"

definition http_reject_if_busy :: "http_env \<Rightarrow> http_cfg \<Rightarrow> http_state \<Rightarrow> (http_state \<times> bytes option) run" where
  "http_reject_if_busy e cfg st =
     run_bind (queue_busy (hc_queue_cap cfg) (hs_router st)) (\<lambda>(r, busy).
       case busy of None \<Rightarrow> Ret (st\<lparr>hs_router := r\<rparr>, None)
       | Some (ra, wt) \<Rightarrow>
         run_bind (queue_snapshot r) (\<lambda>(r, inf, _, avg).
           let rr = http_add_header (http_queue_headers e (http_begin 429) inf wt (-1) avg) ''Retry-After'' (show_int ra) in
           Ret (st\<lparr>hs_router := r\<rparr>,
             Some (http_reply rr (snprintf_s 240
               (err_body (''Too many requests queued ('' @ show_int wt @ ''), please retry later'')
                  ''rate_limit_error'' ''rate_limit_exceeded''))))))"

definition http_reject_if_rate_limited :: "http_env \<Rightarrow> http_cfg \<Rightarrow> http_state \<Rightarrow> (http_state \<times> bytes option) run" where
  "http_reject_if_rate_limited e cfg st =
     (case rate_limited (hc_limits cfg) (hs_rl st) (he_now e) of
        (g, None) \<Rightarrow> Ret (st\<lparr>hs_rl := g\<rparr>, None)
      | (g, Some (ra, reqs, tok)) \<Rightarrow>
        run_bind (queue_snapshot (hs_router st)) (\<lambda>(r, inf, wt, avg).
          let rr = http_add_header (http_queue_headers e (http_begin 429) inf wt (-1) avg) ''Retry-After'' (show_int ra) in
          Ret (\<lparr>hs_router = r, hs_rl = g\<rparr>,
            Some (http_reply rr (snprintf_s 256
              (err_body (''Rate limit reached: '' @ show_int reqs @ '' requests / '' @ show_int tok @ '' tokens in ''
                         @ show_nat RL_WIN @ ''s window'') ''rate_limit_error'' ''rate_limit_exceeded''))))))"

text \<open>\<open>True\<close>: the request is admitted.\<close>

definition http_check_auth :: "http_cfg \<Rightarrow> http_request \<Rightarrow> bool" where
  "http_check_auth cfg req \<longleftrightarrow> hc_key cfg = [] \<or> http_auth_key req 1024 = Some (hc_key cfg)"

definition overload_body :: string where
  "overload_body = err_body ''The engine is currently overloaded, please try again later'' ''server_error'' ''server_is_overloaded''"

definition model_not_found :: string where
  "model_not_found = err_body ''model not found'' ''invalid_request_error'' ''model_not_found''"

definition http_infer_fail :: "int \<Rightarrow> string \<Rightarrow> string \<Rightarrow> bytes" where
  "http_infer_fail rc err fallback =
     (if rc = -2 then http_reply (http_begin 404) model_not_found
      else if strstr err ''no ready server'' \<noteq> None
      then http_reply (http_add_header (http_begin 503) ''Retry-After'' ''1'') overload_body
      else http_reply (http_begin 502) (http_infer_error_json 384 err fallback))"

definition http_infer_fail_sse :: "int \<Rightarrow> string \<Rightarrow> string \<Rightarrow> bytes" where
  "http_infer_fail_sse rc err fallback =
     http_sse_data
       (if rc = -2 then model_not_found
        else if strstr err ''no ready server'' \<noteq> None then overload_body
        else http_infer_error_json 384 err fallback)"

subsection \<open>Reading the request body\<close>

definition jv_text :: "json_val \<Rightarrow> string" where
  "jv_text v = take (jv_len v) (jv_start v)"

definition jstr :: "json_val option \<Rightarrow> json_val option" where
  "jstr v = (case v of Some v \<Rightarrow> if jv_type v = JSON_STR then Some v else None | None \<Rightarrow> None)"

text \<open>The session key buffer has 128 bytes; a longer JSON id is unescaped beyond it.\<close>

fun sess_key_scan :: "string \<Rightarrow> string list \<Rightarrow> string run" where
  "sess_key_scan body [] = Ret []"
| "sess_key_scan body (k # ks) =
     run_bind (json_find body k) (\<lambda>v.
       case jstr v of
         Some v \<Rightarrow>
           if jv_len v > 0 then
             let s = json_str_unescape (jv_text v) in
             if length s + 1 > 128 then Fault else if s \<noteq> [] then Ret s else sess_key_scan body ks
           else sess_key_scan body ks
       | None \<Rightarrow> sess_key_scan body ks)"

definition pick_client_sess_id :: "http_request \<Rightarrow> string \<Rightarrow> string run" where
  "pick_client_sess_id req body =
     (case http_header_get req ''X-Session-Id'' 128 of
        Some (c # s) \<Rightarrow> Ret (c # s)
      | _ \<Rightarrow>
        (case http_header_get req ''X-Conversation-Id'' 128 of
           Some (c # s) \<Rightarrow> Ret (c # s)
         | _ \<Rightarrow> sess_key_scan body [''conversation_id'', ''session_id'', ''chat_id'']))"

definition ascii_letter :: "char \<Rightarrow> bool" where
  "ascii_letter ch \<longleftrightarrow> (let c = code ch in (65 \<le> c \<and> c \<le> 90) \<or> (97 \<le> c \<and> c \<le> 122))"

definition image_path :: "string \<Rightarrow> string" where
  "image_path url =
     (if starts ''file://'' url then
        (case drop 7 url of
           c1 # c2 # c3 # s \<Rightarrow> if c1 = CHR ''/'' \<and> ascii_letter c2 \<and> c3 = CHR '':'' then c2 # c3 # s else c1 # c2 # c3 # s
         | p \<Rightarrow> p)
      else url)"

definition http_load_image_url :: "http_env \<Rightarrow> string \<Rightarrow> string + bytes" where
  "http_load_image_url e url =
     (if url = [] then Inl ''empty image_url''
      else if starts ''data:'' url then
        (case strchr url CHR '','' of
           None \<Rightarrow> Inl ''image_url data: need ;base64,''
         | Some comma \<Rightarrow>
             if strstr url '';base64,'' = None then Inl ''image_url data: need ;base64,''
             else (case http_b64_decode (tl comma) of None \<Rightarrow> Inl [] | Some b \<Rightarrow> Inr b))
      else if starts ''http://'' url \<or> starts ''https://'' url
      then Inl ''remote image_url not supported; use data: or file:''
      else
        (case he_files e (image_path url) of
           None \<Rightarrow> Inl (snprintf_s 256 (''cannot open image '' @ image_path url))
         | Some b \<Rightarrow> if length b > 16 * 2 ^ 20 then Inl ''image too large'' else Inr b))"

text \<open>The parts of message \<open>mi\<close> from part \<open>j\<close> on; \<open>Inl\<close> is the error text.\<close>

fun parts_loop :: "http_env \<Rightarrow> string \<Rightarrow> nat \<Rightarrow> nat \<Rightarrow> nat \<Rightarrow> nat \<Rightarrow> string \<Rightarrow> bytes list \<Rightarrow> (string + string \<times> bytes list) run" where
  "parts_loop e body mi textsz 0 j txt imgs = Ret (Inr (txt, imgs))"
| "parts_loop e body mi textsz (Suc n) j txt imgs =
     (let base = ''messages.'' @ show_nat mi @ ''.content.'' @ show_nat j in
      run_bind (json_find body (base @ ''.type'')) (\<lambda>tv.
        case jstr tv of None \<Rightarrow> Ret (Inr (txt, imgs))
        | Some tv \<Rightarrow>
          let typ = take 31 (jv_text tv) in
          if typ = ''text'' then
            run_bind (json_find body (base @ ''.text'')) (\<lambda>xv.
              let txt' = (case jstr xv of
                     Some v \<Rightarrow> if length txt + jv_len v + 2 < textsz
                              then txt @ (if txt \<noteq> [] then [LF] else []) @ json_str_unescape (jv_text v) else txt
                   | None \<Rightarrow> txt) in
              parts_loop e body mi textsz n (j + 1) txt' imgs)
          else if typ = ''image_url'' then
            run_bind (json_find body (base @ ''.image_url.url'')) (\<lambda>xv.
              case jstr xv of None \<Rightarrow> Ret (Inl ''image_url missing url'')
              | Some v \<Rightarrow>
                if length imgs \<ge> HTTP_MAX_IMGS then Ret (Inl ''too many images'')
                else case http_load_image_url e (json_str_unescape (jv_text v)) of
                  Inl err \<Rightarrow> Ret (Inl err)
                | Inr b \<Rightarrow> parts_loop e body mi textsz n (j + 1) txt (imgs @ [b]))
          else parts_loop e body mi textsz n (j + 1) txt imgs))"

definition extract_content_parts ::
  "http_env \<Rightarrow> string \<Rightarrow> nat \<Rightarrow> nat \<Rightarrow> bytes list \<Rightarrow> (string + string \<times> bytes list) run" where
  "extract_content_parts e body mi textsz imgs =
     run_bind (json_find body (''messages.'' @ show_nat mi @ ''.content'')) (\<lambda>v.
       case v of None \<Rightarrow> Ret (Inr ([], imgs))
       | Some v \<Rightarrow>
         if jv_type v = JSON_STR then
           (if jv_len v + 1 > textsz then Ret (Inl ''content too long'')
            else Ret (Inr (json_str_unescape (jv_text v), imgs)))
         else if jv_type v \<noteq> JSON_ARR then Ret (Inr ([], imgs))
         else parts_loop e body mi textsz 32 0 [] imgs)"

text \<open>Roles and contents are laid out one after the other in a pool of \<open>poolsz\<close> bytes, of
  which \<open>off\<close> are used; the length of a role is not checked against the pool.\<close>

fun msgs_loop :: "http_env \<Rightarrow> string \<Rightarrow> nat \<Rightarrow> nat \<Rightarrow> nat \<Rightarrow> nat \<Rightarrow> bytes list
    \<Rightarrow> (string + (string \<times> string) list \<times> bytes list) run" where
  "msgs_loop e body poolsz 0 i off imgs = Ret (Inr ([], imgs))"
| "msgs_loop e body poolsz (Suc n) i off imgs =
     run_bind (json_find body (''messages.'' @ show_nat i @ ''.role'')) (\<lambda>v.
       case (if off + 64 < poolsz then jstr v else None) of
         None \<Rightarrow> Ret (Inr ([], imgs))
       | Some v \<Rightarrow>
         let role = json_str_unescape (jv_text v); off = off + length role + 1 in
         if off > poolsz then Fault
         else if off + 8 \<ge> poolsz then Ret (Inr ([], imgs))
         else run_bind (extract_content_parts e body i (poolsz - off) imgs) (\<lambda>p.
           case p of Inl err \<Rightarrow> Ret (Inl err)
           | Inr (txt, imgs) \<Rightarrow>
             run_bind (msgs_loop e body poolsz n (i + 1) (off + length txt + 1) imgs) (\<lambda>ms.
               case ms of Inl err \<Rightarrow> Ret (Inl err)
               | Inr (ms, imgs) \<Rightarrow> Ret (Inr ((role, txt) # ms, imgs)))))"

definition extract_chat_messages :: "http_env \<Rightarrow> string \<Rightarrow> nat \<Rightarrow> (string + (string \<times> string) list \<times> bytes list) run" where
  "extract_chat_messages e body poolsz = msgs_loop e body poolsz 32 0 0 []"

fun prompt_scan :: "string \<Rightarrow> nat \<Rightarrow> nat \<Rightarrow> string run" where
  "prompt_scan body outsz 0 = Ret []"
| "prompt_scan body outsz (Suc i) =
     run_bind (json_find body (''messages.'' @ show_nat i @ ''.content'')) (\<lambda>v.
       case jstr v of
         Some v \<Rightarrow> if jv_len v < outsz then Ret (json_str_unescape (jv_text v)) else prompt_scan body outsz i
       | None \<Rightarrow> prompt_scan body outsz i)"

definition extract_chat_prompt :: "string \<Rightarrow> nat \<Rightarrow> string run" where
  "extract_chat_prompt body outsz = prompt_scan body outsz 32"

subsection \<open>Request handlers\<close>

record chat_params =
  cp_model :: string
  cp_max_tokens :: int
  cp_temp :: string
  cp_top_p :: string
  cp_usage :: bool

text \<open>\<open>json_num\<close> looks at 63 characters at most.\<close>

definition num_text :: "json_val \<Rightarrow> string" where
  "num_text v = take 63 (jv_text v)"

definition num_or :: "(string \<Rightarrow> 'a) \<Rightarrow> 'a \<Rightarrow> json_val option \<Rightarrow> 'a" where
  "num_or f d v = (case v of Some v \<Rightarrow> if jv_type v = JSON_NUM then f (num_text v) else d | None \<Rightarrow> d)"

definition body_model :: "json_val option \<Rightarrow> string" where
  "body_model v = (case jstr v of Some v \<Rightarrow> if jv_len v < 128 then jv_text v else ''default'' | None \<Rightarrow> ''default'')"

definition chat_params :: "http_env \<Rightarrow> string \<Rightarrow> chat_params run" where
  "chat_params e body =
     run_bind (json_find body ''model'') (\<lambda>m.
     run_bind (json_find body ''max_tokens'') (\<lambda>mt.
     run_bind (json_find body ''temperature'') (\<lambda>t.
     run_bind (json_find body ''top_p'') (\<lambda>p.
     run_bind (json_find body ''stream_options.include_usage'') (\<lambda>u.
       Ret \<lparr>cp_model = body_model m, cp_max_tokens = num_or (he_num e) 1024 mt,
            cp_temp = num_or (he_g6 e) ''1'' t, cp_top_p = num_or (he_g6 e) ''0.9'' p,
            cp_usage = (case u of Some v \<Rightarrow> jv_type v = JSON_BOOL \<and> starts ''t'' (jv_start v) | None \<Rightarrow> False)\<rparr>)))))"

text \<open>What a chat request asks for: \<open>ci_sess\<close> holds the session key and the packed messages in
  session mode; otherwise the prompt is sent.\<close>

record chat_input =
  ci_prompt :: bytes
  ci_n_msgs :: nat
  ci_sess :: "(string \<times> bytes) option"

definition bad_request :: "string \<Rightarrow> bytes" where
  "bad_request msg = http_reply (http_begin 400) (simple_err msg)"

text \<open>\<open>Inl\<close> is the response of a rejected request.\<close>

definition chat_extract :: "http_env \<Rightarrow> http_request \<Rightarrow> string \<Rightarrow> (bytes + chat_input) run" where
  "chat_extract e req body =
     run_bind (extract_chat_prompt body HTTP_MAX_BODY) (\<lambda>prompt.
     run_bind (extract_chat_messages e body HTTP_MAX_BODY) (\<lambda>res.
       case res of
         Inl err \<Rightarrow> Ret (Inl (http_reply (http_begin 400) (snprintf_s 320 (simple_err (if err \<noteq> [] then err else ''bad messages'')))))
       | Inr (ms, imgs) \<Rightarrow>
         let n = length ms in
         if n > 0 \<and> imgs = [] then
           run_bind (pick_client_sess_id req body) (\<lambda>key.
             Ret (Inr \<lparr>ci_prompt = prompt, ci_n_msgs = n,
               ci_sess = map_option (\<lambda>p. (key, p)) (pack_chat_msgs HTTP_MAX_BODY (map (\<lambda>(r, c). (Some r, Some c)) ms))\<rparr>))
         else if n > 0 then
           let utext = (case filter (\<lambda>(r, c). r = ''user'') (rev ms) of [] \<Rightarrow> [] | (r, c) # _ \<Rightarrow> c) in
           (case pack_vision_payload HTTP_MAX_BODY utext imgs of
              None \<Rightarrow> Ret (Inl (bad_request ''vision payload too large''))
            | Some p \<Rightarrow> Ret (Inr \<lparr>ci_prompt = p, ci_n_msgs = n, ci_sess = None\<rparr>))
         else Ret (Inr \<lparr>ci_prompt = prompt, ci_n_msgs = 0, ci_sess = None\<rparr>)))"

text \<open>The inference call: router, tokens, return code, error text, prompt tokens, waiting time.\<close>

definition chat_infer :: "http_env \<Rightarrow> router \<Rightarrow> chat_params \<Rightarrow> bytes \<Rightarrow> (string \<times> bytes) option
    \<Rightarrow> (router \<times> bytes list \<times> int \<times> string \<times> int \<times> int) run" where
  "chat_infer e r cp prompt sess =
     (case sess of
        Some (key, packed) \<Rightarrow>
          router_infer_sess (he_other e) (he_be e) r (cp_model cp) (cp_max_tokens cp) key packed (cp_temp cp) (cp_top_p cp) 256
      | None \<Rightarrow>
          run_bind (router_infer (he_other e) (he_be e) r (cp_model cp) (cp_max_tokens cp) prompt (cp_temp cp) (cp_top_p cp) 256)
            (\<lambda>(r, ts, rc, err). Ret (r, ts, rc, err, 0, 0)))"

definition disconnect :: string where "disconnect = ''backend timeout/disconnect''"

text \<open>The streaming branch; \<open>rsn\<close> is the finish reason.\<close>

definition stream_answer :: "http_env \<Rightarrow> http_state \<Rightarrow> chat_params \<Rightarrow> bytes \<Rightarrow> (string \<times> bytes) option
    \<Rightarrow> string \<Rightarrow> int \<Rightarrow> int \<Rightarrow> int \<Rightarrow> (http_state \<times> bytes) run" where
  "stream_answer e st cp prompt sess rsn q_in q_wt q_avg =
     (let head = http_sse_begin_extra (hr_extra (http_queue_headers e \<lparr>hr_status = 0, hr_type = [], hr_extra = []\<rparr> q_in q_wt (-1) q_avg));
          sc = \<lparr>sc_model = cp_model cp, sc_n = 0, sc_prompt = 0, sc_usage = cp_usage cp, sc_pending = []\<rparr> in
      run_bind (chat_infer e (hs_router st) cp prompt sess) (\<lambda>(r, ts, rc, err, pt, wm).
        case sse_tokens (he_clk e) 0 sc ts of (sc, out) \<Rightarrow>
        let sc = sc\<lparr>sc_prompt := pt\<rparr> in
        if rc \<noteq> 0 then Ret (st\<lparr>hs_router := r\<rparr>, head @ out @ http_infer_fail_sse rc err disconnect @ http_sse_done)
        else Ret (\<lparr>hs_router = r, hs_rl = rl_bump_tokens (hs_rl st) (he_end e) (pt + sc_n sc)\<rparr>,
                  head @ out @ sse_on_done (he_end e) sc rsn @ http_sse_done)))"

definition queue_json :: "http_env \<Rightarrow> int \<Rightarrow> int \<Rightarrow> string \<Rightarrow> int \<Rightarrow> string" where
  "queue_json e q_wt q_in wait q_avg =
     jq '',`queue`:{`waiting`:'' @ show_int q_wt @ jq '',`inflight`:'' @ show_int q_in @ wait
     @ jq '',`avg_infer_ms`:'' @ show_f0 q_avg @ jq '',`eta_ms`:'' @ show_int (he_eta e q_avg (q_in + q_wt)) @ ''}''"

text \<open>The bodies of the two non-streaming answers, before the cut to their buffer.\<close>

definition chat_json :: "http_env \<Rightarrow> string \<Rightarrow> string \<Rightarrow> int \<Rightarrow> int \<Rightarrow> int \<Rightarrow> int \<Rightarrow> int \<Rightarrow> int \<Rightarrow> string" where
  "chat_json e model text q_wt q_in wait_ms q_avg pt ct =
     jq ''{`id`:`chatcmpl-1`,`object`:`chat.completion`,`created`:'' @ show_int (he_end e)
     @ jq '',`model`:`'' @ model @ jq ''`,`choices`:[{`index`:0,`message`:{`role`:`assistant`,`content`:`'' @ text
     @ jq ''`},`finish_reason`:`length`}]'' @ queue_json e q_wt q_in (jq '',`wait_ms`:'' @ show_int wait_ms) q_avg
     @ jq '',`usage`:{`prompt_tokens`:'' @ show_int pt @ jq '',`completion_tokens`:'' @ show_int ct
     @ jq '',`total_tokens`:'' @ show_int (pt + ct) @ ''}}''"

definition completion_json :: "http_env \<Rightarrow> string \<Rightarrow> string \<Rightarrow> int \<Rightarrow> int \<Rightarrow> int \<Rightarrow> string" where
  "completion_json e model text q_wt q_in q_avg =
     jq ''{`id`:`cmpl-1`,`object`:`text_completion`,`created`:'' @ show_int (he_end e)
     @ jq '',`model`:`'' @ model @ jq ''`,`choices`:[{`text`:`'' @ text @ jq ''`,`index`:0,`finish_reason`:`length`}]''
     @ queue_json e q_wt q_in [] q_avg @ ''}''"

text \<open>The non-streaming branch: a chat answer reports the waiting time and books prompt and answer
  tokens, a completion books the answer only.\<close>

definition whole_answer :: "http_env \<Rightarrow> http_state \<Rightarrow> chat_params \<Rightarrow> bytes \<Rightarrow> (string \<times> bytes) option
    \<Rightarrow> bool \<Rightarrow> int \<Rightarrow> int \<Rightarrow> int \<Rightarrow> (http_state \<times> bytes) run" where
  "whole_answer e st cp prompt sess chat q_in q_wt q_avg =
     run_bind (chat_infer e (hs_router st) cp prompt sess) (\<lambda>(r, ts, rc, err, pt, wm).
       let cc = fold (\<lambda>t cc. collect_on_token HTTP_MAX_BODY cc t) ts \<lparr>cc_buf = [], cc_n = 0\<rparr> in
       if rc \<noteq> 0 then Ret (st\<lparr>hs_router := r\<rparr>, http_infer_fail rc err disconnect)
       else
         let body = (if chat
               then snprintf_s (HTTP_MAX_BODY + 512) (chat_json e (cp_model cp) (cstr (cc_buf cc)) q_wt q_in wm q_avg pt (cc_n cc))
               else snprintf_s (HTTP_MAX_BODY + 256) (completion_json e (cp_model cp) (cstr (cc_buf cc)) q_wt q_in q_avg));
             rr = http_queue_headers e (http_begin 200) q_in q_wt (if chat then wm else -1) q_avg in
         Ret (\<lparr>hs_router = r, hs_rl = rl_bump_tokens (hs_rl st) (he_end e) (pt + cc_n cc)\<rparr>, http_reply rr body))"

definition handle_chat_completions :: "http_env \<Rightarrow> http_state \<Rightarrow> string \<Rightarrow> bool \<Rightarrow> http_request \<Rightarrow> (http_state \<times> bytes) run" where
  "handle_chat_completions e st body stream req =
     run_bind (chat_params e body) (\<lambda>cp.
     run_bind (queue_snapshot (hs_router st)) (\<lambda>(r, q_in, q_wt, q_avg).
     let st = st\<lparr>hs_router := r\<rparr> in
     run_bind (chat_extract e req body) (\<lambda>x.
       case x of Inl resp \<Rightarrow> Ret (st, resp)
       | Inr ci \<Rightarrow>
         if ci_prompt ci = [] \<and> ci_n_msgs ci = 0 then Ret (st, bad_request ''empty prompt'')
         else if stream then stream_answer e st cp (ci_prompt ci) (ci_sess ci) ''stop'' q_in q_wt q_avg
         else whole_answer e st cp (ci_prompt ci) (ci_sess ci) True q_in q_wt q_avg)))"

text \<open>The prompt of a text completion is unescaped into a buffer of \<open>HTTP_MAX_BODY\<close> bytes without
  a check of its length.\<close>

definition completion_prompt :: "string \<Rightarrow> string run" where
  "completion_prompt body =
     run_bind (json_find body ''prompt'') (\<lambda>v.
       case jstr v of None \<Rightarrow> Ret []
       | Some v \<Rightarrow> let s = json_str_unescape (jv_text v) in if length s + 1 > HTTP_MAX_BODY then Fault else Ret s)"

definition handle_completions :: "http_env \<Rightarrow> http_state \<Rightarrow> string \<Rightarrow> bool \<Rightarrow> (http_state \<times> bytes) run" where
  "handle_completions e st body stream =
     run_bind (chat_params e body) (\<lambda>cp.
     run_bind (completion_prompt body) (\<lambda>prompt.
     run_bind (queue_snapshot (hs_router st)) (\<lambda>(r, q_in, q_wt, q_avg).
       let st = st\<lparr>hs_router := r\<rparr> in
       if prompt = [] then Ret (st, bad_request ''empty prompt'')
       else if stream then stream_answer e st cp prompt None ''length'' q_in q_wt q_avg
       else whole_answer e st cp prompt None False q_in q_wt q_avg)))"

definition handle_models :: "http_state \<Rightarrow> (http_state \<times> bytes) run" where
  "handle_models st =
     run_bind (lock (hs_router st)) (\<lambda>r.
       let ready = filter (\<lambda>s. rs_state s = 1) (rt_servers r);
           one = (\<lambda>s. snprintf_s 256 (jq ''{`id`:`'' @ rs_model s @ jq ''`,`object`:`model`,`owned_by`:`yllm`}''));
           json = fold (\<lambda>(i, s) j. strncat_s 2048 (if i \<noteq> 0 then strncat_s 2048 j '','' else j) (one s))
                    (zip [0..<length ready] ready) (jq ''{`object`:`list`,`data`:['') in
       Ret (st\<lparr>hs_router := unlock r\<rparr>, http_reply (http_begin 200) (strncat_s 2048 json '']}'')))"

definition handle_health :: "http_env \<Rightarrow> http_state \<Rightarrow> (http_state \<times> bytes) run" where
  "handle_health e st =
     run_bind (queue_snapshot (hs_router st)) (\<lambda>(r, inf, wt, avg).
       Ret (st\<lparr>hs_router := r\<rparr>, http_reply (http_begin 200) (snprintf_s 256
         (jq ''{`status`:`ok`,`servers`:'' @ show_nat (length (rt_servers r)) @ jq '',`inflight`:'' @ show_int inf
          @ jq '',`waiting`:'' @ show_int wt @ jq '',`avg_infer_ms`:'' @ show_f0 avg
          @ jq '',`eta_ms`:'' @ show_int (he_eta e avg (inf + wt)) @ ''}''))))"

definition unauthorized :: bytes where
  "unauthorized = http_reply (http_begin 401) (err_body ''invalid api key'' ''invalid_request_error'' ''invalid_api_key'')"

text \<open>\<open>strstr(body, "\"stream\":true")\<close>.\<close>

definition wants_stream :: "string \<Rightarrow> bool" where
  "wants_stream body \<longleftrightarrow> strstr body (jq ''`stream`:true'') \<noteq> None"

text \<open>Rate limit, then queue limit, then the handler.\<close>

definition admitted :: "http_env \<Rightarrow> http_cfg \<Rightarrow> http_state \<Rightarrow> (http_state \<Rightarrow> (http_state \<times> bytes) run) \<Rightarrow> (http_state \<times> bytes) run" where
  "admitted e cfg st h =
     run_bind (http_reject_if_rate_limited e cfg st) (\<lambda>(st, out).
       case out of Some out \<Rightarrow> Ret (st, out)
       | None \<Rightarrow>
         run_bind (http_reject_if_busy e cfg st) (\<lambda>(st, out).
           case out of Some out \<Rightarrow> Ret (st, out) | None \<Rightarrow> h st))"

definition dispatch :: "http_env \<Rightarrow> http_cfg \<Rightarrow> http_state \<Rightarrow> http_request \<Rightarrow> (http_state \<times> bytes) run" where
  "dispatch e cfg st req =
     (let body = (case hq_body req of Some b \<Rightarrow> cstr b | None \<Rightarrow> []); health = (hq_method req = ''GET'' \<and> hq_path req = ''/health'') in
      if \<not> health \<and> \<not> http_check_auth cfg req then Ret (st, unauthorized)
      else if health then handle_health e st
      else if hq_method req = ''GET'' \<and> hq_path req = ''/v1/models'' then handle_models st
      else if hq_method req = ''POST'' \<and> hq_path req = ''/v1/chat/completions'' then
        admitted e cfg st (\<lambda>st. handle_chat_completions e st body (wants_stream body) req)
      else if hq_method req = ''POST'' \<and> hq_path req = ''/v1/completions'' then
        admitted e cfg st (\<lambda>st. handle_completions e st body (wants_stream body))
      else Ret (st, http_reply (http_begin 404) (simple_err ''not found'')))"

text \<open>One connection: nothing is written when the request cannot be read.\<close>

definition handle_conn :: "http_env \<Rightarrow> http_cfg \<Rightarrow> http_state \<Rightarrow> bytes \<Rightarrow> (http_state \<times> bytes) run" where
  "handle_conn e cfg st s =
     run_bind (http_parse_request s) (\<lambda>p.
       case p of None \<Rightarrow> Ret (st, []) | Some (req, _) \<Rightarrow> dispatch e cfg st req)"

subsection \<open>The API key\<close>

definition no_credential :: "string \<Rightarrow> bool" where
  "no_credential h \<longleftrightarrow> \<not> starts_ci ''Authorization:'' h \<and> \<not> starts_ci ''api-key:'' h"

lemma auth_scan_bearer:
  assumes "\<forall>h\<in>set hs. no_credential h" "k \<noteq> []" "hd k \<noteq> SP" "hd k \<noteq> TAB" "length k < n"
  shows "auth_scan n (hs @ (''Authorization: Bearer '' @ k) # hs') = Some k"
proof -
  have t: "starts_ci ''Authorization:'' (''Authorization: Bearer '' @ k)" "starts_ci ''Bearer '' (''Bearer '' @ k)"
    by (simp_all add: starts_ci_def)
  have s: "skip_blank k = k" "skip_blank (drop 14 (''Authorization: Bearer '' @ k)) = ''Bearer '' @ k"
    using assms(2-4) by (cases k; simp add: skip_blank_def)+
  have d: "drop 7 (''Bearer '' @ k) = k" by simp
  have m: "min n (length k) = length k" "take (n - 1) k = k" using assms(5) by simp_all
  have "auth_scan n ((''Authorization: Bearer '' @ k) # hs') = Some k"
    using t s d m by (simp only: auth_scan.simps if_True Let_def)
  then show ?thesis using assms(1) by (induction hs) (auto simp: no_credential_def)
qed

text \<open>The API key guards every endpoint but the health check. For a request whose first
  credential is a bearer token: with a wrong token the answer is 401 and the server, its router
  and its rate counters are untouched, no backend is contacted; with the right token the
  request is handled exactly as if no key were configured.\<close>

theorem api_key_gate:
  assumes "http_word 15 m" "http_word 511 p" "http_word 15 v"
    and "\<forall>h\<in>set (hs @ (''Authorization: Bearer '' @ k) # hs'). header_ok h" "length (hs @ hs') < 30" "length body < 2 ^ 62"
    and "\<forall>h\<in>set hs. no_credential h" "k \<noteq> []" "hd k \<noteq> SP" "hd k \<noteq> TAB"
    and "hc_key cfg \<noteq> []" "\<not> (m = ''GET'' \<and> p = ''/health'')"
  shows "let s = http_text m p v (hs @ (''Authorization: Bearer '' @ k) # hs') body @ r in
    (if k = hc_key cfg then handle_conn e cfg st s = handle_conn e (cfg\<lparr>hc_key := []\<rparr>) st s
     else handle_conn e cfg st s = Ret (st, unauthorized))"
proof -
  define H where "H = hs @ (''Authorization: Bearer '' @ k) # hs'"
  have l: "length H < 31" using assms(5) by (simp add: H_def)
  obtain req where req: "http_parse_request (http_text m p v H body @ r) = Ret (Some (req, r))"
      "hq_method req = m" "hq_path req = p" "hq_headers req = H @ clen_line body"
    using http_parse_text[OF assms(1-3) assms(4)[folded H_def] l assms(6), of r] by simp
  have "length k < 1024" using assms(4) by (simp add: header_ok_def)
  then have key: "http_auth_key req 1024 = Some k"
    using auth_scan_bearer[OF assms(7-10), of 1024 "hs' @ clen_line body"] req(4) by (simp add: http_auth_key_def H_def)
  have disp: "if k = hc_key cfg then dispatch e cfg st req = dispatch e (cfg\<lparr>hc_key := []\<rparr>) st req
      else dispatch e cfg st req = Ret (st, unauthorized)"
  proof (cases "k = hc_key cfg")
    case True
    have "http_check_auth cfg req" "http_check_auth (cfg\<lparr>hc_key := []\<rparr>) req" using key True by (simp_all add: http_check_auth_def)
    moreover have rej: "http_reject_if_rate_limited e (cfg\<lparr>hc_key := []\<rparr>) = http_reject_if_rate_limited e cfg"
      "http_reject_if_busy e (cfg\<lparr>hc_key := []\<rparr>) = http_reject_if_busy e cfg"
      by (intro ext, simp add: http_reject_if_rate_limited_def http_reject_if_busy_def)+
    have adm: "admitted e (cfg\<lparr>hc_key := []\<rparr>) = admitted e cfg" by (intro ext) (unfold admitted_def rej, rule refl)
    ultimately show ?thesis using True unfolding dispatch_def adm by simp
  next
    case False
    then have "\<not> http_check_auth cfg req" using key assms(11) by (simp add: http_check_auth_def)
    then show ?thesis using req(2,3) False assms(12) by (simp add: dispatch_def Let_def)
  qed
  show ?thesis
    unfolding H_def[symmetric] handle_conn_def Let_def req(1) run_bind.simps option.case prod.case by (rule disp)
qed

subsection \<open>A streamed completion\<close>

lemma empty_body_overread: "handle_chat_completions e st [] stream req = Fault"
proof -
  have "json_find [] ''model'' = Fault"
    by (subst json_find.simps) (simp add: json_step_def json_find_in_obj_def is_digit_def code_def)
  then show ?thesis by (simp add: handle_chat_completions_def chat_params_def)
qed

definition completion_doc :: "string \<Rightarrow> string \<Rightarrow> js" where
  "completion_doc model prompt =
     JObj [(''model'', JStr model), (''prompt'', JStr (json_escape prompt)), (''stream'', JLit ''true'')]"

lemma completion_doc_ok: "raw_ok model \<Longrightarrow> js_ok (completion_doc model prompt)"
  by (simp add: completion_doc_def raw_ok_escape) (simp add: lit_ok_def value_start_def json_stop_def)

lemma completion_find:
  assumes "raw_ok model"
  shows "\<exists>q. json_find (js_text (completion_doc model prompt)) ''model'' = Ret (Some (js_val (JStr model) q))"
    "\<exists>q. json_find (js_text (completion_doc model prompt)) ''prompt'' = Ret (Some (js_val (JStr (json_escape prompt)) q))"
    "key \<in> {''max_tokens'', ''temperature'', ''top_p''} \<Longrightarrow> json_find (js_text (completion_doc model prompt)) key = Ret None"
    "json_find (js_text (completion_doc model prompt)) ''stream_options.include_usage'' = Ret None"
proof -
  note f = json_find_js[OF completion_doc_ok[OF assms, of prompt], where r = "[]"]
  note no = json_find_none[OF completion_doc_ok[OF assms, of prompt], where r = "[]"]
  show "\<exists>q. json_find (js_text (completion_doc model prompt)) ''model'' = Ret (Some (js_val (JStr model) q))"
    using f[where segs = "[''model'']" and x = model] by (simp add: completion_doc_def seg_ok_def idx_seg_def is_digit_def code_def)
  show "\<exists>q. json_find (js_text (completion_doc model prompt)) ''prompt'' = Ret (Some (js_val (JStr (json_escape prompt)) q))"
    using f[where segs = "[''prompt'']" and x = "json_escape prompt"]
    by (simp add: completion_doc_def seg_ok_def idx_seg_def is_digit_def code_def)
  show "key \<in> {''max_tokens'', ''temperature'', ''top_p''} \<Longrightarrow> json_find (js_text (completion_doc model prompt)) key = Ret None"
    using no[where segs = "[key]"] by (auto simp: completion_doc_def seg_ok_def idx_seg_def is_digit_def code_def)
  show "json_find (js_text (completion_doc model prompt)) ''stream_options.include_usage'' = Ret None"
    using no[where segs = "[''stream_options'', ''include_usage'']"]
    by (simp add: completion_doc_def seg_ok_def idx_seg_def is_digit_def code_def)
qed

lemma jv_text_str [simp]: "jv_text (js_val (JStr s) q) = s" "jv_type (js_val (JStr s) q) = JSON_STR" "jv_len (js_val (JStr s) q) = length s"
  by (simp_all add: jv_text_def js_val_JStr)

lemma queue_snapshot_free:
  assumes "\<not> rt_locked r"
  shows "\<exists>a b c. queue_snapshot r = Ret (r, a, b, c)"
proof -
  have "unlock (r\<lparr>rt_locked := True\<rparr>) = r" using assms by (cases r) (simp add: unlock_def)
  then show ?thesis using assms by (simp add: queue_snapshot_def lock_free)
qed

lemma completion_params:
  assumes "raw_ok model" "length model < 128"
  shows "chat_params e (js_text (completion_doc model prompt)) =
    Ret \<lparr>cp_model = model, cp_max_tokens = 1024, cp_temp = ''1'', cp_top_p = ''0.9'', cp_usage = False\<rparr>"
proof -
  obtain q where q: "json_find (js_text (completion_doc model prompt)) ''model'' = Ret (Some (js_val (JStr model) q))"
    using completion_find(1)[OF assms(1)] by blast
  show ?thesis
    using q completion_find(3,4)[OF assms(1), where prompt = prompt] assms(2)
    by (simp add: chat_params_def body_model_def jstr_def num_or_def)
qed

lemma completion_prompt_doc:
  assumes "raw_ok model" "length prompt < HTTP_MAX_BODY"
  shows "completion_prompt (js_text (completion_doc model prompt)) = Ret prompt"
proof -
  obtain q where q: "json_find (js_text (completion_doc model prompt)) ''prompt'' = Ret (Some (js_val (JStr (json_escape prompt)) q))"
    using completion_find(2)[OF assms(1)] by blast
  show ?thesis
    using q assms(2) by (simp add: completion_prompt_def jstr_def unescape_escape Let_def)
qed

text \<open>The request a completion with default parameters makes to the server.\<close>

definition completion_ask :: "bytes \<Rightarrow> bytes" where
  "completion_ask prompt =
     ''INFER v='' @ PROTO_VERSION_STR @ '' 1024 '' @ show_nat (length prompt) @ '' temp=1 top_p=0.9 ''
     @ show_nat (length prompt) @ [LF] @ prompt"

lemma completion_ask_sent:
  assumes "length prompt < HTTP_MAX_BODY"
  shows "frame_send_payload ''INFER''
    (snprintf_s 192 (show_int 1024 @ [SP] @ show_nat (length prompt) @ '' temp='' @ ''1'' @ '' top_p='' @ ''0.9'')) prompt
    = Ret (completion_ask prompt)"
proof -
  have "length prompt < 10 ^ 9" using assms by (simp add: HTTP_MAX_BODY_def)
  then have n: "length (show_nat (length prompt)) \<le> 9" by (intro length_show_nat) simp_all
  have k: "show_int 1024 = ''1024''" by (simp add: show_int_def show_nat.simps)
  have "snprintf_s 192 (''1024'' @ [SP] @ show_nat (length prompt) @ '' temp=1 top_p=0.9'')
      = ''1024'' @ [SP] @ show_nat (length prompt) @ '' temp=1 top_p=0.9''"
    by (rule snprintf_s_fits) (use n in simp)
  then show ?thesis
    using n by (simp add: k frame_send_payload_def completion_ask_def FRAME_CMD_MAX_def PROTO_VERSION_STR_def Let_def)
qed

lemma completion_infer:
  assumes "\<not> rt_locked r" "rt_strategy r \<noteq> Some ''round-robin''"
    and "map_option fst (pick_least model 0 None (rt_servers r)) = Some i" "i < length (rt_servers r)"
    and "eligible model (rt_servers r ! i)"
    and "he_be e (rs_host (rt_servers r ! i)) (rs_port (rt_servers r ! i)) (completion_ask prompt)
      = Some (concat (map t_frame ts) @ ''DONE'' @ d @ [LF])"
    and "\<forall>t\<in>set ts. tok_ok t" "done_ok d" "length prompt < HTTP_MAX_BODY"
  shows "chat_infer e r \<lparr>cp_model = model, cp_max_tokens = 1024, cp_temp = ''1'', cp_top_p = ''0.9'', cp_usage = us\<rparr> prompt None
    = Ret (r, ts, 0, [], 0, 0)"
  using router_infer_asks[where max_tokens = 1024 and temp = "''1''" and top_p = "''0.9''" and env = "he_other e" and errlen = 256 and be = "he_be e" and ps = ts and d = d,
      OF assms(1-5) completion_ask_sent[OF assms(9)] assms(6-8)]
  by (simp add: chat_infer_def)

text \<open>C12: A streamed completion, end to end. The client posts a JSON document with a model and a
  prompt; server \<open>i\<close> is the ready server of that model with the fewest requests in flight (the
  first of them). The program asks exactly this server, for 1024 tokens at temperature 1 and
  top_p 0.9, with the prompt as the payload: whatever the backends do with other requests, when
  this one is answered with the tokens \<open>ts\<close>, the client receives the header, then JSON events
  whose delta contents cut the text of the tokens between its characters (\<open>cut_text\<close>: whole
  characters in order, only an unfinished last character held back), then the closing event and
  \<open>[DONE]\<close>; the tokens are booked in the limiter and the router is as before.\<close>

theorem completions_stream_exact:
  assumes "\<not> rt_locked (hs_router st)" "rt_strategy (hs_router st) \<noteq> Some ''round-robin''"
    and "i < length (rt_servers (hs_router st))" "eligible model (rt_servers (hs_router st) ! i)"
    and "\<forall>s\<in>set (rt_servers (hs_router st)). eligible model s \<longrightarrow> rs_inflight (rt_servers (hs_router st) ! i) \<le> rs_inflight s"
    and "\<forall>k<i. eligible model (rt_servers (hs_router st) ! k) \<longrightarrow>
      rs_inflight (rt_servers (hs_router st) ! i) < rs_inflight (rt_servers (hs_router st) ! k)"
    and "he_be e (rs_host (rt_servers (hs_router st) ! i)) (rs_port (rt_servers (hs_router st) ! i)) (completion_ask prompt)
      = Some (concat (map t_frame ts) @ ''DONE'' @ d @ [LF])" "done_ok d"
    and "\<forall>t\<in>set ts. t \<noteq> [] \<and> length t < 509 \<and> NUL \<notin> set t" "raw_ok model" "length model \<le> 90"
    and "\<And>i. length (show_int (he_clk e i)) \<le> 20" "prompt \<noteq> []" "length prompt < HTTP_MAX_BODY"
  shows "\<exists>extra ds cs p. handle_completions e st (js_text (completion_doc model prompt)) True =
      Ret (st\<lparr>hs_rl := rl_bump_tokens (hs_rl st) (he_end e) (int (length ts))\<rparr>,
        http_sse_begin_extra extra @ concat (map http_sse_data ds)
        @ sse_on_done (he_end e) \<lparr>sc_model = model, sc_n = int (length ts), sc_prompt = 0, sc_usage = False, sc_pending = p\<rparr> ''length''
        @ http_sse_done) \<and>
    list_all2 (\<lambda>d c. \<exists>v. json_find d ''choices.0.delta.content'' = Ret (Some v) \<and>
      jv_type v = JSON_STR \<and> json_str_unescape (jv_text v) = c) ds cs \<and>
    cut_text (concat ts) cs p"
proof -
  let ?r = "hs_router st"
  define sc where "sc = \<lparr>sc_model = model, sc_n = 0, sc_prompt = 0, sc_usage = False, sc_pending = []\<rparr>"
  obtain ds cs p where t: "sse_tokens (he_clk e) 0 sc ts = (sc\<lparr>sc_n := int (length ts), sc_pending := p\<rparr>, concat (map http_sse_data ds))"
    "list_all2 (\<lambda>d c. (\<exists>v. json_find d ''choices.0.delta.content'' = Ret (Some v) \<and>
      jv_type v = JSON_STR \<and> json_str_unescape (take (jv_len v) (jv_start v)) = c) \<and> c \<noteq> [] \<and> utf8_complete_len c = length c) ds cs"
    "concat cs @ p = concat ts" "length p \<le> 3" "utf8_complete_len p = 0"
    using sse_tokens_stream[of ts sc "he_clk e" 0] assms(9-12) by (auto simp: sc_def)
  have cut: "cut_text (concat ts) cs p" using stream_cut[OF t(2-5)] .
  have ok: "\<forall>t\<in>set ts. tok_ok t" using assms(9) by (auto simp: tok_ok_def)
  obtain a b c where qs: "queue_snapshot ?r = Ret (?r, a, b, c)"
    using queue_snapshot_free[OF assms(1)] by blast
  have "map_option fst (pick_least model 0 None (rt_servers ?r)) = Some i"
    by (rule pick_least_unique[OF assms(3-6)])
  then have inf: "chat_infer e ?r \<lparr>cp_model = model, cp_max_tokens = 1024, cp_temp = ''1'', cp_top_p = ''0.9'', cp_usage = False\<rparr> prompt None
      = Ret (?r, ts, 0, [], 0, 0)"
    using completion_infer[OF assms(1,2) _ assms(3,4,7) ok assms(8,14)] by blast
  have upd: "st\<lparr>hs_router := ?r\<rparr> = st" "\<lparr>hs_router = ?r, hs_rl = g\<rparr> = st\<lparr>hs_rl := g\<rparr>" for g
    by (cases st; simp)+
  define head where "head = hr_extra (http_queue_headers e \<lparr>hr_status = 0, hr_type = [], hr_extra = []\<rparr> a b (-1) c)"
  have "handle_completions e st (js_text (completion_doc model prompt)) True =
      stream_answer e st \<lparr>cp_model = model, cp_max_tokens = 1024, cp_temp = ''1'', cp_top_p = ''0.9'', cp_usage = False\<rparr> prompt None ''length'' a b c"
    using completion_params[OF assms(10), of e prompt] completion_prompt_doc[OF assms(10,14)] assms(11,13) qs
    by (simp add: handle_completions_def upd)
  also have "\<dots> = Ret (st\<lparr>hs_rl := rl_bump_tokens (hs_rl st) (he_end e) (int (length ts))\<rparr>,
        http_sse_begin_extra head @ concat (map http_sse_data ds)
        @ sse_on_done (he_end e) (sc\<lparr>sc_n := int (length ts), sc_pending := p\<rparr>) ''length'' @ http_sse_done)"
    using t(1) by (simp add: stream_answer_def Let_def inf head_def[symmetric] sc_def upd)
  finally have h: "handle_completions e st (js_text (completion_doc model prompt)) True = \<dots>" .
  have l: "list_all2 (\<lambda>d c. \<exists>v. json_find d ''choices.0.delta.content'' = Ret (Some v) \<and>
      jv_type v = JSON_STR \<and> json_str_unescape (jv_text v) = c) ds cs"
    using t(2) by (rule list_all2_mono) (auto simp: jv_text_def)
  show ?thesis
    using h l cut by (intro exI[of _ head] exI[of _ ds] exI[of _ cs] exI[of _ p]) (simp add: sc_def)
qed

definition demo_env :: http_env where
  "demo_env = \<lparr>he_be = (\<lambda>h _ q. if h = ''h2'' \<and> q = completion_ask ''hi''
       then Some (t_frame ''he'' @ t_frame ''y'' @ ''DONE 2 1 9'' @ [LF]) else None), he_other = (\<lambda>_ r. r),
     he_now = 100, he_clk = (\<lambda>_. 100), he_end = 101, he_files = (\<lambda>_. None), he_num = (\<lambda>_. 0), he_g6 = (\<lambda>s. s),
     he_eta = (\<lambda>a n. a * n div 10)\<rparr>"

theorem api_key_gate_witness:
  "handle_conn demo_env \<lparr>hc_key = ''sk-1'', hc_limits = lim1, hc_queue_cap = 0\<rparr> \<lparr>hs_router = two_servers, hs_rl = rl_zero\<rparr>
     (http_text ''GET'' ''/v1/models'' ''HTTP/1.1'' [''Authorization: Bearer sk-2''] []) = Ret (\<lparr>hs_router = two_servers, hs_rl = rl_zero\<rparr>, unauthorized)"
proof -
  define cfg where "cfg = \<lparr>hc_key = ''sk-1'', hc_limits = lim1, hc_queue_cap = 0\<rparr>"
  have w: "http_word 15 ''GET''" "http_word 511 ''/v1/models''" "http_word 15 ''HTTP/1.1''"
    "\<forall>h\<in>set ([] @ (''Authorization: Bearer '' @ ''sk-2'') # []). header_ok h"
    by (simp_all add: http_word_def header_ok_def is_space_def code_def starts_ci_def lower_def)
  show ?thesis
    using api_key_gate[OF w, of "[]" cfg "[]" demo_env "\<lparr>hs_router = two_servers, hs_rl = rl_zero\<rparr>"] by (simp add: cfg_def)
qed

theorem completions_stream_exact_witness:
  "\<exists>extra ds cs p. handle_completions demo_env \<lparr>hs_router = two_servers, hs_rl = rl_zero\<rparr> (js_text (completion_doc ''m'' ''hi'')) True =
      Ret (\<lparr>hs_router = two_servers, hs_rl = rl_bump_tokens rl_zero 101 2\<rparr>,
        http_sse_begin_extra extra @ concat (map http_sse_data ds)
        @ sse_on_done 101 \<lparr>sc_model = ''m'', sc_n = 2, sc_prompt = 0, sc_usage = False, sc_pending = p\<rparr> ''length''
        @ http_sse_done) \<and> cut_text ''hey'' cs p \<and> length ds = length cs"
proof -
  define st where "st = \<lparr>hs_router = two_servers, hs_rl = rl_zero\<rparr>"
  have t: "\<not> rt_locked (hs_router st)" "rt_strategy (hs_router st) \<noteq> Some ''round-robin''"
    "1 < length (rt_servers (hs_router st))" "eligible ''m'' (rt_servers (hs_router st) ! 1)"
    "\<forall>s\<in>set (rt_servers (hs_router st)). eligible ''m'' s \<longrightarrow> rs_inflight (rt_servers (hs_router st) ! 1) \<le> rs_inflight s"
    "\<forall>k<1. eligible ''m'' (rt_servers (hs_router st) ! k) \<longrightarrow>
      rs_inflight (rt_servers (hs_router st) ! 1) < rs_inflight (rt_servers (hs_router st) ! k)"
    by (simp_all add: st_def two_servers_def eligible_def node_states)
  have be: "he_be demo_env (rs_host (rt_servers (hs_router st) ! 1)) (rs_port (rt_servers (hs_router st) ! 1)) (completion_ask ''hi'')
      = Some (concat (map t_frame [''he'', ''y'']) @ ''DONE'' @ '' 2 1 9'' @ [LF])"
    by (simp add: demo_env_def st_def two_servers_def)
  have ok: "done_ok '' 2 1 9''" "\<forall>t\<in>set [''he'', ''y'']. t \<noteq> [] \<and> length t < 509 \<and> NUL \<notin> set t" "raw_ok ''m''" "length ''m'' \<le> 90"
    by (simp_all add: done_ok_def)
  have c: "length (show_int (he_clk demo_env i)) \<le> 20" for i
    using length_show_nat[of 100 3] by (simp add: demo_env_def show_int_def)
  have p: "''hi'' \<noteq> []" "length ''hi'' < HTTP_MAX_BODY" by (simp_all add: HTTP_MAX_BODY_def)
  show ?thesis
    using completions_stream_exact[OF t be ok c p]
    by (fastforce simp: st_def demo_env_def dest: list_all2_lengthD)
qed

end
