(* ===== verification/Vocab.thy ===== *)
theory Vocab
  imports CSort
begin

text \<open>
  The vocabulary of \<open>inference/core/tokenizer.c\<close>: the record \<open>Vocab\<close> and the two ways the code
  looks a piece up, the linear \<open>vocab_id\<close> and the binary search \<open>vocab_bsearch_sorted\<close> over the
  index \<open>sorted\<close>. Token ids are below \<open>2^31\<close> and are naturals here. The four parallel arrays of
  merges are a list of records; \<open>mls\<close>/\<open>mrs\<close>, which live during loading, are \<open>vc_raw\<close>. A score,
  a \<open>float\<close> of which the code only compares the value, is an integer in units of \<open>2^-149\<close>, of which
  every finite \<open>float\<close> is a multiple.
\<close>

subsection \<open>The record\<close>

record merge =
  mg_l :: nat
  mg_r :: nat
  mg_id :: nat
  mg_rank :: nat

record vocab =
  vc_pieces :: "string list"
  vc_order :: "nat list"
  vc_unk :: int
  vc_bos :: int
  vc_eos :: int
  vc_sorted :: "nat list"
  vc_scores :: "int list"
  vc_merges :: "merge list"
  vc_raw :: "(string \<times> string) list"
  vc_byte_level :: bool
  vc_byte_ids :: "int list"
  vc_template :: "string option"
  vc_add_bos :: int
  vc_think :: int

abbreviation vc_n :: "vocab \<Rightarrow> nat" where
  "vc_n v \<equiv> length (vc_pieces v)"

text \<open>The record after \<open>memset(v, 0, sizeof(*v))\<close>.\<close>

definition vocab_zero :: vocab where
  "vocab_zero = \<lparr>vc_pieces = [], vc_order = [], vc_unk = 0, vc_bos = 0, vc_eos = 0, vc_sorted = [], vc_scores = [],
     vc_merges = [], vc_raw = [], vc_byte_level = False, vc_byte_ids = replicate 256 0, vc_template = None,
     vc_add_bos = 0, vc_think = 0\<rparr>"

subsection \<open>Lookup of a piece\<close>

function bsearch_loop :: "vocab \<Rightarrow> string \<Rightarrow> int \<Rightarrow> int \<Rightarrow> nat option" where
  "bsearch_loop v s lo hi =
     (if lo \<le> hi then
        let mid = (lo + hi) div 2; k = vc_sorted v ! nat mid; pc = vc_pieces v ! k; c = strncmp pc s in
        if c = 0 \<and> drop (length s) pc = [] then Some k
        else if c < 0 then bsearch_loop v s (mid + 1) hi
        else bsearch_loop v s lo (mid - 1)
      else None)"
  by pat_completeness auto
termination
  by (relation "measure (\<lambda>(v, s, lo, hi). nat (hi - lo + 1))") auto

declare bsearch_loop.simps [simp del]

definition vocab_bsearch_sorted :: "vocab \<Rightarrow> string \<Rightarrow> nat option" where
  "vocab_bsearch_sorted v s = bsearch_loop v s 0 (int (vc_n v) - 1)"

definition vocab_id :: "vocab \<Rightarrow> string \<Rightarrow> nat option" where
  "vocab_id v piece = find_index (\<lambda>p. p = piece) (vc_pieces v)"

text \<open>The index \<open>sorted\<close> lists every piece once, in the order of \<open>strcmp\<close>.\<close>

definition sorted_ok :: "vocab \<Rightarrow> bool" where
  "sorted_ok v \<longleftrightarrow> mset (vc_sorted v) = mset [0..<vc_n v]
     \<and> sorted_wrt (\<lambda>i j. strcmp (vc_pieces v ! i) (vc_pieces v ! j) \<le> 0) (vc_sorted v)"

lemma sorted_ok_set:
  assumes "sorted_ok v"
  shows "length (vc_sorted v) = vc_n v" "set (vc_sorted v) = {..<vc_n v}"
proof -
  have m: "mset (vc_sorted v) = mset [0..<vc_n v]" using assms by (simp add: sorted_ok_def)
  show "length (vc_sorted v) = vc_n v" using arg_cong[OF m, of size] by simp
  show "set (vc_sorted v) = {..<vc_n v}" using m by (metis set_mset_mset atLeast_upt)
qed

text \<open>One probe decides like \<open>strcmp\<close> on the whole piece.\<close>

lemma probe_cmp:
  "(strncmp pc s = 0 \<and> drop (length s) pc = []) \<longleftrightarrow> pc = s"
  "strncmp pc s < 0 \<longleftrightarrow> strcmp pc s < 0"
proof -
  have "starts s pc \<and> length pc \<le> length s \<longleftrightarrow> pc = s" by (auto simp: starts_iff)
  then show "(strncmp pc s = 0 \<and> drop (length s) pc = []) \<longleftrightarrow> pc = s" by (simp add: strncmp_0)
  show "strncmp pc s < 0 \<longleftrightarrow> strcmp pc s < 0" by (simp add: strcmp_strncmp[of pc s])
qed

lemma bsearch_step:
  assumes "lo \<le> hi" "mid = (lo + hi) div 2" "pc = vc_pieces v ! (vc_sorted v ! nat mid)"
  shows "bsearch_loop v s lo hi =
     (if pc = s then Some (vc_sorted v ! nat mid)
      else if strcmp pc s < 0 then bsearch_loop v s (mid + 1) hi
      else bsearch_loop v s lo (mid - 1))"
  by (subst bsearch_loop.simps) (simp only: assms(1) assms(2,3)[symmetric] if_True Let_def probe_cmp)

lemma bsearch_loop_spec:
  assumes ok: "sorted_ok v" and b: "0 \<le> lo" "hi < int (vc_n v)"
  shows "case bsearch_loop v s lo hi of
      Some i \<Rightarrow> i < vc_n v \<and> vc_pieces v ! i = s
    | None \<Rightarrow> \<forall>j. lo \<le> int j \<longrightarrow> int j \<le> hi \<longrightarrow> vc_pieces v ! (vc_sorted v ! j) \<noteq> s"
  using b
proof (induction "nat (hi - lo + 1)" arbitrary: lo hi rule: less_induct)
  case less
  define mid where "mid = (lo + hi) div 2"
  let ?P = "\<lambda>j. vc_pieces v ! (vc_sorted v ! j)"
  note len = sorted_ok_set(1)[OF ok]
  show ?case
  proof (cases "lo \<le> hi")
    case True
    then have m: "lo \<le> mid" "mid \<le> hi" by (auto simp: mid_def)
    then have in_n: "vc_sorted v ! nat mid < vc_n v"
      using sorted_ok_set[OF ok] less.prems nth_mem[of "nat mid" "vc_sorted v"] by auto
    have ord: "strcmp (?P j) (?P k) \<le> 0" if "j < k" "k < vc_n v" for j k
      using ok that len sorted_wrt_nth_less[of "\<lambda>i j. strcmp (vc_pieces v ! i) (vc_pieces v ! j) \<le> 0" "vc_sorted v" j k]
      unfolding sorted_ok_def by simp
    note step = bsearch_step[OF True mid_def refl, of v s]
    consider "?P (nat mid) = s" | "strcmp (?P (nat mid)) s < 0" | "strcmp (?P (nat mid)) s > 0"
      using strcmp_0 by (metis linorder_less_linear)
    then show ?thesis
    proof cases
      case 1
      then show ?thesis using step in_n by simp
    next
      case 2
      then have e: "bsearch_loop v s lo hi = bsearch_loop v s (mid + 1) hi"
        using step by auto
      have "?P j \<noteq> s" if "lo \<le> int j" "int j \<le> mid" for j
      proof (cases "j = nat mid")
        case False
        then have "strcmp (?P j) (?P (nat mid)) \<le> 0" using that m less.prems by (intro ord) auto
        then show ?thesis using 2 strcmp_swap[of "?P (nat mid)" s] by auto
      qed (use 2 in auto)
      then show ?thesis unfolding e using less.hyps[of hi "mid + 1"] m less.prems
        by (force split: option.splits)
    next
      case 3
      then have e: "bsearch_loop v s lo hi = bsearch_loop v s lo (mid - 1)"
        using step by auto
      have "?P j \<noteq> s" if "mid \<le> int j" "int j \<le> hi" for j
      proof (cases "j = nat mid")
        case False
        then have "strcmp (?P (nat mid)) (?P j) \<le> 0" using that m less.prems by (intro ord) auto
        then show ?thesis using 3 by auto
      qed (use 3 in auto)
      then show ?thesis unfolding e using less.hyps[of "mid - 1" lo] m less.prems
        by (force split: option.splits)
    qed
  qed (simp add: bsearch_loop.simps)
qed

subsection \<open>The interface of a piece index\<close>

text \<open>What the encoders rely on: a lookup answers with a piece that has exactly this text,
  and fails only when no piece has it.\<close>

locale piece_index =
  fixes find :: "vocab \<Rightarrow> string \<Rightarrow> nat option" and ok :: "vocab \<Rightarrow> bool"
  assumes hit: "ok v \<Longrightarrow> find v s = Some i \<Longrightarrow> i < vc_n v \<and> vc_pieces v ! i = s"
    and miss: "ok v \<Longrightarrow> find v s = None \<Longrightarrow> s \<notin> set (vc_pieces v)"
begin

lemma None_iff: "ok v \<Longrightarrow> find v s = None \<longleftrightarrow> s \<notin> set (vc_pieces v)"
  using hit miss by (metis not_None_eq nth_mem)

lemma piece_found:
  assumes "ok v" "s \<in> set (vc_pieces v)"
  obtains i where "find v s = Some i" "i < vc_n v" "vc_pieces v ! i = s"
  using assms hit miss by (metis not_None_eq)

lemma found_distinct:
  assumes "ok v" "distinct (vc_pieces v)" "i < vc_n v"
  shows "find v (vc_pieces v ! i) = Some i"
  using assms hit piece_found nth_mem by (metis nth_eq_iff_index_eq)

end

interpretation linear: piece_index vocab_id "\<lambda>_. True"
  by unfold_locales (auto simp: vocab_id_def find_index_None find_index_Some)

interpretation bsearch: piece_index vocab_bsearch_sorted sorted_ok
proof
  fix v s i
  assume ok: "sorted_ok v" and f: "vocab_bsearch_sorted v s = Some i"
  then show "i < vc_n v \<and> vc_pieces v ! i = s"
    using bsearch_loop_spec[OF ok, of 0 "int (vc_n v) - 1" s] by (simp add: vocab_bsearch_sorted_def)
next
  fix v s
  assume ok: "sorted_ok v" and "vocab_bsearch_sorted v s = None"
  then have no: "\<forall>j<vc_n v. vc_pieces v ! (vc_sorted v ! j) \<noteq> s"
    using bsearch_loop_spec[OF ok, of 0 "int (vc_n v) - 1" s] by (simp add: vocab_bsearch_sorted_def)
  show "s \<notin> set (vc_pieces v)"
  proof
    assume "s \<in> set (vc_pieces v)"
    then obtain i where i: "i < vc_n v" "vc_pieces v ! i = s" by (auto simp: in_set_conv_nth)
    then have "i \<in> set (vc_sorted v)" using sorted_ok_set(2)[OF ok] by auto
    then show False using no i sorted_ok_set(1)[OF ok] by (auto simp: in_set_conv_nth)
  qed
qed

text \<open>The binary search over the index \<open>sorted\<close> and the linear scan \<open>vocab_id\<close> are
  equivalent: both find a piece exactly when the vocabulary has it, both answer with a token of
  that very text, and when no text occurs twice they answer with the same token. (A comment in
  the code says the search goes right when a longer piece starts with the text; it goes left, as
  it must.)\<close>

theorem lookup_equivalence:
  assumes "sorted_ok v"
  shows "(vocab_bsearch_sorted v s = None \<longleftrightarrow> vocab_id v s = None)
    \<and> (\<forall>i j. vocab_bsearch_sorted v s = Some i \<and> vocab_id v s = Some j \<longrightarrow>
          i < vc_n v \<and> j < vc_n v \<and> vc_pieces v ! i = s \<and> vc_pieces v ! j = s)
    \<and> (distinct (vc_pieces v) \<longrightarrow> vocab_bsearch_sorted v s = vocab_id v s)"
proof -
  have n: "vocab_bsearch_sorted v s = None \<longleftrightarrow> vocab_id v s = None"
    using bsearch.None_iff[OF assms] linear.None_iff by simp
  have h: "i < vc_n v \<and> vc_pieces v ! i = s" if "vocab_bsearch_sorted v s = Some i \<or> vocab_id v s = Some i" for i
    using that bsearch.hit[OF assms] linear.hit by blast
  have "vocab_bsearch_sorted v s = vocab_id v s" if "distinct (vc_pieces v)"
    using n h that by (metis nth_eq_iff_index_eq not_None_eq)
  then show ?thesis using n h by blast
qed

definition abc_vocab :: vocab where
  "abc_vocab = vocab_zero\<lparr>vc_pieces := [''b'', ''ab'', ''a''], vc_sorted := [2, 1, 0]\<rparr>"

theorem lookup_equivalence_witness:
  "vocab_bsearch_sorted abc_vocab ''ab'' = vocab_id abc_vocab ''ab''"
proof -
  have "sorted_ok abc_vocab" by (simp add: sorted_ok_def abc_vocab_def vocab_zero_def upt_rec code_def)
  then show ?thesis using lookup_equivalence[of abc_vocab "''ab''"] by (simp add: abc_vocab_def)
qed

end
