(* ===== verification/VocabFile.thy ===== *)
theory VocabFile
  imports Vocab Wire
begin

text \<open>
  Loading a vocabulary (\<open>vocab_load\<close> of \<open>inference/core/tokenizer.c\<close>): the SentencePiece model
  file (a protocol buffer), the text format with its sections of scores, merges and chat
  settings, the sort of the lookup index and the resolution of the merges. Also the writer of
  the text format in \<open>inference/convert/convert_gguf.c\<close>. A file is the list of its bytes. Parameters:
  \<open>atof\<close> (a score in units of \<open>2^-149\<close>), \<open>junk\<close> (what the array of scores holds before it is written)
  and \<open>qs\<close>, the \<open>qsort\<close> of the library.
\<close>

subsection \<open>The protocol buffer of SentencePiece\<close>

text \<open>\<open>pb_varint\<close>: 7 bits per byte, low bits first, into a \<open>uint64_t\<close>. A shift by 64 or more is
  undefined (\<open>Fault\<close>).\<close>

fun varint_loop :: "nat \<Rightarrow> u64 \<Rightarrow> bytes \<Rightarrow> (u64 \<times> bytes) run" where
  "varint_loop sh v [] = Ret (v, [])"
| "varint_loop sh v (c # b) =
     (if sh \<ge> 64 then Fault
      else let v = or v (push_bit sh (word_of_nat (code c mod 128))) in
        if code c < 128 then Ret (v, b) else varint_loop (sh + 7) v b)"

definition pb_varint :: "bytes \<Rightarrow> (u64 \<times> bytes) run" where
  "pb_varint b = varint_loop 0 0 b"

definition pb_tag :: "bytes \<Rightarrow> (nat \<times> nat \<times> bytes) run" where
  "pb_tag b = run_bind (pb_varint b) (\<lambda>(x, b).
     let tag = unat (ucast x :: u32) in Ret (tag div 8, tag mod 8, b))"

text \<open>A length-delimited field; \<open>None\<close> when it reaches over the end (the loops break there). The
  addition \<open>b.p + len\<close> leaves the address space for a length near \<open>2^64\<close>.\<close>

definition pb_field :: "bytes \<Rightarrow> (bytes \<times> bytes) option run" where
  "pb_field b = run_bind (pb_varint b) (\<lambda>(len, b).
     if unat len \<ge> 2 ^ 63 then Fault
     else if unat len > length b then Ret None
     else Ret (Some (take (unat len) b, drop (unat len) b)))"

lemma varint_loop_length: "varint_loop sh v b = Ret (x, r) \<Longrightarrow> length r \<le> length b \<and> (b \<noteq> [] \<longrightarrow> length r < length b)"
  by (induction sh v b rule: varint_loop.induct) (auto simp: Let_def split: if_splits)

lemma pb_tag_length: "pb_tag b = Ret (f, wt, r) \<Longrightarrow> length r \<le> length b \<and> (b \<noteq> [] \<longrightarrow> length r < length b)"
  by (auto simp: pb_tag_def pb_varint_def run_bind_Ret Let_def dest!: varint_loop_length)

lemma pb_varint_length: "pb_varint b = Ret (x, r) \<Longrightarrow> length r \<le> length b"
  by (auto simp: pb_varint_def dest!: varint_loop_length)

lemma pb_field_length: "pb_field b = Ret (Some (s, r)) \<Longrightarrow> length r \<le> length b"
  by (auto simp: pb_field_def run_bind_Ret dest!: pb_varint_length split: if_splits)

text \<open>One piece message: its text, if it has one, and its type. The text ends at the first NUL,
  as the copy is used as a C string.\<close>

function sp_piece :: "string option \<Rightarrow> nat \<Rightarrow> bytes \<Rightarrow> (string option \<times> nat) run" where
  "sp_piece pc ty b =
     (if b = [] then Ret (pc, ty)
      else case pb_tag b of
        Ret (f, wt, b) \<Rightarrow>
          if f = 1 \<and> wt = 2 then
            (case pb_field b of Ret None \<Rightarrow> Ret (pc, ty) | Ret (Some (s, b)) \<Rightarrow> sp_piece (Some (cstr s)) ty b
             | Diverge \<Rightarrow> Diverge | Fault \<Rightarrow> Fault)
          else if f = 3 \<and> wt = 0 then
            (case pb_varint b of Ret (x, b) \<Rightarrow> sp_piece pc (unat (ucast x :: u32)) b | Diverge \<Rightarrow> Diverge | Fault \<Rightarrow> Fault)
          else if wt = 5 then sp_piece pc ty (drop 4 b)
          else if wt = 0 then
            (case pb_varint b of Ret (x, b) \<Rightarrow> sp_piece pc ty b | Diverge \<Rightarrow> Diverge | Fault \<Rightarrow> Fault)
          else if wt = 2 then
            (case pb_field b of Ret None \<Rightarrow> Ret (pc, ty) | Ret (Some (s, b)) \<Rightarrow> sp_piece pc ty b
             | Diverge \<Rightarrow> Diverge | Fault \<Rightarrow> Fault)
          else if wt = 1 then sp_piece pc ty (drop 8 b)
          else sp_piece pc ty b
      | Diverge \<Rightarrow> Diverge | Fault \<Rightarrow> Fault)"
  by pat_completeness auto
termination
  by (relation "measure (\<lambda>(pc, ty, b). length b)")
     (force dest: pb_tag_length pb_varint_length pb_field_length)+

declare sp_piece.simps [simp del]

text \<open>A piece joins the vocabulary; control pieces (type 3) may be the special tokens.\<close>

definition add_special :: "string \<Rightarrow> vocab \<Rightarrow> vocab" where
  "add_special pc v =
     (let i = int (vc_n v);
          v = (if pc = ''<bos>'' then v\<lparr>vc_bos := i\<rparr>
               else if vc_bos v < 0 \<and> pc = ''<s>'' then v\<lparr>vc_bos := i\<rparr> else v) in
      if pc = ''<eos>'' then v\<lparr>vc_eos := i\<rparr>
      else if vc_eos v < 0 \<and> pc = ''</s>'' then v\<lparr>vc_eos := i\<rparr> else v)"

definition add_piece :: "string \<Rightarrow> vocab \<Rightarrow> vocab" where
  "add_piece pc v = v\<lparr>vc_pieces := vc_pieces v @ [pc]\<rparr>"

definition sp_add :: "string \<Rightarrow> nat \<Rightarrow> vocab \<Rightarrow> vocab" where
  "sp_add pc ty v =
     (let i = int (vc_n v);
          v = (if ty = 2 \<and> vc_unk v < 0 then v\<lparr>vc_unk := i\<rparr> else v);
          v = (if ty = 3 then
                 let v = add_special pc v in
                 if pc = ''<unk>'' \<and> vc_unk v < 0 then v\<lparr>vc_unk := i\<rparr> else v
               else v) in
      add_piece pc v)"

function sp_loop :: "bytes \<Rightarrow> vocab \<Rightarrow> vocab run" where
  "sp_loop b v =
     (if b = [] then Ret v
      else case pb_tag b of
        Ret (f, wt, b) \<Rightarrow>
          if wt = 2 then
            (case pb_field b of Ret None \<Rightarrow> Ret v
             | Ret (Some (s, b)) \<Rightarrow>
                 if f = 1 then
                   (case sp_piece None 0 s of
                      Ret (pc, ty) \<Rightarrow> sp_loop b (case pc of None \<Rightarrow> v | Some pc \<Rightarrow> sp_add pc ty v)
                    | Diverge \<Rightarrow> Diverge | Fault \<Rightarrow> Fault)
                 else sp_loop b v
             | Diverge \<Rightarrow> Diverge | Fault \<Rightarrow> Fault)
          else if wt = 0 then
            (case pb_varint b of Ret (x, b) \<Rightarrow> sp_loop b v | Diverge \<Rightarrow> Diverge | Fault \<Rightarrow> Fault)
          else if wt = 5 then sp_loop (drop 4 b) v
          else if wt = 1 then sp_loop (drop 8 b) v
          else sp_loop b v
      | Diverge \<Rightarrow> Diverge | Fault \<Rightarrow> Fault)"
  by pat_completeness auto
termination
  by (relation "measure (\<lambda>(b, v). length b)")
     (force dest: pb_tag_length pb_varint_length pb_field_length)+

declare sp_loop.simps [simp del]

definition parse_sp :: "bytes \<Rightarrow> vocab option run" where
  "parse_sp data =
     run_bind (sp_loop data (vocab_zero\<lparr>vc_unk := -1, vc_bos := -1, vc_eos := -1\<rparr>))
       (\<lambda>v. Ret (if vc_pieces v = [] then None else Some v))"

subsection \<open>Lines of a text file\<close>

text \<open>\<open>fgets\<close> into a buffer of \<open>n\<close> bytes: at most \<open>n - 1\<close> bytes, up to and with the line feed;
  \<open>NULL\<close> at the end of the file. What the code sees is the C string of the buffer.\<close>

fun fgets_loop :: "nat \<Rightarrow> bytes \<Rightarrow> bytes \<times> bytes" where
  "fgets_loop 0 s = ([], s)"
| "fgets_loop (Suc n) [] = ([], [])"
| "fgets_loop (Suc n) (c # s) =
     (if c = LF then ([c], s) else case fgets_loop n s of (l, r) \<Rightarrow> (c # l, r))"

definition LINE_MAX :: nat where "LINE_MAX = 65536"

definition fgets :: "bytes \<Rightarrow> (string \<times> bytes) option" where
  "fgets s = (if s = [] then None else case fgets_loop (LINE_MAX - 1) s of (l, r) \<Rightarrow> Some (cstr l, r))"

definition chomp :: "string \<Rightarrow> string" where
  "chomp l = rev (dropWhile (\<lambda>c. c = LF \<or> c = CR) (rev l))"

lemma fgets_loop_length: "fgets_loop n s = (l, r) \<Longrightarrow> length r \<le> length s \<and> (0 < n \<longrightarrow> s \<noteq> [] \<longrightarrow> length r < length s)"
  by (induction n s arbitrary: l rule: fgets_loop.induct) (auto split: if_splits prod.splits)

lemma fgets_length: "fgets s = Some (l, r) \<Longrightarrow> length r < length s"
  using fgets_loop_length[of "LINE_MAX - 1" s]
  by (auto simp: fgets_def LINE_MAX_def split: if_splits prod.splits)

fun unescape_piece :: "string \<Rightarrow> string" where
  "unescape_piece [] = []"
| "unescape_piece (c # s) =
     (if c = BSL then
        (case s of [] \<Rightarrow> [c]
         | d # t \<Rightarrow>
            if d = CHR ''n'' then LF # unescape_piece t
            else if d = CHR ''r'' then CR # unescape_piece t
            else if d = CHR ''t'' then TAB # unescape_piece t
            else if d = BSL then BSL # unescape_piece t
            else c # unescape_piece s)
      else c # unescape_piece s)"

subsection \<open>The text format\<close>

text \<open>One line of the piece table: the id up to the tab, then the escaped text. The special
  tokens are recognised when the id is the position of the line.\<close>

definition piece_line :: "string \<Rightarrow> vocab \<Rightarrow> vocab option" where
  "piece_line l v =
     (case strchr l TAB of
        None \<Rightarrow> None
      | Some t \<Rightarrow>
        let pc = tl t; i = int (vc_n v);
            v1 = (if atoi (takeWhile (\<lambda>c. c \<noteq> TAB) l) = i then
                    add_special pc (if pc = ''<unk>'' then v\<lparr>vc_unk := i\<rparr> else v)
                  else v) in
        Some (add_piece (unescape_piece pc) v1))"

fun piece_lines :: "nat \<Rightarrow> bytes \<Rightarrow> vocab \<Rightarrow> (vocab \<times> bytes) option" where
  "piece_lines 0 s v = Some (v, s)"
| "piece_lines (Suc k) s v =
     (case fgets s of
        None \<Rightarrow> Some (v, s)
      | Some (l, s) \<Rightarrow> (case piece_line (chomp l) v of None \<Rightarrow> None | Some v \<Rightarrow> piece_lines k s v))"

fun score_lines :: "(string \<Rightarrow> int) \<Rightarrow> nat \<Rightarrow> bytes \<Rightarrow> int list \<times> bytes" where
  "score_lines atof 0 s = ([], s)"
| "score_lines atof (Suc k) s =
     (case fgets s of
        None \<Rightarrow> ([], s)
      | Some (l, s) \<Rightarrow> (case score_lines atof k s of (xs, s) \<Rightarrow> (atof l # xs, s)))"

text \<open>Lines without a blank are skipped and do not count.\<close>

function merge_lines :: "nat \<Rightarrow> bytes \<Rightarrow> (string \<times> string) list \<times> bytes" where
  "merge_lines k s =
     (if k = 0 then ([], s)
      else case fgets s of
        None \<Rightarrow> ([], s)
      | Some (l, s) \<Rightarrow>
        (let l = chomp l in
         case strchr l SP of
           None \<Rightarrow> merge_lines k s
         | Some t \<Rightarrow> (case merge_lines (k - 1) s of
             (ms, s) \<Rightarrow> ((unescape_piece (takeWhile (\<lambda>c. c \<noteq> SP) l), unescape_piece (tl t)) # ms, s))))"
  by pat_completeness auto
termination
  by (relation "measure (\<lambda>(k, s). length s)") (auto dest: fgets_length)

declare merge_lines.simps [simp del]

definition chat_line :: "string \<Rightarrow> vocab \<Rightarrow> vocab" where
  "chat_line l v =
     (if starts ''add_bos='' l then v\<lparr>vc_add_bos := atoi (drop 8 l)\<rparr>
      else if starts ''eos_id='' l then v\<lparr>vc_eos := atoi (drop 7 l)\<rparr>
      else if starts ''bos_id='' l then
        (let i = atoi (drop 7 l) in if i \<ge> 0 then v\<lparr>vc_bos := i\<rparr> else v)
      else if starts ''template='' l then v\<lparr>vc_template := Some (unescape_piece (drop 9 l))\<rparr>
      else v)"

function chat_lines :: "bytes \<Rightarrow> vocab \<Rightarrow> vocab" where
  "chat_lines s v = (case fgets s of None \<Rightarrow> v | Some (l, s) \<Rightarrow> chat_lines s (chat_line (chomp l) v))"
  by pat_completeness auto
termination
  by (relation "measure (\<lambda>(s, v). length s)") (auto dest: fgets_length)

declare chat_lines.simps [simp del]

lemma score_lines_length: "score_lines atof k s = (xs, r) \<Longrightarrow> length r \<le> length s"
  by (induction k arbitrary: s xs) (fastforce split: option.splits prod.splits dest: fgets_length)+

lemma merge_lines_end: "k = 0 \<or> fgets s = None \<Longrightarrow> merge_lines k s = ([], s)"
  by (subst merge_lines.simps) auto

lemma merge_lines_step:
  "k \<noteq> 0 \<Longrightarrow> fgets s = Some (l, s') \<Longrightarrow> merge_lines k s =
     (case strchr (chomp l) SP of
        None \<Rightarrow> merge_lines k s'
      | Some t \<Rightarrow> (case merge_lines (k - 1) s' of
          (ms, r) \<Rightarrow> ((unescape_piece (takeWhile (\<lambda>c. c \<noteq> SP) (chomp l)), unescape_piece (tl t)) # ms, r)))"
  by (subst merge_lines.simps) (simp add: Let_def)

lemma merge_lines_length: "merge_lines k s = (ms, r) \<Longrightarrow> length r \<le> length s"
proof (induction "length s" arbitrary: k s ms rule: less_induct)
  case less
  show ?case
  proof (cases "k = 0 \<or> fgets s = None")
    case False
    then obtain l s' where k: "k \<noteq> 0" and f: "fgets s = Some (l, s')" by auto
    have ih: "length r \<le> length s" if "merge_lines k' s' = (ms', r)" for k' ms'
      using less.hyps[OF fgets_length[OF f] that] fgets_length[OF f] by simp
    show ?thesis using less.prems
      by (auto simp: merge_lines_step[OF k f] split: option.splits prod.splits dest: ih)
  qed (use less.prems in \<open>simp add: merge_lines_end\<close>)
qed

text \<open>The sections \<open>#SCORES#\<close>, \<open>#MERGES#\<close> and \<open>#CHAT#\<close>; any other line ends the file.\<close>

function sections :: "(string \<Rightarrow> int) \<Rightarrow> (nat \<Rightarrow> int) \<Rightarrow> bytes \<Rightarrow> vocab \<Rightarrow> vocab" where
  "sections atof junk s v =
     (case fgets s of
        None \<Rightarrow> v
      | Some (l, s) \<Rightarrow>
        if chomp l = ''#SCORES#'' then
          (case fgets s of
             None \<Rightarrow> v
           | Some (l, s) \<Rightarrow>
             let ns = atoi l in
             if ns > 0 \<and> ns \<le> 1000000 then
               (case score_lines atof (nat ns) s of
                  (xs, s) \<Rightarrow> sections atof junk s (v\<lparr>vc_scores := xs @ map junk [length xs..<nat ns]\<rparr>))
             else sections atof junk s v)
        else if chomp l = ''#MERGES#'' then
          (case fgets s of
             None \<Rightarrow> v
           | Some (l, s) \<Rightarrow>
             let nm = atoi l in
             if nm > 0 \<and> nm \<le> 5000000 then
               (case merge_lines (nat nm) s of (ms, s) \<Rightarrow> sections atof junk s (v\<lparr>vc_raw := ms\<rparr>))
             else sections atof junk s v)
        else if chomp l = ''#CHAT#'' then chat_lines s v
        else v)"
  by pat_completeness auto
termination
  by (relation "measure (\<lambda>(atof, junk, s, v). length s)")
     (fastforce dest: fgets_length score_lines_length[OF sym] merge_lines_length[OF sym])+

declare sections.simps [simp del]

definition parse_text :: "(string \<Rightarrow> int) \<Rightarrow> (nat \<Rightarrow> int) \<Rightarrow> bytes \<Rightarrow> vocab option" where
  "parse_text atof junk s =
     (case fgets s of
        None \<Rightarrow> None
      | Some (l, s) \<Rightarrow>
        let n = atoi l in
        if n \<le> 0 \<or> n > 1000000 then None
        else case piece_lines (nat n) s (vocab_zero\<lparr>vc_think := -1, vc_unk := -1, vc_bos := -1, vc_eos := -1\<rparr>) of
          None \<Rightarrow> None
        | Some (v, s) \<Rightarrow> if vc_pieces v = [] then None else Some (sections atof junk s v))"

subsection \<open>Byte-level vocabularies\<close>

text \<open>The table \<open>tiktoken_special\<close>: bytes without a printable Latin-1 character of their own.\<close>

definition tiktoken_special :: "nat \<Rightarrow> bool" where
  "tiktoken_special b \<longleftrightarrow> b \<le> 32 \<or> 127 \<le> b \<and> b \<le> 160 \<or> b = 173"

definition gpt2_code_point :: "nat \<Rightarrow> nat" where
  "gpt2_code_point b =
     (if tiktoken_special b then
        256 + (if b \<le> 32 then b else if b \<le> 159 then 33 + (b - 127) else if b = 160 then 66 else 67)
      else b)"

definition gpt2_byte_str :: "nat \<Rightarrow> string" where
  "gpt2_byte_str b =
     (let cp = gpt2_code_point b in
      if cp < 128 then [char_of cp]
      else if cp < 2048 then [char_of (192 + cp div 64), char_of (128 + cp mod 64)]
      else [char_of (224 + cp div 4096), char_of (128 + cp div 64 mod 64), char_of (128 + cp mod 64)])"

definition build_byte_ids :: "vocab \<Rightarrow> int list" where
  "build_byte_ids v =
     map (\<lambda>b. case vocab_bsearch_sorted v (gpt2_byte_str b) of Some i \<Rightarrow> int i | None \<Rightarrow> -1) [0..<256]"

subsection \<open>Index and merges\<close>

definition dict_compare :: "string list \<Rightarrow> nat \<Rightarrow> nat \<Rightarrow> int" where
  "dict_compare ps i j = strcmp (ps ! i) (ps ! j)"

definition order_compare :: "string list \<Rightarrow> nat \<Rightarrow> nat \<Rightarrow> int" where
  "order_compare ps i j =
     (let x = ps ! i; y = ps ! j in
      if length x \<noteq> length y then if length x > length y then -1 else 1 else strcmp x y)"

definition merge_cmp :: "merge list \<Rightarrow> nat \<Rightarrow> nat \<Rightarrow> int" where
  "merge_cmp ms x y =
     (let a = ms ! x; b = ms ! y in
      if mg_l a \<noteq> mg_l b then if mg_l a < mg_l b then -1 else 1
      else if mg_r a \<noteq> mg_r b then if mg_r a < mg_r b then -1 else 1
      else 0)"

text \<open>A merge is kept when both sides and their concatenation are pieces; the rank is its
  position among the kept ones.\<close>

fun resolve_merges :: "vocab \<Rightarrow> nat \<Rightarrow> (string \<times> string) list \<Rightarrow> merge list" where
  "resolve_merges v rank [] = []"
| "resolve_merges v rank ((l, r) # ms) =
     (case vocab_bsearch_sorted v l of None \<Rightarrow> resolve_merges v rank ms
      | Some il \<Rightarrow>
        case vocab_bsearch_sorted v r of None \<Rightarrow> resolve_merges v rank ms
        | Some ir \<Rightarrow>
          case vocab_bsearch_sorted v (l @ r) of None \<Rightarrow> resolve_merges v rank ms
          | Some im \<Rightarrow> \<lparr>mg_l = il, mg_r = ir, mg_id = im, mg_rank = rank\<rparr> # resolve_merges v (rank + 1) ms)"

definition sort_merges :: "((nat \<Rightarrow> nat \<Rightarrow> int) \<Rightarrow> nat list \<Rightarrow> nat list) \<Rightarrow> merge list \<Rightarrow> merge list" where
  "sort_merges qs ms = map (nth ms) (qs (merge_cmp ms) [0..<length ms])"

definition index_vocab :: "((nat \<Rightarrow> nat \<Rightarrow> int) \<Rightarrow> nat list \<Rightarrow> nat list) \<Rightarrow> vocab \<Rightarrow> vocab" where
  "index_vocab qs v =
     (let v = v\<lparr>vc_order := qs (order_compare (vc_pieces v)) [0..<vc_n v],
               vc_sorted := qs (dict_compare (vc_pieces v)) [0..<vc_n v]\<rparr>;
          v = (if vc_raw v \<noteq> [] then v\<lparr>vc_merges := sort_merges qs (resolve_merges v 0 (vc_raw v)), vc_raw := []\<rparr> else v) in
      if vc_merges v \<noteq> [] \<and> vc_scores v = [] then v\<lparr>vc_byte_level := True, vc_byte_ids := build_byte_ids v\<rparr>
      else v)"

text \<open>A first byte \<open>0x0A\<close> tells the protocol buffer from the text format.\<close>

definition vocab_load ::
  "(string \<Rightarrow> int) \<Rightarrow> (nat \<Rightarrow> int) \<Rightarrow> ((nat \<Rightarrow> nat \<Rightarrow> int) \<Rightarrow> nat list \<Rightarrow> nat list) \<Rightarrow> bytes option \<Rightarrow> vocab option run" where
  "vocab_load atof junk qs file =
     (case file of
        None \<Rightarrow> Ret None
      | Some data \<Rightarrow>
        run_bind (if data \<noteq> [] \<and> hd data = LF then parse_sp data else Ret (parse_text atof junk data))
          (\<lambda>r. Ret (map_option (index_vocab qs) r)))"

subsection \<open>What a loaded vocabulary satisfies\<close>

definition merge_ok :: "vocab \<Rightarrow> merge \<Rightarrow> bool" where
  "merge_ok v m \<longleftrightarrow> mg_l m < vc_n v \<and> mg_r m < vc_n v \<and> mg_id m < vc_n v
     \<and> vc_pieces v ! mg_id m = vc_pieces v ! mg_l m @ vc_pieces v ! mg_r m"

definition merge_le :: "merge \<Rightarrow> merge \<Rightarrow> bool" where
  "merge_le a b \<longleftrightarrow> mg_l a < mg_l b \<or> mg_l a = mg_l b \<and> mg_r a \<le> mg_r b"

definition vocab_ok :: "vocab \<Rightarrow> bool" where
  "vocab_ok v \<longleftrightarrow> sorted_ok v \<and> vc_pieces v \<noteq> [] \<and> -1 \<le> vc_unk v \<and> vc_unk v < int (vc_n v)
     \<and> (\<forall>m\<in>set (vc_merges v). merge_ok v m) \<and> sorted_wrt merge_le (vc_merges v) \<and> distinct (map mg_rank (vc_merges v))
     \<and> (\<forall>m\<in>set (vc_merges v). mg_rank m < 5000000)
     \<and> (vc_byte_level v \<longleftrightarrow> vc_merges v \<noteq> [] \<and> vc_scores v = [])
     \<and> (vc_byte_level v \<longrightarrow> vc_byte_ids v = build_byte_ids v)"

lemma bsearch_loop_cong:
  "vc_pieces v = vc_pieces w \<Longrightarrow> vc_sorted v = vc_sorted w \<Longrightarrow> bsearch_loop v s lo hi = bsearch_loop w s lo hi"
proof (induction "nat (hi - lo + 1)" arbitrary: lo hi rule: less_induct)
  case less
  define mid where "mid = (lo + hi) div 2"
  show ?case
  proof (cases "lo \<le> hi")
    case True
    then have "bsearch_loop v s (mid + 1) hi = bsearch_loop w s (mid + 1) hi"
      "bsearch_loop v s lo (mid - 1) = bsearch_loop w s lo (mid - 1)"
      using less by (auto simp: mid_def)
    then show ?thesis
      using bsearch_step[OF True mid_def refl, of v s] bsearch_step[OF True mid_def refl, of w s] less.prems by simp
  qed (simp add: bsearch_loop.simps)
qed

lemma bsearch_cong:
  "vc_pieces v = vc_pieces w \<Longrightarrow> vc_sorted v = vc_sorted w \<Longrightarrow> vocab_bsearch_sorted v s = vocab_bsearch_sorted w s"
  by (simp add: vocab_bsearch_sorted_def bsearch_loop_cong[of v w])

lemma resolve_merges_ok:
  assumes "sorted_ok v"
  shows "\<forall>m\<in>set (resolve_merges v k ms). merge_ok v m"
proof (induction ms arbitrary: k)
  case (Cons m ms)
  then show ?case using bsearch.hit[OF assms]
    by (cases m) (auto simp: merge_ok_def split: option.splits)
qed simp

lemma resolve_merges_ranks:
  "map mg_rank (resolve_merges v k ms) = [k..<k + length (resolve_merges v k ms)]"
proof (induction ms arbitrary: k)
  case (Cons m ms)
  then show ?case using Cons.IH[of "k + 1"]
    by (cases m) (auto split: option.splits simp: upt_conv_Cons simp del: upt_Suc)
qed simp

lemma resolve_merges_length: "length (resolve_merges v k ms) \<le> length ms"
proof (induction ms arbitrary: k)
  case (Cons m ms)
  then show ?case by (cases m) (auto split: option.splits intro: le_SucI)
qed simp

lemma resolve_merges_rank:
  assumes "m \<in> set (resolve_merges v 0 ms)"
  shows "mg_rank m < length ms"
proof -
  have "mg_rank m \<in> set (map mg_rank (resolve_merges v 0 ms))" using assms by simp
  then show ?thesis unfolding resolve_merges_ranks using resolve_merges_length[of v 0 ms] by simp
qed

lemma merge_cmp_preorder: "total_preorder (merge_cmp ms)"
  by (auto simp: total_preorder_def merge_cmp_def Let_def split: if_splits)

lemma merge_cmp_le: "merge_cmp ms x y \<le> 0 \<longleftrightarrow> merge_le (ms ! x) (ms ! y)"
  by (auto simp: merge_cmp_def merge_le_def Let_def)

lemma mset_nth_perm: "mset xs = mset [0..<length ms] \<Longrightarrow> mset (map (nth ms) xs) = mset ms"
  using mset_map[of "nth ms" xs] mset_map[of "nth ms" "[0..<length ms]"] map_nth[of ms] by metis

lemma sort_merges_spec:
  assumes "qsort_sound qs"
  shows "mset (sort_merges qs ms) = mset ms" "sorted_wrt merge_le (sort_merges qs ms)"
proof -
  note q = qsort_soundD[OF assms merge_cmp_preorder[of ms], of "[0..<length ms]"]
  show "mset (sort_merges qs ms) = mset ms" unfolding sort_merges_def by (rule mset_nth_perm[OF q(1)])
  show "sorted_wrt merge_le (sort_merges qs ms)"
    using q(2) by (simp add: sort_merges_def sorted_wrt_map merge_cmp_le)
qed

lemma dict_sorted_ok:
  assumes "qsort_sound qs" "vc_sorted v = qs (dict_compare (vc_pieces v)) [0..<vc_n v]"
  shows "sorted_ok v"
proof -
  have "total_preorder (dict_compare (vc_pieces v))"
    using strcmp_preorder[of "nth (vc_pieces v)"] by (simp add: dict_compare_def[abs_def])
  from qsort_soundD[OF assms(1) this, of "[0..<vc_n v]"] show ?thesis
    by (simp add: sorted_ok_def assms(2) dict_compare_def)
qed

definition raw_inv :: "vocab \<Rightarrow> bool" where
  "raw_inv v \<longleftrightarrow> -1 \<le> vc_unk v \<and> vc_unk v < int (vc_n v) \<and> vc_merges v = [] \<and> \<not> vc_byte_level v
     \<and> length (vc_raw v) \<le> 5000000"

lemma index_vocab_ok:
  assumes q: "qsort_sound qs" and v: "raw_inv v" "vc_pieces v \<noteq> []"
  shows "vocab_ok (index_vocab qs v)" "vc_pieces (index_vocab qs v) = vc_pieces v"
proof -
  define v1 where "v1 = v\<lparr>vc_order := qs (order_compare (vc_pieces v)) [0..<vc_n v],
    vc_sorted := qs (dict_compare (vc_pieces v)) [0..<vc_n v]\<rparr>"
  define rs where "rs = resolve_merges v1 0 (vc_raw v)"
  define v2 where "v2 = (if vc_raw v1 \<noteq> [] then v1\<lparr>vc_merges := sort_merges qs rs, vc_raw := []\<rparr> else v1)"
  define w where "w = index_vocab qs v"
  have s1: "sorted_ok v1" by (rule dict_sorted_ok[OF q]) (simp add: v1_def)
  have rs: "\<forall>m\<in>set rs. merge_ok v1 m" "distinct (map mg_rank rs)" "\<forall>m\<in>set rs. mg_rank m < 5000000"
    using resolve_merges_ok[OF s1] resolve_merges_ranks[of v1 0 "vc_raw v"] resolve_merges_rank[of _ v1 "vc_raw v"] v(1)
    by (simp_all add: rs_def raw_inv_def) fastforce
  note srt = sort_merges_spec[OF q, of rs]
  have st: "set (sort_merges qs rs) = set rs" using srt(1) by (metis set_mset_mset)
  have "mset (map mg_rank (sort_merges qs rs)) = mset (map mg_rank rs)" using srt(1) by simp
  then have ds: "distinct (map mg_rank (sort_merges qs rs))" using rs(2) by (metis mset_eq_imp_distinct_iff)
  have w: "w = (if vc_merges v2 \<noteq> [] \<and> vc_scores v2 = [] then v2\<lparr>vc_byte_level := True, vc_byte_ids := build_byte_ids v2\<rparr> else v2)"
    by (simp add: w_def index_vocab_def v1_def[symmetric] v2_def rs_def Let_def) (simp add: v1_def)
  have p: "vc_pieces w = vc_pieces v" "vc_sorted w = vc_sorted v1" "vc_unk w = vc_unk v"
    and p2: "vc_merges w = vc_merges v2" "vc_scores w = vc_scores v2" "vc_pieces v2 = vc_pieces v" "vc_pieces v1 = vc_pieces v"
      "vc_sorted v2 = vc_sorted v1"
    by (simp_all add: w v2_def v1_def)
  have bl: "vc_byte_level w \<longleftrightarrow> vc_merges w \<noteq> [] \<and> vc_scores w = []"
    using v by (auto simp: w v2_def v1_def raw_inv_def)
  have bi: "vc_byte_level w \<longrightarrow> vc_byte_ids w = build_byte_ids w"
    using v bsearch_cong[of w v2] p p2
    by (auto simp: build_byte_ids_def fun_eq_iff w v2_def v1_def raw_inv_def intro!: arg_cong[where f = "case_option _ _"])
  have m: "vc_merges w = (if vc_raw v \<noteq> [] then sort_merges qs rs else [])"
    using v by (simp add: p2 v2_def v1_def raw_inv_def)
  have "merge_ok w = merge_ok v1" using p p2 by (simp add: fun_eq_iff merge_ok_def)
  then have ms: "\<forall>m\<in>set (vc_merges w). merge_ok w m" "sorted_wrt merge_le (vc_merges w)" "distinct (map mg_rank (vc_merges w))"
    "\<forall>m\<in>set (vc_merges w). mg_rank m < 5000000"
    using rs srt(2) st ds unfolding m by simp_all
  have "sorted_ok w" "-1 \<le> vc_unk w" "vc_unk w < int (vc_n w)" "vc_pieces w \<noteq> []"
    using s1 v p p2 unfolding sorted_ok_def raw_inv_def by simp_all
  then show "vocab_ok (index_vocab qs v)"
    using ms bl bi unfolding w_def[symmetric] vocab_ok_def by blast
  show "vc_pieces (index_vocab qs v) = vc_pieces v" using p by (simp add: w_def)
qed


lemma add_special_sel [simp]:
  "vc_pieces (add_special pc v) = vc_pieces v" "vc_unk (add_special pc v) = vc_unk v"
  "vc_merges (add_special pc v) = vc_merges v" "vc_raw (add_special pc v) = vc_raw v" "vc_byte_level (add_special pc v) = vc_byte_level v"
  by (simp_all add: add_special_def Let_def)

lemma raw_inv_sp_add: "raw_inv v \<Longrightarrow> raw_inv (sp_add pc ty v)"
  by (auto simp: raw_inv_def sp_add_def add_piece_def Let_def)

lemma raw_inv_sp_loop: "sp_loop b v = Ret w \<Longrightarrow> raw_inv v \<Longrightarrow> raw_inv w"
proof (induction "length b" arbitrary: b v rule: less_induct)
  case less
  show ?case
  proof (cases "b = []")
    case False
    with less.prems obtain f wt b1 where t: "pb_tag b = Ret (f, wt, b1)"
      by (subst (asm) sp_loop.simps) (auto split: run.splits)
    have lt: "length b1 < length b" using pb_tag_length[OF t] False by simp
    have ih: "raw_inv w" if "sp_loop b' v' = Ret w" "raw_inv v'" "length b' \<le> length b1" for b' v'
      using less.hyps[OF _ that(1,2)] that(3) lt by simp
    note e = less.prems(1)[unfolded sp_loop.simps[of b v] t run.case prod.case if_not_P[OF False]]
    show ?thesis using e less.prems(2)
      by (auto split: if_splits run.splits option.splits prod.splits
               dest!: ih pb_field_length pb_varint_length intro: raw_inv_sp_add)
  qed (use less.prems in \<open>simp add: sp_loop.simps\<close>)
qed

lemma raw_inv_piece_line: "piece_line l v = Some w \<Longrightarrow> raw_inv v \<Longrightarrow> raw_inv w"
  by (auto simp: raw_inv_def piece_line_def add_piece_def Let_def split: option.splits if_splits)

lemma raw_inv_piece_lines: "piece_lines k s v = Some (w, r) \<Longrightarrow> raw_inv v \<Longrightarrow> raw_inv w"
  by (induction k arbitrary: s v) (auto split: option.splits, blast intro: raw_inv_piece_line)

lemma chat_line_sel [simp]:
  "vc_pieces (chat_line l v) = vc_pieces v" "vc_unk (chat_line l v) = vc_unk v"
  "vc_merges (chat_line l v) = vc_merges v" "vc_raw (chat_line l v) = vc_raw v" "vc_byte_level (chat_line l v) = vc_byte_level v"
  by (simp_all add: chat_line_def Let_def)

lemma chat_lines_sel [simp]:
  "vc_pieces (chat_lines s v) = vc_pieces v \<and> vc_unk (chat_lines s v) = vc_unk v
    \<and> vc_merges (chat_lines s v) = vc_merges v \<and> vc_raw (chat_lines s v) = vc_raw v \<and> vc_byte_level (chat_lines s v) = vc_byte_level v"
proof (induction s v rule: chat_lines.induct)
  case (1 s v)
  then show ?case by (subst (1 2 3 4 5) chat_lines.simps) (auto split: option.splits)
qed

lemma merge_lines_count: "merge_lines k s = (ms, r) \<Longrightarrow> length ms \<le> k"
proof (induction "length s" arbitrary: k s ms rule: less_induct)
  case less
  show ?case
  proof (cases "k = 0 \<or> fgets s = None")
    case False
    then obtain l s' where k: "k \<noteq> 0" and f: "fgets s = Some (l, s')" by auto
    have ih: "length ms' \<le> k'" if "merge_lines k' s' = (ms', r)" for k' ms'
      using less.hyps[OF fgets_length[OF f] that] .
    show ?thesis using less.prems k
      by (auto simp: merge_lines_step[OF k f] split: option.splits prod.splits dest!: ih)
  qed (use less.prems in \<open>simp add: merge_lines_end\<close>)
qed

definition same_core :: "vocab \<Rightarrow> vocab \<Rightarrow> bool" where
  "same_core w v \<longleftrightarrow> vc_pieces w = vc_pieces v \<and> vc_unk w = vc_unk v \<and> vc_merges w = vc_merges v
     \<and> vc_byte_level w = vc_byte_level v \<and> (length (vc_raw v) \<le> 5000000 \<longrightarrow> length (vc_raw w) \<le> 5000000)"

lemma core_upd:
  "same_core w (v\<lparr>vc_scores := x\<rparr>) \<Longrightarrow> same_core w v"
  "same_core w (v\<lparr>vc_raw := ms\<rparr>) \<Longrightarrow> length ms \<le> 5000000 \<Longrightarrow> same_core w v"
  by (simp_all add: same_core_def)

lemma core_chat: "same_core v v" "same_core (chat_lines s v) v"
  by (simp_all add: same_core_def)

lemma sections_core: "same_core (sections atof junk s v) v"
proof (induction "length s" arbitrary: s v rule: less_induct)
  case less
  show ?case
  proof (cases "fgets s")
    case (Some ls)
    then obtain l s1 where f: "fgets s = Some (l, s1)" by (cases ls) auto
    note l1 = fgets_length[OF f]
    have ih: "same_core (sections atof junk s' v') v'" if "length s' < length s1" for s' v'
      using less.hyps[of s'] that l1 by simp
    have sc: "same_core (sections atof junk s3 (v\<lparr>vc_scores := x\<rparr>)) v"
      if "fgets s1 = Some (k, s2)" "score_lines atof n s2 = (xs, s3)" for k s2 n xs s3 x
      using fgets_length[OF that(1)] score_lines_length[OF that(2)] by (intro core_upd(1)[OF ih]) simp
    have mg: "same_core (sections atof junk s3 (v\<lparr>vc_raw := ms\<rparr>)) v"
      if "fgets s1 = Some (k, s2)" "merge_lines n s2 = (ms, s3)" "n \<le> 5000000" for k s2 n ms s3
      using fgets_length[OF that(1)] merge_lines_length[OF that(2)] merge_lines_count[OF that(2)] that(3)
      by (intro core_upd(2)[OF ih]) simp_all
    have no: "same_core (sections atof junk s2 v) v" if "fgets s1 = Some (k, s2)" for k s2
      using fgets_length[OF that] by (rule ih)
    show ?thesis by (subst sections.simps)
      (auto simp: f Let_def core_chat split: option.splits prod.splits intro: sc mg no)
  qed (subst sections.simps, simp add: core_chat)
qed

text \<open>C19: Whatever bytes the file holds, a vocabulary that loads is well formed: its index lists
  every piece once in the order of \<open>strcmp\<close>, every kept merge joins two tokens to the token of
  the joined text, the merges are sorted for the bisection and have distinct ranks, the unknown
  token is a token, and a byte-level vocabulary has the table of its byte tokens.\<close>

theorem vocab_load_ok:
  assumes "vocab_load atof junk qs file = Ret (Some v)" "qsort_sound qs"
  shows "vocab_ok v"
proof -
  obtain data r where r: "file = Some data" "v = index_vocab qs r"
    and p: "(if data \<noteq> [] \<and> hd data = LF then parse_sp data else Ret (parse_text atof junk data)) = Ret (Some r)"
    using assms(1) by (auto simp: vocab_load_def run_bind_Ret split: option.splits)
  have "raw_inv r \<and> vc_pieces r \<noteq> []"
  proof (cases "data \<noteq> [] \<and> hd data = LF")
    case True
    then obtain w where w: "sp_loop data (vocab_zero\<lparr>vc_unk := -1, vc_bos := -1, vc_eos := -1\<rparr>) = Ret w" "r = w" "vc_pieces w \<noteq> []"
      using p by (auto simp: parse_sp_def run_bind_Ret split: if_splits)
    show ?thesis using raw_inv_sp_loop[OF w(1)] w by (simp add: raw_inv_def vocab_zero_def)
  next
    case False
    then have "parse_text atof junk data = Some r" using p by (simp split: if_splits)
    then obtain k s w s' where w: "piece_lines k s (vocab_zero\<lparr>vc_think := -1, vc_unk := -1, vc_bos := -1, vc_eos := -1\<rparr>) = Some (w, s')"
      "r = sections atof junk s' w" "vc_pieces w \<noteq> []"
      by (auto simp: parse_text_def Let_def split: option.splits if_splits)
    have "raw_inv w" using raw_inv_piece_lines[OF w(1)] by (simp add: raw_inv_def vocab_zero_def)
    then show ?thesis using w(2,3) sections_core[of atof junk s' w] by (simp add: raw_inv_def same_core_def)
  qed
  then show ?thesis using index_vocab_ok[OF assms(2)] r(2) by blast
qed

end
