(* ===== verification/Bpe.thy ===== *)
theory Bpe
  imports VocabFile
begin

text \<open>
  The encoders of \<open>inference/core/tokenizer.c\<close>: greedy longest match, byte-level BPE by merge
  ranks (\<open>vocab_encode_merges\<close>) and SentencePiece BPE by scores. A text is the C string; where the
  code keeps an index \<open>i\<close> into it, the model keeps the suffix from there on. \<open>max\<close> is the room in
  \<open>ids\<close>; an encoder returns the ids it stores.
\<close>

subsection \<open>Greedy longest match\<close>

text \<open>The scan over the vocabulary keeps the last of the longest pieces that start the text.\<close>

fun greedy_scan :: "string \<Rightarrow> nat \<Rightarrow> (nat \<times> nat) option \<Rightarrow> string list \<Rightarrow> (nat \<times> nat) option" where
  "greedy_scan p i best [] = best"
| "greedy_scan p i best (pc # ps) =
     (let l = length pc; bestlen = (case best of None \<Rightarrow> 0 | Some (_, n) \<Rightarrow> n) in
      if l = 0 \<or> l < bestlen then greedy_scan p (i + 1) best ps
      else greedy_scan p (i + 1) (if starts pc p then Some (i, l) else best) ps)"

definition hex_digit :: "nat \<Rightarrow> char" where
  "hex_digit d = (if d < 10 then char_of (48 + d) else char_of (55 + d))"

text \<open>\<open>snprintf("<0x%02X>", c)\<close>.\<close>

definition byte_piece :: "char \<Rightarrow> string" where
  "byte_piece c = ''<0x'' @ [hex_digit (code c div 16), hex_digit (code c mod 16)] @ ''>''"

lemma greedy_scan_pos:
  "greedy_scan p i best ps = Some (k, n) \<Longrightarrow> (case best of None \<Rightarrow> True | Some (_, m) \<Rightarrow> 0 < m) \<Longrightarrow> 0 < n"
  by (induction p i best ps rule: greedy_scan.induct) (auto simp: Let_def split: if_splits option.splits)

function greedy_loop :: "vocab \<Rightarrow> nat \<Rightarrow> string \<Rightarrow> nat list" where
  "greedy_loop v room p =
     (if p = [] \<or> room = 0 then []
      else case greedy_scan p 0 None (vc_pieces v) of
        Some (k, n) \<Rightarrow> k # greedy_loop v (room - 1) (drop n p)
      | None \<Rightarrow>
        (case vocab_id v (byte_piece (hd p)) of
           Some k \<Rightarrow> k # greedy_loop v (room - 1) (tl p)
         | None \<Rightarrow> if vc_unk v \<ge> 0 then nat (vc_unk v) # greedy_loop v (room - 1) (tl p)
                  else greedy_loop v room (tl p)))"
  by pat_completeness auto
termination
  by (relation "measure (\<lambda>(v, room, p). length p)") (auto dest: greedy_scan_pos)

declare greedy_loop.simps [simp del]

definition vocab_encode_greedy :: "vocab \<Rightarrow> string \<Rightarrow> nat \<Rightarrow> nat list" where
  "vocab_encode_greedy v text mx = greedy_loop v mx text"

subsection \<open>The merge loop\<close>

text \<open>Both BPE encoders end in the same loop: as long as \<open>best\<close> finds a pair to merge and the
  symbols are fewer than \<open>max\<close>, the pair at the position found is replaced by one symbol. (A
  position found always has a right neighbour; the guard only makes the termination evident.)\<close>

function merge_loop :: "(nat list \<Rightarrow> (nat \<times> nat) option) \<Rightarrow> nat \<Rightarrow> nat list \<Rightarrow> nat list" where
  "merge_loop best mx syms =
     (case best syms of
        None \<Rightarrow> syms
      | Some (i, out) \<Rightarrow>
        if length syms \<ge> mx \<or> \<not> i + 1 < length syms then syms
        else merge_loop best mx (take i syms @ out # drop (i + 2) syms))"
  by pat_completeness auto
termination
  by (relation "measure (\<lambda>(best, mx, syms). length syms)") auto

declare merge_loop.simps [simp del]

subsection \<open>Byte-level BPE by ranks\<close>

definition utf8_clen :: "char \<Rightarrow> nat" where
  "utf8_clen c = (if code c \<ge> 240 then 4 else if code c \<ge> 224 then 3 else if code c \<ge> 192 then 2 else 1)"

definition k_qwen_specials :: "string list" where
  "k_qwen_specials =
     [''<|im_start|>'', ''<|im_end|>'', ''<|endoftext|>'', ''<|vision_start|>'', ''<|vision_end|>'', ''<|image_pad|>'',
      ''<image>'', ''</image>'', ''<slice>'', ''</slice>'', ''<think>'', ''</think>'',
      ''<|extra_0|>'', ''<|extra_1|>'', ''<|extra_2|>'', ''<|extra_3|>'']"

text \<open>The longest special text here that is a piece, with its length.\<close>

fun special_scan :: "vocab \<Rightarrow> string \<Rightarrow> (nat \<times> nat) option \<Rightarrow> string list \<Rightarrow> (nat \<times> nat) option" where
  "special_scan v text best [] = best"
| "special_scan v text best (sp # sps) =
     (let n = length sp; best_len = (case best of None \<Rightarrow> 0 | Some (_, l) \<Rightarrow> l) in
      special_scan v text
        (if n > best_len \<and> starts sp text then
           (case vocab_bsearch_sorted v sp of Some i \<Rightarrow> Some (i, n) | None \<Rightarrow> best)
         else best) sps)"

definition special_token_id :: "vocab \<Rightarrow> string \<Rightarrow> nat option" where
  "special_token_id v text = map_option fst (special_scan v text None k_qwen_specials)"

text \<open>The second loop over the specials: the longest one here whose token is \<open>sid\<close>.\<close>

fun special_len :: "vocab \<Rightarrow> string \<Rightarrow> nat \<Rightarrow> nat \<Rightarrow> string list \<Rightarrow> nat" where
  "special_len v text sid nsp [] = nsp"
| "special_len v text sid nsp (sp # sps) =
     special_len v text sid
       (if length sp > nsp \<and> starts sp text \<and> vocab_bsearch_sorted v sp = Some sid then length sp else nsp) sps"

definition push :: "nat \<Rightarrow> nat \<Rightarrow> nat list \<Rightarrow> nat list" where
  "push mx x syms = (if length syms < mx then syms @ [x] else syms)"

function merges_init :: "vocab \<Rightarrow> nat \<Rightarrow> string \<Rightarrow> nat list \<Rightarrow> nat list" where
  "merges_init v mx text syms =
     (case text of
        [] \<Rightarrow> syms
      | c # rest \<Rightarrow>
        (case special_token_id v text of
           Some sid \<Rightarrow>
             let nsp = special_len v text sid 0 k_qwen_specials in
             if nsp = 0 then merges_init v mx rest syms
             else merges_init v mx (drop nsp text) (push mx sid syms)
         | None \<Rightarrow>
             let clen = min (utf8_clen c) (length text) in
             case (if clen > 1 then vocab_bsearch_sorted v (take clen text) else None) of
               Some i \<Rightarrow> merges_init v mx (drop clen text) (push mx i syms)
             | None \<Rightarrow>
                 let b = vc_byte_ids v ! code c in
                 merges_init v mx rest
                   (if b \<ge> 0 then push mx (nat b) syms
                    else if vc_unk v \<ge> 0 then push mx (nat (vc_unk v)) syms else syms)))"
  by pat_completeness auto
termination
  by (relation "measure (\<lambda>(v, mx, text, syms). length text)") (auto split: if_splits)

declare merges_init.simps [simp del]

text \<open>The bisection in the sorted merges.\<close>

function lower_bound :: "merge list \<Rightarrow> nat \<Rightarrow> nat \<Rightarrow> nat \<Rightarrow> nat \<Rightarrow> nat" where
  "lower_bound ms a b lo hi =
     (if lo < hi then
        let mid = (lo + hi) div 2; m = ms ! mid in
        if mg_l m < a \<or> mg_l m = a \<and> mg_r m < b then lower_bound ms a b (mid + 1) hi
        else lower_bound ms a b lo mid
      else lo)"
  by pat_completeness auto
termination
  by (relation "measure (\<lambda>(ms, a, b, lo, hi). hi - lo)") auto

declare lower_bound.simps [simp del]

definition find_merge :: "merge list \<Rightarrow> nat \<Rightarrow> nat \<Rightarrow> merge option" where
  "find_merge ms a b =
     (let lo = lower_bound ms a b 0 (length ms) in
      if lo < length ms \<and> mg_l (ms ! lo) = a \<and> mg_r (ms ! lo) = b then Some (ms ! lo) else None)"

text \<open>The scan over the adjacent pairs keeps the first of the lowest rank, starting from rank
  \<open>0xFFFFFFFF\<close>.\<close>

definition rank_step :: "merge list \<Rightarrow> nat \<Rightarrow> nat \<Rightarrow> nat \<Rightarrow> nat \<times> (nat \<times> nat) option \<Rightarrow> nat \<times> (nat \<times> nat) option" where
  "rank_step ms j a b best =
     (case find_merge ms a b of
        Some m \<Rightarrow> if mg_rank m < fst best then (mg_rank m, Some (j, mg_id m)) else best
      | None \<Rightarrow> best)"

fun rank_scan :: "merge list \<Rightarrow> nat \<Rightarrow> nat \<times> (nat \<times> nat) option \<Rightarrow> nat list \<Rightarrow> (nat \<times> nat) option" where
  "rank_scan ms j best (a # b # syms) = rank_scan ms (j + 1) (rank_step ms j a b best) (b # syms)"
| "rank_scan ms j best syms = snd best"

definition best_rank_pair :: "vocab \<Rightarrow> nat list \<Rightarrow> (nat \<times> nat) option" where
  "best_rank_pair v syms = rank_scan (vc_merges v) 0 (4294967295, None) syms"

definition vocab_encode_merges :: "vocab \<Rightarrow> string \<Rightarrow> nat \<Rightarrow> nat list" where
  "vocab_encode_merges v text mx =
     (if vc_merges v = [] then []
      else take mx (merge_loop (best_rank_pair v) mx (merges_init v mx text [])))"

subsection \<open>SentencePiece BPE by scores\<close>

definition spc_mark :: string where
  "spc_mark = [CHR 0xE2, CHR 0x96, CHR 0x81]"

definition sp_normalize :: "string \<Rightarrow> string" where
  "sp_normalize text = spc_mark @ concat (map (\<lambda>c. if c = SP then spc_mark else [c]) text)"

text \<open>One symbol per byte that no character piece covers.\<close>

definition byte_syms :: "vocab \<Rightarrow> string \<Rightarrow> nat list" where
  "byte_syms v cs =
     concat (map (\<lambda>c. case vocab_bsearch_sorted v (byte_piece c) of
         Some i \<Rightarrow> [i]
       | None \<Rightarrow> if vc_unk v \<ge> 0 then [nat (vc_unk v)] else []) cs)"

function sp_init :: "vocab \<Rightarrow> string \<Rightarrow> nat list" where
  "sp_init v norm =
     (case norm of
        [] \<Rightarrow> []
      | c # rest \<Rightarrow>
        let clen = min (utf8_clen c) (length norm) in
        (case vocab_bsearch_sorted v (take clen norm) of
           Some i \<Rightarrow> i # sp_init v (drop clen norm)
         | None \<Rightarrow> byte_syms v (take clen norm) @ sp_init v (drop clen norm)))"
  by pat_completeness auto
termination
  by (relation "measure (\<lambda>(v, norm). length norm)") (auto simp: utf8_clen_def)

declare sp_init.simps [simp del]

text \<open>\<open>-1e30f\<close> in units of \<open>2^-149\<close>.\<close>

definition NO_SCORE :: int where
  "NO_SCORE = - (1000000015047466219876688855040 * 2 ^ 149)"

definition score_step :: "vocab \<Rightarrow> nat \<Rightarrow> nat \<Rightarrow> nat \<Rightarrow> int \<times> (nat \<times> nat) option \<Rightarrow> int \<times> (nat \<times> nat) option" where
  "score_step v j a b best =
     (let s = vc_pieces v ! a @ vc_pieces v ! b in
      if length s \<ge> 512 then best
      else case vocab_bsearch_sorted v s of
        Some i \<Rightarrow>
          let sc = (if i < length (vc_scores v) then vc_scores v ! i else 0) in
          if sc > fst best then (sc, Some (j, i)) else best
      | None \<Rightarrow> best)"

fun score_scan :: "vocab \<Rightarrow> nat \<Rightarrow> int \<times> (nat \<times> nat) option \<Rightarrow> nat list \<Rightarrow> (nat \<times> nat) option" where
  "score_scan v j best (a # b # syms) = score_scan v (j + 1) (score_step v j a b best) (b # syms)"
| "score_scan v j best syms = snd best"

definition best_score_pair :: "vocab \<Rightarrow> nat list \<Rightarrow> (nat \<times> nat) option" where
  "best_score_pair v syms = score_scan v 0 (NO_SCORE, None) syms"

definition vocab_encode :: "vocab \<Rightarrow> string \<Rightarrow> nat \<Rightarrow> nat list" where
  "vocab_encode v text mx =
     (if vc_scores v = [] \<and> vc_merges v \<noteq> [] then vocab_encode_merges v text mx
      else if vc_scores v = [] then vocab_encode_greedy v text mx
      else take mx (merge_loop (best_score_pair v) mx (sp_init v (sp_normalize text))))"

end
