(* ===== verification/BpeSpec.thy ===== *)
theory BpeSpec
  imports Bpe "HOL-Library.Product_Lexorder"
begin

text \<open>
  What the encoders of theory \<open>Bpe\<close> guarantee: the ids are tokens and fit the buffer; merging keeps
  the text and ends when no pair can be merged; the choice of a pair by bisection equals the
  reference choice over all merges. The two BPE encoders share the lemmas of the locale
  \<open>bpe_rule\<close>, the contract of a rule that picks the next pair.
\<close>

subsection \<open>A rule for the next pair\<close>

abbreviation pieces_of :: "vocab \<Rightarrow> nat list \<Rightarrow> string" where
  "pieces_of v syms \<equiv> concat (map (nth (vc_pieces v)) syms)"

definition tokens_ok :: "vocab \<Rightarrow> nat list \<Rightarrow> bool" where
  "tokens_ok v syms \<longleftrightarrow> (\<forall>s\<in>set syms. s < vc_n v)"

lemma tokens_ok_simps [simp]:
  "tokens_ok v []" "tokens_ok v (s # syms) \<longleftrightarrow> s < vc_n v \<and> tokens_ok v syms"
  "tokens_ok v (xs @ ys) \<longleftrightarrow> tokens_ok v xs \<and> tokens_ok v ys"
  by (auto simp: tokens_ok_def)

locale bpe_rule =
  fixes best :: "vocab \<Rightarrow> nat list \<Rightarrow> (nat \<times> nat) option" and ok :: "vocab \<Rightarrow> bool"
  assumes pair: "ok v \<Longrightarrow> best v syms = Some (i, out) \<Longrightarrow>
      i + 1 < length syms \<and> out < vc_n v \<and> vc_pieces v ! out = vc_pieces v ! (syms ! i) @ vc_pieces v ! (syms ! (i + 1))"
begin

lemma split_pair:
  assumes "ok v" "best v syms = Some (i, out)"
  obtains a b xs ys where "syms = xs @ a # b # ys" "i = length xs" "out < vc_n v"
    "vc_pieces v ! out = vc_pieces v ! a @ vc_pieces v ! b"
proof
  have p: "i + 1 < length syms" using pair[OF assms] by simp
  show "syms = take i syms @ syms ! i # syms ! (i + 1) # drop (i + 2) syms"
    using p by (simp add: Cons_nth_drop_Suc)
  show "i = length (take i syms)" using p by simp
qed (use pair[OF assms] in auto)

lemma merge_step:
  assumes "ok v" "best v (xs @ a # b # ys) = Some (length xs, out)" "length (xs @ a # b # ys) < mx"
  shows "merge_loop (best v) mx (xs @ a # b # ys) = merge_loop (best v) mx (xs @ out # ys)"
  using assms by (subst merge_loop.simps) simp

lemma merge_stop:
  "best v syms = None \<or> mx \<le> length syms \<Longrightarrow> merge_loop (best v) mx syms = syms"
  by (subst merge_loop.simps) (auto split: option.splits)

text \<open>Induction over the run of the loop.\<close>

lemma merge_loop_induct [consumes 1, case_names stop step]:
  assumes "ok v"
    and "\<And>syms. best v syms = None \<or> mx \<le> length syms \<Longrightarrow> Q syms syms"
    and "\<And>xs a b ys out r. best v (xs @ a # b # ys) = Some (length xs, out) \<Longrightarrow> length (xs @ a # b # ys) < mx \<Longrightarrow>
      out < vc_n v \<Longrightarrow> vc_pieces v ! out = vc_pieces v ! a @ vc_pieces v ! b \<Longrightarrow> Q (xs @ out # ys) r \<Longrightarrow> Q (xs @ a # b # ys) r"
  shows "Q syms (merge_loop (best v) mx syms)"
proof (induction "length syms" arbitrary: syms rule: less_induct)
  case less
  show ?case
  proof (cases "best v syms = None \<or> mx \<le> length syms")
    case False
    then obtain i out where b: "best v syms = Some (i, out)" by auto
    obtain a b xs ys where s: "syms = xs @ a # b # ys" "i = length xs" "out < vc_n v"
      "vc_pieces v ! out = vc_pieces v ! a @ vc_pieces v ! b" by (rule split_pair[OF assms(1) b])
    have "Q (xs @ out # ys) (merge_loop (best v) mx (xs @ out # ys))" using less.hyps s(1) by simp
    then show ?thesis using assms(3)[of xs a b ys out] b s False merge_step[OF assms(1), of xs a b ys out mx] by simp
  qed (simp add: merge_stop assms(2))
qed

lemma merge_loop_text: "ok v \<Longrightarrow> pieces_of v (merge_loop (best v) mx syms) = pieces_of v syms"
  by (induction rule: merge_loop_induct) auto

lemma merge_loop_tokens: "ok v \<Longrightarrow> tokens_ok v syms \<Longrightarrow> tokens_ok v (merge_loop (best v) mx syms)"
proof -
  assume "ok v"
  then have "tokens_ok v syms \<longrightarrow> tokens_ok v (merge_loop (best v) mx syms)"
    by (induction rule: merge_loop_induct) auto
  then show "tokens_ok v syms \<Longrightarrow> tokens_ok v (merge_loop (best v) mx syms)" by simp
qed

lemma merge_loop_length: "ok v \<Longrightarrow> length (merge_loop (best v) mx syms) \<le> length syms"
  by (induction rule: merge_loop_induct) auto

lemma merge_loop_normal:
  assumes "ok v" "length syms < mx"
  shows "best v (merge_loop (best v) mx syms) = None"
proof -
  have "length syms < mx \<longrightarrow> best v (merge_loop (best v) mx syms) = None"
    using assms(1) by (induction rule: merge_loop_induct) auto
  then show ?thesis using assms(2) by simp
qed

text \<open>A property of pieces that concatenation keeps holds of all symbols at the end.\<close>

lemma merge_loop_pieces:
  assumes "ok v" "\<forall>s\<in>set syms. Q (vc_pieces v ! s)" "\<And>p q. Q p \<Longrightarrow> Q q \<Longrightarrow> Q (p @ q)"
  shows "\<forall>s\<in>set (merge_loop (best v) mx syms). Q (vc_pieces v ! s)"
proof -
  have "(\<forall>s\<in>set syms. Q (vc_pieces v ! s)) \<longrightarrow> (\<forall>s\<in>set (merge_loop (best v) mx syms). Q (vc_pieces v ! s))"
    using assms(1)
  proof (induction rule: merge_loop_induct)
    case (step xs a b ys out r)
    have "Q (vc_pieces v ! a) \<Longrightarrow> Q (vc_pieces v ! b) \<Longrightarrow> Q (vc_pieces v ! out)" by (simp only: step(4) assms(3))
    then have "\<forall>s\<in>set (xs @ a # b # ys). Q (vc_pieces v ! s) \<Longrightarrow> \<forall>s\<in>set (xs @ out # ys). Q (vc_pieces v ! s)" by auto
    then show ?case using step(5) by blast
  qed blast
  then show ?thesis using assms(2) by blast
qed

end

subsection \<open>The rule by ranks\<close>

text \<open>The bisection finds the first merge that is not below the pair.\<close>

definition below :: "nat \<Rightarrow> nat \<Rightarrow> merge \<Rightarrow> bool" where
  "below a b m \<longleftrightarrow> mg_l m < a \<or> mg_l m = a \<and> mg_r m < b"

lemma lower_bound_step:
  "lower_bound ms a b lo hi =
     (if lo < hi then if below a b (ms ! ((lo + hi) div 2)) then lower_bound ms a b ((lo + hi) div 2 + 1) hi
        else lower_bound ms a b lo ((lo + hi) div 2)
      else lo)"
  by (subst lower_bound.simps) (simp add: below_def Let_def)

lemma lower_bound_spec:
  assumes "sorted_wrt merge_le ms" "lo \<le> hi" "hi \<le> length ms"
    "\<forall>j<lo. below a b (ms ! j)" "\<forall>j. hi \<le> j \<longrightarrow> j < length ms \<longrightarrow> \<not> below a b (ms ! j)"
  shows "lower_bound ms a b lo hi \<le> length ms
    \<and> (\<forall>j<length ms. below a b (ms ! j) \<longleftrightarrow> j < lower_bound ms a b lo hi)"
  using assms(2-)
proof (induction "hi - lo" arbitrary: lo hi rule: less_induct)
  case less
  let ?m = "(lo + hi) div 2"
  have mono: "below a b (ms ! j)" if "below a b (ms ! k)" "j < k" "k < length ms" for j k
    using sorted_wrt_nth_less[OF assms(1) that(2,3)] that(1) by (auto simp: below_def merge_le_def)
  show ?case
  proof (cases "lo < hi")
    case True
    show ?thesis
    proof (cases "below a b (ms ! ?m)")
      case True
      then have "\<forall>j<?m + 1. below a b (ms ! j)" using mono[OF True] \<open>lo < hi\<close> less.prems(2) by (auto simp: less_Suc_eq)
      moreover have "lower_bound ms a b lo hi = lower_bound ms a b (?m + 1) hi"
        using True \<open>lo < hi\<close> by (subst lower_bound_step) (simp only: if_True)
      moreover have "hi - (?m + 1) < hi - lo" "?m + 1 \<le> hi" using \<open>lo < hi\<close> by simp_all
      ultimately show ?thesis using less.hyps[of hi "?m + 1"] less.prems(2,4) by presburger
    next
      case False
      then have "\<forall>j. ?m \<le> j \<longrightarrow> j < length ms \<longrightarrow> \<not> below a b (ms ! j)" using mono by (metis le_neq_implies_less)
      moreover have "lower_bound ms a b lo hi = lower_bound ms a b lo ?m"
        using False \<open>lo < hi\<close> by (subst lower_bound_step) (simp only: if_True if_False)
      moreover have "?m - lo < hi - lo" "lo \<le> ?m" "?m \<le> length ms" using \<open>lo < hi\<close> less.prems(2) by simp_all
      ultimately show ?thesis using less.hyps[of ?m lo] less.prems(3) by presburger
    qed
  next
    case False
    then have "lower_bound ms a b lo hi = lo" by (subst lower_bound_step) simp
    then show ?thesis using False less.prems by (auto simp: not_less) (metis not_less)
  qed
qed

lemma find_merge_Some:
  assumes "find_merge ms a b = Some m"
  shows "m \<in> set ms \<and> mg_l m = a \<and> mg_r m = b"
proof -
  obtain lo where "lo < length ms" "mg_l (ms ! lo) = a" "mg_r (ms ! lo) = b" "m = ms ! lo"
    using assms by (auto simp: find_merge_def Let_def split: if_splits)
  then show ?thesis by simp
qed

lemma find_merge_None:
  assumes "sorted_wrt merge_le ms" "find_merge ms a b = None" "m \<in> set ms"
  shows "\<not> (mg_l m = a \<and> mg_r m = b)"
proof
  assume m: "mg_l m = a \<and> mg_r m = b"
  let ?lo = "lower_bound ms a b 0 (length ms)"
  have lb: "?lo \<le> length ms" "\<And>j. j < length ms \<Longrightarrow> below a b (ms ! j) \<longleftrightarrow> j < ?lo"
    using lower_bound_spec[OF assms(1), of 0 "length ms" a b] by auto
  obtain k where k: "k < length ms" "ms ! k = m" using assms(3) by (auto simp: in_set_conv_nth)
  have "\<not> below a b (ms ! k)" using m k by (simp add: below_def)
  then have le: "?lo \<le> k" using lb(2) k(1) by auto
  then have lt: "?lo < length ms" using k(1) by simp
  have "merge_le (ms ! ?lo) (ms ! k)"
  proof (cases "?lo = k")
    case False
    then show ?thesis using sorted_wrt_nth_less[OF assms(1), of ?lo k] le k(1) by simp
  qed (simp add: merge_le_def)
  moreover have "\<not> below a b (ms ! ?lo)" using lb(2)[OF lt] by simp
  ultimately have "mg_l (ms ! ?lo) = a \<and> mg_r (ms ! ?lo) = b"
    using m k(2) by (auto simp: below_def merge_le_def)
  then show False using assms(2) lt by (simp add: find_merge_def Let_def)
qed

definition merge_site :: "merge list \<Rightarrow> nat list \<Rightarrow> nat \<Rightarrow> merge \<Rightarrow> bool" where
  "merge_site ms syms k m \<longleftrightarrow> k + 1 < length syms \<and> m \<in> set ms \<and> mg_l m = syms ! k \<and> mg_r m = syms ! (k + 1)"

lemma merge_site_later: "merge_site ms syms k m \<Longrightarrow> merge_site ms (a # syms) (Suc k) m"
  by (simp add: merge_site_def)

lemma merge_site_here: "find_merge ms a b = Some m \<Longrightarrow> merge_site ms (a # b # syms) 0 m"
  using find_merge_Some[of ms a b m] by (simp add: merge_site_def)

lemma rank_step_cases:
  "rank_step ms j a b best = best \<or> (\<exists>m. find_merge ms a b = Some m \<and> rank_step ms j a b best = (mg_rank m, Some (j, mg_id m)))"
  by (simp add: rank_step_def split: option.split)

lemma rank_scan_site:
  "rank_scan ms j best syms = Some (i, out) \<Longrightarrow> snd best = Some (i, out) \<or>
     (\<exists>k m. i = j + k \<and> merge_site ms syms k m \<and> out = mg_id m)"
proof (induction ms j best syms rule: rank_scan.induct)
  case (1 ms j best a b syms)
  have "rank_scan ms (j + 1) (rank_step ms j a b best) (b # syms) = Some (i, out)" using 1(2) by simp
  from 1(1)[OF this] show ?case
  proof (elim disjE exE conjE)
    assume s: "snd (rank_step ms j a b best) = Some (i, out)"
    from rank_step_cases[of ms j a b best] show ?thesis
    proof (elim disjE exE conjE)
      fix m assume m: "find_merge ms a b = Some m" "rank_step ms j a b best = (mg_rank m, Some (j, mg_id m))"
      then have "i = j + 0" "out = mg_id m" using s by simp_all
      then show ?thesis using merge_site_here[OF m(1)] by blast
    qed (use s in simp)
  next
    fix k m assume "i = j + 1 + k" "merge_site ms (b # syms) k m" "out = mg_id m"
    then have "i = j + Suc k" "merge_site ms (a # b # syms) (Suc k) m" "out = mg_id m" by (simp_all add: merge_site_later)
    then show ?thesis by blast
  qed
qed simp_all

interpretation by_rank: bpe_rule best_rank_pair vocab_ok
proof
  fix v syms i out
  assume ok: "vocab_ok v" and b: "best_rank_pair v syms = Some (i, out)"
  obtain m where m: "i + 1 < length syms" "m \<in> set (vc_merges v)" "mg_l m = syms ! i" "mg_r m = syms ! (i + 1)" "out = mg_id m"
    using rank_scan_site[of "vc_merges v" 0 "(4294967295, None)" syms i out] b by (auto simp: best_rank_pair_def merge_site_def)
  then show "i + 1 < length syms \<and> out < vc_n v \<and> vc_pieces v ! out = vc_pieces v ! (syms ! i) @ vc_pieces v ! (syms ! (i + 1))"
    using ok by (auto simp: vocab_ok_def merge_ok_def)
qed

subsection \<open>The rule by scores\<close>

definition join_site :: "vocab \<Rightarrow> nat list \<Rightarrow> nat \<Rightarrow> nat \<Rightarrow> bool" where
  "join_site v syms k out \<longleftrightarrow> k + 1 < length syms \<and> out < vc_n v
     \<and> vc_pieces v ! out = vc_pieces v ! (syms ! k) @ vc_pieces v ! (syms ! (k + 1))"

lemma join_site_later: "join_site v syms k out \<Longrightarrow> join_site v (a # syms) (Suc k) out"
  by (simp add: join_site_def)

lemma score_step_cases:
  assumes "sorted_ok v"
  shows "score_step v j a b best = best \<or> (\<exists>x out. score_step v j a b best = (x, Some (j, out)) \<and> join_site v (a # b # syms) 0 out)"
proof (cases "vocab_bsearch_sorted v (vc_pieces v ! a @ vc_pieces v ! b)")
  case (Some i)
  have "join_site v (a # b # syms) 0 i" using bsearch.hit[OF assms Some] by (simp add: join_site_def)
  then show ?thesis by (simp add: score_step_def Some Let_def)
qed (simp add: score_step_def Let_def)

lemma score_scan_site:
  assumes "sorted_ok v"
  shows "score_scan v j best syms = Some (i, out) \<Longrightarrow> snd best = Some (i, out) \<or> (\<exists>k. i = j + k \<and> join_site v syms k out)"
  using assms
proof (induction v j best syms rule: score_scan.induct)
  case (1 v j best a b syms)
  have "score_scan v (j + 1) (score_step v j a b best) (b # syms) = Some (i, out)" using 1(2) by simp
  from 1(1)[OF this 1(3)] show ?case
  proof (elim disjE exE conjE)
    assume s: "snd (score_step v j a b best) = Some (i, out)"
    from score_step_cases[OF 1(3), of j a b best syms] show ?thesis
    proof (elim disjE exE conjE)
      fix x o' assume m: "score_step v j a b best = (x, Some (j, o'))" "join_site v (a # b # syms) 0 o'"
      then have "i = j + 0" "out = o'" using s by simp_all
      then show ?thesis using m(2) by blast
    qed (use s in simp)
  next
    fix k assume "i = j + 1 + k" "join_site v (b # syms) k out"
    then have "i = j + Suc k" "join_site v (a # b # syms) (Suc k) out" by (simp_all add: join_site_later)
    then show ?thesis by blast
  qed
qed simp_all

interpretation by_score: bpe_rule best_score_pair vocab_ok
proof
  fix v syms i out
  assume "vocab_ok v" and "best_score_pair v syms = Some (i, out)"
  then show "i + 1 < length syms \<and> out < vc_n v \<and> vc_pieces v ! out = vc_pieces v ! (syms ! i) @ vc_pieces v ! (syms ! (i + 1))"
    using score_scan_site[of v 0 "(NO_SCORE, None)" syms i out] by (auto simp: best_score_pair_def vocab_ok_def join_site_def)
qed

subsection \<open>The choice by ranks against its reference\<close>

lemma merge_site_Cons:
  "merge_site ms (a # b # syms) k m \<longleftrightarrow>
     (if k = 0 then m \<in> set ms \<and> mg_l m = a \<and> mg_r m = b else merge_site ms (b # syms) (k - 1) m)"
  by (cases k) (auto simp: merge_site_def)

lemma find_merge_unique:
  assumes "sorted_wrt merge_le ms" "distinct (map (\<lambda>m. (mg_l m, mg_r m)) ms)"
  shows "(m \<in> set ms \<and> mg_l m = a \<and> mg_r m = b) \<longleftrightarrow> find_merge ms a b = Some m"
proof
  assume m: "m \<in> set ms \<and> mg_l m = a \<and> mg_r m = b"
  then obtain m' where m': "find_merge ms a b = Some m'" using find_merge_None[OF assms(1)] by fastforce
  from find_merge_Some[OF this] m have "m' = m" using assms(2) by (auto simp: distinct_map inj_on_def)
  then show "find_merge ms a b = Some m" using m' by simp
qed (rule find_merge_Some)

text \<open>The least site by rank, then by position, among those below rank \<open>r\<close>.\<close>

definition least_site :: "merge list \<Rightarrow> nat list \<Rightarrow> nat \<Rightarrow> merge \<Rightarrow> bool" where
  "least_site ms syms k m \<longleftrightarrow> merge_site ms syms k m
     \<and> (\<forall>k' m'. merge_site ms syms k' m' \<longrightarrow> (mg_rank m, k) \<le> (mg_rank m', k'))"

lemma rank_scan_least:
  assumes "sorted_wrt merge_le ms" "distinct (map (\<lambda>m. (mg_l m, mg_r m)) ms)"
  shows "((\<forall>k m. merge_site ms syms k m \<longrightarrow> fst best \<le> mg_rank m) \<and> rank_scan ms j best syms = snd best)
    \<or> (\<exists>k m. least_site ms syms k m \<and> mg_rank m < fst best \<and> rank_scan ms j best syms = Some (j + k, mg_id m))"
proof (induction syms arbitrary: j best)
  case Nil
  then show ?case by (simp add: merge_site_def)
next
  case (Cons a syms)
  note IH = Cons
  show ?case
  proof (cases syms)
    case Nil
    then show ?thesis by (simp add: merge_site_def)
  next
    case (Cons b rest)
    let ?best = "rank_step ms j a b best"
    have site: "merge_site ms (a # b # rest) k m \<longleftrightarrow>
      (if k = 0 then find_merge ms a b = Some m else merge_site ms (b # rest) (k - 1) m)" for k m
      unfolding merge_site_Cons find_merge_unique[OF assms] ..
    have le: "fst ?best \<le> fst best" "find_merge ms a b = Some m \<Longrightarrow> fst ?best \<le> mg_rank m" for m
      by (auto simp: rank_step_def split: option.split)
    from IH[of ?best "j + 1"] consider
        (none) "\<forall>k m. merge_site ms (b # rest) k m \<longrightarrow> fst ?best \<le> mg_rank m" "rank_scan ms (j + 1) ?best (b # rest) = snd ?best"
      | (some) k m where "least_site ms (b # rest) k m" "mg_rank m < fst ?best"
          "rank_scan ms (j + 1) ?best (b # rest) = Some (j + 1 + k, mg_id m)"
      unfolding Cons by blast
    then show ?thesis unfolding Cons
    proof cases
      case none
      then have all: "fst ?best \<le> mg_rank m" if "merge_site ms (a # b # rest) k m" for k m
        using that le(2) unfolding site by (auto split: if_splits)
      show "((\<forall>k m. merge_site ms (a # b # rest) k m \<longrightarrow> fst best \<le> mg_rank m) \<and> rank_scan ms j best (a # b # rest) = snd best)
        \<or> (\<exists>k m. least_site ms (a # b # rest) k m \<and> mg_rank m < fst best \<and> rank_scan ms j best (a # b # rest) = Some (j + k, mg_id m))"
      proof (cases "?best = best")
        case True
        then show ?thesis using all none(2) by auto
      next
        case False
        then obtain m where m: "find_merge ms a b = Some m" "mg_rank m < fst best" "?best = (mg_rank m, Some (j, mg_id m))"
          by (auto simp: rank_step_def split: option.splits if_splits)
        have "least_site ms (a # b # rest) 0 m"
          using all m(1,3) unfolding least_site_def by (auto simp: site less_le)
        then show ?thesis using m none(2) by (intro disjI2 exI[of _ 0] exI[of _ m]) simp
      qed
    next
      case some
      have "least_site ms (a # b # rest) (Suc k) m"
        unfolding least_site_def
      proof (intro conjI allI impI)
        show "merge_site ms (a # b # rest) (Suc k) m" using some(1) by (simp add: site least_site_def)
        fix k' m' assume s': "merge_site ms (a # b # rest) k' m'"
        show "(mg_rank m, Suc k) \<le> (mg_rank m', k')"
        proof (cases k')
          case 0
          then show ?thesis using s' le(2)[of m'] some(2) by (simp add: site)
        next
          case (Suc k'')
          then have "(mg_rank m, k) \<le> (mg_rank m', k'')" using s' some(1) by (simp add: site least_site_def)
          then show ?thesis using Suc by auto
        qed
      qed
      then show "((\<forall>k m. merge_site ms (a # b # rest) k m \<longrightarrow> fst best \<le> mg_rank m) \<and> rank_scan ms j best (a # b # rest) = snd best)
        \<or> (\<exists>k m. least_site ms (a # b # rest) k m \<and> mg_rank m < fst best \<and> rank_scan ms j best (a # b # rest) = Some (j + k, mg_id m))"
        using some(2,3) le(1) by (intro disjI2 exI[of _ "Suc k"] exI[of _ m]) simp
    qed
  qed
qed

text \<open>The reference: among all places where a merge of the table applies, the one of least rank,
  and of these the leftmost.\<close>

definition all_sites :: "vocab \<Rightarrow> nat list \<Rightarrow> (nat \<times> nat \<times> nat) set" where
  "all_sites v syms =
     (\<Union>k\<in>{..<length syms - 1}. (\<lambda>m. (mg_rank m, k, mg_id m)) ` {m \<in> set (vc_merges v). mg_l m = syms ! k \<and> mg_r m = syms ! (k + 1)})"

definition best_pair_ref :: "vocab \<Rightarrow> nat list \<Rightarrow> (nat \<times> nat) option" where
  "best_pair_ref v syms = (if all_sites v syms = {} then None else Some (snd (Min (all_sites v syms))))"

lemma all_sites_iff: "x \<in> all_sites v syms \<longleftrightarrow> (\<exists>k m. merge_site (vc_merges v) syms k m \<and> x = (mg_rank m, k, mg_id m))"
  by (cases x) (force simp: all_sites_def merge_site_def)

lemma best_rank_pair_ref:
  assumes ms: "sorted_wrt merge_le (vc_merges v)" "\<forall>m\<in>set (vc_merges v). mg_rank m < 5000000" "distinct (map mg_rank (vc_merges v))"
    and "distinct (map (\<lambda>m. (mg_l m, mg_r m)) (vc_merges v))"
  shows "best_rank_pair v syms = best_pair_ref v syms"
proof -
  let ?ms = "vc_merges v"
  have rk: "mg_rank m < 4294967295" if "merge_site ?ms syms k m" for k m
    using ms(2) that by (fastforce simp: merge_site_def)
  have fin: "finite (all_sites v syms)" by (simp add: all_sites_def)
  from rank_scan_least[OF ms(1) assms(4), of syms "(4294967295, None)" 0]
  show ?thesis
  proof (elim disjE exE conjE)
    assume n: "\<forall>k m. merge_site ?ms syms k m \<longrightarrow> fst (4294967295, None) \<le> mg_rank m"
      and r: "rank_scan ?ms 0 (4294967295, None) syms = snd (4294967295, None)"
    have "all_sites v syms = {}" using n rk by (force simp: all_sites_iff)
    then show ?thesis using r by (simp add: best_pair_ref_def best_rank_pair_def)
  next
    fix k m assume l: "least_site ?ms syms k m" and r: "rank_scan ?ms 0 (4294967295, None) syms = Some (0 + k, mg_id m)"
    have mem: "(mg_rank m, k, mg_id m) \<in> all_sites v syms" using l unfolding all_sites_iff least_site_def by blast
    have "Min (all_sites v syms) = (mg_rank m, k, mg_id m)"
    proof (rule Min_eqI[OF fin])
      fix x assume "x \<in> all_sites v syms"
      then obtain k' m' where x: "merge_site ?ms syms k' m'" "x = (mg_rank m', k', mg_id m')" unfolding all_sites_iff by blast
      then have le: "(mg_rank m, k) \<le> (mg_rank m', k')" using l by (simp add: least_site_def)
      have "m = m'" if "mg_rank m = mg_rank m'"
        using that ms(3) l x(1) by (auto simp: distinct_map inj_on_def least_site_def merge_site_def)
      then show "(mg_rank m, k, mg_id m) \<le> x" using le x(2) by auto
    qed (rule mem)
    moreover have "all_sites v syms \<noteq> {}" using mem by blast
    ultimately show ?thesis using r by (simp add: best_pair_ref_def best_rank_pair_def)
  qed
qed

text \<open>The table without the later entries of a pair that occurs more than once.\<close>

fun first_entries :: "merge list \<Rightarrow> merge list" where
  "first_entries [] = []"
| "first_entries (m # ms) = m # filter (\<lambda>m'. (mg_l m', mg_r m') \<noteq> (mg_l m, mg_r m)) (first_entries ms)"

lemma set_first_entries: "set (first_entries ms) \<subseteq> set ms"
  by (induction ms) auto

lemma first_entries_pairs: "distinct (map (\<lambda>m. (mg_l m, mg_r m)) (first_entries ms))"
  by (induction ms) (auto simp: distinct_map inj_on_def)

lemma first_entries_wf:
  "sorted_wrt merge_le ms \<Longrightarrow> sorted_wrt merge_le (first_entries ms)"
  "distinct (map mg_rank ms) \<Longrightarrow> distinct (map mg_rank (first_entries ms))"
proof (induction ms)
  case (Cons m ms)
  { case 1 then show ?case using Cons.IH(1) set_first_entries[of ms] by (auto intro: sorted_wrt_filter)
  next
    case 2 then show ?case using Cons.IH(2) set_first_entries[of ms] by (auto simp: distinct_map inj_on_def) }
qed simp_all

lemma first_entries_same: "distinct (map (\<lambda>m. (mg_l m, mg_r m)) ms) \<Longrightarrow> first_entries ms = ms"
proof (induction ms)
  case (Cons m ms)
  have "filter (\<lambda>m'. (mg_l m', mg_r m') \<noteq> (mg_l m, mg_r m)) ms = ms"
    using Cons.prems by (intro filter_True) (force simp: image_iff)
  then show ?case using Cons by simp
qed simp

lemma find_first_entries:
  "List.find (\<lambda>m. mg_l m = a \<and> mg_r m = b) (first_entries ms) = List.find (\<lambda>m. mg_l m = a \<and> mg_r m = b) ms"
proof (induction ms)
  case (Cons m ms)
  have "List.find (\<lambda>m. mg_l m = a \<and> mg_r m = b) (filter (\<lambda>m'. (mg_l m', mg_r m') \<noteq> (mg_l m, mg_r m)) ns)
      = List.find (\<lambda>m. mg_l m = a \<and> mg_r m = b) ns" if "\<not> (mg_l m = a \<and> mg_r m = b)" for ns
    using that by (induction ns) auto
  from this[of "first_entries ms"] show ?case
    using Cons by (cases "mg_l m = a \<and> mg_r m = b") (simp_all only: first_entries.simps find.simps if_True if_False simp_thms)
qed simp

lemma find_merge_first:
  assumes "sorted_wrt merge_le ms"
  shows "find_merge ms a b = List.find (\<lambda>m. mg_l m = a \<and> mg_r m = b) ms"
proof -
  let ?lo = "lower_bound ms a b 0 (length ms)"
  have lb: "below a b (ms ! j) \<longleftrightarrow> j < ?lo" if "j < length ms" for j
    using lower_bound_spec[OF assms, of 0 "length ms" a b] that by auto
  show ?thesis
  proof (cases "find_merge ms a b")
    case None
    then show ?thesis using find_merge_None[OF assms None] find_None_iff[of "\<lambda>m. mg_l m = a \<and> mg_r m = b" ms] by simp
  next
    case (Some m)
    then have lo: "?lo < length ms" "mg_l (ms ! ?lo) = a" "mg_r (ms ! ?lo) = b" "m = ms ! ?lo"
      by (auto simp: find_merge_def Let_def split: if_splits)
    have "\<not> (mg_l (ms ! j) = a \<and> mg_r (ms ! j) = b)" if "j < ?lo" for j
      using lb[of j] that lo(1) by (auto simp: below_def)
    then have "List.find (\<lambda>m. mg_l m = a \<and> mg_r m = b) ms = Some m"
      unfolding find_Some_iff using lo by (intro exI[of _ ?lo]) simp
    then show ?thesis using Some by simp
  qed
qed

lemma find_merge_first_entries: "sorted_wrt merge_le ms \<Longrightarrow> find_merge (first_entries ms) a b = find_merge ms a b"
  by (simp add: find_merge_first first_entries_wf find_first_entries)

lemma rank_scan_first_entries:
  "sorted_wrt merge_le ms \<Longrightarrow> rank_scan (first_entries ms) j best syms = rank_scan ms j best syms"
  by (induction ms j best syms rule: rank_scan.induct) (simp_all add: rank_step_def find_merge_first_entries)

lemma best_rank_first:
  assumes "vocab_ok v"
  shows "best_rank_pair v syms = best_pair_ref (v\<lparr>vc_merges := first_entries (vc_merges v)\<rparr>) syms"
proof -
  let ?ms = "vc_merges v" and ?v = "v\<lparr>vc_merges := first_entries (vc_merges v)\<rparr>"
  have ms: "sorted_wrt merge_le ?ms" "\<forall>m\<in>set ?ms. mg_rank m < 5000000" "distinct (map mg_rank ?ms)"
    using assms(1) by (simp_all add: vocab_ok_def)
  have "best_rank_pair ?v syms = best_pair_ref ?v syms"
    by (rule best_rank_pair_ref) (use first_entries_wf first_entries_pairs set_first_entries[of ?ms] ms in auto)
  then show ?thesis by (simp add: best_rank_pair_def rank_scan_first_entries[OF ms(1)])
qed

subsection \<open>The symbols before merging\<close>

lemma push_tokens: "tokens_ok v syms \<Longrightarrow> x < vc_n v \<Longrightarrow> tokens_ok v (push mx x syms)"
  by (simp add: push_def)

lemma unk_token: "vocab_ok v \<Longrightarrow> 0 \<le> vc_unk v \<Longrightarrow> nat (vc_unk v) < vc_n v"
  by (auto simp: vocab_ok_def)

lemma byte_id_eq:
  assumes "vocab_ok v" "vc_byte_level v"
  shows "vc_byte_ids v ! code c = (case vocab_bsearch_sorted v (gpt2_byte_str (code c)) of Some i \<Rightarrow> int i | None \<Rightarrow> -1)"
  using assms by (simp add: vocab_ok_def build_byte_ids_def)

lemma special_scan_hit:
  assumes "sorted_ok v"
  shows "special_scan v text best sps = Some (i, n) \<Longrightarrow>
    best = Some (i, n) \<or> (i < vc_n v \<and> 0 < n \<and> (\<exists>sp\<in>set sps. vocab_bsearch_sorted v sp = Some i \<and> vc_pieces v ! i = sp \<and> starts sp text \<and> length sp = n))"
proof (induction sps arbitrary: best)
  case (Cons sp sps)
  let ?best = "if length sp > (case best of None \<Rightarrow> 0 | Some (_, l) \<Rightarrow> l) \<and> starts sp text then
        (case vocab_bsearch_sorted v sp of Some i \<Rightarrow> Some (i, length sp) | None \<Rightarrow> best) else best"
  have "special_scan v text ?best sps = Some (i, n)" using Cons.prems by (simp add: Let_def)
  from Cons.IH[OF this] show ?case
    using bsearch.hit[OF assms, of sp i] by (auto split: if_splits option.splits)
qed simp

lemma special_token:
  assumes "sorted_ok v" "special_token_id v text = Some i"
  shows "i < vc_n v \<and> vc_pieces v ! i \<in> set k_qwen_specials \<and> starts (vc_pieces v ! i) text
    \<and> vocab_bsearch_sorted v (vc_pieces v ! i) = Some i \<and> vc_pieces v ! i \<noteq> []"
  using special_scan_hit[OF assms(1), of "text" None k_qwen_specials i] assms(2)
  by (auto simp: special_token_id_def)

lemma merges_init_tokens:
  assumes "vocab_ok v" "vc_byte_level v"
  shows "tokens_ok v syms \<Longrightarrow> length syms \<le> mx \<Longrightarrow>
    tokens_ok v (merges_init v mx text syms) \<and> length (merges_init v mx text syms) \<le> mx"
proof (induction "length text" arbitrary: "text" syms rule: less_induct)
  case less
  have s: "sorted_ok v" using assms(1) by (simp add: vocab_ok_def)
  have pu: "tokens_ok v (push mx x syms) \<and> length (push mx x syms) \<le> mx" if "x < vc_n v" for x
    using that less.prems by (simp add: push_def)
  show ?case
  proof (cases "text")
    case (Cons c rest)
    note ih = less.hyps
    have b: "0 \<le> vc_byte_ids v ! code c \<Longrightarrow> nat (vc_byte_ids v ! code c) < vc_n v"
      using bsearch.hit[OF s, of "gpt2_byte_str (code c)"] byte_id_eq[OF assms, of c] by (auto split: option.splits)
    show ?thesis
    proof (cases "special_token_id v text")
      case (Some sid)
      let ?n = "special_len v text sid 0 k_qwen_specials"
      have e: "merges_init v mx text syms = (if ?n = 0 then merges_init v mx rest syms else merges_init v mx (drop ?n text) (push mx sid syms))"
        using Some by (subst merges_init.simps) (simp add: Cons Let_def)
      show ?thesis unfolding e using ih[of rest syms] ih[of "drop ?n text" "push mx sid syms"] less.prems pu[of sid] special_token[OF s Some] Cons
        by simp
    next
      case None
      let ?k = "min (utf8_clen c) (length text)"
      let ?hit = "if ?k > 1 then vocab_bsearch_sorted v (take ?k text) else None"
      let ?b = "vc_byte_ids v ! code c"
      let ?syms = "if ?b \<ge> 0 then push mx (nat ?b) syms else if vc_unk v \<ge> 0 then push mx (nat (vc_unk v)) syms else syms"
      have e: "merges_init v mx text syms = (case ?hit of Some i \<Rightarrow> merges_init v mx (drop ?k text) (push mx i syms)
          | None \<Rightarrow> merges_init v mx rest ?syms)"
        using None by (subst merges_init.simps) (simp only: Cons list.case option.case Let_def)
      show ?thesis
      proof (cases ?hit)
        case None
        note h = this
        have "tokens_ok v ?syms \<and> length ?syms \<le> mx" using pu[OF b] pu[OF unk_token[OF assms(1)]] less.prems by simp
        then show ?thesis unfolding e h option.case using ih[of rest ?syms] Cons by simp
      next
        case (Some i)
        then have "i < vc_n v" "?k > 1" using bsearch.hit[OF s, of "take ?k text" i] by (auto split: if_splits)
        moreover have "0 < ?k" "0 < length text" using \<open>?k > 1\<close> Cons by simp_all
        then have "length (drop ?k text) < length text" by (simp only: length_drop diff_less)
        ultimately show ?thesis unfolding e Some option.case using pu[of i] by (intro ih) blast+
      qed
    qed
  qed (use less.prems in \<open>simp add: merges_init.simps\<close>)
qed

lemma byte_syms_tokens: "vocab_ok v \<Longrightarrow> tokens_ok v (byte_syms v cs)"
proof (induction cs)
  case (Cons c cs)
  have "tokens_ok v (case vocab_bsearch_sorted v (byte_piece c) of Some i \<Rightarrow> [i]
      | None \<Rightarrow> if vc_unk v \<ge> 0 then [nat (vc_unk v)] else [])"
    using bsearch.hit[of v "byte_piece c"] unk_token[OF Cons.prems] Cons.prems by (auto simp: vocab_ok_def split: option.splits)
  then show ?case using Cons by (simp add: byte_syms_def)
qed (simp add: byte_syms_def)

lemma utf8_clen_pos: "0 < utf8_clen c" "utf8_clen c \<le> 4"
  by (simp_all add: utf8_clen_def)

lemma sp_init_tokens: "vocab_ok v \<Longrightarrow> tokens_ok v (sp_init v norm)"
proof (induction "length norm" arbitrary: norm rule: less_induct)
  case less
  show ?case
  proof (cases norm)
    case (Cons c rest)
    let ?k = "min (utf8_clen c) (length norm)"
    have e: "sp_init v norm = (case vocab_bsearch_sorted v (take ?k norm) of Some i \<Rightarrow> i # sp_init v (drop ?k norm)
        | None \<Rightarrow> byte_syms v (take ?k norm) @ sp_init v (drop ?k norm))"
      by (subst sp_init.simps) (simp only: Cons list.case Let_def)
    have "length (drop ?k norm) < length norm" using utf8_clen_pos(1)[of c] Cons by simp
    then have t: "tokens_ok v (sp_init v (drop ?k norm))" using less by blast
    have h: "vocab_bsearch_sorted v (take ?k norm) = Some i \<Longrightarrow> i < vc_n v" for i
      using bsearch.hit[of v] less.prems by (auto simp: vocab_ok_def)
    show ?thesis unfolding e
      using t h byte_syms_tokens[OF less.prems, of "take ?k norm"] by (auto split: option.splits)
  qed (simp add: sp_init.simps)
qed

lemma greedy_scan_token:
  "greedy_scan p i best ps = Some (k, n) \<Longrightarrow> best = Some (k, n) \<or> (i \<le> k \<and> k < i + length ps \<and> n = length (ps ! (k - i)))"
proof (induction ps arbitrary: i best)
  case (Cons pc ps)
  let ?best = "if starts pc p then Some (i, length pc) else best"
  have "greedy_scan p (i + 1) best ps = Some (k, n) \<or> greedy_scan p (i + 1) ?best ps = Some (k, n)"
    using Cons.prems by (auto simp: Let_def split: if_splits)
  then have "(best = Some (k, n) \<or> ?best = Some (k, n)) \<or> (i + 1 \<le> k \<and> k < i + 1 + length ps \<and> n = length (ps ! (k - (i + 1))))"
    using Cons.IH by blast
  then show ?case by (auto simp: nth_Cons' split: if_splits)
qed simp

lemma greedy_loop_tokens: "vocab_ok v \<Longrightarrow> tokens_ok v (greedy_loop v room p) \<and> length (greedy_loop v room p) \<le> room"
proof (induction "length p" arbitrary: p room rule: less_induct)
  case less
  show ?case
  proof (cases "p = [] \<or> room = 0")
    case False
    then obtain r where r: "room = Suc r" by (cases room) auto
    note ih = less.hyps[OF _ less.prems]
    have t: "length (tl p) < length p" using False by simp
    show ?thesis
    proof (cases "greedy_scan p 0 None (vc_pieces v)")
      case (Some kn)
      obtain k n where g: "greedy_scan p 0 None (vc_pieces v) = Some (k, n)" using Some by (cases kn) auto
      have "length (drop n p) < length p" using greedy_scan_pos[OF g] False by simp
      then show ?thesis using False g r ih[of "drop n p" r] greedy_scan_token[OF g]
        by (subst (1 2) greedy_loop.simps) simp
    next
      case None
      show ?thesis using False None r ih[OF t, of r] ih[OF t, of room] linear.hit[of v "byte_piece (hd p)"] unk_token[OF less.prems]
        by (subst (1 2) greedy_loop.simps) (auto split: option.splits)
    qed
  qed (simp add: greedy_loop.simps)
qed

lemma tokens_take: "tokens_ok v xs \<Longrightarrow> tokens_ok v (take n xs)"
  by (auto simp: tokens_ok_def dest: in_set_takeD)

lemma encode_merges_form:
  assumes "vocab_ok v" "vc_byte_level v"
  shows "vocab_encode_merges v t mx = merge_loop (best_rank_pair v) mx (merges_init v mx t [])"
  using assms merges_init_tokens[OF assms, of "[]" mx t] by_rank.merge_loop_length[OF assms(1), of mx "merges_init v mx t []"]
  by (simp add: vocab_encode_merges_def vocab_ok_def)

lemma encode_tokens:
  assumes "vocab_ok v"
  shows "length (vocab_encode v t mx) \<le> mx \<and> tokens_ok v (vocab_encode v t mx)"
proof (cases "vc_byte_level v")
  case True
  then have "tokens_ok v (merges_init v mx t [])" using merges_init_tokens[OF assms] by simp
  then have "tokens_ok v (vocab_encode_merges v t mx)"
    unfolding encode_merges_form[OF assms True] by (rule by_rank.merge_loop_tokens[OF assms])
  then show ?thesis using True assms by (auto simp: vocab_encode_def vocab_ok_def vocab_encode_merges_def)
next
  case False
  have "tokens_ok v (merge_loop (best_score_pair v) mx (sp_init v (sp_normalize t)))"
    by (rule by_score.merge_loop_tokens[OF assms sp_init_tokens[OF assms]])
  then show ?thesis using False assms greedy_loop_tokens[OF assms]
    by (auto simp: vocab_encode_def vocab_encode_greedy_def vocab_ok_def intro: tokens_take)
qed

end
