(* ===== verification/VocabWrite.thy ===== *)
theory VocabWrite
  imports VocabFile
begin

text \<open>
  The writer of the text vocabulary in \<open>inference/convert/convert_gguf.c\<close> and the round trip with
  the reader of \<open>inference/core/tokenizer.c\<close>. \<open>fmt\<close> is \<open>printf("%.9g")\<close> of a score.
\<close>

subsection \<open>The writer\<close>

record gguf_vocab =
  gv_tokens :: "string list"
  gv_scores :: "int list"
  gv_merges :: "string list"
  gv_add_bos :: int
  gv_eos :: int
  gv_bos :: int
  gv_template :: "string option"

fun esc_line :: "bool \<Rightarrow> string \<Rightarrow> string" where
  "esc_line tab [] = []"
| "esc_line tab (c # s) =
     (if c = LF then [BSL, CHR ''n''] else if c = CR then [BSL, CHR ''r'']
      else if tab \<and> c = TAB then [BSL, CHR ''t''] else if c = BSL then [BSL, BSL] else [c]) @ esc_line tab s"

definition vocab_write :: "(int \<Rightarrow> string) \<Rightarrow> gguf_vocab \<Rightarrow> bytes" where
  "vocab_write fmt g =
     show_nat (length (gv_tokens g)) @ [LF]
     @ concat (map (\<lambda>(i, t). show_nat i @ [TAB] @ esc_line True t @ [LF]) (enumerate 0 (gv_tokens g)))
     @ (if gv_scores g \<noteq> [] then ''#SCORES#'' @ [LF] @ show_nat (length (gv_scores g)) @ [LF]
          @ concat (map (\<lambda>x. fmt x @ [LF]) (gv_scores g)) else [])
     @ (if gv_merges g \<noteq> [] then ''#MERGES#'' @ [LF] @ show_nat (length (gv_merges g)) @ [LF]
          @ concat (map (\<lambda>m. esc_line False m @ [LF]) (gv_merges g)) else [])
     @ ''#CHAT#'' @ [LF] @ ''add_bos='' @ show_int (gv_add_bos g) @ [LF] @ ''eos_id='' @ show_int (gv_eos g) @ [LF]
     @ ''bos_id='' @ show_int (gv_bos g) @ [LF]
     @ ''template='' @ (case gv_template g of None \<Rightarrow> [] | Some t \<Rightarrow> esc_line False t) @ [LF]"

subsection \<open>Lines and escapes\<close>

text \<open>A text that \<open>fgets\<close> reads as one line.\<close>

definition short_line :: "string \<Rightarrow> bool" where
  "short_line l \<longleftrightarrow> line_text l \<and> length l + 1 < LINE_MAX"

lemma fgets_loop_line: "LF \<notin> set l \<Longrightarrow> length l < n \<Longrightarrow> fgets_loop n (l @ LF # s) = (l @ [LF], s)"
proof (induction l arbitrary: n)
  case Nil
  then show ?case by (cases n) auto
next
  case (Cons c l)
  then show ?case by (cases n) auto
qed

lemma fgets_line [simp]:
  assumes "short_line l"
  shows "fgets (l @ LF # s) = Some (l @ [LF], s)"
proof -
  have "LF \<notin> set l" "length l < LINE_MAX - 1" "NUL \<notin> set l" using assms by (auto simp: short_line_def line_text_def)
  then show ?thesis by (simp add: fgets_def fgets_loop_line cstr_def)
qed

lemma dropWhile_none: "\<forall>x\<in>set xs. \<not> P x \<Longrightarrow> dropWhile P xs = xs"
  by (cases xs) auto

lemma chomp_line [simp]:
  assumes "line_text l"
  shows "chomp (l @ [LF]) = l"
proof -
  have "\<forall>c\<in>set (rev l). \<not> (c = LF \<or> c = CR)" using assms by (auto simp: line_text_def)
  from dropWhile_none[OF this] show ?thesis by (simp add: chomp_def)
qed

lemma unescape_esc [simp]: "unescape_piece (esc_line tab s @ t) = s @ unescape_piece t"
  by (induction tab s rule: esc_line.induct) auto

lemma unescape_esc_end [simp]: "unescape_piece (esc_line tab s) = s"
  using unescape_esc[of tab s "[]"] by simp

lemma esc_line_text: "line_text (esc_line tab s) \<longleftrightarrow> NUL \<notin> set s"
  by (induction tab s rule: esc_line.induct) auto

lemma esc_line_no: "c \<notin> set s \<Longrightarrow> c \<notin> {BSL, CHR ''n'', CHR ''r'', CHR ''t''} \<Longrightarrow> c \<notin> set (esc_line tab s)"
  by (induction tab s rule: esc_line.induct) auto

lemma esc_line_append [simp]: "esc_line tab (a @ b) = esc_line tab a @ esc_line tab b"
  by (induction tab a rule: esc_line.induct) auto

lemma esc_line_inj: "esc_line tab a = esc_line tab b \<Longrightarrow> a = b"
  by (metis unescape_esc_end)


subsection \<open>The round trip\<close>

text \<open>What reading the line of token \<open>t\<close> does to the vocabulary.\<close>

definition text_piece :: "string \<Rightarrow> vocab \<Rightarrow> vocab" where
  "text_piece t v = add_piece t (add_special t (if t = ''<unk>'' then v\<lparr>vc_unk := int (vc_n v)\<rparr> else v))"

definition token_ok :: "string \<Rightarrow> bool" where
  "token_ok t \<longleftrightarrow> NUL \<notin> set t \<and> length (esc_line True t) < 65500"

definition merge_text_ok :: "string \<Rightarrow> bool" where
  "merge_text_ok m \<longleftrightarrow> NUL \<notin> set m \<and> length (esc_line False m) < 65500 \<and> SP \<in> set m"

definition split_merge :: "string \<Rightarrow> string \<times> string" where
  "split_merge m = (takeWhile (\<lambda>c. c \<noteq> SP) m, tl (dropWhile (\<lambda>c. c \<noteq> SP) m))"

lemma esc_plain:
  "esc_line True ''<unk>'' = ''<unk>''" "esc_line True ''<s>'' = ''<s>''" "esc_line True ''</s>'' = ''</s>''"
  "esc_line True ''<bos>'' = ''<bos>''" "esc_line True ''<eos>'' = ''<eos>''"
  by simp_all

lemma esc_special:
  "esc_line True t = ''<unk>'' \<longleftrightarrow> t = ''<unk>''" "esc_line True t = ''<s>'' \<longleftrightarrow> t = ''<s>''"
  "esc_line True t = ''</s>'' \<longleftrightarrow> t = ''</s>''" "esc_line True t = ''<bos>'' \<longleftrightarrow> t = ''<bos>''"
  "esc_line True t = ''<eos>'' \<longleftrightarrow> t = ''<eos>''"
  using esc_line_inj esc_plain by metis+

lemma add_special_esc: "add_special (esc_line True t) v = add_special t v"
  unfolding add_special_def esc_special by (rule refl)

lemma piece_line_write:
  assumes "vc_n v = i" "i < 2 ^ 31"
  shows "piece_line (show_nat i @ TAB # esc_line True t) v = Some (text_piece t v)"
proof -
  have nt: "TAB \<notin> set (show_nat i)" by (rule show_nat_no) (simp add: is_digit_def code_def)
  have "atoi (show_nat i) = int i" using atoi_show_nat[of "[]" i] assms(2) by simp
  then show ?thesis
    by (simp add: piece_line_def strchr_append[OF nt] takeWhile_no[OF nt] add_special_esc esc_special text_piece_def assms(1) Let_def)
qed

lemma piece_lines_write:
  assumes "\<forall>t\<in>set ts. token_ok t" "vc_n v + length ts \<le> 1000000"
  shows "piece_lines (length ts) (concat (map (\<lambda>(i, t). show_nat i @ [TAB] @ esc_line True t @ [LF]) (enumerate (vc_n v) ts)) @ s) v
     = Some (fold text_piece ts v, s)"
  using assms
proof (induction ts arbitrary: v)
  case (Cons t ts)
  let ?l = "show_nat (vc_n v) @ TAB # esc_line True t"
  have "length (show_nat (vc_n v)) \<le> 7" using Cons.prems(2) by (intro length_show_nat) auto
  then have sl: "short_line ?l" "line_text ?l"
    using Cons.prems(1) by (auto simp: short_line_def token_ok_def esc_line_text LINE_MAX_def)
  have n: "vc_n (text_piece t v) = Suc (vc_n v)" by (simp add: text_piece_def add_piece_def)
  have "fgets (?l @ LF # r) = Some (?l @ [LF], r)" for r by (rule fgets_line[OF sl(1)])
  then have "fgets (show_nat (vc_n v) @ TAB # esc_line True t @ LF # r) = Some (?l @ [LF], r)" for r by simp
  moreover have "chomp (?l @ [LF]) = ?l" by (rule chomp_line[OF sl(2)])
  ultimately show ?case
    using Cons.IH[of "text_piece t v"] Cons.prems piece_line_write[of v "vc_n v" t]
    by (simp add: n)
qed simp

lemma score_lines_write:
  assumes "\<forall>x\<in>set xs. short_line (fmt x) \<and> atof (fmt x @ [LF]) = x"
  shows "score_lines atof (length xs) (concat (map (\<lambda>x. fmt x @ [LF]) xs) @ s) = (xs, s)"
  using assms by (induction xs) auto

lemma merge_lines_write:
  assumes "\<forall>m\<in>set ms. merge_text_ok m"
  shows "merge_lines (length ms) (concat (map (\<lambda>m. esc_line False m @ [LF]) ms) @ s) = (map split_merge ms, s)"
  using assms
proof (induction ms)
  case (Cons m ms)
  let ?l = "takeWhile (\<lambda>c. c \<noteq> SP) m" and ?r = "tl (dropWhile (\<lambda>c. c \<noteq> SP) m)"
  have m: "m = ?l @ SP # ?r" using Cons.prems takeWhile_dropWhile_id[of "\<lambda>c. c \<noteq> SP" m] dropWhile_neq_Cons[of SP m]
    by (cases "dropWhile (\<lambda>c. c \<noteq> SP) m") (auto simp: merge_text_ok_def dropWhile_eq_Nil_conv)
  have e: "esc_line False m = esc_line False ?l @ SP # esc_line False ?r" by (subst m) simp
  have ns: "SP \<notin> set (esc_line False ?l)" by (rule esc_line_no) (auto dest: set_takeWhileD)
  have "short_line (esc_line False m)" "line_text (esc_line False m)"
    using Cons.prems by (auto simp: short_line_def merge_text_ok_def esc_line_text LINE_MAX_def)
  then have f: "fgets (esc_line False m @ LF # r) = Some (esc_line False m @ [LF], r)" and c: "chomp (esc_line False m @ [LF]) = esc_line False m" for r
    by simp_all
  have st: "strchr (esc_line False m) SP = Some (SP # esc_line False ?r)" "takeWhile (\<lambda>c. c \<noteq> SP) (esc_line False m) = esc_line False ?l"
    unfolding e by (rule strchr_append[OF ns], rule takeWhile_no[OF ns])
  show ?case using Cons
    by (simp add: merge_lines_step[OF _ f] c st split_merge_def)
qed (simp add: merge_lines_end)

lemma chat_lines_step: "short_line l \<Longrightarrow> chat_lines (l @ LF # s) v = chat_lines s (chat_line l v)"
  by (subst chat_lines.simps) (simp add: short_line_def)

lemma chat_lines_end: "chat_lines [] v = v"
  by (subst chat_lines.simps) (simp add: fgets_def)

lemma show_int_line: "line_text (show_int i)"
  by (simp add: show_int_def)

lemma show_int_short:
  assumes "- (2 ^ 31) \<le> i" "i < 2 ^ 31"
  shows "length (show_int i) \<le> 11"
proof -
  have "nat (- i) < 10 ^ 10" "nat i < 10 ^ 10" using assms by simp_all
  then show ?thesis using length_show_nat[of "nat (- i)" 10] length_show_nat[of "nat i" 10]
    by (simp add: show_int_def)
qed

lemma show_int_key:
  assumes "line_text k" "length k < 100" "- (2 ^ 31) \<le> i" "i < 2 ^ 31"
  shows "short_line (k @ show_int i)"
  using assms show_int_short[of i] show_int_line[of i] by (auto simp: short_line_def LINE_MAX_def)

text \<open>A vocabulary that the writer can store: what the reader bounds, and texts whose lines fit
  its buffer.\<close>

definition gguf_ok :: "(int \<Rightarrow> string) \<Rightarrow> (string \<Rightarrow> int) \<Rightarrow> gguf_vocab \<Rightarrow> bool" where
  "gguf_ok fmt atof g \<longleftrightarrow>
     gv_tokens g \<noteq> [] \<and> length (gv_tokens g) \<le> 1000000 \<and> (\<forall>t\<in>set (gv_tokens g). token_ok t)
     \<and> length (gv_scores g) \<le> 1000000 \<and> (\<forall>x\<in>set (gv_scores g). short_line (fmt x) \<and> atof (fmt x @ [LF]) = x)
     \<and> length (gv_merges g) \<le> 5000000 \<and> (\<forall>m\<in>set (gv_merges g). merge_text_ok m)
     \<and> (\<forall>i\<in>{gv_add_bos g, gv_eos g, gv_bos g}. - (2 ^ 31) \<le> i \<and> i < 2 ^ 31)
     \<and> (case gv_template g of None \<Rightarrow> True | Some t \<Rightarrow> NUL \<notin> set t \<and> length (esc_line False t) < 65500)"

text \<open>The vocabulary the reader makes of it.\<close>

definition gguf_read :: "gguf_vocab \<Rightarrow> vocab" where
  "gguf_read g =
     (let v = fold text_piece (gv_tokens g) (vocab_zero\<lparr>vc_think := -1, vc_unk := -1, vc_bos := -1, vc_eos := -1\<rparr>) in
      v\<lparr>vc_scores := gv_scores g, vc_raw := map split_merge (gv_merges g), vc_add_bos := gv_add_bos g,
        vc_eos := gv_eos g, vc_bos := (if gv_bos g \<ge> 0 then gv_bos g else vc_bos v),
        vc_template := Some (case gv_template g of None \<Rightarrow> [] | Some t \<Rightarrow> t)\<rparr>)"

definition chat_text :: "gguf_vocab \<Rightarrow> bytes" where
  "chat_text g =
     ''add_bos='' @ show_int (gv_add_bos g) @ LF # ''eos_id='' @ show_int (gv_eos g) @ LF #
     ''bos_id='' @ show_int (gv_bos g) @ LF # ''template='' @ (case gv_template g of None \<Rightarrow> [] | Some t \<Rightarrow> esc_line False t) @ [LF]"

lemma chat_line_kinds:
  "chat_line (''add_bos='' @ x) v = v\<lparr>vc_add_bos := atoi x\<rparr>"
  "chat_line (''eos_id='' @ x) v = v\<lparr>vc_eos := atoi x\<rparr>"
  "chat_line (''bos_id='' @ x) v = (if atoi x \<ge> 0 then v\<lparr>vc_bos := atoi x\<rparr> else v)"
  "chat_line (''template='' @ x) v = v\<lparr>vc_template := Some (unescape_piece x)\<rparr>"
  by (simp_all add: chat_line_def Let_def)

lemma chat_lines_text:
  assumes "gguf_ok fmt atof g"
  shows "chat_lines (chat_text g) v = v\<lparr>vc_add_bos := gv_add_bos g, vc_eos := gv_eos g,
     vc_bos := (if gv_bos g \<ge> 0 then gv_bos g else vc_bos v),
     vc_template := Some (case gv_template g of None \<Rightarrow> [] | Some t \<Rightarrow> t)\<rparr>"
proof -
  let ?t = "case gv_template g of None \<Rightarrow> [] | Some t \<Rightarrow> esc_line False t"
  have i: "- (2 ^ 31) \<le> i \<and> i < 2 ^ 31" if "i \<in> {gv_add_bos g, gv_eos g, gv_bos g}" for i
    using assms that unfolding gguf_ok_def by blast
  have a: "atoi (show_int j) = j" if "j \<in> {gv_add_bos g, gv_eos g, gv_bos g}" for j
    using atoi_show_int[of "[]" j] i[OF that] by simp
  have sh: "short_line (k @ show_int j)" if "j \<in> {gv_add_bos g, gv_eos g, gv_bos g}" "line_text k" "length k < 100" for j k
    using show_int_key[OF that(2,3)] i[OF that(1)] by blast
  have tl: "short_line (''template='' @ ?t)"
    using assms by (auto simp: gguf_ok_def short_line_def esc_line_text LINE_MAX_def split: option.splits)
  have s1: "chat_lines (''add_bos='' @ show_int (gv_add_bos g) @ LF # s) v = chat_lines s (v\<lparr>vc_add_bos := gv_add_bos g\<rparr>)" for s v
    using chat_lines_step[OF sh[of "gv_add_bos g" "''add_bos=''"], of s v] a chat_line_kinds(1) by simp
  have s2: "chat_lines (''eos_id='' @ show_int (gv_eos g) @ LF # s) v = chat_lines s (v\<lparr>vc_eos := gv_eos g\<rparr>)" for s v
    using chat_lines_step[OF sh[of "gv_eos g" "''eos_id=''"], of s v] a chat_line_kinds(2) by simp
  have s3: "chat_lines (''bos_id='' @ show_int (gv_bos g) @ LF # s) v
      = chat_lines s (if gv_bos g \<ge> 0 then v\<lparr>vc_bos := gv_bos g\<rparr> else v)" for s v
    using chat_lines_step[OF sh[of "gv_bos g" "''bos_id=''"], of s v] a chat_line_kinds(3) by simp
  have s4: "chat_lines (''template='' @ ?t @ [LF]) v = v\<lparr>vc_template := Some (case gv_template g of None \<Rightarrow> [] | Some t \<Rightarrow> t)\<rparr>" for v
    using chat_lines_step[OF tl, of "[]" v] chat_line_kinds(4)[of ?t v] by (simp add: chat_lines_end split: option.splits)
  show ?thesis unfolding chat_text_def s1 s2 s3 s4 by simp
qed

lemma sections_chat: "sections atof junk (''#CHAT#'' @ LF # s) v = chat_lines s v"
proof -
  have h: "fgets (''#CHAT#'' @ LF # s) = Some (''#CHAT#'' @ [LF], s)" "chomp (''#CHAT#'' @ [LF]) = ''#CHAT#''"
    by (rule fgets_line, simp add: short_line_def LINE_MAX_def, rule chomp_line, simp)
  show ?thesis by (subst sections.simps) (simp only: h option.case prod.case, simp)
qed

lemma count_line:
  assumes "n < 10 ^ 7"
  shows "fgets (show_nat n @ LF # s) = Some (show_nat n @ [LF], s)" "atoi (show_nat n @ [LF]) = int n"
proof -
  have "short_line (show_nat n)" using length_show_nat[of n 7] assms by (simp add: short_line_def LINE_MAX_def)
  then show "fgets (show_nat n @ LF # s) = Some (show_nat n @ [LF], s)" by simp
  have "\<not> is_digit LF" by (simp add: is_digit_def code_def)
  then show "atoi (show_nat n @ [LF]) = int n" using assms by (intro atoi_show_nat) simp_all
qed

lemma head_line: "short_line h \<Longrightarrow> fgets (h @ LF # s) = Some (h @ [LF], s) \<and> chomp (h @ [LF]) = h"
  by (simp add: short_line_def)

lemma sections_scores:
  assumes "\<forall>x\<in>set xs. short_line (fmt x) \<and> atof (fmt x @ [LF]) = x" "xs \<noteq> []" "length xs \<le> 1000000"
  shows "sections atof junk (''#SCORES#'' @ LF # show_nat (length xs) @ LF # concat (map (\<lambda>x. fmt x @ [LF]) xs) @ s) v
    = sections atof junk s (v\<lparr>vc_scores := xs\<rparr>)"
proof -
  have h: "fgets (''#SCORES#'' @ LF # r) = Some (''#SCORES#'' @ [LF], r)" "chomp (''#SCORES#'' @ [LF]) = ''#SCORES#''" for r
    using head_line[of "''#SCORES#''" r] by (simp_all add: short_line_def LINE_MAX_def)
  show ?thesis
    by (subst sections.simps)
       (simp only: h option.case prod.case if_True count_line[of "length xs"] score_lines_write[OF assms(1)]
          Let_def nat_int, use assms(2,3) count_line[of "length xs"] score_lines_write[OF assms(1), of s] in \<open>simp\<close>)
qed

lemma sections_merges:
  assumes "\<forall>m\<in>set ms. merge_text_ok m" "ms \<noteq> []" "length ms \<le> 5000000"
  shows "sections atof junk (''#MERGES#'' @ LF # show_nat (length ms) @ LF # concat (map (\<lambda>m. esc_line False m @ [LF]) ms) @ s) v
    = sections atof junk s (v\<lparr>vc_raw := map split_merge ms\<rparr>)"
proof -
  have h: "fgets (''#MERGES#'' @ LF # r) = Some (''#MERGES#'' @ [LF], r)" "chomp (''#MERGES#'' @ [LF]) = ''#MERGES#''" for r
    using head_line[of "''#MERGES#''" r] by (simp_all add: short_line_def LINE_MAX_def)
  show ?thesis
    by (subst sections.simps)
       (simp only: h option.case prod.case if_True count_line[of "length ms"] merge_lines_write[OF assms(1)]
          Let_def nat_int, use assms(2,3) count_line[of "length ms"] merge_lines_write[OF assms(1), of s] in \<open>simp\<close>)
qed

lemma fold_text_piece:
  "vc_pieces (fold text_piece ts v) = vc_pieces v @ ts" "vc_scores (fold text_piece ts v) = vc_scores v"
  "vc_raw (fold text_piece ts v) = vc_raw v"
  by (induction ts arbitrary: v) (simp_all add: text_piece_def add_piece_def add_special_def Let_def)

lemma vocab_text_read:
  assumes "gguf_ok fmt atof g"
  shows "parse_text atof junk (vocab_write fmt g) = Some (gguf_read g) \<and> vc_pieces (gguf_read g) = gv_tokens g"
proof -
  let ?v0 = "vocab_zero\<lparr>vc_think := -1, vc_unk := -1, vc_bos := -1, vc_eos := -1\<rparr>"
  let ?ts = "gv_tokens g" and ?xs = "gv_scores g" and ?ms = "gv_merges g"
  let ?m = "if ?ms \<noteq> [] then ''#MERGES#'' @ [LF] @ show_nat (length ?ms) @ [LF] @ concat (map (\<lambda>m. esc_line False m @ [LF]) ?ms) else []"
  let ?s = "if ?xs \<noteq> [] then ''#SCORES#'' @ [LF] @ show_nat (length ?xs) @ [LF] @ concat (map (\<lambda>x. fmt x @ [LF]) ?xs) else []"
  let ?e = "''#CHAT#'' @ LF # chat_text g"
  let ?t = "\<lambda>n. concat (map (\<lambda>(i, t). show_nat i @ [TAB] @ esc_line True t @ [LF]) (enumerate n ?ts))"
  define v where "v = fold text_piece ?ts ?v0"
  have n: "?ts \<noteq> []" "length ?ts \<le> 1000000" "\<forall>t\<in>set ?ts. token_ok t" "length ?xs \<le> 1000000"
    "\<forall>x\<in>set ?xs. short_line (fmt x) \<and> atof (fmt x @ [LF]) = x" "length ?ms \<le> 5000000" "\<forall>m\<in>set ?ms. merge_text_ok m"
    using assms by (simp_all add: gguf_ok_def)
  have w: "vocab_write fmt g = show_nat (length ?ts) @ LF # ?t 0 @ ?s @ ?m @ ?e"
    unfolding vocab_write_def chat_text_def by simp
  have s1: "sections atof junk (?s @ r) u = sections atof junk r (u\<lparr>vc_scores := ?xs\<rparr>)" if "vc_scores u = []" for r u
    using sections_scores[OF n(5) _ n(4), of junk r u] that by (cases u) simp
  have s2: "sections atof junk (?m @ r) u = sections atof junk r (u\<lparr>vc_raw := map split_merge ?ms\<rparr>)" if "vc_raw u = []" for r u
    using sections_merges[OF n(7) _ n(6), of atof junk r u] that by (cases u) simp
  have z: "vc_scores v = []" "vc_raw v = []" "vc_pieces v = ?ts"
    by (simp_all add: v_def fold_text_piece vocab_zero_def)
  let ?v1 = "v\<lparr>vc_scores := ?xs\<rparr>" let ?v2 = "?v1\<lparr>vc_raw := map split_merge ?ms\<rparr>"
  have "sections atof junk (?s @ ?m @ ?e) v = sections atof junk (?m @ ?e) ?v1" by (rule s1[OF z(1)])
  also have "\<dots> = sections atof junk ?e ?v2" by (rule s2) (simp add: z(2))
  also have "\<dots> = chat_lines (chat_text g) ?v2" by (rule sections_chat)
  also have "\<dots> = gguf_read g" by (simp add: chat_lines_text[OF assms] gguf_read_def v_def[symmetric] Let_def)
  finally have "sections atof junk (?s @ ?m @ ?e) v = gguf_read g" .
  moreover have "piece_lines (length ?ts) (?t 0 @ r) ?v0 = Some (v, r)" for r
    using piece_lines_write[OF n(3), of ?v0 r] n(2) by (simp add: v_def vocab_zero_def)
  ultimately have "parse_text atof junk (vocab_write fmt g) = Some (gguf_read g)"
    using n(1,2) z(3) count_line[of "length ?ts"] by (simp only: w parse_text_def) (simp add: Let_def)
  moreover have "vc_pieces (gguf_read g) = ?ts" using z(3) by (simp add: gguf_read_def v_def Let_def)
  ultimately show ?thesis by blast
qed

text \<open>Every vocabulary the converter writes is read back: the pieces with all their line
  feeds, tabs and backslashes, the scores, the two sides of every merge, the special tokens and
  the chat template. (Bounds: at most a million pieces and scores and five million merges, and no
  escaped text over 65500 bytes, the size of the line buffer of the reader.)\<close>

theorem vocab_text_roundtrip:
  assumes "gguf_ok fmt atof g"
  shows "parse_text atof junk (vocab_write fmt g) = Some (gguf_read g) \<and> vc_pieces (gguf_read g) = gv_tokens g"
  by (rule vocab_text_read[OF assms])

text \<open>A small byte-level vocabulary with one merge.\<close>

definition tiny_gguf :: gguf_vocab where
  "tiny_gguf = \<lparr>gv_tokens = [''<unk>'', ''b'', [LF], ''ab'', ''a''], gv_scores = [], gv_merges = [''a b''],
     gv_add_bos = 0, gv_eos = 2, gv_bos = -1, gv_template = None\<rparr>"

lemma tiny_gguf_ok: "gguf_ok fmt atof tiny_gguf"
  by (simp add: gguf_ok_def tiny_gguf_def token_ok_def merge_text_ok_def)

lemma tiny_gguf_parsed: "parse_text atof junk (vocab_write fmt tiny_gguf) = Some (gguf_read tiny_gguf)"
  and tiny_gguf_pieces: "vc_pieces (gguf_read tiny_gguf) = [''<unk>'', ''b'', [LF], ''ab'', ''a'']"
  using vocab_text_read[OF tiny_gguf_ok, of atof junk fmt] by (simp_all add: tiny_gguf_def)

theorem vocab_text_roundtrip_witness:
  "parse_text (\<lambda>_. 0) (\<lambda>_. 0) (vocab_write (\<lambda>_. ''0'') tiny_gguf) = Some (gguf_read tiny_gguf)
    \<and> vc_pieces (gguf_read tiny_gguf) = [''<unk>'', ''b'', [LF], ''ab'', ''a'']"
  using vocab_text_roundtrip[OF tiny_gguf_ok[of "\<lambda>_. ''0''" "\<lambda>_. 0"], of "\<lambda>_. 0"] by (simp add: tiny_gguf_def)

theorem vocab_load_ok_witness:
  "\<exists>v. vocab_load (\<lambda>_. 0) (\<lambda>_. 0) isort_by (Some (vocab_write (\<lambda>_. ''0'') tiny_gguf)) = Ret (Some v) \<and> vocab_ok v
    \<and> vc_pieces v = [''<unk>'', ''b'', [LF], ''ab'', ''a'']"
proof -
  let ?d = "vocab_write (\<lambda>_. ''0'') tiny_gguf"
  have "char_of (53 :: nat) \<noteq> LF" by code_simp
  then have "?d \<noteq> [] \<and> hd ?d \<noteq> LF" by (simp add: vocab_write_def tiny_gguf_def show_nat.simps digit_char_def)
  moreover have "parse_text (\<lambda>_. 0) (\<lambda>_. 0) ?d = Some (gguf_read tiny_gguf)"
    by (simp add: tiny_gguf_parsed)
  ultimately have l: "vocab_load (\<lambda>_. 0) (\<lambda>_. 0) isort_by (Some ?d) = Ret (Some (index_vocab isort_by (gguf_read tiny_gguf)))"
    by (simp add: vocab_load_def)
  have "vc_pieces (index_vocab isort_by (gguf_read tiny_gguf)) = vc_pieces (gguf_read tiny_gguf)"
    by (simp add: index_vocab_def Let_def)
  then show ?thesis using l vocab_load_ok[OF l isort_by_sound] by (simp add: tiny_gguf_pieces)
qed

end
