(* ===== verification/Detok.thy ===== *)
theory Detok
  imports BpeSpec VocabWrite
begin

text \<open>
  \<open>vocab_decode\<close> of \<open>inference/core/tokenizer.c\<close>: the text of token ids, in a buffer of \<open>max\<close>
  bytes, and the round trip with the byte-level encoder.
\<close>

subsection \<open>Decoding one piece\<close>

definition control_pieces :: "string list" where
  "control_pieces = [''<s>'', ''</s>'', ''<bos>'', ''<eos>'', ''<unk>'', ''<pad>'']"

definition is_byte_piece :: "string \<Rightarrow> bool" where
  "is_byte_piece pc \<longleftrightarrow> starts ''<0x'' pc \<and> length pc = 6 \<and> pc ! 5 = CHR ''>''"

definition hex_val :: "char \<Rightarrow> nat option" where
  "hex_val c =
     (let n = code c in
      if 48 \<le> n \<and> n \<le> 57 then Some (n - 48)
      else if 65 \<le> n \<and> n \<le> 70 then Some (n - 55)
      else if 97 \<le> n \<and> n \<le> 102 then Some (n - 87)
      else None)"

text \<open>\<open>sscanf("%2x")\<close> on the two characters before \<open>>\<close> (a sign or blank in front of a digit
  is as good as none; a lone sign or \<open>0x\<close> reads no more than its \<open>0\<close>). The value is the byte
  stored.\<close>

definition scan_hex2 :: "char \<Rightarrow> char \<Rightarrow> nat option" where
  "scan_hex2 a b =
     (case hex_val a of
        Some x \<Rightarrow> (case hex_val b of Some y \<Rightarrow> Some (16 * x + y) | None \<Rightarrow> Some x)
      | None \<Rightarrow>
          if is_space a \<or> a = CHR ''+'' then hex_val b
          else if a = CHR ''-'' then map_option (\<lambda>y. (256 - y) mod 256) (hex_val b)
          else None)"

text \<open>The byte a two-byte character of a byte-level piece stands for; the characters above
  \<open>U+0143\<close>, which no byte maps to, are cut to their low byte.\<close>

definition bl_pair :: "char \<Rightarrow> char \<Rightarrow> char option" where
  "bl_pair c d =
     (let cp = code c mod 32 * 64 + code d mod 64 in
      if 256 \<le> cp \<and> cp \<le> 323 then
        Some (char_of (if cp \<le> 288 then cp - 256 else if cp \<le> 321 then 127 + (cp - 289) else if cp = 322 then 160 else 173))
      else if 161 \<le> cp \<and> cp \<le> 172 \<or> 174 \<le> cp then Some (char_of (cp mod 256))
      else None)"

text \<open>The two copying loops; both leave room for the terminator (\<open>o < max - 1\<close>).\<close>

fun bl_copy :: "nat \<Rightarrow> string \<Rightarrow> string \<Rightarrow> string" where
  "bl_copy mx out [] = out"
| "bl_copy mx out (c # s) =
     (if length out + 1 < mx then
        if 194 \<le> code c \<and> code c < 224 \<and> s \<noteq> [] then
          (case bl_pair c (hd s) of
             Some x \<Rightarrow> bl_copy mx (out @ [x]) (tl s)
           | None \<Rightarrow> bl_copy mx (out @ [c]) s)
        else bl_copy mx (out @ [c]) s
      else out)"

fun sp_copy :: "nat \<Rightarrow> string \<Rightarrow> string \<Rightarrow> string" where
  "sp_copy mx out [] = out"
| "sp_copy mx out (c # s) =
     (if length out + 1 < mx then
        if starts spc_mark (c # s) then sp_copy mx (out @ [SP]) (drop 2 s)
        else sp_copy mx (out @ [c]) s
      else out)"

definition decode_piece :: "vocab \<Rightarrow> nat \<Rightarrow> string \<Rightarrow> string \<Rightarrow> string" where
  "decode_piece v mx pc out =
     (if pc \<in> set control_pieces then out
      else if is_byte_piece pc then
        (case scan_hex2 (pc ! 3) (pc ! 4) of
           Some b \<Rightarrow> if length out < mx then out @ [char_of b] else out
         | None \<Rightarrow> out)
      else if vc_byte_level v then bl_copy mx out pc
      else sp_copy mx out pc)"

fun decode_loop :: "vocab \<Rightarrow> nat \<Rightarrow> nat list \<Rightarrow> string \<Rightarrow> string" where
  "decode_loop v mx [] out = out"
| "decode_loop v mx (i # ids) out =
     decode_loop v mx ids (if i \<ge> vc_n v then out else decode_piece v mx (vc_pieces v ! i) out)"

text \<open>The terminator is written behind the text, outside the buffer when byte tokens filled it.\<close>

definition vocab_decode :: "vocab \<Rightarrow> nat list \<Rightarrow> nat \<Rightarrow> string run" where
  "vocab_decode v ids mx = (let out = decode_loop v mx ids [] in if length out < mx then Ret out else Fault)"

subsection \<open>The text of a token, without a buffer\<close>

fun bl_text :: "string \<Rightarrow> string" where
  "bl_text [] = []"
| "bl_text (c # s) =
     (if 194 \<le> code c \<and> code c < 224 \<and> s \<noteq> [] then
        (case bl_pair c (hd s) of Some x \<Rightarrow> x # bl_text (tl s) | None \<Rightarrow> c # bl_text s)
      else c # bl_text s)"

fun sp_text :: "string \<Rightarrow> string" where
  "sp_text [] = []"
| "sp_text (c # s) = (if starts spc_mark (c # s) then SP # sp_text (drop 2 s) else c # sp_text s)"

definition piece_text :: "vocab \<Rightarrow> string \<Rightarrow> string" where
  "piece_text v pc =
     (if pc \<in> set control_pieces then []
      else if is_byte_piece pc then (case scan_hex2 (pc ! 3) (pc ! 4) of Some b \<Rightarrow> [char_of b] | None \<Rightarrow> [])
      else if vc_byte_level v then bl_text pc
      else sp_text pc)"

definition token_text :: "vocab \<Rightarrow> nat \<Rightarrow> string" where
  "token_text v i = (if i \<ge> vc_n v then [] else piece_text v (vc_pieces v ! i))"

lemma bl_copy_text: "length out + length (bl_text s) < mx \<Longrightarrow> bl_copy mx out s = out @ bl_text s"
  by (induction mx out s rule: bl_copy.induct) (auto split: option.splits)

lemma sp_copy_text: "length out + length (sp_text s) < mx \<Longrightarrow> sp_copy mx out s = out @ sp_text s"
  by (induction mx out s rule: sp_copy.induct) auto

lemma decode_piece_text:
  "length out + length (piece_text v pc) < mx \<Longrightarrow> decode_piece v mx pc out = out @ piece_text v pc"
  by (auto simp: decode_piece_def piece_text_def bl_copy_text sp_copy_text split: option.splits)

lemma decode_loop_text:
  "length out + length (concat (map (token_text v) ids)) < mx \<Longrightarrow>
    decode_loop v mx ids out = out @ concat (map (token_text v) ids)"
  by (induction ids arbitrary: out) (auto simp: token_text_def decode_piece_text)

lemma decode_text:
  "length (concat (map (token_text v) ids)) < mx \<Longrightarrow> vocab_decode v ids mx = Ret (concat (map (token_text v) ids))"
  using decode_loop_text[of "[]" v ids mx] by (simp add: vocab_decode_def)

subsection \<open>Texts of byte-level pieces\<close>

text \<open>A piece whose text does not depend on what follows it.\<close>

definition whole :: "string \<Rightarrow> bool" where
  "whole p \<longleftrightarrow> (\<forall>s. bl_text (p @ s) = bl_text p @ bl_text s)"

lemma whole_append: "whole p \<Longrightarrow> whole q \<Longrightarrow> whole (p @ q)"
  by (simp add: whole_def)

lemma bl_text_append: "whole p \<Longrightarrow> bl_text (p @ s) = bl_text p @ bl_text s"
  by (simp add: whole_def)

definition no_lead :: "char \<Rightarrow> bool" where
  "no_lead c \<longleftrightarrow> \<not> (192 \<le> code c \<and> code c < 224)"

lemma bl_text_no_lead: "\<forall>c\<in>set p. no_lead c \<Longrightarrow> bl_text (p @ s) = p @ bl_text s"
  by (induction p) (auto simp: no_lead_def)

lemma whole_no_lead: "\<forall>c\<in>set p. no_lead c \<Longrightarrow> whole p \<and> bl_text p = p"
  using bl_text_no_lead[of p] bl_text_no_lead[of p "[]"] by (simp add: whole_def)

lemma gpt2_units:
  "\<forall>b\<in>set [0..<256]. (\<exists>c. gpt2_byte_str b = [c] \<and> code c < 128 \<and> c = char_of b)
    \<or> (\<exists>c d. gpt2_byte_str b = [c, d] \<and> 194 \<le> code c \<and> code c < 224 \<and> bl_pair c d = Some (char_of b))"
proof
  fix b :: nat assume "b \<in> set [0..<256]"
  then have b: "b < 256" by simp
  let ?cp = "gpt2_code_point b"
  have cp: "?cp < 324" "?cp < 128 \<Longrightarrow> ?cp = b" "128 \<le> ?cp \<Longrightarrow> 161 \<le> ?cp"
    using b by (auto simp: gpt2_code_point_def tiktoken_special_def)
  show "(\<exists>c. gpt2_byte_str b = [c] \<and> code c < 128 \<and> c = char_of b)
    \<or> (\<exists>c d. gpt2_byte_str b = [c, d] \<and> 194 \<le> code c \<and> code c < 224 \<and> bl_pair c d = Some (char_of b))"
  proof (cases "?cp < 128")
    case True
    then show ?thesis using cp(2) b by (simp add: gpt2_byte_str_def Let_def)
  next
    case False
    have hi: "2 \<le> ?cp div 64" "?cp div 64 < 6" using False cp(1) by linarith+
    have c: "code (char_of (192 + ?cp div 64)) = 192 + ?cp div 64" "code (char_of (128 + ?cp mod 64)) = 128 + ?cp mod 64"
      using hi by simp_all
    have "(192 + q) mod 32 = q" "(128 + r) mod 64 = r mod 64" if "q < 6" for q r :: nat
      using that mod_mult_self2[of q 32 6] mod_mult_self2[of r 64 2] by (simp_all add: add.commute)
    then have "(192 + ?cp div 64) mod 32 = ?cp div 64" "(128 + ?cp mod 64) mod 64 = ?cp mod 64"
      using hi(2) by (simp, metis mod_mod_trivial zero_less_numeral)
    then have pt: "code (char_of (192 + ?cp div 64)) mod 32 * 64 + code (char_of (128 + ?cp mod 64)) mod 64 = ?cp"
      unfolding c by simp
    have "bl_pair (char_of (192 + ?cp div 64)) (char_of (128 + ?cp mod 64)) = Some (char_of b)"
      unfolding bl_pair_def pt Let_def using b False
      by (auto simp: gpt2_code_point_def tiktoken_special_def split: if_splits)
    then show ?thesis using hi c(1) False cp(1) by (simp add: gpt2_byte_str_def Let_def)
  qed
qed

lemma gpt2_unit:
  assumes "b < 256"
  shows "whole (gpt2_byte_str b) \<and> bl_text (gpt2_byte_str b) = [char_of b]"
proof -
  have "b \<in> set [0..<256]" using assms by simp
  from gpt2_units[rule_format, OF this] show ?thesis
    by (elim disjE exE conjE) (simp_all add: whole_def)
qed

lemma specials_ascii: "\<forall>sp\<in>set k_qwen_specials. \<forall>c\<in>set sp. code c < 128"
  by (simp add: k_qwen_specials_def code_def)

lemma special_len_eq:
  assumes "sorted_ok v" "vocab_bsearch_sorted v sp = Some sid" "starts sp t" "sp \<noteq> []"
  shows "nsp = length sp \<or> nsp = 0 \<and> sp \<in> set sps \<Longrightarrow> special_len v t sid nsp sps = length sp"
proof (induction sps arbitrary: nsp)
  case (Cons q sps)
  let ?n = "if length q > nsp \<and> starts q t \<and> vocab_bsearch_sorted v q = Some sid then length q else nsp"
  have q: "q = sp" if "vocab_bsearch_sorted v q = Some sid"
    using bsearch.hit[OF assms(1) that] bsearch.hit[OF assms(1,2)] by simp
  have "?n = length sp \<or> ?n = 0 \<and> sp \<in> set sps"
  proof (cases "vocab_bsearch_sorted v q = Some sid")
    case True
    then show ?thesis using q[OF True] Cons.prems assms(3,4) by auto
  next
    case False
    then have "q \<noteq> sp" using assms(2) by blast
    then show ?thesis using False Cons.prems by auto
  qed
  from Cons.IH[OF this] show ?case by simp
qed simp

subsection \<open>The byte-level round trip\<close>

definition all_whole :: "vocab \<Rightarrow> nat list \<Rightarrow> bool" where
  "all_whole v syms \<longleftrightarrow> (\<forall>s\<in>set syms. whole (vc_pieces v ! s))"

abbreviation bl_texts :: "vocab \<Rightarrow> nat list \<Rightarrow> string" where
  "bl_texts v syms \<equiv> concat (map (\<lambda>s. bl_text (vc_pieces v ! s)) syms)"

lemma bl_texts_pieces: "all_whole v syms \<Longrightarrow> bl_text (pieces_of v syms) = bl_texts v syms"
  by (induction syms) (auto simp: all_whole_def bl_text_append)

text \<open>A text whose bytes all have a piece, without the two-byte characters (see below).\<close>

definition bl_encodable :: "vocab \<Rightarrow> string \<Rightarrow> bool" where
  "bl_encodable v t \<longleftrightarrow> (\<forall>c\<in>set t. no_lead c \<and> gpt2_byte_str (code c) \<in> set (vc_pieces v))"

lemma merges_init_text:
  assumes "vocab_ok v" "vc_byte_level v"
  shows "bl_encodable v t \<Longrightarrow> length syms + length t \<le> mx \<Longrightarrow> all_whole v syms \<Longrightarrow>
    all_whole v (merges_init v mx t syms) \<and> bl_texts v (merges_init v mx t syms) = bl_texts v syms @ t"
proof (induction "length t" arbitrary: t syms rule: less_induct)
  case less
  have s: "sorted_ok v" using assms(1) by (simp add: vocab_ok_def)
  show ?case
  proof (cases t)
    case (Cons c rest)
    have enc: "bl_encodable v (drop n t)" for n using less.prems(1) by (auto simp: bl_encodable_def dest: in_set_dropD)
    have go: "all_whole v (merges_init v mx (drop n t) (push mx x syms))
        \<and> bl_texts v (merges_init v mx (drop n t) (push mx x syms)) = bl_texts v syms @ t"
      if "0 < n" "n \<le> length t" "whole (vc_pieces v ! x)" "bl_text (vc_pieces v ! x) = take n t" for n x
    proof -
      have p: "push mx x syms = syms @ [x]" using less.prems(2) Cons by (simp add: push_def)
      have l: "length (drop n t) < length t" "length (syms @ [x]) + length (drop n t) \<le> mx"
        using that(1,2) less.prems(2) by simp_all
      have w: "all_whole v (syms @ [x])" using less.prems(3) that(3) by (simp add: all_whole_def)
      show ?thesis unfolding p using less.hyps[OF l(1) enc l(2) w] that(4) by simp
    qed
    show ?thesis
    proof (cases "special_token_id v t")
      case (Some sid)
      let ?p = "vc_pieces v ! sid"
      note sp = special_token[OF s Some]
      have n: "special_len v t sid 0 k_qwen_specials = length ?p"
        using sp by (intro special_len_eq[OF s]) auto
      have e: "merges_init v mx t syms = merges_init v mx (drop (length ?p) t) (push mx sid syms)"
        using Some sp n by (subst merges_init.simps) (simp add: Cons Let_def)
      have "\<forall>c\<in>set ?p. no_lead c" using specials_ascii sp by (fastforce simp: no_lead_def)
      then have w: "whole ?p \<and> bl_text ?p = ?p" by (rule whole_no_lead)
      have "?p = take (length ?p) t" using sp by (auto simp: starts_def)
      moreover have "length ?p \<le> length t" using sp by (auto simp: starts_iff)
      ultimately show ?thesis unfolding e using sp w by (intro go) auto
    next
      case None
      let ?k = "min (utf8_clen c) (length t)"
      let ?hit = "if ?k > 1 then vocab_bsearch_sorted v (take ?k t) else None"
      show ?thesis
      proof (cases ?hit)
        case (Some i)
        have e: "merges_init v mx t syms = merges_init v mx (drop ?k t) (push mx i syms)"
          using None Some by (subst merges_init.simps) (simp only: Cons list.case option.case Let_def)
        have k: "1 < ?k" "vc_pieces v ! i = take ?k t"
          using Some bsearch.hit[OF s, of "take ?k t" i] by (auto split: if_splits)
        have "\<forall>c\<in>set (take ?k t). no_lead c" using less.prems(1) by (auto simp: bl_encodable_def dest: in_set_takeD)
        then have w: "whole (take ?k t) \<and> bl_text (take ?k t) = take ?k t" by (rule whole_no_lead)
        show ?thesis unfolding e using k w by (intro go) auto
      next
        case hit: None
        let ?s = "gpt2_byte_str (code c)"
        have "?s \<in> set (vc_pieces v)" using less.prems(1) Cons by (simp add: bl_encodable_def)
        then obtain i where i: "vocab_bsearch_sorted v ?s = Some i" "vc_pieces v ! i = ?s"
          using bsearch.piece_found[OF s] by blast
        then have b: "vc_byte_ids v ! code c = int i" using byte_id_eq[OF assms, of c] by simp
        have e: "merges_init v mx t syms = merges_init v mx (drop 1 t) (push mx i syms)"
          using None hit b by (subst merges_init.simps) (simp only: Cons list.case option.case Let_def, simp)
        show ?thesis unfolding e using i(2) gpt2_unit[of "code c"] Cons by (intro go) auto
      qed
    qed
  qed (use less.prems in \<open>simp add: merges_init.simps\<close>)
qed

lemma byte_encode_form:
  assumes "vocab_ok v" "vc_byte_level v"
  shows "vocab_encode v t mx = merge_loop (best_rank_pair v) mx (merges_init v mx t [])"
  using assms encode_merges_form[OF assms] by (auto simp: vocab_encode_def vocab_ok_def)

lemma merge_loop_bl_texts:
  assumes "vocab_ok v" "all_whole v syms"
  shows "bl_texts v (merge_loop (best_rank_pair v) mx syms) = bl_texts v syms"
proof -
  have "all_whole v (merge_loop (best_rank_pair v) mx syms)"
    using by_rank.merge_loop_pieces[OF assms(1), of syms whole mx] assms(2) whole_append by (simp add: all_whole_def)
  from bl_texts_pieces[OF this] show ?thesis
    using bl_texts_pieces[OF assms(2)] by_rank.merge_loop_text[OF assms(1), of mx syms] by simp
qed

text \<open>C18: Byte-level BPE is lossless: a text whose bytes all have a token decodes from its encoding
  to itself, special tokens, multi-byte characters and any merges included, as long as the room
  for ids is not short and no token of the encoding is one \<open>vocab_decode\<close> skips or reads as a
  byte. The text must be free of two-byte UTF-8 characters, which this encoder confuses with the
  bytes of its alphabet.\<close>

theorem bpe_roundtrip:
  assumes "vocab_ok v" "vc_byte_level v" "bl_encodable v t" "length t \<le> mx" "length t < n"
    and "\<forall>i\<in>set (vocab_encode v t mx). vc_pieces v ! i \<notin> set control_pieces \<and> \<not> is_byte_piece (vc_pieces v ! i)"
  shows "vocab_decode v (vocab_encode v t mx) n = Ret t"
proof -
  let ?ids = "vocab_encode v t mx"
  have init: "all_whole v (merges_init v mx t [])" "bl_texts v (merges_init v mx t []) = t"
    using merges_init_text[OF assms(1,2,3), of "[]" mx] assms(4) by (simp_all add: all_whole_def)
  have "bl_texts v ?ids = t"
    unfolding byte_encode_form[OF assms(1,2)] merge_loop_bl_texts[OF assms(1) init(1)] by (rule init(2))
  moreover have "token_text v i = bl_text (vc_pieces v ! i)" if "i \<in> set ?ids" for i
    using that assms(2,6) encode_tokens[OF assms(1), of t mx] by (auto simp: token_text_def piece_text_def tokens_ok_def)
  then have "concat (map (token_text v) ?ids) = bl_texts v ?ids"
    by (intro arg_cong[where f = concat] map_cong refl)
  ultimately have "concat (map (token_text v) ?ids) = t" by simp
  then show ?thesis using decode_text[of v ?ids n] assms(5) by simp
qed

text \<open>A vocabulary with the pieces \<open>b\<close>, \<open>ab\<close> and \<open>a\<close> and the merge of \<open>a\<close> and \<open>b\<close>.\<close>

definition ab_raw :: vocab where
  "ab_raw = vocab_zero\<lparr>vc_unk := -1, vc_pieces := [''b'', ''ab'', ''a''], vc_raw := [(''a'', ''b'')]\<rparr>"

definition ab_vocab :: vocab where
  "ab_vocab = index_vocab isort_by ab_raw"

lemma ab_vocab_ok: "vocab_ok ab_vocab" "vc_pieces ab_vocab = [''b'', ''ab'', ''a'']"
  using index_vocab_ok[OF isort_by_sound, of ab_raw] by (simp_all add: ab_vocab_def ab_raw_def raw_inv_def vocab_zero_def)

lemma ab_vocab_sel:
  "vc_byte_level ab_vocab" "vc_sorted ab_vocab = [2, 1, 0]" "vc_merges ab_vocab = [\<lparr>mg_l = 2, mg_r = 0, mg_id = 1, mg_rank = 0\<rparr>]"
proof -
  let ?v = "ab_raw\<lparr>vc_order := isort_by (order_compare (vc_pieces ab_raw)) [0..<vc_n ab_raw],
               vc_sorted := isort_by (dict_compare (vc_pieces ab_raw)) [0..<vc_n ab_raw]\<rparr>"
  have r: "sort_merges isort_by (resolve_merges ?v 0 (vc_raw ?v)) = [\<lparr>mg_l = 2, mg_r = 0, mg_id = 1, mg_rank = 0\<rparr>]"
    by code_simp
  have s: "vc_sorted ?v = [2, 1, 0]" "vc_raw ?v \<noteq> []" "vc_scores ?v = []" by code_simp+
  show "vc_byte_level ab_vocab" "vc_sorted ab_vocab = [2, 1, 0]"
    "vc_merges ab_vocab = [\<lparr>mg_l = 2, mg_r = 0, mg_id = 1, mg_rank = 0\<rparr>]"
    unfolding ab_vocab_def index_vocab_def Let_def using r s by simp_all
qed

lemma gpt2_ab: "gpt2_byte_str 97 = ''a''" "gpt2_byte_str 98 = ''b''"
  by code_simp+

lemma ab_encodable: "set t \<subseteq> {CHR ''a'', CHR ''b''} \<Longrightarrow> bl_encodable ab_vocab t"
  using gpt2_ab by (auto simp: bl_encodable_def no_lead_def ab_vocab_ok code_def)

lemma ab_plain:
  assumes "i \<in> set (vocab_encode ab_vocab t mx)"
  shows "vc_pieces ab_vocab ! i \<notin> set control_pieces \<and> \<not> is_byte_piece (vc_pieces ab_vocab ! i)"
proof -
  have "i < vc_n ab_vocab" using assms encode_tokens[OF ab_vocab_ok(1), of t mx] by (simp add: tokens_ok_def)
  then have "vc_pieces ab_vocab ! i \<in> {''b'', ''ab'', ''a''}" using nth_mem[of i "vc_pieces ab_vocab"] by (simp add: ab_vocab_ok(2))
  then show ?thesis by (auto simp: control_pieces_def is_byte_piece_def)
qed

theorem bpe_roundtrip_witness: "vocab_decode ab_vocab (vocab_encode ab_vocab ''babab'' 4096) 32 = Ret ''babab''"
  using ab_plain by (intro bpe_roundtrip ab_vocab_ok ab_vocab_sel ab_encodable) auto

lemma special_starts: "\<forall>sp\<in>set k_qwen_specials. \<exists>r. sp = CHR ''<'' # r"
  by (simp add: k_qwen_specials_def)

lemma no_special:
  assumes "sorted_ok v" "c \<noteq> CHR ''<''"
  shows "special_token_id v (c # t) = None"
proof (rule ccontr)
  assume "special_token_id v (c # t) \<noteq> None"
  then obtain i where i: "special_token_id v (c # t) = Some i" by auto
  from special_token[OF assms(1) i] special_starts show False
    using assms(2) by (auto simp: starts_iff)
qed

text \<open>The direct hit on a multi-byte character, meant for characters that have a token of their
  own, confuses the two-byte characters with the byte alphabet: the piece of a byte above
  \<open>U+00A0\<close> (or of an unprintable byte) is the UTF-8 form of another character, so a text of that
  one character becomes the token of the byte, and decodes to the single byte. The letter
  \<open>U+00E9\<close> (bytes \<open>C3 A9\<close>) becomes the token of the byte \<open>E9\<close>.\<close>

theorem two_byte_char_confused:
  assumes "vocab_ok v" "vc_byte_level v" "b < 256" "tiktoken_special b \<or> 160 < b"
    and "gpt2_byte_str b \<in> set (vc_pieces v)" "2 \<le> mx" "2 \<le> n"
  shows "\<exists>i. vocab_encode v (gpt2_byte_str b) mx = [i] \<and> vc_pieces v ! i = gpt2_byte_str b
    \<and> vocab_decode v [i] n = Ret [char_of b] \<and> length (gpt2_byte_str b) = 2"
proof -
  have s: "sorted_ok v" using assms(1) by (simp add: vocab_ok_def)
  have "128 \<le> gpt2_code_point b" using assms(3,4) by (auto simp: gpt2_code_point_def tiktoken_special_def)
  moreover have "gpt2_code_point b < 2048" using assms(3) by (auto simp: gpt2_code_point_def)
  ultimately have two: "length (gpt2_byte_str b) = 2" by (simp add: gpt2_byte_str_def Let_def)
  then obtain c d where cd: "gpt2_byte_str b = [c, d]" "194 \<le> code c" "code c < 224"
    using gpt2_units[rule_format, of b] assms(3) by auto
  obtain i where i: "vocab_bsearch_sorted v [c, d] = Some i" "i < vc_n v" "vc_pieces v ! i = [c, d]"
    using bsearch.piece_found[OF s assms(5)] unfolding cd(1) .
  have lt: "c \<noteq> CHR ''<''" using cd(2) by (auto simp: code_def)
  have cl: "utf8_clen c = 2" using cd(2,3) by (simp add: utf8_clen_def)
  have init: "merges_init v mx [c, d] [] = [i]"
    using no_special[OF s lt, of "[d]"] cl i(1) assms(6)
    by (subst merges_init.simps) (simp add: push_def merges_init.simps)
  have "best_rank_pair v [i] = None" by (simp add: best_rank_pair_def)
  then have enc: "vocab_encode v [c, d] mx = [i]"
    unfolding byte_encode_form[OF assms(1,2)] init by (intro by_rank.merge_stop) simp
  have "token_text v i = [char_of b]"
    using i gpt2_unit[OF assms(3)] cd(1) assms(2) lt
    by (auto simp: token_text_def piece_text_def control_pieces_def is_byte_piece_def)
  then have "vocab_decode v [i] n = Ret [char_of b]" using decode_text[of v "[i]" n] assms(7) by simp
  then show ?thesis using enc i(3) two cd(1) by auto
qed

text \<open>A vocabulary that also has the piece of the byte \<open>E9\<close>.\<close>

definition e9_raw :: vocab where
  "e9_raw = vocab_zero\<lparr>vc_unk := -1, vc_pieces := [''b'', ''ab'', ''a'', gpt2_byte_str 233], vc_raw := [(''a'', ''b'')]\<rparr>"

lemma e9_vocab:
  "vocab_ok (index_vocab isort_by e9_raw)" "vc_byte_level (index_vocab isort_by e9_raw)"
  "gpt2_byte_str 233 \<in> set (vc_pieces (index_vocab isort_by e9_raw))"
proof -
  show "vocab_ok (index_vocab isort_by e9_raw)" "gpt2_byte_str 233 \<in> set (vc_pieces (index_vocab isort_by e9_raw))"
    using index_vocab_ok[OF isort_by_sound, of e9_raw] by (simp_all add: e9_raw_def raw_inv_def vocab_zero_def)
  let ?v = "e9_raw\<lparr>vc_order := isort_by (order_compare (vc_pieces e9_raw)) [0..<vc_n e9_raw],
               vc_sorted := isort_by (dict_compare (vc_pieces e9_raw)) [0..<vc_n e9_raw]\<rparr>"
  have r: "sort_merges isort_by (resolve_merges ?v 0 (vc_raw ?v)) = [\<lparr>mg_l = 2, mg_r = 0, mg_id = 1, mg_rank = 0\<rparr>]"
    by code_simp
  have s: "vc_raw ?v \<noteq> []" "vc_scores ?v = []" by code_simp+
  show "vc_byte_level (index_vocab isort_by e9_raw)" unfolding index_vocab_def Let_def using r s by simp
qed

theorem two_byte_char_confused_witness:
  "\<exists>i. vocab_encode (index_vocab isort_by e9_raw) (gpt2_byte_str 233) 4096 = [i]
     \<and> vc_pieces (index_vocab isort_by e9_raw) ! i = gpt2_byte_str 233
     \<and> vocab_decode (index_vocab isort_by e9_raw) [i] 32 = Ret [CHR 0xE9] \<and> length (gpt2_byte_str 233) = 2"
proof -
  have "(char_of (233 :: nat) :: char) = CHR 0xE9" by code_simp
  then show ?thesis
    using two_byte_char_confused[OF e9_vocab(1,2) _ _ e9_vocab(3), of 4096 32] by simp
qed

subsection \<open>Ids, the choice of merges and long texts\<close>

text \<open>C40: Whatever the vocabulary, its kind and the text: every id an encoder stores is a token of the
  vocabulary and never more than \<open>max\<close> ids are stored, so \<open>pieces[id]\<close> and the caller's array are
  never accessed outside.\<close>

theorem encode_well_typed:
  assumes "vocab_ok v"
  shows "length (vocab_encode v t mx) \<le> mx \<and> (\<forall>i\<in>set (vocab_encode v t mx). i < vc_n v)"
  using encode_tokens[OF assms, of t mx] by (simp add: tokens_ok_def)

theorem encode_well_typed_witness:
  "length (vocab_encode ab_vocab ''abc'' 2) \<le> 2 \<and> set (vocab_encode ab_vocab ''abc'' 2) \<subseteq> {..<3}"
proof -
  have "vc_n ab_vocab = 3" by (simp add: ab_vocab_ok(2))
  then show ?thesis using encode_well_typed[OF ab_vocab_ok(1), of "''abc''" 2] by auto
qed

text \<open>C32: The choice of the next merge, one scan with a bisection per pair, is equivalent to its
  reference: of all places of the symbols where some merge of the table applies, the one of least
  rank, the leftmost of these. This holds as it stands when no pair occurs twice in the table of
  merges, which loading a vocabulary does not check; in general a pair counts with the first of
  its entries in the sorted table, whatever the ranks of the others.\<close>

theorem next_merge_equivalence:
  assumes "vocab_ok v"
  shows "best_rank_pair v syms = best_pair_ref (v\<lparr>vc_merges := first_entries (vc_merges v)\<rparr>) syms \<and>
    (distinct (map (\<lambda>m. (mg_l m, mg_r m)) (vc_merges v)) \<longrightarrow> best_rank_pair v syms = best_pair_ref v syms)"
  using best_rank_first[OF assms, of syms] first_entries_same[of "vc_merges v"] by simp

theorem next_merge_equivalence_witness:
  "best_rank_pair ab_vocab [0, 2, 0, 2, 0] = best_pair_ref ab_vocab [0, 2, 0, 2, 0]"
  using conjunct2[OF next_merge_equivalence[OF ab_vocab_ok(1), of "[0, 2, 0, 2, 0]"]] by (simp add: ab_vocab_sel)

definition byte_token :: "vocab \<Rightarrow> char \<Rightarrow> nat" where
  "byte_token v c = the (vocab_bsearch_sorted v (gpt2_byte_str (code c)))"

text \<open>A text of ASCII characters that start no special token and have a byte token each.\<close>

definition plain_bytes :: "vocab \<Rightarrow> string \<Rightarrow> bool" where
  "plain_bytes v t \<longleftrightarrow> (\<forall>c\<in>set t. code c < 128 \<and> c \<noteq> CHR ''<'' \<and> gpt2_byte_str (code c) \<in> set (vc_pieces v))"

lemma merges_init_plain:
  assumes "vocab_ok v" "vc_byte_level v"
  shows "plain_bytes v t \<Longrightarrow> length syms \<le> mx \<Longrightarrow> merges_init v mx t syms = take mx (syms @ map (byte_token v) t)"
proof (induction t arbitrary: syms)
  case (Cons c t)
  have s: "sorted_ok v" using assms(1) by (simp add: vocab_ok_def)
  have c: "code c < 128" "c \<noteq> CHR ''<''" "gpt2_byte_str (code c) \<in> set (vc_pieces v)"
    using Cons.prems(1) by (simp_all add: plain_bytes_def)
  obtain i where i: "vocab_bsearch_sorted v (gpt2_byte_str (code c)) = Some i"
    using bsearch.piece_found[OF s c(3)] by blast
  then have b: "vc_byte_ids v ! code c = int i" "byte_token v c = i"
    using byte_id_eq[OF assms, of c] by (simp_all add: byte_token_def)
  have "utf8_clen c = 1" using c(1) by (simp add: utf8_clen_def)
  then have e: "merges_init v mx (c # t) syms = merges_init v mx t (push mx i syms)"
    using no_special[OF s c(2), of t] b(1) by (subst merges_init.simps) simp
  have "merges_init v mx t (push mx i syms) = take mx (push mx i syms @ map (byte_token v) t)"
    using Cons.prems by (intro Cons.IH) (simp_all add: plain_bytes_def push_def)
  moreover have "take mx (push mx i syms @ ys) = take mx (syms @ i # ys)" for ys
    using Cons.prems(2) by (cases "mx - length syms") (auto simp: push_def intro!: arg_cong[where f = "\<lambda>n. take n ys"])
  ultimately show ?case unfolding e by (simp add: b(2))
qed (simp add: merges_init.simps)

lemma byte_token_piece:
  assumes "sorted_ok v" "plain_bytes v t"
  shows "pieces_of v (map (byte_token v) t) = concat (map (\<lambda>c. gpt2_byte_str (code c)) t)"
  using assms(2)
proof (induction t)
  case (Cons c t)
  obtain i where "vocab_bsearch_sorted v (gpt2_byte_str (code c)) = Some i" "vc_pieces v ! i = gpt2_byte_str (code c)"
    using bsearch.piece_found[OF assms(1), of "gpt2_byte_str (code c)"] Cons.prems by (auto simp: plain_bytes_def)
  then show ?case using Cons by (simp add: byte_token_def plain_bytes_def)
qed simp

text \<open>A text with fewer than \<open>max\<close> bytes is merged completely: no merge applies to the result
  any more, and its pieces spell the text. A text of \<open>max\<close> bytes or more is not merged at all
  and cut: what is stored are the single-byte tokens of its first \<open>max\<close> bytes. (A chat message is
  encoded with room for 4096 ids.)\<close>

theorem long_text_unmerged:
  assumes "vocab_ok v" "vc_byte_level v" "plain_bytes v t"
  shows "(length t < mx \<longrightarrow> best_rank_pair v (vocab_encode v t mx) = None
        \<and> pieces_of v (vocab_encode v t mx) = concat (map (\<lambda>c. gpt2_byte_str (code c)) t))
    \<and> (mx \<le> length t \<longrightarrow> vocab_encode v t mx = map (byte_token v) (take mx t))"
proof -
  have init: "merges_init v mx t [] = take mx (map (byte_token v) t)"
    using merges_init_plain[OF assms, of "[]" mx] by simp
  note enc = byte_encode_form[OF assms(1,2), of t mx, unfolded init]
  have "vocab_encode v t mx = map (byte_token v) (take mx t)" if "mx \<le> length t"
    unfolding enc using that by (subst by_rank.merge_stop) (simp_all add: take_map)
  moreover have "best_rank_pair v (vocab_encode v t mx) = None" if "length t < mx"
    unfolding enc using that by (intro by_rank.merge_loop_normal[OF assms(1)]) simp
  moreover have "pieces_of v (vocab_encode v t mx) = concat (map (\<lambda>c. gpt2_byte_str (code c)) t)" if "length t < mx"
    unfolding enc by_rank.merge_loop_text[OF assms(1)]
    using that byte_token_piece[of v t] assms(1,3) by (simp add: vocab_ok_def)
  ultimately show ?thesis by blast
qed

theorem long_text_unmerged_witness:
  "vocab_encode ab_vocab ''ababab'' 4 = map (byte_token ab_vocab) ''abab''"
proof -
  have "plain_bytes ab_vocab ''ababab''" using gpt2_ab by (simp add: plain_bytes_def ab_vocab_ok code_def)
  from long_text_unmerged[OF ab_vocab_ok(1) ab_vocab_sel(1) this, of 4] show ?thesis by simp
qed

end
