(* ===== verification/ChatTpl.thy ===== *)
theory ChatTpl
  imports Bpe Wire
begin

text \<open>
  The chat templates of \<open>inference/core/tokenizer.c\<close>: the evaluator of expressions and conditions,
  the parser that cuts a template into statements, the stack machine that runs them for every
  message, and the built-in renderings used for templates it does not support. A message is the
  pair of its role and its content. Buffers: \<open>out[4096]\<close> for an expression, \<open>tmp[4096]\<close> ids per
  encoded text, \<open>stmts[128]\<close>, \<open>stk[16]\<close>; writing outside one is \<open>Fault\<close>.
\<close>

type_synonym chat_msg = "string \<times> string"

subsection \<open>Expressions\<close>

definition EXPR_MAX :: nat where "EXPR_MAX = 4096"

text \<open>A string literal is copied without regard to the room left.\<close>

fun lit_copy :: "string \<Rightarrow> string \<times> string" where
  "lit_copy [] = ([], [])"
| "lit_copy (c # p) =
     (if c = SQ then ([], p)
      else if c = BSL \<and> p \<noteq> [] \<and> hd p = CHR ''n'' then (case lit_copy (tl p) of (l, r) \<Rightarrow> (LF # l, r))
      else if c = BSL \<and> p \<noteq> [] \<and> hd p = CHR ''t'' then (case lit_copy (tl p) of (l, r) \<Rightarrow> (TAB # l, r))
      else (case lit_copy p of (l, r) \<Rightarrow> (c # l, r)))"

definition room_copy :: "string \<Rightarrow> string \<Rightarrow> string" where
  "room_copy out s = out @ take (EXPR_MAX - 1 - length out) s"

lemma lit_copy_length: "lit_copy p = (l, r) \<Longrightarrow> length r \<le> length p"
  by (induction p arbitrary: l r rule: lit_copy.induct) (fastforce split: if_splits prod.splits)+

text \<open>The words of an expression with what each stands for.\<close>

definition expr_words :: "string \<Rightarrow> string \<Rightarrow> chat_msg \<Rightarrow> (string \<times> string) list" where
  "expr_words eos_tok bos_tok m =
     [(''message.role'', fst m), (''message.content'', snd m),
      (''message['' @ [SQ] @ ''role'' @ [SQ] @ '']'', fst m), (''message['' @ [SQ] @ ''content'' @ [SQ] @ '']'', snd m),
      (''eos_token'', eos_tok), (''bos_token'', bos_tok), (''loop.last'', [])]"

fun word_at :: "(string \<times> string) list \<Rightarrow> string \<Rightarrow> (string \<times> string) option" where
  "word_at [] p = None"
| "word_at ((k, x) # ws) p = (if starts k p then Some (k, x) else word_at ws p)"

lemma word_at_in: "word_at ws p = Some (k, x) \<Longrightarrow> (k, x) \<in> set ws \<and> starts k p"
  by (induction ws) (auto split: if_splits)

lemma expr_words_nonempty: "(k, x) \<in> set (expr_words e b m) \<Longrightarrow> k \<noteq> []"
  by (auto simp: expr_words_def)

function expr_loop :: "string \<Rightarrow> string \<Rightarrow> chat_msg \<Rightarrow> string \<Rightarrow> string \<Rightarrow> string" where
  "expr_loop eos_tok bos_tok m p out =
     (if p = [] \<or> length out + 1 \<ge> EXPR_MAX then out
      else if hd p = SQ then (case lit_copy (tl p) of (l, r) \<Rightarrow> expr_loop eos_tok bos_tok m r (out @ l))
      else case word_at (expr_words eos_tok bos_tok m) p of
        Some (k, x) \<Rightarrow> expr_loop eos_tok bos_tok m (drop (length k) p) (room_copy out x)
      | None \<Rightarrow> expr_loop eos_tok bos_tok m (tl p) out)"
  by pat_completeness auto
termination
proof (relation "measure (\<lambda>(e, b, m, p, out). length p)", goal_cases)
  case 1
  show ?case by simp
next
  case (2 eos_tok bos_tok m p out l r)
  then have "length r \<le> length (tl p)" by (metis lit_copy_length)
  with 2 show ?case by (cases p) auto
next
  case (3 eos_tok bos_tok m p out)
  then show ?case by (cases p) auto
next
  case (4 eos_tok bos_tok m p out kx k x)
  then have "word_at (expr_words eos_tok bos_tok m) p = Some (k, x)" by simp
  then have "k \<noteq> []" by (metis word_at_in expr_words_nonempty)
  with 4 show ?case by (cases p) auto
qed

declare expr_loop.simps [simp del]

definition special_text_of :: "vocab \<Rightarrow> int \<Rightarrow> string" where
  "special_text_of v i = (if i \<ge> 0 \<and> i < int (vc_n v) then vc_pieces v ! nat i else [])"

definition chat_eval_expr :: "vocab \<Rightarrow> chat_msg \<Rightarrow> string \<Rightarrow> string run" where
  "chat_eval_expr v m e =
     (let out = expr_loop (special_text_of v (vc_eos v)) (special_text_of v (vc_bos v)) m e [] in
      if length out < EXPR_MAX then Ret out else Fault)"

subsection \<open>Conditions\<close>

definition chat_clause_true :: "string \<Rightarrow> chat_msg \<Rightarrow> bool" where
  "chat_clause_true cl m =
     (let c = dropWhile (\<lambda>x. x = SP \<or> x = CHR ''('' \<or> x = CHR '')'') cl in
      if starts ''True'' c then True
      else if starts ''add_generation_prompt'' c then True
      else if starts ''loop.first'' c then True
      else if starts ''not loop.first'' c then False
      else if starts ''tools'' c then False
      else if starts ''message.content'' c then snd m \<noteq> []
      else case strstr c ''=='' of
          None \<Rightarrow> False
        | Some eq \<Rightarrow>
          (case dropWhile (\<lambda>x. x \<noteq> SQ \<and> x \<noteq> DQ) eq of
             [] \<Rightarrow> False
           | q # rest \<Rightarrow> (if q \<in> set rest then takeWhile (\<lambda>x. x \<noteq> q) rest = fst m else False)))"

definition COND_MAX :: nat where "COND_MAX = 512"

lemma strstr_suffix: "strstr s k = Some t \<Longrightarrow> length t \<le> length s"
  by (induction s) (auto split: if_splits)

function chat_eval_cond :: "string \<Rightarrow> chat_msg \<Rightarrow> bool" where
  "chat_eval_cond p m =
     (if p = [] then False
      else case strstr p '' or '' of
          None \<Rightarrow> chat_clause_true (take (COND_MAX - 1) p) m
        | Some orp \<Rightarrow>
            chat_clause_true (take (COND_MAX - 1) (take (length p - length orp) p)) m \<or> chat_eval_cond (drop 4 orp) m)"
  by pat_completeness auto
termination
proof (relation "measure (\<lambda>(p, m). length p)", goal_cases)
  case 1
  show ?case by simp
next
  case (2 p m orp)
  then have "length orp \<le> length p" by (simp add: strstr_suffix)
  with 2(1) show ?case by (cases p) auto
qed

declare chat_eval_cond.simps [simp del]

subsection \<open>Adding the tokens of a text\<close>

definition ENC_MAX :: nat where "ENC_MAX = 4096"

definition chat_append_ids :: "vocab \<Rightarrow> nat \<Rightarrow> string \<Rightarrow> nat list \<Rightarrow> nat list" where
  "chat_append_ids v mx text ids = ids @ take (mx - length ids) (vocab_encode v text ENC_MAX)"

definition chat_specials :: "string list" where
  "chat_specials =
     [''<|tool_response>'', ''<tool_response|>'', ''<|tool_call>'', ''<tool_call|>'', ''<|turn>'', ''<turn|>'',
      ''<|think|>'', ''<|channel>'', ''<channel|>'', ''<|image>'', ''<image|>'',
      ''<|vision_start|>'', ''<|vision_end|>'', ''<|image_pad|>'', ''<image>'', ''</image>'',
      ''<slice>'', ''</slice>'', ''<|tool>'', ''<tool|>'', ''<think>'', ''</think>'',
      ''<bos>'', ''<eos>'', ''<pad>'', ''<unk>'']"

text \<open>The longest special text here; the empty text stands for length 0.\<close>

fun spec_scan :: "string \<Rightarrow> string \<Rightarrow> string list \<Rightarrow> string" where
  "spec_scan p w [] = w"
| "spec_scan p w (sp # sps) = spec_scan p (if length sp > length w \<and> starts sp p then sp else w) sps"

definition chat_spec_len_at :: "string \<Rightarrow> string" where
  "chat_spec_len_at p = spec_scan p [] chat_specials"

text \<open>The text up to the next special text.\<close>

fun chat_gap :: "string \<Rightarrow> string" where
  "chat_gap [] = []"
| "chat_gap (c # p) = (if chat_spec_len_at (c # p) = [] then c # chat_gap p else [])"

function chat_append_ids_specials :: "vocab \<Rightarrow> nat \<Rightarrow> string \<Rightarrow> nat list \<Rightarrow> nat list" where
  "chat_append_ids_specials v mx p ids =
     (if p = [] \<or> length ids \<ge> mx then ids
      else let sp = chat_spec_len_at p in
        if sp \<noteq> [] then
          chat_append_ids_specials v mx (drop (length sp) p)
            (case vocab_id v sp of Some i \<Rightarrow> ids @ [i] | None \<Rightarrow> ids)
        else let chunk = hd p # chat_gap (tl p) in
          chat_append_ids_specials v mx (drop (length chunk) p) (chat_append_ids v mx chunk ids))"
  by pat_completeness auto
termination
  by (relation "measure (\<lambda>(v, mx, p, ids). length p)") auto

declare chat_append_ids_specials.simps [simp del]

subsection \<open>The built-in renderings\<close>

definition chat_template_unsupported :: "string \<Rightarrow> bool" where
  "chat_template_unsupported tpl \<longleftrightarrow>
     (\<exists>k\<in>set [''macro'', ''namespace('', ''raise_exception'', ''[::-1]'', ''loop.previtem'', ''loop.nextitem''].
        strstr tpl k \<noteq> None)"

definition chat_vocab_has_token :: "vocab \<Rightarrow> string \<Rightarrow> bool" where
  "chat_vocab_has_token v s \<longleftrightarrow> vocab_bsearch_sorted v s \<noteq> None"

definition role_or_user :: "chat_msg \<Rightarrow> string" where
  "role_or_user m = (if fst m \<noteq> [] then fst m else ''user'')"

text \<open>The messages are rendered while there is room; \<open>f\<close> adds one of them.\<close>

fun while_room :: "nat \<Rightarrow> (chat_msg \<Rightarrow> nat list \<Rightarrow> nat list) \<Rightarrow> chat_msg list \<Rightarrow> nat list \<Rightarrow> nat list" where
  "while_room mx f [] ids = ids"
| "while_room mx f (m # ms) ids = (if length ids < mx then while_room mx f ms (f m ids) else ids)"

definition chat_render_generic :: "vocab \<Rightarrow> chat_msg list \<Rightarrow> nat \<Rightarrow> nat list \<Rightarrow> nat list" where
  "chat_render_generic v msgs mx ids =
     (let im = chat_vocab_has_token v ''<|im_start|>'' \<and> chat_vocab_has_token v ''<|im_end|>'';
          add = chat_append_ids v mx in
      if im then
        let ids = while_room mx (\<lambda>m ids.
              add (''<|im_end|>'' @ [LF]) (add (snd m) (add (snprintf_s 520 (''<|im_start|>'' @ role_or_user m @ [LF])) ids))) msgs ids;
            mcpv = chat_vocab_has_token v ''<image>'' \<and> chat_vocab_has_token v ''</image>'';
            ids = add (''<|im_start|>assistant'' @ [LF]) ids in
        if vc_think v = 1 \<or> vc_think v \<noteq> 0 \<and> \<not> mcpv \<and> chat_vocab_has_token v ''<think>''
        then add (''<think>'' @ [LF]) ids else ids
      else
        add ''assistant: '' (while_room mx (\<lambda>m ids. add [LF] (add (snd m) (add '': '' (add (role_or_user m) ids)))) msgs ids))"

definition chat_is_gemma4 :: "vocab \<Rightarrow> bool" where
  "chat_is_gemma4 v \<longleftrightarrow> chat_vocab_has_token v ''<|turn>'' \<and> chat_vocab_has_token v ''<turn|>''"

text \<open>The buffer is measured beforehand (32 bytes of slack per message, the fixed text of one is 16
  bytes at most), so nothing is cut.\<close>

definition gemma4_text :: "vocab \<Rightarrow> chat_msg list \<Rightarrow> string" where
  "gemma4_text v msgs =
     (if vc_think v = 1 then ''<|turn>system'' @ [LF] @ ''<|think|>'' @ [LF] @ ''<turn|>'' @ [LF] else [])
     @ concat (map (\<lambda>m. ''<|turn>'' @ (if role_or_user m = ''assistant'' then ''model'' else role_or_user m) @ [LF]
                       @ snd m @ ''<turn|>'' @ [LF]) msgs)
     @ ''<|turn>model'' @ [LF]"

definition chat_render_gemma4 :: "vocab \<Rightarrow> chat_msg list \<Rightarrow> nat \<Rightarrow> nat list \<Rightarrow> nat list" where
  "chat_render_gemma4 v msgs mx ids = chat_append_ids_specials v mx (gemma4_text v msgs) ids"

subsection \<open>The template as a list of statements\<close>

datatype tstmt = ST_FOR | ST_IF string | ST_ELIF string | ST_ENDIF | ST_END_FOR | ST_EXPR string | ST_IF_LAST

definition tpl_ws :: "char \<Rightarrow> bool" where
  "tpl_ws c \<longleftrightarrow> c = SP \<or> c = LF \<or> c = TAB"

definition tpl_trim :: "string \<Rightarrow> string" where
  "tpl_trim tmp =
     (let a = dropWhile tpl_ws tmp;
          b = dropWhile tpl_ws (if a \<noteq> [] \<and> hd a = CHR ''-'' then tl a else a) in
      rev (dropWhile (\<lambda>c. tpl_ws c \<or> c = CHR ''-'') (rev b)))"

definition tpl_block :: "string \<Rightarrow> tstmt option" where
  "tpl_block tmp =
     (let t2 = tpl_trim tmp in
      if starts ''for'' t2 then Some ST_FOR
      else if starts ''if loop.last'' t2 then Some ST_IF_LAST
      else if starts ''if'' t2 then Some (ST_IF (snprintf_s COND_MAX (drop 2 t2)))
      else if starts ''elif'' t2 then Some (ST_ELIF (snprintf_s COND_MAX (drop 4 t2)))
      else if starts ''else'' t2 then Some (ST_ELIF ''True'')
      else if starts ''endif'' t2 then Some ST_ENDIF
      else if starts ''endfor'' t2 then Some ST_END_FOR
      else None)"

definition STMTS_MAX :: nat where "STMTS_MAX = 128"
definition TEXPR_MAX :: nat where "TEXPR_MAX = 2048"

text \<open>What lies before the end mark \<open>e\<close>, cut to a buffer of \<open>n\<close> bytes.\<close>

definition block_text :: "nat \<Rightarrow> string \<Rightarrow> string \<Rightarrow> string" where
  "block_text n p e = take (n - 1) (take (length p - length e) p)"

function parse_stmts :: "nat \<Rightarrow> string \<Rightarrow> tstmt list" where
  "parse_stmts room p =
     (if p = [] \<or> room = 0 then []
      else if starts ''{%'' p then
        (case strstr (drop 2 p) ''%}'' of
           None \<Rightarrow> []
         | Some e \<Rightarrow>
           (case tpl_block (block_text COND_MAX (drop 2 p) e) of
              None \<Rightarrow> parse_stmts room (drop 2 e)
            | Some s \<Rightarrow> s # parse_stmts (room - 1) (drop 2 e)))
      else if starts ''{{'' p then
        (case strstr (drop 2 p) ''}}'' of
           None \<Rightarrow> []
         | Some e \<Rightarrow>
           ST_EXPR (snprintf_s TEXPR_MAX (block_text TEXPR_MAX (drop 2 p) e)) # parse_stmts (room - 1) (drop 2 e))
      else parse_stmts room (tl p))"
  by pat_completeness auto
termination
proof (relation "measure (\<lambda>(room, p). length p)", goal_cases)
  case 1
  show ?case by simp
next
  case (2 room p e)
  then have "length e \<le> length (drop 2 p)" by (metis strstr_suffix)
  with 2(1) show ?case by (cases p) auto
next
  case (3 room p e s)
  then have "length e \<le> length (drop 2 p)" by (metis strstr_suffix)
  with 3(1) show ?case by (cases p) auto
next
  case (4 room p e)
  then have "length e \<le> length (drop 2 p)" by (metis strstr_suffix)
  with 4(1) show ?case by (cases p) auto
next
  case (5 room p)
  then show ?case by (cases p) auto
qed

declare parse_stmts.simps [simp del]

subsection \<open>Running the statements\<close>

definition STK_MAX :: nat where "STK_MAX = 16"

definition skipping :: "nat list \<Rightarrow> bool" where
  "skipping stk \<longleftrightarrow> stk \<noteq> [] \<and> (hd stk = 1 \<or> hd stk = 3)"

definition push_if :: "nat list \<Rightarrow> bool \<Rightarrow> nat list run" where
  "push_if stk c =
     (if length stk \<ge> STK_MAX then Fault
      else Ret ((if skipping stk then 3 else if c then 2 else 1) # stk))"

fun exec_stmt :: "vocab \<Rightarrow> nat \<Rightarrow> chat_msg \<Rightarrow> bool \<Rightarrow> tstmt \<Rightarrow> nat list \<times> nat list \<Rightarrow> (nat list \<times> nat list) run" where
  "exec_stmt v mx m is_last ST_FOR (stk, ids) = Ret (stk, ids)"
| "exec_stmt v mx m is_last (ST_IF c) (stk, ids) = run_bind (push_if stk (chat_eval_cond c m)) (\<lambda>stk. Ret (stk, ids))"
| "exec_stmt v mx m is_last (ST_ELIF c) (stk, ids) =
     Ret (case stk of
        [] \<Rightarrow> []
      | s # t \<Rightarrow> (if s = 1 then (if chat_eval_cond c m then 2 else 1) else if s = 2 then 1 else s) # t, ids)"
| "exec_stmt v mx m is_last ST_ENDIF (stk, ids) = Ret (tl stk, ids)"
| "exec_stmt v mx m is_last ST_IF_LAST (stk, ids) = run_bind (push_if stk is_last) (\<lambda>stk. Ret (stk, ids))"
| "exec_stmt v mx m is_last ST_END_FOR (stk, ids) = Ret (stk, ids)"
| "exec_stmt v mx m is_last (ST_EXPR e) (stk, ids) =
     (if stk = [] \<or> hd stk = 2
      then run_bind (chat_eval_expr v m e) (\<lambda>out. Ret (stk, chat_append_ids v mx out ids))
      else Ret (stk, ids))"

fun exec_stmts :: "vocab \<Rightarrow> nat \<Rightarrow> chat_msg \<Rightarrow> bool \<Rightarrow> tstmt list \<Rightarrow> nat list \<times> nat list \<Rightarrow> (nat list \<times> nat list) run" where
  "exec_stmts v mx m is_last [] s = Ret s"
| "exec_stmts v mx m is_last (st # sts) s =
     (if length (snd s) < mx then run_bind (exec_stmt v mx m is_last st s) (exec_stmts v mx m is_last sts) else Ret s)"

text \<open>The whole list is run for every message, with an empty stack.\<close>

fun exec_msgs :: "vocab \<Rightarrow> nat \<Rightarrow> tstmt list \<Rightarrow> chat_msg list \<Rightarrow> nat list \<Rightarrow> nat list run" where
  "exec_msgs v mx sts [] ids = Ret ids"
| "exec_msgs v mx sts (m # ms) ids =
     run_bind (exec_stmts v mx m (ms = []) sts ([], ids)) (\<lambda>(stk, ids). exec_msgs v mx sts ms ids)"

definition bos_ids :: "vocab \<Rightarrow> nat \<Rightarrow> bool \<Rightarrow> nat list" where
  "bos_ids v mx add_bos = (if add_bos \<and> vc_bos v \<ge> 0 \<and> 0 < mx then [nat (vc_bos v)] else [])"

definition chat_render_builtin :: "vocab \<Rightarrow> chat_msg list \<Rightarrow> nat \<Rightarrow> nat list \<Rightarrow> nat list" where
  "chat_render_builtin v msgs mx ids =
     (if chat_is_gemma4 v then chat_render_gemma4 v msgs mx ids else chat_render_generic v msgs mx ids)"

text \<open>\<open>None\<close> is the result \<open>-1\<close>.\<close>

definition vocab_chat_ids_multi :: "vocab \<Rightarrow> chat_msg list \<Rightarrow> nat \<Rightarrow> bool \<Rightarrow> nat list option run" where
  "vocab_chat_ids_multi v msgs mx add_bos =
     (case vc_template v of
        None \<Rightarrow> Ret None
      | Some tpl \<Rightarrow>
        if tpl = [] \<or> msgs = [] then Ret None
        else if chat_template_unsupported tpl
        then Ret (Some (chat_render_builtin v msgs mx (bos_ids v mx add_bos)))
        else run_bind (exec_msgs v mx (parse_stmts STMTS_MAX tpl) msgs (bos_ids v mx add_bos)) (\<lambda>ids. Ret (Some ids)))"

definition vocab_chat_ids :: "vocab \<Rightarrow> string \<Rightarrow> nat \<Rightarrow> bool \<Rightarrow> nat list option run" where
  "vocab_chat_ids v user_msg mx add_bos = vocab_chat_ids_multi v [(''user'', user_msg)] mx add_bos"

end
