(* ===== verification/ChatSpec.thy ===== *)
theory ChatSpec
  imports ChatTpl BpeSpec
begin

text \<open>
  What the template engine promises. A template with properly nested blocks is a tree
  (\<open>tpl\<close>); \<open>print\<close> gives its text and \<open>flat\<close> the statements the parser makes of it. Its meaning in the template
  language is the reference (\<open>jinja\<close>: of a chain of branches the first true one); what the stack
  machine really renders is \<open>alt\<close>, and the two agree under a condition on the chains.
\<close>

subsection \<open>Template trees\<close>

datatype tcond = TLast | TCond string

datatype tpl = TEnd | TOut string tpl | TLoop bool tpl | TIf tcond tpl branches tpl
  and branches = BEnd | BElif string tpl branches

definition if_stmt :: "tcond \<Rightarrow> tstmt" where
  "if_stmt c = (case c of TLast \<Rightarrow> ST_IF_LAST | TCond e \<Rightarrow> ST_IF e)"

primrec flat :: "tpl \<Rightarrow> tstmt list" and flat_br :: "branches \<Rightarrow> tstmt list" where
  "flat TEnd = []"
| "flat (TOut e t) = ST_EXPR e # flat t"
| "flat (TLoop a t) = (if a then ST_FOR else ST_END_FOR) # flat t"
| "flat (TIf c b bs t) = if_stmt c # flat b @ flat_br bs @ ST_ENDIF # flat t"
| "flat_br BEnd = []"
| "flat_br (BElif c b bs) = ST_ELIF c # flat b @ flat_br bs"

primrec depth :: "tpl \<Rightarrow> nat" and depth_br :: "branches \<Rightarrow> nat" where
  "depth TEnd = 0"
| "depth (TOut e t) = depth t"
| "depth (TLoop a t) = depth t"
| "depth (TIf c b bs t) = max (Suc (max (depth b) (depth_br bs))) (depth t)"
| "depth_br BEnd = 0"
| "depth_br (BElif c b bs) = max (depth b) (depth_br bs)"

primrec exprs :: "tpl \<Rightarrow> string set" and exprs_br :: "branches \<Rightarrow> string set" where
  "exprs TEnd = {}"
| "exprs (TOut e t) = insert e (exprs t)"
| "exprs (TLoop a t) = exprs t"
| "exprs (TIf c b bs t) = exprs b \<union> exprs_br bs \<union> exprs t"
| "exprs_br BEnd = {}"
| "exprs_br (BElif c b bs) = exprs b \<union> exprs_br bs"

definition holds :: "chat_msg \<Rightarrow> bool \<Rightarrow> tcond \<Rightarrow> bool" where
  "holds m l c = (case c of TLast \<Rightarrow> l | TCond e \<Rightarrow> chat_eval_cond e m)"


text \<open>The machine: a branch is rendered if its condition holds and the branch before it was not
  rendered. \<open>r\<close> says whether that one was.\<close>

primrec alt :: "chat_msg \<Rightarrow> bool \<Rightarrow> tpl \<Rightarrow> string list"
  and alt_br :: "chat_msg \<Rightarrow> bool \<Rightarrow> branches \<Rightarrow> bool \<Rightarrow> string list" where
  "alt m l TEnd = []"
| "alt m l (TOut e t) = e # alt m l t"
| "alt m l (TLoop a t) = alt m l t"
| "alt m l (TIf c b bs t) = (if holds m l c then alt m l b else []) @ alt_br m l bs (holds m l c) @ alt m l t"
| "alt_br m l BEnd = (\<lambda>r. [])"
| "alt_br m l (BElif c b bs) =
     (\<lambda>r. let r' = (\<not> r \<and> chat_eval_cond c m) in (if r' then alt m l b else []) @ alt_br m l bs r')"







subsection \<open>Running a flattened tree\<close>

lemma exec_stmts_append:
  "exec_stmts v mx m l (xs @ ys) s = run_bind (exec_stmts v mx m l xs s) (exec_stmts v mx m l ys)"
proof (induction xs arbitrary: s)
  case (Cons x xs)
  have full: "\<not> length (snd s) < mx \<Longrightarrow> exec_stmts v mx m l ys s = Ret s" by (cases ys) auto
  show ?case
    using Cons.IH full by (cases "exec_stmt v mx m l x s") (auto split: prod.splits)
qed simp

definition expr_text :: "vocab \<Rightarrow> chat_msg \<Rightarrow> string \<Rightarrow> string" where
  "expr_text v m e = expr_loop (special_text_of v (vc_eos v)) (special_text_of v (vc_bos v)) m e []"

definition emit :: "vocab \<Rightarrow> nat \<Rightarrow> chat_msg \<Rightarrow> nat list \<Rightarrow> string list \<Rightarrow> nat list" where
  "emit v mx m ids es = foldl (\<lambda>ids e. chat_append_ids v mx (expr_text v m e) ids) ids es"

definition safe_expr :: "vocab \<Rightarrow> chat_msg \<Rightarrow> string \<Rightarrow> bool" where
  "safe_expr v m e \<longleftrightarrow> length (expr_text v m e) < EXPR_MAX"

lemma eval_safe: "safe_expr v m e \<Longrightarrow> chat_eval_expr v m e = Ret (expr_text v m e)"
  by (simp add: chat_eval_expr_def safe_expr_def expr_text_def Let_def)

lemma emit_simps [simp]:
  "emit v mx m ids [] = ids"
  "emit v mx m ids (e # es) = emit v mx m (chat_append_ids v mx (expr_text v m e) ids) es"
  "emit v mx m ids (es @ fs) = emit v mx m (emit v mx m ids es) fs"
  by (simp_all add: emit_def)

lemma append_full: "mx \<le> length ids \<Longrightarrow> chat_append_ids v mx s ids = ids"
  by (simp add: chat_append_ids_def)

lemma append_bound: "length ids \<le> mx \<Longrightarrow> length (chat_append_ids v mx s ids) \<le> mx"
  by (simp add: chat_append_ids_def)

lemma emit_full: "mx \<le> length ids \<Longrightarrow> emit v mx m ids es = ids"
  by (induction es) (auto simp: append_full)

text \<open>\<open>runs xs stk ids stk' es\<close>: from stack \<open>stk\<close> and \<open>ids\<close>, the statements \<open>xs\<close> render \<open>es\<close> and, if
  there is room left, end with the stack \<open>stk'\<close>.\<close>

definition runs :: "vocab \<Rightarrow> nat \<Rightarrow> chat_msg \<Rightarrow> bool \<Rightarrow> tstmt list \<Rightarrow> nat list \<Rightarrow> nat list \<Rightarrow> nat list \<Rightarrow> string list \<Rightarrow> bool" where
  "runs v mx m l xs stk ids stk' es \<longleftrightarrow>
     (\<exists>s. exec_stmts v mx m l xs (stk, ids) = Ret s \<and> snd s = emit v mx m ids es
        \<and> (length (snd s) < mx \<longrightarrow> fst s = stk'))"

lemma runs_Nil: "runs v mx m l [] stk ids stk []"
  by (simp add: runs_def)

lemma runs_append:
  assumes "runs v mx m l xs stk ids stk1 es" "runs v mx m l ys stk1 (emit v mx m ids es) stk2 fs"
  shows "runs v mx m l (xs @ ys) stk ids stk2 (es @ fs)"
proof -
  let ?i = "emit v mx m ids es"
  obtain s where s: "exec_stmts v mx m l xs (stk, ids) = Ret s" "snd s = ?i" "length ?i < mx \<longrightarrow> fst s = stk1"
    using assms(1) by (auto simp: runs_def)
  show ?thesis
  proof (cases "length ?i < mx")
    case True
    then have "s = (stk1, ?i)" using s by (cases s) auto
    then show ?thesis using assms(2) s(1) by (simp add: runs_def exec_stmts_append)
  next
    case False
    then have "exec_stmts v mx m l ys s = Ret s" using s(2) by (cases ys) auto
    then show ?thesis using s False by (auto simp: runs_def exec_stmts_append emit_full)
  qed
qed

lemma runs_one:
  assumes "exec_stmt v mx m l st (stk, ids) = Ret (stk', emit v mx m ids es)"
  shows "runs v mx m l [st] stk ids stk' es"
  using assms by (auto simp: runs_def emit_full)

lemma runs_step:
  assumes "exec_stmt v mx m l st (stk, ids) = Ret (stk1, ids)" "runs v mx m l ys stk1 ids stk2 es"
  shows "runs v mx m l (st # ys) stk ids stk2 es"
  using runs_append[OF runs_one[of v mx m l st stk ids stk1 "[]"], of ys stk2 es] assms by simp

definition visible :: "nat list \<Rightarrow> bool" where
  "visible stk \<longleftrightarrow> stk = [] \<or> hd stk = 2"

lemma visible_Cons: "visible (k # stk) \<longleftrightarrow> k = 2"
  by (simp add: visible_def)

lemma exec_if:
  assumes "length stk < STK_MAX"
  shows "exec_stmt v mx m l (if_stmt c) (stk, ids) =
    Ret ((if skipping stk then 3 else if holds m l c then 2 else 1) # stk, ids)"
  using assms by (cases c) (auto simp: if_stmt_def holds_def push_if_def)

lemma runs_flat:
  "exprs t \<subseteq> {e. safe_expr v m e} \<Longrightarrow> depth t + length stk \<le> STK_MAX \<Longrightarrow> visible stk \<or> skipping stk
    \<Longrightarrow> runs v mx m l (flat t) stk ids stk (if visible stk then alt m l t else [])"
  and runs_flat_br:
  "exprs_br bs \<subseteq> {e. safe_expr v m e} \<Longrightarrow> depth_br bs + Suc (length stk) \<le> STK_MAX
    \<Longrightarrow> k = 3 \<and> skipping stk \<or> (k = 1 \<or> k = 2) \<and> visible stk
    \<Longrightarrow> \<exists>k'. runs v mx m l (flat_br bs) (k # stk) ids (k' # stk) (if k = 3 then [] else alt_br m l bs (k = 2))"
proof (induction t and bs arbitrary: stk ids and stk ids k)
  case TEnd
  show ?case by (simp add: runs_Nil)
next
  case (TOut e t)
  have s: "safe_expr v m e" using TOut.prems(1) by simp
  have t: "runs v mx m l (flat t) stk i stk (if visible stk then alt m l t else [])" for i
    using TOut.prems by (intro TOut.IH) auto
  have "runs v mx m l [ST_EXPR e] stk ids stk (if visible stk then [e] else [])"
    by (rule runs_one) (simp add: visible_def eval_safe[OF s])
  from runs_append[OF this t] show ?case by (cases "visible stk") simp_all
next
  case (TLoop a t)
  have "runs v mx m l (flat t) stk ids stk (if visible stk then alt m l t else [])"
    using TLoop.prems by (intro TLoop.IH) auto
  moreover have "exec_stmt v mx m l (if a then ST_FOR else ST_END_FOR) (stk, ids) = Ret (stk, ids)" by simp
  ultimately show ?case by (simp only: flat.simps alt.simps runs_step)
next
  case (TIf c b bs t)
  let ?k = "if skipping stk then 3 else if holds m l c then 2 else (1::nat)"
  let ?b = "if visible (?k # stk) then alt m l b else []"
  let ?r = "if ?k = 3 then [] else alt_br m l bs (?k = 2)"
  let ?t = "if visible stk then alt m l t else []"
  have vs: "visible stk \<longleftrightarrow> \<not> skipping stk" using TIf.prems(3) by (auto simp: visible_def skipping_def)
  have d: "length stk < STK_MAX" using TIf.prems(2) by simp
  have b: "runs v mx m l (flat b) (?k # stk) i (?k # stk) ?b" for i
    using TIf.prems by (intro TIf.IH(1)) (auto simp: visible_def skipping_def)
  have "\<exists>k'. runs v mx m l (flat_br bs) (?k # stk) i (k' # stk) ?r" for i
    using TIf.prems vs by (intro TIf.IH(2)) auto
  then obtain k' where r: "runs v mx m l (flat_br bs) (?k # stk) (emit v mx m ids ?b) (k' # stk) ?r" by blast
  have t: "runs v mx m l (flat t) stk i stk ?t" for i
    using TIf.prems by (intro TIf.IH(3)) auto
  have "runs v mx m l (ST_ENDIF # flat t) (k' # stk) i stk ?t" for i
    by (rule runs_step[OF _ t]) simp
  from runs_append[OF runs_append[OF b r] this]
  have "runs v mx m l ((flat b @ flat_br bs) @ ST_ENDIF # flat t) (?k # stk) ids stk ((?b @ ?r) @ ?t)" .
  from runs_step[OF exec_if[OF d] this]
  have "runs v mx m l (flat (TIf c b bs t)) stk ids stk ((?b @ ?r) @ ?t)" by simp
  moreover have "(?b @ ?r) @ ?t = (if visible stk then alt m l (TIf c b bs t) else [])"
    by (cases "skipping stk"; cases "holds m l c") (simp_all add: vs visible_Cons)
  ultimately show ?case by (simp only:)
next
  case BEnd
  have "runs v mx m l (flat_br BEnd) (k # stk) ids (k # stk) []" by (simp add: runs_Nil)
  then show ?case by (intro exI[of _ k]) auto
next
  case (BElif c b bs)
  let ?j = "if k = 1 then (if chat_eval_cond c m then 2 else 1) else if k = 2 then 1 else k"
  let ?b = "if visible (?j # stk) then alt m l b else []"
  have b: "runs v mx m l (flat b) (?j # stk) ids (?j # stk) ?b"
    using BElif.prems by (intro BElif.IH(1)) (auto simp: visible_def skipping_def)
  have "\<exists>k'. runs v mx m l (flat_br bs) (?j # stk) (emit v mx m ids ?b) (k' # stk) (if ?j = 3 then [] else alt_br m l bs (?j = 2))"
    using BElif.prems by (intro BElif.IH(2)) auto
  then obtain k' where "runs v mx m l (flat_br bs) (?j # stk) (emit v mx m ids ?b) (k' # stk) (if ?j = 3 then [] else alt_br m l bs (?j = 2))"
    by blast
  from runs_step[OF _ runs_append[OF b this], of "ST_ELIF c" "k # stk"]
  have "runs v mx m l (flat_br (BElif c b bs)) (k # stk) ids (k' # stk) (?b @ (if ?j = 3 then [] else alt_br m l bs (?j = 2)))"
    by simp
  moreover have "?b @ (if ?j = 3 then [] else alt_br m l bs (?j = 2)) = (if k = 3 then [] else alt_br m l (BElif c b bs) (k = 2))"
  proof -
    consider "k = 3" | "k = 1" | "k = 2" using BElif.prems(3) by blast
    then show ?thesis by cases (simp_all add: visible_Cons Let_def)
  qed
  ultimately show ?case by (intro exI[of _ k']) (simp only:)
qed

subsection \<open>The text of a template tree\<close>

text \<open>\<open>TLoop True\<close> opens the loop over the messages, \<open>TLoop False\<close> closes it. The condition of a
  branch follows its keyword directly (so it usually starts with a blank); \<open>else\<close> is a branch with
  the condition \<open>True\<close>.\<close>

definition elif_text :: "string \<Rightarrow> string" where
  "elif_text c = (if c = ''True'' then ''else'' else ''elif'' @ c)"

definition if_text :: "tcond \<Rightarrow> string" where
  "if_text c = (case c of TLast \<Rightarrow> ''if loop.last'' | TCond e \<Rightarrow> ''if'' @ e)"

definition block :: "string \<Rightarrow> string" where
  "block b = ''{% '' @ b @ '' %}''"

primrec print :: "tpl \<Rightarrow> string" and print_br :: "branches \<Rightarrow> string" where
  "print TEnd = []"
| "print (TOut e t) = ''{{'' @ e @ ''}}'' @ print t"
| "print (TLoop a t) = block (if a then ''for message in messages'' else ''endfor'') @ print t"
| "print (TIf c b bs t) = block (if_text c) @ print b @ print_br bs @ block ''endif'' @ print t"
| "print_br BEnd = []"
| "print_br (BElif c b bs) = block (elif_text c) @ print b @ print_br bs"

definition cond_ok :: "string \<Rightarrow> bool" where
  "cond_ok c \<longleftrightarrow> c \<noteq> [] \<and> CHR ''%'' \<notin> set c \<and> \<not> tpl_ws (last c) \<and> last c \<noteq> CHR ''-'' \<and> length c \<le> 500 \<and> \<not> starts '' loop.last'' c"

definition expr_ok :: "string \<Rightarrow> bool" where
  "expr_ok e \<longleftrightarrow> CHR 0x7D \<notin> set e \<and> length e < TEXPR_MAX"

primrec printable :: "tpl \<Rightarrow> bool" and printable_br :: "branches \<Rightarrow> bool" where
  "printable TEnd = True"
| "printable (TOut e t) = (expr_ok e \<and> printable t)"
| "printable (TLoop a t) = printable t"
| "printable (TIf c b bs t) = ((\<forall>e. c = TCond e \<longrightarrow> cond_ok e) \<and> printable b \<and> printable_br bs \<and> printable t)"
| "printable_br BEnd = True"
| "printable_br (BElif c b bs) = (cond_ok c \<and> printable b \<and> printable_br bs)"

lemma strstr_mark: "x \<notin> set b \<Longrightarrow> strstr (b @ x # s) (x # k) = strstr (x # s) (x # k)"
  by (induction b) auto

lemma strstr_two: "y \<noteq> x \<Longrightarrow> x \<notin> set b \<Longrightarrow> strstr (b @ x # y # s) [x, y] = Some (x # y # s)"
  by (simp add: strstr_mark)

definition block_ok :: "string \<Rightarrow> bool" where
  "block_ok b \<longleftrightarrow> b \<noteq> [] \<and> CHR ''%'' \<notin> set b \<and> \<not> tpl_ws (hd b) \<and> hd b \<noteq> CHR ''-''
     \<and> \<not> tpl_ws (last b) \<and> last b \<noteq> CHR ''-'' \<and> length b \<le> 505"

lemma trim_block:
  assumes "block_ok b"
  shows "tpl_trim (SP # b @ [SP]) = b"
proof -
  obtain c d where b: "b = c # d" using assms by (cases b) (auto simp: block_ok_def)
  obtain d' e where e: "b = d' @ [e]" using assms by (cases b rule: rev_cases) (auto simp: block_ok_def)
  have 1: "dropWhile tpl_ws (SP # b @ [SP]) = b @ [SP]" "dropWhile tpl_ws (b @ [SP]) = b @ [SP]" "hd (b @ [SP]) \<noteq> CHR ''-''"
    using assms b by (auto simp: block_ok_def tpl_ws_def)
  have 2: "dropWhile (\<lambda>c. tpl_ws c \<or> c = CHR ''-'') (rev (b @ [SP])) = rev b"
    using assms e by (auto simp: block_ok_def tpl_ws_def)
  show ?thesis unfolding tpl_trim_def using 1 2 by simp
qed

lemma parse_block:
  assumes "block_ok b" "tpl_block (SP # b @ [SP]) = Some s" "0 < room"
  shows "parse_stmts room (block b @ rest) = s # parse_stmts (room - 1) rest"
proof -
  let ?b = "SP # b @ [SP]"
  have p: "block b @ rest = ''{%'' @ ?b @ ''%}'' @ rest" by (simp add: block_def)
  have "strstr (?b @ CHR ''%'' # CHR 0x7D # rest) [CHR ''%'', CHR 0x7D] = Some (CHR ''%'' # CHR 0x7D # rest)"
    using assms(1) by (intro strstr_two) (auto simp: block_ok_def)
  then have e: "strstr (?b @ ''%}'' @ rest) ''%}'' = Some (''%}'' @ rest)" by simp
  have t: "block_text COND_MAX (?b @ ''%}'' @ rest) (''%}'' @ rest) = ?b"
    using assms(1) by (auto simp: block_text_def COND_MAX_def block_ok_def)
  show ?thesis
    unfolding p by (subst parse_stmts.simps) (use e t assms(2,3) in simp)
qed

lemma parse_out:
  assumes "expr_ok e" "0 < room"
  shows "parse_stmts room (''{{'' @ e @ ''}}'' @ rest) = ST_EXPR e # parse_stmts (room - 1) rest"
proof -
  have m: "strstr (e @ CHR 0x7D # CHR 0x7D # rest) [CHR 0x7D, CHR 0x7D] = Some (CHR 0x7D # CHR 0x7D # rest)"
    using assms(1) by (simp add: strstr_mark expr_ok_def)
  have t: "block_text TEXPR_MAX (e @ CHR 0x7D # CHR 0x7D # rest) (CHR 0x7D # CHR 0x7D # rest) = e" "snprintf_s TEXPR_MAX e = e"
    using assms(1) by (auto simp: block_text_def snprintf_s_def expr_ok_def TEXPR_MAX_def)
  show ?thesis
    by (subst parse_stmts.simps) (use m t assms(2) in simp)
qed

lemma if_block:
  assumes "\<forall>e. c = TCond e \<longrightarrow> cond_ok e"
  shows "block_ok (if_text c) \<and> tpl_block (SP # if_text c @ [SP]) = Some (if_stmt c)"
proof -
  have ok: "block_ok (if_text c)"
    using assms by (cases c) (auto simp: block_ok_def if_text_def cond_ok_def tpl_ws_def)
  show ?thesis
    using ok assms trim_block[OF ok]
    by (cases c) (auto simp: tpl_block_def if_text_def if_stmt_def snprintf_s_def COND_MAX_def cond_ok_def)
qed

lemma elif_block:
  assumes "cond_ok c"
  shows "block_ok (elif_text c) \<and> tpl_block (SP # elif_text c @ [SP]) = Some (ST_ELIF c)"
proof -
  have ok: "block_ok (elif_text c)"
    using assms by (auto simp: block_ok_def elif_text_def cond_ok_def tpl_ws_def)
  show ?thesis
    using ok assms trim_block[OF ok]
    by (auto simp: tpl_block_def elif_text_def snprintf_s_def COND_MAX_def cond_ok_def)
qed

lemma const_blocks:
  "block_ok ''endif'' \<and> tpl_block (SP # ''endif'' @ [SP]) = Some ST_ENDIF"
  "block_ok ''endfor'' \<and> tpl_block (SP # ''endfor'' @ [SP]) = Some ST_END_FOR"
  "block_ok ''for message in messages'' \<and> tpl_block (SP # ''for message in messages'' @ [SP]) = Some ST_FOR"
  by (simp_all add: block_ok_def tpl_ws_def tpl_block_def tpl_trim_def)

lemma parse_print:
  "printable t \<Longrightarrow> length (flat t) \<le> room \<Longrightarrow>
    parse_stmts room (print t @ rest) = flat t @ parse_stmts (room - length (flat t)) rest"
  and parse_print_br:
  "printable_br bs \<Longrightarrow> length (flat_br bs) \<le> room \<Longrightarrow>
    parse_stmts room (print_br bs @ rest) = flat_br bs @ parse_stmts (room - length (flat_br bs)) rest"
proof (induction t and bs arbitrary: room rest and room rest)
  case (TOut e t)
  then show ?case by (simp add: parse_out[unfolded append.simps])
next
  case (TLoop a t)
  then show ?case
    using const_blocks(2,3) by (cases a) (simp_all add: parse_block)
next
  case (TIf c b bs t)
  then show ?case
    using if_block[of c] const_blocks(1) by (simp add: parse_block add.assoc)
next
  case (BElif c b bs)
  then show ?case
    using elif_block[of c] by (simp add: parse_block)
qed simp_all

subsection \<open>Whole conversations\<close>

fun render_with :: "(chat_msg \<Rightarrow> bool \<Rightarrow> string list) \<Rightarrow> vocab \<Rightarrow> nat \<Rightarrow> chat_msg list \<Rightarrow> nat list \<Rightarrow> nat list" where
  "render_with f v mx [] ids = ids"
| "render_with f v mx (m # ms) ids = render_with f v mx ms (emit v mx m ids (f m (ms = [])))"


lemma exec_msgs_flat:
  assumes "depth t \<le> STK_MAX" "\<forall>m\<in>set ms. exprs t \<subseteq> {e. safe_expr v m e}"
  shows "exec_msgs v mx (flat t) ms ids = Ret (render_with (\<lambda>m l. alt m l t) v mx ms ids)"
  using assms(2)
proof (induction ms arbitrary: ids)
  case (Cons m ms)
  have "runs v mx m (ms = []) (flat t) [] ids [] (alt m (ms = []) t)"
    using runs_flat[of t v m "[]" mx "ms = []" ids] Cons.prems assms(1) by (simp add: visible_def)
  then obtain s where "exec_stmts v mx m (ms = []) (flat t) ([], ids) = Ret s" "snd s = emit v mx m ids (alt m (ms = []) t)"
    by (auto simp: runs_def)
  then show ?case using Cons.IH Cons.prems by (cases s) auto
qed simp

definition tpl_ok :: "vocab \<Rightarrow> tpl \<Rightarrow> chat_msg list \<Rightarrow> bool" where
  "tpl_ok v t msgs \<longleftrightarrow> vc_template v = Some (print t) \<and> print t \<noteq> [] \<and> \<not> chat_template_unsupported (print t)
     \<and> printable t \<and> length (flat t) \<le> STMTS_MAX \<and> depth t \<le> STK_MAX
     \<and> (\<forall>m\<in>set msgs. exprs t \<subseteq> {e. safe_expr v m e})"

lemma multi_alt:
  assumes "tpl_ok v t msgs" "msgs \<noteq> []"
  shows "vocab_chat_ids_multi v msgs mx b = Ret (Some (render_with (\<lambda>m l. alt m l t) v mx msgs (bos_ids v mx b)))"
proof -
  have "parse_stmts STMTS_MAX (print t) = flat t"
    using parse_print(1)[of t STMTS_MAX "[]"] assms(1) by (simp add: tpl_ok_def parse_stmts.simps)
  then show ?thesis
    using assms exec_msgs_flat[of t msgs v mx] by (simp add: vocab_chat_ids_multi_def tpl_ok_def)
qed

subsection \<open>Evaluation of expressions\<close>

lemma expr_full: "EXPR_MAX \<le> length out + 1 \<Longrightarrow> expr_loop e b m p out = out"
  by (subst expr_loop.simps) simp

lemma expr_Nil: "expr_loop e b m [] out = out"
  by (subst expr_loop.simps) simp

lemma expr_lit:
  assumes "length out + 1 < EXPR_MAX" "lit_copy p = (l, r)"
  shows "expr_loop e b m (SQ # p) out = expr_loop e b m r (out @ l)"
  by (subst expr_loop.simps) (use assms in simp)

lemma expr_plus:
  assumes "length out + 1 < EXPR_MAX"
  shows "expr_loop e b m ('' + '' @ p) out = expr_loop e b m p out"
proof -
  have "expr_loop e b m (c # q) out = expr_loop e b m q out" if "c \<in> {SP, CHR ''+''}" for c q
    by (subst expr_loop.simps) (use assms that in \<open>auto simp: expr_words_def\<close>)
  then show ?thesis by simp
qed

lemma expr_word:
  assumes "length out + 1 < EXPR_MAX"
  shows "expr_loop e b m (''message['' @ SQ # ''role'' @ SQ # '']'' @ p) out = expr_loop e b m p (room_copy out (fst m))"
    "expr_loop e b m (''message['' @ SQ # ''content'' @ SQ # '']'' @ p) out = expr_loop e b m p (room_copy out (snd m))"
  by (subst expr_loop.simps, use assms in \<open>simp add: expr_words_def\<close>)+

subsection \<open>The stack machine renders the template\<close>


text \<open>In a chain with \<open>if\<close>, \<open>elif\<close> and \<open>else\<close> whose first condition holds, the \<open>else\<close>
  branch is rendered as well: the \<open>elif\<close> turns the state of the chain from rendered to open, and
  the \<open>else\<close> opens it again.\<close>

theorem else_after_match:
  assumes "t = TIf (TCond c) (TOut e1 TEnd) (BElif c2 (TOut e2 TEnd) (BElif ''True'' (TOut e3 TEnd) BEnd)) TEnd"
    and "tpl_ok v t [m]" "chat_eval_cond c m"
  shows "vocab_chat_ids_multi v [m] mx b =
     Ret (Some (chat_append_ids v mx (expr_text v m e3) (chat_append_ids v mx (expr_text v m e1) (bos_ids v mx b))))"
proof -
  have "chat_eval_cond ''True'' m"
    by (subst chat_eval_cond.simps) (simp add: chat_clause_true_def COND_MAX_def)
  then show ?thesis
    using multi_alt[OF assms(2), of mx b] assms(1,3) by (simp add: holds_def Let_def)
qed

subsection \<open>The ChatML template\<close>

definition chatml_msg :: string where
  "chatml_msg = SQ # ''<|im_start|>'' @ SQ # '' + '' @ ''message['' @ SQ # ''role'' @ SQ # '']'' @ '' + '' @ SQ # BSL # ''n'' @ SQ # '' + ''
     @ ''message['' @ SQ # ''content'' @ SQ # '']'' @ '' + '' @ SQ # ''<|im_end|>'' @ SQ # '' + '' @ SQ # BSL # ''n'' @ [SQ]"

definition chatml_gen :: string where
  "chatml_gen = SQ # ''<|im_start|>assistant'' @ BSL # ''n'' @ [SQ]"

definition chatml_head :: "chat_msg \<Rightarrow> string" where
  "chatml_head m = ''<|im_start|>'' @ fst m @ [LF]"

lemma expr_nl:
  assumes "length out + 1 < EXPR_MAX"
  shows "expr_loop e b m (SQ # BSL # ''n'' @ SQ # p) out = expr_loop e b m p (out @ [LF])"
  using expr_lit[OF assms, of "BSL # ''n'' @ SQ # p"] by simp

lemma expr_marks:
  assumes "length out + 1 < EXPR_MAX"
  shows "expr_loop e b m (SQ # ''<|im_start|>'' @ SQ # p) out = expr_loop e b m p (out @ ''<|im_start|>'')"
    "expr_loop e b m (SQ # ''<|im_end|>'' @ SQ # p) out = expr_loop e b m p (out @ ''<|im_end|>'')"
  by (rule expr_lit[OF assms], simp)+

definition chatml_tail :: string where
  "chatml_tail = '' + '' @ SQ # ''<|im_end|>'' @ SQ # '' + '' @ SQ # BSL # ''n'' @ [SQ]"

lemma chatml_loop:
  assumes "length (fst m) \<le> 4000"
  shows "expr_loop e b m chatml_msg [] = expr_loop e b m chatml_tail (room_copy (chatml_head m) (snd m))"
proof -
  let ?content = "''message['' @ SQ # ''content'' @ SQ # '']'' @ chatml_tail"
  let ?nl = "SQ # BSL # ''n'' @ SQ # '' + '' @ ?content"
  let ?role = "''message['' @ SQ # ''role'' @ SQ # '']'' @ '' + '' @ ?nl"
  have r: "room_copy ([] @ ''<|im_start|>'') (fst m) = ''<|im_start|>'' @ fst m"
    using assms by (simp add: room_copy_def EXPR_MAX_def)
  have n: "length ([] :: string) + 1 < EXPR_MAX" "length ([] @ ''<|im_start|>'') + 1 < EXPR_MAX"
    "length (''<|im_start|>'' @ fst m) + 1 < EXPR_MAX" "length ((''<|im_start|>'' @ fst m) @ [LF]) + 1 < EXPR_MAX"
    using assms by (simp_all add: EXPR_MAX_def)
  have "expr_loop e b m chatml_msg [] = expr_loop e b m ('' + '' @ ?role) ([] @ ''<|im_start|>'')"
    unfolding chatml_msg_def chatml_tail_def by (rule expr_marks(1)[OF n(1)])
  also have "\<dots> = expr_loop e b m ?role ([] @ ''<|im_start|>'')" by (rule expr_plus[OF n(2)])
  also have "\<dots> = expr_loop e b m ('' + '' @ ?nl) (''<|im_start|>'' @ fst m)"
    unfolding expr_word(1)[OF n(2)] r ..
  also have "\<dots> = expr_loop e b m ?nl (''<|im_start|>'' @ fst m)" by (rule expr_plus[OF n(3)])
  also have "\<dots> = expr_loop e b m ('' + '' @ ?content) ((''<|im_start|>'' @ fst m) @ [LF])" by (rule expr_nl[OF n(3)])
  also have "\<dots> = expr_loop e b m ?content ((''<|im_start|>'' @ fst m) @ [LF])" by (rule expr_plus[OF n(4)])
  also have "\<dots> = expr_loop e b m chatml_tail (room_copy ((''<|im_start|>'' @ fst m) @ [LF]) (snd m))"
    by (rule expr_word(2)[OF n(4)])
  finally show ?thesis by (simp add: chatml_head_def)
qed

lemma chatml_tail_loop:
  "expr_loop e b m chatml_tail out =
    (if EXPR_MAX \<le> length out + 1 then out
     else if EXPR_MAX \<le> length out + 11 then out @ ''<|im_end|>'' else out @ ''<|im_end|>'' @ [LF])"
proof (cases "EXPR_MAX \<le> length out + 1")
  case True
  then show ?thesis by (simp add: expr_full)
next
  case False
  then have n: "length out + 1 < EXPR_MAX" by simp
  let ?nl = "SQ # BSL # ''n'' @ SQ # []" and ?o = "out @ ''<|im_end|>''"
  have "expr_loop e b m chatml_tail out = expr_loop e b m ('' + '' @ ?nl) ?o"
    unfolding chatml_tail_def expr_plus[OF n] by (rule expr_marks(2)[OF n])
  also have "\<dots> = (if EXPR_MAX \<le> length out + 11 then ?o else ?o @ [LF])"
  proof (cases "EXPR_MAX \<le> length out + 11")
    case True
    then show ?thesis by (simp add: expr_full)
  next
    case False
    then have n: "length ?o + 1 < EXPR_MAX" by simp
    show ?thesis unfolding expr_plus[OF n] expr_nl[OF n] using False by (simp add: expr_Nil)
  qed
  finally show ?thesis using False by simp
qed

text \<open>C17: What one message becomes in the ChatML template, for every length of its content: up to
  4084 bytes of header and content the complete text; at 4085 the line feed behind the end mark is
  lost; from 4086 to 4094 the end mark is copied past the end of \<open>out[4096]\<close>, a stack overflow
  whose length the client chooses; above that the message is cut and its end mark is missing.\<close>

theorem chatml_message_lengths:
  assumes "length (fst m) \<le> 4000"
  shows "let h = chatml_head m; n = length h + length (snd m) in
    chat_eval_expr v m chatml_msg =
      (if n \<le> 4084 then Ret (h @ snd m @ ''<|im_end|>'' @ [LF])
       else if n = 4085 then Ret (h @ snd m @ ''<|im_end|>'')
       else if n \<le> 4094 then Fault
       else Ret (take 4095 (h @ snd m)))"
proof -
  let ?h = "chatml_head m" and ?n = "length (chatml_head m) + length (snd m)"
  have h: "length ?h \<le> 4013" using assms by (simp add: chatml_head_def)
  have "room_copy ?h (snd m) = take 4095 (?h @ snd m)"
    using h by (simp add: room_copy_def EXPR_MAX_def)
  moreover have "take 4095 (?h @ snd m) = ?h @ snd m" if "?n \<le> 4095" using that by simp
  ultimately show ?thesis
    by (simp add: chat_eval_expr_def chatml_loop[OF assms] chatml_tail_loop EXPR_MAX_def Let_def del: take_append)
qed

theorem chatml_message_lengths_witness:
  "chat_eval_expr vocab_zero (''user'', replicate 4070 (CHR ''a'')) chatml_msg = Fault"
  using chatml_message_lengths[of "(''user'', replicate 4070 (CHR ''a''))" vocab_zero] by (simp add: chatml_head_def)

definition chatml_tpl :: tpl where
  "chatml_tpl = TLoop True (TOut chatml_msg (TLoop False
     (TIf (TCond '' add_generation_prompt'') (TOut chatml_gen TEnd) BEnd TEnd)))"

lemma chatml_gen_text: "expr_text v m chatml_gen = ''<|im_start|>assistant'' @ [LF]"
proof -
  have "lit_copy (''<|im_start|>assistant'' @ BSL # ''n'' @ [SQ]) = (''<|im_start|>assistant'' @ [LF], [])"
    by simp
  from expr_lit[OF _ this, of "[]"] show ?thesis
    unfolding expr_text_def chatml_gen_def by (simp add: EXPR_MAX_def expr_Nil)
qed

definition chatml_fits :: "chat_msg \<Rightarrow> bool" where
  "chatml_fits m \<longleftrightarrow> length (fst m) \<le> 4000 \<and> length (fst m) + length (snd m) \<le> 4071"

lemma chatml_msg_text:
  assumes "chatml_fits m"
  shows "expr_text v m chatml_msg = chatml_head m @ snd m @ ''<|im_end|>'' @ [LF]" "safe_expr v m chatml_msg"
proof -
  have n: "length (fst m) \<le> 4000" "length (chatml_head m) + length (snd m) \<le> 4084"
    using assms by (simp_all add: chatml_fits_def chatml_head_def)
  have "chat_eval_expr v m chatml_msg = Ret (chatml_head m @ snd m @ ''<|im_end|>'' @ [LF])"
    using chatml_loop[OF n(1)] n(2)
    by (simp add: chat_eval_expr_def chatml_tail_loop EXPR_MAX_def Let_def room_copy_def)
  then show "expr_text v m chatml_msg = chatml_head m @ snd m @ ''<|im_end|>'' @ [LF]" "safe_expr v m chatml_msg"
    by (auto simp: chat_eval_expr_def expr_text_def safe_expr_def Let_def split: if_splits)
qed

lemma chatml_gen_true: "chat_eval_cond '' add_generation_prompt'' m"
  by (subst chat_eval_cond.simps) (simp add: chat_clause_true_def COND_MAX_def)

lemma chatml_supported: "\<not> chat_template_unsupported (print chatml_tpl)" "printable chatml_tpl"
  by (simp_all add: chat_template_unsupported_def chatml_tpl_def chatml_msg_def chatml_gen_def block_def if_text_def
      cond_ok_def expr_ok_def TEXPR_MAX_def tpl_ws_def)

lemma chatml_ok:
  assumes "vc_template v = Some (print chatml_tpl)" "\<forall>m\<in>set msgs. chatml_fits m"
  shows "tpl_ok v chatml_tpl msgs"
proof -
  have "safe_expr v m chatml_gen" for m
    unfolding safe_expr_def chatml_gen_text by (simp add: EXPR_MAX_def)
  then have "exprs chatml_tpl \<subseteq> {e. safe_expr v m e}" if "m \<in> set msgs" for m
    using that assms(2) chatml_msg_text(2) by (simp add: chatml_tpl_def)
  moreover have "print chatml_tpl \<noteq> []" "length (flat chatml_tpl) \<le> STMTS_MAX" "depth chatml_tpl \<le> STK_MAX"
    by (simp_all add: chatml_tpl_def block_def STMTS_MAX_def STK_MAX_def)
  ultimately show ?thesis using assms(1) chatml_supported by (simp add: tpl_ok_def)
qed

lemma chatml_render:
  assumes "\<forall>m\<in>set msgs. chatml_fits m"
  shows "render_with (\<lambda>m l. alt m l chatml_tpl) v mx msgs ids =
    foldl (\<lambda>ids s. chat_append_ids v mx s ids) ids
      (concat (map (\<lambda>m. [chatml_head m @ snd m @ ''<|im_end|>'' @ [LF], ''<|im_start|>assistant'' @ [LF]]) msgs))"
  using assms
proof (induction msgs arbitrary: ids)
  case (Cons m ms)
  have "alt m l chatml_tpl = [chatml_msg, chatml_gen]" for l
    by (simp add: chatml_tpl_def holds_def chatml_gen_true)
  then show ?case using Cons chatml_msg_text(1)[of m v] by (simp add: chatml_gen_text)
qed simp

lemma chatml_multi:
  assumes "vc_template v = Some (print chatml_tpl)" "msgs \<noteq> []" "\<forall>m\<in>set msgs. chatml_fits m"
  shows "vocab_chat_ids_multi v msgs mx b =
    Ret (Some (foldl (\<lambda>ids s. chat_append_ids v mx s ids) (bos_ids v mx b)
      (concat (map (\<lambda>m. [chatml_head m @ snd m @ ''<|im_end|>'' @ [LF], ''<|im_start|>assistant'' @ [LF]]) msgs))))"
  using multi_alt[OF chatml_ok[OF assms(1,3)] assms(2)] by (simp only: chatml_render[OF assms(3)])

text \<open>With the ChatML template, a conversation of several messages renders the generation
  prompt \<open><|im_start|>assistant\<close> after every message and not once at the end: the machine runs all
  statements of the template, those behind \<open>endfor\<close> too, for every message. Single-message requests
  are rendered as the template says.\<close>

theorem chatml_prompt_per_message:
  assumes "vc_template v = Some (print chatml_tpl)" "msgs \<noteq> []" "\<forall>m\<in>set msgs. chatml_fits m"
  shows "vocab_chat_ids_multi v msgs mx b =
    Ret (Some (foldl (\<lambda>ids s. chat_append_ids v mx s ids) (bos_ids v mx b)
      (concat (map (\<lambda>m. [chatml_head m @ snd m @ ''<|im_end|>'' @ [LF], ''<|im_start|>assistant'' @ [LF]]) msgs))))"
  by (rule chatml_multi[OF assms])

definition chatml_vocab :: vocab where
  "chatml_vocab = vocab_zero\<lparr>vc_pieces := [''<unk>'', ''hi''], vc_sorted := [0, 1], vc_bos := -1, vc_eos := -1,
     vc_template := Some (print chatml_tpl)\<rparr>"

theorem chatml_prompt_per_message_witness:
  "vocab_chat_ids_multi chatml_vocab [(''user'', ''hi''), (''user'', ''hi'')] 65536 False =
    Ret (Some (foldl (\<lambda>ids s. chat_append_ids chatml_vocab 65536 s ids) []
      [''<|im_start|>user'' @ [LF] @ ''hi<|im_end|>'' @ [LF], ''<|im_start|>assistant'' @ [LF],
       ''<|im_start|>user'' @ [LF] @ ''hi<|im_end|>'' @ [LF], ''<|im_start|>assistant'' @ [LF]]))"
  using chatml_prompt_per_message[of chatml_vocab "[(''user'', ''hi''), (''user'', ''hi'')]" 65536 False]
  by (simp add: chatml_vocab_def chatml_fits_def chatml_head_def bos_ids_def)


definition roles_tpl :: tpl where
  "roles_tpl = TIf (TCond ('' message.role == '' @ SQ # ''user'' @ [SQ])) (TOut (SQ # ''u'' @ [SQ]) TEnd)
     (BElif ('' message.role == '' @ SQ # ''system'' @ [SQ]) (TOut (SQ # ''s'' @ [SQ]) TEnd)
       (BElif ''True'' (TOut (SQ # ''x'' @ [SQ]) TEnd) BEnd)) TEnd"

lemma quoted_char:
  assumes "c \<noteq> SQ" "c \<noteq> BSL"
  shows "expr_text v m [SQ, c, SQ] = [c]"
  using expr_lit[of "[]" "[c, SQ]" "[c]" "[]"] assms by (simp add: expr_text_def EXPR_MAX_def expr_Nil)

lemma roles_ok: "tpl_ok (vocab_zero\<lparr>vc_template := Some (print roles_tpl)\<rparr>) roles_tpl [(''user'', ''hi'')]"
proof -
  have "\<not> chat_template_unsupported (print roles_tpl)" "printable roles_tpl" "print roles_tpl \<noteq> []"
    by (simp_all add: chat_template_unsupported_def roles_tpl_def block_def if_text_def elif_text_def
        cond_ok_def expr_ok_def TEXPR_MAX_def tpl_ws_def)
  moreover have "exprs roles_tpl \<subseteq> {e. safe_expr v m e}" for v m
    by (simp add: roles_tpl_def safe_expr_def quoted_char EXPR_MAX_def)
  ultimately show ?thesis by (simp add: tpl_ok_def) (simp add: roles_tpl_def STMTS_MAX_def STK_MAX_def if_stmt_def)
qed

theorem else_after_match_witness:
  "vocab_chat_ids_multi (vocab_zero\<lparr>vc_template := Some (print roles_tpl)\<rparr>) [(''user'', ''hi'')] 64 False =
    Ret (Some (chat_append_ids (vocab_zero\<lparr>vc_template := Some (print roles_tpl)\<rparr>) 64 ''x''
      (chat_append_ids (vocab_zero\<lparr>vc_template := Some (print roles_tpl)\<rparr>) 64 ''u'' [])))"
proof -
  have "chat_eval_cond ('' message.role == '' @ SQ # ''user'' @ [SQ]) (''user'', ''hi'')"
    by (subst chat_eval_cond.simps) (simp add: chat_clause_true_def COND_MAX_def)
  from else_after_match[OF roles_tpl_def roles_ok, of 64 False, unfolded append.simps] this
  show ?thesis by (simp add: quoted_char bos_ids_def vocab_zero_def)
qed

subsection \<open>Ids of a prompt\<close>

text \<open>The start \<open>pre\<close>, which nobody checks, and tokens of the vocabulary.\<close>

definition ids_ok :: "vocab \<Rightarrow> nat \<Rightarrow> nat list \<Rightarrow> nat list \<Rightarrow> bool" where
  "ids_ok v mx pre ids \<longleftrightarrow> length ids \<le> mx \<and> (\<exists>rest. ids = pre @ rest \<and> tokens_ok v rest)"

lemma bos_ids_ok [simp]: "ids_ok v mx (bos_ids v mx b) (bos_ids v mx b)"
  by (simp add: ids_ok_def bos_ids_def)

lemma ids_ok_append:
  assumes "ids_ok v mx pre ids" "tokens_ok v new" "length (ids @ new) \<le> mx"
  shows "ids_ok v mx pre (ids @ new)"
  using assms by (auto simp: ids_ok_def)

lemma append_ids_ok [simp]:
  assumes "vocab_ok v" "ids_ok v mx pre ids"
  shows "ids_ok v mx pre (chat_append_ids v mx s ids)"
  using encode_tokens[OF assms(1), of s ENC_MAX] assms(2) unfolding chat_append_ids_def
  by (intro ids_ok_append) (auto simp: tokens_ok_def ids_ok_def dest: in_set_takeD)

lemma specials_ids_ok:
  "vocab_ok v \<Longrightarrow> ids_ok v mx pre ids \<Longrightarrow> ids_ok v mx pre (chat_append_ids_specials v mx p ids)"
proof (induction v mx p ids rule: chat_append_ids_specials.induct)
  case (1 v mx p ids)
  show ?case
  proof (cases "p = [] \<or> length ids \<ge> mx")
    case True
    then show ?thesis using 1 by (simp add: chat_append_ids_specials.simps[of v mx p])
  next
    case False
    let ?sp = "chat_spec_len_at p"
    let ?ids = "case vocab_id v ?sp of Some i \<Rightarrow> ids @ [i] | None \<Rightarrow> ids"
    have "ids_ok v mx pre ?ids"
      using 1(4) False linear.hit[of v ?sp] by (auto intro!: ids_ok_append simp: tokens_ok_def split: option.splits)
    then show ?thesis
      using 1 False by (subst chat_append_ids_specials.simps) (simp add: Let_def)
  qed
qed

lemma while_room_ok:
  "(\<And>m ids. ids_ok v mx pre ids \<Longrightarrow> ids_ok v mx pre (f m ids)) \<Longrightarrow> ids_ok v mx pre ids \<Longrightarrow> ids_ok v mx pre (while_room mx f ms ids)"
  by (induction ms arbitrary: ids) auto

lemma builtin_ids_ok:
  assumes "vocab_ok v" "ids_ok v mx pre ids"
  shows "ids_ok v mx pre (chat_render_builtin v msgs mx ids)"
  using assms specials_ids_ok[OF assms]
  by (auto simp: chat_render_builtin_def chat_render_gemma4_def chat_render_generic_def Let_def intro!: while_room_ok append_ids_ok)

lemma exec_stmt_ids_ok:
  assumes "vocab_ok v" "exec_stmt v mx m l st (stk, ids) = Ret s" "ids_ok v mx pre ids"
  shows "ids_ok v mx pre (snd s)"
  using assms by (cases st) (auto simp: run_bind_Ret split: if_splits)

lemma exec_stmts_ids_ok:
  "vocab_ok v \<Longrightarrow> exec_stmts v mx m l sts s = Ret s' \<Longrightarrow> ids_ok v mx pre (snd s) \<Longrightarrow> ids_ok v mx pre (snd s')"
proof (induction sts arbitrary: s)
  case (Cons st sts)
  then show ?case
    using exec_stmt_ids_ok[OF Cons.prems(1), of mx m l st "fst s" "snd s"]
    by (auto simp: run_bind_Ret split: if_splits)
qed simp

lemma exec_msgs_ids_ok:
  "vocab_ok v \<Longrightarrow> exec_msgs v mx sts ms ids = Ret ids' \<Longrightarrow> ids_ok v mx pre ids \<Longrightarrow> ids_ok v mx pre ids'"
proof (induction ms arbitrary: ids)
  case (Cons m ms)
  then obtain stk i where i: "exec_stmts v mx m (ms = []) sts ([], ids) = Ret (stk, i)" "exec_msgs v mx sts ms i = Ret ids'"
    by (auto simp: run_bind_Ret)
  then show ?case using exec_stmts_ids_ok[OF Cons.prems(1) i(1)] Cons by simp
qed simp

lemma multi_ids_ok:
  assumes "vocab_ok v" "vocab_chat_ids_multi v msgs mx b = Ret (Some ids)"
  shows "ids_ok v mx (bos_ids v mx b) ids"
  using assms exec_msgs_ids_ok[OF assms(1)] builtin_ids_ok[OF assms(1)]
  by (auto simp: vocab_chat_ids_multi_def run_bind_Ret split: option.splits if_splits)

end
