(* ===== verification/PromptTurn.thy ===== *)
theory PromptTurn
  imports ChatSpec ServerSess
begin







end
