(* ===== verification/RankQueue.thy ===== *)
theory RankQueue
  imports Wire "HOL-Library.Multiset"
begin

text \<open>
  The threads of a rank (\<open>serve/rank.c\<close>): one thread accepts connections and answers them or puts
  them into a ring buffer of 8 jobs, workers take jobs out of it, and \<open>DRAIN\<close> closes the rank once
  everything accepted has been served. Every step is what a thread does under the mutex \<open>q_mu\<close>;
  \<open>in_flight\<close> counts the jobs between two steps of a worker.
\<close>

subsection \<open>The ring buffer\<close>

definition RANK_JOB_CAP :: nat where "RANK_JOB_CAP = 8"

record job =
  jb_fd :: nat
  jb_args :: string
  jb_payload :: bytes

definition job_zero :: job where
  "job_zero = \<lparr>jb_fd = 0, jb_args = [], jb_payload = []\<rparr>"

record rank_q =
  rq_jobs :: "job list"
  rq_head :: nat
  rq_tail :: nat
  rq_len :: nat
  rq_in_flight :: nat
  rq_draining :: bool
  rq_drain_fd :: "nat option"
  rq_quit :: bool
  rq_io_stop :: bool

definition q_init :: rank_q where
  "q_init = \<lparr>rq_jobs = replicate RANK_JOB_CAP job_zero, rq_head = 0, rq_tail = 0, rq_len = 0, rq_in_flight = 0,
     rq_draining = False, rq_drain_fd = None, rq_quit = False, rq_io_stop = False\<rparr>"

definition q_put :: "rank_q \<Rightarrow> job \<Rightarrow> rank_q" where
  "q_put q j = q\<lparr>rq_jobs := (rq_jobs q)[rq_tail q := j], rq_tail := (rq_tail q + 1) mod RANK_JOB_CAP, rq_len := rq_len q + 1\<rparr>"

text \<open>A worker takes a job; \<open>None\<close> when it has to wait, or to end.\<close>

definition q_take :: "rank_q \<Rightarrow> (rank_q \<times> job) option" where
  "q_take q =
     (if rq_len q = 0 then None
      else Some (q\<lparr>rq_jobs := (rq_jobs q)[rq_head q := job_zero], rq_head := (rq_head q + 1) mod RANK_JOB_CAP,
                   rq_len := rq_len q - 1, rq_in_flight := rq_in_flight q + 1\<rparr>, rq_jobs q ! rq_head q))"

definition q_done :: "rank_q \<Rightarrow> rank_q" where
  "q_done q = q\<lparr>rq_in_flight := rq_in_flight q - 1\<rparr>"

text \<open>The load shown to the supervisor.\<close>

definition rank_load :: "rank_q \<Rightarrow> nat \<times> bool" where
  "rank_load q = (rq_in_flight q + rq_len q, rq_in_flight q + rq_len q > 0)"

subsection \<open>The accepting thread\<close>

text \<open>What a step sends: bytes to a connection that is then closed.\<close>

type_synonym sent = "(nat \<times> bytes) list"

definition rank_try_finish_drain :: "rank_q \<Rightarrow> rank_q \<times> sent" where
  "rank_try_finish_drain q =
     (if \<not> rq_draining q \<or> rq_len q > 0 \<or> rq_in_flight q > 0 then (q, [])
      else case rq_drain_fd q of
        None \<Rightarrow> (q, [])
      | Some fd \<Rightarrow> (q\<lparr>rq_drain_fd := None, rq_quit := True, rq_io_stop := True\<rparr>, [(fd, frame_send ''OK'' [])]))"

definition err_line :: "string \<Rightarrow> bytes" where
  "err_line msg = frame_send ''ERR'' msg"

text \<open>One connection: the bytes it sends, the answer to \<open>STAT\<close>, whether this rank is a later
  member of a group, and \<open>malloc\<close>.\<close>

definition infer_job :: "(nat \<Rightarrow> bool) \<Rightarrow> bool \<Rightarrow> rank_q \<Rightarrow> nat \<Rightarrow> string \<Rightarrow> bytes \<Rightarrow> bytes + job" where
  "infer_job mem member q fd args rest =
     (if member then Inl (err_line ''worker rank does not accept INFER'')
      else case (case scan_int args of None \<Rightarrow> None
                 | Some (mt, r) \<Rightarrow> (case scan_int r of None \<Rightarrow> None | Some _ \<Rightarrow> Some (mt, atol r))) of
          None \<Rightarrow> Inl (err_line ''bad INFER args'')
        | Some (mt, nbytes) \<Rightarrow>
          if mt \<le> 0 \<or> nbytes < 0 then Inl (err_line ''bad INFER args'')
          else if rq_draining q then Inl (err_line ''draining'')
          else if rq_len q \<ge> RANK_JOB_CAP then Inl (err_line ''queue full'')
          else if \<not> mem (nat nbytes + 1) then Inl (err_line ''oom'')
          else case recv_n (nat nbytes) rest of
            None \<Rightarrow> Inl []
          | Some (pb, _) \<Rightarrow> Inr \<lparr>jb_fd = fd, jb_args = snprintf_s 256 args, jb_payload = pb\<rparr>)"

definition rank_conn :: "(nat \<Rightarrow> bool) \<Rightarrow> bool \<Rightarrow> string \<Rightarrow> rank_q \<Rightarrow> nat \<Rightarrow> bytes \<Rightarrow> rank_q \<times> sent" where
  "rank_conn mem member stat q fd s =
     (case frame_recv s of
        None \<Rightarrow> (q, [(fd, [])])
      | Some (f, rest) \<Rightarrow>
        if fr_cmd f = ''PING'' then (q, [(fd, frame_send ''OK'' ''READY'')])
        else if fr_cmd f = ''STAT'' then (q, [(fd, frame_send ''OK'' stat)])
        else if fr_cmd f = ''DRAIN'' \<or> fr_cmd f = ''QUIT'' then
          (if rq_drain_fd q \<noteq> None then (q, [(fd, err_line ''already draining'')])
           else rank_try_finish_drain (q\<lparr>rq_draining := True, rq_quit := True, rq_drain_fd := Some fd\<rparr>))
        else if fr_cmd f \<noteq> ''INFER'' then (q, [(fd, err_line ''unknown cmd'')])
        else case infer_job mem member q fd (fr_args f) rest of
          Inl b \<Rightarrow> (q, [(fd, b)])
        | Inr j \<Rightarrow> (q_put q j, []))"

subsection \<open>All threads\<close>

text \<open>The queue, the jobs the workers are serving, and everything sent so far. The accepting
  thread handles a connection (it has read \<open>io_stop\<close> before, so this may happen after it is set)
  or looks whether the drain is over; a worker takes a job, or answers one (with any bytes) and then
  looks whether the drain is over.\<close>

record rank_sys =
  ry_q :: rank_q
  ry_run :: "job list"
  ry_sent :: sent

inductive rank_accept :: "rank_sys \<Rightarrow> rank_sys \<Rightarrow> bool" where
  conn: "rank_conn mem member stat (ry_q y) fd s = (q, out)
    \<Longrightarrow> rank_accept y (y\<lparr>ry_q := q, ry_sent := ry_sent y @ out\<rparr>)"
| poll: "rank_try_finish_drain (ry_q y) = (q, out) \<Longrightarrow> rank_accept y (y\<lparr>ry_q := q, ry_sent := ry_sent y @ out\<rparr>)"

inductive rank_work :: "nat \<Rightarrow> rank_sys \<Rightarrow> rank_sys \<Rightarrow> bool" for threads where
  take: "length (ry_run y) < threads \<Longrightarrow> q_take (ry_q y) = Some (q, j)
    \<Longrightarrow> rank_work threads y (y\<lparr>ry_q := q, ry_run := j # ry_run y\<rparr>)"
| answer: "j \<in> set (ry_run y) \<Longrightarrow> rank_try_finish_drain (q_done (ry_q y)) = (q, out)
    \<Longrightarrow> rank_work threads y (y\<lparr>ry_q := q, ry_run := remove1 j (ry_run y), ry_sent := ry_sent y @ (jb_fd j, reply) # out\<rparr>)"

inductive rank_reach :: "nat \<Rightarrow> rank_sys \<Rightarrow> bool" for threads where
  start: "rank_reach threads \<lparr>ry_q = q_init, ry_run = [], ry_sent = []\<rparr>"
| accept: "rank_reach threads y \<Longrightarrow> rank_accept y y' \<Longrightarrow> rank_reach threads y'"
| work: "rank_reach threads y \<Longrightarrow> rank_work threads y y' \<Longrightarrow> rank_reach threads y'"

subsection \<open>The ring buffer is a queue\<close>

definition q_list :: "rank_q \<Rightarrow> job list" where
  "q_list q = map (\<lambda>i. rq_jobs q ! ((rq_head q + i) mod RANK_JOB_CAP)) [0..<rq_len q]"

definition q_ok :: "rank_q \<Rightarrow> bool" where
  "q_ok q \<longleftrightarrow> length (rq_jobs q) = RANK_JOB_CAP \<and> rq_len q \<le> RANK_JOB_CAP \<and> rq_head q < RANK_JOB_CAP
     \<and> rq_tail q = (rq_head q + rq_len q) mod RANK_JOB_CAP"

lemma q_list_length [simp]: "length (q_list q) = rq_len q"
  by (simp add: q_list_def)

text \<open>Positions of the ring at different distances from its head differ.\<close>

lemma ring_neq: "i < j \<Longrightarrow> j < 8 \<Longrightarrow> (h + i) mod (8::nat) \<noteq> (h + j) mod 8"
proof (rule notI)
  assume a: "i < j" "j < 8" "(h + i) mod 8 = (h + j) mod 8"
  then have "8 dvd (h + j) - (h + i)" by (subst mod_eq_dvd_iff_nat[symmetric]) simp_all
  then have "8 dvd j - i" by simp
  then show False using a(1,2) by (auto dest: dvd_imp_le)
qed

lemma q_put_list:
  assumes "q_ok q" "rq_len q < RANK_JOB_CAP"
  shows "q_ok (q_put q j) \<and> q_list (q_put q j) = q_list q @ [j]"
proof -
  let ?t = "(rq_head q + rq_len q) mod 8"
  have ok: "length (rq_jobs q) = 8" "rq_len q < 8" "rq_head q < 8" "rq_tail q = ?t"
    using assms by (simp_all add: q_ok_def RANK_JOB_CAP_def)
  have "(rq_jobs q)[?t := j] ! ((rq_head q + i) mod 8) = rq_jobs q ! ((rq_head q + i) mod 8)" if "i < rq_len q" for i
    using ring_neq[OF that ok(2), of "rq_head q"] by (metis nth_list_update_neq)
  moreover have "(rq_jobs q)[?t := j] ! ?t = j" using ok(1) by simp
  ultimately show ?thesis
    using ok by (simp add: q_ok_def q_list_def q_put_def RANK_JOB_CAP_def mod_Suc_eq)
qed

lemma q_take_list:
  assumes "q_ok q" "q_take q = Some (q', j)"
  shows "q_ok q' \<and> q_list q = j # q_list q' \<and> rq_in_flight q' = rq_in_flight q + 1
    \<and> rq_draining q' = rq_draining q \<and> rq_drain_fd q' = rq_drain_fd q \<and> rq_io_stop q' = rq_io_stop q"
proof -
  have ok: "length (rq_jobs q) = 8" "0 < rq_len q" "rq_len q \<le> 8" "rq_head q < 8" "rq_tail q = (rq_head q + rq_len q) mod 8"
    using assms by (simp_all add: q_ok_def q_take_def RANK_JOB_CAP_def split: if_splits)
  have q': "q' = q\<lparr>rq_jobs := (rq_jobs q)[rq_head q := job_zero], rq_head := (rq_head q + 1) mod 8, rq_len := rq_len q - 1,
      rq_in_flight := rq_in_flight q + 1\<rparr>" "j = rq_jobs q ! rq_head q"
    using assms(2) by (simp_all add: q_take_def RANK_JOB_CAP_def split: if_splits)
  obtain n where n: "rq_len q = Suc n" using ok(2) by (cases "rq_len q") auto
  have "(rq_jobs q)[rq_head q := job_zero] ! (((rq_head q + 1) mod 8 + i) mod 8) = rq_jobs q ! ((rq_head q + Suc i) mod 8)"
    if "i < n" for i
  proof -
    have "(rq_head q + 0) mod 8 \<noteq> (rq_head q + Suc i) mod 8" using that n ok(3) by (intro ring_neq) auto
    then have "rq_head q \<noteq> (rq_head q + Suc i) mod 8" using ok(4) by simp
    moreover have "((rq_head q + 1) mod 8 + i) mod 8 = (rq_head q + Suc i) mod 8" by (simp add: mod_simps)
    ultimately show ?thesis by (simp only:) (rule nth_list_update_neq, simp)
  qed
  then have tl: "map (\<lambda>i. rq_jobs q ! ((rq_head q + Suc i) mod 8)) [0..<n] = q_list q'"
    by (simp add: q_list_def q' n RANK_JOB_CAP_def)
  have "[0..<Suc n] = 0 # map Suc [0..<n]" by (simp add: upt_conv_Cons map_Suc_upt del: upt_Suc)
  then have "q_list q = rq_jobs q ! (rq_head q mod 8) # map (\<lambda>i. rq_jobs q ! ((rq_head q + Suc i) mod 8)) [0..<n]"
    by (simp only: q_list_def n RANK_JOB_CAP_def list.map map_map comp_def add_0_right)
  then have "q_list q = j # q_list q'" using ok(4) by (simp only: tl q'(2) mod_less)
  moreover have "((rq_head q + 1) mod 8 + n) mod 8 = (rq_head q + Suc n) mod 8" by (simp add: mod_simps)
  ultimately show ?thesis using ok n by (simp add: q_ok_def q' RANK_JOB_CAP_def)
qed

subsection \<open>Invariant\<close>

definition load :: "rank_q \<Rightarrow> nat" where
  "load q = 2 * rq_len q + rq_in_flight q"

definition q_inv :: "rank_q \<Rightarrow> bool" where
  "q_inv q \<longleftrightarrow> q_ok q \<and> (\<forall>fd. rq_drain_fd q = Some fd \<longrightarrow> rq_draining q \<and> 0 < load q)
     \<and> (rq_io_stop q \<longrightarrow> rq_draining q \<and> load q = 0)"

definition sys_inv :: "nat \<Rightarrow> rank_sys \<Rightarrow> bool" where
  "sys_inv threads y \<longleftrightarrow> q_inv (ry_q y) \<and> rq_in_flight (ry_q y) = length (ry_run y) \<and> length (ry_run y) \<le> threads"

text \<open>The end of a drain, in one equation.\<close>

lemma finish_cases:
  assumes "rank_try_finish_drain q = (q', out)"
  obtains (stay) "q' = q" "out = []" "rq_drain_fd q = None \<or> \<not> rq_draining q \<or> 0 < load q"
  | (close) fd where "rq_drain_fd q = Some fd" "rq_draining q" "load q = 0"
      "q' = q\<lparr>rq_drain_fd := None, rq_quit := True, rq_io_stop := True\<rparr>" "out = [(fd, frame_send ''OK'' [])]"
proof (cases "rq_draining q \<and> load q = 0")
  case False
  then have "rank_try_finish_drain q = (q, [])" by (auto simp: rank_try_finish_drain_def load_def)
  then show ?thesis using assms False stay by auto
next
  case True
  then have f: "rank_try_finish_drain q = (case rq_drain_fd q of None \<Rightarrow> (q, [])
      | Some fd \<Rightarrow> (q\<lparr>rq_drain_fd := None, rq_quit := True, rq_io_stop := True\<rparr>, [(fd, frame_send ''OK'' [])]))"
    by (simp add: rank_try_finish_drain_def load_def)
  show ?thesis
  proof (cases "rq_drain_fd q")
    case None
    then show ?thesis using f assms stay by simp
  next
    case (Some fd)
    then show ?thesis using f assms True close by simp
  qed
qed

lemma finish_inv:
  assumes "rank_try_finish_drain q = (q', out)" "q_ok q" "rq_drain_fd q \<noteq> None \<longrightarrow> rq_draining q"
    and "rq_io_stop q \<longrightarrow> rq_draining q \<and> load q = 0"
  shows "q_inv q' \<and> q_list q' = q_list q \<and> rq_len q' = rq_len q \<and> rq_in_flight q' = rq_in_flight q \<and> rq_draining q' = rq_draining q"
  using assms(1)
proof (cases rule: finish_cases)
  case stay
  then show ?thesis using assms by (auto simp: q_inv_def)
next
  case (close fd)
  then show ?thesis using assms by (auto simp: q_inv_def q_ok_def q_list_def load_def)
qed

text \<open>What one connection does to the queue.\<close>

lemma infer_job_Inr:
  assumes "infer_job mem member q fd args rest = Inr j"
  shows "\<not> rq_draining q \<and> rq_len q < RANK_JOB_CAP \<and> jb_fd j = fd"
  using assms by (auto simp: infer_job_def split: if_splits option.splits)

lemma conn_cases:
  assumes "rank_conn mem member stat q fd s = (q', out)"
  obtains (same) "q' = q" "map fst out = [fd]"
  | (drain) "rq_drain_fd q = None"
      "rank_try_finish_drain (q\<lparr>rq_draining := True, rq_quit := True, rq_drain_fd := Some fd\<rparr>) = (q', out)"
  | (put) j where "\<not> rq_draining q" "rq_len q < RANK_JOB_CAP" "q' = q_put q j" "out = []" "jb_fd j = fd"
proof (cases "frame_recv s")
  case None
  then show ?thesis using assms same by (auto simp: rank_conn_def)
next
  case (Some fr)
  obtain f rest where fr: "fr = (f, rest)" by (cases fr)
  show ?thesis
  proof (cases "fr_cmd f = ''DRAIN'' \<or> fr_cmd f = ''QUIT''")
    case True
    then show ?thesis using assms Some fr same drain by (auto simp: rank_conn_def split: if_splits)
  next
    case False
    show ?thesis
    proof (cases "fr_cmd f = ''INFER''")
      case True
      then have c: "(case infer_job mem member q fd (fr_args f) rest of Inl b \<Rightarrow> (q, [(fd, b)]) | Inr j \<Rightarrow> (q_put q j, [])) = (q', out)"
        using assms Some fr by (simp add: rank_conn_def)
      show ?thesis
      proof (cases "infer_job mem member q fd (fr_args f) rest")
        case (Inl b)
        then show ?thesis using c same by auto
      next
        case (Inr j)
        then show ?thesis using c put infer_job_Inr[OF Inr] by auto
      qed
    next
      case no: False
      then have "q' = q \<and> map fst out = [fd]" using assms Some fr False by (auto simp: rank_conn_def split: if_splits)
      then show ?thesis using same by blast
    qed
  qed
qed

lemma accept_cases:
  assumes "rank_accept y y'"
  obtains (conn) mem member stat fd s q out where "y' = y\<lparr>ry_q := q, ry_sent := ry_sent y @ out\<rparr>"
      "rank_conn mem member stat (ry_q y) fd s = (q, out)"
  | (poll) q out where "y' = y\<lparr>ry_q := q, ry_sent := ry_sent y @ out\<rparr>" "rank_try_finish_drain (ry_q y) = (q, out)"
  using assms by (cases rule: rank_accept.cases) blast+

lemma work_cases:
  assumes "rank_work threads y y'"
  obtains (take) q j where "y' = y\<lparr>ry_q := q, ry_run := j # ry_run y\<rparr>" "length (ry_run y) < threads" "q_take (ry_q y) = Some (q, j)"
  | (answer) j q out reply where
      "y' = y\<lparr>ry_q := q, ry_run := remove1 j (ry_run y), ry_sent := ry_sent y @ (jb_fd j, reply) # out\<rparr>"
      "j \<in> set (ry_run y)" "rank_try_finish_drain (q_done (ry_q y)) = (q, out)"
  using assms by (cases rule: rank_work.cases) blast+

lemma accept_inv:
  assumes "rank_accept y y'" "sys_inv threads y"
  shows "sys_inv threads y' \<and> (rq_draining (ry_q y) \<longrightarrow> rq_draining (ry_q y') \<and> load (ry_q y') = load (ry_q y))"
  using assms(1)
proof (cases rule: accept_cases)
  case (conn mem member stat fd s q out)
  have i: "q_inv (ry_q y)" "rq_in_flight (ry_q y) = length (ry_run y)" "length (ry_run y) \<le> threads"
    and st: "rq_io_stop (ry_q y) \<longrightarrow> rq_draining (ry_q y) \<and> load (ry_q y) = 0"
    using assms(2) by (simp_all add: sys_inv_def q_inv_def)
  from conn(2) show ?thesis
  proof (cases rule: conn_cases)
    case same
    then show ?thesis using conn i by (simp add: sys_inv_def)
  next
    case drain
    have "q_ok (ry_q y\<lparr>rq_draining := True, rq_quit := True, rq_drain_fd := Some fd\<rparr>)"
      using i(1) by (simp add: q_inv_def q_ok_def)
    from finish_inv[OF drain(2) this] i st show ?thesis
      unfolding conn(1) by (simp add: sys_inv_def load_def)
  next
    case (put j)
    have "q_ok (q_put (ry_q y) j)" using q_put_list[OF _ put(2), of j] i(1) by (simp add: q_inv_def)
    moreover have "rq_drain_fd (ry_q y) = None" using put(1) i(1) by (cases "rq_drain_fd (ry_q y)") (auto simp: q_inv_def)
    ultimately show ?thesis using put conn(1) i st by (simp add: sys_inv_def q_inv_def q_put_def load_def)
  qed
next
  case (poll q out)
  have "q_ok (ry_q y)" "rq_drain_fd (ry_q y) \<noteq> None \<longrightarrow> rq_draining (ry_q y)"
    "rq_io_stop (ry_q y) \<longrightarrow> rq_draining (ry_q y) \<and> load (ry_q y) = 0"
    using assms(2) by (auto simp: sys_inv_def q_inv_def)
  from finish_inv[OF poll(2) this] assms(2) show ?thesis
    unfolding poll(1) by (auto simp: sys_inv_def load_def)
qed

lemma work_inv:
  assumes "rank_work threads y y'" "sys_inv threads y"
  shows "sys_inv threads y' \<and> load (ry_q y') < load (ry_q y) \<and> rq_draining (ry_q y') = rq_draining (ry_q y)"
  using assms(1)
proof (cases rule: work_cases)
  case (take q j)
  have t: "q_ok q" "q_list (ry_q y) = j # q_list q" "rq_in_flight q = rq_in_flight (ry_q y) + 1"
    "rq_draining q = rq_draining (ry_q y)" "rq_drain_fd q = rq_drain_fd (ry_q y)" "rq_io_stop q = rq_io_stop (ry_q y)"
    using q_take_list[OF _ take(3)] assms(2) by (auto simp: sys_inv_def q_inv_def)
  have "rq_len (ry_q y) = Suc (rq_len q)" using arg_cong[OF t(2), of length] by simp
  then show ?thesis using t take(1,2) assms(2) by (auto simp: sys_inv_def q_inv_def load_def)
next
  case (answer j q out reply)
  have i: "q_inv (ry_q y)" "rq_in_flight (ry_q y) = length (ry_run y)" "length (ry_run y) \<le> threads"
    using assms(2) by (simp_all add: sys_inv_def)
  have r: "length (remove1 j (ry_run y)) = length (ry_run y) - 1" "0 < length (ry_run y)"
    using answer(2) by (auto simp: length_remove1)
  have "q_ok (q_done (ry_q y))" using i(1) by (simp add: q_inv_def q_ok_def q_done_def)
  moreover have "rq_drain_fd (q_done (ry_q y)) \<noteq> None \<longrightarrow> rq_draining (q_done (ry_q y))"
    "rq_io_stop (q_done (ry_q y)) \<longrightarrow> rq_draining (q_done (ry_q y)) \<and> load (q_done (ry_q y)) = 0"
    using i(1) by (auto simp: q_inv_def q_done_def load_def)
  ultimately show ?thesis
    using finish_inv[OF answer(3)] i r unfolding answer(1) by (auto simp: sys_inv_def load_def q_done_def)
qed

lemma reach_inv: "rank_reach threads y \<Longrightarrow> sys_inv threads y"
proof (induction rule: rank_reach.induct)
  case start
  show ?case by (simp add: sys_inv_def q_inv_def q_ok_def q_init_def load_def RANK_JOB_CAP_def)
qed (use accept_inv work_inv in blast)+

subsection \<open>Draining comes to its end\<close>

lemma reach_sent_grows:
  "rank_accept y y' \<Longrightarrow> set (ry_sent y) \<subseteq> set (ry_sent y')"
  "rank_work threads y y' \<Longrightarrow> set (ry_sent y) \<subseteq> set (ry_sent y')"
  by (auto elim!: accept_cases work_cases)

text \<open>While a drain is pending, its connection is kept or has been answered.\<close>

definition drain_pending :: "nat \<Rightarrow> rank_sys \<Rightarrow> bool" where
  "drain_pending fd y \<longleftrightarrow> rq_drain_fd (ry_q y) = Some fd
     \<or> (fd, frame_send ''OK'' []) \<in> set (ry_sent y) \<and> rq_io_stop (ry_q y)"

lemma finish_pending:
  assumes "rank_try_finish_drain q = (q', out)"
  shows "rq_drain_fd q' = rq_drain_fd q \<and> rq_io_stop q' = rq_io_stop q
    \<or> rq_io_stop q' \<and> (\<forall>fd. rq_drain_fd q = Some fd \<longrightarrow> (fd, frame_send ''OK'' []) \<in> set out)"
  using assms by (cases rule: finish_cases) auto

lemma accept_pending:
  assumes "rank_accept y y'" "drain_pending fd y"
  shows "drain_pending fd y'"
  using assms(1)
proof (cases rule: accept_cases)
  case (conn mem member stat fd' s q out)
  from conn(2) show ?thesis
  proof (cases rule: conn_cases)
    case drain
    then show ?thesis using assms(2) conn(1) finish_pending[OF drain(2)] by (auto simp: drain_pending_def)
  qed (use assms(2) conn(1) in \<open>auto simp: drain_pending_def q_put_def\<close>)
next
  case (poll q out)
  then show ?thesis using assms(2) finish_pending[OF poll(2)] by (auto simp: drain_pending_def)
qed

lemma work_pending:
  assumes "rank_work threads y y'" "drain_pending fd y"
  shows "drain_pending fd y'"
  using assms(1)
proof (cases rule: work_cases)
  case (take q j)
  then have "rq_drain_fd q = rq_drain_fd (ry_q y) \<and> rq_io_stop q = rq_io_stop (ry_q y)" by (auto simp: q_take_def split: if_splits)
  then show ?thesis using assms(2) take(1) by (auto simp: drain_pending_def)
next
  case (answer j q out reply)
  then show ?thesis using assms(2) finish_pending[OF answer(3)] by (auto simp: drain_pending_def q_done_def)
qed

lemma work_possible:
  assumes "sys_inv threads y" "0 < threads" "0 < load (ry_q y)"
  shows "\<exists>y'. rank_work threads y y'"
proof (cases "ry_run y")
  case Nil
  then have "rq_len (ry_q y) \<noteq> 0" using assms(1,3) by (auto simp: sys_inv_def load_def)
  then obtain q j where "q_take (ry_q y) = Some (q, j)" by (simp add: q_take_def)
  then have "rank_work threads y (y\<lparr>ry_q := q, ry_run := j # ry_run y\<rparr>)"
    using Nil assms(2) by (intro rank_work.take) simp_all
  then show ?thesis by blast
next
  case (Cons j js)
  obtain q out where "rank_try_finish_drain (q_done (ry_q y)) = (q, out)" by fastforce
  then show ?thesis using Cons rank_work.answer[of j y q out threads "[]"] by auto
qed

text \<open>An infinite run, and fairness: workers that can go on do so some time.\<close>

definition rank_run :: "nat \<Rightarrow> (nat \<Rightarrow> rank_sys) \<Rightarrow> bool" where
  "rank_run threads f \<longleftrightarrow> f 0 = \<lparr>ry_q = q_init, ry_run = [], ry_sent = []\<rparr>
     \<and> (\<forall>i. f (Suc i) = f i \<or> rank_accept (f i) (f (Suc i)) \<or> rank_work threads (f i) (f (Suc i)))"

definition fair_workers :: "nat \<Rightarrow> (nat \<Rightarrow> rank_sys) \<Rightarrow> bool" where
  "fair_workers threads f \<longleftrightarrow>
     (\<forall>i. (\<exists>y'. rank_work threads (f i) y') \<longrightarrow> (\<exists>j\<ge>i. rank_work threads (f j) (f (Suc j))))"

lemma run_inv: "rank_run threads f \<Longrightarrow> sys_inv threads (f i)"
proof (induction i)
  case 0
  then show ?case by (simp add: rank_run_def) (rule reach_inv, rule rank_reach.start)
next
  case (Suc i)
  then have "f (Suc i) = f i \<or> rank_accept (f i) (f (Suc i)) \<or> rank_work threads (f i) (f (Suc i))"
    by (simp add: rank_run_def)
  then show ?case using Suc accept_inv work_inv by metis
qed

lemma run_drain_keeps:
  assumes "rank_run threads f" "rq_draining (ry_q (f i))" "i \<le> j"
  shows "rq_draining (ry_q (f j)) \<and> load (ry_q (f j)) \<le> load (ry_q (f i)) \<and> (drain_pending fd (f i) \<longrightarrow> drain_pending fd (f j))"
  using assms(3)
proof (induction j rule: dec_induct)
  case base
  then show ?case using assms(2) by simp
next
  case (step k)
  have "f (Suc k) = f k \<or> rank_accept (f k) (f (Suc k)) \<or> rank_work threads (f k) (f (Suc k))"
    using assms(1) by (simp add: rank_run_def)
  then show ?case
  proof (elim disjE)
    assume "rank_accept (f k) (f (Suc k))"
    from accept_inv[OF this run_inv[OF assms(1)]] accept_pending[OF this, of fd] step.IH show ?thesis by auto
  next
    assume "rank_work threads (f k) (f (Suc k))"
    from work_inv[OF this run_inv[OF assms(1)]] work_pending[OF this, of fd] step.IH show ?thesis by auto
  qed (use step.IH in simp)
qed

lemma drain_ends:
  assumes "rank_run threads f" "fair_workers threads f" "0 < threads"
  shows "rq_draining (ry_q (f i)) \<Longrightarrow> drain_pending fd (f i) \<Longrightarrow> \<exists>j\<ge>i. (fd, frame_send ''OK'' []) \<in> set (ry_sent (f j)) \<and> rq_io_stop (ry_q (f j))"
proof (induction "load (ry_q (f i))" arbitrary: i rule: less_induct)
  case less
  show ?case
  proof (cases "load (ry_q (f i)) = 0")
    case True
    then have "rq_drain_fd (ry_q (f i)) \<noteq> Some fd" using run_inv[OF assms(1), of i] by (auto simp: sys_inv_def q_inv_def)
    then show ?thesis using less.prems(2) by (auto simp: drain_pending_def)
  next
    case False
    then obtain j where j: "i \<le> j" "rank_work threads (f j) (f (Suc j))"
      using work_possible[OF run_inv[OF assms(1), of i] assms(3)] assms(2) by (auto simp: fair_workers_def)
    have k: "rq_draining (ry_q (f j))" "load (ry_q (f j)) \<le> load (ry_q (f i))" "drain_pending fd (f j)"
      using run_drain_keeps[OF assms(1) less.prems(1) j(1)] less.prems(2) by auto
    have "load (ry_q (f (Suc j))) < load (ry_q (f i))" "rq_draining (ry_q (f (Suc j)))"
      using work_inv[OF j(2) run_inv[OF assms(1)]] k by auto
    from less.hyps[OF this work_pending[OF j(2) k(3)]] j(1) show ?thesis by (meson Suc_leD le_trans)
  qed
qed

subsection \<open>The ring buffer behind its contract\<close>

text \<open>What the threads rely on, for any bounded queue, and what follows for a sequence of calls.\<close>

datatype 'j q_op = Put 'j | Take

fun q_run :: "('q \<Rightarrow> 'j \<Rightarrow> 'q) \<Rightarrow> ('q \<Rightarrow> ('q \<times> 'j) option) \<Rightarrow> ('q \<Rightarrow> bool) \<Rightarrow> 'j q_op list \<Rightarrow> 'q \<Rightarrow> 'j list \<times> 'j list \<times> 'q" where
  "q_run put tk full [] q = ([], [], q)"
| "q_run put tk full (Put j # ops) q =
     (if full q then q_run put tk full ops q
      else (case q_run put tk full ops (put q j) of (ins, outs, q') \<Rightarrow> (j # ins, outs, q')))"
| "q_run put tk full (Take # ops) q =
     (case tk q of
        None \<Rightarrow> q_run put tk full ops q
      | Some (q1, j) \<Rightarrow> (case q_run put tk full ops q1 of (ins, outs, q') \<Rightarrow> (ins, j # outs, q')))"

locale fifo =
  fixes put :: "'q \<Rightarrow> 'j \<Rightarrow> 'q" and tk :: "'q \<Rightarrow> ('q \<times> 'j) option" and full :: "'q \<Rightarrow> bool"
    and items :: "'q \<Rightarrow> 'j list" and ok :: "'q \<Rightarrow> bool" and cap :: nat
  assumes put_items: "ok q \<Longrightarrow> \<not> full q \<Longrightarrow> ok (put q j) \<and> items (put q j) = items q @ [j]"
    and take_items: "ok q \<Longrightarrow> tk q = Some (q', j) \<Longrightarrow> ok q' \<and> items q = j # items q'"
    and take_empty: "ok q \<Longrightarrow> tk q = None \<longleftrightarrow> items q = []"
    and full_iff: "ok q \<Longrightarrow> full q \<longleftrightarrow> length (items q) = cap"
    and bounded: "ok q \<Longrightarrow> length (items q) \<le> cap"
begin

lemma run_order: "ok q \<Longrightarrow> q_run put tk full ops q = (ins, outs, q') \<Longrightarrow> ok q' \<and> items q @ ins = outs @ items q'"
proof (induction ops arbitrary: q ins outs q')
  case (Cons op ops)
  show ?case
  proof (cases op)
    case (Put j)
    then show ?thesis using Cons put_items[OF Cons.prems(1), of j]
      by (cases "full q") (fastforce split: prod.splits)+
  next
    case Take
    show ?thesis
    proof (cases "tk q")
      case None
      then show ?thesis using Cons Take by simp
    next
      case (Some x)
      obtain q1 j where x: "x = (q1, j)" by (cases x)
      obtain i o1 q2 where r: "q_run put tk full ops q1 = (i, o1, q2)" by (cases "q_run put tk full ops q1") auto
      have t: "ok q1" "items q = j # items q1" using take_items[OF Cons.prems(1)] Some x by auto
      have e: "ins = i" "outs = j # o1" "q' = q2" using Cons.prems(2) Take Some x r by auto
      show ?thesis using Cons.IH[OF t(1) r] t(2) unfolding e by simp
    qed
  qed
qed simp

lemma run_bounded: "ok q \<Longrightarrow> q_run put tk full ops q = (ins, outs, q') \<Longrightarrow> length (items q) + length ins \<le> length outs + cap"
proof -
  assume a: "ok q" "q_run put tk full ops q = (ins, outs, q')"
  have "length (items q') \<le> cap" using run_order[OF a] bounded by simp
  moreover have "length (items q @ ins) = length (outs @ items q')" using run_order[OF a] by simp
  ultimately show ?thesis by simp
qed

end

definition q_full :: "rank_q \<Rightarrow> bool" where "q_full q \<longleftrightarrow> rq_len q \<ge> RANK_JOB_CAP"

interpretation ring: fifo q_put q_take q_full q_list q_ok RANK_JOB_CAP
proof unfold_locales
  fix q q' and j :: job
  assume ok: "q_ok q"
  then have len: "rq_len q \<le> RANK_JOB_CAP" by (simp add: q_ok_def)
  show "q_ok (q_put q j) \<and> q_list (q_put q j) = q_list q @ [j]" if "\<not> q_full q"
    using q_put_list[OF ok] that by (simp add: q_full_def)
  show "q_ok q' \<and> q_list q = j # q_list q'" if "q_take q = Some (q', j)"
    using q_take_list[OF ok that] by simp
  show "q_take q = None \<longleftrightarrow> q_list q = []"
    using q_list_length[of q] by (auto simp: q_take_def simp del: q_list_length)
  show "q_full q \<longleftrightarrow> length (q_list q) = RANK_JOB_CAP" using len by (auto simp: q_full_def)
  show "length (q_list q) \<le> RANK_JOB_CAP" using len by simp
qed

lemma q_init_ok: "q_ok q_init" "q_list q_init = []"
  by (simp_all add: q_ok_def q_init_def q_list_def RANK_JOB_CAP_def)

subsection \<open>The rank as a queue server\<close>

text \<open>The specification: jobs wait in order of arrival, at most 8; at most \<open>threads\<close> are served.\<close>

inductive serve_step :: "nat \<Rightarrow> job list \<times> job list \<Rightarrow> job list \<times> job list \<Rightarrow> bool" for threads where
  arrive: "length w < RANK_JOB_CAP \<Longrightarrow> serve_step threads (w, run) (w @ [j], run)"
| start: "length run < threads \<Longrightarrow> serve_step threads (j # w, run) (w, j # run)"
| finish: "j \<in> set run \<Longrightarrow> serve_step threads (w, run) (w, remove1 j run)"

definition serve_abs :: "rank_sys \<Rightarrow> job list \<times> job list" where
  "serve_abs y = (q_list (ry_q y), ry_run y)"

lemma q_list_cong: "rq_jobs q = rq_jobs q' \<Longrightarrow> rq_head q = rq_head q' \<Longrightarrow> rq_len q = rq_len q' \<Longrightarrow> q_list q = q_list q'"
  by (simp add: q_list_def)

lemma finish_list: "rank_try_finish_drain q = (q', out) \<Longrightarrow> q_list q' = q_list q"
  by (erule finish_cases) (auto intro: q_list_cong)

lemma accept_simulated:
  assumes "rank_accept y y'" "sys_inv threads y"
  shows "serve_abs y' = serve_abs y \<or> \<not> rq_draining (ry_q y) \<and> serve_step threads (serve_abs y) (serve_abs y')"
  using assms(1)
proof (cases rule: accept_cases)
  case (conn mem member stat fd s q out)
  from conn(2) show ?thesis
  proof (cases rule: conn_cases)
    case drain
    from finish_list[OF drain(2)] have "q_list q = q_list (ry_q y)" by (simp add: q_list_def)
    then show ?thesis using conn(1) by (simp add: serve_abs_def)
  next
    case (put j)
    have "q_list q = q_list (ry_q y) @ [j]"
      using q_put_list[OF _ put(2), of j] put(3) assms(2) by (simp add: sys_inv_def q_inv_def)
    then show ?thesis using conn(1) put(1,2) serve_step.arrive[of "q_list (ry_q y)"] by (simp add: serve_abs_def)
  qed (use conn(1) in \<open>simp add: serve_abs_def\<close>)
next
  case (poll q out)
  then show ?thesis using finish_list[OF poll(2)] by (simp add: serve_abs_def)
qed

lemma work_simulated:
  assumes "rank_work threads y y'" "sys_inv threads y"
  shows "serve_step threads (serve_abs y) (serve_abs y')"
  using assms(1)
proof (cases rule: work_cases)
  case (take q j)
  then have "q_list (ry_q y) = j # q_list q" using q_take_list[OF _ take(3)] assms(2) by (auto simp: sys_inv_def q_inv_def)
  then show ?thesis using take serve_step.start[of "ry_run y"] by (simp add: serve_abs_def)
next
  case (answer j q out reply)
  have "q_list q = q_list (ry_q y)" using finish_list[OF answer(3)] by (simp add: q_list_def q_done_def)
  then show ?thesis using answer serve_step.finish[of j "ry_run y"] by (simp add: serve_abs_def)
qed

lemma stopped_empty: "sys_inv threads y \<Longrightarrow> rq_io_stop (ry_q y) \<Longrightarrow> serve_abs y = ([], [])"
  using q_list_length[of "ry_q y"]
  by (auto simp: sys_inv_def q_inv_def load_def serve_abs_def simp del: q_list_length)

lemma load_abs: "sys_inv threads y \<Longrightarrow> fst (rank_load (ry_q y)) = length (fst (serve_abs y)) + length (snd (serve_abs y))"
  by (simp add: sys_inv_def rank_load_def serve_abs_def)

subsection \<open>What is answered before the end\<close>

text \<open>The connections of the jobs that wait or run.\<close>

definition outstanding :: "rank_sys \<Rightarrow> nat multiset" where
  "outstanding y = mset (map jb_fd (fst (serve_abs y) @ snd (serve_abs y)))"

lemma remove1_fds: "j \<in> set js \<Longrightarrow> mset (map jb_fd js) = add_mset (jb_fd j) (mset (map jb_fd (remove1 j js)))"
  by (induction js) auto

lemma accept_answers:
  assumes "rank_accept y y'" "sys_inv threads y"
  shows "\<exists>out. ry_sent y' = ry_sent y @ out \<and> outstanding y \<subseteq># outstanding y'"
  using assms(1)
proof (cases rule: accept_cases)
  case (conn mem member stat fd s q out)
  from conn(2) show ?thesis
  proof (cases rule: conn_cases)
    case drain
    from finish_list[OF drain(2)] have "q_list q = q_list (ry_q y)" by (simp add: q_list_def)
    then show ?thesis using conn(1) by (simp add: outstanding_def serve_abs_def)
  next
    case (put j)
    have "q_list q = q_list (ry_q y) @ [j]"
      using q_put_list[OF _ put(2), of j] put(3) assms(2) by (simp add: sys_inv_def q_inv_def)
    then show ?thesis using conn(1) by (simp add: outstanding_def serve_abs_def)
  qed (use conn(1) in \<open>simp add: outstanding_def serve_abs_def\<close>)
next
  case (poll q out)
  then show ?thesis using finish_list[OF poll(2)] by (simp add: outstanding_def serve_abs_def)
qed

lemma work_answers:
  assumes "rank_work threads y y'" "sys_inv threads y"
  shows "\<exists>out. ry_sent y' = ry_sent y @ out \<and> outstanding y \<subseteq># outstanding y' + mset (map fst out)"
  using assms(1)
proof (cases rule: work_cases)
  case (take q j)
  then have "q_list (ry_q y) = j # q_list q" using q_take_list[OF _ take(3)] assms(2) by (auto simp: sys_inv_def q_inv_def)
  then show ?thesis using take(1) by (simp add: outstanding_def serve_abs_def)
next
  case (answer j q out reply)
  have "q_list q = q_list (ry_q y)" using finish_list[OF answer(3)] by (simp add: q_list_def q_done_def)
  moreover have "mset (map jb_fd (ry_run y)) = add_mset (jb_fd j) (mset (map jb_fd (remove1 j (ry_run y))))"
    using answer(2) by (rule remove1_fds)
  ultimately show ?thesis using answer(1)
    by (intro exI[of _ "(jb_fd j, reply) # out"]) (simp add: outstanding_def serve_abs_def del: mset_map mset_remove1)
qed

text \<open>The step in which the connection of the drain disappears sends \<open>OK\<close> as the last thing.\<close>

lemma finish_closes:
  assumes "rank_try_finish_drain q = (q', out)" "rq_drain_fd q = Some fd" "rq_drain_fd q' \<noteq> Some fd"
  shows "rq_drain_fd q' = None \<and> rq_io_stop q' \<and> out = [(fd, frame_send ''OK'' [])]"
  using assms(1) by (cases rule: finish_cases) (use assms(2,3) in auto)

lemma accept_closes:
  assumes "rank_accept y y'" "sys_inv threads y" "rq_drain_fd (ry_q y) = Some fd" "rq_drain_fd (ry_q y') \<noteq> Some fd"
  shows "rq_drain_fd (ry_q y') = None \<and> rq_io_stop (ry_q y') \<and> ry_sent y' = ry_sent y @ [(fd, frame_send ''OK'' [])]
    \<and> outstanding y \<subseteq># outstanding y'"
proof -
  have "rq_drain_fd (ry_q y') = None \<and> rq_io_stop (ry_q y') \<and> ry_sent y' = ry_sent y @ [(fd, frame_send ''OK'' [])]"
    using assms(1)
  proof (cases rule: accept_cases)
    case (conn mem member stat fd' s q out)
    from conn(2) show ?thesis
      by (cases rule: conn_cases) (use assms(3,4) conn(1) in \<open>auto simp: q_put_def\<close>)
  next
    case (poll q out)
    then show ?thesis using finish_closes[OF poll(2) assms(3)] assms(4) by simp
  qed
  then show ?thesis using accept_answers[OF assms(1,2)] by simp
qed

lemma work_closes:
  assumes "rank_work threads y y'" "sys_inv threads y" "rq_drain_fd (ry_q y) = Some fd" "rq_drain_fd (ry_q y') \<noteq> Some fd"
  shows "rq_drain_fd (ry_q y') = None \<and> rq_io_stop (ry_q y') \<and>
    (\<exists>out. ry_sent y' = ry_sent y @ out @ [(fd, frame_send ''OK'' [])] \<and> outstanding y \<subseteq># outstanding y' + mset (map fst out))"
  using assms(1)
proof (cases rule: work_cases)
  case (take q j)
  then show ?thesis using assms(3,4) by (auto simp: q_take_def split: if_splits)
next
  case (answer j q out reply)
  have c: "rq_drain_fd q = None" "rq_io_stop q" "out = [(fd, frame_send ''OK'' [])]"
    using finish_closes[OF answer(3), of fd] assms(3,4) answer(1) by (simp_all add: q_done_def)
  have "q_list q = q_list (ry_q y)" using finish_list[OF answer(3)] by (simp add: q_list_def q_done_def)
  moreover have "mset (map jb_fd (ry_run y)) = add_mset (jb_fd j) (mset (map jb_fd (remove1 j (ry_run y))))"
    using answer(2) by (rule remove1_fds)
  ultimately show ?thesis using answer(1) c
    by (intro conjI exI[of _ "[(jb_fd j, reply)]"]) (simp_all add: outstanding_def serve_abs_def del: mset_map mset_remove1)
qed

lemma run_answers:
  assumes "rank_run threads f" "i \<le> j"
  shows "\<exists>out. ry_sent (f j) = ry_sent (f i) @ out \<and> outstanding (f i) \<subseteq># outstanding (f j) + mset (map fst out)"
  using assms(2)
proof (induction j rule: dec_induct)
  case base
  then show ?case by simp
next
  case (step k)
  then obtain out where o: "ry_sent (f k) = ry_sent (f i) @ out" "outstanding (f i) \<subseteq># outstanding (f k) + mset (map fst out)" by blast
  have "f (Suc k) = f k \<or> rank_accept (f k) (f (Suc k)) \<or> rank_work threads (f k) (f (Suc k))"
    using assms(1) by (simp add: rank_run_def)
  then obtain out' where o': "ry_sent (f (Suc k)) = ry_sent (f k) @ out'" "outstanding (f k) \<subseteq># outstanding (f (Suc k)) + mset (map fst out')"
  proof (elim disjE)
    assume "rank_accept (f k) (f (Suc k))"
    from accept_answers[OF this run_inv[OF assms(1)]] show ?thesis
      using that by (metis mset_subset_eq_add_left subset_mset.order_trans)
  next
    assume "rank_work threads (f k) (f (Suc k))"
    from work_answers[OF this run_inv[OF assms(1)]] show ?thesis using that by blast
  qed (use that[of "[]"] in simp)
  have "outstanding (f i) \<subseteq># outstanding (f (Suc k)) + mset (map fst out') + mset (map fst out)"
    using o(2) o'(2) by (meson mset_subset_eq_mono_add subset_mset.order_trans subset_mset.order_refl)
  then show ?case using o(1) o'(1) by (intro exI[of _ "out @ out'"]) (simp add: ac_simps)
qed

subsection \<open>Properties\<close>

text \<open>C28: The ring of 8 jobs is a queue: for every sequence of calls that put jobs into it (when
  there is room) and take jobs out, starting from the empty queue, the jobs that went in are the jobs
  that came out, in that order, followed by those still waiting, of which there are at most 8.\<close>

theorem rank_ring_order:
  assumes "q_run q_put q_take q_full ops q_init = (ins, outs, q)"
  shows "ins = outs @ q_list q \<and> length (q_list q) \<le> RANK_JOB_CAP"
  using ring.run_order[OF q_init_ok(1) assms] ring.bounded[of q] by (simp_all add: q_init_ok(2))

definition job_no :: "nat \<Rightarrow> job" where
  "job_no i = \<lparr>jb_fd = i, jb_args = ''16 0'', jb_payload = []\<rparr>"

text \<open>Nine puts into eight places, then two jobs come out and two more fit: the head has passed
  the end of the array.\<close>

theorem rank_ring_order_witness:
  "map jb_fd (case q_run q_put q_take q_full (map (Put o job_no) [0..<9] @ [Take, Take, Put (job_no 9), Put (job_no 10), Put (job_no 11)]) q_init of
     (ins, outs, q) \<Rightarrow> outs @ q_list q) = [0, 1, 2, 3, 4, 5, 6, 7, 9, 10]"
proof -
  let ?ops = "map (Put o job_no) [0..<9] @ [Take, Take, Put (job_no 9), Put (job_no 10), Put (job_no 11)]"
  obtain ins outs q where r: "q_run q_put q_take q_full ?ops q_init = (ins, outs, q)"
    by (cases "q_run q_put q_take q_full ?ops q_init") auto
  have "map jb_fd (fst (q_run q_put q_take q_full ?ops q_init)) = [0, 1, 2, 3, 4, 5, 6, 7, 9, 10]" by code_simp
  then show ?thesis using rank_ring_order[OF r] r by simp
qed

text \<open>C4: The rank's threads implement a queue server. In every reachable state each step of the
  accepting thread or of a worker is a step of the specification (a job arrives at the end while
  fewer than 8 wait, the first waiting job is started while fewer than \<open>threads\<close> run, a running job
  finishes) or leaves the waiting and the running jobs as they are; the accepting thread adds none
  once a drain has begun; the load reported to the supervisor counts exactly these jobs; and when
  the rank stops none is left.\<close>

theorem rank_refines_queue:
  assumes "rank_reach threads y"
  shows "(rank_accept y y' \<longrightarrow> serve_abs y' = serve_abs y \<or> \<not> rq_draining (ry_q y) \<and> serve_step threads (serve_abs y) (serve_abs y'))
    \<and> (rank_work threads y y' \<longrightarrow> serve_step threads (serve_abs y) (serve_abs y'))
    \<and> fst (rank_load (ry_q y)) = length (fst (serve_abs y)) + length (snd (serve_abs y))
    \<and> (rq_io_stop (ry_q y) \<longrightarrow> serve_abs y = ([], []))"
  using accept_simulated[of y y' threads] work_simulated[of threads y y'] reach_inv[OF assms] load_abs stopped_empty
  by blast

text \<open>C7: A drain comes to its end, and not too early: in every fair run of the threads (a worker that
  can take or answer a job does so at some later time) of a rank with a worker, there is one step \<open>j\<close>
  in which a connection whose \<open>DRAIN\<close> has been accepted is released. The last thing this step sends
  is its \<open>OK\<close>; every job that waited or ran when the drain was pending has been answered between
  the two (\<open>new\<close> holds the answers, one for every job); and no job waits or runs any more.\<close>

theorem rank_drain_ends:
  assumes "rank_run threads f" "fair_workers threads f" "0 < threads" "rq_drain_fd (ry_q (f i)) = Some fd"
  shows "\<exists>j\<ge>i. (\<forall>k. i \<le> k \<and> k \<le> j \<longrightarrow> rq_drain_fd (ry_q (f k)) = Some fd) \<and> rq_drain_fd (ry_q (f (Suc j))) = None \<and>
    (\<exists>new. ry_sent (f (Suc j)) = ry_sent (f i) @ new @ [(fd, frame_send ''OK'' [])] \<and>
       mset (map jb_fd (fst (serve_abs (f i)) @ snd (serve_abs (f i)))) \<subseteq># mset (map fst new)) \<and>
    serve_abs (f (Suc j)) = ([], [])"
proof -
  have "rq_draining (ry_q (f i))" "drain_pending fd (f i)"
    using run_inv[OF assms(1), of i] assms(4) by (auto simp: sys_inv_def q_inv_def drain_pending_def)
  from drain_ends[OF assms(1-3) this] obtain n where n: "i \<le> n" "rq_io_stop (ry_q (f n))" by blast
  then have "rq_drain_fd (ry_q (f n)) \<noteq> Some fd" using run_inv[OF assms(1), of n] by (auto simp: sys_inv_def q_inv_def)
  then have ex: "rq_drain_fd (ry_q (f (i + (n - i)))) \<noteq> Some fd" using n(1) by simp
  define d where "d = (LEAST d. rq_drain_fd (ry_q (f (i + d))) \<noteq> Some fd)"
  have d: "rq_drain_fd (ry_q (f (i + d))) \<noteq> Some fd" "\<And>e. e < d \<Longrightarrow> rq_drain_fd (ry_q (f (i + e))) = Some fd"
    using LeastI[of "\<lambda>d. rq_drain_fd (ry_q (f (i + d))) \<noteq> Some fd", OF ex] not_less_Least[of _ "\<lambda>d. rq_drain_fd (ry_q (f (i + d))) \<noteq> Some fd"]
    unfolding d_def by blast+
  then have "d \<noteq> 0" using assms(4) by (cases d) auto
  then obtain e where e: "d = Suc e" by (cases d) auto
  let ?j = "i + e"
  have before: "rq_drain_fd (ry_q (f k)) = Some fd" if "i \<le> k" "k \<le> ?j" for k
    using d(2)[of "k - i"] that e by simp
  have open': "rq_drain_fd (ry_q (f ?j)) = Some fd" "rq_drain_fd (ry_q (f (Suc ?j))) \<noteq> Some fd"
    using before[of ?j] d(1) e by simp_all
  have "f (Suc ?j) = f ?j \<or> rank_accept (f ?j) (f (Suc ?j)) \<or> rank_work threads (f ?j) (f (Suc ?j))"
    using assms(1) by (simp add: rank_run_def)
  then obtain last where c: "rq_drain_fd (ry_q (f (Suc ?j))) = None" "rq_io_stop (ry_q (f (Suc ?j)))"
    "ry_sent (f (Suc ?j)) = ry_sent (f ?j) @ last @ [(fd, frame_send ''OK'' [])]"
    "outstanding (f ?j) \<subseteq># outstanding (f (Suc ?j)) + mset (map fst last)"
  proof (elim disjE)
    assume "rank_accept (f ?j) (f (Suc ?j))"
    from accept_closes[OF this run_inv[OF assms(1)] open'] show ?thesis using that[of "[]"] by simp
  next
    assume "rank_work threads (f ?j) (f (Suc ?j))"
    from work_closes[OF this run_inv[OF assms(1)] open'] show ?thesis using that by blast
  qed (use open' in simp)
  have none: "serve_abs (f (Suc ?j)) = ([], [])" using stopped_empty[OF run_inv[OF assms(1)] c(2)] .
  obtain out where o: "ry_sent (f ?j) = ry_sent (f i) @ out" "outstanding (f i) \<subseteq># outstanding (f ?j) + mset (map fst out)"
    using run_answers[OF assms(1), of i ?j] by auto
  have "outstanding (f (Suc ?j)) = {#}" using none by (simp add: outstanding_def)
  then have "outstanding (f ?j) \<subseteq># mset (map fst last)" using c(4) by simp
  from subset_mset.order_trans[OF o(2) mset_subset_eq_mono_add[OF this subset_mset.order_refl]]
  have "outstanding (f i) \<subseteq># mset (map fst last) + mset (map fst out)" .
  then have "mset (map jb_fd (fst (serve_abs (f i)) @ snd (serve_abs (f i)))) \<subseteq># mset (map fst (out @ last))"
    by (simp add: outstanding_def ac_simps)
  moreover have "ry_sent (f (Suc ?j)) = ry_sent (f i) @ (out @ last) @ [(fd, frame_send ''OK'' [])]" using c(3) o(1) by simp
  moreover have "i \<le> ?j \<and> (\<forall>k. i \<le> k \<and> k \<le> ?j \<longrightarrow> rq_drain_fd (ry_q (f k)) = Some fd)" using before by simp
  ultimately show ?thesis using c(1) none by blast
qed

text \<open>A run: a job is accepted, then \<open>DRAIN\<close>, then a worker takes the job and answers it.\<close>

definition demo_infer :: bytes where "demo_infer = frame_send ''INFER'' ''16 2'' @ ''hi''"
definition demo_drain :: bytes where "demo_drain = frame_send ''DRAIN'' []"

definition demo_job :: job where "demo_job = \<lparr>jb_fd = 5, jb_args = ''16 2'', jb_payload = ''hi''\<rparr>"

definition demo_q :: "nat \<Rightarrow> rank_q" where
  "demo_q i =
     (if i = 0 then q_init
      else if i = 1 then q_put q_init demo_job
      else if i = 2 then (q_put q_init demo_job)\<lparr>rq_draining := True, rq_quit := True, rq_drain_fd := Some 6\<rparr>
      else if i = 3 then \<lparr>rq_jobs = replicate RANK_JOB_CAP job_zero, rq_head = 1, rq_tail = 1, rq_len = 0, rq_in_flight = 1,
        rq_draining = True, rq_drain_fd = Some 6, rq_quit = True, rq_io_stop = False\<rparr>
      else \<lparr>rq_jobs = replicate RANK_JOB_CAP job_zero, rq_head = 1, rq_tail = 1, rq_len = 0, rq_in_flight = 0,
        rq_draining = True, rq_drain_fd = None, rq_quit = True, rq_io_stop = True\<rparr>)"

definition demo_run :: "nat \<Rightarrow> rank_sys" where
  "demo_run i = \<lparr>ry_q = demo_q i, ry_run = (if i = 3 then [demo_job] else []),
     ry_sent = (if i \<le> 3 then [] else [(5, ''ok''), (6, frame_send ''OK'' [])])\<rparr>"

lemma demo_step0: "rank_conn (\<lambda>_. True) False [] q_init 5 demo_infer = (demo_q 1, [])"
  by code_simp

lemma demo_step1: "rank_conn (\<lambda>_. True) False [] (demo_q 1) 6 demo_drain = (demo_q 2, [])"
  by code_simp

lemma demo_step2: "q_take (demo_q 2) = Some (demo_q 3, demo_job)"
  by code_simp

lemma demo_step3: "rank_try_finish_drain (q_done (demo_q 3)) = (demo_q 4, [(6, frame_send ''OK'' [])])"
  by code_simp

lemma demo_rest: "4 \<le> i \<Longrightarrow> demo_run i = demo_run 4"
  by (simp add: demo_run_def demo_q_def)

lemma demo_work: "rank_work 1 (demo_run 2) (demo_run 3)" "rank_work 1 (demo_run 3) (demo_run 4)"
  using rank_work.take[of "demo_run 2" 1 "demo_q 3" demo_job] demo_step2
    rank_work.answer[of demo_job "demo_run 3" "demo_q 4" "[(6, frame_send ''OK'' [])]" 1 "''ok''"] demo_step3
  by (simp_all add: demo_run_def demo_job_def)

lemma demo_is_run: "rank_run 1 demo_run"
proof -
  have "demo_run (Suc i) = demo_run i \<or> rank_accept (demo_run i) (demo_run (Suc i)) \<or> rank_work 1 (demo_run i) (demo_run (Suc i))" for i
  proof -
    have a0: "rank_accept (demo_run 0) (demo_run (Suc 0))"
      using rank_accept.conn[of "\<lambda>_. True" False "[]" "demo_run 0" 5 demo_infer "demo_q 1" "[]"] demo_step0
      by (simp add: demo_run_def demo_q_def)
    have a1: "rank_accept (demo_run 1) (demo_run (Suc 1))"
      using rank_accept.conn[of "\<lambda>_. True" False "[]" "demo_run 1" 6 demo_drain "demo_q 2" "[]"] demo_step1
      by (simp add: demo_run_def numeral_2_eq_2)
    have w: "rank_work 1 (demo_run 2) (demo_run (Suc 2))" "rank_work 1 (demo_run 3) (demo_run (Suc 3))"
      using demo_work by simp_all
    consider "i = 0" | "i = 1" | "i = 2" | "i = 3" | "4 \<le> i" by linarith
    then show ?thesis
    proof cases
      case 5
      then show ?thesis using demo_rest[of i] demo_rest[of "Suc i"] by simp
    qed (use a0 a1 w in blast)+
  qed
  moreover have "demo_run 0 = \<lparr>ry_q = q_init, ry_run = [], ry_sent = []\<rparr>" by (simp add: demo_run_def demo_q_def)
  ultimately show ?thesis by (simp add: rank_run_def)
qed

lemma demo_fair: "fair_workers 1 demo_run"
proof -
  have "\<not> rank_work 1 (demo_run i) y" if "4 \<le> i" for i y
  proof
    assume "rank_work 1 (demo_run i) y"
    then show False
    proof (cases rule: work_cases)
      case (take q j)
      then show ?thesis using that by (simp add: demo_run_def demo_q_def q_take_def)
    next
      case (answer j q out reply)
      then show ?thesis using that by (simp add: demo_run_def)
    qed
  qed
  moreover have "rank_work 1 (demo_run 3) (demo_run (Suc 3))" using demo_work(2) by (simp add: numeral_eq_Suc)
  ultimately show ?thesis unfolding fair_workers_def by (metis not_less_eq_eq numeral_3_eq_3 eval_nat_numeral(2) semiring_norm(26,27,28))
qed

theorem rank_drain_ends_witness:
  "\<exists>j\<ge>2. rq_drain_fd (ry_q (demo_run (Suc j))) = None \<and>
    (\<exists>new. ry_sent (demo_run (Suc j)) = new @ [(6, frame_send ''OK'' [])] \<and> 5 \<in> set (map fst new)) \<and>
    serve_abs (demo_run (Suc j)) = ([], [])"
proof -
  have "rq_drain_fd (ry_q (demo_run 2)) = Some 6" by (simp add: demo_run_def demo_q_def)
  from rank_drain_ends[OF demo_is_run demo_fair _ this] obtain j new where j: "2 \<le> j" "rq_drain_fd (ry_q (demo_run (Suc j))) = None"
    "ry_sent (demo_run (Suc j)) = ry_sent (demo_run 2) @ new @ [(6, frame_send ''OK'' [])]"
    "mset (map jb_fd (fst (serve_abs (demo_run 2)) @ snd (serve_abs (demo_run 2)))) \<subseteq># mset (map fst new)"
    "serve_abs (demo_run (Suc j)) = ([], [])" by auto
  have "q_list (demo_q 2) = [demo_job]" by code_simp
  then have "mset (map jb_fd (fst (serve_abs (demo_run 2)) @ snd (serve_abs (demo_run 2)))) = {#5#}"
    by (simp add: serve_abs_def demo_run_def demo_job_def)
  then have "5 \<in> set (map fst new)" using mset_subset_eqD[OF j(4), of 5] by simp
  moreover have "ry_sent (demo_run 2) = []" by (simp add: demo_run_def)
  ultimately show ?thesis using j by auto
qed

theorem rank_refines_queue_witness:
  "serve_step 1 (serve_abs (demo_run 2)) (serve_abs (demo_run 3))"
proof (rule rank_refines_queue[THEN conjunct2, THEN conjunct1, rule_format, OF _ demo_work(1)])
  have "rank_reach 1 (demo_run i)" for i
  proof (induction i)
    case 0
    then show ?case using demo_is_run rank_reach.start[of 1] by (simp add: rank_run_def)
  next
    case (Suc i)
    then show ?case using demo_is_run unfolding rank_run_def by (metis rank_reach.accept rank_reach.work)
  qed
  then show "rank_reach 1 (demo_run 2)" .
qed

end
