(* ===== verification/RankSess.thy ===== *)
theory RankSess
  imports ServerSess Detok ChatTpl
begin

text \<open>
  A rank (\<open>serve/rank.c\<close>) as the server sees it: the requests \<open>INFER\<close> with and without a session.
  The rank keeps one KV cache, the key of the session it belongs to and the number of positions
  that are valid; it changes sessions by way of KV files. The forward passes, the sampling, the
  visual requests and the pipeline over several ranks (\<open>dist_gen\<close>) are the fields of \<open>rank_env\<close>:
  functions on the KV buffer of theory \<open>SessFiles\<close> and the remaining engine state \<open>'l\<close> (logits).
\<close>

subsection \<open>State\<close>

record 'l rank =
  rk_kv :: kv_engine
  rk_log :: 'l
  rk_key :: string
  rk_pos :: u32
  rk_dir :: string
  rk_disk :: "string \<Rightarrow> bytes option"
  rk_idx :: int
  rk_ranks :: int
  rk_addrs :: string
  rk_temp :: string
  rk_top_p :: string

type_synonym 'l eng = "kv_engine \<times> 'l"

record 'l rank_env =
  re_prefill :: "u32 list \<Rightarrow> nat \<Rightarrow> 'l eng \<Rightarrow> 'l eng"
  re_forward :: "u32 \<Rightarrow> nat \<Rightarrow> 'l eng \<Rightarrow> 'l eng"
  re_sample :: "string \<Rightarrow> string \<Rightarrow> 'l \<Rightarrow> u64 \<Rightarrow> (u32 \<times> 'l \<times> u64) option"
  re_seed :: u64
  re_vocab :: vocab
  re_room :: nat
  re_mem :: "nat \<Rightarrow> bool"
  re_ms :: nat
  re_sends :: nat
  re_dist :: "'l rank \<Rightarrow> (string \<times> u32) option \<Rightarrow> u32 list \<Rightarrow> nat \<Rightarrow> int \<times> u32 \<times> 'l eng \<times> bytes \<times> nat"
  re_generate :: "'l rank \<Rightarrow> u32 list \<Rightarrow> nat \<Rightarrow> int \<times> 'l eng \<times> bytes \<times> nat \<times> string"
  re_vision :: "'l rank \<Rightarrow> bytes \<Rightarrow> int \<Rightarrow> ('l rank \<times> bytes) run"

subsection \<open>Lines and token frames\<close>

definition RANK_MAX_LINE :: nat where "RANK_MAX_LINE = 8192"

text \<open>\<open>send_line\<close>: the version goes between the first word and the rest.\<close>

definition rank_line :: "string \<Rightarrow> bytes" where
  "rank_line text =
     (let buf = snprintf_s RANK_MAX_LINE text;
          t = dropWhile is_space buf;
          cmd = take 63 (takeWhile (\<lambda>c. \<not> is_space c) t);
          p = skip_sp (drop (length cmd) t) in
      if cmd = [] then buf @ [LF]
      else cmd @ '' v='' @ PROTO_VERSION_STR @ (if p \<noteq> [] then SP # p else []) @ [LF])"

text \<open>\<open>on_token_rank\<close>: the text of one token, at most 224 bytes, behind its header.\<close>

definition token_frame :: "vocab \<Rightarrow> bool \<Rightarrow> u32 \<Rightarrow> bytes run" where
  "token_frame v cache_frame tok =
     run_bind (vocab_decode v [unat tok] 256) (\<lambda>tmp.
       let text = takeWhile (\<lambda>c. c \<noteq> NUL) tmp;
           len = (if length text + 32 > 256 then 224 else length text) in
       Ret ((if cache_frame then ''TS '' @ show_nat len @ SP # show_nat (unat tok) else ''T '' @ show_nat len)
            @ LF # take len text))"

subsection \<open>KV files\<close>

definition rank_kv_path :: "string \<Rightarrow> string \<Rightarrow> int \<Rightarrow> string" where
  "rank_kv_path dir key idx =
     (let base = sess_file_name 512 key (''.r'' @ show_int idx @ ''.kv'') in
      snprintf_s 512 (if dir \<noteq> [] then dir @ ''/'' @ base else base))"

definition rank_file :: "'l rank \<Rightarrow> string \<Rightarrow> string" where
  "rank_file r key = rank_kv_path (rk_dir r) key (rk_idx r)"

text \<open>\<open>sess_kv_save\<close> of the cache under the current key.\<close>

definition rank_write_kv :: "'l rank_env \<Rightarrow> 'l rank \<Rightarrow> 'l rank" where
  "rank_write_kv P r = r\<lparr>rk_disk := (rk_disk r)(rank_file r (rk_key r) \<mapsto> snd (sess_kv_save (re_room P) (rk_kv r) (rk_pos r)))\<rparr>"

definition rank_save_sess_kv :: "'l rank_env \<Rightarrow> 'l rank \<Rightarrow> 'l rank" where
  "rank_save_sess_kv P r = (if rk_dir r = [] \<or> rk_key r = [] \<or> rk_pos r = 0 then r else rank_write_kv P r)"

definition rank_unlink_sess_kv :: "'l rank \<Rightarrow> string \<Rightarrow> 'l rank" where
  "rank_unlink_sess_kv r key =
     (if rk_dir r = [] \<or> key = [] then r else r\<lparr>rk_disk := (rk_disk r)(rank_file r key := None)\<rparr>)"

subsection \<open>Changing the session\<close>

text \<open>The first part of \<open>handle_infer_cache\<close>: save the old session, restore the new one. The
  answer is \<open>None\<close> or the error line that ends the request.\<close>

definition rank_switch :: "'l rank_env \<Rightarrow> 'l rank \<Rightarrow> string \<Rightarrow> u32 \<Rightarrow> 'l rank \<times> string option" where
  "rank_switch P r key resume =
     (if key = rk_key r then (r, None)
      else
        let r = (if rk_dir r \<noteq> [] \<and> rk_key r \<noteq> [] then rank_write_kv P r else r);
            r = r\<lparr>rk_key := snprintf_s 64 key, rk_pos := 0\<rparr> in
        if rk_dir r \<noteq> [] \<and> resume \<noteq> 0 then
          (case sess_kv_load (rk_kv r) (rk_disk r (rank_file r key)) of (rc, kv, p) \<Rightarrow>
            let r = r\<lparr>rk_kv := kv\<rparr> in
            if rc = 0 \<and> (case p of Some loaded \<Rightarrow> loaded \<ge> resume | None \<Rightarrow> False) then (r\<lparr>rk_pos := resume\<rparr>, None)
            else ((rank_unlink_sess_kv r key)\<lparr>rk_pos := 0\<rparr>,
                  Some ''ERR session kv not cached on this rank, resume must be 0''))
        else if resume \<noteq> 0 then (r, Some ''ERR session not cached on this rank, resume must be 0'')
        else (r, None))"

text \<open>The second part: the position asked for against the position kept.\<close>

definition rank_resume :: "'l rank \<Rightarrow> string \<Rightarrow> u32 \<Rightarrow> 'l rank \<times> string option" where
  "rank_resume r key resume =
     (if resume \<le> rk_pos r then (r\<lparr>rk_pos := resume\<rparr>, None)
      else ((rank_unlink_sess_kv r key)\<lparr>rk_pos := 0\<rparr>,
            Some (''ERR resume mismatch: rank has '' @ show_nat (unat (rk_pos r)) @ '', got '' @ show_nat (unat resume))))"

text \<open>All checks of a session request; they run before \<open>engine_lock\<close> is taken.\<close>

definition rank_admit :: "'l rank_env \<Rightarrow> 'l rank \<Rightarrow> string \<Rightarrow> u32 \<Rightarrow> u32 list \<Rightarrow> 'l rank \<times> string option" where
  "rank_admit P r key resume delta =
     (case rank_switch P r key resume of
        (r, Some err) \<Rightarrow> (r, Some err)
      | (r, None) \<Rightarrow>
        (case rank_resume r key resume of
           (r, Some err) \<Rightarrow> (r, Some err)
         | (r, None) \<Rightarrow>
             if unat (rk_pos r) + length delta > unat (ke_max_seq (rk_kv r)) then (r, Some ''ERR context full'')
             else (r, None)))"

subsection \<open>Generation\<close>

text \<open>The decode loop: \<open>i\<close> tokens may still be generated, \<open>k\<close> have been sent, \<open>re_sends\<close> is the
  number the peer takes before it disconnects. Result: the frames, the tokens forwarded, the
  calls of the callback, the position and the engine.\<close>

fun rank_decode ::
  "'l rank_env \<Rightarrow> string \<Rightarrow> string \<Rightarrow> nat \<Rightarrow> nat \<Rightarrow> nat \<Rightarrow> 'l eng \<Rightarrow> u64 \<Rightarrow> (bytes \<times> u32 list \<times> nat \<times> nat \<times> 'l eng) run" where
  "rank_decode P temp top_p 0 k pos e rng = Ret ([], [], k, pos, e)"
| "rank_decode P temp top_p (Suc i) k pos e rng =
     (if pos \<ge> unat (ke_max_seq (fst e)) then Ret ([], [], k, pos, e)
      else case re_sample P temp top_p (snd e) rng of
        None \<Rightarrow> Ret ([], [], k, pos, e)
      | Some (nxt, l, rng) \<Rightarrow>
        let e = (fst e, l) in
        if sint nxt = vc_eos (re_vocab P) then Ret ([], [], k, pos, e)
        else run_bind (token_frame (re_vocab P) True nxt) (\<lambda>f.
          if k \<ge> re_sends P then Ret ([], [], Suc k, pos, e)
          else run_bind (rank_decode P temp top_p i (Suc k) (pos + 1) (re_forward P nxt pos e) rng)
            (\<lambda>(out, gen, n, pos, e). Ret (f @ out, nxt # gen, n, pos, e))))"

text \<open>The part under \<open>engine_lock\<close> on a single rank: prefill, decode, the closing \<open>eos\<close>, the KV
  file. It works with the key and the position the rank has by then.\<close>

definition close_eos :: "'l rank_env \<Rightarrow> nat \<Rightarrow> 'l eng \<Rightarrow> nat \<times> 'l eng" where
  "close_eos P pos e =
     (if pos < unat (ke_max_seq (fst e)) then (pos + 1, re_forward P (word_of_int (vc_eos (re_vocab P))) pos e) else (pos, e))"

definition rank_store :: "'l rank_env \<Rightarrow> 'l rank \<Rightarrow> nat \<times> 'l eng \<Rightarrow> 'l rank" where
  "rank_store P r pe = rank_save_sess_kv P (r\<lparr>rk_kv := fst (snd pe), rk_log := snd (snd pe), rk_pos := word_of_nat (fst pe)\<rparr>)"

definition rank_done :: "'l rank_env \<Rightarrow> nat \<Rightarrow> bytes" where
  "rank_done P n = rank_line (''DONE '' @ show_nat n @ '' 0 '' @ show_nat (re_ms P))"

definition rank_generate :: "'l rank_env \<Rightarrow> 'l rank \<Rightarrow> nat \<Rightarrow> u32 list \<Rightarrow> ('l rank \<times> bytes) run" where
  "rank_generate P r max_tokens delta =
     (let e = (rk_kv r, rk_log r);
          e = (if delta \<noteq> [] then re_prefill P delta (unat (rk_pos r)) e else e);
          start = unat (rk_pos r + word_of_nat (length delta)) in
      run_bind (rank_decode P (rk_temp r) (rk_top_p r) max_tokens 0 start e (re_seed P)) (\<lambda>(out, gen, n, pos, e).
        Ret (rank_store P r (close_eos P pos e), out @ rank_done P n)))"

text \<open>The same over several ranks.\<close>

definition rank_dist :: "'l rank_env \<Rightarrow> 'l rank \<Rightarrow> string \<Rightarrow> nat \<Rightarrow> u32 \<Rightarrow> u32 list \<Rightarrow> 'l rank \<times> bytes" where
  "rank_dist P r key max_tokens resume delta =
     (case re_dist P r (Some (snprintf_s 64 key, resume)) delta max_tokens of (rc, pos, e, out, n) \<Rightarrow>
        let r = r\<lparr>rk_kv := fst e, rk_log := snd e, rk_pos := pos\<rparr> in
        if rc \<noteq> 0 then (r, out @ rank_line ''ERR dist generate failed'')
        else (rank_save_sess_kv P r, out @ rank_done P n))"

definition handle_infer_cache ::
  "'l rank_env \<Rightarrow> 'l rank \<Rightarrow> string \<Rightarrow> nat \<Rightarrow> u32 \<Rightarrow> u32 list \<Rightarrow> ('l rank \<times> bytes) run" where
  "handle_infer_cache P r key max_tokens resume delta =
     (case rank_admit P r key resume delta of
        (r, Some err) \<Rightarrow> Ret (r, rank_line err)
      | (r, None) \<Rightarrow>
          if rk_ranks r > 1 then Ret (rank_dist P r key max_tokens resume delta)
          else rank_generate P r max_tokens delta)"

subsection \<open>The request\<close>

text \<open>The group and the sampling parameters that come with a request.\<close>

definition take_group :: "'l rank \<Rightarrow> string \<Rightarrow> 'l rank" where
  "take_group r args =
     (let r = (case proto_get args ''segs'' of
          None \<Rightarrow> r
        | Some segs \<Rightarrow>
          if atoi segs > 1 then
            r\<lparr>rk_ranks := atoi segs,
              rk_idx := (case proto_get args ''seg'' of Some x \<Rightarrow> atoi x | None \<Rightarrow> rk_idx r),
              rk_addrs := (case proto_get args ''peers'' of Some x \<Rightarrow> snprintf_s 1024 x | None \<Rightarrow> rk_addrs r)\<rparr>
          else r);
          r = (case proto_get args ''temp'' of Some x \<Rightarrow> r\<lparr>rk_temp := x\<rparr> | None \<Rightarrow> r) in
      case proto_get args ''top_p'' of Some x \<Rightarrow> r\<lparr>rk_top_p := x\<rparr> | None \<Rightarrow> r)"

text \<open>A plain prompt: the buffer \<open>ids\<close> has \<open>nbytes + 12288\<close> bytes, the encoder may fill
  \<open>nbytes + 8192\<close> words of it.\<close>

definition prompt_words :: "'l rank_env \<Rightarrow> bytes \<Rightarrow> u32 list option run" where
  "prompt_words P pb =
     (let v = re_vocab P; text = cstr pb; mx = length pb + 8192 in
      run_bind (if (case vc_template v of Some t \<Rightarrow> t \<noteq> [] | None \<Rightarrow> False)
                then vocab_chat_ids v text mx (vc_add_bos v \<noteq> 0)
                else Ret (Some (vocab_encode v text mx)))
        (\<lambda>r. case r of
            None \<Rightarrow> Ret None
          | Some ids \<Rightarrow> if 4 * length ids > length pb + 12288 then Fault else Ret (Some (map word_of_nat ids))))"

definition infer_plain :: "'l rank_env \<Rightarrow> 'l rank \<Rightarrow> nat \<Rightarrow> bytes \<Rightarrow> ('l rank \<times> bytes) run" where
  "infer_plain P r max_tokens pb =
     (if \<not> re_mem P (length pb + 8192 + 4096) then Ret (r, rank_line ''ERR oom'')
      else run_bind (prompt_words P pb) (\<lambda>w.
        case w of
          None \<Rightarrow> Ret (r, rank_line ''ERR encode failed'')
        | Some ids \<Rightarrow>
          let (rc, e, out, n, err) =
            (if rk_ranks r > 1 then
               (case re_dist P r None ids max_tokens of (rc, _, e, out, n) \<Rightarrow> (rc, e, out, n, ''dist pipeline failed''))
             else re_generate P r ids max_tokens);
            r = r\<lparr>rk_kv := fst e, rk_log := snd e\<rparr> in
          Ret (r, out @ (if rc \<noteq> 0 then rank_line (''ERR generate: '' @ err)
                         else rank_done P n))))"

definition rank_handle_infer :: "'l rank_env \<Rightarrow> 'l rank \<Rightarrow> string \<Rightarrow> bytes \<Rightarrow> ('l rank \<times> bytes) run" where
  "rank_handle_infer P r args pb =
     (case (case scan_int args of None \<Rightarrow> None
            | Some (mt, rest) \<Rightarrow> (case scan_int rest of None \<Rightarrow> None | Some _ \<Rightarrow> Some (mt, atol rest))) of
        None \<Rightarrow> Ret (r, rank_line ''ERR bad INFER args'')
      | Some (max_tokens, nbytes) \<Rightarrow>
        if max_tokens \<le> 0 \<or> nbytes < 0 then Ret (r, rank_line ''ERR bad INFER args'')
        else if nbytes \<noteq> int (length pb) then Ret (r, rank_line ''ERR payload size mismatch'')
        else
          let r = take_group r args in
          if starts (''YLLMVIS1'' @ [LF]) pb then re_vision P r pb max_tokens
          else case proto_get args ''key'' of
            Some kv \<Rightarrow>
              if length pb mod 4 \<noteq> 0 then Ret (r, rank_line ''ERR session payload must be token bytes'')
              else handle_infer_cache P r (take 63 (word_sp kv)) (nat max_tokens)
                     (case proto_get args ''resume'' of Some rs \<Rightarrow> ucast (strtoull rs) | None \<Rightarrow> 0)
                     (bytes_words pb)
          | None \<Rightarrow> infer_plain P r (nat max_tokens) pb)"

end
