(* ===== verification/RankSpec.thy ===== *)
theory RankSpec
  imports RankSess
begin

text \<open>
  What the KV cache of a rank means, and that the session requests keep it. The K and V rows of
  position \<open>p\<close> are a function of the tokens up to \<open>p\<close> (\<open>kvb ts l q\<close>: byte \<open>q\<close> of the row of the
  last token of \<open>ts\<close> in region \<open>l\<close>); \<open>engine_ok\<close> states that the forward passes write these rows.
\<close>

subsection \<open>The meaning of the cache\<close>

type_synonym kv_rows = "u32 list \<Rightarrow> nat \<Rightarrow> nat \<Rightarrow> char"

definition kv_cell :: "kv_engine \<Rightarrow> nat \<Rightarrow> nat \<Rightarrow> nat \<Rightarrow> nat" where
  "kv_cell e l p q = l * unat (ke_max_seq e) * unat (ke_row_sz e) + (p * unat (ke_row_sz e) + q)"

definition kv_holds :: "kv_rows \<Rightarrow> kv_engine \<Rightarrow> u32 list \<Rightarrow> bool" where
  "kv_holds kvb e ts \<longleftrightarrow> length ts \<le> unat (ke_max_seq e)
     \<and> (\<forall>l p q. 1 \<le> l \<longrightarrow> l \<le> 2 * unat (ke_nb e) \<longrightarrow> p < length ts \<longrightarrow> q < unat (ke_row_sz e)
          \<longrightarrow> ke_kv e (kv_cell e l p q) = kvb (take (Suc p) ts) l q)"

definition same_shape :: "kv_engine \<Rightarrow> kv_engine \<Rightarrow> bool" where
  "same_shape d e \<longleftrightarrow> ke_nb d = ke_nb e \<and> ke_kv_dim d = ke_kv_dim e \<and> ke_max_seq d = ke_max_seq e
     \<and> ke_row_sz d = ke_row_sz e \<and> ke_q8 d = ke_q8 e"

lemma same_shape_refl [simp]: "same_shape e e"
  by (simp add: same_shape_def)

lemma same_shape_trans: "same_shape a b \<Longrightarrow> same_shape b c \<Longrightarrow> same_shape a c"
  by (simp add: same_shape_def)

lemma kv_holds_Nil [simp]: "kv_holds kvb e []"
  by (simp add: kv_holds_def)

lemma kv_holds_prefix: "kv_holds kvb e (ts @ us) \<Longrightarrow> kv_holds kvb e ts"
  by (auto simp: kv_holds_def)

lemma kv_holds_take: "kv_holds kvb e ts \<Longrightarrow> kv_holds kvb e (take n ts)"
  using kv_holds_prefix[of kvb e "take n ts" "drop n ts"] by simp

text \<open>The forward passes: processing tokens at the end of the known part extends it.\<close>

definition engine_ok :: "'l rank_env \<Rightarrow> kv_rows \<Rightarrow> bool" where
  "engine_ok P kvb \<longleftrightarrow>
     (\<forall>ts ds e. kv_holds kvb (fst e) ts \<longrightarrow> length ts + length ds \<le> unat (ke_max_seq (fst e)) \<longrightarrow>
        kv_holds kvb (fst (re_prefill P ds (length ts) e)) (ts @ ds) \<and> same_shape (fst (re_prefill P ds (length ts) e)) (fst e))
   \<and> (\<forall>ts t e. kv_holds kvb (fst e) ts \<longrightarrow> length ts < unat (ke_max_seq (fst e)) \<longrightarrow>
        kv_holds kvb (fst (re_forward P t (length ts) e)) (ts @ [t]) \<and> same_shape (fst (re_forward P t (length ts) e)) (fst e))"

lemma engine_prefill:
  assumes "engine_ok P kvb" "kv_holds kvb (fst e) ts" "length ts + length ds \<le> unat (ke_max_seq (fst e))" "n = length ts"
  shows "kv_holds kvb (fst (re_prefill P ds n e)) (ts @ ds)" "same_shape (fst (re_prefill P ds n e)) (fst e)"
  using assms unfolding engine_ok_def by blast+

lemma engine_forward:
  assumes "engine_ok P kvb" "kv_holds kvb (fst e) ts" "length ts < unat (ke_max_seq (fst e))" "n = length ts"
  shows "kv_holds kvb (fst (re_forward P t n e)) (ts @ [t])" "same_shape (fst (re_forward P t n e)) (fst e)"
  using assms unfolding engine_ok_def by blast+

lemma kv_cell_saved:
  assumes "1 \<le> l" "l \<le> 2 * unat (ke_nb e)" "p < unat pos" "q < unat (ke_row_sz e)"
  shows "kv_saved e pos (kv_cell e l p q)"
proof -
  have "p * unat (ke_row_sz e) + q < Suc p * unat (ke_row_sz e)" using assms(4) by simp
  also have "\<dots> \<le> unat pos * unat (ke_row_sz e)" using assms(3) by (intro mult_le_mono1) simp
  finally show ?thesis
    using assms(1,2) unfolding kv_saved_def kv_cell_def by (intro exI[of _ l]) simp
qed

text \<open>A KV file brings back what the cache held when it was written.\<close>

lemma kv_holds_reload:
  assumes "same_shape d e" "2 * unat (ke_nb e) < 2 ^ 32" "kv_holds kvb d ts" "unat pos = length ts"
    and "sess_kv_save room d pos = (0, f)"
  shows "\<exists>e'. sess_kv_load e (Some f) = (0, e', Some pos) \<and> kv_holds kvb e' ts \<and> same_shape e' e"
proof -
  let ?e = "e\<lparr>ke_kv := \<lambda>a. if kv_saved e pos a then ke_kv d a else ke_kv e a\<rparr>"
  have sh: "ke_nb d = ke_nb e" "ke_kv_dim d = ke_kv_dim e" "ke_max_seq d = ke_max_seq e" "ke_row_sz d = ke_row_sz e" "ke_q8 d = ke_q8 e"
    using assms(1) by (simp_all add: same_shape_def)
  have c: "kv_cell d l p q = kv_cell e l p q" "kv_cell ?e l p q = kv_cell e l p q" for l p q
    by (simp_all add: kv_cell_def sh)
  have "pos \<le> ke_max_seq e"
    using assms(3,4) sh by (simp add: word_le_nat_alt kv_holds_def)
  then have "sess_kv_load e (Some f) = (0, ?e, Some pos)"
    using sess_kv_reload[OF sh assms(2) _ assms(5)] by blast
  moreover have "kv_holds kvb ?e ts"
    using assms(3) kv_cell_saved[of _ e _ pos] unfolding kv_holds_def c by (simp add: sh assms(4))
  ultimately show ?thesis by (auto simp: same_shape_def)
qed

subsection \<open>Decoding\<close>

lemma decode_holds:
  assumes "engine_ok P kvb" "kv_holds kvb (fst e) ts" "2 * unat (ke_nb (fst e)) < 2 ^ 32"
    and "rank_decode P temp top_p i k (length ts) e rng = Ret (out, gen, n, pos, e')"
  shows "kv_holds kvb (fst e') (ts @ gen) \<and> pos = length (ts @ gen) \<and> same_shape (fst e') (fst e)"
  using assms(2-4)
proof (induction i arbitrary: k ts e rng out gen n)
  case 0
  then show ?case by simp
next
  case (Suc i)
  show ?case
  proof (cases "unat (ke_max_seq (fst e)) \<le> length ts")
    case True
    then show ?thesis using Suc.prems by simp
  next
    case False
    show ?thesis
    proof (cases "re_sample P temp top_p (snd e) rng")
      case None
      then show ?thesis using Suc.prems False by simp
    next
      case (Some x)
      obtain nxt l rng' where x: "x = (nxt, l, rng')" by (cases x) auto
      let ?e = "(fst e, l)"
      show ?thesis
      proof (cases "sint nxt = vc_eos (re_vocab P) \<or> re_sends P \<le> k")
        case True
        then show ?thesis using Suc.prems False Some x by (auto simp: Let_def run_bind_Ret split: if_splits)
      next
        case go: False
        let ?f = "re_forward P nxt (length ts) ?e"
        have f: "kv_holds kvb (fst ?f) (ts @ [nxt])" "same_shape (fst ?f) (fst e)"
          using engine_forward[OF assms(1), of ?e ts "length ts" nxt] Suc.prems(1) False by simp_all
        obtain o2 g2 where r: "rank_decode P temp top_p i (Suc k) (length (ts @ [nxt])) ?f rng' = Ret (o2, g2, n, pos, e')" "gen = nxt # g2"
          using Suc.prems(3) False Some x go by (auto simp: Let_def run_bind_Ret split: if_splits)
        have "2 * unat (ke_nb (fst ?f)) < 2 ^ 32" using f(2) Suc.prems(2) by (simp add: same_shape_def)
        from Suc.IH[OF f(1) this r(1)] f(2) r(2) show ?thesis
          by (auto intro: same_shape_trans)
      qed
    qed
  qed
qed

subsection \<open>One session request\<close>

definition rank_inv :: "kv_rows \<Rightarrow> 'l rank \<Rightarrow> u32 list \<Rightarrow> bool" where
  "rank_inv kvb r ts \<longleftrightarrow> kv_holds kvb (rk_kv r) ts \<and> unat (rk_pos r) = length ts \<and> 2 * unat (ke_nb (rk_kv r)) < 2 ^ 32"

text \<open>The closing \<open>eos\<close>, for which there may be no room.\<close>

definition rank_eos :: "'l rank_env \<Rightarrow> 'l rank \<Rightarrow> nat \<Rightarrow> u32 list" where
  "rank_eos P r n = (if n < unat (ke_max_seq (rk_kv r)) then [word_of_int (vc_eos (re_vocab P))] else [])"

lemma save_fields [simp]:
  "rk_kv (rank_save_sess_kv P r) = rk_kv r" "rk_pos (rank_save_sess_kv P r) = rk_pos r" "rk_key (rank_save_sess_kv P r) = rk_key r"
  "rk_ranks (rank_save_sess_kv P r) = rk_ranks r" "rk_dir (rank_save_sess_kv P r) = rk_dir r" "rk_idx (rank_save_sess_kv P r) = rk_idx r"
  by (simp_all add: rank_save_sess_kv_def rank_write_kv_def)

lemma u32_less: "unat (w :: u32) < 2 ^ 32"
  using unsigned_less[of w] by simp

lemma u32_of_nat: "n < 2 ^ 32 \<Longrightarrow> unat (word_of_nat n :: u32) = n"
  by (simp add: unat_of_nat take_bit_nat_eq_self)

lemma close_eos_holds:
  assumes "engine_ok P kvb" "kv_holds kvb (fst e) ts" "pos = length ts" "close_eos P pos e = (pos', e')"
  shows "kv_holds kvb (fst e') (ts @ (if pos < unat (ke_max_seq (fst e)) then [word_of_int (vc_eos (re_vocab P))] else []))
    \<and> pos' = length (ts @ (if pos < unat (ke_max_seq (fst e)) then [word_of_int (vc_eos (re_vocab P)) :: u32] else []))
    \<and> same_shape (fst e') (fst e)"
proof (cases "pos < unat (ke_max_seq (fst e))")
  case True
  then show ?thesis
    using assms(3,4) engine_forward[OF assms(1,2) _ assms(3), of "word_of_int (vc_eos (re_vocab P))"] by (auto simp: close_eos_def)
next
  case False
  then show ?thesis using assms by (simp add: close_eos_def)
qed

lemma store_fields [simp]:
  "rk_kv (rank_store P r pe) = fst (snd pe)" "rk_pos (rank_store P r pe) = word_of_nat (fst pe)" "rk_key (rank_store P r pe) = rk_key r"
  "rk_ranks (rank_store P r pe) = rk_ranks r" "rk_dir (rank_store P r pe) = rk_dir r" "rk_idx (rank_store P r pe) = rk_idx r"
  by (simp_all add: rank_store_def)

definition prefilled :: "'l rank_env \<Rightarrow> 'l rank \<Rightarrow> u32 list \<Rightarrow> 'l eng" where
  "prefilled P r delta = (if delta \<noteq> [] then re_prefill P delta (unat (rk_pos r)) (rk_kv r, rk_log r) else (rk_kv r, rk_log r))"

lemma generate_form:
  assumes "unat (rk_pos r) + length delta \<le> unat (ke_max_seq (rk_kv r))"
  shows "rank_generate P r mt delta =
    run_bind (rank_decode P (rk_temp r) (rk_top_p r) mt 0 (unat (rk_pos r) + length delta) (prefilled P r delta) (re_seed P))
      (\<lambda>(out, gen, n, pos, e). Ret (rank_store P r (close_eos P pos e), out @ rank_done P n))"
proof -
  have "unat (rk_pos r) + length delta < 2 ^ 32" by (rule le_less_trans[OF assms u32_less])
  then have "unat (rk_pos r + word_of_nat (length delta)) = unat (rk_pos r) + length delta"
    by (simp add: unat_word_ariths unat_of_nat take_bit_nat_eq_self)
  then show ?thesis by (simp add: rank_generate_def prefilled_def Let_def)
qed

lemma generate_holds:
  assumes ok: "engine_ok P kvb" and inv: "rank_inv kvb r ts" and fit: "length ts + length delta \<le> unat (ke_max_seq (rk_kv r))"
    and dec: "rank_decode P (rk_temp r) (rk_top_p r) mt 0 (length ts + length delta) (prefilled P r delta) (re_seed P) = Ret (out, gen, n, pos, e)"
  shows "rank_inv kvb (rank_store P r (close_eos P pos e)) (ts @ delta @ gen @ rank_eos P r (length (ts @ delta @ gen)))
    \<and> same_shape (fst (snd (close_eos P pos e))) (rk_kv r)"
proof -
  have h: "kv_holds kvb (rk_kv r) ts" "unat (rk_pos r) = length ts" "2 * unat (ke_nb (rk_kv r)) < 2 ^ 32"
    using inv by (simp_all add: rank_inv_def)
  have pf: "kv_holds kvb (fst (prefilled P r delta)) (ts @ delta)" "same_shape (fst (prefilled P r delta)) (rk_kv r)"
    using engine_prefill[OF ok, of "(rk_kv r, rk_log r)" ts delta "length ts"] h(1,2) fit by (auto simp: prefilled_def)
  have nb: "2 * unat (ke_nb (fst (prefilled P r delta))) < 2 ^ 32" using pf(2) h(3) by (simp add: same_shape_def)
  have d: "kv_holds kvb (fst e) (ts @ delta @ gen)" "pos = length (ts @ delta @ gen)" "same_shape (fst e) (rk_kv r)"
    using decode_holds[OF ok pf(1) nb, of "rk_temp r" "rk_top_p r" mt 0 "re_seed P" out gen n pos e] dec pf(2)
    by (auto intro: same_shape_trans)
  obtain p' e' where c: "close_eos P pos e = (p', e')" by (cases "close_eos P pos e")
  have m: "ke_max_seq (fst e) = ke_max_seq (rk_kv r)" using d(3) by (simp add: same_shape_def)
  let ?all = "ts @ delta @ gen @ rank_eos P r (length (ts @ delta @ gen))"
  have a: "kv_holds kvb (fst e') ?all" "p' = length ?all" "same_shape (fst e') (rk_kv r)"
    using close_eos_holds[OF ok d(1,2) c] d(2,3) m by (auto simp: rank_eos_def intro: same_shape_trans)
  have "length ?all \<le> unat (ke_max_seq (fst e'))" using a(1) unfolding kv_holds_def by blast
  then have "length ?all < 2 ^ 32" by (rule le_less_trans[OF _ u32_less])
  then have "unat (word_of_nat (length ?all) :: u32) = length ?all" by (rule u32_of_nat)
  then show ?thesis
    using a h(3) unfolding rank_inv_def store_fields c fst_conv snd_conv a(2) by (simp add: same_shape_def)
qed

subsection \<open>Frames of the generated tokens\<close>

lemma bl_copy_less: "length out < mx \<Longrightarrow> length (bl_copy mx out s) < mx"
  by (induction mx out s rule: bl_copy.induct) (auto split: option.splits)

lemma sp_copy_less: "length out < mx \<Longrightarrow> length (sp_copy mx out s) < mx"
  by (induction mx out s rule: sp_copy.induct) auto

lemma decode_one_less: "1 < mx \<Longrightarrow> length (decode_loop v mx [i] []) < mx"
  by (auto simp: decode_piece_def bl_copy_less sp_copy_less split: option.splits)

text \<open>The text of a token that goes over the wire.\<close>

definition wire_text :: "vocab \<Rightarrow> u32 \<Rightarrow> string" where
  "wire_text v tok = take 224 (takeWhile (\<lambda>c. c \<noteq> NUL) (decode_loop v 256 [unat tok] []))"

definition frame_of :: "vocab \<Rightarrow> bool \<Rightarrow> u32 \<Rightarrow> bytes" where
  "frame_of v cache_frame tok =
     (if cache_frame then ''TS '' @ show_nat (length (wire_text v tok)) @ SP # show_nat (unat tok)
      else ''T '' @ show_nat (length (wire_text v tok))) @ LF # wire_text v tok"

lemma cut_length: "(if length t + 32 > 256 then 224 else length t) = length (take 224 t)" "take (length (take 224 t)) t = take 224 t"
  by (simp_all add: min_def)

lemma token_frame_returns: "token_frame v cache_frame tok = Ret (frame_of v cache_frame tok)"
proof -
  have "vocab_decode v [unat tok] 256 = Ret (decode_loop v 256 [unat tok] [])"
    using decode_one_less[of 256 v "unat tok"] by (simp add: vocab_decode_def Let_def)
  then show ?thesis by (simp only: token_frame_def run_bind.simps Let_def frame_of_def wire_text_def cut_length)
qed

text \<open>A token the sampler may choose, other than \<open>eos\<close>.\<close>

definition sampled :: "'l rank_env \<Rightarrow> u32 \<Rightarrow> bool" where
  "sampled P t \<longleftrightarrow> (\<exists>temp top_p l rng l' rng'. re_sample P temp top_p l rng = Some (t, l', rng')) \<and> sint t \<noteq> vc_eos (re_vocab P)"

text \<open>What the decode loop sends, and how many tokens it may send.\<close>

lemma decode_returns:
  "\<exists>out gen n pos' e'. rank_decode P temp top_p i k pos e rng = Ret (out, gen, n, pos', e')
     \<and> out = concat (map (frame_of (re_vocab P) True) gen) \<and> list_all (sampled P) gen \<and> length gen \<le> i \<and> k + length gen \<le> n \<and> n \<le> k + length gen + 1
     \<and> (k + i \<le> re_sends P \<longrightarrow> n = k + length gen)"
proof (induction i arbitrary: k pos e rng)
  case (Suc i)
  show ?case
  proof (cases "pos \<ge> unat (ke_max_seq (fst e)) \<or> re_sample P temp top_p (snd e) rng = None")
    case True
    then show ?thesis by auto
  next
    case False
    then obtain nxt l rng' where s: "pos < unat (ke_max_seq (fst e))" "re_sample P temp top_p (snd e) rng = Some (nxt, l, rng')"
      by (metis not_le option.exhaust prod_cases3)
    show ?thesis
    proof (cases "sint nxt = vc_eos (re_vocab P) \<or> re_sends P \<le> k")
      case True
      then show ?thesis using s by (auto simp: Let_def token_frame_returns)
    next
      case go: False
      obtain out gen n pos' e' where r: "rank_decode P temp top_p i (Suc k) (pos + 1) (re_forward P nxt pos (fst e, l)) rng' = Ret (out, gen, n, pos', e')"
        "out = concat (map (frame_of (re_vocab P) True) gen)" "list_all (sampled P) gen" "length gen \<le> i" "Suc k + length gen \<le> n" "n \<le> Suc k + length gen + 1"
        "Suc k + i \<le> re_sends P \<longrightarrow> n = Suc k + length gen"
        using Suc.IH by blast
      have "rank_decode P temp top_p (Suc i) k pos e rng = Ret (frame_of (re_vocab P) True nxt @ out, nxt # gen, n, pos', e')"
        using s go r(1) by (simp add: token_frame_returns)
      moreover have "sampled P nxt" using s(2) go unfolding sampled_def by blast
      ultimately show ?thesis using r(2-) by auto
    qed
  qed
qed simp

subsection \<open>KV files on the disk\<close>

text \<open>A file that was cut short, because the disk was full, is not loaded.\<close>

lemma kv_load_loop_length: "fst (kv_load_loop e rowb ls s) = 0 \<Longrightarrow> 2 * rowb * length ls \<le> length s"
proof (induction ls arbitrary: e s)
  case (Cons l ls)
  have r: "rowb \<le> length s" "rowb \<le> length (drop rowb s)"
    "\<exists>e'. fst (kv_load_loop e' rowb ls (drop rowb (drop rowb s))) = 0"
    using Cons.prems by (auto simp: read_all_def Let_def split: if_splits)
  then have "2 * rowb * length ls \<le> length (drop rowb (drop rowb s))" using Cons.IH by blast
  then show ?case using r by simp
qed simp

lemma write_seq_take: "length out \<le> room \<Longrightarrow> snd (write_seq room out ps) = take room (out @ concat ps)"
  by (induction ps arbitrary: out) (auto simp: write_all_def)

lemma header_pos: "concat (kv_header e p) @ r = concat (kv_header e p') @ r' \<Longrightarrow> p = p' \<and> r = r'"
proof -
  have "get32 (take 4 (drop 20 (concat (kv_header e p) @ r))) = p" for p r by (simp add: kv_header_def SESS_KV_MAGIC_def)
  moreover have "drop 28 (concat (kv_header e p) @ r) = r" for p r by (simp add: kv_header_def SESS_KV_MAGIC_def)
  moreover assume "concat (kv_header e p) @ r = concat (kv_header e p') @ r'"
  ultimately show ?thesis by metis
qed

lemma kv_load_same_shape: "sess_kv_load e file = (rc, e', p) \<Longrightarrow> same_shape e' e"
  by (auto simp: sess_kv_load_def same_shape_def Let_def split: option.splits if_splits prod.splits)

lemma kv_load_pos: "sess_kv_load e file = (rc, e', Some p) \<Longrightarrow> rc = 0"
  by (auto simp: sess_kv_load_def Let_def split: option.splits if_splits prod.splits)

lemma kv_reload_any:
  assumes "same_shape d e" "2 * unat (ke_nb e) < 2 ^ 32" "kv_holds kvb d ts" "unat pos = length ts"
    and "f = snd (sess_kv_save room d pos)" "sess_kv_load e (Some f) = (0, e', Some p)"
  shows "p = pos \<and> kv_holds kvb e' ts"
proof (cases "fst (sess_kv_save room d pos) = 0")
  case True
  then have "sess_kv_save room d pos = (0, f)" using assms(5) by (cases "sess_kv_save room d pos") simp
  from kv_holds_reload[OF assms(1-4) this] assms(6) show ?thesis by auto
next
  case False
  have sh: "ke_nb d = ke_nb e" "ke_row_sz d = ke_row_sz e" "kv_header d pos = kv_header e pos"
    using assms(1) by (simp_all add: same_shape_def kv_header_def kv_flags_def)
  let ?rowb = "unat pos * unat (ke_row_sz e)"
  let ?ps = "concat (map (\<lambda>l. [kv_read (ke_kv d) (kv_off d l) ?rowb, kv_read (ke_kv d) (kv_off d (ke_nb d + l)) ?rowb]) (kv_layers (ke_nb d)))"
  have sv: "sess_kv_save room d pos = write_seq room [] (kv_header e pos @ ?ps)"
    by (simp add: sess_kv_save_def Let_def sh)
  have f: "f = take room (concat (kv_header e pos) @ concat ?ps)"
    using assms(5) write_seq_take[of "[]" room "kv_header e pos @ ?ps"] by (simp only: sv) simp
  have "room < sum_list (map length (kv_header e pos @ ?ps))"
    using False write_seq_rc[of "[]" room "kv_header e pos @ ?ps"] unfolding sv by simp
  then have short: "room < length (concat (kv_header e pos)) + length (concat ?ps)" by (simp only: length_concat map_append sum_list_append)
  have "length (concat (map (\<lambda>l. [a l, b l]) ls)) = 2 * length ls" for a b :: "u32 \<Rightarrow> bytes" and ls by (induction ls) simp_all
  have lp: "length (concat ?ps) = 2 * ?rowb * length (kv_layers (ke_nb e))"
  proof -
    have "length (concat (concat (map (\<lambda>l. [kv_read k (o1 l) n, kv_read k (o2 l) n]) ls))) = 2 * n * length ls" for k n o1 o2 and ls :: "u32 list"
      by (induction ls) simp_all
    then show ?thesis by (simp only: sh)
  qed
  obtain q r where q: "q \<le> ke_max_seq e" "f = concat (kv_header e q) @ r"
    using sess_kv_load_refuse[of e "Some f"] assms(6) by fastforce
  have "fst (kv_load_loop e (unat q * unat (ke_row_sz e)) (kv_layers (ke_nb e)) r) = 0"
    using assms(6) sess_kv_load_header[OF q(1), of r] unfolding q(2) by (auto split: prod.splits)
  then have need: "2 * (unat q * unat (ke_row_sz e)) * length (kv_layers (ke_nb e)) \<le> length r" by (rule kv_load_loop_length)
  have hl: "length (concat (kv_header e x)) = 28" for x by (simp add: kv_header_def SESS_KV_MAGIC_def)
  have "28 \<le> length f" using q(2) hl by simp
  then have "28 \<le> room" using f by simp
  then have "f = concat (kv_header e pos) @ take (room - 28) (concat ?ps)" unfolding f by (simp add: hl)
  then have "q = pos \<and> r = take (room - 28) (concat ?ps)" using q(2) by (intro header_pos) (simp only:)
  then have "2 * ?rowb * length (kv_layers (ke_nb e)) \<le> room - 28" using need by simp
  moreover have "room - 28 < 2 * ?rowb * length (kv_layers (ke_nb e))"
    using short \<open>28 \<le> room\<close> unfolding hl lp by linarith
  ultimately show ?thesis by linarith
qed

text \<open>What every KV file holds: \<open>D\<close> gives the tokens by file name.\<close>

definition disk_ok :: "kv_rows \<Rightarrow> kv_engine \<Rightarrow> (string \<Rightarrow> bytes option) \<Rightarrow> (string \<Rightarrow> u32 list) \<Rightarrow> bool" where
  "disk_ok kvb e disk D \<longleftrightarrow> (\<forall>p f. disk p = Some f \<longrightarrow>
     (\<exists>d pos room. same_shape d e \<and> kv_holds kvb d (D p) \<and> unat (pos :: u32) = length (D p) \<and> f = snd (sess_kv_save room d pos)))"

definition rank_ok :: "kv_rows \<Rightarrow> 'l rank \<Rightarrow> u32 list \<Rightarrow> (string \<Rightarrow> u32 list) \<Rightarrow> bool" where
  "rank_ok kvb r ts D \<longleftrightarrow> rank_inv kvb r ts \<and> disk_ok kvb (rk_kv r) (rk_disk r) D"

lemma disk_ok_drop: "disk_ok kvb e disk D \<Longrightarrow> disk_ok kvb e (disk(p := None)) D"
  by (simp add: disk_ok_def)

lemma same_shape_sym: "same_shape a b \<Longrightarrow> same_shape b a"
  by (simp add: same_shape_def)

lemma disk_ok_shape: "disk_ok kvb e disk D \<Longrightarrow> same_shape e' e \<Longrightarrow> disk_ok kvb e' disk D"
  unfolding disk_ok_def using same_shape_trans same_shape_sym by blast

lemma disk_ok_load:
  assumes "disk_ok kvb e disk D" "2 * unat (ke_nb e) < 2 ^ 32" "sess_kv_load e (disk p) = (0, e', Some loaded)"
  shows "kv_holds kvb e' (D p) \<and> unat loaded = length (D p)"
proof -
  obtain f where f: "disk p = Some f" using assms(3) by (cases "disk p") (auto simp: sess_kv_load_def)
  then obtain d pos room where "same_shape d e" "kv_holds kvb d (D p)" "unat (pos :: u32) = length (D p)" "f = snd (sess_kv_save room d pos)"
    using assms(1) unfolding disk_ok_def by blast
  from kv_reload_any[OF this(1) assms(2) this(2-4)] assms(3) this(3) f show ?thesis by simp
qed

lemma write_kv_ok:
  assumes "rank_ok kvb r ts D"
  shows "rank_ok kvb (rank_write_kv P r) ts (D(rank_file r (rk_key r) := ts))"
proof -
  have w: "disk_ok kvb e (disk(p \<mapsto> f)) (D(p := ts))" if "disk_ok kvb e disk D"
    "same_shape d e" "kv_holds kvb d ts" "unat (pos :: u32) = length ts" "f = snd (sess_kv_save room d pos)" for e disk p f d pos room
    using that unfolding disk_ok_def by (metis fun_upd_apply option.inject)
  show ?thesis
    using assms w[of "rk_kv r" "rk_disk r" "rk_kv r" "rk_pos r"] by (simp add: rank_ok_def rank_inv_def rank_write_kv_def)
qed

subsection \<open>Admission\<close>

text \<open>The tokens in the files once the old session is saved, and those a request resumes.\<close>

definition saved_toks :: "'l rank \<Rightarrow> u32 list \<Rightarrow> (string \<Rightarrow> u32 list) \<Rightarrow> string \<Rightarrow> u32 list" where
  "saved_toks r ts D = (if rk_dir r \<noteq> [] \<and> rk_key r \<noteq> [] then D(rank_file r (rk_key r) := ts) else D)"

definition resumed_toks :: "'l rank \<Rightarrow> u32 list \<Rightarrow> (string \<Rightarrow> u32 list) \<Rightarrow> string \<Rightarrow> u32 \<Rightarrow> u32 list" where
  "resumed_toks r ts D key resume =
     take (unat resume) (if key = rk_key r then ts else saved_toks r ts D (rank_file r key))"

lemma rank_ok_pos:
  assumes "rank_ok kvb r ts D" "unat p \<le> length ts"
  shows "rank_ok kvb (r\<lparr>rk_pos := p\<rparr>) (take (unat p) ts) D"
  using assms kv_holds_take by (auto simp: rank_ok_def rank_inv_def)

lemma rank_ok_empty: "rank_ok kvb r ts D \<Longrightarrow> rank_ok kvb (r\<lparr>rk_pos := 0\<rparr>) [] D"
  by (simp add: rank_ok_def rank_inv_def)

lemma unlink_fields [simp]:
  "rk_kv (rank_unlink_sess_kv r key) = rk_kv r" "rk_key (rank_unlink_sess_kv r key) = rk_key r"
  "rk_pos (rank_unlink_sess_kv r key) = rk_pos r" "rk_ranks (rank_unlink_sess_kv r key) = rk_ranks r"
  "rk_dir (rank_unlink_sess_kv r key) = rk_dir r" "rk_idx (rank_unlink_sess_kv r key) = rk_idx r"
  by (simp_all add: rank_unlink_sess_kv_def)

lemma unlink_ok: "rank_ok kvb r ts D \<Longrightarrow> rank_ok kvb (rank_unlink_sess_kv r key) ts D"
  by (simp add: rank_ok_def rank_inv_def rank_unlink_sess_kv_def disk_ok_drop)

lemma rank_ok_key: "rank_ok kvb r ts D \<Longrightarrow> rank_ok kvb (r\<lparr>rk_key := k\<rparr>) ts D"
  by (simp add: rank_ok_def rank_inv_def)

text \<open>The rank after the old session is saved and the new key is noted.\<close>

definition rank_leave :: "'l rank_env \<Rightarrow> 'l rank \<Rightarrow> string \<Rightarrow> 'l rank" where
  "rank_leave P r key =
     (if rk_dir r \<noteq> [] \<and> rk_key r \<noteq> [] then rank_write_kv P r else r)\<lparr>rk_key := snprintf_s 64 key, rk_pos := 0\<rparr>"

lemma leave_fields [simp]:
  "rk_kv (rank_leave P r key) = rk_kv r" "rk_pos (rank_leave P r key) = 0" "rk_key (rank_leave P r key) = snprintf_s 64 key"
  "rk_ranks (rank_leave P r key) = rk_ranks r" "rk_dir (rank_leave P r key) = rk_dir r" "rank_file (rank_leave P r key) = rank_file r"
  by (auto simp: rank_leave_def rank_write_kv_def rank_file_def fun_eq_iff)

lemma leave_ok:
  assumes "rank_ok kvb r ts D"
  shows "rank_ok kvb (rank_leave P r key) [] (saved_toks r ts D)"
  using rank_ok_empty[OF rank_ok_key[OF write_kv_ok[OF assms, of P]]] rank_ok_empty[OF rank_ok_key[OF assms]]
  by (simp add: rank_leave_def saved_toks_def)

lemma switch_form:
  assumes "key \<noteq> rk_key r"
  shows "rank_switch P r key resume =
     (let r1 = rank_leave P r key in
      if rk_dir r \<noteq> [] \<and> resume \<noteq> 0 then
        (case sess_kv_load (rk_kv r1) (rk_disk r1 (rank_file r key)) of (rc, kv, p) \<Rightarrow>
          if rc = 0 \<and> (case p of Some loaded \<Rightarrow> loaded \<ge> resume | None \<Rightarrow> False) then (r1\<lparr>rk_kv := kv, rk_pos := resume\<rparr>, None)
          else ((rank_unlink_sess_kv (r1\<lparr>rk_kv := kv\<rparr>) key)\<lparr>rk_pos := 0\<rparr>,
                Some ''ERR session kv not cached on this rank, resume must be 0''))
      else if resume \<noteq> 0 then (r1, Some ''ERR session not cached on this rank, resume must be 0'')
      else (r1, None))"
proof -
  have "rk_dir (rank_leave P r key) = rk_dir r" "rank_file (rank_leave P r key) = rank_file r" by simp_all
  then show ?thesis using assms unfolding rank_switch_def Let_def rank_leave_def[symmetric] by simp
qed

lemma switch_ok:
  assumes ok: "rank_ok kvb r ts D" and s: "rank_switch P r key resume = (r1, res)"
  shows "rk_ranks r1 = rk_ranks r \<and> rk_dir r1 = rk_dir r \<and> same_shape (rk_kv r1) (rk_kv r) \<and> rank_file r1 = rank_file r
    \<and> (res = None \<longrightarrow> rk_key r1 = snprintf_s 64 key \<or> key = rk_key r \<and> rk_key r1 = key)
    \<and> (\<exists>us E. rank_ok kvb r1 us E \<and> (res = None \<longrightarrow> take (unat resume) us = resumed_toks r ts D key resume))"
proof (cases "key = rk_key r")
  case True
  then show ?thesis using assms by (auto simp: rank_switch_def resumed_toks_def)
next
  case False
  let ?r = "rank_leave P r key"
  have l: "rank_ok kvb ?r [] (saved_toks r ts D)" by (rule leave_ok[OF ok])
  show ?thesis
  proof (cases "rk_dir r \<noteq> [] \<and> resume \<noteq> 0")
    case no: False
    then have "r1 = ?r" "res = None \<longrightarrow> resume = 0" using s switch_form[OF False, of P resume] by (auto simp: Let_def split: if_splits)
    then show ?thesis using l by (auto simp: resumed_toks_def)
  next
    case yes: True
    obtain rc kv p where ld: "sess_kv_load (rk_kv r) (rk_disk ?r (rank_file r key)) = (rc, kv, p)"
      by (cases "sess_kv_load (rk_kv r) (rk_disk ?r (rank_file r key))") auto
    have sh: "same_shape kv (rk_kv r)" using kv_load_same_shape[OF ld] by simp
    have d: "disk_ok kvb kv (rk_disk ?r) (saved_toks r ts D)" "2 * unat (ke_nb (rk_kv r)) < 2 ^ 32"
      using l disk_ok_shape[OF _ sh] by (simp_all add: rank_ok_def rank_inv_def)
    have l': "rank_ok kvb (?r\<lparr>rk_kv := kv\<rparr>) [] (saved_toks r ts D)"
      using d sh by (simp add: rank_ok_def rank_inv_def same_shape_def)
    show ?thesis
    proof (cases "rc = 0 \<and> (case p of Some loaded \<Rightarrow> loaded \<ge> resume | None \<Rightarrow> False)")
      case False
      then have r1: "r1 = (rank_unlink_sess_kv (?r\<lparr>rk_kv := kv\<rparr>) key)\<lparr>rk_pos := 0\<rparr>" "res \<noteq> None"
        using s switch_form[OF \<open>key \<noteq> rk_key r\<close>, of P resume] yes by (auto simp: Let_def ld)
      have "rank_file r1 = rank_file r" by (simp add: r1 rank_file_def fun_eq_iff rank_unlink_sess_kv_def rank_leave_def rank_write_kv_def)
      then show ?thesis using rank_ok_empty[OF unlink_ok[OF l', of key]] sh r1 by auto
    next
      case True
      then obtain loaded where p: "p = Some loaded" "resume \<le> loaded" "rc = 0" by (cases p) auto
      have r1: "r1 = ?r\<lparr>rk_kv := kv, rk_pos := resume\<rparr>" "res = None"
        using s switch_form[OF \<open>key \<noteq> rk_key r\<close>, of P resume] yes True by (auto simp: Let_def ld)
      have "disk_ok kvb (rk_kv r) (rk_disk ?r) (saved_toks r ts D)" using l by (simp add: rank_ok_def)
      from disk_ok_load[OF this d(2)] ld p(1,3)
      have h: "kv_holds kvb kv (saved_toks r ts D (rank_file r key))" "unat loaded = length (saved_toks r ts D (rank_file r key))"
        by blast+
      have len: "unat resume \<le> length (saved_toks r ts D (rank_file r key))" using p(2) h(2) by (simp add: word_le_nat_alt)
      have nb: "2 * unat (ke_nb kv) < 2 ^ 32" using d(2) sh by (simp add: same_shape_def)
      have "rank_ok kvb r1 (resumed_toks r ts D key resume) (saved_toks r ts D)"
        unfolding rank_ok_def rank_inv_def r1(1) resumed_toks_def
        using kv_holds_take[OF h(1), of "unat resume"] d(1) len nb \<open>key \<noteq> rk_key r\<close> by simp
      moreover have "rank_file r1 = rank_file r" by (simp add: r1 rank_file_def fun_eq_iff rank_leave_def rank_write_kv_def)
      ultimately show ?thesis using sh r1 by (auto simp: resumed_toks_def)
    qed
  qed
qed

lemma admit_ok:
  assumes ok: "rank_ok kvb r ts D" and a: "rank_admit P r key resume delta = (r1, res)"
  shows "rk_ranks r1 = rk_ranks r \<and> rk_dir r1 = rk_dir r \<and> same_shape (rk_kv r1) (rk_kv r) \<and> rank_file r1 = rank_file r
    \<and> (\<exists>us E. rank_ok kvb r1 us E \<and> (res = None \<longrightarrow> us = resumed_toks r ts D key resume \<and> length us + length delta \<le> unat (ke_max_seq (rk_kv r1))))
    \<and> (res = None \<longrightarrow> rk_key r1 = snprintf_s 64 key \<or> key = rk_key r \<and> rk_key r1 = key)"
proof -
  obtain r2 res2 where s: "rank_switch P r key resume = (r2, res2)" by (cases "rank_switch P r key resume")
  obtain us E where u: "rank_ok kvb r2 us E" "res2 = None \<longrightarrow> take (unat resume) us = resumed_toks r ts D key resume"
    using switch_ok[OF ok s] by blast
  note sw = switch_ok[OF ok s]
  show ?thesis
  proof (cases res2)
    case (Some err)
    then show ?thesis using a s sw by (auto simp: rank_admit_def)
  next
    case None
    have p: "unat (rk_pos r2) = length us" using u(1) by (simp add: rank_ok_def rank_inv_def)
    show ?thesis
    proof (cases "resume \<le> rk_pos r2")
      case True
      then have len: "unat resume \<le> length us" using p by (simp add: word_le_nat_alt)
      have k: "rank_ok kvb (r2\<lparr>rk_pos := resume\<rparr>) (take (unat resume) us) E" by (rule rank_ok_pos[OF u(1) len])
      have f: "rank_file (r2\<lparr>rk_pos := resume\<rparr>) = rank_file r2" by (simp add: rank_file_def fun_eq_iff)
      have "r1 = r2\<lparr>rk_pos := resume\<rparr>" "res = None \<longrightarrow> unat resume + length delta \<le> unat (ke_max_seq (rk_kv r1))"
        using a s None True by (auto simp: rank_admit_def rank_resume_def split: if_splits)
      moreover have "take (unat resume) us = resumed_toks r ts D key resume" using u(2) None by simp
      moreover from this have "length (resumed_toks r ts D key resume) = unat resume" using len by (metis length_take min.absorb2)
      ultimately show ?thesis using k sw None f by auto
    next
      case False
      then have "r1 = (rank_unlink_sess_kv r2 key)\<lparr>rk_pos := 0\<rparr>" "res \<noteq> None"
        using a s None by (auto simp: rank_admit_def rank_resume_def)
      moreover have "rank_file ((rank_unlink_sess_kv r2 key)\<lparr>rk_pos := 0\<rparr>) = rank_file r2"
        by (simp add: rank_file_def fun_eq_iff rank_unlink_sess_kv_def)
      ultimately show ?thesis using rank_ok_empty[OF unlink_ok[OF u(1), of key]] sw by auto
    qed
  qed
qed

text \<open>One request that is accepted.\<close>

lemma store_ok:
  assumes "rank_inv kvb (rank_store P r pe) us" "disk_ok kvb (rk_kv r) (rk_disk r) E" "same_shape (fst (snd pe)) (rk_kv r)"
  shows "\<exists>E'. rank_ok kvb (rank_store P r pe) us E'
    \<and> (rk_dir r \<noteq> [] \<longrightarrow> rk_key r \<noteq> [] \<longrightarrow> us \<noteq> [] \<longrightarrow> E' (rank_file r (rk_key r)) = us \<and> rk_disk (rank_store P r pe) (rank_file r (rk_key r)) \<noteq> None)"
proof -
  let ?r = "r\<lparr>rk_kv := fst (snd pe), rk_log := snd (snd pe), rk_pos := word_of_nat (fst pe)\<rparr>"
  have inv: "rank_inv kvb ?r us" using assms(1) by (simp add: rank_inv_def)
  have k: "rank_ok kvb ?r us E" using inv disk_ok_shape[OF assms(2,3)] by (simp add: rank_ok_def)
  have f: "rank_file ?r = rank_file r" by (simp add: rank_file_def fun_eq_iff)
  show ?thesis
  proof (cases "rk_dir r = [] \<or> rk_key r = [] \<or> rk_pos ?r = 0")
    case True
    then have "rank_store P r pe = ?r" by (auto simp: rank_store_def rank_save_sess_kv_def)
    moreover have "rk_pos ?r = 0 \<Longrightarrow> us = []" using inv by (simp add: rank_inv_def)
    ultimately show ?thesis using k True by auto
  next
    case False
    then have "rank_store P r pe = rank_write_kv P ?r" by (auto simp: rank_store_def rank_save_sess_kv_def)
    then show ?thesis using write_kv_ok[OF k, of P] f by (auto simp: rank_write_kv_def)
  qed
qed

lemma session_tokens:
  assumes eng: "engine_ok P kvb" and ok: "rank_ok kvb r ts D" and single: "\<not> rk_ranks r > 1"
  shows "\<exists>r' out. handle_infer_cache P r key mt resume delta = Ret (r', out)
    \<and> (case rank_admit P r key resume delta of
         (r1, Some err) \<Rightarrow> r' = r1 \<and> out = rank_line err \<and> (\<exists>us E. rank_ok kvb r' us E)
       | (r1, None) \<Rightarrow> \<exists>gen n E.
           let us = resumed_toks r ts D key resume @ delta @ gen;
               all = us @ rank_eos P r (length us) in
           rank_ok kvb r' all E \<and> out = concat (map (frame_of (re_vocab P) True) gen) @ rank_done P n
           \<and> list_all (sampled P) gen \<and> length gen \<le> mt \<and> (mt \<le> re_sends P \<longrightarrow> n = length gen)
           \<and> rk_key r' = rk_key r1 \<and> rk_ranks r' = rk_ranks r
           \<and> (rk_dir r \<noteq> [] \<and> rk_key r1 \<noteq> [] \<and> all \<noteq> [] \<longrightarrow> E (rank_file r (rk_key r1)) = all \<and> rk_disk r' (rank_file r (rk_key r1)) \<noteq> None))"
proof (cases "rank_admit P r key resume delta")
  case (Pair r1 res)
  note ad = admit_ok[OF ok Pair]
  show ?thesis
  proof (cases res)
    case (Some err)
    have "\<exists>us E. rank_ok kvb r1 us E" using ad by blast
    then show ?thesis using Pair Some by (simp add: handle_infer_cache_def)
  next
    case None
    let ?us = "resumed_toks r ts D key resume"
    obtain E where u: "rank_ok kvb r1 ?us E" "length ?us + length delta \<le> unat (ke_max_seq (rk_kv r1))"
      using ad None by blast
    have inv: "rank_inv kvb r1 ?us" "disk_ok kvb (rk_kv r1) (rk_disk r1) E" "unat (rk_pos r1) = length ?us"
      using u(1) by (simp_all add: rank_ok_def rank_inv_def)
    have g: "rank_generate P r1 mt delta =
      run_bind (rank_decode P (rk_temp r1) (rk_top_p r1) mt 0 (length ?us + length delta) (prefilled P r1 delta) (re_seed P))
        (\<lambda>(out, gen, n, pos, e). Ret (rank_store P r1 (close_eos P pos e), out @ rank_done P n))"
      using generate_form[of r1 delta P mt] u(2) inv(3) by simp
    obtain out gen n pos e where d: "rank_decode P (rk_temp r1) (rk_top_p r1) mt 0 (length ?us + length delta) (prefilled P r1 delta) (re_seed P)
        = Ret (out, gen, n, pos, e)" "out = concat (map (frame_of (re_vocab P) True) gen)" "list_all (sampled P) gen" "length gen \<le> mt" "mt \<le> re_sends P \<longrightarrow> n = length gen"
      using decode_returns[of P "rk_temp r1" "rk_top_p r1" mt 0] by (metis add_0)
    let ?all = "?us @ delta @ gen @ rank_eos P r1 (length (?us @ delta @ gen))"
    have gh: "rank_inv kvb (rank_store P r1 (close_eos P pos e)) ?all" "same_shape (fst (snd (close_eos P pos e))) (rk_kv r1)"
      using generate_holds[OF eng inv(1) u(2) d(1)] by blast+
    obtain E' where e: "rank_ok kvb (rank_store P r1 (close_eos P pos e)) ?all E'"
      "rk_dir r1 \<noteq> [] \<longrightarrow> rk_key r1 \<noteq> [] \<longrightarrow> ?all \<noteq> [] \<longrightarrow> E' (rank_file r1 (rk_key r1)) = ?all
        \<and> rk_disk (rank_store P r1 (close_eos P pos e)) (rank_file r1 (rk_key r1)) \<noteq> None"
      using store_ok[OF gh(1) inv(2) gh(2)] by blast
    have x: "rank_eos P r1 = rank_eos P r" "rk_dir r1 = rk_dir r" "rank_file r1 = rank_file r" "rk_ranks r1 = rk_ranks r"
      using ad by (auto simp: rank_eos_def same_shape_def fun_eq_iff)
    have h: "handle_infer_cache P r key mt resume delta = Ret (rank_store P r1 (close_eos P pos e), out @ rank_done P n)"
      using Pair None single ad by (simp add: handle_infer_cache_def g d(1))
    show ?thesis
      unfolding h run.inject Pair None
      using e d(2-5) x(4) unfolding x(1-3) by (auto simp: Let_def intro!: exI[of _ gen] exI[of _ n] exI[of _ E'])
  qed
qed

subsection \<open>Refused requests\<close>

lemma rank_line_err:
  assumes "m \<noteq> []" "hd m \<noteq> SP" "length m < 8000"
  shows "rank_line (''ERR '' @ m) = ''ERR v='' @ PROTO_VERSION_STR @ SP # m @ [LF]"
proof -
  have sp: "\<not> is_space CHR ''E''" "\<not> is_space CHR ''R''" "is_space SP" by code_simp+
  have b: "snprintf_s RANK_MAX_LINE (''ERR '' @ m) = ''ERR '' @ m" using assms(3) by (simp add: snprintf_s_def RANK_MAX_LINE_def)
  have d: "dropWhile is_space (''ERR '' @ m) = ''ERR '' @ m" using sp by simp
  have w: "take 63 (takeWhile (\<lambda>c. \<not> is_space c) (''ERR '' @ m)) = ''ERR''" using sp by simp
  have k: "skip_sp (drop (length ''ERR'') (''ERR '' @ m)) = m" using skip_sp_no(1)[OF assms(1,2)] by (simp add: skip_sp_def)
  show ?thesis unfolding rank_line_def Let_def b d w k using assms(1) by simp
qed

lemma rebuild_msg:
  "m \<noteq> [] \<Longrightarrow> hd m \<noteq> SP \<Longrightarrow> proto_error_msg (''ERR v='' @ PROTO_VERSION_STR @ SP # m) = m"
  using skip_sp_no(1)[of m]
  by (simp add: proto_error_msg_def proto_is_error_def PROTO_ERROR_def PROTO_VERSION_STR_def skip_sp_def after_word_def)

text \<open>The lines after which the server builds the session again: \<open>asks_rebuild err\<close>.\<close>

definition asks_rebuild :: "string \<Rightarrow> bool" where
  "asks_rebuild err \<longleftrightarrow> (\<exists>line. rank_line err = line @ [LF] \<and> sess_err_needs_rebuild line)"

lemma asks_rebuildI:
  assumes "hd m \<noteq> SP" "length m < 8000" "strstr m ''resume'' \<noteq> None" "m \<noteq> []"
  shows "asks_rebuild (''ERR '' @ m)"
  using rank_line_err[OF assms(4,1,2)] rebuild_msg[OF assms(4,1)] assms(3,4)
  unfolding asks_rebuild_def sess_err_needs_rebuild_def Let_def
  by (intro exI[of _ "''ERR v='' @ PROTO_VERSION_STR @ SP # m"]) simp

lemma asks_rebuild_lines:
  "asks_rebuild ''ERR session kv not cached on this rank, resume must be 0''"
  "asks_rebuild ''ERR session not cached on this rank, resume must be 0''"
  using asks_rebuildI[of "''session kv not cached on this rank, resume must be 0''"]
    asks_rebuildI[of "''session not cached on this rank, resume must be 0''"]
  by (simp_all add: starts_def)

lemma asks_rebuild_mismatch:
  assumes "a < 2 ^ 32" "b < 2 ^ 32"
  shows "asks_rebuild (''ERR resume mismatch: rank has '' @ show_nat a @ '', got '' @ show_nat b)"
proof -
  have "a < 10 ^ 10" "b < 10 ^ 10" using assms by simp_all
  then have "length (show_nat a) \<le> 10" "length (show_nat b) \<le> 10" using length_show_nat by (metis zero_less_numeral)+
  then show ?thesis
    using asks_rebuildI[of "''resume mismatch: rank has '' @ show_nat a @ '', got '' @ show_nat b"] by (simp add: starts_def)
qed

lemma switch_refused: "rank_switch P r key resume = (r1, Some err) \<Longrightarrow> rk_pos r1 = 0 \<and> asks_rebuild err"
  using asks_rebuild_lines by (auto simp: rank_switch_def Let_def split: prod.splits if_splits)

lemma resume_refused: "rank_resume r key resume = (r1, Some err) \<Longrightarrow> rk_pos r1 = 0 \<and> asks_rebuild err"
  using asks_rebuild_mismatch[OF u32_less u32_less, of "rk_pos r" resume] by (auto simp: rank_resume_def split: if_splits)

lemma admit_refused:
  assumes "rank_admit P r key resume delta = (r1, Some err)"
  shows "err = ''ERR context full'' \<or> rk_pos r1 = 0 \<and> asks_rebuild err"
proof -
  obtain r2 res2 where s: "rank_switch P r key resume = (r2, res2)" by (cases "rank_switch P r key resume")
  show ?thesis
  proof (cases res2)
    case (Some e)
    then show ?thesis using assms s switch_refused[of P r key resume] by (auto simp: rank_admit_def)
  next
    case None
    obtain r3 res3 where t: "rank_resume r2 key resume = (r3, res3)" by (cases "rank_resume r2 key resume")
    then show ?thesis using assms s None
      by (cases res3) (auto simp: rank_admit_def resume_refused split: if_splits)
  qed
qed

text \<open>From position 0 every list that fits is accepted.\<close>

lemma admit_zero:
  assumes "length full \<le> unat (ke_max_seq (rk_kv r))"
  shows "\<exists>r2. rank_admit P r key 0 full = (r2, None)"
proof -
  obtain r1 where "rank_switch P r key 0 = (r1, None)" "rk_kv r1 = rk_kv r"
  proof (cases "key = rk_key r")
    case True
    then show ?thesis using that[of r] by (simp add: rank_switch_def)
  next
    case False
    then show ?thesis using that[of "rank_leave P r key"] switch_form[OF False, of P 0] by simp
  qed
  then show ?thesis using assms by (simp add: rank_admit_def rank_resume_def)
qed

subsection \<open>Two requests at the same time\<close>

text \<open>In the work mode \<open>parallel\<close> two workers may both have passed the checks, which run before
  \<open>engine_lock\<close> is taken, when the first one generates.\<close>

lemma generate_ok:
  assumes "engine_ok P kvb" "rank_ok kvb r ts D" "length ts + length delta \<le> unat (ke_max_seq (rk_kv r))"
  shows "\<exists>r' out gen E. rank_generate P r mt delta = Ret (r', out) \<and> length gen \<le> mt
    \<and> rank_ok kvb r' (ts @ delta @ gen @ rank_eos P r (length (ts @ delta @ gen))) E
    \<and> rk_key r' = rk_key r \<and> ke_max_seq (rk_kv r') = ke_max_seq (rk_kv r)"
proof -
  have inv: "rank_inv kvb r ts" "disk_ok kvb (rk_kv r) (rk_disk r) D" "unat (rk_pos r) = length ts"
    using assms(2) by (simp_all add: rank_ok_def rank_inv_def)
  obtain out gen n pos e where d: "rank_decode P (rk_temp r) (rk_top_p r) mt 0 (length ts + length delta) (prefilled P r delta) (re_seed P)
      = Ret (out, gen, n, pos, e)" "length gen \<le> mt"
    using decode_returns[of P "rk_temp r" "rk_top_p r" mt 0] by metis
  have gh: "rank_inv kvb (rank_store P r (close_eos P pos e)) (ts @ delta @ gen @ rank_eos P r (length (ts @ delta @ gen)))"
    "same_shape (fst (snd (close_eos P pos e))) (rk_kv r)"
    using generate_holds[OF assms(1) inv(1) assms(3) d(1)] by blast+
  have g: "rank_generate P r mt delta = Ret (rank_store P r (close_eos P pos e), out @ rank_done P n)"
    using generate_form[of r delta P mt] assms(3) inv(3) d(1) by simp
  obtain E where "rank_ok kvb (rank_store P r (close_eos P pos e)) (ts @ delta @ gen @ rank_eos P r (length (ts @ delta @ gen))) E"
    using store_ok[OF gh(1) inv(2) gh(2)] by blast
  moreover have "ke_max_seq (rk_kv (rank_store P r (close_eos P pos e))) = ke_max_seq (rk_kv r)" using gh(2) by (simp add: same_shape_def)
  ultimately show ?thesis using g d(2) store_fields(3)[of P r "close_eos P pos e"] by blast
qed

subsection \<open>A small engine\<close>

text \<open>Every byte of the row of a position is the low byte of its token; the logits are the list of
  tokens still to be sampled.\<close>

definition toy_kvb :: kv_rows where
  "toy_kvb ts l q = char_of (unat (last ts) mod 256)"

definition toy_forward :: "u32 \<Rightarrow> nat \<Rightarrow> u32 list eng \<Rightarrow> u32 list eng" where
  "toy_forward t n e =
     ((fst e)\<lparr>ke_kv := \<lambda>a. if a div unat (ke_row_sz (fst e)) mod unat (ke_max_seq (fst e)) = n
        then char_of (unat t mod 256) else ke_kv (fst e) a\<rparr>, snd e)"

fun toy_prefill :: "u32 list \<Rightarrow> nat \<Rightarrow> u32 list eng \<Rightarrow> u32 list eng" where
  "toy_prefill [] n e = e"
| "toy_prefill (t # ts) n e = toy_prefill ts (Suc n) (toy_forward t n e)"

definition toy_env :: "vocab \<Rightarrow> u32 list rank_env" where
  "toy_env v = \<lparr>re_prefill = toy_prefill, re_forward = toy_forward,
     re_sample = \<lambda>_ _ l rng. case l of [] \<Rightarrow> None | t # ts \<Rightarrow> if unat t < vc_n v then Some (t, ts, rng) else None,
     re_seed = 1, re_vocab = v, re_room = 100000, re_mem = \<lambda>_. True, re_ms = 3, re_sends = 100,
     re_dist = \<lambda>r _ _ _. (-1, 0, (rk_kv r, rk_log r), [], 0),
     re_generate = \<lambda>r ids _. (0, toy_prefill ids 0 (rk_kv r, rk_log r), [], 0, []),
     re_vision = \<lambda>r _ _. Ret (r, [])\<rparr>"

lemma cell_pos:
  assumes "p < unat (ke_max_seq e)" "q < unat (ke_row_sz e)"
  shows "kv_cell e l p q div unat (ke_row_sz e) mod unat (ke_max_seq e) = p"
proof -
  have "kv_cell e l p q = (l * unat (ke_max_seq e) + p) * unat (ke_row_sz e) + q"
    by (simp add: kv_cell_def algebra_simps)
  then have "kv_cell e l p q div unat (ke_row_sz e) = l * unat (ke_max_seq e) + p" using assms(2) by simp
  then show ?thesis using assms(1) by simp
qed

lemma toy_forward_holds:
  assumes "kv_holds toy_kvb (fst e) ts" "length ts < unat (ke_max_seq (fst e))"
  shows "kv_holds toy_kvb (fst (toy_forward t (length ts) e)) (ts @ [t]) \<and> same_shape (fst (toy_forward t (length ts) e)) (fst e)"
proof -
  let ?e = "fst (toy_forward t (length ts) e)"
  have sh: "same_shape ?e (fst e)" by (simp add: toy_forward_def same_shape_def)
  have c: "kv_cell ?e = kv_cell (fst e)" by (simp add: toy_forward_def kv_cell_def fun_eq_iff)
  have "ke_kv ?e (kv_cell (fst e) l p q) = toy_kvb (take (Suc p) (ts @ [t])) l q"
    if "1 \<le> l" "l \<le> 2 * unat (ke_nb (fst e))" "p < Suc (length ts)" "q < unat (ke_row_sz (fst e))" for l p q
  proof (cases "p = length ts")
    case True
    then show ?thesis using cell_pos[of p "fst e" q l] assms(2) that by (simp add: toy_forward_def toy_kvb_def)
  next
    case False
    then show ?thesis using cell_pos[of p "fst e" q l] assms that by (simp add: toy_forward_def kv_holds_def)
  qed
  then show ?thesis using sh assms(2) unfolding kv_holds_def c by (simp add: same_shape_def)
qed

lemma toy_prefill_holds:
  "kv_holds toy_kvb (fst e) ts \<Longrightarrow> length ts + length ds \<le> unat (ke_max_seq (fst e)) \<Longrightarrow>
    kv_holds toy_kvb (fst (toy_prefill ds (length ts) e)) (ts @ ds) \<and> same_shape (fst (toy_prefill ds (length ts) e)) (fst e)"
proof (induction ds arbitrary: ts e)
  case (Cons d ds)
  have f: "kv_holds toy_kvb (fst (toy_forward d (length ts) e)) (ts @ [d])" "same_shape (fst (toy_forward d (length ts) e)) (fst e)"
    using toy_forward_holds[of e ts d] Cons.prems by auto
  from Cons.IH[OF f(1)] f(2) Cons.prems(2) show ?case by (auto simp: same_shape_def)
qed simp

lemma toy_engine_ok: "engine_ok (toy_env v) toy_kvb"
  using toy_prefill_holds toy_forward_holds unfolding engine_ok_def toy_env_def by auto

subsection \<open>Properties\<close>

text \<open>C3: An accepted session request leaves the rank with exactly the conversation it should have:
  the KV cache holds the rows of the resumed prefix (of this session, from the cache or from its KV
  file), the tokens sent, the tokens generated and, if there is room, \<open>eos\<close>; \<open>cache_pos\<close> is their
  number; the frames sent are those of the generated tokens in order, followed by \<open>DONE\<close>; these are tokens the
  sampler chose, none of them \<open>eos\<close>, and at most \<open>max_tokens\<close>; and the KV file of the session, if there is a directory, holds the
  same tokens, so that the rank's state stays consistent for the next request of any session.\<close>

theorem rank_session_tokens:
  assumes "engine_ok P kvb" "rank_ok kvb r ts D" "\<not> rk_ranks r > 1" "rank_admit P r key resume delta = (r1, None)"
  shows "\<exists>r' gen n E.
      let us = resumed_toks r ts D key resume @ delta @ gen; all = us @ rank_eos P r (length us) in
      handle_infer_cache P r key mt resume delta = Ret (r', concat (map (frame_of (re_vocab P) True) gen) @ rank_done P n)
      \<and> rank_ok kvb r' all E \<and> rk_key r' = rk_key r1 \<and> list_all (sampled P) gen \<and> length gen \<le> mt \<and> (mt \<le> re_sends P \<longrightarrow> n = length gen)
      \<and> (rk_dir r \<noteq> [] \<and> rk_key r1 \<noteq> [] \<and> all \<noteq> [] \<longrightarrow>
           E (rank_file r (rk_key r1)) = all \<and> rk_disk r' (rank_file r (rk_key r1)) \<noteq> None)"
  using session_tokens[OF assms(1-3), of key mt resume delta] unfolding assms(4) prod.case option.case Let_def by metis

text \<open>C27: A refused session request sends one error line and generates nothing; the cache stays
  consistent with the files. Unless the context is full, the line is one after which the server
  builds the session again, and the rank is at position 0; sending a whole conversation from
  position 0 is then accepted whenever it fits.\<close>

theorem rank_request_refused:
  assumes "rank_ok kvb r ts D" "rank_admit P r key resume delta = (r1, Some err)"
  shows "handle_infer_cache P r key mt resume delta = Ret (r1, rank_line err)
    \<and> (\<exists>us E. rank_ok kvb r1 us E)
    \<and> (err = ''ERR context full'' \<or> rk_pos r1 = 0 \<and> asks_rebuild err)
    \<and> (length full \<le> unat (ke_max_seq (rk_kv r)) \<longrightarrow> (\<exists>r2. rank_admit P r1 key 0 full = (r2, None)))"
proof (intro conjI impI)
  note ad = admit_ok[OF assms]
  show "handle_infer_cache P r key mt resume delta = Ret (r1, rank_line err)" by (simp add: handle_infer_cache_def assms(2))
  show "\<exists>us E. rank_ok kvb r1 us E" using ad by blast
  show "err = ''ERR context full'' \<or> rk_pos r1 = 0 \<and> asks_rebuild err" by (rule admit_refused[OF assms(2)])
  show "\<exists>r2. rank_admit P r1 key 0 full = (r2, None)" if "length full \<le> unat (ke_max_seq (rk_kv r))"
    by (rule admit_zero) (use ad that in \<open>simp add: same_shape_def\<close>)
qed

text \<open>C29: With two workers the sessions of two clients are mixed up. When both requests are new
  sessions and pass their checks before the first one generates, the second conversation is
  generated on top of the first: the cache, and the KV file of the second session, hold the first
  client's prompt and answer followed by the second client's.\<close>

theorem rank_parallel_leak:
  assumes "engine_ok P kvb" "rank_ok kvb r ts D"
    and "rank_admit P r keyA 0 deltaA = (r1, None)" "rank_admit P r1 keyB 0 deltaB = (r2, None)"
    and "length deltaA + mtA + 1 + length deltaB \<le> unat (ke_max_seq (rk_kv r))" "length keyB < 64"
  shows "\<exists>rA outA genA rB outB genB E.
      let tsA = deltaA @ genA @ rank_eos P r (length (deltaA @ genA));
          tsB = tsA @ deltaB @ genB in
      rank_generate P r2 mtA deltaA = Ret (rA, outA) \<and> rank_generate P rA mtB deltaB = Ret (rB, outB)
      \<and> rank_ok kvb rB (tsB @ rank_eos P r (length tsB)) E \<and> rk_key rB = keyB"
proof -
  obtain E1 where a: "rank_ok kvb r1 [] E1" "ke_max_seq (rk_kv r1) = ke_max_seq (rk_kv r)"
    using admit_ok[OF assms(2,3)] by (auto simp: resumed_toks_def same_shape_def)
  obtain E2 where b: "rank_ok kvb r2 [] E2" "ke_max_seq (rk_kv r2) = ke_max_seq (rk_kv r)" "rk_key r2 = keyB"
    using admit_ok[OF a(1) assms(4)] a(2) assms(6) by (auto simp: resumed_toks_def same_shape_def snprintf_s_def)
  have eos: "rank_eos P q n = rank_eos P r n" if "ke_max_seq (rk_kv q) = ke_max_seq (rk_kv r)" for q :: "'a rank" and n
    using that by (simp add: rank_eos_def)
  obtain rA outA genA EA where A: "rank_generate P r2 mtA deltaA = Ret (rA, outA)" "length genA \<le> mtA"
    "rank_ok kvb rA (deltaA @ genA @ rank_eos P r (length (deltaA @ genA))) EA" "rk_key rA = keyB" "ke_max_seq (rk_kv rA) = ke_max_seq (rk_kv r)"
    using generate_ok[OF assms(1) b(1), of deltaA mtA] b(2,3) assms(5) eos[OF b(2)] by auto
  let ?A = "deltaA @ genA @ rank_eos P r (length (deltaA @ genA))"
  have "length (rank_eos P r (length (deltaA @ genA))) \<le> 1" by (simp add: rank_eos_def)
  then have "length ?A \<le> length deltaA + mtA + 1" unfolding length_append using A(2) by linarith
  then have "length ?A + length deltaB \<le> unat (ke_max_seq (rk_kv rA))" using assms(5) unfolding A(5) by linarith
  from generate_ok[OF assms(1) A(3) this, of mtB] A eos[of rA] show ?thesis
    unfolding Let_def by (metis append_assoc)
qed

text \<open>A request without a session overwrites the KV cache of the current session: the rank keeps the
  session's key and position, so the next request of that session is accepted at the old position
  although the cache holds the other request's tokens.\<close>

theorem plain_request_clobbers:
  assumes "\<not> rk_ranks r > 1" "re_mem P (length pb + 8192 + 4096)" "prompt_words P pb = Ret (Some ids)"
    and "re_generate P r ids mt = (0, e, out, n, msg)" "kv_holds kvb (fst e) (ids @ gen)"
    and "unat (rk_pos r) + length delta \<le> unat (ke_max_seq (fst e))"
  shows "\<exists>r'. infer_plain P r mt pb = Ret (r', out @ rank_done P n) \<and> kv_holds kvb (rk_kv r') (ids @ gen)
    \<and> rk_key r' = rk_key r \<and> rk_pos r' = rk_pos r \<and> rank_admit P r' (rk_key r) (rk_pos r) delta = (r', None)"
  using assms by (simp add: infer_plain_def rank_admit_def rank_switch_def rank_resume_def)

definition toy_rank :: "u32 list rank" where
  "toy_rank = \<lparr>rk_kv = \<lparr>ke_nb = 1, ke_kv_dim = 1, ke_max_seq = 16, ke_row_sz = 1, ke_q8 = False, ke_kv = \<lambda>_. CHR ''x''\<rparr>,
     rk_log = [2, 0], rk_key = ''a'', rk_pos = 0, rk_dir = ''d'', rk_disk = \<lambda>_. None, rk_idx = 0, rk_ranks = 1,
     rk_addrs = [], rk_temp = ''1'', rk_top_p = ''1''\<rparr>"

lemma toy_rank_ok: "rank_ok toy_kvb toy_rank [] (\<lambda>_. [])"
  by (simp add: rank_ok_def rank_inv_def disk_ok_def toy_rank_def)

theorem rank_session_tokens_witness:
  "\<exists>r' gen n E. handle_infer_cache (toy_env ab_vocab) toy_rank ''b'' 4 0 [0, 1]
       = Ret (r', concat (map (frame_of ab_vocab True) gen) @ rank_done (toy_env ab_vocab) n)
     \<and> rank_ok toy_kvb r' ([0, 1] @ gen @ rank_eos (toy_env ab_vocab) toy_rank (length ([0, 1 :: u32] @ gen))) E \<and> length gen \<le> 4"
proof -
  obtain r1 where "rank_admit (toy_env ab_vocab) toy_rank ''b'' 0 [0, 1] = (r1, None)"
    using admit_zero[of "[0, 1]" toy_rank] by (auto simp: toy_rank_def)
  from rank_session_tokens[OF toy_engine_ok toy_rank_ok _ this, of 4] show ?thesis
    by (auto simp: resumed_toks_def Let_def toy_env_def toy_rank_def)
qed

theorem rank_request_refused_witness:
  "handle_infer_cache (toy_env ab_vocab) toy_rank ''a'' 4 7 [0] = Ret (toy_rank, rank_line ''ERR resume mismatch: rank has 0, got 7'')
   \<and> (\<exists>r2. rank_admit (toy_env ab_vocab) toy_rank ''a'' 0 [0, 1] = (r2, None))"
proof -
  have "rank_unlink_sess_kv toy_rank ''a'' = toy_rank"
    by (simp add: rank_unlink_sess_kv_def toy_rank_def fun_eq_iff)
  moreover have "show_nat 0 = ''0''" "show_nat 7 = ''7''" by code_simp+
  ultimately have "rank_admit (toy_env ab_vocab) toy_rank ''a'' 7 [0] = (toy_rank, Some ''ERR resume mismatch: rank has 0, got 7'')"
    by (simp add: rank_admit_def rank_switch_def rank_resume_def) (simp add: toy_rank_def)
  from rank_request_refused[OF toy_rank_ok this, of 4 "[0, 1]"] show ?thesis by (simp add: toy_rank_def)
qed

theorem rank_parallel_leak_witness:
  "\<exists>r1 r2 rA outA genA rB outB genB E.
      let tsA = [0, 1] @ genA @ rank_eos (toy_env ab_vocab) toy_rank (length ([0, 1 :: u32] @ genA));
          tsB = tsA @ [1] @ genB in
      rank_admit (toy_env ab_vocab) toy_rank ''b'' 0 [0, 1] = (r1, None) \<and> rank_admit (toy_env ab_vocab) r1 ''c'' 0 [1] = (r2, None)
      \<and> rank_generate (toy_env ab_vocab) r2 4 [0, 1] = Ret (rA, outA) \<and> rank_generate (toy_env ab_vocab) rA 4 [1] = Ret (rB, outB)
      \<and> rank_ok toy_kvb rB (tsB @ rank_eos (toy_env ab_vocab) toy_rank (length tsB)) E \<and> rk_key rB = ''c''"
proof -
  obtain r1 where r1: "rank_admit (toy_env ab_vocab) toy_rank ''b'' 0 [0, 1] = (r1, None)"
    using admit_zero[of "[0, 1]" toy_rank] by (auto simp: toy_rank_def)
  have "ke_max_seq (rk_kv r1) = 16" using admit_ok[OF toy_rank_ok r1] by (simp add: same_shape_def toy_rank_def)
  then obtain r2 where r2: "rank_admit (toy_env ab_vocab) r1 ''c'' 0 [1] = (r2, None)"
    using admit_zero[of "[1]" r1] by auto
  have f: "length [0, 1 :: u32] + 4 + 1 + length [1 :: u32] \<le> unat (ke_max_seq (rk_kv toy_rank))" "length ''c'' < 64"
    by (simp_all add: toy_rank_def)
  show ?thesis using rank_parallel_leak[OF toy_engine_ok toy_rank_ok r1 r2 f, of 4] r1 r2 unfolding Let_def by blast
qed

definition two_vocab :: vocab where
  "two_vocab = vocab_zero\<lparr>vc_unk := -1, vc_pieces := [''b'', ''ab'', ''a''], vc_order := [1, 2, 0], vc_sorted := [2, 1, 0]\<rparr>"

lemma two_vocab_words: "prompt_words (toy_env two_vocab) ''abb'' = Ret (Some [1, 0])"
proof -
  have pc: "vc_pieces two_vocab = [''b'', ''ab'', ''a'']" "vc_scores two_vocab = []" "vc_merges two_vocab = []" "vc_template two_vocab = None"
    by (simp_all add: two_vocab_def vocab_zero_def)
  have s: "greedy_scan ''abb'' 0 None [''b'', ''ab'', ''a''] = Some (1, 2)" "greedy_scan ''b'' 0 None [''b'', ''ab'', ''a''] = Some (0, 1)"
    "cstr ''abb'' = ''abb''" by code_simp+
  have "vocab_encode two_vocab ''abb'' 8195 = [1, 0]"
    unfolding vocab_encode_def vocab_encode_greedy_def
    by (simp add: pc greedy_loop.simps[of _ _ "''abb''"] greedy_loop.simps[of _ _ "''b''"] greedy_loop.simps[of _ _ "[]"] s)
  then show ?thesis by (simp add: prompt_words_def toy_env_def pc s Let_def)
qed

theorem plain_request_clobbers_witness:
  "\<exists>r'. infer_plain (toy_env two_vocab) toy_rank 4 ''abb'' = Ret (r', [] @ rank_done (toy_env two_vocab) 0)
     \<and> kv_holds toy_kvb (rk_kv r') ([1, 0] @ []) \<and> rk_key r' = ''a'' \<and> rk_pos r' = 0
     \<and> rank_admit (toy_env two_vocab) r' ''a'' 0 [1] = (r', None)"
proof -
  let ?e = "toy_prefill [1, 0] 0 (rk_kv toy_rank, rk_log toy_rank)"
  have g: "re_generate (toy_env two_vocab) toy_rank [1, 0] 4 = (0, ?e, [], 0, [])" by (simp add: toy_env_def)
  have "kv_holds toy_kvb (fst ?e) ([] @ [1, 0]) \<and> same_shape (fst ?e) (rk_kv toy_rank)"
    using toy_prefill_holds[of "(rk_kv toy_rank, rk_log toy_rank)" "[]" "[1, 0]"] by (simp add: toy_rank_def)
  then have h: "kv_holds toy_kvb (fst ?e) ([1, 0] @ [])" "unat (rk_pos toy_rank) + length [1 :: u32] \<le> unat (ke_max_seq (fst ?e))"
    by (simp_all add: same_shape_def toy_rank_def)
  have k: "rk_key toy_rank = ''a''" "rk_pos toy_rank = 0" "\<not> rk_ranks toy_rank > 1" by (simp_all add: toy_rank_def)
  have m: "re_mem (toy_env two_vocab) (length ''abb'' + 8192 + 4096)" by (simp add: toy_env_def)
  from plain_request_clobbers[OF k(3) m two_vocab_words g h] show ?thesis unfolding k(1,2) .
qed

end
