(* ===== verification/ServerRank.thy ===== *)
theory ServerRank
  imports SessTurn RankQueue RankSpec
begin

text \<open>
  A server (\<open>serve/server.c\<close>) and its leader rank (\<open>serve/rank.c\<close>) together: the leader of theory
  \<open>ServerSess\<close> is a rank, reached through its accepting thread and its queue. The two keep the
  same conversation, the server as a list of tokens, the rank as rows of the KV cache.
\<close>

subsection \<open>A request on the rank's connection\<close>

text \<open>What an idle rank answers to the bytes of one connection: the accepting thread puts the job
  into the queue, a worker takes it out.\<close>

definition rank_answer :: "'l rank_env \<Rightarrow> 'l rank \<Rightarrow> bytes \<Rightarrow> ('l rank \<times> bytes) run" where
  "rank_answer P r s =
     (case rank_conn (re_mem P) (rk_idx r > 0 \<and> rk_ranks r > 1) [] q_init 0 s of (q, out) \<Rightarrow>
        (case q_take q of
           None \<Rightarrow> Ret (r, concat (map snd out))
         | Some (q, j) \<Rightarrow> rank_handle_infer P r (jb_args j) (jb_payload j)))"

lemma scan_int_show:
  assumes "ends_number x" "n < 2 ^ 31"
  shows "scan_int (show_nat n @ x) = Some (int n, x)" "scan_int (SP # show_nat n @ x) = Some (int n, x)"
proof -
  obtain e s where sn: "show_nat n = e # s" by (cases "show_nat n") auto
  have "is_digit e" using show_nat_digits[of e n] sn by simp
  then have e: "\<not> is_space e" "e \<noteq> CHR ''-''" "e \<noteq> CHR ''+''" using digit_not_sign[of e] by auto
  have d: "takeWhile is_digit (show_nat n @ x) = show_nat n"
    using assms(1) show_nat_digits[of _ n] by (cases x) (auto simp: takeWhile_append2)
  have dw: "dropWhile is_space (show_nat n @ x) = show_nat n @ x" using e sn by simp
  have si: "sint (word_of_int (max (- (2 ^ 63)) (min (2 ^ 63 - 1) (int n))) :: u32) = int n"
    using assms(2) sint_word_of_int_small[of "int n"] by simp
  have c: "(case show_nat n @ x of c # u \<Rightarrow> if c = CHR ''-'' then (True, u) else if c = CHR ''+'' then (False, u) else (False, show_nat n @ x)
      | [] \<Rightarrow> (False, show_nat n @ x)) = (False, show_nat n @ x)" using e sn by simp
  show s: "scan_int (show_nat n @ x) = Some (int n, x)"
    unfolding scan_int_def Let_def dw c prod.case d using si by (simp add: digits_val_show_nat)
  show "scan_int (SP # show_nat n @ x) = Some (int n, x)" using s by (simp add: scan_int_def)
qed

text \<open>The arguments the server writes, as a line of two numbers and \<open>key=value\<close> words.\<close>

definition req_kvs :: "string \<Rightarrow> nat \<Rightarrow> string \<Rightarrow> string \<Rightarrow> string \<Rightarrow> (string \<times> string) list" where
  "req_kvs key resume peers temp top_p =
     [(''key'', key), (''resume'', show_nat resume), (''seg'', ''0''), (''segs'', ''1''), (''peers'', peers),
      (''temp'', temp), (''top_p'', top_p)]"

definition req_line :: "nat \<Rightarrow> nat \<Rightarrow> (string \<times> string) list \<Rightarrow> string" where
  "req_line mt nbytes kvs = show_nat mt @ SP # show_nat nbytes @ SP # join_sp (map kv_word kvs)"

definition word_text :: "string \<Rightarrow> bool" where
  "word_text w \<longleftrightarrow> SP \<notin> set w \<and> line_text w"

lemma req_kvs_ok:
  assumes "word_text key" "word_text peers" "word_text temp" "word_text top_p"
  shows "\<forall>kv\<in>set (req_kvs key resume peers temp top_p). kv_ok kv"
  using assms show_nat_no[of SP resume] by (simp add: req_kvs_def kv_ok_def word_text_def)

lemma req_get:
  assumes "\<forall>kv\<in>set kvs. kv_ok kv" "CHR ''='' \<notin> set k" "SP \<notin> set k"
  shows "proto_get (req_line mt nbytes kvs) k = kv_rest kvs k"
proof -
  have p: "plain_word (show_nat n)" "CHR ''='' \<notin> set (show_nat n)" for n
    using show_nat_no[of SP n] show_nat_no[of "CHR ''=''" n] by (simp_all add: plain_word_def is_digit_def code_def)
  show ?thesis unfolding req_line_def proto_get_skip_word[OF p assms(3)] by (rule proto_get_kvs[OF assms])
qed

lemma req_scan:
  assumes "mt < 2 ^ 31" "nbytes < 2 ^ 31"
  shows "(case scan_int (req_line mt nbytes kvs) of None \<Rightarrow> None
     | Some (mt, r) \<Rightarrow> (case scan_int r of None \<Rightarrow> None | Some _ \<Rightarrow> Some (mt, atol r))) = Some (int mt, int nbytes)"
proof -
  have e: "ends_number (SP # x)" for x by (simp add: ends_number_def)
  have "atol (SP # show_nat nbytes @ SP # x) = int nbytes" for x
    using atol_show_nat[OF e, of nbytes x] assms(2) by (simp add: atol_SP)
  then show ?thesis unfolding req_line_def scan_int_show(1)[OF e assms(1)] option.case prod.case scan_int_show(2)[OF e assms(2)] by simp
qed

text \<open>The session key, the position and the tokens reach \<open>handle_infer_cache\<close>; of the key only 63
  characters.\<close>

lemma infer_of_line:
  assumes "\<forall>kv\<in>set kvs. kv_ok kv" "kvs = req_kvs key resume peers temp top_p" "0 < mt" "mt < 2 ^ 31" "4 * length st < 2 ^ 31"
    "resume < 2 ^ 32" "\<not> rk_ranks r > 1" "st \<noteq> []" "\<not> starts (''YLLMVIS1'' @ [LF]) (words_bytes st)"
  shows "rank_handle_infer P r (req_line mt (4 * length st) kvs) (words_bytes st) =
    handle_infer_cache P (r\<lparr>rk_temp := temp @ '' top_p='' @ top_p, rk_top_p := top_p\<rparr>) (take 63 key) mt (word_of_nat resume) st"
proof -
  let ?l = "req_line mt (4 * length st) kvs"
  have g: "proto_get ?l k = kv_rest kvs k" if "CHR ''='' \<notin> set k" "SP \<notin> set k" for k
    by (rule req_get[OF assms(1) that])
  have sp: "SP \<notin> set key" using assms(1,2) by (simp add: req_kvs_def kv_ok_def)
  obtain x1 x2 x3 where k: "proto_get ?l ''key'' = Some (key @ SP # x1)" "proto_get ?l ''resume'' = Some (show_nat resume @ SP # x2)"
    "proto_get ?l ''segs'' = Some (''1'' @ SP # x3)" "proto_get ?l ''temp'' = Some (temp @ '' top_p='' @ top_p)" "proto_get ?l ''top_p'' = Some top_p"
    using g by (auto simp: assms(2) req_kvs_def kv_word_def)
  have e: "ends_number (SP # x)" for x by (simp add: ends_number_def)
  have one: "atoi (''1'' @ SP # x3) = 1"
  proof -
    have "show_nat 1 = ''1''" by code_simp
    then show ?thesis using atoi_show_nat[OF e, of 1 x3] by simp
  qed
  have tg: "take_group r ?l = r\<lparr>rk_temp := temp @ '' top_p='' @ top_p, rk_top_p := top_p\<rparr>"
    unfolding take_group_def Let_def k option.case one by simp
  have rs: "(ucast (strtoull (show_nat resume @ SP # x2)) :: u32) = word_of_nat resume"
    using strtoull_show_nat[OF e, of resume x2] assms(6) by (simp add: unsigned_of_nat take_bit_nat_eq_self)
  have lb: "length (words_bytes st) = 4 * length st" by simp
  show ?thesis
    unfolding rank_handle_infer_def req_scan[OF assms(4,5)] option.case prod.case lb tg Let_def k rs
    using assms(3,9) sp by (simp add: word_sp_no)
qed

text \<open>A rank that is not busy.\<close>

lemma answer_infer:
  assumes "line_text args" "length args < 256" "args \<noteq> []" "hd args \<noteq> SP" "0 < mt" "mt < 2 ^ 31" "length pb < 2 ^ 31"
    and "(case scan_int args of None \<Rightarrow> None
       | Some (m, r) \<Rightarrow> (case scan_int r of None \<Rightarrow> None | Some _ \<Rightarrow> Some (m, atol r))) = Some (int mt, int (length pb))"
    and "\<not> rk_ranks r > 1" "re_mem P (length pb + 1)"
  shows "rank_answer P r (frame_send ''INFER'' args @ pb) = rank_handle_infer P r args pb"
proof -
  have ok: "frame_ok \<lparr>fr_cmd = ''INFER'', fr_args = args\<rparr>"
    using assms(1-4) by (simp add: frame_ok_def FRAME_CMD_MAX_def FRAME_ARGS_MAX_def)
  have fr: "frame_recv (frame_send ''INFER'' args @ pb) = Some (\<lparr>fr_cmd = ''INFER'', fr_args = args\<rparr>, pb)"
    using frame_recv_send[OF ok, of pb] by simp
  have rn: "recv_n (length pb) pb = Some (pb, [])" by (simp add: recv_n_def)
  have q: "\<not> rq_draining q_init" "\<not> rq_len q_init \<ge> RANK_JOB_CAP" by (simp_all add: q_init_def RANK_JOB_CAP_def)
  let ?j = "\<lparr>jb_fd = 0, jb_args = args, jb_payload = pb\<rparr>"
  have j: "infer_job (re_mem P) (rk_idx r > 0 \<and> rk_ranks r > 1) q_init 0 args pb = Inr ?j"
    unfolding infer_job_def assms(8) option.case prod.case using assms(2,5,9,10) q by (simp add: rn snprintf_s_def)
  have c: "rank_conn (re_mem P) (rk_idx r > 0 \<and> rk_ranks r > 1) [] q_init 0 (frame_send ''INFER'' args @ pb) = (q_put q_init ?j, [])"
    unfolding rank_conn_def fr option.case prod.case frame.select_convs j sum.case by simp
  have t: "\<exists>q. q_take (q_put q_init ?j) = Some (q, ?j)"
    by (simp add: q_take_def q_put_def q_init_def RANK_JOB_CAP_def)
  then show ?thesis unfolding rank_answer_def c prod.case by auto
qed

subsection \<open>The frames of a rank, read by the server\<close>

lemma frame_of_ts: "frame_of v True tok = ts_line tok (wire_text v tok) @ LF # wire_text v tok"
  by (simp add: frame_of_def ts_line_def)

lemma leader_loop_frames:
  assumes "\<And>tok. tok \<in> set gen \<Longrightarrow> wire_text v tok \<noteq> []" "leader_loop rest = Ret ([], [], e)"
  shows "leader_loop (concat (map (frame_of v True) gen) @ rest) =
    Ret (concat (map (\<lambda>t. sock_send_line (ts_line t (wire_text v t)) @ wire_text v t) gen), gen, e)"
  using assms(1)
proof (induction gen)
  case (Cons t gen)
  have w: "length (wire_text v t) \<le> 224" by (simp add: wire_text_def)
  have p: "wire_text v t \<noteq> []" "length (wire_text v t) < 2 ^ 63" using Cons.prems w by simp_all
  have b: "length (wire_text v t) < 10 ^ 3" "unat t < 10 ^ 10"
    using w less_trans[OF u32_less[of t], of "10 ^ 10"] by simp_all
  have "length (show_nat (length (wire_text v t))) \<le> 3" "length (show_nat (unat t)) \<le> 10"
    using length_show_nat[OF b(1)] length_show_nat[OF b(2)] by simp_all
  then have l: "length (ts_line t (wire_text v t)) < 8191" by (simp add: ts_line_def)
  show ?case
    using leader_loop_ts[OF p l, of "concat (map (frame_of v True) gen) @ rest"] Cons
    by (simp add: frame_of_ts[of v t])
qed (use assms(2) in simp)

lemma rank_done_line:
  assumes "n < 2 ^ 32" "re_ms P < 2 ^ 64"
  shows "\<exists>d. rank_done P n = ''DONE'' @ d @ [LF] \<and> line_text d \<and> length d < 8000"
proof -
  let ?t = "show_nat n @ '' 0 '' @ show_nat (re_ms P)"
  have b: "n < 10 ^ 10" "re_ms P < 10 ^ 20" using assms by simp_all
  have l: "length (show_nat n) \<le> 10" "length (show_nat (re_ms P)) \<le> 20"
    using length_show_nat[OF b(1)] length_show_nat[OF b(2)] by simp_all
  have sp: "\<not> is_space CHR ''D''" "\<not> is_space CHR ''O''" "\<not> is_space CHR ''N''" "\<not> is_space CHR ''E''" "is_space SP" by code_simp+
  have c: "snprintf_s RANK_MAX_LINE (''DONE '' @ ?t) = ''DONE '' @ ?t" using l by (simp add: snprintf_s_def RANK_MAX_LINE_def)
  have d: "dropWhile is_space (''DONE '' @ ?t) = ''DONE '' @ ?t" using sp by simp
  have w: "take 63 (takeWhile (\<lambda>c. \<not> is_space c) (''DONE '' @ ?t)) = ''DONE''" using sp by simp
  have hd: "?t \<noteq> []" "hd ?t \<noteq> SP"
    using show_nat_no[of SP n] by (cases "show_nat n"; force)+
  have k: "skip_sp (drop (length ''DONE'') (''DONE '' @ ?t)) = ?t" using skip_sp_no(1)[OF hd] by (simp add: skip_sp_def)
  have "rank_done P n = ''DONE'' @ ('' v='' @ PROTO_VERSION_STR @ SP # ?t) @ [LF]"
    unfolding rank_done_def rank_line_def Let_def c d w k using hd by simp
  moreover have "line_text ('' v='' @ PROTO_VERSION_STR @ SP # ?t)" by (simp add: PROTO_VERSION_STR_def)
  moreover have "length ('' v='' @ PROTO_VERSION_STR @ SP # ?t) < 8000" using l by (simp add: PROTO_VERSION_STR_def)
  ultimately show ?thesis by blast
qed

subsection \<open>In step\<close>

text \<open>The server's session and the rank's cache are the same conversation.\<close>

definition in_step :: "kv_rows \<Rightarrow> server \<Rightarrow> string \<Rightarrow> 'l rank \<Rightarrow> u32 list \<Rightarrow> bool" where
  "in_step kvb s key r ts \<longleftrightarrow>
     sc_inv (sr_sess s) \<and> sc_tab (sr_sess s) key = Some ts \<and> rk_key r = key \<and> \<not> rk_ranks r > 1 \<and> (\<exists>D. rank_ok kvb r ts D)"

text \<open>The rank as the leader of the server's environment.\<close>

definition rank_leader :: "'l rank_env \<Rightarrow> 'l rank \<Rightarrow> bytes \<Rightarrow> bytes \<times> bool" where
  "rank_leader P r req = (case rank_answer P r req of Ret (r', out) \<Rightarrow> (out, True) | _ \<Rightarrow> ([], True))"

definition after_request :: "'l rank_env \<Rightarrow> 'l rank \<Rightarrow> bytes \<Rightarrow> 'l rank" where
  "after_request P r req = (case rank_answer P r req of Ret (r', out) \<Rightarrow> r' | _ \<Rightarrow> r)"

text \<open>A request without special cases: the words contain no blank or line break, the arguments fit
  the buffer of 256 bytes (otherwise they are cut), there is one rank, and the payload does not
  begin like an image.\<close>

definition plain_request :: "sess_env \<Rightarrow> server \<Rightarrow> string \<Rightarrow> string \<Rightarrow> nat \<Rightarrow> nat \<Rightarrow> u32 list \<Rightarrow> bool" where
  "plain_request E s args key mt resume st \<longleftrightarrow> word_text key \<and> word_text (sr_peers s) \<and> sr_ranks s \<le> 1
     \<and> \<not> starts (''YLLMVIS1'' @ [LF]) (words_bytes st)
     \<and> (case sampling_args (en_fmt E) args of (temp, top_p) \<Rightarrow> word_text temp \<and> word_text top_p
        \<and> length (req_line mt (4 * length st) (req_kvs key resume
             (if sr_peers s \<noteq> [] then sr_peers s else ''127.0.0.1'') temp top_p)) < 256)"

lemma leader_request_line:
  assumes "plain_request E s args key mt resume st" "4 * length st < 2 ^ 32" "sampling_args (en_fmt E) args = (temp, top_p)"
  shows "leader_request E s args (int mt) key resume st =
    frame_send ''INFER'' (req_line mt (4 * length st) (req_kvs key resume (if sr_peers s \<noteq> [] then sr_peers s else ''127.0.0.1'') temp top_p))
      @ words_bytes st"
proof -
  let ?p = "if sr_peers s \<noteq> [] then sr_peers s else ''127.0.0.1''"
  have "(4 * word_of_nat (length st) :: u32) = word_of_nat (4 * length st)" by simp
  then have n: "unat (4 * word_of_nat (length st) :: u32) = 4 * length st" using assms(2) u32_of_nat[of "4 * length st"] by simp
  have one: "show_int (if sr_ranks s > 0 then sr_ranks s else 1) = ''1''"
  proof -
    have "(if sr_ranks s > 0 then sr_ranks s else 1) = 1" using assms(1) by (auto simp: plain_request_def)
    moreover have "show_int 1 = ''1''" by code_simp
    ultimately show ?thesis by simp
  qed
  have "length (req_line mt (4 * length st) (req_kvs key resume ?p temp top_p)) < 256"
    using assms(1) by (simp add: plain_request_def assms(3))
  then have l: "snprintf_s 256 (req_line mt (4 * length st) (req_kvs key resume ?p temp top_p)) = req_line mt (4 * length st) (req_kvs key resume ?p temp top_p)"
    by (simp add: snprintf_s_def)
  have "show_int (int mt) @ '' '' @ show_nat (4 * length st) @ '' key='' @ key @ '' resume='' @ show_nat resume @ '' seg=0 segs='' @ ''1''
      @ '' peers='' @ ?p @ '' temp='' @ temp @ '' top_p='' @ top_p = req_line mt (4 * length st) (req_kvs key resume ?p temp top_p)"
    by (simp add: req_line_def req_kvs_def kv_word_def show_int_def)
  then show ?thesis unfolding leader_request_def assms(3) prod.case n one using l by simp
qed

lemma line_join: "\<forall>w\<in>set ws. line_text w \<Longrightarrow> line_text (join_sp ws)"
  by (induction ws rule: join_sp.induct) auto

lemma req_line_text:
  assumes "word_text key" "word_text peers" "word_text temp" "word_text top_p"
  shows "line_text (req_line mt n (req_kvs key resume peers temp top_p))"
proof -
  have "\<forall>w\<in>set (map kv_word (req_kvs key resume peers temp top_p)). line_text w"
    using assms by (simp add: req_kvs_def kv_word_def word_text_def)
  from line_join[OF this] show ?thesis by (simp add: req_line_def)
qed

text \<open>The request of the server is the call of \<open>handle_infer_cache\<close> it is meant to be.\<close>

lemma answer_request:
  assumes "plain_request E s args key mt resume st" "length key < 64" "0 < mt" "mt < 2 ^ 31" "4 * length st < 2 ^ 31" "resume < 2 ^ 32"
    "st \<noteq> []" "\<not> rk_ranks r > 1" "re_mem P (4 * length st + 1)"
  shows "\<exists>temp' top_p'. rank_answer P r (leader_request E s args (int mt) key resume st) =
    handle_infer_cache P (r\<lparr>rk_temp := temp', rk_top_p := top_p'\<rparr>) key mt (word_of_nat resume) st"
proof -
  obtain temp top_p where t: "sampling_args (en_fmt E) args = (temp, top_p)" by fastforce
  let ?p = "if sr_peers s \<noteq> [] then sr_peers s else ''127.0.0.1''"
  let ?kvs = "req_kvs key resume ?p temp top_p"
  let ?l = "req_line mt (4 * length st) ?kvs"
  have w: "word_text key" "word_text temp" "word_text top_p" "length ?l < 256" "\<not> starts (''YLLMVIS1'' @ [LF]) (words_bytes st)"
    using assms(1) by (simp_all add: plain_request_def t)
  have wp: "word_text ?p" using assms(1) by (auto simp: plain_request_def word_text_def line_text_def)
  have ok: "\<forall>kv\<in>set ?kvs. kv_ok kv" using req_kvs_ok[OF w(1) wp w(2,3)] .
  have lt: "line_text ?l" using req_line_text[OF w(1) wp w(2,3)] .
  have sp: "hd (show_nat mt) \<noteq> SP" using show_nat_no[of SP mt] by (cases "show_nat mt") auto
  have ne: "?l \<noteq> []" "hd ?l \<noteq> SP" using sp by (simp_all add: req_line_def)
  have rq: "leader_request E s args (int mt) key resume st = frame_send ''INFER'' ?l @ words_bytes st"
    using leader_request_line[OF assms(1) _ t] assms(5) by simp
  have lb: "length (words_bytes st) = 4 * length st" by simp
  have "rank_answer P r (frame_send ''INFER'' ?l @ words_bytes st) = rank_handle_infer P r ?l (words_bytes st)"
    by (rule answer_infer[OF lt w(4) ne assms(3,4)]) (use assms(5,8,9) req_scan[OF assms(4,5)] in \<open>simp_all only: lb not_False_eq_True\<close>)
  moreover have "\<exists>temp' top_p'. rank_handle_infer P r ?l (words_bytes st) =
    handle_infer_cache P (r\<lparr>rk_temp := temp', rk_top_p := top_p'\<rparr>) (take 63 key) mt (word_of_nat resume) st"
    using infer_of_line[OF ok refl assms(3-6,8,7) w(5)] by blast
  ultimately show ?thesis using assms(2) rq by simp
qed

lemma admit_own:
  assumes "rk_key r = key" "resume \<le> rk_pos r" "unat resume + length st \<le> unat (ke_max_seq (rk_kv r))"
  shows "rank_admit P r key resume st = (r\<lparr>rk_pos := resume\<rparr>, None)"
  using assms by (simp add: rank_admit_def rank_switch_def rank_resume_def)

lemma rank_ok_sampling: "rank_ok kvb r ts D \<Longrightarrow> rank_ok kvb (r\<lparr>rk_temp := a, rk_top_p := b\<rparr>) ts D"
  by (simp add: rank_ok_def rank_inv_def)

lemma turn_in_step:
  assumes eng: "engine_ok P kvb" and st: "in_step kvb s key r old"
    and key: "key \<noteq> []" "length key < 64" and full: "full \<noteq> []" "length full \<le> 65536"
    and room: "length full + mt + 1 \<le> unat (ke_max_seq (rk_kv r))"
    and mt: "0 < mt" "mt \<le> 2 ^ 30" "mt \<le> re_sends P" and ms: "re_ms P < 2 ^ 64"
    and eos: "en_eos E = vc_eos (re_vocab P)" "0 \<le> en_eos E"
    and k: "k = min (known_prefix E old full) (length full - 1)"
    and E: "en_mem E = all_mem" "server_connect_leader (en_net E) s 0 = Some (rank_leader P r)"
    and plain: "plain_request E s args key mt k (drop k full)" and mem: "re_mem P (4 * length (drop k full) + 1)"
    and texts: "\<And>t. sampled P t \<Longrightarrow> wire_text (re_vocab P) t \<noteq> []"
  shows "\<exists>s' out gen. session_turn E s args (int mt) key full w = Ret (s', out, [leader_request E s args (int mt) key k (drop k full)])
    \<and> in_step kvb s' key (after_request P r (leader_request E s args (int mt) key k (drop k full))) (full @ gen @ eos_toks E)
    \<and> list_all (sampled P) gen \<and> length gen \<le> mt"
proof -
  let ?req = "leader_request E s args (int mt) key k (drop k full)"
  obtain D where i: "sc_inv (sr_sess s)" "sc_tab (sr_sess s) key = Some old" "rk_key r = key" "\<not> rk_ranks r > 1" "rank_ok kvb r old D"
    using st by (auto simp: in_step_def)
  have kl: "k < length full" "k \<le> length old"
    using full(1) k common_le(1)[of "strip_eos (en_eos E) old" full] strip_eos_length[of "en_eos E" old]
    by (cases full; simp add: known_prefix_def)+
  have ko: "take k old = take k full"
  proof -
    have "take k (take (known_prefix E old full) old) = take k (take (known_prefix E old full) full)"
      by (simp only: known_prefix_take)
    then show ?thesis using k by (simp add: min_def split: if_splits)
  qed
  have ks: "k < 2 ^ 32" "4 * length (drop k full) < 2 ^ 31" "drop k full \<noteq> []" using kl(1) full(2) by simp_all
  have uk: "unat (word_of_nat k :: u32) = k" by (rule u32_of_nat[OF ks(1)])
  obtain temp top_p where a: "rank_answer P r ?req = handle_infer_cache P (r\<lparr>rk_temp := temp, rk_top_p := top_p\<rparr>) key mt (word_of_nat k) (drop k full)"
    using answer_request[OF plain key(2) mt(1) _ ks(2,1,3) i(4) mem] mt(2) by auto
  let ?r = "r\<lparr>rk_temp := temp, rk_top_p := top_p\<rparr>"
  have ad: "rank_admit P ?r key (word_of_nat k) (drop k full) = (?r\<lparr>rk_pos := word_of_nat k\<rparr>, None)"
    using i(3,5) kl room uk by (intro admit_own) (auto simp: rank_ok_def rank_inv_def word_le_nat_alt)
  have rs: "resumed_toks ?r old D key (word_of_nat k) @ drop k full = full"
    using i(3) uk ko by (simp add: resumed_toks_def)
  have ro: "\<not> rk_ranks ?r > 1" "rank_ok kvb ?r old D" using i(4) rank_ok_sampling[OF i(5)] by simp_all
  let ?us = "\<lambda>gen. resumed_toks ?r old D key (word_of_nat k) @ drop k full @ gen"
  have us: "?us gen = full @ gen" for gen using rs by (metis append_assoc)
  from session_tokens[OF eng ro(2,1), of key mt "word_of_nat k" "drop k full"]
  obtain r' out gen n D' where h: "handle_infer_cache P ?r key mt (word_of_nat k) (drop k full) = Ret (r', out)"
    "rank_ok kvb r' (?us gen @ rank_eos P ?r (length (?us gen))) D'" "out = concat (map (frame_of (re_vocab P) True) gen) @ rank_done P n"
    "list_all (sampled P) gen" "length gen \<le> mt" "mt \<le> re_sends P \<longrightarrow> n = length gen"
    "rk_key r' = rk_key (?r\<lparr>rk_pos := word_of_nat k\<rparr>)" "rk_ranks r' = rk_ranks ?r"
    unfolding ad prod.case option.case Let_def by blast
  have g: "rank_answer P r ?req = Ret (r', concat (map (frame_of (re_vocab P) True) gen) @ rank_done P n)"
    "rank_ok kvb r' (full @ gen @ rank_eos P ?r (length (full @ gen))) D'" "rk_key r' = key" "rk_ranks r' = rk_ranks r"
    "list_all (sampled P) gen" "length gen \<le> mt" "n = length gen"
    using a h(1,3) h(2)[unfolded us append_assoc] h(4-8) i(3) mt(3) by simp_all
  have e: "rank_eos P ?r (length (full @ gen)) = eos_toks E"
    using room g(6) eos by (simp add: rank_eos_def eos_toks_def)
  have n32: "n < 2 ^ 32" using g(6,7) mt(2) by simp
  obtain d where d: "rank_done P n = ''DONE'' @ d @ [LF]" "line_text d" "length d < 8000" using rank_done_line[OF n32 ms] by blast
  have tx: "wire_text (re_vocab P) t \<noteq> []" if "t \<in> set gen" for t using texts g(5) that by (simp add: list_all_iff)
  have ll: "leader_loop (concat (map (frame_of (re_vocab P) True) gen) @ rank_done P n) =
      Ret (concat (map (\<lambda>t. sock_send_line (ts_line t (wire_text (re_vocab P) t)) @ wire_text (re_vocab P) t) gen), gen, Finished (''DONE'' @ d))"
    using leader_loop_frames[OF tx leader_loop_done[OF d(2,3), of "[]"]] by (simp add: d(1))
  have lead: "rank_leader P r ?req = (concat (map (frame_of (re_vocab P) True) gen) @ rank_done P n, True)"
    by (simp add: rank_leader_def g(1))
  have "length key < 128" "length gen \<le> 2 ^ 30" "old = (case sc_tab (sr_sess s) key of Some t \<Rightarrow> t | None \<Rightarrow> [])" "sc_tab (sr_sess s) key \<noteq> None \<or> sr_cache_dir s = []"
    using key(2) g(6) mt(2) i(2) by simp_all
  from session_turn_done[OF i(1) key(1) this(1) full this(3,4) refl k E lead ll this(2)]
  obtain s' out where s': "session_turn E s args (int mt) key full w = Ret (s', out, [?req])"
    "sc_inv (sr_sess s')" "sc_tab (sr_sess s') key = Some (full @ gen @ eos_toks E)" by blast
  have "in_step kvb s' key (after_request P r ?req) (full @ gen @ eos_toks E)"
    using s'(2,3) g(2-4) i(4) e by (auto simp: in_step_def after_request_def g(1))
  then show ?thesis using s'(1) g(5,6) by blast
qed

subsection \<open>Properties\<close>

text \<open>C2: A session turn keeps server and rank in step. When the server's session and the rank's KV cache
  hold the same conversation, a turn with the prompt \<open>full\<close> sends the rank one request, which the
  rank's accepting thread, queue and worker turn into the resumption of exactly the common prefix;
  the server reads back exactly the tokens the rank generated; and afterwards the session and the
  cache both hold the prompt, these tokens and \<open>eos\<close>. Required are one rank, words without blanks
  and arguments within 255 bytes, room for the answer in the context, the same \<open>eos\<close> on both sides
  and a non-empty text for every token that can be sampled.\<close>

theorem server_rank_in_step:
  assumes "engine_ok P kvb" "in_step kvb s key r old"
    and "key \<noteq> []" "length key < 64" and "full \<noteq> []" "length full \<le> 65536"
    and "length full + mt + 1 \<le> unat (ke_max_seq (rk_kv r))"
    and "0 < mt" "mt \<le> 2 ^ 30" "mt \<le> re_sends P" and "re_ms P < 2 ^ 64"
    and "en_eos E = vc_eos (re_vocab P)" "0 \<le> en_eos E"
    and "k = min (known_prefix E old full) (length full - 1)"
    and "en_mem E = all_mem" "server_connect_leader (en_net E) s 0 = Some (rank_leader P r)"
    and "plain_request E s args key mt k (drop k full)" and "re_mem P (4 * length (drop k full) + 1)"
    and "\<And>t. sampled P t \<Longrightarrow> wire_text (re_vocab P) t \<noteq> []"
  shows "\<exists>s' out gen. session_turn E s args (int mt) key full w = Ret (s', out, [leader_request E s args (int mt) key k (drop k full)])
    \<and> in_step kvb s' key (after_request P r (leader_request E s args (int mt) key k (drop k full))) (full @ gen @ eos_toks E)
    \<and> list_all (sampled P) gen \<and> length gen \<le> mt"
  by (rule turn_in_step[OF assms])

definition pair_rank :: "u32 list rank" where
  "pair_rank = toy_rank\<lparr>rk_key := ''k'', rk_log := [2, 1, 2, 1]\<rparr>"

definition pair_env :: sess_env where
  "pair_env = hi_env\<lparr>en_net := \<lambda>_ _ _. Some (rank_leader (toy_env ab_vocab) pair_rank), en_eos := 0\<rparr>"

definition pair_server :: server where
  "pair_server = hi_server\<lparr>sr_sess := fst (sess_put (sess_init 4) ''k'' 5)\<rparr>"

lemma ab_texts:
  assumes "sampled (toy_env ab_vocab) t"
  shows "wire_text ab_vocab t \<noteq> []"
proof -
  obtain l rng l' rng' where "(case l of [] \<Rightarrow> None | t # ts \<Rightarrow> if unat t < vc_n ab_vocab then Some (t, ts, rng) else None) = Some (t, l', rng' :: u64)"
    using assms unfolding sampled_def toy_env_def rank_env.select_convs by blast
  then have "unat t < 3" by (cases l) (auto simp: ab_vocab_ok(2) split: if_splits)
  then consider "unat t = 0" | "unat t = 1" | "unat t = 2" by linarith
  moreover have "bl_copy 256 [] ''b'' = ''b''" "bl_copy 256 [] ''ab'' = ''ab''" "bl_copy 256 [] ''a'' = ''a''" by code_simp+
  ultimately have "decode_loop ab_vocab 256 [unat t] [] \<in> {''b'', ''ab'', ''a''}"
    by cases (simp_all add: ab_vocab_ok(2) decode_piece_def control_pieces_def is_byte_piece_def ab_vocab_sel(1) del: bl_copy.simps)
  then show ?thesis by (auto simp: wire_text_def)
qed

lemma pair_in_step: "in_step toy_kvb pair_server ''k'' pair_rank []"
proof -
  have a: "sc_inv (fst (sess_put (sess_init 4) ''k'' 5))"
    by (rule sess_put_inv) (simp_all add: sess_init_def sc_inv_def)
  have b: "sc_tab (fst (sess_put (sess_init 4) ''k'' 5)) ''k'' = Some []" by code_simp
  have "rank_ok toy_kvb pair_rank [] (\<lambda>_. [])"
    by (simp add: rank_ok_def rank_inv_def disk_ok_def pair_rank_def toy_rank_def)
  then show ?thesis using a b by (auto simp: in_step_def pair_server_def pair_rank_def toy_rank_def)
qed

theorem server_rank_in_step_witness:
  "\<exists>s' out gen. session_turn pair_env pair_server ''20 5 key=k'' (int 4) ''k'' [2, 1] 0
       = Ret (s', out, [leader_request pair_env pair_server ''20 5 key=k'' (int 4) ''k'' 0 [2, 1]])
    \<and> in_step toy_kvb s' ''k'' (after_request (toy_env ab_vocab) pair_rank (leader_request pair_env pair_server ''20 5 key=k'' (int 4) ''k'' 0 [2, 1]))
        ([2, 1] @ gen @ eos_toks pair_env)
    \<and> list_all (sampled (toy_env ab_vocab)) gen \<and> length gen \<le> 4"
proof -
  have eos: "vc_eos ab_vocab = 0" by (simp add: ab_vocab_def ab_raw_def index_vocab_def Let_def vocab_zero_def)
  have p: "plain_request pair_env pair_server ''20 5 key=k'' ''k'' 4 0 (drop 0 [2, 1])"
  proof -
    have a: "sampling_args (\<lambda>_. ''1'') ''20 5 key=k'' = (''1'', ''0.9'')" by code_simp
    have w: "word_text ''k''" "word_text []" "word_text ''1''" "word_text ''0.9''" "\<not> starts (''YLLMVIS1'' @ [LF]) (words_bytes [2, 1])"
      "length (req_line 4 8 (req_kvs ''k'' 0 ''127.0.0.1'' ''1'' ''0.9'')) < 256" by code_simp+
    have s: "en_fmt pair_env = (\<lambda>_. ''1'')" "sr_peers pair_server = []" "sr_ranks pair_server = 1" "4 * length (drop 0 [2, 1 :: u32]) = 8"
      by (simp_all add: pair_env_def hi_env_def pair_server_def hi_server_def)
    show ?thesis unfolding plain_request_def s(1-3) s(4) a using w by simp
  qed
  have k: "0 = min (known_prefix pair_env [] [2, 1]) (length [2, 1 :: u32] - 1)"
    by (simp add: known_prefix_def strip_eos_def)
  have "server_connect_leader (en_net pair_env) pair_server 0 = Some (rank_leader (toy_env ab_vocab) pair_rank)"
    by (simp add: server_connect_leader_def pair_env_def)
  from server_rank_in_step[where w = 0, OF toy_engine_ok pair_in_step _ _ _ _ _ _ _ _ _ _ _ k _ this p] ab_texts eos
  show ?thesis by (simp add: toy_env_def pair_env_def hi_env_def pair_rank_def toy_rank_def)
qed

text \<open>C30: The rank cuts the session key at 63 characters, the server keeps up to 127: two sessions of the
  server whose keys agree in the first 63 characters are one session for the rank, so a request of
  the one continues the KV cache of the other.\<close>

theorem rank_key_confusion:
  assumes "take 63 keyA = take 63 keyB" "word_text keyA" "word_text keyB" "word_text peers" "word_text temp" "word_text top_p"
    and "0 < mt" "mt < 2 ^ 31" "4 * length st < 2 ^ 31" "resume < 2 ^ 32" "\<not> rk_ranks r > 1" "st \<noteq> []"
    and "\<not> starts (''YLLMVIS1'' @ [LF]) (words_bytes st)"
  shows "rank_handle_infer P r (req_line mt (4 * length st) (req_kvs keyA resume peers temp top_p)) (words_bytes st)
    = rank_handle_infer P r (req_line mt (4 * length st) (req_kvs keyB resume peers temp top_p)) (words_bytes st)"
  using infer_of_line[OF req_kvs_ok[OF assms(2,4,5,6)] refl assms(7-13)]
    infer_of_line[OF req_kvs_ok[OF assms(3,4,5,6)] refl assms(7-13)] assms(1) by metis

theorem rank_key_confusion_witness:
  "rank_handle_infer (toy_env ab_vocab) pair_rank (req_line 4 4 (req_kvs (replicate 63 CHR ''u'' @ ''1'') 0 ''h'' ''1'' ''0.9'')) (words_bytes [2])
   = rank_handle_infer (toy_env ab_vocab) pair_rank (req_line 4 4 (req_kvs (replicate 63 CHR ''u'' @ ''2'') 0 ''h'' ''1'' ''0.9'')) (words_bytes [2])"
proof -
  have w: "word_text (replicate 63 CHR ''u'' @ ''1'')" "word_text (replicate 63 CHR ''u'' @ ''2'')" "word_text ''h''" "word_text ''1''" "word_text ''0.9''"
    by code_simp+
  have t: "take 63 (replicate 63 CHR ''u'' @ ''1'') = take 63 (replicate 63 CHR ''u'' @ ''2'')" by simp
  have v: "\<not> starts (''YLLMVIS1'' @ [LF]) (words_bytes [2])" by code_simp
  show ?thesis
    using rank_key_confusion[OF t w(1-5) _ _ _ _ _ _ v, of 4 0 pair_rank "toy_env ab_vocab"] by (simp add: pair_rank_def toy_rank_def)
qed

end
