(* ===== verification/Engine.thy ===== *)
theory Engine
  imports YPrelude
begin

text \<open>
  The order in which the engine runs the layers of a model (\<open>inference/core/engine.c\<close>), for one
  token, for a batch and for the part of the layers that one rank of a pipeline holds. The
  arithmetic of a layer is an argument (\<open>kern\<close>): embedding, block, final norm, output matrix. A
  block gets the key/value cache of its own layer and of the layer whose cache it shares. The
  model is read into memory and runs on the CPU: prefetching and releasing of weights, devices,
  and image embeddings are left out.
\<close>

subsection \<open>Layers\<close>

text \<open>Layer 0 is the embedding, the blocks follow, then the norm and the output matrix; with a
  block for multi-token prediction this is the last one.\<close>

record ('x, 'y, 'k) kern =
  kn_blocks :: nat
  kn_mtp :: bool
  kn_embed :: "u32 \<Rightarrow> 'x"
  kn_block :: "nat \<Rightarrow> u32 \<Rightarrow> u32 \<Rightarrow> 'k \<Rightarrow> 'k \<Rightarrow> 'x \<Rightarrow> 'x \<times> 'k"
  kn_batch :: "nat \<Rightarrow> u32 list \<Rightarrow> u32 \<Rightarrow> 'k \<Rightarrow> 'k \<Rightarrow> 'x list \<Rightarrow> 'x list \<times> 'k"
  kn_source :: "nat \<Rightarrow> nat"
  kn_norm :: "'x \<Rightarrow> 'x"
  kn_head :: "'x \<Rightarrow> 'y"

record ('x, 'y, 'k) engine =
  eg_x :: 'x
  eg_pb :: "'x list"
  eg_logits :: 'y
  eg_kv :: "nat \<Rightarrow> 'k"
  eg_begin :: nat
  eg_end :: nat

definition PB_MAX :: nat where "PB_MAX = 64"

definition n_layers :: "('x, 'y, 'k, 'z) kern_scheme \<Rightarrow> nat" where
  "n_layers K = kn_blocks K + 3"

definition trunk :: "('x, 'y, 'k, 'z) kern_scheme \<Rightarrow> nat" where
  "trunk K = kn_blocks K - (if kn_mtp K then 1 else 0)"

definition forward_layer ::
  "('x, 'y, 'k, 'z) kern_scheme \<Rightarrow> u32 \<Rightarrow> u32 \<Rightarrow> nat \<Rightarrow> ('x, 'y, 'k) engine \<Rightarrow> ('x, 'y, 'k) engine" where
  "forward_layer K token pos i e =
     (if i = 0 then e\<lparr>eg_x := kn_embed K token\<rparr>
      else if i \<le> trunk K then
        (case kn_block K i token pos (eg_kv e i) (eg_kv e (kn_source K i)) (eg_x e) of
           (x, k) \<Rightarrow> e\<lparr>eg_x := x, eg_kv := (eg_kv e)(i := k)\<rparr>)
      else if kn_mtp K \<and> i = kn_blocks K then e
      else if i = kn_blocks K + 1 then e\<lparr>eg_x := kn_norm K (eg_x e)\<rparr>
      else e\<lparr>eg_logits := kn_head K (eg_x e)\<rparr>)"

definition layer_range :: "('x, 'y, 'k) engine \<Rightarrow> nat list" where
  "layer_range e = [eg_begin e..<eg_end e]"

text \<open>\<open>engine_forward_range\<close>. The results \<open>x_out\<close> and \<open>logits_out\<close> are fields of the engine.\<close>

definition engine_forward_range ::
  "('x, 'y, 'k, 'z) kern_scheme \<Rightarrow> u32 \<Rightarrow> bool \<Rightarrow> u32 \<Rightarrow> ('x, 'y, 'k) engine \<Rightarrow> ('x, 'y, 'k) engine" where
  "engine_forward_range K token need_embed pos e =
     (let e = (if need_embed \<and> eg_begin e = 0 then forward_layer K token pos 0 e else e) in
      fold (\<lambda>i e. if i = 0 then e else forward_layer K token pos i e) (layer_range e) e)"

definition engine_forward ::
  "('x, 'y, 'k, 'z) kern_scheme \<Rightarrow> u32 \<Rightarrow> u32 \<Rightarrow> ('x, 'y, 'k) engine \<Rightarrow> ('x, 'y, 'k) engine" where
  "engine_forward K token pos e = engine_forward_range K token True pos e"

definition batch_block ::
  "('x, 'y, 'k, 'z) kern_scheme \<Rightarrow> u32 list \<Rightarrow> u32 \<Rightarrow> nat \<Rightarrow> ('x, 'y, 'k) engine \<Rightarrow> ('x, 'y, 'k) engine" where
  "batch_block K tokens pos i e =
     (case kn_batch K i tokens pos (eg_kv e i) (eg_kv e (kn_source K i)) (eg_pb e) of
        (xs, k) \<Rightarrow> e\<lparr>eg_pb := xs, eg_kv := (eg_kv e)(i := k)\<rparr>)"

text \<open>\<open>engine_forward_batch_tokens\<close>, for the first rank: the activations are left in \<open>eg_pb\<close>.\<close>

definition engine_forward_batch_tokens ::
  "('x, 'y, 'k, 'z) kern_scheme \<Rightarrow> u32 list \<Rightarrow> u32 \<Rightarrow> ('x, 'y, 'k) engine \<Rightarrow> ('x, 'y, 'k) engine option" where
  "engine_forward_batch_tokens K tokens pos e =
     (if tokens = [] \<or> length tokens > PB_MAX then None
      else
        let e = (if eg_begin e = 0 then e\<lparr>eg_pb := map (kn_embed K) tokens\<rparr> else e) in
        Some (fold (\<lambda>i e. if i = 0 \<or> i > kn_blocks K then e else batch_block K tokens pos i e) (layer_range e) e))"

text \<open>\<open>engine_forward_batch_x\<close>, for the other ranks; \<open>want_logits\<close> is for the last one.\<close>

definition batch_layer ::
  "('x, 'y, 'k, 'z) kern_scheme \<Rightarrow> u32 list \<Rightarrow> u32 \<Rightarrow> nat \<Rightarrow> ('x, 'y, 'k) engine \<Rightarrow> ('x, 'y, 'k) engine" where
  "batch_layer K tokens pos i e =
     (if i = 0 then e
      else if i \<le> trunk K then batch_block K tokens pos i e
      else if kn_mtp K \<and> i = kn_blocks K then e
      else if i = kn_blocks K + 1 then e\<lparr>eg_x := kn_norm K (last (eg_pb e))\<rparr>
      else e\<lparr>eg_logits := kn_head K (eg_x e)\<rparr>)"

definition engine_forward_batch_x ::
  "('x, 'y, 'k, 'z) kern_scheme \<Rightarrow> 'x list \<Rightarrow> u32 list \<Rightarrow> u32 \<Rightarrow> bool \<Rightarrow> ('x, 'y, 'k) engine \<Rightarrow> ('x, 'y, 'k) engine option" where
  "engine_forward_batch_x K xin tokens pos want_logits e =
     (if tokens = [] \<or> length tokens > PB_MAX then None
      else
        let e = fold (batch_layer K tokens pos) (layer_range e) (e\<lparr>eg_pb := xin\<rparr>) in
        if want_logits \<and> eg_end e \<le> kn_blocks K then None else Some e)"

subsection \<open>Prefill and generation on one rank\<close>

text \<open>\<open>prefill_run_batch\<close>: the blocks of a batch; the last batch computes the logits. \<open>mtp_h\<close> is not kept.\<close>

definition prefill_run_batch ::
  "('x, 'y, 'k, 'z) kern_scheme \<Rightarrow> u32 list \<Rightarrow> u32 \<Rightarrow> bool \<Rightarrow> ('x, 'y, 'k) engine \<Rightarrow> ('x, 'y, 'k) engine" where
  "prefill_run_batch K tokens pos final e =
     (let e = fold (batch_block K tokens pos) [1..<Suc (trunk K)] e in
      if \<not> final then e
      else let x = kn_norm K (last (eg_pb e)) in e\<lparr>eg_x := x, eg_logits := kn_head K x\<rparr>)"

definition PREFILL_BATCH_MIN :: nat where "PREFILL_BATCH_MIN = 16"

definition forward_tokens ::
  "('x, 'y, 'k, 'z) kern_scheme \<Rightarrow> u32 list \<Rightarrow> u32 \<Rightarrow> ('x, 'y, 'k) engine \<Rightarrow> ('x, 'y, 'k) engine" where
  "forward_tokens K tokens pos e =
     fold (\<lambda>(i, t). engine_forward K t (pos + word_of_nat i)) (zip [0..<length tokens] tokens) e"

function engine_forward_prefill ::
  "('x, 'y, 'k, 'z) kern_scheme \<Rightarrow> u32 list \<Rightarrow> u32 \<Rightarrow> ('x, 'y, 'k) engine \<Rightarrow> ('x, 'y, 'k) engine" where
  "engine_forward_prefill K tokens pos e =
     (if tokens = [] then e
      else
        let nb = min PB_MAX (length tokens); batch = take nb tokens; rest = drop nb tokens;
            e = (if nb < PREFILL_BATCH_MIN then forward_tokens K batch pos e
                 else prefill_run_batch K batch pos (rest = []) (e\<lparr>eg_pb := map (kn_embed K) batch\<rparr>)) in
        engine_forward_prefill K rest (pos + word_of_nat nb) e)"
  by pat_completeness auto
termination
  by (relation "measure (\<lambda>(K, tokens, pos, e). length tokens)") (auto simp: PB_MAX_def)

declare engine_forward_prefill.simps [simp del]

end
