(* ===== verification/DistWire.thy ===== *)
theory DistWire
  imports ByteCodec Wire
begin

text \<open>
  The frames between the ranks of a pipeline (\<open>inference/core/dist.c\<close>) and the half precision in
  which activations may travel (\<open>f16_to_f32\<close>, \<open>f32_to_f16\<close> of \<open>inference/core/platform.c\<close>). A
  \<open>float\<close> is its bit pattern. A connection is the stream of bytes that are still to be read; the
  stream ends where the peer closed it.
\<close>

unbundle bit_operations_syntax

subsection \<open>Half precision\<close>

text \<open>The leading one of a subnormal number is at most ten places below bit 10.\<close>

fun norm_sub :: "nat \<Rightarrow> u32 \<Rightarrow> nat \<Rightarrow> u32 \<times> nat" where
  "norm_sub 0 mm sh = (mm, sh)"
| "norm_sub (Suc n) mm sh = (if mm AND 0x400 = 0 then norm_sub n (push_bit 1 mm) (sh + 1) else (mm, sh))"

definition f16_to_f32 :: "u16 \<Rightarrow> u32" where
  "f16_to_f32 h =
     (let s = push_bit 16 (ucast (h AND 0x8000)) :: u32;
          e = ucast (h AND 0x7c00) :: u32;
          m = ucast (h AND 0x3ff) :: u32 in
      if e = 0 then
        (if m = 0 then 0
         else case norm_sub 10 m 0 of (mm, sh) \<Rightarrow>
           s OR push_bit 23 (113 - word_of_nat sh) OR push_bit 13 (mm AND 0x3ff))
      else if e = 0x7c00 then s OR 0x7f800000 OR (if m \<noteq> 0 then 0x7fc000 else 0)
      else s OR push_bit 13 (e + 0x1c000) OR push_bit 13 m)"

definition f32_to_f16 :: "u32 \<Rightarrow> u16" where
  "f32_to_f16 x =
     (let sign = drop_bit 16 x AND 0x8000;
          ex = drop_bit 23 x AND 0xff;
          exp = sint ex - 127 + 15;
          mant = x AND 0x7fffff in
      ucast (if ex = 0 then sign
       else if ex = 0xff then sign OR 0x7c00 OR (if mant \<noteq> 0 then 0x0200 else 0)
       else if exp \<ge> 31 then sign OR 0x7c00
       else if exp \<le> 0 then
         (if exp < -10 then sign
          else let mant = mant OR 0x800000; shift = nat (14 - exp) in
            sign OR drop_bit shift (mant + push_bit (shift - 1) 1))
       else let mant = mant + 0x1000 in
         if mant AND 0x800000 \<noteq> 0 then
           (let exp = exp + 1 in
            if exp \<ge> 31 then sign OR 0x7c00 else sign OR push_bit 10 (word_of_int exp))
         else sign OR push_bit 10 (word_of_int exp) OR drop_bit 13 mant))"

definition put16 :: "u16 \<Rightarrow> bytes" where
  "put16 w = le_enc 2 (unat w)"

definition get16 :: "bytes \<Rightarrow> u16" where
  "get16 s = word_of_nat (le_dec (take 2 s))"

text \<open>Activations on the wire, and what arrives of them.\<close>

type_synonym activation = "u32 list"

definition act_bytes :: "bool \<Rightarrow> activation \<Rightarrow> bytes" where
  "act_bytes fp16 x = concat (map (if fp16 then put16 o f32_to_f16 else put32) x)"

fun halves :: "bytes \<Rightarrow> u16 list" where
  "halves (a # b # s) = get16 [a, b] # halves s"
| "halves _ = []"

definition act_of :: "bool \<Rightarrow> bytes \<Rightarrow> activation" where
  "act_of fp16 s = (if fp16 then map f16_to_f32 (halves s) else bytes_words s)"

definition elem_size :: "bool \<Rightarrow> nat" where
  "elem_size fp16 = (if fp16 then 2 else 4)"

definition wire :: "bool \<Rightarrow> activation \<Rightarrow> activation" where
  "wire fp16 x = (if fp16 then map (f16_to_f32 o f32_to_f16) x else x)"

subsection \<open>Sending\<close>

definition DTYPE_X :: u32 where "DTYPE_X = 1"
definition DTYPE_LOGITS_K :: u32 where "DTYPE_LOGITS_K = 2"
definition DTYPE_DONE :: u32 where "DTYPE_DONE = 3"
definition DTYPE_SESS :: u32 where "DTYPE_SESS = 4"
definition DTYPE_XB :: u32 where "DTYPE_XB = 5"

definition frame_hdr :: "u32 \<Rightarrow> nat \<Rightarrow> bytes" where
  "frame_hdr type len = put32 type @ put32 (word_of_nat len)"

definition dist_send_x :: "bool \<Rightarrow> u32 \<Rightarrow> u32 \<Rightarrow> activation \<Rightarrow> bytes" where
  "dist_send_x fp16 pos token x =
     frame_hdr DTYPE_X (8 + length x * elem_size fp16) @ put32 pos @ put32 token @ act_bytes fp16 x"

definition dist_send_xb :: "bool \<Rightarrow> u32 \<Rightarrow> u32 list \<Rightarrow> activation list \<Rightarrow> bytes" where
  "dist_send_xb fp16 pos tokens xs =
     frame_hdr DTYPE_XB (8 + length tokens * 4 + length (concat xs) * elem_size fp16)
     @ put32 pos @ put32 (word_of_nat (length tokens)) @ words_bytes tokens @ act_bytes fp16 (concat xs)"

definition dist_send_logits :: "u32 list \<Rightarrow> bytes" where
  "dist_send_logits logits = frame_hdr DTYPE_LOGITS_K (length logits * 4) @ words_bytes logits"

definition dist_send_sess :: "string \<Rightarrow> u32 \<Rightarrow> bytes" where
  "dist_send_sess key pos =
     (let k = snprintf_s 64 key in
      frame_hdr DTYPE_SESS 68 @ (k @ replicate (64 - length k) NUL) @ put32 pos)"

definition dist_send_done :: bytes where
  "dist_send_done = frame_hdr DTYPE_DONE 0"

subsection \<open>Receiving\<close>

definition xrecv :: "nat \<Rightarrow> bytes \<Rightarrow> (bytes \<times> bytes) option" where
  "xrecv n s = (if length s < n then None else Some (take n s, drop n s))"

definition recv_u32 :: "bytes \<Rightarrow> (u32 \<times> bytes) option" where
  "recv_u32 s = map_option (\<lambda>(a, r). (get32 a, r)) (xrecv 4 s)"

definition recv_hdr :: "bytes \<Rightarrow> (u32 \<times> u32 \<times> bytes) option" where
  "recv_hdr s = map_option (\<lambda>(a, r). (get32 a, get32 (drop 4 a), r)) (xrecv 8 s)"

fun rows :: "nat \<Rightarrow> nat \<Rightarrow> 'a list \<Rightarrow> 'a list list" where
  "rows 0 hidden xs = []"
| "rows (Suc n) hidden xs = take hidden xs # rows n hidden (drop hidden xs)"

datatype recv_result = RecvErr | RecvDone bytes | RecvX u32 "u32 list" "activation list" bytes

definition recv_x_payload :: "bool \<Rightarrow> nat \<Rightarrow> bytes \<Rightarrow> recv_result" where
  "recv_x_payload fp16 hidden s =
     (case recv_u32 s of None \<Rightarrow> RecvErr
      | Some (pos, s) \<Rightarrow> (case recv_u32 s of None \<Rightarrow> RecvErr
        | Some (tok, s) \<Rightarrow> (case xrecv (hidden * elem_size fp16) s of None \<Rightarrow> RecvErr
          | Some (a, s) \<Rightarrow> RecvX pos [tok] [act_of fp16 a] s)))"

definition recv_xb_payload :: "bool \<Rightarrow> nat \<Rightarrow> nat \<Rightarrow> bytes \<Rightarrow> recv_result" where
  "recv_xb_payload fp16 hidden cap s =
     (case recv_u32 s of None \<Rightarrow> RecvErr
      | Some (pos, s) \<Rightarrow> (case recv_u32 s of None \<Rightarrow> RecvErr
        | Some (count, s) \<Rightarrow>
          if count < 1 \<or> unat count > cap then RecvErr
          else (case xrecv (unat count * 4) s of None \<Rightarrow> RecvErr
          | Some (t, s) \<Rightarrow> (case xrecv (unat count * hidden * elem_size fp16) s of None \<Rightarrow> RecvErr
            | Some (a, s) \<Rightarrow> RecvX pos (bytes_words t) (rows (unat count) hidden (act_of fp16 a)) s))))"

definition dist_recv_xb :: "bool \<Rightarrow> nat \<Rightarrow> nat \<Rightarrow> bytes \<Rightarrow> recv_result" where
  "dist_recv_xb fp16 hidden cap s =
     (case recv_hdr s of
        None \<Rightarrow> RecvErr
      | Some (type, len, s) \<Rightarrow>
        if type = DTYPE_DONE then RecvDone s
        else if type = DTYPE_X then (if len < 8 then RecvErr else recv_x_payload fp16 hidden s)
        else if type \<noteq> DTYPE_XB then RecvErr
        else if len < 12 then RecvErr
        else let count = (len - 8) div (4 + word_of_nat (hidden * elem_size fp16)) in
          if count < 1 \<or> unat count > cap then RecvErr else recv_xb_payload fp16 hidden cap s)"

text \<open>The logits that arrive replace the first ones of the buffer.\<close>

definition dist_recv_logits :: "u32 list \<Rightarrow> bytes \<Rightarrow> (nat \<times> u32 list \<times> bytes) option" where
  "dist_recv_logits logits s =
     (case recv_hdr s of
        None \<Rightarrow> None
      | Some (type, len, s) \<Rightarrow>
        if type \<noteq> DTYPE_LOGITS_K then None
        else let n = min (unat (len div 4)) (length logits) in
          (case xrecv (n * 4) s of None \<Rightarrow> None
           | Some (a, s) \<Rightarrow> Some (n, bytes_words a @ drop n logits, s)))"

text \<open>A frame that is no handshake is left for \<open>dist_recv_xb\<close>.\<close>

datatype sess_result = SessErr | SessNone | Sess string u32 bytes

definition dist_recv_sess :: "bytes \<Rightarrow> sess_result" where
  "dist_recv_sess s =
     (case recv_hdr s of
        None \<Rightarrow> SessErr
      | Some (type, len, r) \<Rightarrow>
        if type \<noteq> DTYPE_SESS \<or> len < 68 then SessNone
        else (case xrecv 64 r of None \<Rightarrow> SessErr
          | Some (k, r) \<Rightarrow> (case recv_u32 r of None \<Rightarrow> SessErr
            | Some (pos, r) \<Rightarrow> Sess (takeWhile (\<lambda>c. c \<noteq> NUL) (take 63 k)) pos r)))"

subsection \<open>What is sent arrives\<close>

lemma xrecv_append [simp]: "length a = n \<Longrightarrow> xrecv n (a @ s) = Some (a, s)"
  by (simp add: xrecv_def)

lemma recv_u32_put32 [simp]: "recv_u32 (put32 w @ s) = Some (w, s)"
  by (simp add: recv_u32_def)

lemma recv_hdr_frame [simp]: "recv_hdr (frame_hdr type len @ s) = Some (type, word_of_nat len, s)"
proof -
  have "xrecv 8 ((put32 type @ put32 (word_of_nat len)) @ s) = Some (put32 type @ put32 (word_of_nat len), s)"
    by (rule xrecv_append) simp
  then show ?thesis by (simp add: recv_hdr_def frame_hdr_def)
qed

lemma recv_hdr_frame_all [simp]: "recv_hdr (frame_hdr type len) = Some (type, word_of_nat len, [])"
  using recv_hdr_frame[of type len "[]"] by simp

lemma length_act_bytes [simp]: "length (act_bytes fp16 x) = length x * elem_size fp16"
  by (induction x) (auto simp: act_bytes_def put16_def elem_size_def)

lemma get16_put16: "get16 (put16 w) = w"
  using unsigned_less[of w, where ?'a = nat] by (simp add: get16_def put16_def le_dec_enc)

lemma halves_put16 [simp]: "halves (put16 w @ s) = w # halves s"
proof -
  obtain a b where ab: "put16 w = [a, b]"
    using length_le_enc[of 2 "unat w"] unfolding put16_def by (metis (no_types) One_nat_def Suc_1 length_0_conv length_Suc_conv)
  then show ?thesis using get16_put16[of w] by simp
qed

lemma act_of_bytes [simp]: "act_of fp16 (act_bytes fp16 x) = wire fp16 x"
proof (induction x)
  case Nil
  then show ?case by (simp add: act_of_def act_bytes_def wire_def)
next
  case (Cons w x)
  then show ?case by (auto simp: act_of_def act_bytes_def wire_def)
qed

lemma rows_concat: "(\<And>x. x \<in> set xs \<Longrightarrow> length x = hidden) \<Longrightarrow> rows (length xs) hidden (concat xs) = xs"
  by (induction xs) auto

lemma length_concat_rows: "(\<And>x. x \<in> set xs \<Longrightarrow> length x = hidden) \<Longrightarrow> length (concat xs) = length xs * hidden"
  by (induction xs) auto

text \<open>A batch has \<open>n\<close> tokens and \<open>n\<close> activations of \<open>hidden\<close> numbers; its length fits 32 bits.\<close>

definition batch_ok :: "nat \<Rightarrow> nat \<Rightarrow> u32 list \<Rightarrow> activation list \<Rightarrow> bool" where
  "batch_ok cap hidden tokens xs \<longleftrightarrow> tokens \<noteq> [] \<and> length tokens \<le> cap \<and> length xs = length tokens
     \<and> list_all (\<lambda>x. length x = hidden) xs \<and> 8 + length tokens * (4 + hidden * 4) < 2 ^ 32"

lemma of_nat_not_less: "n < 4294967296 \<Longrightarrow> k \<le> n \<Longrightarrow> \<not> (word_of_nat n :: u32) < word_of_nat k"
  by (simp add: word_less_nat_alt unat_word_of_nat_small)

lemma of_nat_div: "n < 4294967296 \<Longrightarrow> d < 4294967296 \<Longrightarrow> (word_of_nat n :: u32) div word_of_nat d = word_of_nat (n div d)"
  by (simp add: word_arith_nat_div unat_word_of_nat_small)

lemma recv_x: 
  assumes "length x = hidden" "8 + hidden * 4 < 2 ^ 32"
  shows "dist_recv_xb fp16 hidden cap (dist_send_x fp16 pos token x @ s) = RecvX pos [token] [wire fp16 x] s"
proof -
  have "8 + length x * elem_size fp16 < 4294967296" using assms by (auto simp: elem_size_def)
  then have "\<not> (word_of_nat (8 + length x * elem_size fp16) :: u32) < word_of_nat 8" by (rule of_nat_not_less) simp
  then show ?thesis
    by (simp add: dist_recv_xb_def dist_send_x_def DTYPE_X_def DTYPE_DONE_def recv_x_payload_def assms(1))
qed

lemma xb_count:
  assumes "0 < n" "8 + n * (4 + d) < 2 ^ 32"
  shows "((word_of_nat (8 + n * (4 + d)) :: u32) - 8) div (4 + word_of_nat d) = word_of_nat n"
proof -
  have "1 * (4 + d) \<le> n * (4 + d)" using assms(1) by (intro mult_le_mono1) simp
  then have "4 + d \<le> n * (4 + d)" by (simp only: nat_mult_1)
  moreover have "8 + n * (4 + d) < 4294967296" using assms(2) by simp
  ultimately have d: "4 + d < 4294967296" by linarith
  have m: "n * (4 + d) < 4294967296" using assms(2) by simp
  have eq: "(word_of_nat (8 + n * (4 + d)) :: u32) - 8 = word_of_nat (n * (4 + d))" "(4 + word_of_nat d :: u32) = word_of_nat (4 + d)"
    by simp_all
  show ?thesis unfolding eq of_nat_div[OF m d] by simp
qed

lemma recv_xb:
  assumes "batch_ok cap hidden tokens xs"
  shows "dist_recv_xb fp16 hidden cap (dist_send_xb fp16 pos tokens xs @ s) = RecvX pos tokens (map (wire fp16) xs) s"
proof -
  let ?n = "length tokens" and ?d = "hidden * elem_size fp16"
  have x: "\<And>x. x \<in> set xs \<Longrightarrow> length x = hidden" "length xs = ?n" "0 < ?n" "?n \<le> cap"
    using assms by (auto simp: batch_ok_def list_all_iff)
  have "?n * (4 + ?d) \<le> ?n * (4 + hidden * 4)" by (intro mult_le_mono2 add_le_mono) (auto simp: elem_size_def)
  then have b: "8 + ?n * (4 + ?d) < 2 ^ 32" using assms unfolding batch_ok_def by linarith
  have b': "8 + ?n * (4 + ?d) < 4294967296" using b by simp
  have lc: "length (concat xs) * elem_size fp16 = ?n * ?d" using length_concat_rows[OF x(1)] x(2) by simp
  have len: "8 + ?n * 4 + length (concat xs) * elem_size fp16 = 8 + ?n * (4 + ?d)" using lc by (simp add: algebra_simps)
  have n32: "unat (word_of_nat ?n :: u32) = ?n" using b x(3) by (intro unat_word_of_nat_small) (simp add: algebra_simps)
  have ge: "\<not> (word_of_nat (8 + ?n * (4 + ?d)) :: u32) < 12"
  proof -
    have "12 \<le> 8 + ?n * (4 + ?d)" using x(3) by (cases ?n) auto
    then show ?thesis using of_nat_not_less[OF b', of 12] by simp
  qed
  have c1: "\<not> (word_of_nat ?n :: u32) < 1" using n32 x(3) by (simp add: word_less_nat_alt)
  have wc: "act_of fp16 (act_bytes fp16 (concat xs)) = concat (map (wire fp16) xs)"
    unfolding act_of_bytes by (cases fp16) (simp_all add: wire_def map_concat cong: map_cong)
  have rw: "rows ?n hidden (concat (map (wire fp16) xs)) = map (wire fp16) xs"
  proof -
    have "length (wire fp16 a) = length a" for a by (simp add: wire_def)
    then have "\<And>a. a \<in> set (map (wire fp16) xs) \<Longrightarrow> length a = hidden" using x(1) by auto
    then show ?thesis using rows_concat[of "map (wire fp16) xs" hidden] unfolding length_map x(2) by blast
  qed
  have pl: "recv_xb_payload fp16 hidden cap
      (put32 pos @ put32 (word_of_nat ?n) @ words_bytes tokens @ act_bytes fp16 (concat xs) @ s)
      = RecvX pos tokens (map (wire fp16) xs) s"
    using c1 n32 x(4) lc wc rw by (simp add: recv_xb_payload_def mult.assoc)
  show ?thesis
    unfolding dist_recv_xb_def dist_send_xb_def append_assoc recv_hdr_frame option.case prod.case len
      xb_count[OF x(3) b] Let_def n32
    using pl ge c1 x(4) by (simp add: DTYPE_X_def DTYPE_DONE_def DTYPE_XB_def)
qed

lemma recv_logits:
  assumes "length ys = length logits" "length ys * 4 < 2 ^ 32"
  shows "dist_recv_logits logits (dist_send_logits ys @ s) = Some (length ys, ys, s)"
proof -
  have "unat ((word_of_nat (length ys * 4) :: u32) div 4) = length ys"
    using of_nat_div[of "length ys * 4" 4] assms(2) by (simp add: unat_word_of_nat_small)
  then show ?thesis
    using assms(1) by (simp add: dist_recv_logits_def dist_send_logits_def)
qed

lemma recv_sess:
  assumes "NUL \<notin> set key"
  shows "dist_recv_sess (dist_send_sess key pos @ s) = Sess (take 63 key) pos s"
proof -
  let ?k = "take 63 key"
  let ?b = "?k @ replicate (64 - length ?k) NUL"
  have "xrecv 64 (?b @ put32 pos @ s) = Some (?b, put32 pos @ s)" by (rule xrecv_append) simp
  moreover have "takeWhile (\<lambda>c. c \<noteq> NUL) (take 63 ?b) = ?k"
    using assms by (auto simp: takeWhile_append takeWhile_eq_all_conv dest: in_set_takeD)
  ultimately show ?thesis
    by (simp add: dist_recv_sess_def dist_send_sess_def snprintf_s_def)
qed

lemma recv_no_sess:
  "dist_recv_sess (dist_send_x fp16 pos token x @ s) = SessNone" "dist_recv_sess (dist_send_xb fp16 pos tokens xs @ s) = SessNone"
  "dist_recv_sess (dist_send_done @ s) = SessNone"
  by (simp_all add: dist_recv_sess_def dist_send_x_def dist_send_xb_def dist_send_done_def DTYPE_X_def DTYPE_XB_def
    DTYPE_DONE_def DTYPE_SESS_def)

lemma recv_done: "dist_recv_xb fp16 hidden cap (dist_send_done @ s) = RecvDone s"
  by (simp add: dist_recv_xb_def dist_send_done_def)

text \<open>C34: What a rank sends, the next one receives, whatever follows on the connection: an activation, a
  batch (rounded to half precision when the ranks agree on that), the logits, the handshake of a session
  (its key up to 63 characters) and the end. A receiver that expects a handshake leaves the other frames.\<close>

theorem frames_recovered:
  assumes x: "length x = hidden" and xb: "batch_ok cap hidden tokens xs" and ys: "length ys = length logits" "length ys * 4 < 2 ^ 32"
    and key: "NUL \<notin> set key"
  shows "dist_recv_xb fp16 hidden cap (dist_send_x fp16 pos token x @ s) = RecvX pos [token] [wire fp16 x] s
    \<and> dist_recv_xb fp16 hidden cap (dist_send_xb fp16 pos tokens xs @ s) = RecvX pos tokens (map (wire fp16) xs) s
    \<and> dist_recv_xb fp16 hidden cap (dist_send_done @ s) = RecvDone s
    \<and> dist_recv_logits logits (dist_send_logits ys @ s) = Some (length ys, ys, s)
    \<and> dist_recv_sess (dist_send_sess key pos @ s) = Sess (take 63 key) pos s
    \<and> dist_recv_sess (dist_send_x fp16 pos token x @ s) = SessNone \<and> dist_recv_sess (dist_send_xb fp16 pos tokens xs @ s) = SessNone
    \<and> dist_recv_sess (dist_send_done @ s) = SessNone"
proof -
  have n: "1 \<le> length tokens" "8 + length tokens * (4 + hidden * 4) < 2 ^ 32" using xb by (cases tokens; simp add: batch_ok_def)+
  have "hidden * 4 \<le> 1 * (4 + hidden * 4)" by simp
  also have "\<dots> \<le> length tokens * (4 + hidden * 4)" by (rule mult_le_mono1[OF n(1)])
  finally have "hidden * 4 \<le> length tokens * (4 + hidden * 4)" .
  from le_less_trans[OF add_left_mono[OF this] n(2)] have "8 + hidden * 4 < 2 ^ 32" .
  from recv_x[OF x this] show ?thesis by (intro conjI recv_xb[OF xb] recv_done recv_logits[OF ys] recv_sess[OF key] recv_no_sess)
qed

theorem frames_recovered_witness:
  "dist_recv_xb True 2 16 (dist_send_xb True 5 [7, 8] [[0x3f800000, 0x40000000], [0, 0x3f000000]] @ [CHR 0x09])
      = RecvX 5 [7, 8] (map (wire True) [[0x3f800000, 0x40000000], [0, 0x3f000000]]) [CHR 0x09]
    \<and> dist_recv_sess (dist_send_sess ''alice'' 5 @ []) = Sess (take 63 ''alice'') 5 []"
proof -
  have k: "NUL \<notin> set ''alice''" by simp
  have b: "batch_ok 16 2 [7, 8] [[0x3f800000, 0x40000000], [0, 0x3f000000]]" by (simp add: batch_ok_def)
  have l: "length [3 :: u32] = length [0 :: u32]" "length [3 :: u32] * 4 < 2 ^ 32" by simp_all
  have x: "length [1, 2 :: u32] = 2" by simp
  note w = frames_recovered[OF x b l k]
  show ?thesis by (rule conjI[OF w[THEN conjunct2, THEN conjunct1] w[THEN conjunct2, THEN conjunct2, THEN conjunct2, THEN conjunct2, THEN conjunct1]])
qed

end
