(* ===== verification/Pipeline.thy ===== *)
theory Pipeline
  imports Engine DistWire RankSess
begin

text \<open>
  Generation over several ranks (\<open>dist_gen\<close> in \<open>inference/core/dist.c\<close>, the worker thread of
  \<open>serve/rank.c\<close>). Rank 0 is the master: it reads the prompt, samples and answers; the others take
  activations from the rank before and pass theirs on, the last one sends logits to rank 0. A rank
  is a process that sends and receives frames; the bytes of the frames are in theory \<open>DistWire\<close>.
  What is sent on a connection stays there until it is read; a receiver whose sender has closed
  the connection gets an error once everything is read; a send to a closed connection goes
  unnoticed. The engine and the sampling are arguments.
\<close>

subsection \<open>Processes\<close>

datatype dist_frame = FSess string u32 | FX u32 u32 activation | FXB u32 "u32 list" "activation list" | FLogits "u32 list" | FDone

text \<open>Receiving yields \<open>None\<close> when the connection is closed.\<close>

datatype 'r proc = Send dist_frame "'r proc" | Recv "dist_frame option \<Rightarrow> 'r proc" | Halt 'r

type_synonym 'k net_engine = "(activation, u32 list, 'k) engine"

text \<open>\<open>pe_sample\<close> gives the token, the logits as it leaves them and the random state; \<open>pe_emit n\<close>
  tells whether the \<open>n\<close>-th call of the callback succeeds, \<open>pe_prog\<close> whether progress can be
  reported at a position.\<close>

record 'k pipe_env =
  pe_kern :: "(activation, u32 list, 'k) kern"
  pe_vocab :: nat
  pe_max_seq :: nat
  pe_eos :: int
  pe_seed :: u64
  pe_sample :: "u32 list \<Rightarrow> u64 \<Rightarrow> (u32 \<times> u32 list \<times> u64) option"
  pe_emit :: "nat \<Rightarrow> bool"
  pe_prog :: "u32 \<Rightarrow> bool"
  pe_fp16 :: bool

definition PP_XB :: nat where "PP_XB = 16"

definition eos_token :: "'k pipe_env \<Rightarrow> u32" where
  "eos_token E = word_of_int (pe_eos E)"

subsection \<open>The master\<close>

record 'k outcome =
  oc_ok :: bool
  oc_pos :: u32
  oc_engine :: "'k net_engine"
  oc_tokens :: "u32 list"
  oc_calls :: nat

text \<open>\<open>dist_recv_logits\<close>: \<open>None\<close> for an error or no logits at all.\<close>

definition got_logits :: "'k pipe_env \<Rightarrow> 'k net_engine \<Rightarrow> dist_frame option \<Rightarrow> 'k net_engine option" where
  "got_logits E e f =
     (case f of
        Some (FLogits y) \<Rightarrow>
          let y = take (pe_vocab E) y in
          if y = [] then None else Some (e\<lparr>eg_logits := y @ drop (length y) (eg_logits e)\<rparr>)
      | _ \<Rightarrow> None)"

text \<open>The prompt goes in batches. Before the next batch is sent the logits of the last one are
  taken; those of the final batch are left for the decode loop. The continuation gets whether all
  went well, the position and the engine.\<close>

function dist_prefill ::
  "'k pipe_env \<Rightarrow> u32 list \<Rightarrow> u32 \<Rightarrow> 'k net_engine \<Rightarrow> (bool \<Rightarrow> u32 \<Rightarrow> 'k net_engine \<Rightarrow> 'r proc) \<Rightarrow> 'r proc" where
  "dist_prefill E ids pos e k =
     (if ids = [] then k True pos e
      else
        let nb = min PP_XB (length ids); batch = take nb ids; rest = drop nb ids in
        case engine_forward_batch_tokens (pe_kern E) batch pos e of
          None \<Rightarrow> k False pos e
        | Some e \<Rightarrow>
          Send (FXB pos batch (map (wire (pe_fp16 E)) (take nb (eg_pb e))))
            (let pos = pos + word_of_nat nb in
             if \<not> pe_prog E pos then k False pos e
             else if rest = [] then k True pos e
             else Recv (\<lambda>f. case got_logits E e f of
                 None \<Rightarrow> k False pos e
               | Some e \<Rightarrow> dist_prefill E rest pos e k)))"
  by pat_completeness auto
termination
  by (relation "measure (\<lambda>(E, ids, pos, e, k). length ids)") (auto simp: PP_XB_def)

declare dist_prefill.simps [simp del]

text \<open>The decode loop: \<open>i\<close> tokens may still be generated, \<open>n\<close> calls of the callback were made,
  \<open>pend\<close> tells that logits are on the way. The token is sent to the next rank before it is given
  to the callback.\<close>

fun dist_decode ::
  "'k pipe_env \<Rightarrow> nat \<Rightarrow> bool \<Rightarrow> u32 list \<Rightarrow> u32 \<Rightarrow> 'k net_engine \<Rightarrow> u64
     \<Rightarrow> (bool \<Rightarrow> bool \<Rightarrow> u32 list \<Rightarrow> nat \<Rightarrow> u32 \<Rightarrow> 'k net_engine \<Rightarrow> 'r proc) \<Rightarrow> 'r proc" where
  "dist_decode E 0 pend gen pos e rng k = k True pend gen (length gen) pos e"
| "dist_decode E (Suc i) pend gen pos e rng k =
     (if unat pos \<ge> pe_max_seq E then k True pend gen (length gen) pos e
      else Recv (\<lambda>f. case got_logits E e f of
          None \<Rightarrow> k False pend gen (length gen) pos e
        | Some e \<Rightarrow>
          (case pe_sample E (eg_logits e) rng of
             None \<Rightarrow> k False False gen (length gen) pos e
           | Some (nxt, l, rng) \<Rightarrow>
             let e = e\<lparr>eg_logits := l\<rparr> in
             if nxt = eos_token E then k True False gen (length gen) pos e
             else let e = engine_forward_range (pe_kern E) nxt True pos e in
               Send (FX pos nxt (wire (pe_fp16 E) (eg_x e)))
                 (if \<not> pe_emit E (length gen) then k False False gen (Suc (length gen)) pos e
                  else dist_decode E i True (gen @ [nxt]) (pos + 1) e rng k))))"

text \<open>The end: logits on the way are taken; in a session the \<open>eos\<close> is appended on all ranks.\<close>

definition dist_finish :: "bool \<Rightarrow> u32 list \<Rightarrow> nat \<Rightarrow> u32 \<Rightarrow> 'k net_engine \<Rightarrow> 'k outcome proc" where
  "dist_finish ok gen n pos e =
     Send FDone (Halt \<lparr>oc_ok = ok, oc_pos = pos, oc_engine = e, oc_tokens = gen, oc_calls = n\<rparr>)"

definition dist_eos :: "'k pipe_env \<Rightarrow> bool \<Rightarrow> bool \<Rightarrow> u32 list \<Rightarrow> nat \<Rightarrow> u32 \<Rightarrow> 'k net_engine \<Rightarrow> 'k outcome proc" where
  "dist_eos E sess ok gen n pos e =
     (if sess \<and> ok \<and> unat pos < pe_max_seq E then
        let e = engine_forward_range (pe_kern E) (eos_token E) True pos e in
        Send (FX pos (eos_token E) (wire (pe_fp16 E) (eg_x e))) (Recv (\<lambda>_. dist_finish ok gen n (pos + 1) e))
      else dist_finish ok gen n pos e)"

definition dist_close_up ::
  "'k pipe_env \<Rightarrow> bool \<Rightarrow> bool \<Rightarrow> bool \<Rightarrow> u32 list \<Rightarrow> nat \<Rightarrow> u32 \<Rightarrow> 'k net_engine \<Rightarrow> 'k outcome proc" where
  "dist_close_up E sess ok pend gen n pos e =
     (if pend then Recv (\<lambda>_. dist_eos E sess ok gen n pos e) else dist_eos E sess ok gen n pos e)"

definition dist_master ::
  "'k pipe_env \<Rightarrow> (string \<times> u32) option \<Rightarrow> u32 list \<Rightarrow> nat \<Rightarrow> 'k net_engine \<Rightarrow> 'k outcome proc" where
  "dist_master E sess ids ntokens e =
     (let body = dist_prefill E ids (case sess of None \<Rightarrow> 0 | Some (_, p) \<Rightarrow> p) e
        (\<lambda>ok pos e. if \<not> ok then dist_close_up E (sess \<noteq> None) False False [] 0 pos e
           else dist_decode E ntokens False [] pos e (pe_seed E) (dist_close_up E (sess \<noteq> None))) in
      case sess of None \<Rightarrow> body | Some (key, p) \<Rightarrow> Send (FSess (snprintf_s 64 key) p) body)"

subsection \<open>The other ranks\<close>

datatype phase = WHand | WRun | WEnd

text \<open>\<open>wk_my\<close> is the position up to which this rank has the caches of session \<open>wk_key\<close>; the files
  of a rank hold its caches and a position.\<close>

record 'k worker =
  wk_rank :: nat
  wk_last :: bool
  wk_engine :: "'k net_engine"
  wk_phase :: phase
  wk_ok :: bool
  wk_key :: string
  wk_my :: u32
  wk_last_key :: string
  wk_dir :: string
  wk_disk :: "string \<Rightarrow> ((nat \<Rightarrow> 'k) \<times> u32) option"

definition worker_file :: "'k worker \<Rightarrow> string \<Rightarrow> string" where
  "worker_file w key = rank_kv_path (wk_dir w) key (int (wk_rank w))"

text \<open>A key other than the last one of this connection: the caches come from the file, if any.\<close>

definition worker_restore :: "string \<Rightarrow> 'k worker \<Rightarrow> 'k worker" where
  "worker_restore key w =
     (if wk_dir w \<noteq> [] \<and> wk_last_key w \<noteq> key then
        let w = w\<lparr>wk_last_key := key, wk_my := 0\<rparr> in
        (case wk_disk w (worker_file w key) of
           None \<Rightarrow> w
         | Some (kv, n) \<Rightarrow> w\<lparr>wk_engine := (wk_engine w)\<lparr>eg_kv := kv\<rparr>, wk_my := n\<rparr>)
      else w)"

definition worker_align :: "string \<Rightarrow> u32 \<Rightarrow> 'k worker \<Rightarrow> 'k worker" where
  "worker_align key pos w =
     (if pos = wk_my w then w
      else if pos = 0 then w\<lparr>wk_my := 0\<rparr>
      else if pos < wk_my w then w\<lparr>wk_my := pos\<rparr>
      else (if wk_dir w \<noteq> [] \<and> key \<noteq> [] then w\<lparr>wk_disk := (wk_disk w)(worker_file w key := None)\<rparr> else w)
             \<lparr>wk_my := 0, wk_ok := False\<rparr>)"

definition worker_handshake :: "string \<Rightarrow> u32 \<Rightarrow> 'k worker \<Rightarrow> 'k worker \<times> dist_frame list" where
  "worker_handshake key pos w =
     (worker_align key pos (worker_restore key (w\<lparr>wk_key := key\<rparr>))\<lparr>wk_phase := WRun\<rparr>,
      if wk_last w then [] else [FSess key pos])"

text \<open>A frame of activations: one token takes the path for single tokens.\<close>

definition worker_forward :: "'k pipe_env \<Rightarrow> u32 \<Rightarrow> u32 list \<Rightarrow> activation list \<Rightarrow> 'k worker \<Rightarrow> 'k worker \<times> dist_frame list" where
  "worker_forward E pos tokens xs w =
     (let K = pe_kern E; n = length tokens; e = wk_engine w;
          r = (if n = 1 then Some (engine_forward_range K (hd tokens) False pos (e\<lparr>eg_x := hd xs\<rparr>))
               else engine_forward_batch_x K xs tokens pos (wk_last w) e) in
      case r of
        None \<Rightarrow> (w\<lparr>wk_ok := False, wk_phase := WEnd\<rparr>, [])
      | Some e \<Rightarrow>
        (w\<lparr>wk_engine := e, wk_my := pos + word_of_nat n\<rparr>,
         [if wk_last w then FLogits (eg_logits e)
          else FXB pos tokens (map (wire (pe_fp16 E)) (if n = 1 then [eg_x e] else take n (eg_pb e)))]))"

definition worker_loop :: "'k pipe_env \<Rightarrow> dist_frame \<Rightarrow> 'k worker \<Rightarrow> 'k worker \<times> dist_frame list" where
  "worker_loop E f w =
     (case f of
        FDone \<Rightarrow> (w\<lparr>wk_phase := WEnd\<rparr>, if wk_last w then [] else [FDone])
      | FX pos token x \<Rightarrow> if wk_ok w then worker_forward E pos [token] [x] w else (w\<lparr>wk_phase := WEnd\<rparr>, [])
      | FXB pos tokens xs \<Rightarrow> if wk_ok w then worker_forward E pos tokens xs w else (w\<lparr>wk_phase := WEnd\<rparr>, [])
      | _ \<Rightarrow> (w\<lparr>wk_phase := WEnd\<rparr>, []))"

text \<open>What a worker does with the next frame. A first frame that is no handshake is read again by
  the loop.\<close>

definition worker_step :: "'k pipe_env \<Rightarrow> dist_frame \<Rightarrow> 'k worker \<Rightarrow> 'k worker \<times> dist_frame list" where
  "worker_step E f w =
     (case wk_phase w of
        WHand \<Rightarrow> (case f of FSess key pos \<Rightarrow> worker_handshake key pos w | _ \<Rightarrow> worker_loop E f (w\<lparr>wk_phase := WRun\<rparr>))
      | _ \<Rightarrow> worker_loop E f w)"

definition worker_eof :: "'k worker \<Rightarrow> 'k worker" where
  "worker_eof w = w\<lparr>wk_ok := wk_ok w \<and> wk_phase w \<noteq> WHand, wk_phase := WEnd\<rparr>"

definition wk_live :: "'k worker \<Rightarrow> bool" where
  "wk_live w \<longleftrightarrow> wk_phase w \<noteq> WEnd"

text \<open>A round of \<open>rank_pipe_work_thread\<close>: what the worker starts with and what the rank keeps.\<close>

record 'k pipe_rank =
  pr_engine :: "'k net_engine"
  pr_key :: string
  pr_pos :: u32
  pr_disk :: "string \<Rightarrow> ((nat \<Rightarrow> 'k) \<times> u32) option"

definition worker_begin :: "nat \<Rightarrow> bool \<Rightarrow> string \<Rightarrow> 'k pipe_rank \<Rightarrow> 'k worker" where
  "worker_begin rank final dir r =
     \<lparr>wk_rank = rank, wk_last = final, wk_engine = pr_engine r, wk_phase = WHand, wk_ok = True, wk_key = [],
      wk_my = pr_pos r, wk_last_key = [], wk_dir = dir, wk_disk = pr_disk r\<rparr>"

definition worker_keep :: "'k pipe_rank \<Rightarrow> 'k worker \<Rightarrow> 'k pipe_rank" where
  "worker_keep r w =
     (let key = (if wk_key w \<noteq> [] then snprintf_s 64 (wk_key w) else pr_key r) in
      r\<lparr>pr_engine := wk_engine w, pr_key := key, pr_pos := wk_my w,
        pr_disk := (if wk_dir w = [] \<or> key = [] \<or> wk_my w = 0 then wk_disk w
          else (wk_disk w)(worker_file w key \<mapsto> (eg_kv (wk_engine w), wk_my w)))\<rparr>)"

subsection \<open>The pipeline\<close>

text \<open>The workers in order, each with the frames on the connection to it. What the last one sends
  goes to the master.\<close>

type_synonym 'k chain = "('k worker \<times> dist_frame list) list"

fun feed :: "dist_frame list \<Rightarrow> 'k chain \<Rightarrow> 'k chain \<times> dist_frame list" where
  "feed fs [] = ([], fs)"
| "feed fs ((w, q) # c) = ((w, q @ fs) # c, [])"

text \<open>A step of one worker; the flag tells that the sender of the first connection has closed it.\<close>

inductive chain_step :: "'k pipe_env \<Rightarrow> bool \<Rightarrow> 'k chain \<Rightarrow> 'k chain \<times> dist_frame list \<Rightarrow> bool" for E where
  take_frame: "wk_live w \<Longrightarrow> worker_step E f w = (w', out) \<Longrightarrow> feed out c = (c', log)
    \<Longrightarrow> chain_step E up ((w, f # q) # c) ((w', q) # c', log)"
| closed: "wk_live w \<Longrightarrow> chain_step E True ((w, []) # c) ((worker_eof w, []) # c, [])"
| later: "chain_step E (\<not> wk_live w) c (c', log) \<Longrightarrow> chain_step E up ((w, q) # c) ((w, q) # c', log)"

definition chain_over :: "'k chain \<Rightarrow> bool" where
  "chain_over c \<longleftrightarrow> c \<noteq> [] \<and> \<not> wk_live (fst (last c))"

fun halted :: "'r proc \<Rightarrow> bool" where
  "halted (Halt r) = True"
| "halted _ = False"

type_synonym ('r, 'k) pipeline = "'r proc \<times> 'k chain \<times> dist_frame list"

inductive pipe_step :: "'k pipe_env \<Rightarrow> ('r, 'k) pipeline \<Rightarrow> ('r, 'k) pipeline \<Rightarrow> bool" for E where
  send: "feed [f] c = (c', log) \<Longrightarrow> pipe_step E (Send f p, c, lq) (p, c', lq @ log)"
| recv: "pipe_step E (Recv k, c, f # lq) (k (Some f), c, lq)"
| recv_closed: "chain_over c \<Longrightarrow> pipe_step E (Recv k, c, []) (k None, c, [])"
| work: "chain_step E (halted m) c (c', log) \<Longrightarrow> pipe_step E (m, c, lq) (m, c', lq @ log)"

end
