(* ===== verification/Config.thy ===== *)
theory Config
  imports Supervisor Complex_Main
begin

text \<open>
  The configuration (\<open>serve/config.h\<close>): one record for all roles, filled with defaults, the file
  \<open>serve.yaml\<close> and the command line, in this order; and the filter by model names. Numbers of type \<open>float\<close> are kept as the text that
  \<open>atof\<close> reads; \<open>strtod\<close> is an argument (the number and the text behind it).
\<close>

subsection \<open>The record\<close>

definition CFG_STR_MAX :: nat where "CFG_STR_MAX = 1024"
definition CFG_MAX_MODELS :: nat where "CFG_MAX_MODELS = 12"

record serve_cfg =
  cf_node_id :: string
  cf_role :: string
  cf_log_file :: string
  cf_log_level :: string
  cf_no_console :: int
  cf_model :: string
  cf_vocab :: string
  cf_mmproj :: string
  cf_opt :: string
  cf_mtp :: int
  cf_model_name :: string
  cf_cache_dir :: string
  cf_bin :: string
  cf_models :: "model_cfg list"
  cf_sv_port :: int
  cf_router_port :: int
  cf_server_port :: int
  cf_rank_port :: int
  cf_http_port :: int
  cf_sv_host :: string
  cf_bind_host :: string
  cf_router_addrs :: string
  cf_leader :: string
  cf_ranks :: int
  cf_servers :: int
  cf_auto_heal :: int
  cf_strategy :: string
  cf_lease_strategy :: string
  cf_lease_duration :: int
  cf_rank_idx :: int
  cf_peers :: string
  cf_dist_fp16 :: int
  cf_work_mode :: string
  cf_work_threads :: int
  cf_temp :: string
  cf_top_p :: string
  cf_seed :: u64
  cf_budget :: int
  cf_depth :: int
  cf_device :: string
  cf_kv_dtype :: string
  cf_gpu :: int
  cf_gpu_weights :: string
  cf_gpu_layers :: int
  cf_gpu_stream :: int
  cf_send :: string
  cf_api_log :: int
  cf_api_key :: string
  cf_queue_cap :: int
  cf_rpm_limit :: int
  cf_tpm_limit :: int
  cf_only_model :: string

definition model_zero :: model_cfg where
  "model_zero = \<lparr>mc_name = [], mc_model = [], mc_vocab = [], mc_mmproj = [], mc_opt = [], mc_mtp = 0, mc_ranks = 0,
     mc_local = -1, mc_fp16 = 0\<rparr>"

definition config_defaults :: serve_cfg where
  "config_defaults = \<lparr>cf_node_id = ''node-0'', cf_role = [], cf_log_file = ''logs/serve.log'', cf_log_level = ''info'',
     cf_no_console = 0, cf_model = [], cf_vocab = ''vocab.txt'', cf_mmproj = [], cf_opt = [], cf_mtp = 0,
     cf_model_name = ''default'', cf_cache_dir = [], cf_bin = ''./build/avx2/yllm'', cf_models = [],
     cf_sv_port = 9500, cf_router_port = 9400, cf_server_port = 9420, cf_rank_port = 9410, cf_http_port = 8000,
     cf_sv_host = ''127.0.0.1'', cf_bind_host = ''127.0.0.1'', cf_router_addrs = [], cf_leader = [],
     cf_ranks = 1, cf_servers = 1, cf_auto_heal = 0, cf_strategy = ''least'', cf_lease_strategy = ''request'',
     cf_lease_duration = 0, cf_rank_idx = 0, cf_peers = [], cf_dist_fp16 = 0, cf_work_mode = ''serial'',
     cf_work_threads = 1, cf_temp = ''1.0'', cf_top_p = ''0.9'', cf_seed = 42, cf_budget = -1, cf_depth = 2,
     cf_device = ''cpu'', cf_kv_dtype = ''f16'', cf_gpu = 0, cf_gpu_weights = ''auto'', cf_gpu_layers = -1,
     cf_gpu_stream = 0, cf_send = [], cf_api_log = 1, cf_api_key = [], cf_queue_cap = 8, cf_rpm_limit = 0,
     cf_tpm_limit = 0, cf_only_model = []\<rparr>"

subsection \<open>One key\<close>

type_synonym strtod = "string \<Rightarrow> (rat \<times> string) option"

definition trunc_rat :: "rat \<Rightarrow> int" where
  "trunc_rat v = (if v < 0 then \<lceil>v\<rceil> else \<lfloor>v\<rfloor>)"

definition config_budget_parse :: "strtod \<Rightarrow> string \<Rightarrow> int" where
  "config_budget_parse sd s =
     (if s = [] \<or> starts ''auto'' s then -1
      else case sd s of
        None \<Rightarrow> -1
      | Some (v, r) \<Rightarrow>
        let u = (case dropWhile (\<lambda>c. c = SP \<or> c = TAB) r of [] \<Rightarrow> NUL | c # _ \<Rightarrow> c) in
        trunc_rat (if u \<in> set ''gG'' then v * 1024
          else if u \<in> set ''mM'' then v
          else if u \<in> set ''kK'' then v / 1024
          else if u \<in> set ''tT'' then v * 1024 * 1024
          else v))"

text \<open>\<open>sv-host\<close> may carry the port.\<close>

definition set_sv_host :: "serve_cfg \<Rightarrow> string \<Rightarrow> serve_cfg" where
  "set_sv_host c val =
     (case strchr val CHR '':'' of
        Some p \<Rightarrow> c\<lparr>cf_sv_host := take (CFG_STR_MAX - 1) (takeWhile (\<lambda>x. x \<noteq> CHR '':'') val), cf_sv_port := atoi (tl p)\<rparr>
      | None \<Rightarrow> c\<lparr>cf_sv_host := snprintf_s CFG_STR_MAX val\<rparr>)"

definition clamp_threads :: "int \<Rightarrow> int" where
  "clamp_threads n = (let n = (if n < 1 then 1 else n) in if n > 8 then 8 else n)"

text \<open>\<open>config_set\<close>: \<open>None\<close> for a key that is not known.\<close>

definition config_set :: "strtod \<Rightarrow> serve_cfg \<Rightarrow> string \<Rightarrow> string \<Rightarrow> serve_cfg option" where
  "config_set sd c key val =
     (if key = ''node-id'' \<or> key = ''id'' then Some (c\<lparr>cf_node_id := snprintf_s CFG_STR_MAX val\<rparr>)
      else if key = ''log'' \<or> key = ''log-file'' then Some (c\<lparr>cf_log_file := snprintf_s CFG_STR_MAX val\<rparr>)
      else if key = ''log-level'' then Some (c\<lparr>cf_log_level := snprintf_s CFG_STR_MAX val\<rparr>)
      else if key = ''no-console'' then Some (c\<lparr>cf_no_console := atoi val\<rparr>)
      else if key = ''model'' then Some (c\<lparr>cf_model := snprintf_s CFG_STR_MAX val\<rparr>)
      else if key = ''vocab'' then Some (c\<lparr>cf_vocab := snprintf_s CFG_STR_MAX val\<rparr>)
      else if key = ''mmproj'' then Some (c\<lparr>cf_mmproj := snprintf_s CFG_STR_MAX val\<rparr>)
      else if key = ''opt'' then Some (c\<lparr>cf_opt := snprintf_s CFG_STR_MAX val\<rparr>)
      else if key = ''mtp'' then Some (c\<lparr>cf_mtp := atoi val\<rparr>)
      else if key = ''model-name'' \<or> key = ''server-model'' then Some (c\<lparr>cf_model_name := snprintf_s CFG_STR_MAX val\<rparr>)
      else if key = ''bin'' then Some (c\<lparr>cf_bin := snprintf_s CFG_STR_MAX val\<rparr>)
      else if key = ''sv-port'' then Some (c\<lparr>cf_sv_port := atoi val\<rparr>)
      else if key = ''router-port'' then Some (c\<lparr>cf_router_port := atoi val\<rparr>)
      else if key = ''server-port'' then Some (c\<lparr>cf_server_port := atoi val\<rparr>)
      else if key = ''rank-port-base'' \<or> key = ''rank-port'' then Some (c\<lparr>cf_rank_port := atoi val\<rparr>)
      else if key = ''http-port'' then Some (c\<lparr>cf_http_port := atoi val\<rparr>)
      else if key = ''cache-dir'' then Some (c\<lparr>cf_cache_dir := snprintf_s CFG_STR_MAX val\<rparr>)
      else if key = ''sv-host'' \<or> key = ''addr'' \<or> key = ''supervisor'' then Some (set_sv_host c val)
      else if key = ''bind-host'' \<or> key = ''bind'' then Some (c\<lparr>cf_bind_host := snprintf_s CFG_STR_MAX val\<rparr>)
      else if key = ''router'' \<or> key = ''router-addrs'' then Some (c\<lparr>cf_router_addrs := snprintf_s CFG_STR_MAX val\<rparr>)
      else if key = ''leader'' \<or> key = ''server-leader'' then Some (c\<lparr>cf_leader := snprintf_s CFG_STR_MAX val\<rparr>)
      else if key = ''ranks'' then Some (c\<lparr>cf_ranks := atoi val\<rparr>)
      else if key = ''servers'' then Some (c\<lparr>cf_servers := atoi val\<rparr>)
      else if key = ''auto-heal'' then Some (c\<lparr>cf_auto_heal := atoi val\<rparr>)
      else if key = ''strategy'' then Some (c\<lparr>cf_strategy := snprintf_s CFG_STR_MAX val\<rparr>)
      else if key = ''lease-strategy'' then Some (c\<lparr>cf_lease_strategy := snprintf_s CFG_STR_MAX val\<rparr>)
      else if key = ''lease-duration'' then Some (c\<lparr>cf_lease_duration := atoi val\<rparr>)
      else if key = ''rank'' then Some (c\<lparr>cf_rank_idx := atoi val\<rparr>)
      else if key = ''peers'' then Some (c\<lparr>cf_peers := snprintf_s CFG_STR_MAX val\<rparr>)
      else if key = ''work-mode'' \<or> key = ''work_mode'' then Some (c\<lparr>cf_work_mode := snprintf_s 16 val\<rparr>)
      else if key = ''work-threads'' \<or> key = ''work_threads'' then Some (c\<lparr>cf_work_threads := clamp_threads (atoi val)\<rparr>)
      else if key = ''dist-fp16'' then Some (c\<lparr>cf_dist_fp16 := atoi val\<rparr>)
      else if key = ''temp'' then Some (c\<lparr>cf_temp := val\<rparr>)
      else if key = ''top-p'' then Some (c\<lparr>cf_top_p := val\<rparr>)
      else if key = ''seed'' then Some (c\<lparr>cf_seed := strtoull val\<rparr>)
      else if key = ''budget'' then Some (c\<lparr>cf_budget := config_budget_parse sd val\<rparr>)
      else if key = ''depth'' then Some (c\<lparr>cf_depth := atoi val\<rparr>)
      else if key = ''device'' then Some (c\<lparr>cf_device := snprintf_s 32 val\<rparr>)
      else if key = ''kv'' \<or> key = ''kv-dtype'' then Some (c\<lparr>cf_kv_dtype := snprintf_s 8 val\<rparr>)
      else if key = ''gpu'' then Some (c\<lparr>cf_gpu := atoi val\<rparr>)
      else if key = ''gpu-weights'' \<or> key = ''gpu_weights'' then Some (c\<lparr>cf_gpu_weights := snprintf_s 16 val\<rparr>)
      else if key = ''gpu-layers'' \<or> key = ''gpu_layers'' then Some (c\<lparr>cf_gpu_layers := atoi val\<rparr>)
      else if key = ''gpu-stream'' \<or> key = ''gpu_stream'' then Some (c\<lparr>cf_gpu_stream := atoi val\<rparr>)
      else if key = ''send'' then Some (c\<lparr>cf_send := snprintf_s CFG_STR_MAX val\<rparr>)
      else if key = ''only-model'' then Some (c\<lparr>cf_only_model := snprintf_s CFG_STR_MAX val\<rparr>)
      else if key = ''api-log'' then Some (c\<lparr>cf_api_log := atoi val\<rparr>)
      else if key = ''api-key'' \<or> key = ''api_key'' then Some (c\<lparr>cf_api_key := snprintf_s CFG_STR_MAX val\<rparr>)
      else if key = ''queue-cap'' \<or> key = ''queue_cap'' then Some (c\<lparr>cf_queue_cap := atoi val\<rparr>)
      else if key = ''rpm-limit'' \<or> key = ''rpm_limit'' then Some (c\<lparr>cf_rpm_limit := atoi val\<rparr>)
      else if key = ''tpm-limit'' \<or> key = ''tpm_limit'' then Some (c\<lparr>cf_tpm_limit := atol val\<rparr>)
      else None)"

subsection \<open>The configuration file\<close>

text \<open>Lines are cut at line feeds, empty ones do not count; the file is read up to 65535 bytes and to its
  first zero byte.\<close>

fun strtok_all :: "char \<Rightarrow> string \<Rightarrow> string \<Rightarrow> string list" where
  "strtok_all d acc [] = (if acc = [] then [] else [rev acc])"
| "strtok_all d acc (c # s) =
     (if c = d then (if acc = [] then strtok_all d [] s else rev acc # strtok_all d [] s)
      else strtok_all d (c # acc) s)"

definition is_blank :: "char \<Rightarrow> bool" where
  "is_blank c \<longleftrightarrow> c = SP \<or> c = TAB"

definition strip_end :: "(char \<Rightarrow> bool) \<Rightarrow> string \<Rightarrow> string" where
  "strip_end p s = rev (dropWhile p (rev s))"

definition unquote :: "string \<Rightarrow> string" where
  "unquote v = (if length v \<ge> 2 \<and> (hd v = DQ \<or> hd v = CHR 0x27) \<and> last v = hd v then butlast (tl v) else v)"

definition yaml_val :: "string \<Rightarrow> string" where
  "yaml_val v = unquote (strip_end (\<lambda>c. is_blank c \<or> c = CR) (takeWhile (\<lambda>c. c \<noteq> CHR ''#'') (dropWhile is_blank v)))"

text \<open>The key and the value of a line, if it has a colon.\<close>

definition yaml_pair :: "string \<Rightarrow> (string \<times> string) option" where
  "yaml_pair p = map_option (\<lambda>v. (takeWhile (\<lambda>c. c \<noteq> CHR '':'') p, yaml_val (tl v))) (strchr p CHR '':'')"

definition model_key :: "string \<times> string \<Rightarrow> model_cfg \<Rightarrow> model_cfg" where
  "model_key kv m = (case kv of (key, val) \<Rightarrow>
     if key = ''name'' then m\<lparr>mc_name := snprintf_s CFG_STR_MAX val\<rparr>
     else if key = ''model'' then m\<lparr>mc_model := snprintf_s CFG_STR_MAX val\<rparr>
     else if key = ''vocab'' then m\<lparr>mc_vocab := snprintf_s CFG_STR_MAX val\<rparr>
     else if key = ''mmproj'' then m\<lparr>mc_mmproj := snprintf_s CFG_STR_MAX val\<rparr>
     else if key = ''opt'' then m\<lparr>mc_opt := snprintf_s CFG_STR_MAX val\<rparr>
     else if key = ''mtp'' then m\<lparr>mc_mtp := atoi val\<rparr>
     else if key = ''ranks'' then m\<lparr>mc_ranks := atoi val\<rparr>
     else if key = ''local'' then m\<lparr>mc_local := atoi val\<rparr>
     else if key = ''dist-fp16'' then m\<lparr>mc_fp16 := atoi val\<rparr>
     else m)"

text \<open>A line of the \<open>models\<close> section. An item beyond the twelfth is read into the twelfth.\<close>

definition upd_last :: "('a \<Rightarrow> 'a) \<Rightarrow> 'a list \<Rightarrow> 'a list" where
  "upd_last f xs = (if xs = [] then [] else butlast xs @ [f (last xs)])"

definition item_start :: "model_cfg list \<Rightarrow> model_cfg list" where
  "item_start ms = (if length ms < CFG_MAX_MODELS then ms @ [model_zero] else ms)"

definition yaml_model_line :: "string \<Rightarrow> serve_cfg \<Rightarrow> serve_cfg" where
  "yaml_model_line p c =
     (let (p, ms) = (if starts ''- '' p then (skip_sp (drop 2 p), item_start (cf_models c)) else (p, cf_models c)) in
      c\<lparr>cf_models := (case yaml_pair p of None \<Rightarrow> ms | Some kv \<Rightarrow> upd_last (model_key kv) ms)\<rparr>)"

definition yaml_top_line :: "strtod \<Rightarrow> string \<Rightarrow> serve_cfg \<Rightarrow> bool \<times> serve_cfg" where
  "yaml_top_line sd p c =
     (case yaml_pair p of
        None \<Rightarrow> (False, c)
      | Some (key, val) \<Rightarrow>
          if key = ''models'' then (True, c)
          else (False, case config_set sd c key val of None \<Rightarrow> c | Some c' \<Rightarrow> c'))"

definition yaml_line :: "strtod \<Rightarrow> string \<Rightarrow> bool \<times> serve_cfg \<Rightarrow> bool \<times> serve_cfg" where
  "yaml_line sd line st = (case st of (in_models, c) \<Rightarrow>
     let p = dropWhile is_blank line in
     if p = [] \<or> hd p = CHR ''#'' \<or> hd p = CR then (in_models, c)
     else let p = strip_end (\<lambda>x. x = CR) p in
       if in_models \<and> is_blank (hd line) then (True, yaml_model_line p c)
       else yaml_top_line sd p c)"

text \<open>A file without models describes one at the top level; the first model is copied to the top level.\<close>

definition or_else :: "string \<Rightarrow> string \<Rightarrow> string" where
  "or_else a b = (if a \<noteq> [] then a else b)"

definition models_from_top :: "serve_cfg \<Rightarrow> serve_cfg" where
  "models_from_top c =
     (if cf_models c = [] \<and> cf_model c \<noteq> [] then
        c\<lparr>cf_models := [\<lparr>mc_name = or_else (cf_model_name c) ''default'', mc_model = cf_model c, mc_vocab = cf_vocab c,
            mc_mmproj = cf_mmproj c, mc_opt = cf_opt c, mc_mtp = cf_mtp c,
            mc_ranks = (if cf_ranks c > 0 then cf_ranks c else 1), mc_local = -1, mc_fp16 = 0\<rparr>]\<rparr>
      else c)"

definition top_from_models :: "serve_cfg \<Rightarrow> serve_cfg" where
  "top_from_models c = (case cf_models c of [] \<Rightarrow> c | m # _ \<Rightarrow>
     c\<lparr>cf_model := or_else (mc_model m) (cf_model c), cf_vocab := or_else (mc_vocab m) (cf_vocab c),
       cf_mmproj := or_else (mc_mmproj m) (cf_mmproj c), cf_opt := or_else (mc_opt m) (cf_opt c),
       cf_mtp := (if mc_mtp m \<noteq> 0 then mc_mtp m else cf_mtp c),
       cf_model_name := or_else (mc_name m) (cf_model_name c),
       cf_ranks := (if mc_ranks m > 0 then mc_ranks m else cf_ranks c)\<rparr>)"

definition config_load_yaml :: "strtod \<Rightarrow> string \<Rightarrow> serve_cfg \<Rightarrow> serve_cfg" where
  "config_load_yaml sd file c =
     (let buf = takeWhile (\<lambda>x. x \<noteq> NUL) (take 65535 file) in
      top_from_models (models_from_top (snd (fold (yaml_line sd) (strtok_all LF [] buf) (False, c)))))"

subsection \<open>The command line\<close>

definition arg_set :: "strtod \<Rightarrow> serve_cfg \<Rightarrow> string \<Rightarrow> string \<Rightarrow> serve_cfg" where
  "arg_set sd c key val =
     (if key = ''config'' then c
      else if key = ''port'' then
        (let role = or_else (cf_role c) ''supervisor'' in
         if role = ''server'' then c\<lparr>cf_server_port := atoi val\<rparr>
         else if role = ''router'' then c\<lparr>cf_router_port := atoi val\<rparr>
         else if role = ''rank'' then c\<lparr>cf_rank_port := atoi val\<rparr>
         else c\<lparr>cf_sv_port := atoi val\<rparr>)
      else case config_set sd c key val of None \<Rightarrow> c | Some c' \<Rightarrow> c')"

fun config_load_args :: "strtod \<Rightarrow> serve_cfg \<Rightarrow> string list \<Rightarrow> serve_cfg" where
  "config_load_args sd c [] = c"
| "config_load_args sd c (a # rest) =
     (if \<not> starts ''--'' a then config_load_args sd c rest
      else let key = drop 2 a in
        case strchr key CHR ''='' of
          Some eq \<Rightarrow> config_load_args sd (arg_set sd c (take 127 (takeWhile (\<lambda>x. x \<noteq> CHR ''='') key)) (tl eq)) rest
        | None \<Rightarrow> (case rest of [] \<Rightarrow> c | val # rest \<Rightarrow> config_load_args sd (arg_set sd c key val) rest))"

subsection \<open>All of it\<close>

fun config_flag :: "string list \<Rightarrow> string option" where
  "config_flag (a # b # rest) = (if a = ''--config'' then Some b else config_flag (b # rest))"
| "config_flag _ = None"

text \<open>The words of the command line are the program, the role and the options; \<open>files\<close> is what can be opened.\<close>

definition config_load :: "strtod \<Rightarrow> (string \<Rightarrow> string option) \<Rightarrow> string list \<Rightarrow> serve_cfg" where
  "config_load sd files argv =
     (let c = config_defaults;
          c = (if length argv > 1 then c\<lparr>cf_role := snprintf_s 32 (argv ! 1)\<rparr> else c);
          path = (case config_flag (drop 2 argv) of Some p \<Rightarrow> p | None \<Rightarrow> ''serve.yaml'');
          c = (case files path of None \<Rightarrow> c | Some f \<Rightarrow> config_load_yaml sd f c) in
      config_load_args sd c (drop 2 argv))"

definition cfg_model_stride :: "serve_cfg \<Rightarrow> int" where
  "cfg_model_stride c = fold (\<lambda>m st. if mc_ranks m > st then mc_ranks m else st) (take CFG_MAX_MODELS (cf_models c)) 1"

text \<open>The names between commas; an empty one matches nothing.\<close>

function name_in :: "string \<Rightarrow> string \<Rightarrow> bool" where
  "name_in name p =
     (if p = [] then False
      else let piece = takeWhile (\<lambda>c. c \<noteq> CHR '','') p in
        if piece \<noteq> [] \<and> name = piece then True
        else case dropWhile (\<lambda>c. c \<noteq> CHR '','') p of [] \<Rightarrow> False | _ # q \<Rightarrow> name_in name q)"
  by pat_completeness auto
termination
proof (relation "measure (length \<circ> snd)")
  fix name p piece c q
  assume "dropWhile (\<lambda>c. c \<noteq> CHR '','') p = c # q"
  then show "((name, q), name, p) \<in> measure (length \<circ> snd)"
    using length_dropWhile_le[of "\<lambda>c. c \<noteq> CHR '',''" p] by simp
qed simp

declare name_in.simps [simp del]

definition config_filter_models :: "serve_cfg \<Rightarrow> string \<Rightarrow> serve_cfg" where
  "config_filter_models c names =
     (if names = [] \<or> cf_models c = [] then c
      else let kept = filter (\<lambda>m. name_in (mc_name m) names) (cf_models c) in
        if kept = [] then c else c\<lparr>cf_models := kept\<rparr>)"

subsection \<open>The models that are kept\<close>

lemma strtok_all_piece:
  "strtok_all d acc s = (let piece = rev acc @ takeWhile (\<lambda>c. c \<noteq> d) s in (if piece = [] then [] else [piece])
     @ (case dropWhile (\<lambda>c. c \<noteq> d) s of [] \<Rightarrow> [] | _ # q \<Rightarrow> strtok_all d [] q))"
  by (induction s arbitrary: acc) (auto simp: Let_def)

lemma name_in_pieces: "name_in name p \<longleftrightarrow> name \<in> set (strtok_all CHR '','' [] p)"
proof (induction name p rule: name_in.induct)
  case (1 name p)
  show ?case
  proof (cases "p = []")
    case False
    let ?piece = "takeWhile (\<lambda>c. c \<noteq> CHR '','') p"
    have "name_in name p \<longleftrightarrow> ?piece \<noteq> [] \<and> name = ?piece
        \<or> (case dropWhile (\<lambda>c. c \<noteq> CHR '','') p of [] \<Rightarrow> False | _ # q \<Rightarrow> name_in name q)"
      using False by (subst name_in.simps) (simp add: Let_def)
    also have "\<dots> \<longleftrightarrow> name \<in> set (strtok_all CHR '','' [] p)"
    proof (cases "?piece \<noteq> [] \<and> name = ?piece")
      case True
      then show ?thesis by (subst strtok_all_piece) (simp add: Let_def)
    next
      case f: False
      then show ?thesis using "1.IH"[OF False refl f]
        by (subst strtok_all_piece) (auto simp: Let_def split: list.splits)
    qed
    finally show ?thesis .
  qed (simp add: name_in.simps)
qed

text \<open>C36: The filter by names keeps exactly the models whose name is one of the pieces between the commas
  of the option, in their order; when no model has such a name, or the option is empty, all are kept.
  Nothing else of the configuration changes.\<close>

theorem filter_keeps_named:
  "config_filter_models c names =
     (let kept = filter (\<lambda>m. mc_name m \<in> set (strtok_all CHR '','' [] names)) (cf_models c) in
      c\<lparr>cf_models := if kept = [] then cf_models c else kept\<rparr>)"
proof -
  have "filter (\<lambda>m. mc_name m \<in> set (strtok_all CHR '','' [] names)) (cf_models c) = []" if "names = [] \<or> cf_models c = []"
    using that by auto
  then show ?thesis by (auto simp: config_filter_models_def name_in_pieces Let_def)
qed

subsection \<open>The tables are large enough\<close>

definition short :: "nat \<Rightarrow> string \<Rightarrow> bool" where
  "short n s \<longleftrightarrow> length s < n"

definition model_fits :: "model_cfg \<Rightarrow> bool" where
  "model_fits m \<longleftrightarrow> list_all (short CFG_STR_MAX) [mc_name m, mc_model m, mc_vocab m, mc_mmproj m, mc_opt m]"

definition config_fits :: "serve_cfg \<Rightarrow> bool" where
  "config_fits c \<longleftrightarrow> length (cf_models c) \<le> CFG_MAX_MODELS \<and> list_all model_fits (cf_models c)
     \<and> list_all (short CFG_STR_MAX) [cf_node_id c, cf_log_file c, cf_log_level c, cf_model c, cf_vocab c, cf_mmproj c, cf_opt c,
         cf_model_name c, cf_cache_dir c, cf_bin c, cf_sv_host c, cf_bind_host c, cf_router_addrs c, cf_leader c, cf_strategy c,
         cf_lease_strategy c, cf_peers c, cf_send c, cf_api_key c, cf_only_model c]
     \<and> short 32 (cf_role c) \<and> short 32 (cf_device c) \<and> short 8 (cf_kv_dtype c) \<and> short 16 (cf_work_mode c) \<and> short 16 (cf_gpu_weights c)
     \<and> 1 \<le> cf_work_threads c \<and> cf_work_threads c \<le> 8"

lemma short_snprintf [simp]: "0 < n \<Longrightarrow> short n (snprintf_s n s)"
  by (auto simp: short_def snprintf_s_def)

lemma short_take [simp]: "0 < n \<Longrightarrow> short n (take (n - Suc 0) s)"
  by (auto simp: short_def)

lemma cfg_pos [simp]: "0 < CFG_STR_MAX"
  by (simp add: CFG_STR_MAX_def)

lemma clamp_bounds [simp]: "1 \<le> clamp_threads n" "clamp_threads n \<le> 8"
  by (simp_all add: clamp_threads_def Let_def)

lemma if_keeps: "pred_option P a \<Longrightarrow> pred_option P b \<Longrightarrow> pred_option P (if k then a else b)"
  by simp

lemma config_set_fits: 
  assumes "config_fits c"
  shows "pred_option config_fits (config_set sd c key val)"
  unfolding config_set_def
  by (intro if_keeps) (use assms in \<open>simp_all add: config_fits_def set_sv_host_def split: option.split\<close>)

lemma model_key_fits: "model_fits m \<Longrightarrow> model_fits (model_key kv m)"
  by (cases kv) (auto simp: model_key_def model_fits_def)

lemma item_start_fits:
  "length ms \<le> CFG_MAX_MODELS \<Longrightarrow> list_all model_fits ms \<Longrightarrow>
    length (item_start ms) \<le> CFG_MAX_MODELS \<and> list_all model_fits (item_start ms)"
  by (auto simp: item_start_def model_zero_def model_fits_def short_def CFG_STR_MAX_def)

lemma upd_last_fits:
  assumes "list_all P xs" "\<And>x. P x \<Longrightarrow> P (f x)"
  shows "length (upd_last f xs) = length xs \<and> list_all P (upd_last f xs)"
proof (cases xs rule: rev_cases)
  case (snoc ys y)
  then show ?thesis using assms by (auto simp: upd_last_def)
qed (simp add: upd_last_def)

lemma yaml_model_line_fits:
  assumes "config_fits c"
  shows "config_fits (yaml_model_line p c)"
proof -
  have c: "length (cf_models c) \<le> CFG_MAX_MODELS" "list_all model_fits (cf_models c)" using assms by (auto simp: config_fits_def)
  have u: "length (upd_last (model_key kv) ms) \<le> CFG_MAX_MODELS \<and> list_all model_fits (upd_last (model_key kv) ms)"
    if "length ms \<le> CFG_MAX_MODELS" "list_all model_fits ms" for ms kv
    using upd_last_fits[OF that(2) model_key_fits] that(1) by simp
  let ?ms = "cf_models (yaml_model_line p c)"
  have eq: "yaml_model_line p c = c\<lparr>cf_models := ?ms\<rparr>" by (simp add: yaml_model_line_def Let_def split: prod.split)
  have "length ?ms \<le> CFG_MAX_MODELS \<and> list_all model_fits ?ms"
    unfolding yaml_model_line_def Let_def using c item_start_fits[OF c] u by (auto split: option.splits)
  then show ?thesis using assms by (subst eq) (simp add: config_fits_def)
qed

lemma yaml_line_fits: "config_fits (snd st) \<Longrightarrow> config_fits (snd (yaml_line sd line st))"
proof -
  assume st: "config_fits (snd st)"
  obtain b c where bc: "st = (b, c)" by (cases st)
  have "config_fits (snd (yaml_top_line sd p c))" for p
    using config_set_fits[of c sd] st bc by (auto simp: yaml_top_line_def split: option.splits) (metis option.pred_inject(2))+
  then show ?thesis using st bc yaml_model_line_fits[of c] by (auto simp: yaml_line_def Let_def)
qed

lemma models_from_top_fits: "config_fits c \<Longrightarrow> config_fits (models_from_top c)"
  by (auto simp: config_fits_def models_from_top_def model_fits_def or_else_def CFG_MAX_MODELS_def short_def CFG_STR_MAX_def)

lemma top_from_models_fits: "config_fits c \<Longrightarrow> config_fits (top_from_models c)"
  by (cases "cf_models c") (simp_all add: config_fits_def top_from_models_def model_fits_def or_else_def)

lemma config_load_yaml_fits:
  assumes "config_fits c"
  shows "config_fits (config_load_yaml sd file c)"
proof -
  have "config_fits (snd (fold (yaml_line sd) ls st))" if "config_fits (snd st)" for ls st
    using that by (induction ls arbitrary: st) (auto simp: yaml_line_fits)
  then show ?thesis using assms by (simp add: config_load_yaml_def Let_def models_from_top_fits top_from_models_fits)
qed

lemma arg_set_fits:
  assumes "config_fits c"
  shows "config_fits (arg_set sd c key val)"
proof -
  have "config_fits (case config_set sd c key val of None \<Rightarrow> c | Some c' \<Rightarrow> c')"
    using config_set_fits[OF assms, of sd key val] assms by (auto split: option.splits)
  then show ?thesis using assms by (auto simp: arg_set_def Let_def config_fits_def)
qed

lemma config_load_args_fits: "config_fits c \<Longrightarrow> config_fits (config_load_args sd c args)"
  by (induction sd c args rule: config_load_args.induct) (auto simp: Let_def arg_set_fits split: option.splits list.splits)

text \<open>C35: Whatever the configuration file and the command line contain, every string that is read fits its buffer
  with its zero byte, there are at most 12 models and the number of worker threads is between 1 and 8;
  the filter by names keeps it so.\<close>

theorem config_bounded: "config_fits (config_load sd files argv) \<and> config_fits (config_filter_models (config_load sd files argv) names)"
proof -
  have d: "config_fits config_defaults"
    by (simp add: config_fits_def config_defaults_def short_def CFG_STR_MAX_def CFG_MAX_MODELS_def)
  then have "config_fits (config_defaults\<lparr>cf_role := snprintf_s 32 w\<rparr>)" for w by (simp add: config_fits_def)
  then have l: "config_fits (config_load sd files argv)"
    using d by (auto simp: config_load_def Let_def config_load_args_fits config_load_yaml_fits split: option.splits)
  have "config_fits (config_filter_models c names)" if "config_fits c" for c
  proof -
    have "length (filter P (cf_models c)) \<le> CFG_MAX_MODELS \<and> list_all model_fits (filter P (cf_models c))" for P
      using that le_trans[OF length_filter_le[of P "cf_models c"]] by (simp add: config_fits_def list_all_iff)
    then show ?thesis using that by (auto simp: config_filter_models_def Let_def config_fits_def)
  qed
  then show ?thesis using l by blast
qed

end
