(* ===== verification/LayerSplit.thy ===== *)
theory LayerSplit
  imports Config Engine
begin

text \<open>
  \<open>dist_split_layers\<close> (\<open>inference/core/dist.c\<close>): which layers a rank of a pipeline holds. The
  blocks are shared out by the bytes of their weights, in equal parts or by the weights in the
  environment variable \<open>YLLM_DIST_WEIGHTS\<close>; with shared key/value caches (gemma4,
  \<open>inference/arch/gemma4.c\<close>) the last rank starts no later than the layers they are read from.
  Arithmetic in \<open>float\<close> and \<open>double\<close> is rounding of rational numbers to 24 and 53 bits (no
  overflow, no subnormal numbers); \<open>atof\<close> is an argument.
\<close>

subsection \<open>Floating point\<close>

definition round_even :: "rat \<Rightarrow> int" where
  "round_even q = (let n = \<lfloor>q\<rfloor>; d = q - of_int n in
     if d < 1 / 2 then n else if d > 1 / 2 then n + 1 else if even n then n else n + 1)"

definition pow2 :: "int \<Rightarrow> rat" where
  "pow2 k = (if k \<ge> 0 then 2 ^ nat k else 1 / 2 ^ nat (- k))"

fun bit_length :: "nat \<Rightarrow> nat" where
  "bit_length n = (if n = 0 then 0 else Suc (bit_length (n div 2)))"

declare bit_length.simps [simp del]

text \<open>The binary exponent: the numerator and the denominator give it up to one.\<close>

definition round_bits :: "nat \<Rightarrow> rat \<Rightarrow> rat" where
  "round_bits p v =
     (if v = 0 then 0
      else case quotient_of \<bar>v\<bar> of (n, d) \<Rightarrow>
        let k = int (bit_length (nat n)) - int (bit_length (nat d));
            k = (if \<bar>v\<bar> < pow2 k then k - 1 else k) - int p + 1;
            r = of_int (round_even (\<bar>v\<bar> / pow2 k)) * pow2 k in
        if v < 0 then - r else r)"

definition flt :: "rat \<Rightarrow> rat" where "flt = round_bits 24"
definition dbl :: "rat \<Rightarrow> rat" where "dbl = round_bits 53"

subsection \<open>The split\<close>

text \<open>What the split uses of the model file: the number of blocks, the bytes of each layer, and the
  number of layers that share the caches of others, for gemma4.\<close>

record model_file =
  mf_blocks :: nat
  mf_size :: "nat \<Rightarrow> u64"
  mf_gemma4 :: bool
  mf_shared :: nat

definition pin_layer :: "model_file \<Rightarrow> nat" where
  "pin_layer m =
     (if mf_gemma4 m \<and> mf_shared m > 0 \<and> mf_shared m < mf_blocks m then
        let kv_from = mf_blocks m - mf_shared m in if kv_from > 1 then kv_from - 1 else 1
      else 0)"

definition split_hi :: "model_file \<Rightarrow> nat" where
  "split_hi m = (if pin_layer m > 0 then pin_layer m - 1 else mf_blocks m)"

definition early_ranks :: "model_file \<Rightarrow> nat \<Rightarrow> nat" where
  "early_ranks m ranks = (if pin_layer m > 0 then if ranks > 1 then ranks - 1 else 1 else ranks)"

text \<open>The weights in the environment variable, at most \<open>n\<close>.\<close>

fun weight_list :: "strtod \<Rightarrow> nat \<Rightarrow> string \<Rightarrow> rat list" where
  "weight_list sd 0 p = []"
| "weight_list sd (Suc n) p =
     (if p = [] then []
      else flt (case sd p of None \<Rightarrow> 0 | Some (v, _) \<Rightarrow> v)
        # weight_list sd n (case dropWhile (\<lambda>c. c \<noteq> CHR '','') p of [] \<Rightarrow> [] | _ # q \<Rightarrow> q))"

fun cumulate :: "rat \<Rightarrow> rat \<Rightarrow> rat list \<Rightarrow> rat list" where
  "cumulate sm acc [] = []"
| "cumulate sm acc (w # ws) = (let acc = flt (acc + flt (w / sm)) in acc # cumulate sm acc ws)"

definition equal_shares :: "nat \<Rightarrow> rat list" where
  "equal_shares n = map (\<lambda>i. flt (of_nat (i + 1) / of_nat n)) [0..<n]"

definition shares :: "strtod \<Rightarrow> string \<Rightarrow> nat \<Rightarrow> rat list" where
  "shares sd ws n =
     (let w = weight_list sd n ws; sm = fold (\<lambda>x s. flt (s + x)) w 0 in
      if ws \<noteq> [] \<and> n \<le> 64 \<and> length w = n \<and> sm > 0
      then (cumulate sm 0 w)[n - 1 := 1]
      else equal_shares n)"

text \<open>The bytes up to which a rank takes blocks; a negative number is cast as on x86.\<close>

definition byte_limit :: "u64 \<Rightarrow> rat \<Rightarrow> u64" where
  "byte_limit bytes w = word_of_int (trunc_rat (dbl (dbl (of_nat (unat bytes)) * w)))"

text \<open>The first layers of the ranks \<open>r\<close>, \<open>r + 1\<close>, \dots; \<open>b\<close> is the next block.\<close>

fun split_scan :: "(nat \<Rightarrow> u64) \<Rightarrow> nat \<Rightarrow> u64 list \<Rightarrow> nat \<Rightarrow> u64 \<Rightarrow> nat \<Rightarrow> nat list" where
  "split_scan limit early [] b acc r = []"
| "split_scan limit early (s # sizes) b acc r =
     (if r \<ge> early then []
      else let acc = acc + s in
        if acc \<ge> limit (r - 1) then (b + 1) # split_scan limit early sizes (b + 1) acc (r + 1)
        else split_scan limit early sizes (b + 1) acc r)"

definition split_starts :: "strtod \<Rightarrow> string \<Rightarrow> model_file \<Rightarrow> nat \<Rightarrow> nat list" where
  "split_starts sd ws m ranks =
     (let hi = split_hi m; early = early_ranks m ranks;
          sizes = map (mf_size m) [1..<Suc hi];
          tot = sum_list sizes;
          sh = shares sd ws early;
          bs = 1 # split_scan (\<lambda>i. byte_limit tot (sh ! i)) early sizes 1 0 1;
          bs = bs @ replicate (early - length bs) (hi + 1);
          bs = (if pin_layer m > 0 then if ranks > 1 then bs @ [pin_layer m] else [pin_layer m] else bs) in
      if bs ! (ranks - 1) > mf_blocks m + 1 then bs[ranks - 1 := mf_blocks m + 1] else bs)"

text \<open>The tables of the function have 64 places. The result is the range of the rank, or \<open>None\<close>
  where it refuses.\<close>

definition dist_split_layers :: "strtod \<Rightarrow> string \<Rightarrow> model_file \<Rightarrow> int \<Rightarrow> int \<Rightarrow> (nat \<times> nat) option run" where
  "dist_split_layers sd ws m rank ranks =
     (if ranks < 0 \<or> nat ranks > mf_blocks m then Ret None
      else if split_hi m < 1 \<or> early_ranks m (nat ranks) > split_hi m then Ret None
      else if ranks = 0 \<or> ranks > 64 \<or> rank < 0 \<or> rank \<ge> ranks then Fault
      else let bs = split_starts sd ws m (nat ranks) in
        Ret (Some (if rank = 0 then 0 else bs ! nat rank,
                   if rank + 1 < ranks then bs ! nat (rank + 1) else mf_blocks m + 3)))"

text \<open>Whose cache a gemma4 layer reads (\<open>kv_layer\<close>); \<open>swa\<close> tells the layers with a sliding window.\<close>

definition kv_layer :: "model_file \<Rightarrow> (nat \<Rightarrow> bool) \<Rightarrow> nat \<Rightarrow> nat" where
  "kv_layer m swa layer =
     (let il = (if layer > 0 then layer - 1 else 0); kv_from = mf_blocks m - mf_shared m in
      if mf_shared m > 0 \<and> mf_shared m < mf_blocks m \<and> il \<ge> kv_from
      then kv_from - (if swa il then 2 else 1) + 1
      else layer)"

subsection \<open>Every layer is on one rank\<close>

lemma split_scan_bounds:
  "set (split_scan limit early sizes b acc r) \<subseteq> {b + 1..b + length sizes}"
proof (induction sizes arbitrary: b acc r)
  case (Cons s sizes)
  have sub: "{b + 1 + 1..b + 1 + length sizes} \<subseteq> {b + 1..b + length (s # sizes)}" by auto
  show ?case
    using subset_trans[OF Cons.IH[of "b + 1" "acc + s" "r + 1"] sub] subset_trans[OF Cons.IH[of "b + 1" "acc + s" r] sub]
    by (simp add: Let_def)
qed simp

lemma split_scan_sorted: "sorted (split_scan limit early sizes b acc r)"
proof (induction sizes arbitrary: b acc r)
  case (Cons s sizes)
  have "set (split_scan limit early sizes (b + 1) (acc + s) (r + 1)) \<subseteq> {b + 2..b + 1 + length sizes}"
    using split_scan_bounds[of limit early sizes "b + 1"] by simp
  then show ?case using Cons.IH by (auto simp: Let_def)
qed simp

lemma split_scan_length: "r \<le> early \<Longrightarrow> r + length (split_scan limit early sizes b acc r) \<le> early"
proof (induction sizes arbitrary: b acc r)
  case (Cons s sizes)
  then show ?case using Cons.IH[of "r + 1" "b + 1" "acc + s"] Cons.IH[of r "b + 1" "acc + s"] by (simp add: Let_def)
qed simp

lemma scan_filled:
  assumes "length sizes = hi" "1 \<le> early" "b1 = 1 # split_scan limit early sizes 1 0 1"
    "b2 = b1 @ replicate (early - length b1) (hi + 1)"
  shows "length b2 = early \<and> sorted b2 \<and> set b2 \<subseteq> {1..hi + 1}"
proof -
  let ?scan = "split_scan limit early sizes 1 0 1"
  have bnd: "set ?scan \<subseteq> {2..hi + 1}" using split_scan_bounds[of limit early sizes 1 0 1] assms(1) by (simp add: numeral_2_eq_2)
  have "length b2 = early" using split_scan_length[OF assms(2), of limit sizes 1 0] assms(3,4) by simp
  moreover have "sorted b2" using bnd split_scan_sorted[of limit early sizes 1 0 1] assms(3,4) by (fastforce simp: sorted_append)
  moreover have "set b2 \<subseteq> {1..hi + 1}" using bnd assms(3,4) by (auto split: if_splits)
  ultimately show ?thesis by blast
qed

lemma pin_bounds:
  "pin_layer m > 0 \<Longrightarrow> split_hi m + 1 = pin_layer m \<and> pin_layer m \<le> mf_blocks m"
  "pin_layer m = 0 \<Longrightarrow> split_hi m = mf_blocks m"
  by (auto simp: split_hi_def pin_layer_def Let_def)

text \<open>The starts of the ranks: ascending, the first block first, none past the last block.\<close>

lemma split_starts_props:
  assumes "0 < ranks" "1 \<le> split_hi m" "early_ranks m ranks \<le> split_hi m" and def: "bs = split_starts sd ws m ranks"
  shows "length bs = ranks \<and> sorted bs \<and> set bs \<subseteq> {1..mf_blocks m + 1}
    \<and> (pin_layer m > 0 \<longrightarrow> last bs = pin_layer m)"
proof -
  define hi where "hi = split_hi m"
  define early where "early = early_ranks m ranks"
  define sizes where "sizes = map (mf_size m) [1..<Suc hi]"
  define limit where "limit = (\<lambda>i. byte_limit (sum_list sizes) (shares sd ws early ! i))"
  define b1 where "b1 = 1 # split_scan limit early sizes 1 0 1"
  define b2 where "b2 = b1 @ replicate (early - length b1) (hi + 1)"
  define b3 where "b3 = (if pin_layer m > 0 then if ranks > 1 then b2 @ [pin_layer m] else [pin_layer m] else b2)"
  have bs: "bs = (if b3 ! (ranks - 1) > mf_blocks m + 1 then b3[ranks - 1 := mf_blocks m + 1] else b3)"
    unfolding def split_starts_def b3_def b2_def b1_def limit_def sizes_def early_def hi_def Let_def ..
  have "length sizes = hi" "1 \<le> early"
    using assms(1) by (auto simp: sizes_def early_def early_ranks_def simp del: upt_Suc)
  from scan_filled[OF this b1_def b2_def] have b2: "length b2 = early" "sorted b2" "set b2 \<subseteq> {1..hi + 1}" by auto
  have b3: "length b3 = ranks \<and> sorted b3 \<and> set b3 \<subseteq> {1..mf_blocks m + 1} \<and> (pin_layer m > 0 \<longrightarrow> last b3 = pin_layer m)"
  proof (cases "pin_layer m > 0")
    case True
    have le: "x \<le> pin_layer m" "1 \<le> x" "x \<le> mf_blocks m + 1" if "x \<in> set b2" for x
      using b2(3) that pin_bounds(1)[OF True] by (auto simp: hi_def)
    show ?thesis
    proof (cases "ranks > 1")
      case r: True
      have "length b3 = ranks" using True r b2(1) by (simp add: b3_def early_def early_ranks_def)
      moreover have "b3 = b2 @ [pin_layer m]" using True r by (simp add: b3_def)
      ultimately show ?thesis using b2(2) le pin_bounds(1)[OF True] True by (auto simp: sorted_append)
    next
      case False
      then have "ranks = 1" "b3 = [pin_layer m]" using True assms(1) by (auto simp: b3_def)
      then show ?thesis using pin_bounds(1)[OF True] True by auto
    qed
  next
    case False
    then show ?thesis using b2 pin_bounds(2) by (simp add: b3_def early_def early_ranks_def hi_def)
  qed
  then have "b3 ! (ranks - 1) \<in> set b3" using assms(1) by (metis diff_less nth_mem zero_less_one)
  then have "bs = b3" using b3 unfolding bs by auto
  then show ?thesis using b3 by blast
qed

definition rank_range :: "strtod \<Rightarrow> string \<Rightarrow> model_file \<Rightarrow> nat \<Rightarrow> nat \<Rightarrow> nat \<times> nat" where
  "rank_range sd ws m ranks r =
     (let bs = split_starts sd ws m ranks in
      (if r = 0 then 0 else bs ! r, if r + 1 < ranks then bs ! (r + 1) else mf_blocks m + 3))"

lemma split_ok:
  assumes "dist_split_layers sd ws m rank ranks = Ret (Some rg)"
  shows "0 \<le> rank \<and> rank < ranks \<and> ranks \<le> 64 \<and> 1 \<le> split_hi m \<and> early_ranks m (nat ranks) \<le> split_hi m"
proof -
  have "\<not> (split_hi m < 1 \<or> early_ranks m (nat ranks) > split_hi m)"
    using assms unfolding dist_split_layers_def by (auto split: if_splits)
  moreover have "\<not> (ranks = 0 \<or> ranks > 64 \<or> rank < 0 \<or> rank \<ge> ranks)"
    using assms unfolding dist_split_layers_def by (metis option.distinct(1) run.distinct(3) run.inject)
  ultimately show ?thesis by auto
qed

lemma split_range:
  assumes "dist_split_layers sd ws m rank ranks = Ret (Some rg)" "0 \<le> r" "r < ranks"
  shows "dist_split_layers sd ws m r ranks = Ret (Some (rank_range sd ws m (nat ranks) (nat r)))"
proof -
  have a: "\<not> (ranks < 0 \<or> nat ranks > mf_blocks m)" "\<not> (split_hi m < 1 \<or> early_ranks m (nat ranks) > split_hi m)"
    using assms(1) unfolding dist_split_layers_def by (auto split: if_splits)
  have b: "\<not> (ranks = 0 \<or> ranks > 64 \<or> r < 0 \<or> r \<ge> ranks)" using split_ok[OF assms(1)] assms(2,3) by auto
  have e: "nat r = 0 \<longleftrightarrow> r = 0" "nat r + 1 < nat ranks \<longleftrightarrow> r + 1 < ranks" "nat (r + 1) = nat r + 1"
    using assms(2,3) by auto
  show ?thesis unfolding dist_split_layers_def if_not_P[OF a(1)] if_not_P[OF a(2)] if_not_P[OF b] rank_range_def Let_def e
    by simp
qed

lemma concat_ranges:
  "(\<And>i. i < n \<Longrightarrow> f i \<le> f (Suc i)) \<Longrightarrow> concat (map (\<lambda>i. [f i..<f (Suc i)]) [0..<n]) = [f 0..<f n] \<and> f 0 \<le> (f n :: nat)"
proof (induction n)
  case (Suc n)
  have "concat (map (\<lambda>i. [f i..<f (Suc i)]) [0..<n]) = [f 0..<f n]" "f 0 \<le> f n" using Suc by simp_all
  moreover have "f n \<le> f (Suc n)" using Suc.prems by simp
  ultimately show ?case using upt_add_eq_append[of "f 0" "f n" "f (Suc n) - f n"] by simp
qed simp

text \<open>\<open>bound r\<close> is the first layer of rank \<open>r\<close>, and the number of layers behind the last.\<close>

definition bound :: "strtod \<Rightarrow> string \<Rightarrow> model_file \<Rightarrow> nat \<Rightarrow> nat \<Rightarrow> nat" where
  "bound sd ws m ranks r =
     (if r = 0 then 0 else if r < ranks then split_starts sd ws m ranks ! r else mf_blocks m + 3)"

lemma rank_range_bound: "r < ranks \<Longrightarrow> rank_range sd ws m ranks r = (bound sd ws m ranks r, bound sd ws m ranks (Suc r))"
  by (simp add: rank_range_def bound_def Let_def)

lemma bound_mono:
  assumes "0 < ranks" "1 \<le> split_hi m" "early_ranks m ranks \<le> split_hi m" "r < ranks"
  shows "bound sd ws m ranks r \<le> bound sd ws m ranks (Suc r)"
proof -
  let ?bs = "split_starts sd ws m ranks"
  note p = split_starts_props[OF assms(1-3) refl[of ?bs]]
  have "?bs ! r \<in> set ?bs" using p assms(4) by (metis nth_mem)
  then have "?bs ! r \<le> mf_blocks m + 3" using p by fastforce
  moreover have "Suc r < ranks \<Longrightarrow> ?bs ! r \<le> ?bs ! Suc r" using p by (simp add: sorted_iff_nth_mono)
  ultimately show ?thesis using assms(4) by (auto simp: bound_def)
qed

lemma last_bound:
  assumes "1 < ranks" "1 \<le> split_hi m" "early_ranks m ranks \<le> split_hi m" "pin_layer m > 0"
  shows "bound sd ws m ranks (ranks - 1) = pin_layer m"
proof -
  let ?bs = "split_starts sd ws m ranks"
  have "0 < ranks" using assms(1) by simp
  note p = split_starts_props[OF this assms(2,3) refl[of ?bs]]
  then have "?bs ! (ranks - 1) = pin_layer m" using assms(1,4) by (metis last_conv_nth list.size(3) not_one_less_zero)
  then show ?thesis using assms(1) by (simp add: bound_def)
qed

lemma layers_partition:
  assumes "dist_split_layers sd ws m rank ranks = Ret (Some rg)"
  shows "concat (map (\<lambda>r. [fst (rank_range sd ws m (nat ranks) r)..<snd (rank_range sd ws m (nat ranks) r)]) [0..<nat ranks])
    = [0..<mf_blocks m + 3]"
proof -
  let ?n = "nat ranks" and ?f = "bound sd ws m (nat ranks)"
  have n: "0 < ?n" "1 \<le> split_hi m" "early_ranks m ?n \<le> split_hi m" using split_ok[OF assms] by auto
  have "concat (map (\<lambda>i. [?f i..<?f (Suc i)]) [0..<?n]) = [?f 0..<?f ?n]"
    using concat_ranges[of ?n ?f] bound_mono[OF n] by blast
  moreover have "map (\<lambda>r. [fst (rank_range sd ws m ?n r)..<snd (rank_range sd ws m ?n r)]) [0..<?n]
      = map (\<lambda>i. [?f i..<?f (Suc i)]) [0..<?n]"
    by (rule map_cong) (auto simp: rank_range_bound)
  moreover have "?f 0 = 0" "?f ?n = mf_blocks m + 3" using n(1) by (simp_all add: bound_def)
  ultimately show ?thesis by (simp only:)
qed

lemma shared_caches_local:
  assumes "dist_split_layers sd ws m rank ranks = Ret (Some rg)" "1 < ranks" "mf_gemma4 m"
    and layer: "fst rg \<le> layer" "layer < snd rg" "1 \<le> layer" "layer \<le> mf_blocks m"
  shows "fst rg \<le> kv_layer m swa layer \<and> kv_layer m swa layer < snd rg"
proof (cases "mf_shared m > 0 \<and> mf_shared m < mf_blocks m \<and> layer - 1 \<ge> mf_blocks m - mf_shared m")
  case False
  then have "kv_layer m swa layer = layer" using layer(3) by (auto simp: kv_layer_def)
  then show ?thesis using layer by simp
next
  case True
  let ?n = "nat ranks" and ?k = "mf_blocks m - mf_shared m"
  have n: "1 < ?n" "1 \<le> split_hi m" "early_ranks m ?n \<le> split_hi m" using split_ok[OF assms(1)] assms(2) by auto
  have pin: "pin_layer m = (if ?k > 1 then ?k - 1 else 1)" using True assms(3) by (simp add: pin_layer_def Let_def)
  then have k: "2 \<le> ?k - 1 \<or> ?k = 2" "pin_layer m = ?k - 1" using n(2) by (auto simp: split_hi_def split: if_splits)
  have rg: "rg = rank_range sd ws m ?n (nat rank)" "nat rank < ?n"
    using split_range[OF assms(1), of rank] split_ok[OF assms(1)] assms(1) by auto
  have last: "bound sd ws m ?n (?n - 1) = ?k - 1" using last_bound[OF n] k by auto
  have "nat rank = ?n - 1"
  proof (rule ccontr)
    assume "nat rank \<noteq> ?n - 1"
    then have "Suc (nat rank) \<le> ?n - 1" using rg(2) by linarith
    moreover have "i \<le> j \<Longrightarrow> j \<le> ?n - 1 \<Longrightarrow> bound sd ws m ?n i \<le> bound sd ws m ?n j" for i j
    proof (induction j)
      case (Suc j)
      then show ?case using bound_mono[of ?n m j sd ws] n by (cases "i = Suc j") (auto intro: le_trans)
    qed simp
    ultimately have "snd rg \<le> ?k - 1" using rg last rank_range_bound[OF rg(2), of sd ws m] by (metis le_refl snd_conv)
    then show False using True layer(2) by linarith
  qed
  then have "rg = (?k - 1, mf_blocks m + 3)" using rg last rank_range_bound[of "?n - 1" ?n sd ws m] n(1) by (simp add: bound_def)
  then show ?thesis using True layer k by (auto simp: kv_layer_def Let_def)
qed

text \<open>The layers of rank \<open>r\<close>.\<close>

definition rank_layers :: "strtod \<Rightarrow> string \<Rightarrow> model_file \<Rightarrow> int \<Rightarrow> int \<Rightarrow> nat list" where
  "rank_layers sd ws m r ranks = (case dist_split_layers sd ws m r ranks of Ret (Some (b, d)) \<Rightarrow> [b..<d] | _ \<Rightarrow> [])"

text \<open>C33: If one rank is given a range, all are, and the ranges in the order of the ranks are all the layers, each
  once: the embedding, the blocks, the norm and the output matrix. With several ranks of a gemma4 model
  the layer whose cache a block reads is on the block's own rank.\<close>

theorem layer_split:
  assumes "dist_split_layers sd ws m rank ranks = Ret (Some rg)"
  shows "concat (map (\<lambda>r. rank_layers sd ws m (int r) ranks) [0..<nat ranks]) = [0..<mf_blocks m + 3]
    \<and> (\<forall>layer. 1 < ranks \<and> mf_gemma4 m \<and> layer \<in> set (rank_layers sd ws m rank ranks) \<and> 1 \<le> layer \<and> layer \<le> mf_blocks m
        \<longrightarrow> kv_layer m swa layer \<in> set (rank_layers sd ws m rank ranks))"
proof -
  have "rank_layers sd ws m (int r) ranks = [fst (rank_range sd ws m (nat ranks) r)..<snd (rank_range sd ws m (nat ranks) r)]"
    if "r < nat ranks" for r
    using split_range[OF assms, of "int r"] that by (simp add: rank_layers_def split: prod.split)
  then have m: "map (\<lambda>r. rank_layers sd ws m (int r) ranks) [0..<nat ranks]
      = map (\<lambda>r. [fst (rank_range sd ws m (nat ranks) r)..<snd (rank_range sd ws m (nat ranks) r)]) [0..<nat ranks]"
    by (intro map_cong) auto
  have "rank_layers sd ws m rank ranks = [fst rg..<snd rg]" using assms by (simp add: rank_layers_def split: prod.split)
  then show ?thesis unfolding m layers_partition[OF assms] using shared_caches_local[OF assms] by auto
qed

text \<open>Five blocks of a gemma4 model on two ranks; the last two blocks read the caches of block 2 or 3.\<close>

definition five_model :: model_file where
  "five_model = \<lparr>mf_blocks = 5, mf_size = (\<lambda>i. 1), mf_gemma4 = True, mf_shared = 2\<rparr>"

lemma five_split:
  "dist_split_layers sd [] five_model 0 2 = Ret (Some (0, 2))" "dist_split_layers sd [] five_model 1 2 = Ret (Some (2, 8))"
  by (simp_all add: dist_split_layers_def split_starts_def split_hi_def early_ranks_def pin_layer_def five_model_def Let_def)

theorem layer_split_witness:
  "concat (map (\<lambda>r. rank_layers (\<lambda>s. None) [] five_model (int r) 2) [0..<2]) = [0..<8] \<and> kv_layer five_model (\<lambda>i. True) 5 \<in> {2..<8}"
proof -
  have b: "mf_blocks five_model = 5" "mf_gemma4 five_model" by (simp_all add: five_model_def)
  have r: "rank_layers (\<lambda>s. None) [] five_model 1 2 = [2..<8]" by (simp add: rank_layers_def five_split)
  have two: "nat 2 = 2" by simp
  note w = layer_split[OF five_split(2)[of "\<lambda>s. None"], where swa = "\<lambda>i. True", unfolded r b(1) two]
  have "concat (map (\<lambda>r. rank_layers (\<lambda>s. None) [] five_model (int r) 2) [0..<2]) = [0..<8]" using w[THEN conjunct1] by simp
  moreover have "kv_layer five_model (\<lambda>i. True) 5 \<in> set [2..<8]" using w[THEN conjunct2, rule_format, of 5] b(2) by simp
  ultimately show ?thesis unfolding set_upt by (rule conjI)
qed

end
