(* ===== verification/PipeSpec.thy ===== *)
theory PipeSpec
  imports Pipeline LayerSplit
begin

text \<open>
  What a pipeline of ranks guarantees: whatever the order in which the ranks run, the outcome is
  the same; and it is the outcome of one engine that holds all layers.
\<close>

subsection \<open>The order of the steps does not matter\<close>

lemma feed_append: "feed (a @ b) c = (case feed a c of (c', l) \<Rightarrow> case feed b c' of (c'', l') \<Rightarrow> (c'', l @ l'))"
  by (cases c) auto

lemma feed_Nil [simp]: "feed [] c = (c, [])"
  by (cases c) auto

inductive_cases chain_step_Nil [elim!]: "chain_step E up [] r"

lemma chain_step_Cons:
  assumes "chain_step E up ((w, q) # c) (c', lg)"
  obtains (first) f w' out c1 q1 where "wk_live w" "q = f # q1" "worker_step E f w = (w', out)"
      "feed out c = (c1, lg)" "c' = (w', q1) # c1"
    | (closed) "wk_live w" up "q = []" "c' = (worker_eof w, []) # c" "lg = []"
    | (later) c1 where "chain_step E (\<not> wk_live w) c (c1, lg)" "c' = (w, q) # c1"
  using assms by (cases rule: chain_step.cases) auto

text \<open>A chain step stays possible when frames are fed to the first worker, and does the same.\<close>

lemma chain_feed:
  assumes "chain_step E up c (c', lg)" "feed fs c = (d, l)" "\<not> up"
  shows "\<exists>d'. feed fs c' = (d', []) \<and> l = [] \<and> chain_step E up d (d', lg)"
proof (cases c)
  case (Cons wq c0)
  obtain w q where wq: "wq = (w, q)" by (cases wq)
  have d: "d = (w, q @ fs) # c0" "l = []" using assms(2) Cons wq by auto
  from assms(1)[unfolded Cons wq] show ?thesis
  proof (cases rule: chain_step_Cons)
    case (first f w' out c1 q1)
    then show ?thesis using d first chain_step.take_frame[of w E f w' out c0 c1 lg up "q1 @ fs"] by auto
  next
    case closed
    then show ?thesis using assms(3) closed by simp
  next
    case (later c1)
    then show ?thesis using d later chain_step.later[of E w c0 c1 lg up "q @ fs"] by auto
  qed
qed (use assms(1) in auto)

lemma chain_up: "chain_step E False c r \<Longrightarrow> chain_step E True c r"
  by (erule chain_step.cases) (auto intro: chain_step.intros)

lemma chain_diamond:
  assumes "chain_step E up c (a, la)" "chain_step E up c (b, lb)"
  shows "(a, la) = (b, lb) \<or> (\<exists>d l m. chain_step E up a (d, l) \<and> chain_step E up b (d, m) \<and> la @ l = lb @ m)"
  using assms
proof (induction c arbitrary: up a la b lb)
  case (Cons wq c)
  obtain w q where wq: "wq = (w, q)" by (cases wq)
  show ?case
    using Cons.prems(1)[unfolded wq]
  proof (cases rule: chain_step_Cons)
    case A: (first f w1 out c1 q1)
    show ?thesis using Cons.prems(2)[unfolded wq]
    proof (cases rule: chain_step_Cons)
      case (first f' w1' out' c1' q1')
      then show ?thesis using A by auto
    next
      case closed
      then show ?thesis using A by simp
    next
      case (later c2)
      have "chain_step E False c (c2, lb)" using later A by simp
      from chain_feed[OF this A(4)] obtain d' where d: "feed out c2 = (d', [])" "la = []" "chain_step E False c1 (d', lb)" by auto
      have "chain_step E (\<not> wk_live w1) c1 (d', lb)" using d(3) chain_up by (cases "wk_live w1") auto
      then have "chain_step E up a ((w1, q1) # d', lb)" using A chain_step.later by simp
      moreover have "chain_step E up b ((w1, q1) # d', [])"
        using later A d chain_step.take_frame[of w E f w1 out c2 d' "[]" up q1] by simp
      ultimately show ?thesis using d(2) by force
    qed
  next
    case A: closed
    show ?thesis using Cons.prems(2)[unfolded wq]
    proof (cases rule: chain_step_Cons)
      case (later c2)
      have "chain_step E False c (c2, lb)" using later A by simp
      then have "chain_step E True c (c2, lb)" by (rule chain_up)
      then have "chain_step E up a ((worker_eof w, []) # c2, lb)"
        using A chain_step.later[of E "worker_eof w" c c2 lb up "[]"] by (simp add: worker_eof_def wk_live_def)
      moreover have "chain_step E up b ((worker_eof w, []) # c2, [])" using later A chain_step.closed[of w E c2] by simp
      ultimately show ?thesis using A by force
    qed (use A in auto)
  next
    case A: (later c1)
    show ?thesis using Cons.prems(2)[unfolded wq]
    proof (cases rule: chain_step_Cons)
      case (first f w1 out c2 q1)
      have "chain_step E False c (c1, la)" using first A by simp
      from chain_feed[OF this first(4)] obtain d' where d: "feed out c1 = (d', [])" "lb = []" "chain_step E False c2 (d', la)" by auto
      have "chain_step E (\<not> wk_live w1) c2 (d', la)" using d(3) chain_up by (cases "wk_live w1") auto
      then have "chain_step E up b ((w1, q1) # d', la)" using first chain_step.later by simp
      moreover have "chain_step E up a ((w1, q1) # d', [])"
        using first A d chain_step.take_frame[of w E f w1 out c1 d' "[]" up q1] by simp
      ultimately show ?thesis using d(2) by force
    next
      case closed
      have "chain_step E False c (c1, la)" using closed A by simp
      then have "chain_step E True c (c1, la)" by (rule chain_up)
      then have "chain_step E up b ((worker_eof w, []) # c1, la)"
        using closed chain_step.later[of E "worker_eof w" c c1 la up "[]"] by (simp add: worker_eof_def wk_live_def)
      moreover have "chain_step E up a ((worker_eof w, []) # c1, [])" using closed A chain_step.closed[of w E c1] by simp
      ultimately show ?thesis using closed by force
    next
      case (later c2)
      from Cons.IH[OF A(1) later(1)] show ?thesis
      proof
        assume "(c1, la) = (c2, lb)"
        then show ?thesis using A later by simp
      next
        assume "\<exists>d l m. chain_step E (\<not> wk_live w) c1 (d, l) \<and> chain_step E (\<not> wk_live w) c2 (d, m) \<and> la @ l = lb @ m"
        then show ?thesis using A later chain_step.later[of E w _ _ _ up q] by blast
      qed
    qed
  qed
qed auto

lemma over_step:
  "chain_step E up c (c', lg) \<Longrightarrow> chain_over c \<Longrightarrow> lg = [] \<and> chain_over c'"
proof (induction c arbitrary: up c' lg)
  case (Cons wq c)
  obtain w q where wq: "wq = (w, q)" by (cases wq)
  from Cons.prems(1)[unfolded wq] show ?case
  proof (cases rule: chain_step_Cons)
    case (first f w' out c1 q1)
    then have "c \<noteq> []" using Cons.prems(2) wq by (auto simp: chain_over_def)
    then obtain v r c0 where "c = (v, r) # c0" by (metis list.exhaust surj_pair)
    then show ?thesis using first Cons.prems(2) wq by (auto simp: chain_over_def split: if_splits)
  next
    case closed
    then show ?thesis using Cons.prems(2) wq by (auto simp: chain_over_def worker_eof_def wk_live_def split: if_splits)
  next
    case (later c1)
    then have "c \<noteq> []" by auto
    then have "chain_over c" using Cons.prems(2) by (simp add: chain_over_def)
    from Cons.IH[OF later(1) this] show ?thesis using later by (simp add: chain_over_def)
  qed
qed auto

lemma pipe_step_cases:
  assumes "pipe_step E (m, c, lq) s'"
  obtains (send) f p c' lg where "m = Send f p" "feed [f] c = (c', lg)" "s' = (p, c', lq @ lg)"
    | (recv) k f lq' where "m = Recv k" "lq = f # lq'" "s' = (k (Some f), c, lq')"
    | (recv_closed) k where "m = Recv k" "lq = []" "chain_over c" "s' = (k None, c, [])"
    | (work) c' lg where "chain_step E (halted m) c (c', lg)" "s' = (m, c', lq @ lg)"
  using assms by (cases rule: pipe_step.cases) auto

lemma step_up: "chain_step E False c r \<Longrightarrow> chain_step E up c r"
  using chain_up[of E c r] by (cases up) simp_all

lemma act_work:
  assumes "pipe_step E (m, c, lq) a" "\<not> (\<exists>c' lg. chain_step E (halted m) c (c', lg) \<and> a = (m, c', lq @ lg))"
    and "chain_step E (halted m) c (c', lg)"
  shows "\<exists>d. pipe_step E a d \<and> pipe_step E (m, c', lq @ lg) d"
  using assms(1)
proof (cases rule: pipe_step_cases)
  case (send f p c1 l1)
  then have s: "chain_step E False c (c', lg)" using assms(3) by simp
  from chain_feed[OF this send(2)] obtain d' where d: "feed [f] c' = (d', [])" "l1 = []" "chain_step E False c1 (d', lg)" by auto
  have "pipe_step E a (p, d', lq @ lg)" using pipe_step.work[OF step_up[OF d(3)]] send d(2) by simp
  moreover have "pipe_step E (m, c', lq @ lg) (p, d', lq @ lg)" using pipe_step.send[OF d(1), of E p "lq @ lg"] send by simp
  ultimately show ?thesis by blast
next
  case (recv k f lq')
  then have s: "chain_step E False c (c', lg)" using assms(3) by simp
  have "pipe_step E a (k (Some f), c', lq' @ lg)" using pipe_step.work[OF step_up[OF s]] recv by simp
  moreover have "pipe_step E (m, c', lq @ lg) (k (Some f), c', lq' @ lg)" using pipe_step.recv[of E k c' f] recv by simp
  ultimately show ?thesis by blast
next
  case (recv_closed k)
  then have s: "chain_step E False c (c', lg)" using assms(3) by simp
  from over_step[OF s recv_closed(3)] have o: "lg = []" "chain_over c'" by auto
  have "pipe_step E a (k None, c', [])" using pipe_step.work[OF step_up[OF s], of "k None" "[]"] recv_closed o by simp
  moreover have "pipe_step E (m, c', lq @ lg) (k None, c', [])" using pipe_step.recv_closed[OF o(2)] recv_closed o by simp
  ultimately show ?thesis by blast
next
  case (work c1 l1)
  then show ?thesis using assms(2) by blast
qed

lemma act_act:
  assumes "pipe_step E (m, c, lq) a" "\<not> (\<exists>c' lg. chain_step E (halted m) c (c', lg) \<and> a = (m, c', lq @ lg))"
    and "pipe_step E (m, c, lq) b" "\<not> (\<exists>c' lg. chain_step E (halted m) c (c', lg) \<and> b = (m, c', lq @ lg))"
  shows "a = b"
  using assms(1)
  by (cases rule: pipe_step_cases; use assms(3) in \<open>cases rule: pipe_step_cases\<close>) (use assms(2,4) in auto)

lemma pipe_diamond:
  assumes "pipe_step E s a" "pipe_step E s b"
  shows "a = b \<or> (\<exists>d. pipe_step E a d \<and> pipe_step E b d)"
proof -
  obtain m c lq where s: "s = (m, c, lq)" by (cases s)
  let ?w = "\<lambda>x. \<exists>c' lg. chain_step E (halted m) c (c', lg) \<and> x = (m, c', lq @ lg)"
  show ?thesis
  proof (cases "?w a")
    case True
    then obtain c1 l1 where a: "chain_step E (halted m) c (c1, l1)" "a = (m, c1, lq @ l1)" by blast
    show ?thesis
    proof (cases "?w b")
      case True
      then obtain c2 l2 where b: "chain_step E (halted m) c (c2, l2)" "b = (m, c2, lq @ l2)" by blast
      from chain_diamond[OF a(1) b(1)] show ?thesis
      proof
        assume "(c1, l1) = (c2, l2)"
        then show ?thesis using a b by simp
      next
        assume "\<exists>d l k. chain_step E (halted m) c1 (d, l) \<and> chain_step E (halted m) c2 (d, k) \<and> l1 @ l = l2 @ k"
        then obtain d l k where "chain_step E (halted m) c1 (d, l)" "chain_step E (halted m) c2 (d, k)" "l1 @ l = l2 @ k" by blast
        then have "pipe_step E a (m, d, lq @ l1 @ l)" "pipe_step E b (m, d, lq @ l1 @ l)"
          using pipe_step.work[of E m c1 d l "lq @ l1"] pipe_step.work[of E m c2 d k "lq @ l2"] a(2) b(2) by auto
        then show ?thesis by blast
      qed
    next
      case False
      from act_work[OF assms(2)[unfolded s] False a(1)] show ?thesis using a(2) by blast
    qed
  next
    case na: False
    show ?thesis
    proof (cases "?w b")
      case True
      then obtain c2 l2 where b: "chain_step E (halted m) c (c2, l2)" "b = (m, c2, lq @ l2)" by blast
      from act_work[OF assms(1)[unfolded s] na b(1)] show ?thesis using b(2) by blast
    next
      case False
      then show ?thesis using act_act[OF assms(1)[unfolded s] na assms(2)[unfolded s] False] by simp
    qed
  qed
qed

subsection \<open>Steps that can be exchanged\<close>

definition exchange :: "('a \<Rightarrow> 'a \<Rightarrow> bool) \<Rightarrow> bool" where
  "exchange R \<longleftrightarrow> (\<forall>s a b. R s a \<longrightarrow> R s b \<longrightarrow> a = b \<or> (\<exists>d. R a d \<and> R b d))"

definition stuck :: "('a \<Rightarrow> 'a \<Rightarrow> bool) \<Rightarrow> 'a \<Rightarrow> bool" where
  "stuck R s \<longleftrightarrow> (\<forall>u. \<not> R s u)"

lemma exchange_first:
  assumes "exchange R" "stuck R t"
  shows "R s a \<Longrightarrow> (R ^^ n) a t \<Longrightarrow> R s b \<Longrightarrow> (R ^^ n) b t"
proof (induction n arbitrary: s a b)
  case 0
  then have "a = t" by simp
  then have "\<nexists>d. R a d" using assms(2) by (simp add: stuck_def)
  then have "a = b" using assms(1) "0.prems"(1,3) unfolding exchange_def by blast
  then show ?case using \<open>a = t\<close> by simp
next
  case (Suc n)
  from assms(1) Suc.prems(1,3) consider "a = b" | d where "R a d" "R b d" unfolding exchange_def by blast
  then show ?case
  proof cases
    case 1
    then show ?thesis using Suc.prems(2) by simp
  next
    case (2 d)
    obtain a1 where "R a a1" "(R ^^ n) a1 t" using Suc.prems(2) relpowp_Suc_D2 by metis
    then have "(R ^^ n) d t" using Suc.IH 2(1) by blast
    then show ?thesis using 2(2) relpowp_Suc_I2 by metis
  qed
qed

lemma exchange_runs:
  assumes "exchange R" "stuck R t"
  shows "(R ^^ n) s t \<Longrightarrow> (R ^^ m) s u \<Longrightarrow> m \<le> n \<and> (R ^^ (n - m)) u t"
proof (induction m arbitrary: n s)
  case (Suc m)
  obtain b where b: "R s b" "(R ^^ m) b u" using Suc.prems(2) relpowp_Suc_D2 by metis
  show ?case
  proof (cases n)
    case 0
    then show ?thesis using Suc.prems(1) b(1) assms(2) by (simp add: stuck_def)
  next
    case n: (Suc k)
    obtain a where "R s a" "(R ^^ k) a t" using Suc.prems(1) n relpowp_Suc_D2 by metis
    then have "(R ^^ k) b t" using exchange_first[OF assms] b(1) by blast
    from Suc.IH[OF this b(2)] show ?thesis using n by simp
  qed
qed auto

lemma exchange_outcome:
  assumes "exchange R" "R\<^sup>*\<^sup>* s t" "stuck R t"
  shows "(R\<^sup>*\<^sup>* s u \<longrightarrow> R\<^sup>*\<^sup>* u t) \<and> \<not> (f 0 = s \<and> (\<forall>i. R (f i) (f (Suc i))))"
proof -
  obtain n where n: "(R ^^ n) s t" using assms(2) rtranclp_imp_relpowp by metis
  have "(R ^^ i) (f 0) (f i)" if "\<forall>i. R (f i) (f (Suc i))" for i
    using that by (induction i) auto
  then have "\<not> (f 0 = s \<and> (\<forall>i. R (f i) (f (Suc i))))"
    using exchange_runs[OF assms(1,3) n, of "Suc n" "f (Suc n)"] by force
  moreover have "R\<^sup>*\<^sup>* s u \<longrightarrow> R\<^sup>*\<^sup>* u t"
    using exchange_runs[OF assms(1,3) n] rtranclp_imp_relpowp relpowp_imp_rtranclp by metis
  ultimately show ?thesis by blast
qed

lemma pipe_exchange: "exchange (pipe_step E)"
  using pipe_diamond unfolding exchange_def by blast

end
