(* ===== verification/PipeWhole.thy ===== *)
theory PipeWhole
  imports PipeSpec
begin

text \<open>
  A pipeline computes what one engine with all layers computes: the tokens, the position and the
  caches of every rank are those of the single engine.
\<close>

subsection \<open>One engine\<close>

definition whole_batch :: "(activation, u32 list, 'k) kern \<Rightarrow> u32 list \<Rightarrow> u32 \<Rightarrow> 'k net_engine \<Rightarrow> 'k net_engine" where
  "whole_batch K tokens pos e = fold (batch_layer K tokens pos) [0..<n_layers K] (e\<lparr>eg_pb := map (kn_embed K) tokens\<rparr>)"

function whole_prefill :: "'k pipe_env \<Rightarrow> u32 list \<Rightarrow> u32 \<Rightarrow> 'k net_engine \<Rightarrow> u32 \<times> 'k net_engine" where
  "whole_prefill E ids pos e =
     (if ids = [] then (pos, e)
      else let nb = min PP_XB (length ids) in
        whole_prefill E (drop nb ids) (pos + word_of_nat nb) (whole_batch (pe_kern E) (take nb ids) pos e))"
  by pat_completeness auto
termination
  by (relation "measure (\<lambda>(E, ids, pos, e). length ids)") (auto simp: PP_XB_def)

declare whole_prefill.simps [simp del]

fun whole_decode :: "'k pipe_env \<Rightarrow> nat \<Rightarrow> u32 list \<Rightarrow> u32 \<Rightarrow> 'k net_engine \<Rightarrow> u64 \<Rightarrow> u32 list \<times> u32 \<times> 'k net_engine" where
  "whole_decode E 0 gen pos e rng = (gen, pos, e)"
| "whole_decode E (Suc i) gen pos e rng =
     (if unat pos \<ge> pe_max_seq E then (gen, pos, e)
      else case pe_sample E (eg_logits e) rng of
        None \<Rightarrow> (gen, pos, e)
      | Some (nxt, l, rng) \<Rightarrow>
        let e = e\<lparr>eg_logits := l\<rparr> in
        if nxt = eos_token E then (gen, pos, e)
        else whole_decode E i (gen @ [nxt]) (pos + 1) (engine_forward (pe_kern E) nxt pos e) rng)"

definition first_pos :: "(string \<times> u32) option \<Rightarrow> u32" where
  "first_pos sess = (case sess of None \<Rightarrow> 0 | Some (_, p) \<Rightarrow> p)"

definition whole_generate ::
  "'k pipe_env \<Rightarrow> (string \<times> u32) option \<Rightarrow> u32 list \<Rightarrow> nat \<Rightarrow> 'k net_engine \<Rightarrow> u32 list \<times> u32 \<times> 'k net_engine" where
  "whole_generate E sess ids ntokens e =
     (case whole_prefill E ids (first_pos sess) e of (pos, e) \<Rightarrow>
      case whole_decode E ntokens [] pos e (pe_seed E) of (gen, pos, e) \<Rightarrow>
      if sess \<noteq> None \<and> unat pos < pe_max_seq E then (gen, pos + 1, engine_forward (pe_kern E) (eos_token E) pos e)
      else (gen, pos, e))"

subsection \<open>Parts of the layers\<close>

text \<open>A batch of one token is computed as the token alone, and a batch keeps its length.\<close>

definition kern_ok :: "('x, 'y, 'k) kern \<Rightarrow> bool" where
  "kern_ok K \<longleftrightarrow>
     (\<forall>i t pos own src x. kn_batch K i [t] pos own src [x] = (case kn_block K i t pos own src x of (x', k) \<Rightarrow> ([x'], k)))
     \<and> (\<forall>i ts pos own src xs. length (fst (kn_batch K i ts pos own src xs)) = length xs)"

definition agree :: "('x, 'y, 'k) engine \<Rightarrow> ('x, 'y, 'k) engine \<Rightarrow> nat \<Rightarrow> nat \<Rightarrow> bool" where
  "agree e W b d \<longleftrightarrow> (\<forall>i. b \<le> i \<longrightarrow> i < d \<longrightarrow> eg_kv e i = eg_kv W i)"

definition closed_range :: "('x, 'y, 'k) kern \<Rightarrow> nat \<Rightarrow> nat \<Rightarrow> bool" where
  "closed_range K b d \<longleftrightarrow> (\<forall>i. b \<le> i \<longrightarrow> i < d \<longrightarrow> 1 \<le> i \<longrightarrow> i \<le> trunk K \<longrightarrow> b \<le> kn_source K i \<and> kn_source K i < d)"

lemma trunk_le: "trunk K \<le> kn_blocks K"
  by (simp add: trunk_def)

text \<open>The layers of a part, for one token and for a batch; what they leave alone.\<close>

definition token_layer :: "('x, 'y, 'k) kern \<Rightarrow> u32 \<Rightarrow> u32 \<Rightarrow> nat \<Rightarrow> ('x, 'y, 'k) engine \<Rightarrow> ('x, 'y, 'k) engine" where
  "token_layer K tok pos i e = (if i = 0 then e else forward_layer K tok pos i e)"

lemma forward_range_fold:
  "engine_forward_range K tok need pos e =
     fold (token_layer K tok pos) (layer_range e) (if need \<and> eg_begin e = 0 then e\<lparr>eg_x := kn_embed K tok\<rparr> else e)"
  by (auto simp: engine_forward_range_def layer_range_def forward_layer_def token_layer_def[abs_def] Let_def)

lemma token_layer_frame [simp]:
  "eg_begin (token_layer K tok pos i e) = eg_begin e" "eg_end (token_layer K tok pos i e) = eg_end e"
  "j \<noteq> i \<Longrightarrow> eg_kv (token_layer K tok pos i e) j = eg_kv e j"
  by (auto simp: token_layer_def forward_layer_def split: prod.splits)

lemma batch_layer_frame [simp]:
  "eg_begin (batch_layer K toks pos i e) = eg_begin e" "eg_end (batch_layer K toks pos i e) = eg_end e"
  "j \<noteq> i \<Longrightarrow> eg_kv (batch_layer K toks pos i e) j = eg_kv e j"
  by (auto simp: batch_layer_def batch_block_def split: prod.splits)

lemma fold_frame:
  assumes "\<And>i e. eg_begin (f i e) = eg_begin e" "\<And>i e. eg_end (f i e) = eg_end e" "\<And>i j e. j \<noteq> i \<Longrightarrow> eg_kv (f i e) j = eg_kv e j"
  shows "eg_begin (fold f is e) = eg_begin e \<and> eg_end (fold f is e) = eg_end e \<and> (\<forall>j. j \<notin> set is \<longrightarrow> eg_kv (fold f is e) j = eg_kv e j)"
  using assms by (induction "is" arbitrary: e) auto

lemmas token_fold = fold_frame[of "token_layer K tok pos" for K tok pos, OF token_layer_frame]
lemmas batch_fold = fold_frame[of "batch_layer K toks pos" for K toks pos, OF batch_layer_frame]

lemma fold_ends [simp]:
  "eg_begin (fold (token_layer K tok pos) is e) = eg_begin e" "eg_end (fold (token_layer K tok pos) is e) = eg_end e"
  "eg_begin (fold (batch_layer K toks pos) is e) = eg_begin e" "eg_end (fold (batch_layer K toks pos) is e) = eg_end e"
  using token_fold batch_fold by blast+

lemma fold_related:
  assumes "\<And>i e W. i \<in> set is \<Longrightarrow> R e W \<Longrightarrow> R (f i e) (g i W)" "R e W"
  shows "R (fold f is e) (fold g is W)"
  using assms by (induction "is" arbitrary: e W) auto

lemma agree_upd: "agree e W b d \<Longrightarrow> agree (e'\<lparr>eg_kv := (eg_kv e)(i := k)\<rparr>) (W'\<lparr>eg_kv := (eg_kv W)(i := k)\<rparr>) b d"
  by (auto simp: agree_def)

text \<open>The three ways in which a part of the layers follows the single engine.\<close>

lemma token_token:
  assumes "closed_range K b d" "agree e W b d" "eg_x e = eg_x W" "b \<le> i" "i < d"
  shows "agree (token_layer K tok pos i e) (token_layer K tok pos i W) b d \<and> eg_x (token_layer K tok pos i e) = eg_x (token_layer K tok pos i W)"
proof (cases "1 \<le> i \<and> i \<le> trunk K")
  case True
  then have "eg_kv e i = eg_kv W i" "eg_kv e (kn_source K i) = eg_kv W (kn_source K i)"
    using assms by (auto simp: agree_def closed_range_def)
  then show ?thesis using True assms(2,3) by (auto simp: token_layer_def forward_layer_def agree_def split: prod.splits)
qed (use assms in \<open>auto simp: token_layer_def forward_layer_def agree_def\<close>)

lemma batch_batch:
  assumes "closed_range K b d" "agree e W b d" "eg_pb e = eg_pb W" "b \<le> i" "i < d"
  shows "agree (batch_layer K toks pos i e) (batch_layer K toks pos i W) b d \<and> eg_pb (batch_layer K toks pos i e) = eg_pb (batch_layer K toks pos i W)"
proof (cases "1 \<le> i \<and> i \<le> trunk K")
  case True
  then have "eg_kv e i = eg_kv W i" "eg_kv e (kn_source K i) = eg_kv W (kn_source K i)"
    using assms by (auto simp: agree_def closed_range_def)
  then show ?thesis using True assms(2,3) by (auto simp: batch_layer_def batch_block_def agree_def split: prod.splits)
qed (use assms in \<open>auto simp: batch_layer_def agree_def\<close>)

lemma token_batch:
  assumes "kern_ok K" "closed_range K b d" "agree e W b d" "eg_pb W = [eg_x e]" "b \<le> i" "i < d" "i \<le> kn_blocks K"
  shows "agree (token_layer K tok pos i e) (batch_layer K [tok] pos i W) b d \<and> eg_pb (batch_layer K [tok] pos i W) = [eg_x (token_layer K tok pos i e)]"
proof (cases "1 \<le> i \<and> i \<le> trunk K")
  case True
  then have "eg_kv e i = eg_kv W i" "eg_kv e (kn_source K i) = eg_kv W (kn_source K i)"
    using assms by (auto simp: agree_def closed_range_def)
  moreover have "kn_batch K i [tok] pos own src [x] = (case kn_block K i tok pos own src x of (x', k) \<Rightarrow> ([x'], k))" for own src x
    using assms(1) by (simp add: kern_ok_def)
  ultimately show ?thesis using True assms(3,4)
    by (auto simp: token_layer_def forward_layer_def batch_layer_def batch_block_def agree_def split: prod.splits)
next
  case False
  then have "i = 0 \<or> (kn_mtp K \<and> i = kn_blocks K)" using assms(7) by (auto simp: trunk_def split: if_splits)
  then show ?thesis using assms False by (auto simp: token_layer_def forward_layer_def batch_layer_def trunk_def)
qed

definition part :: "(activation, u32 list, 'k) kern \<Rightarrow> bool \<Rightarrow> u32 list \<Rightarrow> u32 \<Rightarrow> nat \<Rightarrow> 'k net_engine \<Rightarrow> 'k net_engine" where
  "part K single tokens pos = (if single then token_layer K (hd tokens) pos else batch_layer K tokens pos)"

definition shown :: "bool \<Rightarrow> 'k net_engine \<Rightarrow> activation list" where
  "shown single W = (if single then [eg_x W] else eg_pb W)"

lemma part_fold:
  "eg_begin (fold (part K single tokens pos) is e) = eg_begin e \<and> eg_end (fold (part K single tokens pos) is e) = eg_end e
    \<and> (\<forall>j. j \<notin> set is \<longrightarrow> eg_kv (fold (part K single tokens pos) is e) j = eg_kv e j)"
  unfolding part_def using token_fold[of K "hd tokens" pos "is" e] batch_fold[of K tokens pos "is" e] by simp

text \<open>What a worker computes for a frame.\<close>

definition worker_run :: "(activation, u32 list, 'k) kern \<Rightarrow> bool \<Rightarrow> u32 list \<Rightarrow> u32 \<Rightarrow> activation list \<Rightarrow> 'k net_engine \<Rightarrow> 'k net_engine option" where
  "worker_run K final tokens pos xs e =
     (if length tokens = 1 then Some (engine_forward_range K (hd tokens) False pos (e\<lparr>eg_x := hd xs\<rparr>))
      else engine_forward_batch_x K xs tokens pos final e)"

lemma batch_length: "kern_ok K \<Longrightarrow> length (eg_pb (fold (batch_layer K tokens pos) is e)) = length (eg_pb e)"
proof (induction "is" arbitrary: e)
  case (Cons i "is")
  have "length (eg_pb (batch_block K tokens pos i e)) = length (eg_pb e)"
    using Cons.prems by (simp add: batch_block_def kern_ok_def case_prod_unfold)
  then have "length (eg_pb (batch_layer K tokens pos i e)) = length (eg_pb e)" by (simp add: batch_layer_def)
  then show ?case using Cons by simp
qed simp

text \<open>A part of the blocks: the activations it passes on are those of the single engine.\<close>

lemma blocks_follow:
  assumes K: "kern_ok K" and cl: "closed_range K b d" and ag: "agree e W b d"
    and e: "eg_begin e = b" "eg_end e = d"
    and n: "tokens \<noteq> []" "length tokens \<le> PB_MAX" "length xs = length tokens" "single \<Longrightarrow> length tokens = 1"
    and xs: "xs = shown single W" and "is": "set is \<subseteq> {b..<d}" "set is \<subseteq> {..kn_blocks K}"
    and e1_def: "e1 = (if length tokens = 1 then fold (token_layer K (hd tokens) pos) is (e\<lparr>eg_x := hd xs\<rparr>)
      else fold (batch_layer K tokens pos) is (e\<lparr>eg_pb := xs\<rparr>))"
    and W1_def: "W1 = fold (part K single tokens pos) is W"
  shows "agree e1 W1 b d \<and> shown (length tokens = 1) e1 = shown single W1 \<and> length (shown single W1) = length tokens"
proof -
  consider (tok) "length tokens = 1" single | (one) "length tokens = 1" "\<not> single" | (many) "length tokens \<noteq> 1" "\<not> single"
    using n(4) by blast
  then show ?thesis
  proof cases
    case tok
    let ?R = "\<lambda>e W :: 'a net_engine. agree e W b d \<and> eg_x e = eg_x W"
    have "?R (fold (token_layer K (hd tokens) pos) is (e\<lparr>eg_x := hd xs\<rparr>)) (fold (token_layer K (hd tokens) pos) is W)"
    proof (rule fold_related[where R = ?R])
      show "?R (token_layer K (hd tokens) pos i e) (token_layer K (hd tokens) pos i W)" if "i \<in> set is" "?R e W" for i e W
        by (rule token_token[OF cl]) (use that "is" in auto)
      show "?R (e\<lparr>eg_x := hd xs\<rparr>) W" using tok xs ag by (simp add: shown_def agree_def)
    qed
    then show ?thesis using tok by (simp add: shown_def e1_def W1_def part_def)
  next
    case one
    obtain t where t: "tokens = [t]" using one(1) by (cases tokens) auto
    obtain x where x: "xs = [x]" using n(3) one(1) by (cases xs) auto
    let ?R = "\<lambda>e W :: 'a net_engine. agree e W b d \<and> eg_pb W = [eg_x e]"
    have "?R (fold (token_layer K t pos) is (e\<lparr>eg_x := x\<rparr>)) (fold (batch_layer K [t] pos) is W)"
    proof (rule fold_related[where R = ?R])
      show "?R (token_layer K t pos i e) (batch_layer K [t] pos i W)" if "i \<in> set is" "?R e W" for i e W
        by (rule token_batch[OF K cl]) (use that "is" in auto)
      show "?R (e\<lparr>eg_x := x\<rparr>) W" using one x xs ag by (simp add: shown_def agree_def)
    qed
    then show ?thesis using one t x by (simp add: shown_def e1_def W1_def part_def)
  next
    case many
    let ?R = "\<lambda>e W :: 'a net_engine. agree e W b d \<and> eg_pb e = eg_pb W"
    have "?R (fold (batch_layer K tokens pos) is (e\<lparr>eg_pb := xs\<rparr>)) (fold (batch_layer K tokens pos) is W)"
    proof (rule fold_related[where R = ?R])
      show "?R (batch_layer K tokens pos i e) (batch_layer K tokens pos i W)" if "i \<in> set is" "?R e W" for i e W
        by (rule batch_batch[OF cl]) (use that "is" in auto)
      show "?R (e\<lparr>eg_pb := xs\<rparr>) W" using many xs ag by (simp add: shown_def agree_def)
    qed
    then have "agree e1 W1 b d \<and> eg_pb e1 = eg_pb W1" using many by (simp add: e1_def W1_def part_def)
    moreover have "length (eg_pb W1) = length tokens"
      unfolding W1_def part_def using many xs n(3) batch_length[OF K] by (simp add: shown_def)
    ultimately show ?thesis using many by (simp add: shown_def)
  qed
qed

lemma tail_layers:
  "fold (token_layer K t pos) [kn_blocks K + 1, kn_blocks K + 2] e =
     e\<lparr>eg_x := kn_norm K (eg_x e), eg_logits := kn_head K (kn_norm K (eg_x e))\<rparr>"
  "fold (batch_layer K ts pos) [kn_blocks K + 1, kn_blocks K + 2] e =
     e\<lparr>eg_x := kn_norm K (last (eg_pb e)), eg_logits := kn_head K (kn_norm K (last (eg_pb e)))\<rparr>"
  using trunk_le[of K] by (simp_all add: token_layer_def batch_layer_def forward_layer_def)

lemma last_shown: "last (shown s e) = (if s then eg_x e else last (eg_pb e))"
  by (simp add: shown_def)

lemma tail_part:
  "fold (part K single ts pos) [kn_blocks K + 1, kn_blocks K + 2] W =
     W\<lparr>eg_x := kn_norm K (last (shown single W)), eg_logits := kn_head K (kn_norm K (last (shown single W)))\<rparr>"
  unfolding part_def shown_def using tail_layers by (cases single) (simp_all only: if_True if_False last.simps refl)

lemma range_tail: "b \<le> kn_blocks K + 1 \<Longrightarrow> [b..<n_layers K] = [b..<kn_blocks K + 1] @ [kn_blocks K + 1, kn_blocks K + 2]"
  using upt_add_eq_append[of b "kn_blocks K + 1" 2] by (simp add: n_layers_def numeral_3_eq_3)

lemma worker_run_fold:
  assumes "eg_begin e = b" "eg_end e = d" "tokens \<noteq> []" "length tokens \<le> PB_MAX" "final \<Longrightarrow> kn_blocks K < d"
  shows "worker_run K final tokens pos xs e = Some
    (if length tokens = 1 then fold (token_layer K (hd tokens) pos) [b..<d] (e\<lparr>eg_x := hd xs\<rparr>)
     else fold (batch_layer K tokens pos) [b..<d] (e\<lparr>eg_pb := xs\<rparr>))"
  using assms by (auto simp: worker_run_def forward_range_fold engine_forward_batch_x_def layer_range_def Let_def)

lemma worker_run_mid:
  assumes K: "kern_ok K" and cl: "closed_range K b d" and ag: "agree e W b d"
    and e: "eg_begin e = b" "eg_end e = d" and d: "d \<le> kn_blocks K + 1"
    and n: "tokens \<noteq> []" "length tokens \<le> PB_MAX" "length xs = length tokens" "single \<Longrightarrow> length tokens = 1"
    and xs: "xs = shown single W"
  shows "\<exists>e1. worker_run K False tokens pos xs e = Some e1 \<and> agree e1 (fold (part K single tokens pos) [b..<d] W) b d
    \<and> shown (length tokens = 1) e1 = shown single (fold (part K single tokens pos) [b..<d] W)
    \<and> length (shown single (fold (part K single tokens pos) [b..<d] W)) = length tokens \<and> eg_begin e1 = b \<and> eg_end e1 = d"
proof -
  let ?e1 = "if length tokens = 1 then fold (token_layer K (hd tokens) pos) [b..<d] (e\<lparr>eg_x := hd xs\<rparr>)
     else fold (batch_layer K tokens pos) [b..<d] (e\<lparr>eg_pb := xs\<rparr>)"
  have run: "worker_run K False tokens pos xs e = Some ?e1" using worker_run_fold[OF e n(1,2), of False] by simp
  have ends: "eg_begin ?e1 = b" "eg_end ?e1 = d" using e by simp_all
  have "set [b..<d] \<subseteq> {b..<d}" "set [b..<d] \<subseteq> {..kn_blocks K}" using d by auto
  note f = blocks_follow[OF K cl ag e n xs this refl refl, of pos]
  show ?thesis by (rule exI[of _ ?e1], intro conjI run ends f[THEN conjunct1] f[THEN conjunct2, THEN conjunct1] f[THEN conjunct2, THEN conjunct2])
qed

lemma worker_run_last:
  assumes K: "kern_ok K" and cl: "closed_range K b d" and ag: "agree e W b d"
    and e: "eg_begin e = b" "eg_end e = d" and d: "d = n_layers K" "b \<le> kn_blocks K + 1"
    and n: "tokens \<noteq> []" "length tokens \<le> PB_MAX" "length xs = length tokens" "single \<Longrightarrow> length tokens = 1"
    and xs: "xs = shown single W"
  shows "\<exists>e1. worker_run K True tokens pos xs e = Some e1 \<and> agree e1 (fold (part K single tokens pos) [b..<d] W) b d
    \<and> eg_logits e1 = eg_logits (fold (part K single tokens pos) [b..<d] W) \<and> eg_begin e1 = b \<and> eg_end e1 = d"
proof -
  let ?b = "kn_blocks K + 1"
  let ?e0 = "if length tokens = 1 then fold (token_layer K (hd tokens) pos) [b..<?b] (e\<lparr>eg_x := hd xs\<rparr>)
     else fold (batch_layer K tokens pos) [b..<?b] (e\<lparr>eg_pb := xs\<rparr>)"
  let ?W0 = "fold (part K single tokens pos) [b..<?b] W"
  let ?e1 = "if length tokens = 1 then fold (token_layer K (hd tokens) pos) [b..<d] (e\<lparr>eg_x := hd xs\<rparr>)
     else fold (batch_layer K tokens pos) [b..<d] (e\<lparr>eg_pb := xs\<rparr>)"
  have rg: "[b..<d] = [b..<?b] @ [kn_blocks K + 1, kn_blocks K + 2]" using range_tail[OF d(2)] d(1) by (simp only:)
  have "set [b..<?b] \<subseteq> {b..<d}" "set [b..<?b] \<subseteq> {..kn_blocks K}" using d by (auto simp: n_layers_def)
  from blocks_follow[OF K cl ag e n xs this refl refl, of pos]
  have f: "agree ?e0 ?W0 b d" "shown (length tokens = 1) ?e0 = shown single ?W0" by auto
  have x: "last (shown single ?W0) = (if length tokens = 1 then eg_x ?e0 else last (eg_pb ?e0))"
    unfolding f(2)[symmetric] by (rule last_shown)
  have "kn_blocks K < d" using d by (simp add: n_layers_def)
  then have run: "worker_run K True tokens pos xs e = Some ?e1" using worker_run_fold[OF e n(1,2), of True] by simp
  have ends: "eg_begin ?e1 = b" "eg_end ?e1 = d" using e by simp_all
  have W: "fold (part K single tokens pos) [b..<d] W =
      ?W0\<lparr>eg_x := kn_norm K (last (shown single ?W0)), eg_logits := kn_head K (kn_norm K (last (shown single ?W0)))\<rparr>"
    unfolding rg fold_append o_apply tail_part ..
  have e1: "?e1 = ?e0\<lparr>eg_x := kn_norm K (last (shown single ?W0)), eg_logits := kn_head K (kn_norm K (last (shown single ?W0)))\<rparr>"
  proof (cases "length tokens = 1")
    case True
    show ?thesis unfolding x if_P[OF True] rg fold_append o_apply tail_layers ..
  next
    case False
    show ?thesis unfolding x if_not_P[OF False] rg fold_append o_apply tail_layers ..
  qed
  have ag1: "agree ?e1 (fold (part K single tokens pos) [b..<d] W) b d" unfolding W e1 using f(1) by (simp add: agree_def)
  have lg: "eg_logits ?e1 = eg_logits (fold (part K single tokens pos) [b..<d] W)" unfolding W e1 by simp
  show ?thesis by (rule exI[of _ ?e1], intro conjI run ends ag1 lg)
qed

subsection \<open>A frame goes through the ranks\<close>

definition part_of :: "(activation, u32 list, 'k) kern \<Rightarrow> nat \<Rightarrow> bool \<Rightarrow> 'k net_engine \<Rightarrow> bool" where
  "part_of K b final e \<longleftrightarrow> eg_begin e = b \<and> b \<le> eg_end e \<and> b \<le> kn_blocks K + 1 \<and> closed_range K b (eg_end e)
     \<and> (if final then eg_end e = n_layers K else eg_end e \<le> kn_blocks K + 1)"

text \<open>The ranks from layer \<open>b\<close> on hold the remaining layers, with the caches of the single engine.\<close>

fun chain_holds :: "(activation, u32 list, 'k) kern \<Rightarrow> 'k net_engine \<Rightarrow> nat \<Rightarrow> 'k chain \<Rightarrow> bool" where
  "chain_holds K W b [] = (b = n_layers K)"
| "chain_holds K W b ((w, q) # c) \<longleftrightarrow>
     q = [] \<and> wk_live w \<and> wk_ok w \<and> (wk_last w \<longleftrightarrow> c = []) \<and> part_of K b (c = []) (wk_engine w)
     \<and> agree (wk_engine w) W b (eg_end (wk_engine w)) \<and> chain_holds K W (eg_end (wk_engine w)) c"

definition chain_at :: "u32 \<Rightarrow> 'k chain \<Rightarrow> bool" where
  "chain_at p c \<longleftrightarrow> list_all (\<lambda>(w, q). wk_my w = p) c"

inductive chain_runs :: "'k pipe_env \<Rightarrow> 'k chain \<Rightarrow> 'k chain \<Rightarrow> dist_frame list \<Rightarrow> bool" for E where
  none: "chain_runs E c c []"
| more: "chain_step E False c (c1, l1) \<Longrightarrow> chain_runs E c1 c2 l2 \<Longrightarrow> chain_runs E c c2 (l1 @ l2)"

lemma runs_later: "chain_runs E c c' l \<Longrightarrow> chain_runs E ((w, q) # c) ((w, q) # c') l"
proof (induction rule: chain_runs.induct)
  case (more c c1 l1 c2 l2)
  then show ?case by (meson chain_runs.more chain_step.later step_up)
qed (rule chain_runs.none)

lemma runs_pipe: "chain_runs E c c' l \<Longrightarrow> (pipe_step E)\<^sup>*\<^sup>* (m, c, lq) (m, c', lq @ l)"
proof (induction arbitrary: lq rule: chain_runs.induct)
  case (more c c1 l1 c2 l2)
  have "pipe_step E (m, c, lq) (m, c1, lq @ l1)" by (rule pipe_step.work[OF step_up[OF more(1)]])
  then show ?case using more(3)[of "lq @ l1"] by (simp add: converse_rtranclp_into_rtranclp)
qed simp

lemma chain_holds_le: "chain_holds K W b c \<Longrightarrow> b \<le> n_layers K"
  by (cases "(K, W, b, c)" rule: chain_holds.cases) (auto simp: part_of_def n_layers_def)

lemma chain_holds_cong:
  "(\<And>i. b \<le> i \<Longrightarrow> eg_kv W i = eg_kv W' i) \<Longrightarrow> chain_holds K W b c \<Longrightarrow> chain_holds K W' b c"
proof (induction c arbitrary: b)
  case (Cons wq c)
  obtain w q where wq: "wq = (w, q)" by (cases wq)
  have "b \<le> eg_end (wk_engine w)" using Cons.prems(2) wq by (simp add: part_of_def)
  then have "chain_holds K W' (eg_end (wk_engine w)) c" using Cons.IH[of "eg_end (wk_engine w)"] Cons.prems wq by simp
  moreover have "agree (wk_engine w) W' b (eg_end (wk_engine w))" using Cons.prems wq by (simp add: agree_def)
  ultimately show ?case using Cons.prems(2) wq by simp
qed simp

definition carries :: "dist_frame \<Rightarrow> u32 \<Rightarrow> u32 list \<Rightarrow> activation list \<Rightarrow> bool" where
  "carries f pos tokens xs \<longleftrightarrow> f = FXB pos tokens xs \<or> (\<exists>t x. tokens = [t] \<and> xs = [x] \<and> f = FX pos t x)"

lemma wire_False [simp]: "wire False x = x" "map (wire False) xs = xs"
  by (simp_all add: wire_def map_idI)

lemma worker_step_carries:
  assumes "carries f pos tokens xs" "wk_live w" "wk_ok w" "\<not> pe_fp16 E"
    and "worker_run (pe_kern E) (wk_last w) tokens pos xs (wk_engine w) = Some e"
  shows "worker_step E f w = (w\<lparr>wk_phase := WRun, wk_engine := e, wk_my := pos + word_of_nat (length tokens)\<rparr>,
     [if wk_last w then FLogits (eg_logits e)
      else FXB pos tokens (if length tokens = 1 then [eg_x e] else take (length tokens) (eg_pb e))])"
proof -
  have ph: "wk_phase w = WHand \<or> wk_phase w = WRun" using assms(2) by (cases "wk_phase w") (auto simp: wk_live_def)
  have "worker_loop E f w' = worker_forward E pos tokens xs w'" if "wk_ok w'" for w'
    using assms(1) that by (auto simp: carries_def worker_loop_def)
  moreover have "worker_forward E pos tokens xs (w\<lparr>wk_phase := WRun\<rparr>) = (w\<lparr>wk_phase := WRun, wk_engine := e, wk_my := pos + word_of_nat (length tokens)\<rparr>,
     [if wk_last w then FLogits (eg_logits e)
      else FXB pos tokens (if length tokens = 1 then [eg_x e] else take (length tokens) (eg_pb e))])"
    using assms(4,5) by (auto simp: worker_forward_def worker_run_def Let_def split: if_splits)
  moreover have "worker_step E f w = worker_loop E f (w\<lparr>wk_phase := WRun\<rparr>)"
    using ph
  proof
    assume "wk_phase w = WRun"
    then have eq: "w\<lparr>wk_phase := WRun\<rparr> = w" by (cases w) simp
    show ?thesis unfolding eq by (simp add: worker_step_def \<open>wk_phase w = WRun\<close>)
  qed (use assms(1) in \<open>auto simp: worker_step_def carries_def\<close>)
  ultimately show ?thesis using assms(3) by simp
qed

lemma relay:
  assumes K: "kern_ok (pe_kern E)" "\<not> pe_fp16 E" and n: "tokens \<noteq> []" "length tokens \<le> PB_MAX" "single \<Longrightarrow> length tokens = 1"
  shows "chain_holds (pe_kern E) W b ((w, []) # c) \<Longrightarrow> carries f pos tokens (shown single W) \<Longrightarrow> length (shown single W) = length tokens
    \<Longrightarrow> \<exists>w' c'. chain_runs E ((w, [f]) # c) ((w', []) # c') [FLogits (eg_logits (fold (part (pe_kern E) single tokens pos) [b..<n_layers (pe_kern E)] W))]
      \<and> chain_holds (pe_kern E) (fold (part (pe_kern E) single tokens pos) [b..<n_layers (pe_kern E)] W) b ((w', []) # c')
      \<and> chain_at (pos + word_of_nat (length tokens)) ((w', []) # c')"
proof (induction c arbitrary: W b w f)
  case Nil
  let ?K = "pe_kern E"
  let ?d = "n_layers ?K"
  have h: "wk_live w" "wk_ok w" "wk_last w" "part_of ?K b True (wk_engine w)" "agree (wk_engine w) W b ?d"
    "eg_end (wk_engine w) = ?d" using Nil.prems(1) by (auto simp: part_of_def)
  have p: "closed_range ?K b ?d" "eg_begin (wk_engine w) = b" "b \<le> kn_blocks ?K + 1" using h by (auto simp: part_of_def)
  from worker_run_last[OF K(1) p(1) h(5) p(2) h(6) refl p(3) n(1,2) Nil.prems(3) n(3) refl, of pos]
  obtain e1 where e1: "worker_run ?K True tokens pos (shown single W) (wk_engine w) = Some e1"
    "agree e1 (fold (part ?K single tokens pos) [b..<?d] W) b ?d"
    "eg_logits e1 = eg_logits (fold (part ?K single tokens pos) [b..<?d] W)" "eg_begin e1 = b" "eg_end e1 = ?d" by blast
  let ?w = "w\<lparr>wk_phase := WRun, wk_engine := e1, wk_my := pos + word_of_nat (length tokens)\<rparr>"
  have "worker_step E f w = (?w, [FLogits (eg_logits e1)])"
    using worker_step_carries[OF Nil.prems(2) h(1,2) K(2)] e1(1) h(3) by simp
  then have "chain_step E False [(w, [f])] ([(?w, [])], [FLogits (eg_logits e1)])"
    using chain_step.take_frame[OF h(1), of E f ?w _ "[]"] by simp
  then have "chain_runs E [(w, [f])] [(?w, [])] [FLogits (eg_logits (fold (part ?K single tokens pos) [b..<?d] W))]"
    using chain_runs.more[OF _ chain_runs.none] e1(3) by force
  moreover have "chain_holds ?K (fold (part ?K single tokens pos) [b..<?d] W) b [(?w, [])]"
    using h p e1 by (simp add: part_of_def wk_live_def)
  moreover have "chain_at (pos + word_of_nat (length tokens)) [(?w, [])]" by (simp add: chain_at_def)
  ultimately show ?case by blast
next
  case (Cons vq c)
  let ?K = "pe_kern E"
  obtain v where v: "vq = (v, [])" using Cons.prems(1) by (cases vq) auto
  let ?d = "eg_end (wk_engine w)"
  have h: "wk_live w" "wk_ok w" "\<not> wk_last w" "part_of ?K b False (wk_engine w)" "agree (wk_engine w) W b ?d"
    "chain_holds ?K W ?d ((v, []) # c)" using Cons.prems(1) v by auto
  have p: "closed_range ?K b ?d" "eg_begin (wk_engine w) = b" "?d \<le> kn_blocks ?K + 1" "b \<le> ?d" "b \<le> kn_blocks ?K + 1"
    using h by (auto simp: part_of_def)
  let ?W1 = "fold (part ?K single tokens pos) [b..<?d] W"
  from worker_run_mid[OF K(1) p(1) h(5) p(2) refl p(3) n(1,2) Cons.prems(3) n(3) refl, of pos]
  obtain e1 where e1: "worker_run ?K False tokens pos (shown single W) (wk_engine w) = Some e1" "agree e1 ?W1 b ?d"
    "shown (length tokens = 1) e1 = shown single ?W1" "length (shown single ?W1) = length tokens" "eg_begin e1 = b" "eg_end e1 = ?d"
    by blast
  let ?w = "w\<lparr>wk_phase := WRun, wk_engine := e1, wk_my := pos + word_of_nat (length tokens)\<rparr>"
  have "(if length tokens = 1 then [eg_x e1] else take (length tokens) (eg_pb e1)) = shown single ?W1"
    using e1(3,4) by (auto simp: shown_def split: if_splits)
  then have "worker_step E f w = (?w, [FXB pos tokens (shown single ?W1)])"
    using worker_step_carries[OF Cons.prems(2) h(1,2) K(2)] e1(1) h(3) by simp
  then have st: "chain_step E False ((w, [f]) # vq # c) ((?w, []) # (v, [FXB pos tokens (shown single ?W1)]) # c, [])"
    using chain_step.take_frame[OF h(1), of E f ?w _ "(v, []) # c"] v by simp
  have kv: "eg_kv W i = eg_kv ?W1 i" if "?d \<le> i" for i
    using part_fold[of ?K single tokens pos "[b..<?d]" W] that by simp
  have "chain_holds ?K ?W1 ?d ((v, []) # c)" using chain_holds_cong[OF kv h(6)] .
  moreover have "carries (FXB pos tokens (shown single ?W1)) pos tokens (shown single ?W1)" by (simp add: carries_def)
  ultimately obtain v' c' where r:
    "chain_runs E ((v, [FXB pos tokens (shown single ?W1)]) # c) ((v', []) # c') [FLogits (eg_logits (fold (part ?K single tokens pos) [?d..<n_layers ?K] ?W1))]"
    "chain_holds ?K (fold (part ?K single tokens pos) [?d..<n_layers ?K] ?W1) ?d ((v', []) # c')"
    "chain_at (pos + word_of_nat (length tokens)) ((v', []) # c')" using Cons.IH[of ?W1 ?d v] e1(4) by blast
  have le: "?d \<le> n_layers ?K" using chain_holds_le[OF h(6)] .
  have "[b..<n_layers ?K] = [b..<?d] @ [?d..<n_layers ?K]" using upt_add_eq_append[OF p(4), of "n_layers ?K - ?d"] le by simp
  then have W2: "fold (part ?K single tokens pos) [b..<n_layers ?K] W = fold (part ?K single tokens pos) [?d..<n_layers ?K] ?W1" by simp
  let ?W2 = "fold (part ?K single tokens pos) [?d..<n_layers ?K] ?W1"
  have "agree e1 ?W2 b ?d"
    using e1(2) part_fold[of ?K single tokens pos "[?d..<n_layers ?K]" ?W1] by (simp add: agree_def)
  moreover have "part_of ?K b False e1" using h(4) e1(5,6) by (simp add: part_of_def)
  ultimately have "chain_holds ?K ?W2 b ((?w, []) # (v', []) # c')"
    unfolding chain_holds.simps(2)[of ?K ?W2 b ?w "[]" "(v', []) # c'"]
    using r(2) h(2,3) by (simp add: wk_live_def e1(6) del: chain_holds.simps)
  moreover have "chain_at (pos + word_of_nat (length tokens)) ((?w, []) # (v', []) # c')" using r(3) by (simp add: chain_at_def)
  moreover have "chain_runs E ((w, [f]) # vq # c) ((?w, []) # (v', []) # c') [FLogits (eg_logits ?W2)]"
    using chain_runs.more[OF st runs_later[OF r(1)]] by simp
  ultimately show ?case unfolding W2 by blast
qed

subsection \<open>The master and the workers\<close>

text \<open>What is assumed of the environment: exact activations, as many logits as the vocabulary has
  tokens, a sampler that always chooses, a client that takes everything.\<close>

definition net_ok :: "'k pipe_env \<Rightarrow> bool" where
  "net_ok E \<longleftrightarrow> kern_ok (pe_kern E) \<and> \<not> pe_fp16 E \<and> 0 < pe_vocab E
     \<and> (\<forall>x. length (kn_head (pe_kern E) x) = pe_vocab E)
     \<and> (\<forall>y rng. \<exists>t l r. pe_sample E y rng = Some (t, l, r) \<and> length l = length y)
     \<and> (\<forall>n. pe_emit E n) \<and> (\<forall>p. pe_prog E p)"

definition in_step :: "'k pipe_env \<Rightarrow> 'k net_engine \<Rightarrow> 'k net_engine \<Rightarrow> 'k chain \<Rightarrow> bool" where
  "in_step E e W c \<longleftrightarrow> part_of (pe_kern E) 0 False e \<and> eg_end e \<le> trunk (pe_kern E) + 1 \<and> agree e W 0 (eg_end e)
     \<and> length (eg_logits e) \<le> pe_vocab E \<and> eg_begin W = 0 \<and> eg_end W = n_layers (pe_kern E)
     \<and> c \<noteq> [] \<and> chain_holds (pe_kern E) W (eg_end e) c"

lemma chain_holds_logits [simp]: "chain_holds K (W\<lparr>eg_logits := l\<rparr>) b c = chain_holds K W b c"
  by (rule iffI; rule chain_holds_cong) auto

lemma in_step_logits:
  "in_step E e W c \<Longrightarrow> length l \<le> pe_vocab E \<Longrightarrow> in_step E (e\<lparr>eg_logits := l\<rparr>) (W\<lparr>eg_logits := m\<rparr>) c"
  by (simp add: in_step_def part_of_def agree_def)

lemma got_logits_ok:
  "net_ok E \<Longrightarrow> length (eg_logits e) \<le> pe_vocab E \<Longrightarrow> length y = pe_vocab E \<Longrightarrow>
    got_logits E e (Some (FLogits y)) = Some (e\<lparr>eg_logits := y\<rparr>)"
  by (auto simp: got_logits_def net_ok_def Let_def)

lemma pipe_relay:
  assumes ok: "net_ok E" and n: "tokens \<noteq> []" "length tokens \<le> PB_MAX" "single \<Longrightarrow> length tokens = 1"
    and c: "c \<noteq> []" "chain_holds (pe_kern E) W b c" and f: "carries f pos tokens (shown single W)" "length (shown single W) = length tokens"
  shows "\<exists>c'. (pipe_step E)\<^sup>*\<^sup>* (Send f p, c, lq)
      (p, c', lq @ [FLogits (eg_logits (fold (part (pe_kern E) single tokens pos) [b..<n_layers (pe_kern E)] W))])
    \<and> c' \<noteq> [] \<and> chain_holds (pe_kern E) (fold (part (pe_kern E) single tokens pos) [b..<n_layers (pe_kern E)] W) b c'
    \<and> chain_at (pos + word_of_nat (length tokens)) c'"
proof -
  obtain w c0 where c0: "c = (w, []) # c0" using c by (cases c) auto
  have K: "kern_ok (pe_kern E)" "\<not> pe_fp16 E" using ok by (auto simp: net_ok_def)
  from relay[OF K n c(2)[unfolded c0] f] obtain w' c' where r:
    "chain_runs E ((w, [f]) # c0) ((w', []) # c') [FLogits (eg_logits (fold (part (pe_kern E) single tokens pos) [b..<n_layers (pe_kern E)] W))]"
    "chain_holds (pe_kern E) (fold (part (pe_kern E) single tokens pos) [b..<n_layers (pe_kern E)] W) b ((w', []) # c')"
    "chain_at (pos + word_of_nat (length tokens)) ((w', []) # c')" by blast
  have "pipe_step E (Send f p, c, lq) (p, (w, [f]) # c0, lq)" using pipe_step.send[of f c "(w, [f]) # c0" "[]" E p lq] c0 by simp
  then have "(pipe_step E)\<^sup>*\<^sup>* (Send f p, c, lq)
      (p, (w', []) # c', lq @ [FLogits (eg_logits (fold (part (pe_kern E) single tokens pos) [b..<n_layers (pe_kern E)] W))])"
    using runs_pipe[OF r(1), of p lq] by (rule converse_rtranclp_into_rtranclp)
  then show ?thesis using r(2,3) by blast
qed

lemma logits_length:
  assumes "net_ok E" "b \<le> kn_blocks (pe_kern E) + 1"
  shows "length (eg_logits (fold (part (pe_kern E) single tokens pos) [b..<n_layers (pe_kern E)] W)) = pe_vocab E"
  using assms(1) unfolding range_tail[OF assms(2)] fold_append o_apply tail_part by (simp add: net_ok_def)

text \<open>The first part of a forward pass, on the master and on the single engine.\<close>

lemma fold_split: "b \<le> d \<Longrightarrow> d \<le> (n :: nat) \<Longrightarrow> fold f [b..<n] W = fold f [d..<n] (fold f [b..<d] W)"
  using upt_add_eq_append[of b d "n - d"] by simp

lemma master_token:
  assumes "in_step E e W c" "net_ok E"
  defines "K \<equiv> pe_kern E" and "d \<equiv> eg_end e"
  shows "eg_x (engine_forward_range K t True pos e) = eg_x (fold (token_layer K t pos) [0..<d] (W\<lparr>eg_x := kn_embed K t\<rparr>))
    \<and> agree (engine_forward_range K t True pos e) (fold (token_layer K t pos) [0..<d] (W\<lparr>eg_x := kn_embed K t\<rparr>)) 0 d"
proof -
  have h: "eg_begin e = 0" "closed_range K 0 d" "d \<le> kn_blocks K + 1" "agree e W 0 d"
    using assms by (auto simp: in_step_def part_of_def)
  have m: "engine_forward_range K t True pos e = fold (token_layer K t pos) [0..<d] (e\<lparr>eg_x := kn_embed K t\<rparr>)"
    unfolding forward_range_fold layer_range_def using h(1) d_def by simp
  let ?R = "\<lambda>e W :: 'a net_engine. agree e W 0 d \<and> eg_x e = eg_x W"
  have "?R (fold (token_layer K t pos) [0..<d] (e\<lparr>eg_x := kn_embed K t\<rparr>)) (fold (token_layer K t pos) [0..<d] (W\<lparr>eg_x := kn_embed K t\<rparr>))"
  proof (rule fold_related[where R = ?R])
    show "?R (token_layer K t pos i e) (token_layer K t pos i W)" if "i \<in> set [0..<d]" "?R e W" for i e W
      by (rule token_token[OF h(2)]) (use that in auto)
    show "?R (e\<lparr>eg_x := kn_embed K t\<rparr>) (W\<lparr>eg_x := kn_embed K t\<rparr>)" using h(4) by (simp add: agree_def)
  qed
  then show ?thesis unfolding m by blast
qed

lemma fold_same: "(\<And>i e. i \<in> set is \<Longrightarrow> f i e = g i e) \<Longrightarrow> fold f is e = fold g is e"
  by (induction "is" arbitrary: e) auto

lemma master_batch:
  assumes "in_step E e W c" "net_ok E" "tokens \<noteq> []" "length tokens \<le> PB_MAX"
  defines "K \<equiv> pe_kern E" and "d \<equiv> eg_end e"
  shows "\<exists>e1. engine_forward_batch_tokens K tokens pos e = Some e1
    \<and> eg_pb e1 = eg_pb (fold (batch_layer K tokens pos) [0..<d] (W\<lparr>eg_pb := map (kn_embed K) tokens\<rparr>)) \<and> length (eg_pb e1) = length tokens
    \<and> agree e1 (fold (batch_layer K tokens pos) [0..<d] (W\<lparr>eg_pb := map (kn_embed K) tokens\<rparr>)) 0 d
    \<and> eg_begin e1 = 0 \<and> eg_end e1 = d \<and> eg_logits e1 = eg_logits e"
proof -
  have h: "eg_begin e = 0" "closed_range K 0 d" "d \<le> trunk K + 1" "agree e W 0 d"
    using assms by (auto simp: in_step_def part_of_def)
  let ?e = "fold (batch_layer K tokens pos) [0..<d] (e\<lparr>eg_pb := map (kn_embed K) tokens\<rparr>)"
  have "fold (\<lambda>i e. if i = 0 \<or> i > kn_blocks K then e else batch_block K tokens pos i e) [0..<d] (e\<lparr>eg_pb := map (kn_embed K) tokens\<rparr>) = ?e"
    by (rule fold_same) (use h(3) trunk_le[of K] in \<open>auto simp: batch_layer_def\<close>)
  then have m: "engine_forward_batch_tokens K tokens pos e = Some ?e"
    using assms(3,4) h(1) d_def by (simp add: engine_forward_batch_tokens_def layer_range_def Let_def)
  let ?R = "\<lambda>e W :: 'a net_engine. agree e W 0 d \<and> eg_pb e = eg_pb W"
  have "?R ?e (fold (batch_layer K tokens pos) [0..<d] (W\<lparr>eg_pb := map (kn_embed K) tokens\<rparr>))"
  proof (rule fold_related[where R = ?R])
    show "?R (batch_layer K tokens pos i e) (batch_layer K tokens pos i W)" if "i \<in> set [0..<d]" "?R e W" for i e W
      by (rule batch_batch[OF h(2)]) (use that in auto)
    show "?R (e\<lparr>eg_pb := map (kn_embed K) tokens\<rparr>) (W\<lparr>eg_pb := map (kn_embed K) tokens\<rparr>)" using h(4) by (simp add: agree_def)
  qed
  moreover have "length (eg_pb ?e) = length tokens"
    using batch_length[of K tokens pos] assms(2) K_def by (simp add: net_ok_def)
  moreover have lg: "eg_logits (fold (batch_layer K tokens pos) is e') = eg_logits e'" if "set is \<subseteq> {..<d}" for "is" e'
    using that h(3) trunk_le[of K]
    by (induction "is" arbitrary: e') (auto simp: batch_layer_def batch_block_def split: prod.splits)
  have "set [0..<d] \<subseteq> {..<d}" by auto
  then have "eg_logits ?e = eg_logits e" using lg[of "[0..<d]" "e\<lparr>eg_pb := map (kn_embed K) tokens\<rparr>"] by simp
  ultimately show ?thesis using m h(1) d_def by auto
qed

lemma in_step_intro:
  assumes "in_step E e W c" "part_fold_of = fold (part (pe_kern E) single tokens pos) [eg_end e..<n_layers (pe_kern E)] W1"
    and "agree e1 W1 0 (eg_end e)" "eg_begin e1 = 0" "eg_end e1 = eg_end e" "length (eg_logits e1) \<le> pe_vocab E"
    and "eg_begin W1 = 0" "eg_end W1 = n_layers (pe_kern E)" "c' \<noteq> []" "chain_holds (pe_kern E) part_fold_of (eg_end e) c'"
  shows "in_step E e1 part_fold_of c'"
proof -
  have "agree e1 part_fold_of 0 (eg_end e)"
    using assms(3) part_fold[of "pe_kern E" single tokens pos "[eg_end e..<n_layers (pe_kern E)]" W1]
    unfolding assms(2) by (simp add: agree_def)
  then show ?thesis
    using assms part_fold[of "pe_kern E" single tokens pos "[eg_end e..<n_layers (pe_kern E)]" W1]
    by (simp add: in_step_def part_of_def)
qed

lemma end_le: "in_step E e W c \<Longrightarrow> eg_end e \<le> kn_blocks (pe_kern E) + 1" "in_step E e W c \<Longrightarrow> eg_end e \<le> n_layers (pe_kern E)"
  by (auto simp: in_step_def part_of_def n_layers_def)

lemma token_logits: "set is \<subseteq> {..kn_blocks K} \<Longrightarrow> eg_logits (fold (token_layer K t pos) is e) = eg_logits e"
proof (induction "is" arbitrary: e)
  case (Cons i "is")
  then have "i = 0 \<or> i \<le> trunk K \<or> (kn_mtp K \<and> i = kn_blocks K)" by (auto simp: trunk_def split: if_splits)
  then have "eg_logits (token_layer K t pos i e) = eg_logits e"
    by (auto simp: token_layer_def forward_layer_def split: prod.splits)
  then show ?case using Cons by simp
qed simp

text \<open>One token: the master computes its layers and sends, the others answer.\<close>

lemma send_token:
  assumes i: "in_step E e W c" and ok: "net_ok E"
    and e1_def: "e1 = engine_forward_range (pe_kern E) t True pos e" and W1_def: "W1 = engine_forward (pe_kern E) t pos W"
  shows "\<exists>c'. (pipe_step E)\<^sup>*\<^sup>* (Send (FX pos t (wire (pe_fp16 E) (eg_x e1))) p, c, lq) (p, c', lq @ [FLogits (eg_logits W1)])
    \<and> in_step E e1 W1 c' \<and> chain_at (pos + 1) c' \<and> length (eg_logits W1) = pe_vocab E"
proof -
  let ?K = "pe_kern E" and ?d = "eg_end e"
  let ?W0 = "fold (token_layer ?K t pos) [0..<?d] (W\<lparr>eg_x := kn_embed ?K t\<rparr>)"
  have h: "eg_begin W = 0" "eg_end W = n_layers ?K" "chain_holds ?K W ?d c" "c \<noteq> []" "eg_begin e = 0" "length (eg_logits e) \<le> pe_vocab E"
    using i by (auto simp: in_step_def part_of_def)
  from master_token[OF i ok, of t pos] have m: "eg_x e1 = eg_x ?W0" "agree e1 ?W0 0 ?d" by (auto simp: e1_def)
  have W1: "W1 = fold (part ?K True [t] pos) [?d..<n_layers ?K] ?W0"
    unfolding W1_def engine_forward_def forward_range_fold layer_range_def 
    using h fold_split[OF le0 end_le(2)[OF i], of "token_layer ?K t pos" "W\<lparr>eg_x := kn_embed ?K t\<rparr>"] by (simp add: part_def)
  have "chain_holds ?K ?W0 ?d c"
    by (rule chain_holds_cong[OF _ h(3)]) (use token_fold[of ?K t pos "[0..<?d]"] in simp)
  from pipe_relay[OF ok _ _ _ h(4) this, of "[t]" True "FX pos t (eg_x e1)" pos p lq] obtain c' where c':
    "(pipe_step E)\<^sup>*\<^sup>* (Send (FX pos t (eg_x e1)) p, c, lq) (p, c', lq @ [FLogits (eg_logits W1)])"
    "c' \<noteq> []" "chain_holds ?K W1 ?d c'" "chain_at (pos + 1) c'"
    using m(1) W1 by (auto simp: carries_def shown_def PB_MAX_def)
  have "eg_begin e1 = 0" "eg_end e1 = ?d" using h(5) by (simp_all add: e1_def forward_range_fold)
  moreover have "eg_logits e1 = eg_logits e"
    unfolding e1_def forward_range_fold layer_range_def
    using token_logits[of "[eg_begin e..<?d]" ?K] end_le(1)[OF i] by (auto simp: subset_iff)
  moreover have "eg_begin ?W0 = 0" "eg_end ?W0 = n_layers ?K" using h by simp_all
  ultimately have "in_step E e1 W1 c'" using in_step_intro[OF i W1 m(2)] c'(2,3) h(6) by simp
  moreover have "length (eg_logits W1) = pe_vocab E" unfolding W1 by (rule logits_length[OF ok end_le(1)[OF i]])
  ultimately show ?thesis using c'(1,4) ok by (auto simp: net_ok_def)
qed

lemma send_batch:
  assumes i: "in_step E e W c" and ok: "net_ok E" and n: "tokens \<noteq> []" "length tokens \<le> PB_MAX"
    and W1_def: "W1 = whole_batch (pe_kern E) tokens pos W"
  shows "\<exists>e1. engine_forward_batch_tokens (pe_kern E) tokens pos e = Some e1
    \<and> (\<forall>p lq. \<exists>c'. (pipe_step E)\<^sup>*\<^sup>* (Send (FXB pos tokens (map (wire (pe_fp16 E)) (take (length tokens) (eg_pb e1)))) p, c, lq)
        (p, c', lq @ [FLogits (eg_logits W1)])
      \<and> in_step E e1 W1 c' \<and> chain_at (pos + word_of_nat (length tokens)) c') \<and> length (eg_logits W1) = pe_vocab E"
proof -
  let ?K = "pe_kern E" and ?d = "eg_end e"
  let ?W0 = "fold (batch_layer ?K tokens pos) [0..<?d] (W\<lparr>eg_pb := map (kn_embed ?K) tokens\<rparr>)"
  have h: "eg_begin W = 0" "eg_end W = n_layers ?K" "chain_holds ?K W ?d c" "c \<noteq> []" "length (eg_logits e) \<le> pe_vocab E"
    using i by (auto simp: in_step_def part_of_def)
  from master_batch[OF i ok n, of pos] obtain e1 where m: "engine_forward_batch_tokens ?K tokens pos e = Some e1"
    "eg_pb e1 = eg_pb ?W0" "length (eg_pb e1) = length tokens" "agree e1 ?W0 0 ?d" "eg_begin e1 = 0" "eg_end e1 = ?d" "eg_logits e1 = eg_logits e"
    by blast
  have W1: "W1 = fold (part ?K False tokens pos) [?d..<n_layers ?K] ?W0"
    unfolding W1_def whole_batch_def using fold_split[OF le0 end_le(2)[OF i], of "batch_layer ?K tokens pos" "W\<lparr>eg_pb := map (kn_embed ?K) tokens\<rparr>"]
    by (simp add: part_def)
  have hold: "chain_holds ?K ?W0 ?d c"
    by (rule chain_holds_cong[OF _ h(3)]) (use batch_fold[of ?K tokens pos "[0..<?d]"] in simp)
  have fp: "\<not> pe_fp16 E" using ok by (simp add: net_ok_def)
  have "\<exists>c'. (pipe_step E)\<^sup>*\<^sup>* (Send (FXB pos tokens (map (wire (pe_fp16 E)) (take (length tokens) (eg_pb e1)))) p, c, lq)
        (p, c', lq @ [FLogits (eg_logits W1)])
      \<and> in_step E e1 W1 c' \<and> chain_at (pos + word_of_nat (length tokens)) c'" for p lq
  proof -
    from pipe_relay[OF ok n _ h(4) hold, of False "FXB pos tokens (eg_pb e1)" pos p lq] obtain c' where c':
      "(pipe_step E)\<^sup>*\<^sup>* (Send (FXB pos tokens (eg_pb e1)) p, c, lq) (p, c', lq @ [FLogits (eg_logits W1)])"
      "c' \<noteq> []" "chain_holds ?K W1 ?d c'" "chain_at (pos + word_of_nat (length tokens)) c'"
      using m(2,3) W1 by (auto simp: carries_def shown_def)
    have "eg_begin ?W0 = 0" "eg_end ?W0 = n_layers ?K" using h by simp_all
    then have "in_step E e1 W1 c'" using in_step_intro[OF i W1 m(4)] m(5-7) c'(2,3) h(5) by simp
    then show ?thesis using c'(1,4) m(3) fp by auto
  qed
  moreover have "length (eg_logits W1) = pe_vocab E" unfolding W1 by (rule logits_length[OF ok end_le(1)[OF i]])
  ultimately show ?thesis using m(1) by blast
qed

subsection \<open>The loops of the master\<close>

lemma take_answer:
  assumes "net_ok E" "in_step E e W c" "length (eg_logits W) = pe_vocab E"
  shows "got_logits E e (Some (FLogits (eg_logits W))) = Some (e\<lparr>eg_logits := eg_logits W\<rparr>)
    \<and> in_step E (e\<lparr>eg_logits := eg_logits W\<rparr>) W c"
proof -
  have "length (eg_logits e) \<le> pe_vocab E" using assms(2) by (simp add: in_step_def)
  then have "got_logits E e (Some (FLogits (eg_logits W))) = Some (e\<lparr>eg_logits := eg_logits W\<rparr>)"
    using got_logits_ok[OF assms(1) _ assms(3)] by blast
  moreover have "in_step E (e\<lparr>eg_logits := eg_logits W\<rparr>) (W\<lparr>eg_logits := eg_logits W\<rparr>) c"
    using in_step_logits[OF assms(2), of "eg_logits W" "eg_logits W"] assms(3) by simp
  ultimately show ?thesis by simp
qed

lemma prefill_run:
  fixes k :: "bool \<Rightarrow> u32 \<Rightarrow> 'k net_engine \<Rightarrow> 'r proc"
  assumes ok: "net_ok E"
  shows "ids \<noteq> [] \<Longrightarrow> in_step E e W c \<Longrightarrow> whole_prefill E ids pos W = (pos', W') \<Longrightarrow>
    \<exists>e' c'. (pipe_step E)\<^sup>*\<^sup>* (dist_prefill E ids pos e k, c, []) (k True pos' e', c', [FLogits (eg_logits W')])
      \<and> in_step E e' W' c' \<and> chain_at pos' c' \<and> length (eg_logits W') = pe_vocab E"
proof (induction "length ids" arbitrary: ids pos e W c rule: less_induct)
  case less
  define nb where "nb = min PP_XB (length ids)"
  let ?b = "take nb ids" and ?r = "drop nb ids"
  have b: "?b \<noteq> []" "length ?b \<le> PB_MAX" "length ?b = nb" "0 < nb"
    using less.prems(1) by (auto simp: nb_def PP_XB_def PB_MAX_def)
  let ?W1 = "whole_batch (pe_kern E) ?b pos W" and ?p1 = "pos + word_of_nat nb"
  from send_batch[OF less.prems(2) ok b(1,2) refl, of pos] obtain e1 where e1:
    "engine_forward_batch_tokens (pe_kern E) ?b pos e = Some e1" "length (eg_logits ?W1) = pe_vocab E"
    and s: "\<And>(p :: 'r proc) lq. \<exists>c'. (pipe_step E)\<^sup>*\<^sup>* (Send (FXB pos ?b (map (wire (pe_fp16 E)) (take nb (eg_pb e1)))) p, c, lq) (p, c', lq @ [FLogits (eg_logits ?W1)])
      \<and> in_step E e1 ?W1 c' \<and> chain_at ?p1 c'" unfolding b(3) by blast
  let ?next = "if ?r = [] then k True ?p1 e1
      else Recv (\<lambda>f. case got_logits E e1 f of None \<Rightarrow> k False ?p1 e1 | Some e \<Rightarrow> dist_prefill E ?r ?p1 e k)"
  have d: "dist_prefill E ids pos e k = Send (FXB pos ?b (map (wire (pe_fp16 E)) (take nb (eg_pb e1)))) ?next"
    using less.prems(1) e1(1) ok by (subst dist_prefill.simps) (simp add: Let_def net_ok_def nb_def[symmetric] cong: if_cong)
  have w: "whole_prefill E ids pos W = whole_prefill E ?r ?p1 ?W1"
    using less.prems(1) by (subst whole_prefill.simps) (simp add: Let_def nb_def[symmetric])
  from s[of ?next "[]"] obtain c' where c': "(pipe_step E)\<^sup>*\<^sup>* (dist_prefill E ids pos e k, c, []) (?next, c', [FLogits (eg_logits ?W1)])"
    "in_step E e1 ?W1 c'" "chain_at ?p1 c'" unfolding d by auto
  show ?case
  proof (cases "?r = []")
    case True
    then have "pos' = ?p1" "W' = ?W1" using less.prems(3) unfolding w by (simp_all add: whole_prefill.simps[of E "[]"])
    then show ?thesis using c' e1(2) True by auto
  next
    case False
    from take_answer[OF ok c'(2) e1(2)] have a: "got_logits E e1 (Some (FLogits (eg_logits ?W1))) = Some (e1\<lparr>eg_logits := eg_logits ?W1\<rparr>)"
      "in_step E (e1\<lparr>eg_logits := eg_logits ?W1\<rparr>) ?W1 c'" by auto
    have "pipe_step E (?next, c', [FLogits (eg_logits ?W1)]) (dist_prefill E ?r ?p1 (e1\<lparr>eg_logits := eg_logits ?W1\<rparr>) k, c', [])"
      unfolding if_not_P[OF False]
      using pipe_step.recv[of E "\<lambda>f. case got_logits E e1 f of None \<Rightarrow> k False ?p1 e1 | Some e \<Rightarrow> dist_prefill E ?r ?p1 e k" c'
        "FLogits (eg_logits ?W1)" "[]"] unfolding a(1) option.case .
    with c'(1) have run: "(pipe_step E)\<^sup>*\<^sup>* (dist_prefill E ids pos e k, c, []) (dist_prefill E ?r ?p1 (e1\<lparr>eg_logits := eg_logits ?W1\<rparr>) k, c', [])"
      by (rule rtranclp.rtrancl_into_rtrancl)
    have "length ?r < length ids" using b(4) less.prems(1) by simp
    from less.hyps[OF this False a(2)] obtain e' c'' where
      "(pipe_step E)\<^sup>*\<^sup>* (dist_prefill E ?r ?p1 (e1\<lparr>eg_logits := eg_logits ?W1\<rparr>) k, c', []) (k True pos' e', c'', [FLogits (eg_logits W')])"
      "in_step E e' W' c'' \<and> chain_at pos' c'' \<and> length (eg_logits W') = pe_vocab E"
      using less.prems(3) unfolding w by blast
    then show ?thesis using rtranclp_trans[OF run] by blast
  qed
qed

lemma decode_run:
  assumes ok: "net_ok E"
  shows "in_step E e W c \<Longrightarrow> length (eg_logits W) = pe_vocab E \<Longrightarrow> chain_at pos c \<Longrightarrow> pend \<or> 0 < i \<and> unat pos < pe_max_seq E
    \<Longrightarrow> whole_decode E i gen pos W rng = (gen', pos', W') \<Longrightarrow>
    \<exists>e' c' pend' y. (pipe_step E)\<^sup>*\<^sup>* (dist_decode E i pend gen pos e rng k, c, [FLogits (eg_logits W)])
        (k True pend' gen' (length gen') pos' e', c', if pend' then [FLogits y] else [])
      \<and> in_step E e' W' c' \<and> chain_at pos' c'"
proof (induction i arbitrary: pend gen pos e W c rng)
  case 0
  then show ?case by (auto intro!: exI[of _ e] exI[of _ c] exI[of _ True])
next
  case (Suc i)
  show ?case
  proof (cases "unat pos \<ge> pe_max_seq E")
    case True
    then have "pend" "gen' = gen" "pos' = pos" "W' = W" using Suc.prems(4,5) by auto
    then show ?thesis using Suc.prems(1-3) True by (auto intro!: exI[of _ e] exI[of _ c] exI[of _ True])
  next
    case False
    from take_answer[OF ok Suc.prems(1,2)] have a: "got_logits E e (Some (FLogits (eg_logits W))) = Some (e\<lparr>eg_logits := eg_logits W\<rparr>)"
      "in_step E (e\<lparr>eg_logits := eg_logits W\<rparr>) W c" by auto
    obtain t l r where sm: "pe_sample E (eg_logits W) rng = Some (t, l, r)" "length l = length (eg_logits W)"
      using ok unfolding net_ok_def by blast
    let ?e = "e\<lparr>eg_logits := l\<rparr>" and ?W = "W\<lparr>eg_logits := l\<rparr>"
    have j: "in_step E ?e ?W c" using in_step_logits[OF Suc.prems(1), of l l] sm(2) Suc.prems(2) by simp
    let ?cont = "if t = eos_token E then k True False gen (length gen) pos ?e
        else let e = engine_forward_range (pe_kern E) t True pos ?e in
          Send (FX pos t (wire (pe_fp16 E) (eg_x e))) (dist_decode E i True (gen @ [t]) (pos + 1) e r k)"
    have "pipe_step E (dist_decode E (Suc i) pend gen pos e rng k, c, [FLogits (eg_logits W)]) (?cont, c, [])"
    proof -
      let ?k = "\<lambda>f. case got_logits E e f of
          None \<Rightarrow> k False pend gen (length gen) pos e
        | Some e \<Rightarrow>
          (case pe_sample E (eg_logits e) rng of
             None \<Rightarrow> k False False gen (length gen) pos e
           | Some (nxt, l, rng) \<Rightarrow>
             let e = e\<lparr>eg_logits := l\<rparr> in
             if nxt = eos_token E then k True False gen (length gen) pos e
             else let e = engine_forward_range (pe_kern E) nxt True pos e in
               Send (FX pos nxt (wire (pe_fp16 E) (eg_x e)))
                 (if \<not> pe_emit E (length gen) then k False False gen (Suc (length gen)) pos e
                  else dist_decode E i True (gen @ [nxt]) (pos + 1) e rng k))"
      have fk: "?k (Some (FLogits (eg_logits W))) = ?cont" using a(1) sm(1) ok by (simp add: net_ok_def Let_def)
      have dk: "dist_decode E (Suc i) pend gen pos e rng k = Recv ?k" using False by simp
      show ?thesis unfolding dk fk[symmetric] by (rule pipe_step.recv)
    qed
    note first = converse_rtranclp_into_rtranclp[where r = "pipe_step E", OF this]
    show ?thesis
    proof (cases "t = eos_token E")
      case True
      then have "gen' = gen" "pos' = pos" "W' = ?W" using Suc.prems(5) False sm(1) by (auto simp: Let_def)
      then show ?thesis using first[OF rtranclp.rtrancl_refl] True j Suc.prems(3)
        by (auto intro!: exI[of _ ?e] exI[of _ c] exI[of _ False])
    next
      case neq: False
      let ?e1 = "engine_forward_range (pe_kern E) t True pos ?e" and ?W1 = "engine_forward (pe_kern E) t pos ?W"
      from send_token[OF j ok refl refl, of pos t "dist_decode E i True (gen @ [t]) (pos + 1) ?e1 r k" "[]"] obtain c1 where c1:
        "(pipe_step E)\<^sup>*\<^sup>* (?cont, c, []) (dist_decode E i True (gen @ [t]) (pos + 1) ?e1 r k, c1, [FLogits (eg_logits ?W1)])"
        "in_step E ?e1 ?W1 c1" "chain_at (pos + 1) c1" "length (eg_logits ?W1) = pe_vocab E"
        using neq by (auto simp: Let_def)
      have "whole_decode E i (gen @ [t]) (pos + 1) ?W1 r = (gen', pos', W')"
        using Suc.prems(5) False sm(1) neq by (simp add: Let_def)
      from Suc.IH[OF c1(2,4,3) disjI1[OF TrueI] this] obtain e' c' pend' y where
        run: "(pipe_step E)\<^sup>*\<^sup>* (dist_decode E i True (gen @ [t]) (pos + 1) ?e1 r k, c1, [FLogits (eg_logits ?W1)])
          (k True pend' gen' (length gen') pos' e', c', if pend' then [FLogits y] else [])"
        and fin: "in_step E e' W' c' \<and> chain_at pos' c'" by blast
      show ?thesis
        by (rule exI[of _ e'], rule exI[of _ c'], rule exI[of _ pend'], rule exI[of _ y], rule conjI,
            rule first[OF rtranclp_trans[OF c1(1) run]], rule fin)
    qed
  qed
qed

subsection \<open>The whole exchange\<close>

definition ended :: "'k worker \<times> dist_frame list \<Rightarrow> 'k worker \<times> dist_frame list" where
  "ended = (\<lambda>(w, q). (w\<lparr>wk_phase := WEnd\<rparr>, q))"

definition greet :: "string \<Rightarrow> u32 \<Rightarrow> 'k worker \<times> dist_frame list \<Rightarrow> 'k worker \<times> dist_frame list" where
  "greet key p = (\<lambda>(w, q). (fst (worker_handshake key p w), q))"

text \<open>Workers that wait for a handshake; the chain after the handshake of a session.\<close>

fun chain_waits :: "'k chain \<Rightarrow> bool" where
  "chain_waits [] = True"
| "chain_waits ((w, q) # c) \<longleftrightarrow> q = [] \<and> wk_phase w = WHand \<and> (wk_last w \<longleftrightarrow> c = []) \<and> chain_waits c"

definition open_chain :: "(string \<times> u32) option \<Rightarrow> 'k chain \<Rightarrow> 'k chain" where
  "open_chain sess c = (case sess of None \<Rightarrow> c | Some (key, p) \<Rightarrow> map (greet (snprintf_s 64 key) p) c)"

lemma done_runs:
  "chain_holds K W b ((w, []) # c) \<Longrightarrow> chain_runs E ((w, [FDone]) # c) (map ended ((w, []) # c)) []"
proof (induction c arbitrary: b w)
  case Nil
  then have "chain_step E False [(w, [FDone])] ([(w\<lparr>wk_phase := WEnd\<rparr>, [])], [])"
    using chain_step.take_frame[of w E FDone "w\<lparr>wk_phase := WEnd\<rparr>" "[]" "[]" "[]"]
    by (auto simp: worker_step_def worker_loop_def split: phase.splits)
  then show ?case using chain_runs.more[OF _ chain_runs.none] by (force simp: ended_def)
next
  case (Cons vq c)
  obtain v where v: "vq = (v, [])" using Cons.prems by (cases vq) auto
  have "chain_step E False ((w, [FDone]) # vq # c) ((w\<lparr>wk_phase := WEnd\<rparr>, []) # (v, [FDone]) # c, [])"
    using Cons.prems v chain_step.take_frame[of w E FDone "w\<lparr>wk_phase := WEnd\<rparr>" "[FDone]" "(v, []) # c"]
    by (auto simp: worker_step_def worker_loop_def split: phase.splits)
  moreover have "chain_runs E ((v, [FDone]) # c) (map ended ((v, []) # c)) []" using Cons.IH Cons.prems v by auto
  ultimately show ?case using chain_runs.more[OF _ runs_later] v by (force simp: ended_def)
qed

lemma greet_runs:
  "chain_waits ((w, []) # c) \<Longrightarrow> chain_runs E ((w, [FSess key p]) # c) (map (greet key p) ((w, []) # c)) []"
proof (induction c arbitrary: w)
  case Nil
  then have "chain_step E False [(w, [FSess key p])] ([(fst (worker_handshake key p w), [])], [])"
    using chain_step.take_frame[of w E "FSess key p" "fst (worker_handshake key p w)" "[]" "[]" "[]"]
    by (auto simp: worker_step_def worker_handshake_def wk_live_def)
  then show ?case using chain_runs.more[OF _ chain_runs.none] by (force simp: greet_def)
next
  case (Cons vq c)
  obtain v where v: "vq = (v, [])" using Cons.prems by (cases vq) auto
  have "chain_step E False ((w, [FSess key p]) # vq # c) ((fst (worker_handshake key p w), []) # (v, [FSess key p]) # c, [])"
    using Cons.prems v chain_step.take_frame[of w E "FSess key p" "fst (worker_handshake key p w)" "[FSess key p]" "(v, []) # c"]
    by (auto simp: worker_step_def worker_handshake_def wk_live_def)
  moreover have "chain_runs E ((v, [FSess key p]) # c) (map (greet key p) ((v, []) # c)) []" using Cons.IH Cons.prems v by auto
  ultimately show ?case using chain_runs.more[OF _ runs_later] v by (force simp: greet_def)
qed

lemma ended_stuck:
  "\<not> chain_step E up (map ended c) r"
proof (induction c arbitrary: up r)
  case (Cons wq c)
  obtain w q where "wq = (w, q)" by (cases wq)
  moreover obtain c' l where "r = (c', l)" by (cases r)
  ultimately show ?case using Cons by (auto simp: ended_def wk_live_def elim!: chain_step_Cons)
qed auto

lemma over_stuck: "stuck (pipe_step E) (Halt r, map ended c, lq)"
proof -
  have "\<not> pipe_step E (Halt r, map ended c, lq) u" for u
    by (rule notI, erule pipe_step_cases) (auto simp: ended_stuck)
  then show ?thesis by (simp add: stuck_def)
qed

lemma finish_run:
  assumes "in_step E e W c"
  shows "(pipe_step E)\<^sup>*\<^sup>* (dist_finish ok gen n pos e, c, [])
    (Halt \<lparr>oc_ok = ok, oc_pos = pos, oc_engine = e, oc_tokens = gen, oc_calls = n\<rparr>, map ended c, [])"
proof -
  let ?h = "Halt \<lparr>oc_ok = ok, oc_pos = pos, oc_engine = e, oc_tokens = gen, oc_calls = n\<rparr>"
  have h: "c \<noteq> []" "chain_holds (pe_kern E) W (eg_end e) c" using assms by (auto simp: in_step_def)
  then obtain w c0 where c: "c = (w, []) # c0" by (cases c) auto
  have "pipe_step E (Send FDone ?h, c, []) (?h, (w, [FDone]) # c0, [])"
    using pipe_step.send[of "FDone" c "(w, [FDone]) # c0" "[]" E ?h "[]"] c by simp
  then show ?thesis
    using runs_pipe[OF done_runs[OF h(2)[unfolded c]], of E ?h "[]"] c
    by (auto simp: dist_finish_def intro: converse_rtranclp_into_rtranclp)
qed

lemma eos_run:
  assumes ok: "net_ok E" and i: "in_step E e W c" and at: "chain_at pos c"
    and W': "(pos', W') = (if sess \<and> unat pos < pe_max_seq E then (pos + 1, engine_forward (pe_kern E) (eos_token E) pos W) else (pos, W))"
  shows "\<exists>e' c'. (pipe_step E)\<^sup>*\<^sup>* (dist_eos E sess True gen n pos e, c, [])
      (Halt \<lparr>oc_ok = True, oc_pos = pos', oc_engine = e', oc_tokens = gen, oc_calls = n\<rparr>, map ended c', [])
    \<and> in_step E e' W' c' \<and> chain_at pos' c'"
proof (cases "sess \<and> unat pos < pe_max_seq E")
  case False
  then have "dist_eos E sess True gen n pos e = dist_finish True gen n pos e" by (auto simp: dist_eos_def)
  moreover have "pos' = pos" "W' = W" using False W' by auto
  ultimately show ?thesis using finish_run[OF i, of True gen n pos] i at by metis
next
  case True
  let ?e1 = "engine_forward_range (pe_kern E) (eos_token E) True pos e"
  let ?W1 = "engine_forward (pe_kern E) (eos_token E) pos W"
  let ?p = "Recv (\<lambda>_. dist_finish True gen n (pos + 1) ?e1)"
  from send_token[OF i ok refl refl, of pos "eos_token E" ?p "[]"] obtain c1 where c1:
    "(pipe_step E)\<^sup>*\<^sup>* (Send (FX pos (eos_token E) (wire (pe_fp16 E) (eg_x ?e1))) ?p, c, []) (?p, c1, [FLogits (eg_logits ?W1)])"
    "in_step E ?e1 ?W1 c1" "chain_at (pos + 1) c1" by auto
  have "pipe_step E (?p, c1, [FLogits (eg_logits ?W1)]) (dist_finish True gen n (pos + 1) ?e1, c1, [])" by (rule pipe_step.recv)
  with c1(1) have "(pipe_step E)\<^sup>*\<^sup>* (dist_eos E sess True gen n pos e, c, []) (dist_finish True gen n (pos + 1) ?e1, c1, [])"
    using True by (auto simp: dist_eos_def Let_def)
  from rtranclp_trans[OF this finish_run[OF c1(2)]] c1(2,3) show ?thesis using True W' by auto
qed

lemma close_run:
  assumes ok: "net_ok E" and i: "in_step E e W c" and at: "chain_at pos c"
    and W': "(pos', W') = (if sess \<and> unat pos < pe_max_seq E then (pos + 1, engine_forward (pe_kern E) (eos_token E) pos W) else (pos, W))"
  shows "\<exists>e' c'. (pipe_step E)\<^sup>*\<^sup>* (dist_close_up E sess True pend gen n pos e, c, if pend then [FLogits y] else [])
      (Halt \<lparr>oc_ok = True, oc_pos = pos', oc_engine = e', oc_tokens = gen, oc_calls = n\<rparr>, map ended c', [])
    \<and> in_step E e' W' c' \<and> chain_at pos' c'"
proof -
  have "(pipe_step E)\<^sup>*\<^sup>* (dist_close_up E sess True pend gen n pos e, c, if pend then [FLogits y] else []) (dist_eos E sess True gen n pos e, c, [])"
  proof (cases pend)
    case True
    then show ?thesis using pipe_step.recv[of E "\<lambda>_. dist_eos E sess True gen n pos e" c "FLogits y" "[]"] by (auto simp: dist_close_up_def)
  qed (simp add: dist_close_up_def)
  then show ?thesis using eos_run[OF assms, of gen n] by (meson rtranclp_trans)
qed

text \<open>The handshake of a session reaches every rank before the prompt.\<close>

lemma open_run:
  assumes w: "chain_waits c" and c: "c \<noteq> []"
    and P_def: "P = dist_prefill E ids (first_pos sess) e (\<lambda>ok pos e. if \<not> ok then dist_close_up E (sess \<noteq> None) False False [] 0 pos e
           else dist_decode E ntokens False [] pos e (pe_seed E) (dist_close_up E (sess \<noteq> None)))"
  shows "(pipe_step E)\<^sup>*\<^sup>* (dist_master E sess ids ntokens e, c, []) (P, open_chain sess c, [])"
proof (cases sess)
  case None
  show ?thesis unfolding dist_master_def P_def open_chain_def first_pos_def Let_def None option.case ..
next
  case (Some kp)
  obtain key p where kp: "kp = (key, p)" by (cases kp)
  obtain v c0 where v: "c = (v, []) # c0" using w c by (cases c) auto
  let ?k = "snprintf_s 64 key"
  have m: "dist_master E sess ids ntokens e = Send (FSess ?k p) P"
    unfolding dist_master_def Some kp P_def first_pos_def Let_def by simp
  have "pipe_step E (Send (FSess ?k p) P, c, []) (P, (v, [FSess ?k p]) # c0, [])"
    using pipe_step.send[of "FSess ?k p" c "(v, [FSess ?k p]) # c0" "[]" E P "[]"] v by simp
  moreover have "(pipe_step E)\<^sup>*\<^sup>* (P, (v, [FSess ?k p]) # c0, []) (P, open_chain sess c, [])"
    using runs_pipe[OF greet_runs[OF w[unfolded v], of E ?k p], of P "[]"] v Some kp by (simp add: open_chain_def)
  ultimately show ?thesis unfolding m by (rule converse_rtranclp_into_rtranclp)
qed

text \<open>C5: A pipeline of ranks computes what one engine with all the layers computes. Let the ranks wait
  for a request, hold together the layers of the model and, after the handshake, have the caches of
  the single engine for their layers. Then for a prompt that is not empty and leaves room in the
  context the pipeline can run to an end; there the master answers with the tokens and the position
  of the single engine, every rank has the single engine's caches for its layers and stands at that
  position, and nothing is left on a connection and no step is possible.\<close>

theorem pipeline_is_whole:
  assumes ok: "net_ok E" and ready: "chain_waits c" "in_step E e W (open_chain sess c)"
    and n: "ids \<noteq> []" "0 < ntokens" and room: "unat (fst (whole_prefill E ids (first_pos sess) W)) < pe_max_seq E"
    and whole: "whole_generate E sess ids ntokens W = (gen, pos, W')"
  shows "\<exists>e' c'. in_step E e' W' c' \<and> chain_at pos c'
    \<and> (pipe_step E)\<^sup>*\<^sup>* (dist_master E sess ids ntokens e, c, [])
        (Halt \<lparr>oc_ok = True, oc_pos = pos, oc_engine = e', oc_tokens = gen, oc_calls = length gen\<rparr>, map ended c', [])
    \<and> stuck (pipe_step E)
        (Halt \<lparr>oc_ok = True, oc_pos = pos, oc_engine = e', oc_tokens = gen, oc_calls = length gen\<rparr>, map ended c', [])"
proof -
  let ?s = "sess \<noteq> None"
  let ?k = "\<lambda>ok pos e. if \<not> ok then dist_close_up E ?s False False [] 0 pos e
           else dist_decode E ntokens False [] pos e (pe_seed E) (dist_close_up E ?s)"
  have "c \<noteq> []" using ready(2) by (auto simp: in_step_def open_chain_def split: option.splits)
  note start = open_run[OF ready(1) this refl]
  obtain p1 W1 where p1: "whole_prefill E ids (first_pos sess) W = (p1, W1)" by fastforce
  obtain g p2 W2 where g: "whole_decode E ntokens [] p1 W1 (pe_seed E) = (g, p2, W2)" by (metis prod_cases3)
  have fin: "g = gen" "(pos, W') = (if ?s \<and> unat p2 < pe_max_seq E then (p2 + 1, engine_forward (pe_kern E) (eos_token E) p2 W2) else (p2, W2))"
    using whole unfolding whole_generate_def p1 prod.case g prod.case by (auto split: if_splits)
  from prefill_run[OF ok n(1) ready(2) p1, of ?k] obtain e1 c1 where e1:
    "(pipe_step E)\<^sup>*\<^sup>* (dist_prefill E ids (first_pos sess) e ?k, open_chain sess c, [])
       (dist_decode E ntokens False [] p1 e1 (pe_seed E) (dist_close_up E ?s), c1, [FLogits (eg_logits W1)])"
    "in_step E e1 W1 c1" "chain_at p1 c1" "length (eg_logits W1) = pe_vocab E" by auto
  have "False \<or> 0 < ntokens \<and> unat p1 < pe_max_seq E" using n(2) room p1 by simp
  from decode_run[OF ok e1(2,4,3) this g, of "dist_close_up E ?s"] obtain e2 c2 pend y where e2:
    "(pipe_step E)\<^sup>*\<^sup>* (dist_decode E ntokens False [] p1 e1 (pe_seed E) (dist_close_up E ?s), c1, [FLogits (eg_logits W1)])
       (dist_close_up E ?s True pend g (length g) p2 e2, c2, if pend then [FLogits y] else [])"
    "in_step E e2 W2 c2" "chain_at p2 c2" by blast
  from close_run[OF ok e2(2,3) fin(2), of pend gen "length gen" y] obtain e3 c3 where e3:
    "(pipe_step E)\<^sup>*\<^sup>* (dist_close_up E ?s True pend gen (length gen) p2 e2, c2, if pend then [FLogits y] else [])
      (Halt \<lparr>oc_ok = True, oc_pos = pos, oc_engine = e3, oc_tokens = gen, oc_calls = length gen\<rparr>, map ended c3, [])"
    "in_step E e3 W' c3" "chain_at pos c3" by blast
  note run = rtranclp_trans[OF rtranclp_trans[OF rtranclp_trans[OF start[where sess = sess and ntokens = ntokens] e1(1)] e2(1)[unfolded fin(1)]] e3(1)]
  show ?thesis by (intro exI[of _ e3] exI[of _ c3] conjI e3(2,3) run over_stuck)
qed

text \<open>A model with two blocks on two ranks: the prompt has two tokens, the answer one token and \<open>eos\<close>.\<close>

definition two_kern :: "(activation, u32 list, u32 list) kern" where
  "two_kern = \<lparr>kn_blocks = 2, kn_mtp = False, kn_embed = (\<lambda>t. [t]),
     kn_block = (\<lambda>i t pos own src x. (map (\<lambda>v. v + t + word_of_nat (length src)) x, own @ [t])),
     kn_batch = (\<lambda>i ts pos own src xs. (map (map (\<lambda>v. v + hd ts + word_of_nat (length src))) xs, own @ ts)),
     kn_source = (\<lambda>i. i), kn_norm = (\<lambda>x. x), kn_head = (\<lambda>x. [hd x, 5])\<rparr>"

definition two_env :: "u32 list pipe_env" where
  "two_env = \<lparr>pe_kern = two_kern, pe_vocab = 2, pe_max_seq = 16, pe_eos = 0, pe_seed = 0,
     pe_sample = (\<lambda>y rng. Some (if rng = 0 then 1 else 0, y, rng + 1)), pe_emit = (\<lambda>n. True), pe_prog = (\<lambda>p. True), pe_fp16 = False\<rparr>"

definition two_engine :: "nat \<Rightarrow> nat \<Rightarrow> u32 list net_engine" where
  "two_engine b d = \<lparr>eg_x = [], eg_pb = [], eg_logits = [], eg_kv = (\<lambda>i. []), eg_begin = b, eg_end = d\<rparr>"

definition two_worker :: "u32 list worker" where
  "two_worker = worker_begin 1 True [] \<lparr>pr_engine = two_engine 2 5, pr_key = [], pr_pos = 0, pr_disk = (\<lambda>f. None)\<rparr>"

lemma two_ok: "net_ok two_env"
  by (auto simp: net_ok_def kern_ok_def two_env_def two_kern_def)

lemma two_ready:
  "chain_waits [(two_worker, [])] \<and> in_step two_env (two_engine 0 2) (two_engine 0 5) (open_chain (Some (''s'', 0)) [(two_worker, [])])"
  by (auto simp: two_worker_def worker_begin_def two_engine_def two_env_def two_kern_def in_step_def part_of_def closed_range_def agree_def
      trunk_def n_layers_def open_chain_def greet_def worker_handshake_def worker_restore_def worker_align_def wk_live_def)

lemma two_prefill: "\<exists>e. whole_prefill two_env [1, 1] 0 (two_engine 0 5) = (2, e)"
  by (simp add: whole_prefill.simps PP_XB_def)

lemma two_whole: "\<exists>e. whole_generate two_env (Some (''s'', 0)) [1, 1] 2 (two_engine 0 5) = ([1], 4, e)"
proof -
  obtain e where "whole_prefill two_env [1, 1] 0 (two_engine 0 5) = (2, e)" using two_prefill by blast
  then show ?thesis unfolding numeral_2_eq_2
    by (auto simp: whole_generate_def first_pos_def two_env_def eos_token_def Let_def)
qed

theorem pipeline_is_whole_witness:
  "\<exists>W' e' c'. in_step two_env e' W' c' \<and> chain_at 4 c'
    \<and> (pipe_step two_env)\<^sup>*\<^sup>* (dist_master two_env (Some (''s'', 0)) [1, 1] 2 (two_engine 0 2), [(two_worker, [])], [])
        (Halt \<lparr>oc_ok = True, oc_pos = 4, oc_engine = e', oc_tokens = [1], oc_calls = 1\<rparr>, map ended c', [])"
proof -
  obtain W' where w: "whole_generate two_env (Some (''s'', 0)) [1, 1] 2 (two_engine 0 5) = ([1], 4, W')" using two_whole by blast
  have "unat (fst (whole_prefill two_env [1, 1] (first_pos (Some (''s'', 0))) (two_engine 0 5))) < pe_max_seq two_env"
    using two_prefill by (auto simp: first_pos_def two_env_def)
  from pipeline_is_whole[OF two_ok two_ready[THEN conjunct1] two_ready[THEN conjunct2] list.distinct(2) zero_less_numeral this w]
  obtain e' c' where "in_step two_env e' W' c' \<and> chain_at 4 c'
    \<and> (pipe_step two_env)\<^sup>*\<^sup>* (dist_master two_env (Some (''s'', 0)) [1, 1] 2 (two_engine 0 2), [(two_worker, [])], [])
        (Halt \<lparr>oc_ok = True, oc_pos = 4, oc_engine = e', oc_tokens = [1], oc_calls = length [1 :: u32]\<rparr>, map ended c', [])" by blast
  then show ?thesis by auto
qed

subsection \<open>The ranks of a split model\<close>











subsection \<open>Every order of the steps\<close>




end
