(* ===== verification/Spec2Isabelle.thy ===== *)
theory Spec2Isabelle
  imports Announce SessTurn ServerLease ChatApi Detok PromptTurn ServerRank PipeWhole
begin

text \<open>
  Verification library for yllm, an inference engine for language models written in C with a
  distributed serving layer. Paths below are relative to \<open>src/\<close>.

  The program. A supervisor (\<open>serve/supervisor.c\<close>) spawns rank processes, which hold the layers
  of a model, and server processes. A server (\<open>serve/server.c\<close>) leases ranks from the
  supervisor, renders a request to tokens, looks up the session of the client and sends the
  leader rank the tokens it does not know yet; the answer is relayed and the session extended.
  A router (\<open>serve/router.c\<close>) learns of the servers from the supervisor and forwards each
  request to one of them; its HTTP side (\<open>serve/router_http.c\<close>) offers the OpenAI interface.
  All of them talk in lines and frames over TCP (\<open>serve/frame.h\<close>, \<open>serve/protocol.h\<close>).

  Theories and the code they model.
  \<^item> \<open>YPrelude\<close>: bytes, C strings (\<open>strchr\<close>, \<open>strstr\<close>, \<open>snprintf\<close>, \<open>atoi\<close>), the type \<open>run\<close> of
    results (\<open>Ret\<close> a value, \<open>Fault\<close> undefined behaviour, \<open>Diverge\<close> a loop or lock that
    never ends) and decoders of byte streams. \<open>ByteCodec\<close>: little-endian words.
  \<^item> \<open>SessTable\<close> and \<open>SessFiles\<close>: \<open>inference/core/cache.c\<close>, the session table with LRU
    replacement, the session files, the KV files and the scan of the cache directory.
  \<^item> \<open>Wire\<close>: lines, frames and payload frames. \<open>NodeInfo\<close>: \<open>serve/node.h\<close>, the node record and
    its heartbeat line. \<open>Json\<close>: \<open>serve/json.h\<close>, the reader of request bodies.
  \<^item> \<open>RouterTable\<close>: the server table of the router, the choice of a server, and the
    forwarding of a request. \<open>RateLimit\<close>: queue limit and the sliding window of requests
    and tokens. \<open>Http\<close>: \<open>serve/http.h\<close>. \<open>ChatCodec\<close>: the text formats of the HTTP interface
    (events, escapes, base64, packed messages). \<open>ChatApi\<close>: its handlers and the dispatch.
  \<^item> \<open>Supervisor\<close>: the supervisor's node table, spawning, leasing, healing and main loop as
    functions on its state, with the processes and messages it starts as a list of actions;
    \<open>LeasePool\<close>: the lease pool (the locale of a pool of owned places, interpreted on the node
    table) and what holds over any sequence of turns; \<open>Announce\<close>: supervisor and router together.
  \<^item> \<open>SessMsgs\<close>, \<open>ServerSess\<close>, \<open>SessTurn\<close>: the session requests of the server, from the bytes of
    the client over the retries with the leader to the session that is left;
    \<open>ServerLease\<close>: its lease, the waiting for ranks, the counters and one connection.
  \<^item> \<open>CSort\<close>: \<open>strcmp\<close> and \<open>qsort\<close>. \<open>Vocab\<close>, \<open>VocabFile\<close>, \<open>VocabWrite\<close>: the vocabulary of
    \<open>inference/core/tokenizer.c\<close>, its two file formats, and the writer of the text format in
    \<open>inference/convert/convert_gguf.c\<close>. \<open>Bpe\<close>, \<open>BpeSpec\<close>: the three encoders and the locale of a
    merge rule, interpreted on the rule by ranks and the rule by scores. \<open>Detok\<close>: decoding.
    \<open>ChatTpl\<close>: the chat templates (expressions, conditions, parser, stack machine, built-in
    renderings); \<open>ChatSpec\<close>: template trees with their reference meaning. \<open>PromptTurn\<close>: the
    tokenizer as the parameter \<open>en_ids\<close> of the session server.

  \<^item> \<open>RankSess\<close>: the requests of a rank (\<open>serve/rank.c\<close>), with and without a session, and its KV
    files; \<open>RankSpec\<close>: what the KV cache means (rows as a function of the tokens) and that the
    requests keep it. \<open>RankQueue\<close>: the threads of a rank, the ring buffer of jobs behind the locale
    of a bounded queue, and draining, as step relations with fair runs. \<open>ServerRank\<close>: a rank as
    the leader of a server.
  \<^item> \<open>Config\<close>: \<open>serve/config.h\<close>, the defaults, \<open>serve.yaml\<close>, the command line and the filter by
    model names.
  \<^item> \<open>Engine\<close>: the order of the layers in \<open>inference/core/engine.c\<close>, over an abstract arithmetic.
    \<open>LayerSplit\<close>: \<open>dist_split_layers\<close> of \<open>inference/core/dist.c\<close>, which layers a rank holds.
    \<open>DistWire\<close>: the frames between ranks as bytes. \<open>Pipeline\<close>: \<open>dist_gen\<close>, the master as a process
    that sends and receives frames, the other ranks as state machines, and the steps of all
    of them. \<open>PipeSpec\<close>: steps of different ranks can be exchanged. \<open>PipeWhole\<close>: the pipeline
    against one engine that holds all layers.

  Conventions. A C string is a list of characters without the terminator, a buffer of size
  \<open>n\<close> cuts by \<open>snprintf_s n\<close>; \<open>uint32_t\<close> and \<open>uint64_t\<close> are 32 and 64 bit words; \<open>int\<close> counters are
  unbounded integers where the code cannot reach their bounds. A socket is the list of
  bytes the peer sends; what the program sends is a list of bytes that a handler returns. Locks
  are a flag, and taking a lock that is held is \<open>Diverge\<close>. Writes outside an array and the other
  undefined behaviour the code can reach are \<open>Fault\<close>.

  Parameters. The clock, \<open>malloc\<close> (a predicate on sizes), the process that \<open>fork\<close> returns, the
  answers of a peer (the bytes it sends to given bytes), the printing and parsing of
  floating-point numbers, \<open>qsort\<close> (any function that sorts), and of a rank the forward passes, the
  sampler, the pipeline over several ranks (in \<open>RankSess\<close>) and the visual request are arguments of
  the definitions, and of an engine the embedding, the blocks, the norm and the output matrix;
  scores are integers in units of \<open>2^-149\<close>, of which every finite \<open>float\<close> is a multiple.

  What is shown. Per component: invariants of the tables over any operations, exact
  functional behaviour of lookups, replacement and limits, round trips of every format that
  one part writes and another reads, bounds on buffers and retries, and termination with the
  exact exceptions. Across components: the announcement of a server makes it eligible at the
  router; a lease granted by the supervisor is what the server then uses; the messages packed
  by the HTTP side are read back by the server and become the tokens of their rendering; tokens of the backend reach the client as
  events that spell the same text; a rank as the leader of a server keeps in its KV cache the
  conversation the server keeps as tokens. Of a pipeline: the layers are split without
  gap or overlap and so that no rank reads a cache of another one; the order in which the ranks run does
  not matter; the pipeline gives the tokens, the position and the caches of one engine with all layers.

  Bounds. No definition takes fuel: loops are structural or have a termination proof. The
  tables have the sizes of the code (64 servers at the router, 256 nodes at the supervisor, 64
  peers in a lease); a session request makes at most 8 attempts; sessions hold at most
  \<open>2^31\<close> tokens before the growth of the buffer fails to end, and a prompt at most 65536.

  Not modelled. Floating point: the kernels, model architectures, vision towers and device backends
  have no exact specification here; of the engine only the order of the layers is modelled, without
  sampling, speculative decoding and the prefetching of weights. Calls of the operating system. Threads
  and the interleaving of connections, but for the rank's queue and the pipeline: elsewhere handlers are
  atomic, as the code holds its mutex in them. In the pipeline connections are already open, hold any
  number of frames, and a send to a closed one goes unnoticed. The model file reader, the visual
  requests, the start of the processes and the converters.
\<close>

end
